(* ===== verification/Prelude.thy ===== *)
theory Prelude
  imports Main "HOL-Library.Word"
begin

text \<open>
  Shared vocabulary of the development: the machine types of
  \<^verbatim>\<open>kernel/libk/types.h\<close> on the 32-bit MIPS target, the error codes of
  \<^verbatim>\<open>kernel/libk/errno.h\<close>, the fact collections the component theories fill, and
  generic lemmas on words, lists and function update.

  On the modelled target \<^verbatim>\<open>uint_t\<close> is a 32-bit word. Counters and indices whose range is
  bounded far below \<open>2 ^ 32\<close> by a structural invariant are \<open>nat\<close>; every place where
  the code depends on a width (8-bit and 16-bit fields, bit masks, tick counters) keeps it.
\<close>

unbundle bit_operations_syntax

named_theorems bitmap_simps \<open>bit-level characterisation of the bitmap operations\<close>
named_theorems inv_defs \<open>definitions of the component invariants\<close>
named_theorems op_defs \<open>definitions of the component operations\<close>

type_synonym uint_t = "32 word"
type_synonym error_t = int

abbreviation EPERM :: error_t where "EPERM \<equiv> 1"
abbreviation EAGAIN :: error_t where "EAGAIN \<equiv> 11"
abbreviation ENOMEM :: error_t where "ENOMEM \<equiv> 12"
abbreviation EBUSY :: error_t where "EBUSY \<equiv> 16"
abbreviation EEXIST :: error_t where "EEXIST \<equiv> 17"
abbreviation EINVAL :: error_t where "EINVAL \<equiv> 22"
abbreviation EDEADLK :: error_t where "EDEADLK \<equiv> 35"

section \<open>Words\<close>

lemma bit_push_bit_32 [bitmap_simps]:
  "bit (push_bit n (w::uint_t)) k \<longleftrightarrow> n \<le> k \<and> k < 32 \<and> bit w (k - n)"
  by (auto simp: bit_simps)

lemma exp_minus_one_mask [bitmap_simps]: "push_bit n (1::uint_t) - 1 = mask n"
  by (simp add: mask_eq_exp_minus_1)

lemma bit_mask_32 [bitmap_simps]: "bit (mask n :: uint_t) k \<longleftrightarrow> k < 32 \<and> k < n"
  by (auto simp: bit_simps)

lemma bit_lt_32: "bit (w::uint_t) k \<Longrightarrow> k < 32"
  using bit_imp_le_length [of w k] by simp

lemma test_bit_and_exp [bitmap_simps]:
  "w AND 2 ^ j \<noteq> (0::uint_t) \<longleftrightarrow> bit w j" "w AND 2 ^ j = (0::uint_t) \<longleftrightarrow> \<not> bit w j"
  by (simp_all add: and_exp_eq_0_iff_not_bit)

lemma eq_div_mod_32: "(k::nat) = i \<longleftrightarrow> k div 32 = i div 32 \<and> k mod 32 = i mod 32"
  by (metis div_mult_mod_eq)

lemma word_zero_iff_no_bit: "(w::uint_t) = 0 \<longleftrightarrow> (\<forall>j<32. \<not> bit w j)"
  by (auto intro!: bit_eqI dest: bit_lt_32)

lemma word_minus_one_iff_all_bits: "(w::uint_t) = -1 \<longleftrightarrow> (\<forall>j<32. bit w j)"
  by (auto intro!: bit_eqI dest: bit_lt_32)

lemma unat_lt_32: "unat (w::uint_t) < 2 ^ 32"
  using unsigned_less [of w] by simp

lemma unat_of_nat_32: "n < 2 ^ 32 \<Longrightarrow> unat (of_nat n :: uint_t) = n"
  by (simp add: unat_of_nat take_bit_nat_eq_self)

section \<open>Lists\<close>

lemma nth_list_update_if:
  "k < length xs \<Longrightarrow> xs[i := v] ! k = (if i = k then v else xs ! k)"
  by simp

lemma hd_in_set_neq: "xs \<noteq> [] \<Longrightarrow> hd xs \<in> set xs"
  by (cases xs) auto

lemma distinct_remove1_subset: "distinct xs \<Longrightarrow> set (remove1 x xs) = set xs - {x}"
  by simp

lemma filter_neq_remove1: "distinct xs \<Longrightarrow> filter (\<lambda>y. y \<noteq> x) xs = remove1 x xs"
  by (simp add: distinct_remove1_removeAll removeAll_filter_not_eq) metis

end
