(* ===== verification/Bits.thy ===== *)
theory Bits
  imports Prelude
begin

text \<open>
  The bitmap library \<^verbatim>\<open>kernel/libk/bits.h\<close>, \<^verbatim>\<open>kernel/libk/bits.c\<close>: arrays of
  32-bit words used by the object caches, the radix tree and the file systems. A bitmap is the list
  of its words; an access outside the array is undefined behaviour in C, so every lemma bounds the
  index by the array's length. \<open>bm_bit\<close> reads a bitmap as a set of bit positions, and each
  operation is characterised by what it does to that set.
\<close>

type_synonym bitmap_t = "uint_t list"

section \<open>Rounding macros\<close>

definition ARROUND_UP :: "uint_t \<Rightarrow> uint_t \<Rightarrow> uint_t" where
  "ARROUND_UP val sz =
     (if val AND (sz - 1) \<noteq> 0 then (val AND NOT (sz - 1)) + sz else val)"

definition ARROUND_DOWN :: "uint_t \<Rightarrow> uint_t \<Rightarrow> uint_t" where
  "ARROUND_DOWN val sz = val AND NOT (sz - 1)"

section \<open>Single bits\<close>

definition bitmap_set :: "bitmap_t \<Rightarrow> nat \<Rightarrow> bitmap_t" where
  "bitmap_set bm index =
     (let i = index div 32; index = index mod 32
      in bm[i := bm ! i OR push_bit index 1])"

definition bitmap_clear :: "bitmap_t \<Rightarrow> nat \<Rightarrow> bitmap_t" where
  "bitmap_clear bm index =
     (let i = index div 32; index = index mod 32
      in bm[i := bm ! i AND NOT (push_bit index 1)])"

definition bitmap_state :: "bitmap_t \<Rightarrow> nat \<Rightarrow> bool" where
  "bitmap_state bm index =
     (let i = index div 32; index = index mod 32
      in bm ! i AND push_bit index 1 \<noteq> 0)"

section \<open>Searches\<close>

text \<open>The inner loops over the bits of one word, from bit \<open>j\<close> on.\<close>

function ffs_word :: "uint_t \<Rightarrow> nat \<Rightarrow> nat option" where
  "ffs_word w j =
     (if j < 32 then (if w AND push_bit j 1 \<noteq> 0 then Some j else ffs_word w (Suc j)) else None)"
  by pat_completeness auto
termination by (relation "measure (\<lambda>(w, j). 32 - j)") auto

function ffc_word :: "uint_t \<Rightarrow> nat \<Rightarrow> nat option" where
  "ffc_word w j =
     (if j < 32 then (if w AND push_bit j 1 = 0 then Some j else ffc_word w (Suc j)) else None)"
  by pat_completeness auto
termination by (relation "measure (\<lambda>(w, j). 32 - j)") auto

declare ffs_word.simps [simp del] ffc_word.simps [simp del]

text \<open>The outer loops over the words \<open>i .. n - 1\<close>; \<open>-1\<close> when they run out.\<close>

function ffs_words :: "bitmap_t \<Rightarrow> nat \<Rightarrow> nat \<Rightarrow> int" where
  "ffs_words bm i n =
     (if i < n
      then if bm ! i \<noteq> 0
           then (case ffs_word (bm ! i) 0 of
                   Some j \<Rightarrow> int (i * 32 + j)
                 | None \<Rightarrow> ffs_words bm (Suc i) n)
           else ffs_words bm (Suc i) n
      else -1)"
  by pat_completeness auto
termination by (relation "measure (\<lambda>(bm, i, n). n - i)") auto

function ffc_words :: "bitmap_t \<Rightarrow> nat \<Rightarrow> nat \<Rightarrow> int" where
  "ffc_words bm i n =
     (if i < n
      then if bm ! i \<noteq> -1
           then (case ffc_word (bm ! i) 0 of
                   Some j \<Rightarrow> int (i * 32 + j)
                 | None \<Rightarrow> ffc_words bm (Suc i) n)
           else ffc_words bm (Suc i) n
      else -1)"
  by pat_completeness auto
termination by (relation "measure (\<lambda>(bm, i, n). n - i)") auto

declare ffs_words.simps [simp del] ffc_words.simps [simp del]

text \<open>\<open>sz\<close> is in bytes, as in the code; \<^verbatim>\<open>size <<= 3\<close> converts it to bits.\<close>

definition bitmap_ffs2 :: "bitmap_t \<Rightarrow> nat \<Rightarrow> nat \<Rightarrow> int" where
  "bitmap_ffs2 bm index sz =
     (let i = index div 32; j = index mod 32; n = sz * 8 div 32
      in if j \<noteq> 0
         then (case ffs_word (bm ! i) j of
                 Some j \<Rightarrow> int (i * 32 + j)
               | None \<Rightarrow> ffs_words bm (Suc i) n)
         else ffs_words bm i n)"

definition bitmap_ffc2 :: "bitmap_t \<Rightarrow> nat \<Rightarrow> nat \<Rightarrow> int" where
  "bitmap_ffc2 bm index sz =
     (let i = index div 32; j = index mod 32; n = sz * 8 div 32
      in if j \<noteq> 0
         then (case ffc_word (bm ! i) j of
                 Some j \<Rightarrow> int (i * 32 + j)
               | None \<Rightarrow> ffc_words bm (Suc i) n)
         else ffc_words bm i n)"

definition bitmap_ffs :: "bitmap_t \<Rightarrow> nat \<Rightarrow> int" where
  "bitmap_ffs bm sz = ffs_words bm 0 (sz * 8 div 32)"

definition bitmap_ffc :: "bitmap_t \<Rightarrow> nat \<Rightarrow> int" where
  "bitmap_ffc bm sz = ffc_words bm 0 (sz * 8 div 32)"

section \<open>Ranges\<close>

text \<open>
  The \<^verbatim>\<open>while(len > 0)\<close> loops. The C parameters are signed; the model takes the
  non-negative values, for which the mixed signed/unsigned comparison of the code is the usual one.
  The recursion keeps \<open>index < 32\<close>, which holds from the initial \<^verbatim>\<open>index %= 32\<close> on.
\<close>

function set_range_loop :: "bitmap_t \<Rightarrow> nat \<Rightarrow> nat \<Rightarrow> nat \<Rightarrow> bitmap_t" where
  "set_range_loop bm i index len =
     (if len > 0
      then if len + index \<ge> 32
           then let val = (if index = 0 then -1 else push_bit (32 - index) 1 - 1)
                in set_range_loop (bm[i := bm ! i OR push_bit index val]) (Suc i) 0
                     (len - (32 - index))
           else bm[i := bm ! i OR push_bit index (push_bit len 1 - 1)]
      else bm)"
  by pat_completeness auto
termination
  by (relation "measure (\<lambda>(bm, i, index, len). len + (if index < 32 then 0 else 1))") auto

function clear_range_loop :: "bitmap_t \<Rightarrow> nat \<Rightarrow> nat \<Rightarrow> nat \<Rightarrow> bitmap_t" where
  "clear_range_loop bm i index len =
     (if len > 0
      then if len + index \<ge> 32
           then let val = (if index = 0 then -1 else push_bit (32 - index) 1 - 1)
                in clear_range_loop (bm[i := bm ! i AND NOT (push_bit index val)]) (Suc i) 0
                     (len - (32 - index))
           else bm[i := bm ! i AND NOT (push_bit index (push_bit len 1 - 1))]
      else bm)"
  by pat_completeness auto
termination
  by (relation "measure (\<lambda>(bm, i, index, len). len + (if index < 32 then 0 else 1))") auto

declare set_range_loop.simps [simp del] clear_range_loop.simps [simp del]

definition bitmap_set_range :: "bitmap_t \<Rightarrow> nat \<Rightarrow> nat \<Rightarrow> bitmap_t" where
  "bitmap_set_range bm index len = set_range_loop bm (index div 32) (index mod 32) len"

definition bitmap_clear_range :: "bitmap_t \<Rightarrow> nat \<Rightarrow> nat \<Rightarrow> bitmap_t" where
  "bitmap_clear_range bm index len = clear_range_loop bm (index div 32) (index mod 32) len"

section \<open>Bit counts\<close>

text \<open>The loop of \<^verbatim>\<open>bits_nr\<close>: shift right until the value is zero.\<close>

function bits_nr :: "uint_t \<Rightarrow> nat" where
  "bits_nr val = (if val > 0 then Suc (bits_nr (drop_bit 1 val)) else 0)"
  by pat_completeness auto
termination
  by (relation "measure unat") (auto simp: drop_bit_Suc unat_div_distrib word_less_nat_alt)

declare bits_nr.simps [simp del]

definition bits_log2 :: "uint_t \<Rightarrow> nat" where
  "bits_log2 val = (if val = 0 then 1 else bits_nr val - 1)"

section \<open>Bitmaps as sets of positions\<close>

definition bm_bit :: "bitmap_t \<Rightarrow> nat \<Rightarrow> bool" where
  "bm_bit bm k \<longleftrightarrow> bit (bm ! (k div 32)) (k mod 32)"

lemma div_lt_length: "k < 32 * n \<Longrightarrow> k div 32 < (n::nat)"
  by (simp add: less_mult_imp_div_less mult.commute)

lemma length_bitmap_ops [simp]:
  "length (bitmap_set bm i) = length bm" "length (bitmap_clear bm i) = length bm"
  by (simp_all add: bitmap_set_def bitmap_clear_def Let_def)

lemma bitmap_state_bit [bitmap_simps]: "bitmap_state bm k = bm_bit bm k"
  by (simp add: bitmap_state_def bm_bit_def Let_def bitmap_simps)

lemma bm_bit_set [bitmap_simps]:
  "k < 32 * length bm \<Longrightarrow> bm_bit (bitmap_set bm i) k \<longleftrightarrow> k = i \<or> bm_bit bm k"
  by (auto simp: bm_bit_def bitmap_set_def Let_def bit_simps nth_list_update_if [OF div_lt_length]
      eq_div_mod_32 [of k i])

lemma bm_bit_clear [bitmap_simps]:
  "k < 32 * length bm \<Longrightarrow> bm_bit (bitmap_clear bm i) k \<longleftrightarrow> k \<noteq> i \<and> bm_bit bm k"
  by (auto simp: bm_bit_def bitmap_clear_def Let_def bit_simps nth_list_update_if [OF div_lt_length]
      eq_div_mod_32 [of k i] dest: bit_lt_32)

lemma bm_bit_word: "j < 32 \<Longrightarrow> bm_bit bm (i * 32 + j) = bit (bm ! i) j"
  by (simp add: bm_bit_def)

lemma bm_bit_word_all:
  assumes "\<And>j. lo \<le> j \<Longrightarrow> j < hi \<Longrightarrow> Q (bit (bm ! i) j)" and "hi \<le> 32"
    and "i * 32 + lo \<le> k" and "k < i * 32 + hi"
  shows "Q (bm_bit bm k)"
proof -
  define j where "j = k - i * 32"
  with assms have j: "k = i * 32 + j" "lo \<le> j" "j < hi" by auto
  with assms(1,2) show ?thesis by (simp add: bm_bit_word)
qed

section \<open>What the searches return\<close>

text \<open>
  \<open>first_at P lo hi r\<close>: \<open>r\<close> is the least position of \<open>[lo, hi)\<close> where \<open>P\<close> holds,
  or \<open>-1\<close> when there is none.
\<close>

definition first_at :: "(nat \<Rightarrow> bool) \<Rightarrow> nat \<Rightarrow> nat \<Rightarrow> int \<Rightarrow> bool" where
  "first_at P lo hi r \<longleftrightarrow>
     (if r = -1 then \<forall>k. lo \<le> k \<and> k < hi \<longrightarrow> \<not> P k
      else 0 \<le> r \<and> lo \<le> nat r \<and> nat r < hi \<and> P (nat r) \<and> (\<forall>k. lo \<le> k \<and> k < nat r \<longrightarrow> \<not> P k))"

lemma first_at_none: "(\<And>k. lo \<le> k \<Longrightarrow> k < hi \<Longrightarrow> \<not> P k) \<Longrightarrow> first_at P lo hi (-1)"
  by (simp add: first_at_def)

lemma first_at_hit:
  "lo \<le> r \<Longrightarrow> r < hi \<Longrightarrow> P r \<Longrightarrow> (\<And>k. lo \<le> k \<Longrightarrow> k < r \<Longrightarrow> \<not> P k) \<Longrightarrow> first_at P lo hi (int r)"
  by (simp add: first_at_def)

lemma first_at_skip:
  assumes "first_at P mid hi r" and "\<And>k. lo \<le> k \<Longrightarrow> k < mid \<Longrightarrow> \<not> P k" and "lo \<le> mid"
  shows "first_at P lo hi r"
  using assms unfolding first_at_def by (auto split: if_splits) (meson not_le)+

lemma first_at_unique: "first_at P lo hi r \<Longrightarrow> first_at P lo hi r' \<Longrightarrow> r = r'"
  unfolding first_at_def by (auto split: if_splits) (metis linorder_neqE_nat nat_eq_iff2)+

lemma ffs_word_Some:
  "ffs_word w j = Some r \<Longrightarrow> j \<le> r \<and> r < 32 \<and> bit w r \<and> (\<forall>k. j \<le> k \<and> k < r \<longrightarrow> \<not> bit w k)"
proof (induction w j rule: ffs_word.induct)
  case (1 w j)
  then show ?case
    by (subst (asm) (2) ffs_word.simps)
       (auto simp: bitmap_simps split: if_splits dest: le_neq_implies_less)
qed

lemma ffs_word_None: "ffs_word w j = None \<Longrightarrow> j \<le> k \<Longrightarrow> \<not> bit w k"
proof (induction w j rule: ffs_word.induct)
  case (1 w j)
  then show ?case
    by (subst (asm) (2) ffs_word.simps)
       (auto simp: bitmap_simps split: if_splits dest: le_neq_implies_less bit_lt_32)
qed

lemma ffc_word_Some:
  "ffc_word w j = Some r \<Longrightarrow> j \<le> r \<and> r < 32 \<and> \<not> bit w r \<and> (\<forall>k. j \<le> k \<and> k < r \<longrightarrow> bit w k)"
proof (induction w j rule: ffc_word.induct)
  case (1 w j)
  then show ?case
    by (subst (asm) (2) ffc_word.simps)
       (auto simp: bitmap_simps split: if_splits dest: le_neq_implies_less)
qed

lemma ffc_word_None: "ffc_word w j = None \<Longrightarrow> j \<le> k \<Longrightarrow> k < 32 \<Longrightarrow> bit w k"
proof (induction w j rule: ffc_word.induct)
  case (1 w j)
  then show ?case
    by (subst (asm) (2) ffc_word.simps)
       (auto simp: bitmap_simps split: if_splits dest: le_neq_implies_less)
qed

text \<open>One word scanned from bit \<open>j\<close>, followed by the remaining words.\<close>

lemma first_at_ffs_step:
  assumes rest: "first_at (bm_bit bm) (Suc i * 32) hi r" and "j < 32" and "Suc i * 32 \<le> hi"
  shows "first_at (bm_bit bm) (i * 32 + j) hi
           (case ffs_word (bm ! i) j of Some j \<Rightarrow> int (i * 32 + j) | None \<Rightarrow> r)"
proof (cases "ffs_word (bm ! i) j")
  case None
  have "\<not> bm_bit bm k" if "i * 32 + j \<le> k" "k < Suc i * 32" for k
    by (rule bm_bit_word_all [where lo = j and hi = 32 and i = i])
       (use None that in \<open>auto dest: ffs_word_None\<close>)
  with None assms show ?thesis by (auto intro: first_at_skip)
next
  case (Some r)
  note r = ffs_word_Some [OF Some]
  have "\<not> bm_bit bm k" if "i * 32 + j \<le> k" "k < i * 32 + r" for k
    by (rule bm_bit_word_all [where lo = j and hi = r and i = i]) (use r that in auto)
  moreover have "bm_bit bm (i * 32 + r)" using r by (simp add: bm_bit_word)
  ultimately show ?thesis using Some r assms
    by (auto simp del: of_nat_add of_nat_mult intro: first_at_hit)
qed

lemma first_at_ffc_step:
  assumes rest: "first_at (\<lambda>k. \<not> bm_bit bm k) (Suc i * 32) hi r" and "j < 32" and "Suc i * 32 \<le> hi"
  shows "first_at (\<lambda>k. \<not> bm_bit bm k) (i * 32 + j) hi
           (case ffc_word (bm ! i) j of Some j \<Rightarrow> int (i * 32 + j) | None \<Rightarrow> r)"
proof (cases "ffc_word (bm ! i) j")
  case None
  have "bm_bit bm k" if "i * 32 + j \<le> k" "k < Suc i * 32" for k
    by (rule bm_bit_word_all [where lo = j and hi = 32 and i = i])
       (use None that in \<open>auto dest: ffc_word_None\<close>)
  with None assms show ?thesis by (auto intro: first_at_skip)
next
  case (Some r)
  note r = ffc_word_Some [OF Some]
  have "bm_bit bm k" if "i * 32 + j \<le> k" "k < i * 32 + r" for k
    by (rule bm_bit_word_all [where lo = j and hi = r and i = i]) (use r that in auto)
  moreover have "\<not> bm_bit bm (i * 32 + r)" using r by (simp add: bm_bit_word)
  ultimately show ?thesis using Some r assms
    by (auto simp del: of_nat_add of_nat_mult intro: first_at_hit)
qed

lemma ffs_words_first: "first_at (bm_bit bm) (i * 32) (n * 32) (ffs_words bm i n)"
proof (induction "n - i" arbitrary: i)
  case 0
  then show ?case by (auto simp: ffs_words.simps [of bm i n] intro!: first_at_none)
next
  case (Suc d)
  show ?case
  proof (cases "i < n")
    case False
    then show ?thesis by (auto simp: ffs_words.simps [of bm i n] intro!: first_at_none)
  next
    case True
    then have IH: "first_at (bm_bit bm) (Suc i * 32) (n * 32) (ffs_words bm (Suc i) n)"
      using Suc.hyps by (intro Suc.hyps) simp
    have zero: "ffs_word 0 0 = None"
      by (cases "ffs_word 0 0") (auto dest: ffs_word_Some)
    from first_at_ffs_step [OF IH, of 0] True zero show ?thesis
      by (auto simp: ffs_words.simps [of bm i n])
  qed
qed

lemma ffc_words_first: "first_at (\<lambda>k. \<not> bm_bit bm k) (i * 32) (n * 32) (ffc_words bm i n)"
proof (induction "n - i" arbitrary: i)
  case 0
  then show ?case by (auto simp: ffc_words.simps [of bm i n] intro!: first_at_none)
next
  case (Suc d)
  show ?case
  proof (cases "i < n")
    case False
    then show ?thesis by (auto simp: ffc_words.simps [of bm i n] intro!: first_at_none)
  next
    case True
    then have IH: "first_at (\<lambda>k. \<not> bm_bit bm k) (Suc i * 32) (n * 32) (ffc_words bm (Suc i) n)"
      using Suc.hyps by (intro Suc.hyps) simp
    have ones: "ffc_word (-1) 0 = None"
      by (cases "ffc_word (-1) 0") (auto dest: ffc_word_Some)
    from first_at_ffc_step [OF IH, of 0] True ones show ?thesis
      by (auto simp: ffc_words.simps [of bm i n])
  qed
qed

lemma next_word_le: "index \<le> 32 * n \<Longrightarrow> index mod 32 \<noteq> 0 \<Longrightarrow> Suc (index div 32) * 32 \<le> (n::nat) * 32"
  using div_lt_length [of index n] by (cases "index = 32 * n") auto

lemma bitmap_ffs2_first:
  assumes "index \<le> 32 * (sz * 8 div 32)"
  shows "first_at (bm_bit bm) index (32 * (sz * 8 div 32)) (bitmap_ffs2 bm index sz)"
proof -
  let ?i = "index div 32" and ?j = "index mod 32"
  define n where "n = sz * 8 div 32"
  note n = n_def [symmetric]
  have "first_at (bm_bit bm) index (32 * n) (bitmap_ffs2 bm index sz)"
  proof (cases "?j = 0")
    case True
    then have "index = ?i * 32" by presburger
    with True ffs_words_first [of bm ?i n] show ?thesis
      by (simp add: bitmap_ffs2_def Let_def mult.commute n)
  next
    case False
    from assms [unfolded n] False have "Suc ?i * 32 \<le> n * 32" by (rule next_word_le)
    moreover have "index = ?i * 32 + ?j" by simp
    ultimately show ?thesis
      using first_at_ffs_step [OF ffs_words_first [of bm "Suc ?i" n], of ?j] False
      by (simp add: bitmap_ffs2_def Let_def mult.commute n)
  qed
  then show ?thesis by (simp only: n_def)
qed

lemma bitmap_ffc2_first:
  assumes "index \<le> 32 * (sz * 8 div 32)"
  shows "first_at (\<lambda>k. \<not> bm_bit bm k) index (32 * (sz * 8 div 32)) (bitmap_ffc2 bm index sz)"
proof -
  let ?i = "index div 32" and ?j = "index mod 32"
  define n where "n = sz * 8 div 32"
  note n = n_def [symmetric]
  have "first_at (\<lambda>k. \<not> bm_bit bm k) index (32 * n) (bitmap_ffc2 bm index sz)"
  proof (cases "?j = 0")
    case True
    then have "index = ?i * 32" by presburger
    with True ffc_words_first [of bm ?i n] show ?thesis
      by (simp add: bitmap_ffc2_def Let_def mult.commute n)
  next
    case False
    from assms [unfolded n] False have "Suc ?i * 32 \<le> n * 32" by (rule next_word_le)
    moreover have "index = ?i * 32 + ?j" by simp
    ultimately show ?thesis
      using first_at_ffc_step [OF ffc_words_first [of bm "Suc ?i" n], of ?j] False
      by (simp add: bitmap_ffc2_def Let_def mult.commute n)
  qed
  then show ?thesis by (simp only: n_def)
qed

lemma bitmap_ffs_ffs2: "bitmap_ffs bm sz = bitmap_ffs2 bm 0 sz"
  by (simp add: bitmap_ffs_def bitmap_ffs2_def)

lemma bitmap_ffc_ffc2: "bitmap_ffc bm sz = bitmap_ffc2 bm 0 sz"
  by (simp add: bitmap_ffc_def bitmap_ffc2_def)

section \<open>What the range operations do\<close>

lemma length_set_range_loop [simp]: "length (set_range_loop bm i index len) = length bm"
proof (induction bm i index len rule: set_range_loop.induct)
  case (1 bm i index len)
  then show ?case by (simp add: set_range_loop.simps [of bm i index len] Let_def)
qed

lemma length_clear_range_loop [simp]: "length (clear_range_loop bm i index len) = length bm"
proof (induction bm i index len rule: clear_range_loop.induct)
  case (1 bm i index len)
  then show ?case by (simp add: clear_range_loop.simps [of bm i index len] Let_def)
qed

lemma bm_bit_or_mask:
  assumes "i < length bm" and "index + len \<le> 32" and "k < 32 * length bm"
  shows "bm_bit (bm[i := bm ! i OR push_bit index (mask len)]) k \<longleftrightarrow>
           bm_bit bm k \<or> (i * 32 + index \<le> k \<and> k < i * 32 + index + len)"
proof (cases "k div 32 = i")
  case True
  define r where "r = k mod 32"
  with True have r: "k = i * 32 + r" "r < 32" by auto
  then show ?thesis using assms by (auto simp: bm_bit_word bitmap_simps bit_or_iff)
next
  case False
  then have "\<not> (i * 32 + index \<le> k \<and> k < i * 32 + index + len)" using assms by auto
  then show ?thesis using False by (auto simp: bm_bit_def)
qed

lemma bm_bit_and_not_mask:
  assumes "i < length bm" and "index + len \<le> 32" and "k < 32 * length bm"
  shows "bm_bit (bm[i := bm ! i AND NOT (push_bit index (mask len))]) k \<longleftrightarrow>
           bm_bit bm k \<and> \<not> (i * 32 + index \<le> k \<and> k < i * 32 + index + len)"
proof (cases "k div 32 = i")
  case True
  define r where "r = k mod 32"
  with True have r: "k = i * 32 + r" "r < 32" by auto
  then show ?thesis using assms by (auto simp: bm_bit_word bitmap_simps bit_and_iff bit_not_iff)
next
  case False
  then have "\<not> (i * 32 + index \<le> k \<and> k < i * 32 + index + len)" using assms by auto
  then show ?thesis using False by (auto simp: bm_bit_def)
qed

lemma range_val_mask:
  "index < 32 \<Longrightarrow> (if index = 0 then -1 else push_bit (32 - index) 1 - 1 :: uint_t) = mask (32 - index)"
  by (auto simp: exp_minus_one_mask mask_full [symmetric] simp del: push_bit_of_1)

text \<open>The loops, once \<open>index\<close> is reduced below the word width.\<close>

lemma bm_bit_set_range_loop:
  assumes "index < 32" and "i * 32 + index + len \<le> 32 * length bm" and "k < 32 * length bm"
  shows "bm_bit (set_range_loop bm i index len) k \<longleftrightarrow>
           bm_bit bm k \<or> (i * 32 + index \<le> k \<and> k < i * 32 + index + len)"
  using assms
proof (induction bm i index len rule: set_range_loop.induct)
  case (1 bm i index len)
  note unfold = set_range_loop.simps [of bm i index len]
  consider (stop) "len = 0" | (last) "len > 0" "len + index < 32" | (step) "len > 0" "len + index \<ge> 32"
    by linarith
  then show ?case
  proof cases
    case stop
    then show ?thesis unfolding unfold by auto
  next
    case last
    then have "i < length bm" using "1.prems" by linarith
    with last "1.prems" show ?thesis
      by (simp add: unfold bm_bit_or_mask exp_minus_one_mask del: push_bit_of_1)
  next
    case step
    let ?bm = "bm[i := bm ! i OR push_bit index (mask (32 - index))]"
    have i: "i < length bm" using "1.prems" step by linarith
    have IH: "bm_bit (set_range_loop ?bm (Suc i) 0 (len - (32 - index))) k \<longleftrightarrow>
        bm_bit ?bm k \<or> (Suc i * 32 \<le> k \<and> k < Suc i * 32 + (len - (32 - index)))"
      using "1.IH" [OF step refl] "1.prems" step by (simp add: range_val_mask)
    then show ?thesis using step "1.prems" i
      by (auto simp: unfold range_val_mask bm_bit_or_mask Let_def)
  qed
qed

lemma bm_bit_clear_range_loop:
  assumes "index < 32" and "i * 32 + index + len \<le> 32 * length bm" and "k < 32 * length bm"
  shows "bm_bit (clear_range_loop bm i index len) k \<longleftrightarrow>
           bm_bit bm k \<and> \<not> (i * 32 + index \<le> k \<and> k < i * 32 + index + len)"
  using assms
proof (induction bm i index len rule: clear_range_loop.induct)
  case (1 bm i index len)
  note unfold = clear_range_loop.simps [of bm i index len]
  consider (stop) "len = 0" | (last) "len > 0" "len + index < 32" | (step) "len > 0" "len + index \<ge> 32"
    by linarith
  then show ?case
  proof cases
    case stop
    then show ?thesis unfolding unfold by auto
  next
    case last
    then have "i < length bm" using "1.prems" by linarith
    with last "1.prems" show ?thesis
      by (simp add: unfold bm_bit_and_not_mask exp_minus_one_mask del: push_bit_of_1)
  next
    case step
    let ?bm = "bm[i := bm ! i AND NOT (push_bit index (mask (32 - index)))]"
    have i: "i < length bm" using "1.prems" step by linarith
    have IH: "bm_bit (clear_range_loop ?bm (Suc i) 0 (len - (32 - index))) k \<longleftrightarrow>
        bm_bit ?bm k \<and> \<not> (Suc i * 32 \<le> k \<and> k < Suc i * 32 + (len - (32 - index)))"
      using "1.IH" [OF step refl] "1.prems" step by (simp add: range_val_mask)
    then show ?thesis using step "1.prems" i
      by (auto simp: unfold range_val_mask bm_bit_and_not_mask Let_def)
  qed
qed

lemma bm_bit_set_range [bitmap_simps]:
  "index + len \<le> 32 * length bm \<Longrightarrow> k < 32 * length bm \<Longrightarrow>
     bm_bit (bitmap_set_range bm index len) k \<longleftrightarrow> bm_bit bm k \<or> (index \<le> k \<and> k < index + len)"
  using bm_bit_set_range_loop [of "index mod 32" "index div 32" len bm k]
  by (simp add: bitmap_set_range_def)

lemma bm_bit_clear_range [bitmap_simps]:
  "index + len \<le> 32 * length bm \<Longrightarrow> k < 32 * length bm \<Longrightarrow>
     bm_bit (bitmap_clear_range bm index len) k \<longleftrightarrow> bm_bit bm k \<and> \<not> (index \<le> k \<and> k < index + len)"
  using bm_bit_clear_range_loop [of "index mod 32" "index div 32" len bm k]
  by (simp add: bitmap_clear_range_def)

lemma length_bitmap_range [simp]:
  "length (bitmap_set_range bm i n) = length bm" "length (bitmap_clear_range bm i n) = length bm"
  by (simp_all add: bitmap_set_range_def bitmap_clear_range_def)

section \<open>Rounding and logarithm\<close>

lemma unat_and_mask: "unat ((w::uint_t) AND mask k) = unat w mod 2 ^ k"
  by (simp only: take_bit_eq_mask [symmetric] unsigned_take_bit_eq) (simp add: take_bit_eq_mod)

lemma and_not_mask_shift: "(w::uint_t) AND NOT (mask k) = push_bit k (drop_bit k w)"
  by (rule bit_eqI) (auto simp: bit_simps bit_mask_32)

lemma unat_and_not_mask: "unat ((w::uint_t) AND NOT (mask k)) = unat w div 2 ^ k * 2 ^ k"
proof -
  have "unat w div 2 ^ k * 2 ^ k \<le> unat w" by (simp add: div_times_less_eq_dividend)
  moreover have w: "unat w < 2 ^ 32" using unsigned_less [of w] by simp
  ultimately have "unat w div 2 ^ k * 2 ^ k < 2 ^ 32" by linarith
  with w show ?thesis
    unfolding and_not_mask_shift unsigned_push_bit_eq unsigned_drop_bit_eq
    by (simp add: take_bit_eq_mod push_bit_eq_mult drop_bit_eq_div)
qed

lemma ARROUND_DOWN_pow2: "unat (ARROUND_DOWN val (2 ^ k)) = unat val div 2 ^ k * 2 ^ k"
  by (simp add: ARROUND_DOWN_def unat_and_not_mask flip: mask_eq_exp_minus_1)

lemma unat_pow2: "k < 32 \<Longrightarrow> unat (2 ^ k :: uint_t) = 2 ^ k"
proof -
  assume "k < 32"
  then have "(2::nat) ^ k < 2 ^ 32" by (rule power_strict_increasing) simp
  moreover have "unat (push_bit k (1::uint_t)) = take_bit 32 (push_bit k 1)"
    by (simp only: unsigned_push_bit_eq unsigned_1 len_bit0 len_num1 One_nat_def) simp
  ultimately show ?thesis by (simp add: take_bit_eq_mod)
qed

lemma ARROUND_UP_pow2:
  assumes "k < 32" and "unat val + 2 ^ k \<le> 2 ^ 32"
  shows "unat (ARROUND_UP val (2 ^ k)) = (unat val + 2 ^ k - 1) div 2 ^ k * 2 ^ k"
proof (cases "unat val mod 2 ^ k = 0")
  case True
  then have "val AND mask k = 0" using unat_and_mask [of val k] by (simp add: unat_eq_zero)
  moreover from True obtain q where "unat val = 2 ^ k * q" by auto
  moreover have "(2 ^ k * q + 2 ^ k - 1) div 2 ^ k = q"
  proof (rule div_nat_eqI)
    have pos: "(1::nat) \<le> 2 ^ k" by simp
    then show "2 ^ k * q \<le> 2 ^ k * q + 2 ^ k - 1" by linarith
    from pos show "2 ^ k * q + 2 ^ k - 1 < 2 ^ k * Suc q" by (simp only: mult_Suc_right)
  qed
  ultimately show ?thesis
    by (simp add: ARROUND_UP_def flip: mask_eq_exp_minus_1)
next
  case False
  let ?d = "unat val div 2 ^ k" and ?m = "unat val mod 2 ^ k"
  have split: "unat val = ?d * 2 ^ k + ?m" by (rule div_mult_mod_eq [symmetric])
  from False have "val AND mask k \<noteq> 0" using unat_and_mask [of val k] by auto
  moreover have "?d * 2 ^ k + 2 ^ k < 2 ^ 32" using assms(2) split False by linarith
  ultimately have up: "unat (ARROUND_UP val (2 ^ k)) = ?d * 2 ^ k + 2 ^ k"
    using assms(1)
    by (simp add: ARROUND_UP_def unat_word_ariths unat_and_not_mask unat_pow2
        flip: mask_eq_exp_minus_1)
  have "(unat val + 2 ^ k - 1) div 2 ^ k = Suc ?d"
  proof -
    have "unat val + 2 ^ k - 1 = Suc ?d * 2 ^ k + (?m - 1)" using split False by simp
    moreover have "?m - 1 < 2 ^ k" by (rule le_less_trans [OF diff_le_self mod_less_divisor]) simp
    ultimately show ?thesis by (simp del: mult_Suc)
  qed
  with up show ?thesis by simp
qed

lemma bits_nr_bounds: "val \<noteq> 0 \<Longrightarrow> 2 ^ (bits_nr val - 1) \<le> unat val \<and> unat val < 2 ^ bits_nr val"
proof (induction val rule: bits_nr.induct)
  case (1 val)
  let ?h = "drop_bit 1 val"
  have half: "unat ?h = unat val div 2" by (simp add: drop_bit_Suc unat_div_distrib)
  have pos: "unat val > 0" using 1(2) by (simp add: unat_gt_0)
  have step: "bits_nr val = Suc (bits_nr ?h)"
    using 1(2) by (subst bits_nr.simps) (simp add: word_gt_0)
  show ?case
  proof (cases "?h = 0")
    case True
    then have "unat val = 1" using half pos by simp
    then show ?thesis using step True by (simp add: bits_nr.simps [of 0])
  next
    case False
    then have IH: "2 ^ (bits_nr ?h - 1) \<le> unat val div 2" "unat val div 2 < 2 ^ bits_nr ?h"
      using 1 half by (auto simp: word_gt_0)
    moreover have "bits_nr ?h > 0" using False by (subst bits_nr.simps) (simp add: word_gt_0)
    then obtain n where "bits_nr ?h = Suc n" by (cases "bits_nr ?h") auto
    ultimately show ?thesis using step by auto
  qed
qed

section \<open>The bitmap interface\<close>

text \<open>
  What the clients of a bitmap rely on: membership of a position, setting and clearing one, and the
  search for the first member from a given position. The derived lemmas are what an allocator over a
  bitmap of free slots needs: taking the first free slot removes exactly that slot, giving it back
  restores the set.
\<close>

locale bitset =
  fixes cap :: "'b \<Rightarrow> nat"
    and mem :: "'b \<Rightarrow> nat \<Rightarrow> bool"
    and set_at :: "'b \<Rightarrow> nat \<Rightarrow> 'b"
    and clear_at :: "'b \<Rightarrow> nat \<Rightarrow> 'b"
    and find_from :: "'b \<Rightarrow> nat \<Rightarrow> int"
  assumes cap_set: "cap (set_at b i) = cap b"
    and cap_clear: "cap (clear_at b i) = cap b"
    and mem_set: "k < cap b \<Longrightarrow> mem (set_at b i) k \<longleftrightarrow> k = i \<or> mem b k"
    and mem_clear: "k < cap b \<Longrightarrow> mem (clear_at b i) k \<longleftrightarrow> k \<noteq> i \<and> mem b k"
    and find_first: "i \<le> cap b \<Longrightarrow> first_at (mem b) i (cap b) (find_from b i)"
begin

definition members :: "'b \<Rightarrow> nat set" where
  "members b = {k. k < cap b \<and> mem b k}"

lemma finite_members [simp]: "finite (members b)"
  by (simp add: members_def)

lemma members_set: "i < cap b \<Longrightarrow> members (set_at b i) = insert i (members b)"
  by (auto simp: members_def cap_set mem_set)

lemma members_clear: "members (clear_at b i) = members b - {i}"
  by (auto simp: members_def cap_clear mem_clear)

lemma members_give_back: "i \<in> members b \<Longrightarrow> members (set_at (clear_at b i) i) = members b"
  by (subst members_set) (auto simp: cap_clear mem_clear members_def)

lemma find_none_iff: "i \<le> cap b \<Longrightarrow> find_from b i = -1 \<longleftrightarrow> (\<forall>k \<in> members b. k < i)"
  using find_first [of i b] unfolding first_at_def members_def
  by (auto split: if_splits) (metis not_le)+

lemma find_some:
  assumes "i \<le> cap b" and "find_from b i \<noteq> -1"
  obtains k where "find_from b i = int k" and "k \<in> members b" and "i \<le> k"
    and "\<And>m. m \<in> members b \<Longrightarrow> i \<le> m \<Longrightarrow> k \<le> m"
proof
  show "find_from b i = int (nat (find_from b i))"
    and "nat (find_from b i) \<in> members b" and "i \<le> nat (find_from b i)"
    using find_first [OF assms(1)] assms(2) by (auto simp: first_at_def members_def)
  show "nat (find_from b i) \<le> m" if "m \<in> members b" "i \<le> m" for m
    using find_first [OF assms(1)] assms(2) that by (auto simp: first_at_def members_def not_le [symmetric])
qed

end

interpretation bm: bitset "\<lambda>b. 32 * length b" bm_bit bitmap_set bitmap_clear
  "\<lambda>b i. bitmap_ffs2 b i (4 * length b)"
proof
  fix b :: bitmap_t and i
  assume "i \<le> 32 * length b"
  then show "first_at (bm_bit b) i (32 * length b) (bitmap_ffs2 b i (4 * length b))"
    using bitmap_ffs2_first [of i "4 * length b" b] by simp
qed (simp_all add: bitmap_simps)

end
