(* ===== verification/Buddy.thy ===== *)
theory Buddy
  imports Prelude
begin

text \<open>
  The mathematics of the buddy system used by \<^verbatim>\<open>kernel/mm/ppm.c\<close>: the address of a buddy as an
  exclusive or, and partitions of a page range into aligned power-of-two blocks. A block is a pair
  of its first page and its order. The lemmas say that the buddy of a block is always the first page
  of a block that is not larger, and that merging two buddies or splitting a block gives a
  partition again.
\<close>

section \<open>Buddy addresses\<close>

lemma low_half_or:
  fixes m :: nat
  assumes "2 ^ Suc c dvd m"
  shows "m + 2 ^ c = m OR 2 ^ c" and "\<not> bit m c"
proof -
  obtain r where r: "m = push_bit (Suc c) r"
    using assms by (auto simp: push_bit_eq_mult mult.commute elim!: dvdE)
  then show nb: "\<not> bit m c" by (simp add: bit_push_bit_iff bit_0)
  then show "m + 2 ^ c = m OR 2 ^ c"
    by (intro disjunctive_add_eq_or bit_eqI) (auto simp: bit_simps)
qed

lemma buddy_low:
  fixes m :: nat
  assumes "2 ^ Suc c dvd m"
  shows "m XOR 2 ^ c = m + 2 ^ c" "(m + 2 ^ c) XOR 2 ^ c = m"
    "m AND (m + 2 ^ c) = m" "(m + 2 ^ c) AND m = m"
  unfolding low_half_or(1) [OF assms] using low_half_or(2) [OF assms]
  by (auto intro!: bit_eqI simp: bit_simps)

text \<open>A block and its buddy are the two halves of one aligned block.\<close>

lemma buddy_halves:
  fixes p :: nat
  assumes "2 ^ c dvd p"
  obtains "p XOR 2 ^ c = p + 2 ^ c" "p AND (p XOR 2 ^ c) = p" "2 ^ Suc c dvd p"
  | m where "p = m + 2 ^ c" "p XOR 2 ^ c = m" "p AND (p XOR 2 ^ c) = m" "2 ^ Suc c dvd m"
proof -
  obtain q where q: "p = 2 ^ c * q" using assms by (elim dvdE)
  show thesis
  proof (cases "even q")
    case True
    then obtain r where "q = 2 * r" by (elim evenE)
    then have "2 ^ Suc c dvd p" using q by simp
    then show thesis using that(1) buddy_low by metis
  next
    case False
    then obtain r where "q = 2 * r + 1" by (elim oddE)
    then have "p = 2 ^ Suc c * r + 2 ^ c" using q by (simp add: algebra_simps)
    moreover have "2 ^ Suc c dvd 2 ^ Suc c * r" by simp
    ultimately show thesis using that(2) buddy_low by metis
  qed
qed

section \<open>Partitions into aligned blocks\<close>

definition covers :: "nat \<times> nat \<Rightarrow> nat \<Rightarrow> bool" where
  "covers b k \<longleftrightarrow> fst b \<le> k \<and> k < fst b + 2 ^ snd b"

definition part :: "nat \<Rightarrow> (nat \<times> nat) set \<Rightarrow> bool" where
  "part n B \<longleftrightarrow>
     (\<forall>b\<in>B. 2 ^ snd b dvd fst b \<and> fst b + 2 ^ snd b \<le> n) \<and>
     (\<forall>k<n. \<exists>!b. b \<in> B \<and> covers b k)"

lemma part_aligned: "part n B \<Longrightarrow> (p, c) \<in> B \<Longrightarrow> 2 ^ c dvd p"
  by (auto simp: part_def)

lemma part_le: "part n B \<Longrightarrow> (p, c) \<in> B \<Longrightarrow> p + 2 ^ c \<le> n"
  by (auto simp: part_def)

lemma part_head_less: "part n B \<Longrightarrow> (p, c) \<in> B \<Longrightarrow> p < n"
  by (drule (1) part_le) (use zero_less_power [of "2::nat" c] in linarith)

lemma part_unique:
  assumes "part n B" "b \<in> B" "b' \<in> B" "covers b k" "covers b' k"
  shows "b = b'"
proof -
  have "k < n" using assms(1,2,4) by (force simp: part_def covers_def)
  then show ?thesis using assms unfolding part_def by blast
qed

lemma part_same_head: "part n B \<Longrightarrow> (p, c) \<in> B \<Longrightarrow> (p, d) \<in> B \<Longrightarrow> c = d"
  using part_unique [of n B "(p, c)" "(p, d)" p] by (simp add: covers_def)

lemma aligned_block_eq:
  assumes "2 ^ d dvd (q::nat)" "2 ^ d dvd b" "q \<le> b" "b < q + 2 ^ d"
  shows "q = b"
proof -
  obtain x y where "q = 2 ^ d * x" "b = 2 ^ d * y" using assms(1,2) by (auto elim!: dvdE)
  moreover from this have "2 ^ d * x \<le> 2 ^ d * y" "2 ^ d * y < 2 ^ d * Suc x"
    using assms(3,4) by simp_all
  then have "x \<le> y" "y < Suc x" by (simp_all del: mult_Suc_right)
  ultimately show ?thesis by simp
qed

lemma covers_iff:
  assumes "2 ^ d dvd q"
  shows "covers (q, d) k \<longleftrightarrow> k div 2 ^ d = q div 2 ^ d"
proof -
  obtain x where x: "q = 2 ^ d * x" using assms by (elim dvdE)
  have "k div 2 ^ d = x \<longleftrightarrow> 2 ^ d * x \<le> k \<and> k < 2 ^ d * Suc x"
    using dividend_less_times_div [of "2 ^ d" k] times_div_less_eq_dividend [of "2 ^ d" k]
    by (auto intro: div_nat_eqI)
  then show ?thesis by (simp add: x covers_def add.commute)
qed

lemma div_power_coarser:
  fixes k :: nat
  assumes "k div 2 ^ e = j div 2 ^ e" "e \<le> d"
  shows "k div 2 ^ d = j div 2 ^ d"
proof -
  have "(2::nat) ^ d = 2 ^ e * 2 ^ (d - e)" using assms(2) by (simp flip: power_add)
  then show ?thesis using assms(1) by (simp add: div_mult2_eq)
qed

text \<open>The buddy of a block heads a block that is not larger.\<close>

lemma part_buddy:
  assumes "part n B" "(p, c) \<in> B" "2 ^ Suc c dvd n"
  shows "p XOR 2 ^ c < n \<and> (\<exists>d\<le>c. (p XOR 2 ^ c, d) \<in> B)"
proof -
  define b where "b = p XOR 2 ^ c"
  obtain m where m: "2 ^ Suc c dvd m" "p = m \<and> b = m + 2 ^ c \<or> p = m + 2 ^ c \<and> b = m"
    using buddy_halves [OF part_aligned [OF assms(1,2)]] unfolding b_def by metis
  have "m + 2 ^ Suc c \<le> n"
  proof -
    obtain x y where "m = 2 ^ Suc c * x" "n = 2 ^ Suc c * y" using m(1) assms(3) by (auto elim!: dvdE)
    moreover have "m < n" using part_head_less [OF assms(1,2)] m(2) by auto
    ultimately have "Suc x \<le> y" by simp
    then have "2 ^ Suc c * Suc x \<le> 2 ^ Suc c * y" by (rule mult_le_mono2)
    then show ?thesis using \<open>m = _\<close> \<open>n = _\<close> by simp
  qed
  moreover have "(0::nat) < 2 ^ c" "(2::nat) ^ Suc c = 2 ^ c + 2 ^ c" by simp_all
  ultimately have bn: "b < n" using m(2) by (elim disjE conjE) linarith+
  then obtain q d where qd: "(q, d) \<in> B" "covers (q, d) b"
    using assms(1) unfolding part_def by (metis prod.collapse)
  have al: "2 ^ d dvd q" by (rule part_aligned [OF assms(1) qd(1)])
  have "d \<le> c"
  proof (rule ccontr)
    assume "\<not> d \<le> c"
    have "b div 2 ^ Suc c = p div 2 ^ Suc c"
      using covers_iff [OF m(1), of p] covers_iff [OF m(1), of b] m(2) by (auto simp: covers_def)
    then have "b div 2 ^ d = p div 2 ^ d" by (rule div_power_coarser) (use \<open>\<not> d \<le> c\<close> in simp)
    then have "covers (q, d) p" using qd(2) by (simp add: covers_iff [OF al])
    then have "(q, d) = (p, c)"
      using part_unique [OF assms(1) qd(1) assms(2), of p] by (simp add: covers_def)
    with \<open>\<not> d \<le> c\<close> show False by simp
  qed
  have d: "2 ^ d dvd (2::nat) ^ c" "2 ^ d dvd (2::nat) ^ Suc c"
    using \<open>d \<le> c\<close> le_imp_power_dvd [of d c] le_imp_power_dvd [of d "Suc c"] by simp_all
  have "2 ^ d dvd m" by (rule dvd_trans [OF d(2) m(1)])
  then have "2 ^ d dvd b" using m(2) d(1) dvd_add by metis
  then have "q = b"
    using aligned_block_eq [OF al] qd(2) by (simp add: covers_def)
  then show ?thesis using bn qd(1) \<open>d \<le> c\<close> by (auto simp: b_def)
qed

text \<open>Merging two buddies, splitting a block.\<close>

lemma part_replace:
  assumes "part n B" and "S \<subseteq> B" and "\<And>b. b \<in> T \<Longrightarrow> 2 ^ snd b dvd fst b \<and> fst b + 2 ^ snd b \<le> n"
    and cov: "\<And>k. (\<exists>b\<in>S. covers b k) \<longleftrightarrow> (\<exists>b\<in>T. covers b k)"
    and uni: "\<And>b b' k. b \<in> T \<Longrightarrow> b' \<in> T \<Longrightarrow> covers b k \<Longrightarrow> covers b' k \<Longrightarrow> b = b'"
  shows "part n (B - S \<union> T)"
proof -
  have "\<exists>!b. b \<in> B - S \<union> T \<and> covers b k" if k: "k < n" for k
  proof -
    obtain b where b: "b \<in> B" "covers b k" "\<And>b'. b' \<in> B \<Longrightarrow> covers b' k \<Longrightarrow> b' = b"
      using assms(1) k unfolding part_def by metis
    show ?thesis
    proof (cases "b \<in> S")
      case True
      then obtain b2 where "b2 \<in> T" "covers b2 k" using cov [of k] b(2) by auto
      then show ?thesis using True b uni by (intro ex1I [of _ b2]) blast+
    next
      case False
      then have "\<not> (\<exists>b\<in>T. covers b k)" using cov [of k] b assms(2) by blast
      then show ?thesis using False b by (intro ex1I [of _ b]) blast+
    qed
  qed
  then show ?thesis using assms(1,3) unfolding part_def by blast
qed

lemma part_merge:
  assumes "part n B" "(m, c) \<in> B" "(m + 2 ^ c, c) \<in> B" "2 ^ Suc c dvd m"
  shows "part n (B - {(m, c), (m + 2 ^ c, c)} \<union> {(m, Suc c)})"
  using assms part_le [OF assms(1,3)]
  by (intro part_replace) (auto simp: covers_def)

lemma part_split:
  assumes "part n B" "(m, Suc c) \<in> B"
  shows "part n (B - {(m, Suc c)} \<union> {(m, c), (m + 2 ^ c, c)})"
proof (rule part_replace)
  have "2 ^ c dvd m" using part_aligned [OF assms] by (simp add: power_Suc) (metis dvd_mult_right)
  then show "2 ^ snd b dvd fst b \<and> fst b + 2 ^ snd b \<le> n" if "b \<in> {(m, c), (m + 2 ^ c, c)}" for b
    using part_le [OF assms] that by auto
qed (use assms in \<open>auto simp: covers_def\<close>)

end
