(* ===== verification/DList.thy ===== *)
theory DList
  imports Prelude
begin

text \<open>
  The intrusive circular lists of \<^verbatim>\<open>kernel/libk/list.h\<close>, over an explicit store of link
  fields. An entry is identified by its address; \<open>nxt\<close> and \<open>prv\<close> are the
  \<^verbatim>\<open>next\<close> and \<^verbatim>\<open>pred\<close> fields of all entries, so aliasing between the
  arguments of an operation is visible. \<open>dlist h r xs\<close> says that the list rooted at \<open>r\<close>
  holds the entries \<open>xs\<close> in this order. The refinement lemmas show that each operation acts on
  \<open>xs\<close> as the obvious list operation; the other theories use them by modelling a
  \<^verbatim>\<open>struct list_entry\<close> root as the list of its entries.
\<close>

type_synonym addr = nat

record lheap =
  nxt :: "addr \<Rightarrow> addr"
  prv :: "addr \<Rightarrow> addr"

abbreviation (input) NULL :: addr where "NULL \<equiv> 0"
abbreviation LIST_NEXT_DEAD :: addr where "LIST_NEXT_DEAD \<equiv> 0xb0C1"
abbreviation LIST_PRED_DEAD :: addr where "LIST_PRED_DEAD \<equiv> 0xc0b1"
abbreviation LIST_SNEXT_DEAD :: addr where "LIST_SNEXT_DEAD \<equiv> 0xA0A1"

section \<open>Operations\<close>

definition set_next :: "lheap \<Rightarrow> addr \<Rightarrow> addr \<Rightarrow> lheap" where
  "set_next h p q = h\<lparr>nxt := (nxt h)(p := q)\<rparr>"

definition set_pred :: "lheap \<Rightarrow> addr \<Rightarrow> addr \<Rightarrow> lheap" where
  "set_pred h p q = h\<lparr>prv := (prv h)(p := q)\<rparr>"

definition list_next :: "lheap \<Rightarrow> addr \<Rightarrow> addr \<Rightarrow> addr" where
  "list_next h root current =
     (if root = nxt h root \<or> nxt h current = root then NULL else nxt h current)"

definition list_pred :: "lheap \<Rightarrow> addr \<Rightarrow> addr \<Rightarrow> addr" where
  "list_pred h root current =
     (if root = nxt h root \<or> prv h current = root then NULL else prv h current)"

definition list_first :: "lheap \<Rightarrow> addr \<Rightarrow> addr" where
  "list_first h root = nxt h root"

definition list_last :: "lheap \<Rightarrow> addr \<Rightarrow> addr" where
  "list_last h root = prv h root"

definition list_root_init :: "lheap \<Rightarrow> addr \<Rightarrow> lheap" where
  "list_root_init h root = set_pred (set_next h root root) root root"

definition list_entry_init :: "lheap \<Rightarrow> addr \<Rightarrow> lheap" where
  "list_entry_init h entry = set_pred (set_next h entry NULL) entry NULL"

definition list_add :: "lheap \<Rightarrow> addr \<Rightarrow> addr \<Rightarrow> lheap" where
  "list_add h root entry =
     (let pred_entry = root; next_entry = nxt h root;
          h = set_next h entry next_entry;
          h = set_pred h entry pred_entry;
          h = set_next h pred_entry entry
      in set_pred h next_entry entry)"

definition list_add_first :: "lheap \<Rightarrow> addr \<Rightarrow> addr \<Rightarrow> lheap" where
  "list_add_first h root entry = list_add h root entry"

definition list_add_next :: "lheap \<Rightarrow> addr \<Rightarrow> addr \<Rightarrow> lheap" where
  "list_add_next h root entry = list_add h root entry"

definition list_add_last :: "lheap \<Rightarrow> addr \<Rightarrow> addr \<Rightarrow> lheap" where
  "list_add_last h root entry = list_add h (prv h root) entry"

definition list_add_pred :: "lheap \<Rightarrow> addr \<Rightarrow> addr \<Rightarrow> lheap" where
  "list_add_pred h root entry = list_add h (prv h root) entry"

definition list_empty :: "lheap \<Rightarrow> addr \<Rightarrow> bool" where
  "list_empty h root \<longleftrightarrow> root = nxt h root"

definition list_unlink :: "lheap \<Rightarrow> addr \<Rightarrow> lheap" where
  "list_unlink h entry =
     (let pred_entry = prv h entry; next_entry = nxt h entry;
          h = set_next h pred_entry (nxt h entry);
          h = set_pred h next_entry (prv h entry);
          h = set_next h entry LIST_NEXT_DEAD
      in set_pred h entry LIST_PRED_DEAD)"

definition list_replace :: "lheap \<Rightarrow> addr \<Rightarrow> addr \<Rightarrow> lheap" where
  "list_replace h current new =
     (let pred_entry = prv h current; next_entry = nxt h current;
          h = set_next h new next_entry;
          h = set_pred h new pred_entry;
          h = set_next h pred_entry new
      in set_pred h next_entry new)"

text \<open>The stack view of singly linked entries.\<close>

definition list_push :: "lheap \<Rightarrow> addr \<Rightarrow> addr \<Rightarrow> lheap" where
  "list_push h root entry = set_next (set_next h entry (nxt h root)) root entry"

definition list_pop :: "lheap \<Rightarrow> addr \<Rightarrow> addr \<times> lheap" where
  "list_pop h root =
     (let entry = nxt h root;
          h = set_next h root (nxt h entry)
      in (entry, set_next h entry LIST_SNEXT_DEAD))"

text \<open>
  \<^verbatim>\<open>list_foreach_forward\<close>: the successor is read before the body runs, so the body may unlink
  the current entry. \<open>body\<close> is what the loop does to the store at one entry; fuel bounds the walk
  of a store that is not a list, and running out is \<open>None\<close>.
\<close>

fun foreach_from :: "nat \<Rightarrow> (addr \<Rightarrow> lheap \<Rightarrow> lheap) \<Rightarrow> addr \<Rightarrow> addr \<Rightarrow> addr \<Rightarrow> lheap \<Rightarrow> (addr list \<times> lheap) option" where
  "foreach_from 0 body root iter ptr h = None"
| "foreach_from (Suc fuel) body root iter ptr h =
     (if iter = root then Some ([], h)
      else let h' = body iter h; iter' = ptr; ptr' = nxt h' iter'
           in map_option (\<lambda>(visited, h''). (iter # visited, h''))
                (foreach_from fuel body root iter' ptr' h'))"

definition list_foreach_forward :: "nat \<Rightarrow> (addr \<Rightarrow> lheap \<Rightarrow> lheap) \<Rightarrow> addr \<Rightarrow> lheap \<Rightarrow> (addr list \<times> lheap) option" where
  "list_foreach_forward fuel body root h =
     foreach_from fuel body root (nxt h root) (nxt h (nxt h root)) h"

lemmas list_op_defs [op_defs] = set_next_def set_pred_def list_next_def list_pred_def
  list_first_def list_last_def list_root_init_def list_entry_init_def list_add_def
  list_add_first_def list_add_next_def list_add_last_def list_add_pred_def list_empty_def
  list_unlink_def list_replace_def list_push_def list_pop_def

section \<open>Lists in the store\<close>

text \<open>\<open>linked h p xs q\<close>: from \<open>p\<close> through the entries \<open>xs\<close> to \<open>q\<close>, linked both ways.\<close>

fun linked :: "lheap \<Rightarrow> addr \<Rightarrow> addr list \<Rightarrow> addr \<Rightarrow> bool" where
  "linked h p [] q \<longleftrightarrow> nxt h p = q \<and> prv h q = p"
| "linked h p (x # xs) q \<longleftrightarrow> nxt h p = x \<and> prv h x = p \<and> linked h x xs q"

definition dlist :: "lheap \<Rightarrow> addr \<Rightarrow> addr list \<Rightarrow> bool" where
  "dlist h r xs \<longleftrightarrow> distinct (r # xs) \<and> linked h r xs r"

lemma linked_append: "linked h p (xs @ x # ys) q \<longleftrightarrow> linked h p xs x \<and> linked h x ys q"
  by (induction xs arbitrary: p) auto

lemma linked_frame:
  "linked h p xs q \<Longrightarrow> (\<And>a. a \<in> set (p # xs) \<Longrightarrow> nxt h' a = nxt h a) \<Longrightarrow>
     (\<And>a. a \<in> set (xs @ [q]) \<Longrightarrow> prv h' a = prv h a) \<Longrightarrow> linked h' p xs q"
  by (induction xs arbitrary: p) auto

lemma linked_nxt: "linked h p xs q \<Longrightarrow> nxt h p = hd (xs @ [q])"
  by (cases xs) auto

lemma linked_prv: "linked h p xs q \<Longrightarrow> prv h q = last (p # xs)"
  by (induction xs arbitrary: p) auto

text \<open>
  A list with its root is a ring; a ring can be entered at any of its entries, so an operation at an
  arbitrary entry reduces to one at the head.
\<close>

fun ring :: "lheap \<Rightarrow> addr list \<Rightarrow> bool" where
  "ring h [] \<longleftrightarrow> True"
| "ring h (x # zs) \<longleftrightarrow> distinct (x # zs) \<and> linked h x zs x"

lemma dlist_ring: "dlist h r xs \<longleftrightarrow> ring h (r # xs)"
  by (simp add: dlist_def)

lemma ring_rotate1: "ring h (x # as @ y # bs) \<Longrightarrow> ring h (y # bs @ x # as)"
  by (auto simp: linked_append)

lemma ring_rotate: "ring h (as @ bs) \<longleftrightarrow> ring h (bs @ as)"
proof -
  have "ring h (as @ bs) \<Longrightarrow> ring h (bs @ as)" for as bs
  proof (cases as)
    case (Cons x as')
    assume r: "ring h (as @ bs)"
    show ?thesis
    proof (cases bs)
      case Nil
      with r show ?thesis by simp
    next
      case (Cons y bs')
      with r \<open>as = x # as'\<close> show ?thesis using ring_rotate1 [of h x as' y bs'] by simp
    qed
  qed simp
  then show ?thesis by blast
qed

lemma ring_head_links:
  "ring h (x # zs) \<Longrightarrow> nxt h x = hd (zs @ [x]) \<and> prv h x = last (x # zs)"
  using linked_nxt [of h x zs x] linked_prv [of h x zs x] by simp

lemma ring_links:
  assumes "ring h (as @ x # bs)"
  shows "nxt h x = hd (bs @ as @ [x])" and "prv h x = last (x # bs @ as)"
proof -
  from assms have "ring h (x # bs @ as)" using ring_rotate [of h as "x # bs"] by simp
  then show "nxt h x = hd (bs @ as @ [x])" and "prv h x = last (x # bs @ as)"
    using ring_head_links [of h x "bs @ as"] by simp_all
qed

lemma ring_add_head:
  assumes "ring h (x # zs)" and "e \<notin> set (x # zs)"
  shows "ring (list_add h x e) (x # e # zs)"
proof (cases zs)
  case Nil
  with assms show ?thesis by (auto simp: op_defs Let_def)
next
  case (Cons z zs')
  with assms have l: "linked h z zs' x" "nxt h x = z" and d: "distinct (e # x # z # zs')" by auto
  have "linked (list_add h x e) z zs' x"
    by (rule linked_frame [OF l(1)]) (use l(2) d in \<open>auto simp: op_defs Let_def\<close>)
  then show ?thesis using l d Cons by (auto simp: op_defs Let_def)
qed

lemma ring_add:
  assumes "ring h (as @ x # bs)" and "e \<notin> set (as @ x # bs)"
  shows "ring (list_add h x e) (as @ x # e # bs)"
proof -
  from assms(1) have "ring h (x # bs @ as)" using ring_rotate [of h as "x # bs"] by simp
  with assms(2) have "ring (list_add h x e) (x # e # bs @ as)" by (intro ring_add_head) auto
  then show ?thesis using ring_rotate [of _ as "x # e # bs"] by simp
qed

lemma ring_unlink_head:
  assumes "ring h (e # zs)" and "zs \<noteq> []"
  shows "ring (list_unlink h e) zs"
proof -
  obtain z zs' where zs: "zs = z # zs'" using assms(2) by (cases zs) auto
  show ?thesis
  proof (cases zs' rule: rev_cases)
    case Nil
    with assms zs show ?thesis by (auto simp: op_defs Let_def)
  next
    case (snoc ys l)
    with assms zs have l: "linked h z ys l" "nxt h l = e" "prv h e = l" "nxt h e = z" "prv h z = e"
      and d: "distinct (e # z # ys @ [l])"
      by (auto simp: linked_append)
    have "linked (list_unlink h e) z ys l"
      by (rule linked_frame [OF l(1)]) (use l d in \<open>auto simp: op_defs Let_def\<close>)
    then show ?thesis using l d zs snoc by (auto simp: linked_append op_defs Let_def)
  qed
qed

lemma ring_unlink:
  assumes "ring h (as @ e # bs)" and "as @ bs \<noteq> []"
  shows "ring (list_unlink h e) (as @ bs)"
proof -
  from assms(1) have "ring h (e # bs @ as)" using ring_rotate [of h as "e # bs"] by simp
  with assms(2) have "ring (list_unlink h e) (bs @ as)" by (intro ring_unlink_head) auto
  then show ?thesis using ring_rotate [of _ as bs] by simp
qed

lemma ring_replace_head:
  assumes "ring h (c # zs)" and "zs \<noteq> []" and "new \<notin> set (c # zs)"
  shows "ring (list_replace h c new) (new # zs)"
proof -
  obtain z zs' where zs: "zs = z # zs'" using assms(2) by (cases zs) auto
  show ?thesis
  proof (cases zs' rule: rev_cases)
    case Nil
    with assms zs show ?thesis by (auto simp: op_defs Let_def)
  next
    case (snoc ys l)
    with assms zs have l: "linked h z ys l" "nxt h l = c" "prv h c = l" "nxt h c = z" "prv h z = c"
      and d: "distinct (new # c # z # ys @ [l])"
      by (auto simp: linked_append)
    have "linked (list_replace h c new) z ys l"
      by (rule linked_frame [OF l(1)]) (use l d in \<open>auto simp: op_defs Let_def\<close>)
    then show ?thesis using l d zs snoc by (auto simp: linked_append op_defs Let_def)
  qed
qed

section \<open>Refinement: the operations on the list of entries\<close>

lemma dlist_root_init: "dlist (list_root_init h r) r []"
  by (simp add: dlist_def op_defs)

lemma dlist_empty: "dlist h r xs \<Longrightarrow> list_empty h r \<longleftrightarrow> xs = []"
  by (cases xs) (auto simp: dlist_def op_defs)

lemma dlist_first: "dlist h r xs \<Longrightarrow> xs \<noteq> [] \<Longrightarrow> list_first h r = hd xs"
  by (cases xs) (auto simp: dlist_def op_defs)

lemma dlist_last: "dlist h r xs \<Longrightarrow> xs \<noteq> [] \<Longrightarrow> list_last h r = last xs"
  using linked_prv [of h r xs r] by (simp add: dlist_def op_defs)

lemma dlist_add_first:
  "dlist h r xs \<Longrightarrow> e \<noteq> r \<Longrightarrow> e \<notin> set xs \<Longrightarrow> dlist (list_add_first h r e) r (e # xs)"
  unfolding dlist_ring list_add_first_def by (intro ring_add_head) auto

lemma dlist_add_next:
  "dlist h r (xs @ x # ys) \<Longrightarrow> e \<noteq> r \<Longrightarrow> e \<notin> set (xs @ x # ys) \<Longrightarrow>
     dlist (list_add_next h x e) r (xs @ x # e # ys)"
  unfolding dlist_ring list_add_next_def using ring_add [of h "r # xs" x ys e] by simp

lemma dlist_add_last:
  assumes "dlist h r xs" and "e \<noteq> r" and "e \<notin> set xs"
  shows "dlist (list_add_last h r e) r (xs @ [e])"
proof (cases xs rule: rev_cases)
  case Nil
  with assms show ?thesis using ring_add_head [of h r "[]" e]
    by (auto simp: dlist_ring list_add_last_def)
next
  case (snoc ys l)
  with assms have "ring h ((r # ys) @ l # [])" "e \<notin> set ((r # ys) @ l # [])" "prv h r = l"
    by (auto simp: dlist_ring linked_append)
  with snoc show ?thesis using ring_add [of h "r # ys" l "[]" e]
    by (simp add: dlist_ring list_add_last_def del: ring.simps)
qed

lemma dlist_add_pred:
  assumes "dlist h r (xs @ x # ys)" and "e \<noteq> r" and "e \<notin> set (xs @ x # ys)"
  shows "dlist (list_add_pred h x e) r (xs @ e # x # ys)"
proof (cases xs rule: rev_cases)
  case Nil
  with assms show ?thesis using ring_add_head [of h r "x # ys" e]
    by (auto simp: dlist_ring list_add_pred_def)
next
  case (snoc zs l)
  with assms have "ring h ((r # zs) @ l # x # ys)" "e \<notin> set ((r # zs) @ l # x # ys)" "prv h x = l"
    by (auto simp: dlist_ring linked_append)
  with snoc show ?thesis using ring_add [of h "r # zs" l "x # ys" e]
    by (simp add: dlist_ring list_add_pred_def del: ring.simps)
qed

lemma dlist_unlink:
  assumes "dlist h r xs" and "e \<in> set xs"
  shows "dlist (list_unlink h e) r (remove1 e xs)"
proof -
  from assms(2) obtain as bs where xs: "xs = as @ e # bs" and "e \<notin> set as"
    by (metis split_list_first)
  with assms(1) show ?thesis
    using ring_unlink [of h "r # as" e bs] by (simp add: dlist_ring remove1_append del: ring.simps)
qed

lemma dlist_next: "dlist h r (xs @ x # ys) \<Longrightarrow> list_next h r x = (if ys = [] then NULL else hd ys)"
  by (cases xs; cases ys) (auto simp: dlist_def op_defs linked_append)

lemma dlist_pred: "dlist h r (xs @ x # ys) \<Longrightarrow> list_pred h r x = (if xs = [] then NULL else last xs)"
  using linked_prv [of h r xs x]
  by (cases xs) (auto simp: dlist_def op_defs linked_append dest: linked_nxt)

text \<open>\<open>wait_queue_init2\<close> moves a whole non-empty queue to a new root with one \<open>list_replace\<close>.\<close>

lemma dlist_replace_root:
  "dlist h r xs \<Longrightarrow> xs \<noteq> [] \<Longrightarrow> r' \<noteq> r \<Longrightarrow> r' \<notin> set xs \<Longrightarrow> dlist (list_replace h r r') r' xs"
  unfolding dlist_ring by (intro ring_replace_head) auto

section \<open>Traversal while unlinking\<close>

text \<open>
  A \<open>list_foreach\<close> whose body unlinks the current entry when a condition holds (the shape of
  \<open>wakeup_all\<close>, \<open>alarm_clock\<close> and \<open>freelist_release\<close>) visits every entry once, in
  order, and leaves exactly the entries the condition spared.
\<close>

definition unlink_when :: "(addr \<Rightarrow> bool) \<Rightarrow> addr \<Rightarrow> lheap \<Rightarrow> lheap" where
  "unlink_when P x h = (if P x then list_unlink h x else h)"

lemma foreach_from_unlink:
  assumes "dlist h r (kept @ rest)" and "length rest < fuel"
    and "iter = hd (rest @ [r])" and "rest \<noteq> [] \<Longrightarrow> ptr = hd (tl rest @ [r])"
  shows "\<exists>h'. foreach_from fuel (unlink_when P) r iter ptr h = Some (rest, h')
           \<and> dlist h' r (kept @ filter (\<lambda>x. \<not> P x) rest)"
  using assms
proof (induction rest arbitrary: fuel kept h iter ptr)
  case Nil
  then show ?case by (cases fuel) auto
next
  case (Cons x ys)
  then obtain f where fuel: "fuel = Suc f" "length ys < f" by (cases fuel) auto
  have xr: "x \<noteq> r" "iter = x" "ptr = hd (ys @ [r])" and d: "distinct (kept @ x # ys)"
    using Cons.prems by (auto simp: dlist_def)
  let ?h = "unlink_when P x h" and ?kept = "if P x then kept else kept @ [x]"
  have dl: "dlist ?h r (?kept @ ys)"
    using Cons.prems(1) dlist_unlink [of h r "kept @ x # ys" x] d
    by (auto simp: unlink_when_def remove1_append)
  then have "nxt ?h (hd (ys @ [r])) = hd (tl ys @ [r])" if "ys \<noteq> []"
    using that by (cases ys) (auto simp: dlist_def linked_append dest: linked_nxt)
  then obtain h' where "foreach_from f (unlink_when P) r ptr (nxt ?h ptr) ?h = Some (ys, h')"
    and "dlist h' r (?kept @ filter (\<lambda>x. \<not> P x) ys)"
    using Cons.IH [OF dl fuel(2), of ptr "nxt ?h ptr"] xr by auto
  then show ?case using fuel xr by (auto simp: Let_def)
qed

lemma foreach_unlink:
  assumes "dlist h r xs" and "length xs < fuel"
  shows "\<exists>h'. list_foreach_forward fuel (unlink_when P) r h = Some (xs, h')
           \<and> dlist h' r (filter (\<lambda>x. \<not> P x) xs)"
proof -
  have "nxt h r = hd (xs @ [r])" "xs \<noteq> [] \<Longrightarrow> nxt h (nxt h r) = hd (tl xs @ [r])"
    using assms(1) by (cases xs; auto simp: dlist_def dest: linked_nxt)+
  then show ?thesis
    using foreach_from_unlink [of h r "[]" xs fuel "nxt h r" "nxt h (nxt h r)" P] assms
    by (simp add: list_foreach_forward_def)
qed

section \<open>The list interface\<close>

text \<open>
  The contract the queues of the kernel rely on, and what follows from it for any provider: entries
  added at the end leave from the front in the order they came (the FIFO discipline of the wait
  queues), and an entry added at the front is the next to leave.
\<close>

locale entry_list =
  fixes rep :: "'h \<Rightarrow> addr \<Rightarrow> addr list \<Rightarrow> bool"
    and is_empty :: "'h \<Rightarrow> addr \<Rightarrow> bool"
    and first_of :: "'h \<Rightarrow> addr \<Rightarrow> addr"
    and last_of :: "'h \<Rightarrow> addr \<Rightarrow> addr"
    and add_front :: "'h \<Rightarrow> addr \<Rightarrow> addr \<Rightarrow> 'h"
    and add_back :: "'h \<Rightarrow> addr \<Rightarrow> addr \<Rightarrow> 'h"
    and unlink :: "'h \<Rightarrow> addr \<Rightarrow> 'h"
  assumes rep_distinct: "rep h r xs \<Longrightarrow> distinct (r # xs)"
    and rep_empty: "rep h r xs \<Longrightarrow> is_empty h r \<longleftrightarrow> xs = []"
    and rep_first: "rep h r xs \<Longrightarrow> xs \<noteq> [] \<Longrightarrow> first_of h r = hd xs"
    and rep_last: "rep h r xs \<Longrightarrow> xs \<noteq> [] \<Longrightarrow> last_of h r = last xs"
    and rep_add_front: "rep h r xs \<Longrightarrow> e \<noteq> r \<Longrightarrow> e \<notin> set xs \<Longrightarrow> rep (add_front h r e) r (e # xs)"
    and rep_add_back: "rep h r xs \<Longrightarrow> e \<noteq> r \<Longrightarrow> e \<notin> set xs \<Longrightarrow> rep (add_back h r e) r (xs @ [e])"
    and rep_unlink: "rep h r xs \<Longrightarrow> e \<in> set xs \<Longrightarrow> rep (unlink h e) r (remove1 e xs)"
begin

definition enqueue_all :: "addr \<Rightarrow> addr list \<Rightarrow> 'h \<Rightarrow> 'h" where
  "enqueue_all r es h = fold (\<lambda>e h. add_back h r e) es h"

fun drain :: "nat \<Rightarrow> addr \<Rightarrow> 'h \<Rightarrow> addr list \<times> 'h" where
  "drain 0 r h = ([], h)"
| "drain (Suc n) r h =
     (if is_empty h r then ([], h)
      else let x = first_of h r; (ys, h') = drain n r (unlink h x) in (x # ys, h'))"

lemma rep_enqueue_all:
  "rep h r xs \<Longrightarrow> distinct (r # xs @ es) \<Longrightarrow> rep (enqueue_all r es h) r (xs @ es)"
proof (induction es arbitrary: h xs)
  case (Cons e es)
  then have "rep (add_back h r e) r (xs @ [e])" by (intro rep_add_back) auto
  with Cons.IH [of "add_back h r e" "xs @ [e]"] Cons.prems show ?case
    by (simp add: enqueue_all_def)
qed (simp add: enqueue_all_def)

lemma rep_drain: "rep h r xs \<Longrightarrow> fst (drain (length xs) r h) = xs \<and> rep (snd (drain (length xs) r h)) r []"
proof (induction xs arbitrary: h)
  case (Cons x xs)
  from Cons.prems have x: "first_of h r = x" "\<not> is_empty h r" using rep_first rep_empty by fastforce+
  from Cons.prems have "rep (unlink h x) r xs" using rep_unlink [of h r "x # xs" x] by simp
  from Cons.IH [OF this] x show ?case by (auto simp: Let_def split: prod.splits)
qed simp

lemma fifo_order:
  assumes "rep h r []" and "distinct (r # es)"
  shows "fst (drain (length es) r (enqueue_all r es h)) = es"
  using rep_drain [OF rep_enqueue_all [OF assms(1)], of es] assms(2) by simp

lemma front_leaves_first:
  "rep h r xs \<Longrightarrow> e \<noteq> r \<Longrightarrow> e \<notin> set xs \<Longrightarrow>
     first_of (add_front h r e) r = e \<and> rep (unlink (add_front h r e) e) r xs"
  using rep_first [OF rep_add_front, of h r xs e] rep_unlink [OF rep_add_front, of h r xs e e] by simp

end

lemma dlist_distinct: "dlist h r xs \<Longrightarrow> distinct (r # xs)"
  by (simp add: dlist_def)

lemmas dlist_laws = dlist_distinct dlist_empty dlist_first dlist_last dlist_add_first dlist_add_last
  dlist_unlink

interpretation kl: entry_list dlist list_empty list_first list_last list_add_first list_add_last
  list_unlink
  by unfold_locales (fact dlist_laws)+

end
