(* ===== verification/WaitQueue.thy ===== *)
theory WaitQueue
  imports Prelude DList
begin

text \<open>
  Wait queues (\<^verbatim>\<open>kernel/kern/wait_queue.c\<close>, \<^verbatim>\<open>wait_queue.h\<close>), on which the
  page locks, semaphores, reader/writer locks, condition variables and barriers put their sleeping
  threads, and the contract \<open>handoff_lock\<close> of a lock that passes from its holder directly to the
  first sleeper.

  A queue's \<^verbatim>\<open>root\<close> is the list of the threads linked on it, first entry first (the
  refinement of \<open>DList\<close>). \<open>threads\<close> is the part of the threads' state these operations change:
  \<^verbatim>\<open>info.queue\<close> of each thread, and the calls of \<^verbatim>\<open>sched_wakeup\<close>, oldest first.
\<close>

type_synonym tid = nat

datatype wait_order = WAIT_FIRST | WAIT_LAST | WAIT_ANY

record wait_queue_s =
  wq_addr :: addr
  wq_name :: string
  wq_state :: int
  wq_root :: "tid list"

record threads =
  th_queue :: "tid \<Rightarrow> addr"
  th_woken :: "tid list"

definition sched_wakeup_call :: "tid \<Rightarrow> threads \<Rightarrow> threads" where
  "sched_wakeup_call t th = th\<lparr>th_woken := th_woken th @ [t]\<rparr>"

definition wait_queue_init :: "wait_queue_s \<Rightarrow> string \<Rightarrow> wait_queue_s" where
  "wait_queue_init queue nm = queue\<lparr>wq_name := nm, wq_state := 0, wq_root := []\<rparr>"

text \<open>\<^verbatim>\<open>wait_queue_init2\<close>: the second component is what is left of \<open>another\<close>; its root is
  not re-initialised by \<^verbatim>\<open>list_replace\<close>, so it must not be used as a list afterwards
  (\<open>None\<close>).\<close>

definition wait_queue_init2 :: "wait_queue_s \<Rightarrow> wait_queue_s \<Rightarrow> wait_queue_s \<times> wait_queue_s option" where
  "wait_queue_init2 queue another =
     (let queue = queue\<lparr>wq_name := wq_name another, wq_state := 0\<rparr>
      in if wq_root another = [] then (queue\<lparr>wq_root := []\<rparr>, Some another)
         else (queue\<lparr>wq_root := wq_root another\<rparr>, None))"

definition wait_queue_isEmpty :: "wait_queue_s \<Rightarrow> bool" where
  "wait_queue_isEmpty queue \<longleftrightarrow> wq_root queue = []"

definition wait_on :: "wait_queue_s \<Rightarrow> wait_order \<Rightarrow> tid \<Rightarrow> threads \<Rightarrow> wait_queue_s \<times> threads" where
  "wait_on queue order this th =
     (let th = th\<lparr>th_queue := (th_queue th)(this := wq_addr queue)\<rparr>
      in if order = WAIT_LAST
         then (queue\<lparr>wq_root := wq_root queue @ [this]\<rparr>, th)
         else (queue\<lparr>wq_root := this # wq_root queue\<rparr>, th))"

definition wakeup_one :: "wait_queue_s \<Rightarrow> wait_order \<Rightarrow> threads \<Rightarrow> tid option \<times> wait_queue_s \<times> threads" where
  "wakeup_one queue order th =
     (if wq_root queue = [] then (None, queue, th)
      else let thread = (if order = WAIT_LAST then last (wq_root queue) else hd (wq_root queue));
               queue = queue\<lparr>wq_root := remove1 thread (wq_root queue)\<rparr>;
               th = th\<lparr>th_queue := (th_queue th)(thread := NULL)\<rparr>
           in (Some thread, queue, sched_wakeup_call thread th))"

text \<open>The \<^verbatim>\<open>list_foreach\<close> of \<^verbatim>\<open>wakeup_all\<close>: \<open>todo\<close> is the part of the list still to
  visit; the body unlinks the entry it stands on.\<close>

fun wakeup_all_loop :: "tid list \<Rightarrow> wait_queue_s \<Rightarrow> threads \<Rightarrow> nat \<Rightarrow> nat \<times> wait_queue_s \<times> threads" where
  "wakeup_all_loop [] queue th i = (i, queue, th)"
| "wakeup_all_loop (thread # todo) queue th i =
     (let queue = queue\<lparr>wq_root := remove1 thread (wq_root queue)\<rparr>;
          th = th\<lparr>th_queue := (th_queue th)(thread := NULL)\<rparr>
      in wakeup_all_loop todo queue (sched_wakeup_call thread th) (i + 1))"

definition wakeup_all :: "wait_queue_s \<Rightarrow> threads \<Rightarrow> nat \<times> wait_queue_s \<times> threads" where
  "wakeup_all queue th = wakeup_all_loop (wq_root queue) queue th 0"

section \<open>What the operations do\<close>

lemma wait_on_simps [simp]:
  "wq_root (fst (wait_on q WAIT_LAST t th)) = wq_root q @ [t]"
  "wq_root (fst (wait_on q WAIT_FIRST t th)) = t # wq_root q"
  "wq_addr (fst (wait_on q ord t th)) = wq_addr q"
  "th_woken (snd (wait_on q ord t th)) = th_woken th"
  "th_queue (snd (wait_on q ord t th)) = (th_queue th)(t := wq_addr q)"
  by (simp_all add: wait_on_def Let_def)

lemma wakeup_one_None_iff [simp]: "fst (wakeup_one q ord th) = None \<longleftrightarrow> wq_root q = []"
  by (simp add: wakeup_one_def Let_def)

lemma wakeup_one_empty: "wq_root q = [] \<Longrightarrow> wakeup_one q ord th = (None, q, th)"
  by (simp add: wakeup_one_def)

lemma wakeup_one_first:
  assumes "wq_root q = t # ts"
  shows "wakeup_one q WAIT_FIRST th =
    (Some t, q\<lparr>wq_root := ts\<rparr>,
     th\<lparr>th_queue := (th_queue th)(t := NULL), th_woken := th_woken th @ [t]\<rparr>)"
  using assms by (simp add: wakeup_one_def sched_wakeup_call_def)

lemma wakeup_all_loop_spec:
  "wakeup_all_loop ts (q\<lparr>wq_root := ts\<rparr>) th i =
     (i + length ts, q\<lparr>wq_root := []\<rparr>,
      th\<lparr>th_queue := (\<lambda>t. if t \<in> set ts then NULL else th_queue th t),
         th_woken := th_woken th @ ts\<rparr>)"
proof (induction ts arbitrary: th i)
  case Nil
  then show ?case by simp
next
  case (Cons t ts)
  then show ?case
    by (simp add: sched_wakeup_call_def) (auto simp: fun_eq_iff)
qed

lemma wakeup_all_spec:
  "wakeup_all q th =
     (length (wq_root q), q\<lparr>wq_root := []\<rparr>,
      th\<lparr>th_queue := (\<lambda>t. if t \<in> set (wq_root q) then NULL else th_queue th t),
         th_woken := th_woken th @ wq_root q\<rparr>)"
  using wakeup_all_loop_spec [of "wq_root q" q th 0] by (simp add: wakeup_all_def)

text \<open>A thread parked with \<^verbatim>\<open>WAIT_LAST\<close> is woken by \<^verbatim>\<open>WAIT_FIRST\<close> after exactly the
  threads that were queued before it.\<close>

primrec wake_n :: "nat \<Rightarrow> wait_queue_s \<Rightarrow> threads \<Rightarrow> wait_queue_s \<times> threads" where
  "wake_n 0 q th = (q, th)"
| "wake_n (Suc n) q th = (let (_, q', th') = wakeup_one q WAIT_FIRST th in wake_n n q' th')"

lemma wake_n_order:
  "n \<le> length (wq_root q) \<Longrightarrow>
   wq_root (fst (wake_n n q th)) = drop n (wq_root q) \<and>
   th_woken (snd (wake_n n q th)) = th_woken th @ take n (wq_root q)"
proof (induction n arbitrary: q th)
  case 0
  then show ?case by simp
next
  case (Suc n)
  then obtain t ts where r: "wq_root q = t # ts" by (cases "wq_root q") auto
  have "n \<le> length ts" using Suc.prems r by simp
  then show ?case
    using Suc.IH [of "q\<lparr>wq_root := ts\<rparr>"
        "th\<lparr>th_queue := (th_queue th)(t := NULL), th_woken := th_woken th @ [t]\<rparr>"] r
    by (simp add: wakeup_one_first [OF r])
qed

section \<open>The contract of a lock that is handed over\<close>

text \<open>
  A thread's position with respect to one lock, and the interleaved executions of threads that take
  and release it: every call is atomic (the code runs it under the object's spinlock), a call that
  does not get the lock leaves its caller asleep, and a release either frees the lock or names the
  thread it was handed to, which then runs as the holder.
\<close>

datatype lk_pc = Idle | Sleeping | Holding

record 's lk_sys =
  lk_obj :: 's
  lk_pcs :: "tid \<Rightarrow> lk_pc"

inductive lk_step ::
  "(tid \<Rightarrow> 's \<Rightarrow> bool \<times> 's) \<Rightarrow> ('s \<Rightarrow> tid option \<times> 's) \<Rightarrow> 's lk_sys \<Rightarrow> 's lk_sys \<Rightarrow> bool"
  for lock unlock where
  acquire: "lk_pcs y t = Idle \<Longrightarrow> lock t (lk_obj y) = (True, s') \<Longrightarrow>
    lk_step lock unlock y \<lparr>lk_obj = s', lk_pcs = (lk_pcs y)(t := Holding)\<rparr>"
| block: "lk_pcs y t = Idle \<Longrightarrow> lock t (lk_obj y) = (False, s') \<Longrightarrow>
    lk_step lock unlock y \<lparr>lk_obj = s', lk_pcs = (lk_pcs y)(t := Sleeping)\<rparr>"
| release: "lk_pcs y t = Holding \<Longrightarrow> unlock (lk_obj y) = (None, s') \<Longrightarrow>
    lk_step lock unlock y \<lparr>lk_obj = s', lk_pcs = (lk_pcs y)(t := Idle)\<rparr>"
| handoff: "lk_pcs y t = Holding \<Longrightarrow> unlock (lk_obj y) = (Some u, s') \<Longrightarrow>
    lk_step lock unlock y \<lparr>lk_obj = s', lk_pcs = (lk_pcs y)(t := Idle, u := Holding)\<rparr>"

inductive lk_reach ::
  "(tid \<Rightarrow> 's \<Rightarrow> bool \<times> 's) \<Rightarrow> ('s \<Rightarrow> tid option \<times> 's) \<Rightarrow> 's \<Rightarrow> 's lk_sys \<Rightarrow> bool"
  for lock unlock s0 where
  init: "lk_reach lock unlock s0 \<lparr>lk_obj = s0, lk_pcs = (\<lambda>_. Idle)\<rparr>"
| step: "lk_reach lock unlock s0 y \<Longrightarrow> lk_step lock unlock y y' \<Longrightarrow> lk_reach lock unlock s0 y'"

text \<open>What a lock and its sleepers look like in a reachable state.\<close>

definition lk_inv :: "('s \<Rightarrow> bool) \<Rightarrow> ('s \<Rightarrow> tid list) \<Rightarrow> 's lk_sys \<Rightarrow> bool" where
  "lk_inv locked waiters y \<longleftrightarrow>
     (\<forall>t u. lk_pcs y t = Holding \<longrightarrow> lk_pcs y u = Holding \<longrightarrow> t = u) \<and>
     (locked (lk_obj y) \<longleftrightarrow> (\<exists>t. lk_pcs y t = Holding)) \<and>
     distinct (waiters (lk_obj y)) \<and>
     set (waiters (lk_obj y)) = {t. lk_pcs y t = Sleeping} \<and>
     (waiters (lk_obj y) \<noteq> [] \<longrightarrow> locked (lk_obj y))"

locale handoff_lock =
  fixes lock :: "tid \<Rightarrow> 's \<Rightarrow> bool \<times> 's"
    and unlock :: "'s \<Rightarrow> tid option \<times> 's"
    and locked :: "'s \<Rightarrow> bool"
    and waiters :: "'s \<Rightarrow> tid list"
  assumes lock_free: "\<not> locked s \<Longrightarrow>
      fst (lock t s) \<and> locked (snd (lock t s)) \<and> waiters (snd (lock t s)) = waiters s"
    and lock_busy: "locked s \<Longrightarrow>
      \<not> fst (lock t s) \<and> locked (snd (lock t s)) \<and> waiters (snd (lock t s)) = waiters s @ [t]"
    and unlock_idle: "waiters s = [] \<Longrightarrow>
      fst (unlock s) = None \<and> \<not> locked (snd (unlock s)) \<and> waiters (snd (unlock s)) = []"
    and unlock_handoff: "locked s \<Longrightarrow> waiters s = t # ts \<Longrightarrow>
      fst (unlock s) = Some t \<and> locked (snd (unlock s)) \<and> waiters (snd (unlock s)) = ts"
begin

lemma lk_step_inv:
  assumes "lk_step lock unlock y y'" and "lk_inv locked waiters y"
  shows "lk_inv locked waiters y'"
  using assms(1)
proof (cases rule: lk_step.cases)
  case (acquire t s')
  then have "\<not> locked (lk_obj y)" using lock_busy [of "lk_obj y" t] by auto
  then have "locked s'" "waiters s' = waiters (lk_obj y)"
    using lock_free [of "lk_obj y" t] acquire by auto
  with acquire assms(2) \<open>\<not> locked (lk_obj y)\<close> show ?thesis by (auto simp: lk_inv_def)
next
  case (block t s')
  then have l: "locked (lk_obj y)" using lock_free [of "lk_obj y" t] by auto
  then have "locked s'" "waiters s' = waiters (lk_obj y) @ [t]"
    using lock_busy [of "lk_obj y" t] block by auto
  with block assms(2) l show ?thesis by (auto simp: lk_inv_def) (metis lk_pc.distinct(3))
next
  case (release t s')
  then have w: "waiters (lk_obj y) = []"
    using unlock_handoff [of "lk_obj y"] assms(2)
    by (cases "waiters (lk_obj y)") (auto simp: lk_inv_def)
  then have "\<not> locked s'" "waiters s' = []" using unlock_idle [OF w] release by auto
  with release assms(2) w show ?thesis by (auto simp: lk_inv_def)
next
  case (handoff t u s')
  then obtain ts where w: "waiters (lk_obj y) = u # ts" and l: "locked (lk_obj y)"
    using unlock_handoff [of "lk_obj y"] unlock_idle [of "lk_obj y"] assms(2)
    by (cases "waiters (lk_obj y)") (auto simp: lk_inv_def)
  then have s': "locked s'" "waiters s' = ts" using unlock_handoff [OF l w] handoff by auto
  have i: "\<And>v. lk_pcs y v = Holding \<Longrightarrow> v = t" "distinct (u # ts)"
    "\<And>v. lk_pcs y v = Sleeping \<longleftrightarrow> v = u \<or> v \<in> set ts"
    using assms(2) w handoff(2) unfolding lk_inv_def by (blast, simp, auto)
  have pc: "((lk_pcs y)(t := Idle, u := Holding)) v = Holding \<longleftrightarrow> v = u"
    "((lk_pcs y)(t := Idle, u := Holding)) v = Sleeping \<longleftrightarrow> v \<in> set ts" for v
    using i handoff(2) by (metis (no_types) fun_upd_apply distinct.simps(2) lk_pc.distinct)+
  show ?thesis unfolding lk_inv_def handoff(1) lk_sys.simps pc s' using s' i(2) by simp
qed

lemma lk_reach_inv:
  assumes "lk_reach lock unlock s0 y" and "\<not> locked s0" and "waiters s0 = []"
  shows "lk_inv locked waiters y"
  using assms(1)
proof (induction rule: lk_reach.induct)
  case init
  then show ?case using assms(2,3) by (simp add: lk_inv_def)
next
  case (step y y')
  then show ?case using lk_step_inv by blast
qed

text \<open>Mutual exclusion, and no sleeper without a holder that will hand the lock over.\<close>

lemma mutual_exclusion:
  assumes "lk_reach lock unlock s0 y" "\<not> locked s0" "waiters s0 = []"
    and "lk_pcs y t = Holding" "lk_pcs y u = Holding"
  shows "t = u"
  using lk_reach_inv [OF assms(1-3)] assms(4,5) by (auto simp: lk_inv_def)

lemma sleeper_has_holder:
  assumes "lk_reach lock unlock s0 y" "\<not> locked s0" "waiters s0 = []"
    and "lk_pcs y t = Sleeping"
  shows "\<exists>u. lk_pcs y u = Holding"
  using lk_reach_inv [OF assms(1-3)] assms(4) by (force simp: lk_inv_def)

text \<open>Releasing as often as there are sleepers up to \<open>t\<close> gives the lock to \<open>t\<close>.\<close>

lemma unlock_n_reaches:
  assumes "locked s" and "i < length (waiters s)"
  shows "fst (unlock (((\<lambda>s. snd (unlock s)) ^^ i) s)) = Some (waiters s ! i)"
  using assms
proof (induction i arbitrary: s)
  case 0
  then obtain t ts where "waiters s = t # ts" by (cases "waiters s") auto
  then show ?case using unlock_handoff [of s t ts] 0 by simp
next
  case (Suc i)
  then obtain t ts where w: "waiters s = t # ts" by (cases "waiters s") auto
  have "locked (snd (unlock s))" "waiters (snd (unlock s)) = ts"
    using unlock_handoff [OF Suc.prems(1) w] by auto
  then show ?case using Suc.IH [of "snd (unlock s)"] Suc.prems w
    by (simp add: funpow_Suc_right del: funpow.simps)
qed

end

end
