(* ===== verification/Page.thy ===== *)
theory Page
  imports WaitQueue
begin

text \<open>
  Physical page descriptors (\<^verbatim>\<open>kernel/mm/page.h\<close>, \<^verbatim>\<open>kernel/mm/page.c\<close>): the state
  automaton, the sleeping page lock, reference counts, and the global list of dirty pages with the
  loop that flushes it. \<^verbatim>\<open>assert\<close> only prints in this kernel, so an operation called in a state
  it does not expect still runs; the model keeps that. Spinlocks around a body make the body atomic
  and have no state of their own here.
\<close>

type_synonym page_flags = "12 word"

abbreviation PG_DIRTY :: page_flags where "PG_DIRTY \<equiv> 0x080"
abbreviation PG_LOCKED :: page_flags where "PG_LOCKED \<equiv> 0x100"

datatype page_state_t = PGINIT | PGRESERVED | PGFREE | PGINVALID | PGVALID | PGLOCKEDIO | PGLOCKED

text \<open>\<open>pg_index\<close> is the union \<^verbatim>\<open>index\<close>/\<^verbatim>\<open>shared\<close>; the \<^verbatim>\<open>list\<close> and
  \<^verbatim>\<open>private_list\<close> links are the positions of the page in the lists that hold it.\<close>

record page_s =
  pg_state :: page_state_t
  pg_flags :: page_flags
  pg_cid :: nat
  pg_order :: nat
  pg_wait_queue :: wait_queue_s
  pg_index :: uint_t
  pg_mapper :: addr
  pg_private :: uint_t
  pg_count :: uint_t

definition PAGE_SET :: "page_s \<Rightarrow> page_flags \<Rightarrow> page_s" where
  "PAGE_SET page flag = page\<lparr>pg_flags := pg_flags page OR flag\<rparr>"

definition PAGE_CLEAR :: "page_s \<Rightarrow> page_flags \<Rightarrow> page_s" where
  "PAGE_CLEAR page flag = page\<lparr>pg_flags := pg_flags page AND NOT flag\<rparr>"

definition PAGE_IS :: "page_s \<Rightarrow> page_flags \<Rightarrow> bool" where
  "PAGE_IS page flag \<longleftrightarrow> pg_flags page AND flag \<noteq> 0"

definition page_init :: "page_s \<Rightarrow> nat \<Rightarrow> page_s" where
  "page_init page cid =
     page\<lparr>pg_wait_queue := wait_queue_init (pg_wait_queue page) ''Page'',
          pg_state := PGINIT, pg_flags := 0, pg_order := 0, pg_cid := cid, pg_count := 0,
          pg_index := 0, pg_mapper := NULL, pg_private := 0\<rparr>"

section \<open>Reference and sharing counts\<close>

text \<open>Both return the value before the update.\<close>

definition page_refcount_up :: "page_s \<Rightarrow> uint_t \<times> page_s" where
  "page_refcount_up page = (pg_count page, page\<lparr>pg_count := pg_count page + 1\<rparr>)"

definition page_refcount_down :: "page_s \<Rightarrow> uint_t \<times> page_s" where
  "page_refcount_down page = (pg_count page, page\<lparr>pg_count := pg_count page - 1\<rparr>)"

definition page_shared_init :: "page_s \<Rightarrow> page_s" where
  "page_shared_init page = page\<lparr>pg_index := 1\<rparr>"

definition page_shared_up :: "page_s \<Rightarrow> uint_t \<times> page_s" where
  "page_shared_up page = (pg_index page, page\<lparr>pg_index := pg_index page + 1\<rparr>)"

definition page_shared_down :: "page_s \<Rightarrow> uint_t \<times> page_s" where
  "page_shared_down page = (pg_index page, page\<lparr>pg_index := pg_index page - 1\<rparr>)"

section \<open>The page lock\<close>

text \<open>\<open>page_lock\<close> returns whether the caller got the lock at once; otherwise it is asleep on the
  page's wait queue. \<open>page_unlock\<close> returns the thread the lock is handed to.\<close>

definition page_lock :: "tid \<Rightarrow> page_s \<times> threads \<Rightarrow> bool \<times> page_s \<times> threads" where
  "page_lock this = (\<lambda>(page, th).
     if PAGE_IS page PG_LOCKED
     then let (queue, th) = wait_on (pg_wait_queue page) WAIT_LAST this th
          in (False, page\<lparr>pg_wait_queue := queue\<rparr>, th)
     else (True, PAGE_SET page PG_LOCKED, th))"

definition page_unlock :: "page_s \<times> threads \<Rightarrow> tid option \<times> page_s \<times> threads" where
  "page_unlock = (\<lambda>(page, th).
     let isEmpty = wait_queue_isEmpty (pg_wait_queue page)
     in if \<not> isEmpty
        then let (thread, queue, th) = wakeup_one (pg_wait_queue page) WAIT_FIRST th
             in (thread, page\<lparr>pg_wait_queue := queue\<rparr>, th)
        else (None, PAGE_CLEAR page PG_LOCKED, th))"

section \<open>The state automaton\<close>

text \<open>
  \<^verbatim>\<open>page_state_set\<close>. The third component is \<open>Some s\<close> when the caller went to sleep in
  \<^verbatim>\<open>page_lock\<close>; it then writes the state \<open>s\<close> when it resumes (\<open>page_state_resume\<close>).
\<close>

definition page_to_free :: "page_s \<times> threads \<Rightarrow> page_s \<times> threads" where
  "page_to_free = (\<lambda>(page, th). (page\<lparr>pg_state := PGFREE\<rparr>, th))"

definition page_to_invalid :: "page_s \<times> threads \<Rightarrow> page_s \<times> threads" where
  "page_to_invalid = (\<lambda>(page, th).
     if pg_state page = PGLOCKEDIO
     then snd (page_unlock (page\<lparr>pg_state := PGINVALID\<rparr>, th))
     else (page\<lparr>pg_state := PGINVALID\<rparr>, th))"

definition page_to_valid :: "page_s \<times> threads \<Rightarrow> page_s \<times> threads" where
  "page_to_valid = (\<lambda>(page, th).
     if pg_state page = PGINVALID
     then (page\<lparr>pg_state := PGVALID\<rparr>, th)
     else snd (page_unlock (page\<lparr>pg_state := PGVALID\<rparr>, th)))"

definition page_to_locked_io :: "tid \<Rightarrow> page_s \<times> threads \<Rightarrow> (page_s \<times> threads) \<times> page_state_t option" where
  "page_to_locked_io this st =
     (case page_lock this st of
        (True, page, th) \<Rightarrow> ((page\<lparr>pg_state := PGLOCKEDIO\<rparr>, th), None)
      | (False, page, th) \<Rightarrow> ((page, th), Some PGLOCKEDIO))"

definition page_to_locked :: "tid \<Rightarrow> page_s \<times> threads \<Rightarrow> (page_s \<times> threads) \<times> page_state_t option" where
  "page_to_locked this st =
     (case page_lock this st of
        (True, page, th) \<Rightarrow> ((page\<lparr>pg_state := PGLOCKED\<rparr>, th), None)
      | (False, page, th) \<Rightarrow> ((page, th), Some PGLOCKED))"

fun page_state_set :: "tid \<Rightarrow> page_state_t \<Rightarrow> page_s \<times> threads \<Rightarrow> (page_s \<times> threads) \<times> page_state_t option" where
  "page_state_set this PGFREE st = (page_to_free st, None)"
| "page_state_set this PGINVALID st = (page_to_invalid st, None)"
| "page_state_set this PGVALID st = (page_to_valid st, None)"
| "page_state_set this PGLOCKEDIO st = page_to_locked_io this st"
| "page_state_set this PGLOCKED st = page_to_locked this st"
| "page_state_set this PGRESERVED st =
     (((fst st)\<lparr>pg_count := 1, pg_state := PGRESERVED\<rparr>, snd st), None)"
| "page_state_set this PGINIT st = (((fst st)\<lparr>pg_state := PGINIT\<rparr>, snd st), None)"

definition page_state_resume :: "page_state_t \<Rightarrow> page_s \<Rightarrow> page_s" where
  "page_state_resume new_state page = page\<lparr>pg_state := new_state\<rparr>"

section \<open>The dirty list and its flush\<close>

text \<open>\<open>ds_io\<close> is the state behind the mapper's operations: its radix tree and the device.\<close>

record 'io dirty_sys =
  ds_pages :: "nat \<Rightarrow> page_s"
  ds_root :: "nat list"
  ds_th :: threads
  ds_io :: 'io

definition dirty_pages_init :: "'io dirty_sys \<Rightarrow> 'io dirty_sys" where
  "dirty_pages_init s = s\<lparr>ds_root := []\<rparr>"

definition page_set_dirty :: "nat \<Rightarrow> 'io dirty_sys \<Rightarrow> bool \<times> 'io dirty_sys" where
  "page_set_dirty page s =
     (if \<not> PAGE_IS (ds_pages s page) PG_DIRTY
      then (True, s\<lparr>ds_pages := (ds_pages s)(page := PAGE_SET (ds_pages s page) PG_DIRTY),
                    ds_root := page # ds_root s\<rparr>)
      else (False, s))"

definition page_clear_dirty :: "nat \<Rightarrow> 'io dirty_sys \<Rightarrow> bool \<times> 'io dirty_sys" where
  "page_clear_dirty page s =
     (if PAGE_IS (ds_pages s page) PG_DIRTY
      then (True, s\<lparr>ds_pages := (ds_pages s)(page := PAGE_CLEAR (ds_pages s page) PG_DIRTY),
                    ds_root := remove1 page (ds_root s)\<rparr>)
      else (False, s))"

text \<open>\<^verbatim>\<open>mapper_default_sync_page\<close>, the \<^verbatim>\<open>sync_page\<close> of every mapper of the kernel. The
  file system's \<^verbatim>\<open>writepage\<close> is a function pointer, so it is an argument, as is the untagging of
  the page in the mapper's radix tree.\<close>

definition mapper_default_sync_page ::
  "(nat \<Rightarrow> 'io \<Rightarrow> error_t \<times> 'io) \<Rightarrow> (nat \<Rightarrow> 'io \<Rightarrow> 'io) \<Rightarrow> nat \<Rightarrow> 'io dirty_sys \<Rightarrow> error_t \<times> 'io dirty_sys" where
  "mapper_default_sync_page writepage tag_clear page s =
     (if PAGE_IS (ds_pages s page) PG_DIRTY
      then let (err, io) = writepage page (ds_io s); s = s\<lparr>ds_io := io\<rparr>
           in if err \<noteq> 0 then (err, s)
              else let s = s\<lparr>ds_io := tag_clear page (ds_io s)\<rparr>
                   in (0, snd (page_clear_dirty page s))
      else (0, s))"

text \<open>The flush loop; a call that finds the page locked sleeps, and running out of fuel is
  \<open>NoFuel\<close>.\<close>

datatype 's run = Returned 's | Blocked 's | NoFuel

fun sync_all_pages ::
  "nat \<Rightarrow> (nat \<Rightarrow> 'io dirty_sys \<Rightarrow> error_t \<times> 'io dirty_sys) \<Rightarrow> tid \<Rightarrow> 'io dirty_sys \<Rightarrow> 'io dirty_sys run" where
  "sync_all_pages 0 sync_page this s = NoFuel"
| "sync_all_pages (Suc fuel) sync_page this s =
     (if ds_root s = [] then Returned s
      else let page = hd (ds_root s);
               (got, pg, th) = page_lock this (ds_pages s page, ds_th s);
               s = s\<lparr>ds_pages := (ds_pages s)(page := pg), ds_th := th\<rparr>
           in if \<not> got then Blocked s
              else let (_, s) = sync_page page s;
                       (_, pg, th) = page_unlock (ds_pages s page, ds_th s);
                       s = s\<lparr>ds_pages := (ds_pages s)(page := pg), ds_th := th\<rparr>
                   in sync_all_pages fuel sync_page this s)"

section \<open>Flags\<close>

lemma PAGE_IS_bit: "PAGE_IS p PG_DIRTY \<longleftrightarrow> bit (pg_flags p) 7"
  "PAGE_IS p PG_LOCKED \<longleftrightarrow> bit (pg_flags p) 8"
  using and_exp_eq_0_iff_not_bit [of "pg_flags p" 7] and_exp_eq_0_iff_not_bit [of "pg_flags p" 8]
  by (simp_all add: PAGE_IS_def)

lemma page_flag_bits:
  "bit (PG_DIRTY) n \<longleftrightarrow> n = 7" "bit (PG_LOCKED) n \<longleftrightarrow> n = 8"
  using bit_exp_iff [where 'a = "12 word", of 7 n] bit_exp_iff [where 'a = "12 word", of 8 n]
  by auto

lemma flags_set: "pg_flags (PAGE_SET p f) = pg_flags p OR f"
  by (simp add: PAGE_SET_def)

lemma flags_clear: "pg_flags (PAGE_CLEAR p f) = pg_flags p AND NOT f"
  by (simp add: PAGE_CLEAR_def)

lemma PAGE_IS_simps [simp]:
  "PAGE_IS (PAGE_SET p PG_DIRTY) PG_DIRTY" "PAGE_IS (PAGE_SET p PG_LOCKED) PG_LOCKED"
  "\<not> PAGE_IS (PAGE_CLEAR p PG_DIRTY) PG_DIRTY" "\<not> PAGE_IS (PAGE_CLEAR p PG_LOCKED) PG_LOCKED"
  "PAGE_IS (PAGE_SET p PG_DIRTY) PG_LOCKED = PAGE_IS p PG_LOCKED"
  "PAGE_IS (PAGE_SET p PG_LOCKED) PG_DIRTY = PAGE_IS p PG_DIRTY"
  "PAGE_IS (PAGE_CLEAR p PG_DIRTY) PG_LOCKED = PAGE_IS p PG_LOCKED"
  "PAGE_IS (PAGE_CLEAR p PG_LOCKED) PG_DIRTY = PAGE_IS p PG_DIRTY"
  unfolding PAGE_IS_bit flags_set flags_clear bit_or_iff bit_and_iff bit_not_iff page_flag_bits
  by simp_all

lemma page_flag_fields [simp]:
  "pg_wait_queue (PAGE_SET p f) = pg_wait_queue p" "pg_wait_queue (PAGE_CLEAR p f) = pg_wait_queue p"
  "pg_state (PAGE_SET p f) = pg_state p" "pg_state (PAGE_CLEAR p f) = pg_state p"
  "PAGE_IS (p\<lparr>pg_wait_queue := q\<rparr>) f = PAGE_IS p f" "PAGE_IS (p\<lparr>pg_state := s\<rparr>) f = PAGE_IS p f"
  by (simp_all add: PAGE_SET_def PAGE_CLEAR_def PAGE_IS_def)

section \<open>The page lock is a handed-over lock\<close>

definition page_locked :: "page_s \<times> threads \<Rightarrow> bool" where
  "page_locked = (\<lambda>(page, th). PAGE_IS page PG_LOCKED)"

definition page_waiters :: "page_s \<times> threads \<Rightarrow> tid list" where
  "page_waiters = (\<lambda>(page, th). wq_root (pg_wait_queue page))"

interpretation plock: handoff_lock page_lock page_unlock page_locked page_waiters
proof
  fix s t ts
  show "\<not> page_locked s \<Longrightarrow> fst (page_lock t s) \<and> page_locked (snd (page_lock t s)) \<and>
      page_waiters (snd (page_lock t s)) = page_waiters s"
    by (auto simp: page_locked_def page_waiters_def page_lock_def split: prod.splits)
  show "page_locked s \<Longrightarrow> \<not> fst (page_lock t s) \<and> page_locked (snd (page_lock t s)) \<and>
      page_waiters (snd (page_lock t s)) = page_waiters s @ [t]"
    by (auto simp: page_locked_def page_waiters_def page_lock_def wait_on_def split: prod.splits)
  show "page_waiters s = [] \<Longrightarrow> fst (page_unlock s) = None \<and>
      \<not> page_locked (snd (page_unlock s)) \<and> page_waiters (snd (page_unlock s)) = []"
    by (auto simp: page_locked_def page_waiters_def page_unlock_def wait_queue_isEmpty_def
        split: prod.splits)
  show "page_locked s \<Longrightarrow> page_waiters s = t # ts \<Longrightarrow> fst (page_unlock s) = Some t \<and>
      page_locked (snd (page_unlock s)) \<and> page_waiters (snd (page_unlock s)) = ts"
    by (auto simp: page_locked_def page_waiters_def page_unlock_def wait_queue_isEmpty_def
        wakeup_one_first split: prod.splits)
qed

section \<open>The dirty list\<close>

definition dirty_inv :: "'io dirty_sys \<Rightarrow> bool" where
  "dirty_inv s \<longleftrightarrow> distinct (ds_root s) \<and>
     (\<forall>p. p \<in> set (ds_root s) \<longleftrightarrow> PAGE_IS (ds_pages s p) PG_DIRTY)"

lemma page_set_dirty_inv: "dirty_inv s \<Longrightarrow> dirty_inv (snd (page_set_dirty p s))"
  by (auto simp: dirty_inv_def page_set_dirty_def)

lemma page_clear_dirty_inv: "dirty_inv s \<Longrightarrow> dirty_inv (snd (page_clear_dirty p s))"
  by (auto simp: dirty_inv_def page_clear_dirty_def)

text \<open>One round of the flush on an unlocked page whose write succeeds, and one whose write fails.\<close>

definition flush_ok :: "(nat \<Rightarrow> 'io \<Rightarrow> error_t \<times> 'io) \<Rightarrow> (nat \<Rightarrow> 'io \<Rightarrow> 'io) \<Rightarrow> nat \<Rightarrow> 'io \<Rightarrow> 'io" where
  "flush_ok writepage tag_clear p io = tag_clear p (snd (writepage p io))"

definition flushable :: "'io dirty_sys \<Rightarrow> bool" where
  "flushable s \<longleftrightarrow> (\<forall>p\<in>set (ds_root s).
     \<not> PAGE_IS (ds_pages s p) PG_LOCKED \<and> wq_root (pg_wait_queue (ds_pages s p)) = [])"

lemma page_lock_free:
  "\<not> PAGE_IS pg PG_LOCKED \<Longrightarrow> page_lock t (pg, th) = (True, PAGE_SET pg PG_LOCKED, th)"
  by (simp add: page_lock_def)

lemma page_unlock_alone:
  "wq_root (pg_wait_queue pg) = [] \<Longrightarrow> page_unlock (pg, th) = (None, PAGE_CLEAR pg PG_LOCKED, th)"
  by (simp add: page_unlock_def wait_queue_isEmpty_def)

lemma sync_all_pages_flushes:
  fixes s :: "'io dirty_sys"
  assumes ok: "\<And>p io. fst (writepage p io) = 0"
    and "dirty_inv s" "flushable s" "length (ds_root s) < fuel"
  shows "\<exists>s'. sync_all_pages fuel (mapper_default_sync_page writepage tag_clear) this s = Returned s'
     \<and> ds_root s' = [] \<and> (\<forall>p. \<not> PAGE_IS (ds_pages s' p) PG_DIRTY)
     \<and> ds_io s' = fold (flush_ok writepage tag_clear) (ds_root s) (ds_io s)"
  using assms(2-)
proof (induction fuel arbitrary: s)
  case 0
  then show ?case by simp
next
  case (Suc fuel)
  show ?case
  proof (cases "ds_root s")
    case Nil
    then show ?thesis using Suc.prems by (auto simp: dirty_inv_def)
  next
    case (Cons p ps)
    define pg where "pg = PAGE_CLEAR (PAGE_CLEAR (PAGE_SET (ds_pages s p) PG_LOCKED) PG_DIRTY) PG_LOCKED"
    define s1 where "s1 = s\<lparr>ds_pages := (ds_pages s)(p := pg), ds_root := ps,
      ds_io := flush_ok writepage tag_clear p (ds_io s)\<rparr>"
    have p: "PAGE_IS (ds_pages s p) PG_DIRTY" "\<not> PAGE_IS (ds_pages s p) PG_LOCKED"
      "wq_root (pg_wait_queue (ds_pages s p)) = []"
      using Suc.prems Cons by (auto simp: dirty_inv_def flushable_def)
    have "sync_all_pages (Suc fuel) (mapper_default_sync_page writepage tag_clear) this s =
        sync_all_pages fuel (mapper_default_sync_page writepage tag_clear) this s1"
      using p ok [of p "ds_io s"] Cons
      by (cases "writepage p (ds_io s)"; cases s)
        (simp add: page_lock_free mapper_default_sync_page_def page_clear_dirty_def Let_def
          page_unlock_alone s1_def pg_def flush_ok_def)
    moreover have "dirty_inv s1" "flushable s1" "length (ds_root s1) < fuel"
      using Suc.prems Cons by (auto simp: dirty_inv_def flushable_def s1_def pg_def)
    ultimately show ?thesis using Suc.IH [of s1] Cons by (simp add: s1_def)
  qed
qed

text \<open>The loop ignores the error of \<^verbatim>\<open>sync_page\<close>: a page that cannot be written stays first.\<close>

lemma sync_all_pages_stuck:
  assumes bad: "\<And>io. fst (writepage p io) \<noteq> 0"
    and "ds_root s = p # ps" "PAGE_IS (ds_pages s p) PG_DIRTY"
    and "\<not> PAGE_IS (ds_pages s p) PG_LOCKED" "wq_root (pg_wait_queue (ds_pages s p)) = []"
  shows "sync_all_pages fuel (mapper_default_sync_page writepage tag_clear) this s = NoFuel"
  using assms(2-)
proof (induction fuel arbitrary: s)
  case 0
  then show ?case by simp
next
  case (Suc fuel)
  then show ?case
    using bad [of "ds_io s"]
    by (cases "writepage p (ds_io s)")
      (simp add: page_lock_free mapper_default_sync_page_def page_unlock_alone Let_def)
qed

section \<open>Properties\<close>

text \<open>A page with no holder, as \<^verbatim>\<open>page_init\<close> leaves it.\<close>

definition fresh_page :: page_s where
  "fresh_page = page_init \<lparr>pg_state = PGFREE, pg_flags = 0, pg_cid = 0, pg_order = 0,
     pg_wait_queue = \<lparr>wq_addr = 4, wq_name = [], wq_state = 0, wq_root = []\<rparr>,
     pg_index = 0, pg_mapper = 0, pg_private = 0, pg_count = 0\<rparr> 0"

definition no_threads :: threads where
  "no_threads = \<lparr>th_queue = (\<lambda>_. 0), th_woken = []\<rparr>"

text \<open>C6. In every interleaving of threads that lock and unlock an initialised page, at most one thread
  holds the page lock, the locked flag is set exactly when there is a holder, and every sleeping
  thread waits for a holder.\<close>

theorem page_lock_exclusive:
  assumes "lk_reach page_lock page_unlock (page_init pg cid, th) y"
  shows "(\<forall>t u. lk_pcs y t = Holding \<and> lk_pcs y u = Holding \<longrightarrow> t = u) \<and>
    (page_locked (lk_obj y) \<longleftrightarrow> (\<exists>t. lk_pcs y t = Holding)) \<and>
    ((\<exists>t. lk_pcs y t = Sleeping) \<longrightarrow> (\<exists>u. lk_pcs y u = Holding))"
proof -
  have 0: "\<not> page_locked (page_init pg cid, th)" "page_waiters (page_init pg cid, th) = []"
    by (simp_all add: page_locked_def page_waiters_def page_init_def PAGE_IS_def wait_queue_init_def)
  show ?thesis
    using plock.lk_reach_inv [OF assms 0] plock.sleeper_has_holder [OF assms 0]
    unfolding lk_inv_def by blast
qed

theorem page_lock_exclusive_witness:
  "\<exists>y. lk_reach page_lock page_unlock (page_init fresh_page 0, no_threads) y \<and>
     lk_pcs y 1 = Holding \<and> lk_pcs y 2 = Sleeping \<and> page_locked (lk_obj y)"
proof -
  let ?s0 = "(page_init fresh_page 0, no_threads)"
  let ?y0 = "\<lparr>lk_obj = ?s0, lk_pcs = (\<lambda>_. Idle)\<rparr>"
  obtain s1 where 1: "page_lock 1 ?s0 = (True, s1)" "page_locked s1"
    using plock.lock_free [of ?s0 1] by (cases "page_lock 1 ?s0")
      (auto simp: page_locked_def page_init_def PAGE_IS_def)
  let ?y1 = "\<lparr>lk_obj = s1, lk_pcs = (\<lambda>_. Idle)(1 := Holding)\<rparr>"
  obtain s2 where 2: "page_lock 2 s1 = (False, s2)"
    using plock.lock_busy [OF 1(2), of 2] by (cases "page_lock 2 s1") auto
  let ?y2 = "\<lparr>lk_obj = s2, lk_pcs = (\<lambda>_. Idle)(1 := Holding, 2 := Sleeping)\<rparr>"
  have "lk_step page_lock page_unlock ?y0 ?y1" using lk_step.acquire [of ?y0 1 page_lock s1] 1 by simp
  then have r1: "lk_reach page_lock page_unlock ?s0 ?y1"
    by (rule lk_reach.step [OF lk_reach.init])
  moreover have "lk_step page_lock page_unlock ?y1 ?y2" using lk_step.block [of ?y1 2 page_lock s2] 2 by simp
  ultimately have r: "lk_reach page_lock page_unlock ?s0 ?y2" by (rule lk_reach.step)
  have "page_locked (lk_obj ?y2) \<longleftrightarrow> (\<exists>t. lk_pcs ?y2 t = Holding)"
    using page_lock_exclusive [OF r] by (elim conjE)
  moreover have h: "lk_pcs ?y2 1 = Holding" "lk_pcs ?y2 2 = Sleeping" by simp_all
  ultimately have "page_locked (lk_obj ?y2)" by blast
  with r h show ?thesis by blast
qed

text \<open>The page lock is handed over in arrival order: from a locked page, the \<open>k\<close>-th next unlock gives
  the lock to the \<open>k\<close>-th waiting thread.\<close>

theorem page_lock_fifo:
  assumes "page_locked s" and "k < length (page_waiters s)"
  shows "fst (page_unlock (((\<lambda>s. snd (page_unlock s)) ^^ k) s)) = Some (page_waiters s ! k)"
  by (rule plock.unlock_n_reaches [OF assms])

theorem page_lock_fifo_witness:
  "fst (page_unlock (snd (page_unlock
     (snd (page_lock 7 (snd (page_lock 5 (snd (page_lock 3 (fresh_page, no_threads)))))))))) = Some 7"
  using page_lock_fifo [of "snd (page_lock 7 (snd (page_lock 5 (snd (page_lock 3 (fresh_page, no_threads))))))" 1]
  by (simp add: page_lock_def page_locked_def page_waiters_def fresh_page_def page_init_def
      PAGE_SET_def PAGE_IS_def wait_on_def wait_queue_init_def)

text \<open>A system with two dirty pages.\<close>

definition demo_dirty :: "nat list dirty_sys" where
  "demo_dirty = \<lparr>ds_pages = (\<lambda>_. fresh_page)(1 := PAGE_SET fresh_page PG_DIRTY, 2 := PAGE_SET fresh_page PG_DIRTY),
     ds_root = [2, 1], ds_th = no_threads, ds_io = []\<rparr>"

lemma fresh_page_flags: "\<not> PAGE_IS fresh_page f" "wq_root (pg_wait_queue fresh_page) = []"
  by (simp_all add: fresh_page_def page_init_def PAGE_IS_def wait_queue_init_def)

text \<open>C7. When no dirty page is locked and every write succeeds, \<^verbatim>\<open>sync_all_pages\<close> returns after one
  round per dirty page, each page is written exactly once in list order, and no page is dirty
  afterwards.\<close>

theorem sync_all_pages_terminates:
  fixes s :: "'io dirty_sys"
  assumes "\<And>p io. fst (writepage p io) = 0" and "dirty_inv s" and "flushable s"
    and "length (ds_root s) < fuel"
  shows "\<exists>s'. sync_all_pages fuel (mapper_default_sync_page writepage tag_clear) this s = Returned s'
     \<and> ds_root s' = [] \<and> (\<forall>p. \<not> PAGE_IS (ds_pages s' p) PG_DIRTY)
     \<and> ds_io s' = fold (flush_ok writepage tag_clear) (ds_root s) (ds_io s)"
  by (rule sync_all_pages_flushes [OF assms])

theorem sync_all_pages_terminates_witness:
  "\<exists>s'. sync_all_pages 3 (mapper_default_sync_page (\<lambda>p io. (0, io @ [p])) (\<lambda>p io. io)) 9 demo_dirty = Returned s' \<and>
     ds_root s' = [] \<and> ds_io s' = [2, 1]"
proof -
  have "dirty_inv demo_dirty" "flushable demo_dirty"
    by (auto simp: dirty_inv_def flushable_def demo_dirty_def fresh_page_flags)
  then show ?thesis
    using sync_all_pages_terminates [of "\<lambda>p io. (0, io @ [p])" demo_dirty 3 "\<lambda>p io. io" 9]
    by (auto simp: demo_dirty_def flush_ok_def)
qed

text \<open>A page whose write fails is never taken off the dirty list and its error is ignored: with such
  an unlocked page at the head, \<^verbatim>\<open>sync_all_pages\<close> runs forever.\<close>

theorem sync_all_pages_livelock:
  assumes "\<And>io. fst (writepage p io) \<noteq> 0"
    and "ds_root s = p # ps" "PAGE_IS (ds_pages s p) PG_DIRTY"
    and "\<not> PAGE_IS (ds_pages s p) PG_LOCKED" "wq_root (pg_wait_queue (ds_pages s p)) = []"
  shows "\<forall>fuel. sync_all_pages fuel (mapper_default_sync_page writepage tag_clear) this s = NoFuel"
  using sync_all_pages_stuck [of writepage p, OF assms] by blast

theorem sync_all_pages_livelock_witness:
  "sync_all_pages 1000 (mapper_default_sync_page (\<lambda>p io. (5, io)) (\<lambda>p io. io)) 9 demo_dirty = NoFuel"
  using sync_all_pages_livelock [of "\<lambda>p io. (5, io)" 2 demo_dirty "[1]" "\<lambda>p io. io" 9]
  by (simp add: demo_dirty_def fresh_page_flags)

end
