(* ===== verification/PPM.thy ===== *)
theory PPM
  imports Bits Buddy Page
begin

text \<open>
  The physical page manager (\<^verbatim>\<open>kernel/mm/ppm.c\<close>, \<^verbatim>\<open>ppm.h\<close>): a binary buddy
  allocator with orders \<open>0 \<dots> 9\<close> per cluster. A page descriptor is its index in
  \<^verbatim>\<open>pages_tbl\<close>; a free list is the list of the indices linked on it, first entry first. Every
  operation returns \<open>None\<close> when the code would touch a descriptor outside \<^verbatim>\<open>pages_tbl\<close>, a free
  list outside \<^verbatim>\<open>free_pages\<close>, or unlink an entry that is on no list, so a proved \<open>Some\<close> is a
  proof of memory safety.

  The invariant \<open>ppm_inv\<close> says that the free blocks and the used blocks partition the page range
  (\<open>Buddy\<close>), that no two free buddies are left unmerged, and that the counters are exact.
\<close>

abbreviation PPM_MAX_ORDER :: nat where "PPM_MAX_ORDER \<equiv> 10"
abbreviation PPM_LAST_ORDER :: nat where "PPM_LAST_ORDER \<equiv> 9"
abbreviation PMM_PAGE_SHIFT :: nat where "PMM_PAGE_SHIFT \<equiv> 12"
abbreviation PMM_PAGE_SIZE :: uint_t where "PMM_PAGE_SIZE \<equiv> 0x1000"

record buddy_list_s =
  bl_root :: "nat list"
  bl_pages_nr :: uint_t

record ppm_s =
  ppm_ppn_start :: uint_t
  ppm_vaddr_begin :: uint_t
  ppm_vaddr_start :: uint_t
  ppm_free_pages :: "buddy_list_s list"
  ppm_pages_tbl :: "page_s list"
  ppm_pages_nr :: uint_t
  ppm_free_pages_nr :: uint_t
  ppm_uprio_pages_min :: uint_t
  ppm_kprio_pages_min :: uint_t
  ppm_urgent_pages_min :: uint_t
  ppm_begin :: uint_t
  ppm_wait_tbl :: "wait_queue_s list"

section \<open>Conversions\<close>

definition ppm_page2addr :: "ppm_s \<Rightarrow> nat \<Rightarrow> uint_t" where
  "ppm_page2addr ppm page = of_nat page * PMM_PAGE_SIZE + ppm_vaddr_begin ppm"

definition ppm_addr2page :: "ppm_s \<Rightarrow> uint_t \<Rightarrow> nat" where
  "ppm_addr2page ppm addr = unat (drop_bit PMM_PAGE_SHIFT (addr - ppm_vaddr_begin ppm))"

definition ppm_page2ppn :: "ppm_s \<Rightarrow> nat \<Rightarrow> uint_t" where
  "ppm_page2ppn ppm page = of_nat page + ppm_ppn_start ppm"

definition ppm_ppn2page :: "ppm_s \<Rightarrow> uint_t \<Rightarrow> nat" where
  "ppm_ppn2page ppm ppn = unat (ppn - ppm_ppn_start ppm)"

definition ppm_ppn2vma :: "ppm_s \<Rightarrow> uint_t \<Rightarrow> uint_t" where
  "ppm_ppn2vma ppm ppn = push_bit PMM_PAGE_SHIFT (ppn - ppm_ppn_start ppm) + ppm_vaddr_begin ppm"

definition ppm_vma2ppn :: "ppm_s \<Rightarrow> uint_t \<Rightarrow> uint_t" where
  "ppm_vma2ppn ppm vma = drop_bit PMM_PAGE_SHIFT (vma - ppm_vaddr_begin ppm) + ppm_ppn_start ppm"

section \<open>Descriptors and free lists\<close>

definition upd_page :: "nat \<Rightarrow> (page_s \<Rightarrow> page_s) \<Rightarrow> ppm_s \<Rightarrow> ppm_s" where
  "upd_page i f ppm = ppm\<lparr>ppm_pages_tbl := (ppm_pages_tbl ppm)[i := f (ppm_pages_tbl ppm ! i)]\<rparr>"

text \<open>\<^verbatim>\<open>list_unlink(&block->list)\<close> takes the entry out of the list that holds it.\<close>

definition unlink_page :: "nat \<Rightarrow> ppm_s \<Rightarrow> ppm_s option" where
  "unlink_page b ppm =
     (if list_ex (\<lambda>bl. b \<in> set (bl_root bl)) (ppm_free_pages ppm)
      then Some (ppm\<lparr>ppm_free_pages :=
             map (\<lambda>bl. bl\<lparr>bl_root := remove1 b (bl_root bl)\<rparr>) (ppm_free_pages ppm)\<rparr>)
      else None)"

definition pages_nr_add :: "nat \<Rightarrow> uint_t \<Rightarrow> ppm_s \<Rightarrow> ppm_s" where
  "pages_nr_add order d ppm =
     ppm\<lparr>ppm_free_pages := (ppm_free_pages ppm)[order :=
       (ppm_free_pages ppm ! order)\<lparr>bl_pages_nr := bl_pages_nr (ppm_free_pages ppm ! order) + d\<rparr>]\<rparr>"

text \<open>\<^verbatim>\<open>list_add(&free_pages[order].root, ...)\<close> followed by \<^verbatim>\<open>pages_nr ++\<close>.\<close>

definition link_page :: "nat \<Rightarrow> nat \<Rightarrow> ppm_s \<Rightarrow> ppm_s option" where
  "link_page order b ppm =
     (if order < length (ppm_free_pages ppm)
      then Some (pages_nr_add order 1 (ppm\<lparr>ppm_free_pages := (ppm_free_pages ppm)[order :=
             (ppm_free_pages ppm ! order)\<lparr>bl_root := b # bl_root (ppm_free_pages ppm ! order)\<rparr>]\<rparr>))
      else None)"

section \<open>Freeing\<close>

text \<open>The merging loop: the index and order of the block it ends with.\<close>

function ppm_merge :: "nat \<Rightarrow> nat \<Rightarrow> ppm_s \<Rightarrow> (nat \<times> nat \<times> ppm_s) option" where
  "ppm_merge page_index current_order ppm =
     (if current_order < PPM_LAST_ORDER
      then let block_index = page_index XOR 2 ^ current_order
           in if block_index < length (ppm_pages_tbl ppm)
              then let block = ppm_pages_tbl ppm ! block_index
                   in if pg_state block \<noteq> PGFREE \<or> pg_order block \<noteq> current_order
                      then Some (page_index, current_order, ppm)
                      else case unlink_page block_index ppm of
                             None \<Rightarrow> None
                           | Some ppm \<Rightarrow>
                               let ppm = pages_nr_add current_order (-1) ppm;
                                   ppm = upd_page block_index (\<lambda>p. p\<lparr>pg_order := 0\<rparr>) ppm
                               in ppm_merge (page_index AND block_index) (Suc current_order) ppm
              else None
      else Some (page_index, current_order, ppm))"
  by pat_completeness auto
termination by (relation "measure (\<lambda>(p, c, ppm). PPM_LAST_ORDER - c)") auto

declare ppm_merge.simps [simp del]

text \<open>\<^verbatim>\<open>page_state_set(page, PGFREE)\<close> is the branch \<^verbatim>\<open>page_to_free\<close>, which touches no
  thread.\<close>

definition set_free :: "page_s \<Rightarrow> page_s" where
  "set_free page = page\<lparr>pg_state := PGFREE\<rparr>"

definition ppm_free_pages_nolock :: "nat \<Rightarrow> nat \<Rightarrow> ppm_s \<Rightarrow> ppm_s option" where
  "ppm_free_pages_nolock page order ppm =
     (if page < length (ppm_pages_tbl ppm)
      then let ppm = upd_page page set_free ppm;
               ppm = ppm\<lparr>ppm_free_pages_nr := ppm_free_pages_nr ppm + push_bit order 1\<rparr>
           in case ppm_merge page order ppm of
                None \<Rightarrow> None
              | Some (page_index, current_order, ppm) \<Rightarrow>
                  let ppm = upd_page page_index (\<lambda>p. p\<lparr>pg_order := current_order\<rparr>) ppm
                  in link_page current_order page_index ppm
      else None)"

definition ppm_free_pages_op :: "nat \<Rightarrow> ppm_s \<Rightarrow> ppm_s option" where
  "ppm_free_pages_op page ppm =
     (if page < length (ppm_pages_tbl ppm)
      then let (old, pg) = page_refcount_down (ppm_pages_tbl ppm ! page);
               ppm = upd_page page (\<lambda>_. pg) ppm
           in if old > 1 then Some ppm
              else ppm_free_pages_nolock page (pg_order pg) ppm
      else None)"

section \<open>Allocation\<close>

text \<open>The search for the first non-empty list; the block is unlinked there.\<close>

function find_order :: "nat \<Rightarrow> ppm_s \<Rightarrow> nat option" where
  "find_order current_order ppm =
     (if current_order < PPM_MAX_ORDER
      then if bl_root (ppm_free_pages ppm ! current_order) \<noteq> [] then Some current_order
           else find_order (Suc current_order) ppm
      else None)"
  by pat_completeness auto
termination by (relation "measure (\<lambda>(c, ppm). PPM_MAX_ORDER - c)") auto

declare find_order.simps [simp del]

text \<open>The splitting loop: the upper half of the block goes back on a list at every step.\<close>

fun ppm_split :: "nat \<Rightarrow> nat \<Rightarrow> nat \<Rightarrow> ppm_s \<Rightarrow> ppm_s option" where
  "ppm_split block order 0 ppm = Some ppm"
| "ppm_split block order (Suc current_order) ppm =
     (if Suc current_order > order
      then let remaining_block = block + 2 ^ current_order
           in if remaining_block < length (ppm_pages_tbl ppm)
              then let ppm = upd_page remaining_block (\<lambda>p. p\<lparr>pg_order := current_order\<rparr>) ppm
                   in case link_page current_order remaining_block ppm of
                        None \<Rightarrow> None
                      | Some ppm \<Rightarrow> ppm_split block order current_order ppm
              else None
      else Some ppm)"

text \<open>\<^verbatim>\<open>page_state_set(block, PGINVALID)\<close> may release the page lock, hence the threads.\<close>

definition ppm_do_alloc_pages :: "nat \<Rightarrow> ppm_s \<times> threads \<Rightarrow> (nat option \<times> ppm_s \<times> threads) option" where
  "ppm_do_alloc_pages order = (\<lambda>(ppm, th).
     case find_order order ppm of
       None \<Rightarrow> Some (None, ppm, th)
     | Some current_order \<Rightarrow>
        (let block = hd (bl_root (ppm_free_pages ppm ! current_order))
         in (case unlink_page block ppm of
              None \<Rightarrow> None
            | Some ppm \<Rightarrow>
               (let ppm = ppm\<lparr>ppm_free_pages_nr := ppm_free_pages_nr ppm - push_bit order 1\<rparr>;
                    ppm = pages_nr_add current_order (-1) ppm
                in (case ppm_split block order current_order ppm of
                     None \<Rightarrow> None
                   | Some ppm \<Rightarrow>
                      (if block < length (ppm_pages_tbl ppm)
                       then let (pg, th) = page_to_invalid (ppm_pages_tbl ppm ! block, th);
                                (_, pg) = page_refcount_up pg;
                                pg = pg\<lparr>pg_order := order\<rparr>
                            in Some (Some block, upd_page block (\<lambda>_. pg) ppm, th)
                       else None))))))"

section \<open>Initialisation\<close>

record boot_info_s =
  bi_local_cluster_id :: nat
  bi_boot_cluster_id :: nat
  bi_reserved_start :: uint_t
  bi_reserved_end :: uint_t

text \<open>The size of \<^verbatim>\<open>struct page_s\<close> on the 32-bit target.\<close>

abbreviation SIZEOF_PAGE_S :: uint_t where "SIZEOF_PAGE_S \<equiv> 56"

definition set_reserved :: "page_s \<Rightarrow> page_s" where
  "set_reserved page = page\<lparr>pg_count := 1, pg_state := PGRESERVED\<rparr>"

text \<open>\<open>mem\<close> is what the descriptor array holds before it is initialised.\<close>

fun reserve_first :: "nat \<Rightarrow> ppm_s \<Rightarrow> ppm_s option" where
  "reserve_first 0 ppm = Some ppm"
| "reserve_first (Suc n) ppm =
     (case reserve_first n ppm of
        None \<Rightarrow> None
      | Some ppm \<Rightarrow> if n < length (ppm_pages_tbl ppm) then Some (upd_page n set_reserved ppm) else None)"

definition ppm_init_pages :: "(nat \<Rightarrow> page_s) \<Rightarrow> nat \<Rightarrow> ppm_s \<Rightarrow> ppm_s option" where
  "ppm_init_pages mem cid ppm =
     (let reserved_pages_nr =
            drop_bit PMM_PAGE_SHIFT (ARROUND_UP (ppm_pages_nr ppm * SIZEOF_PAGE_S) PMM_PAGE_SIZE)
            + drop_bit PMM_PAGE_SHIFT (ppm_vaddr_start ppm - ppm_vaddr_begin ppm);
          ppm = ppm\<lparr>ppm_pages_tbl := map (\<lambda>i. page_init (mem i) cid) [0..<unat (ppm_pages_nr ppm)]\<rparr>
      in reserve_first (unat reserved_pages_nr) ppm)"

text \<open>The loop over the boot reservation. Its counter is a machine word; the fuel given by
  \<open>ppm_init_finalize\<close> is exact when the range does not wrap around the address space.\<close>

fun reserve_range :: "nat \<Rightarrow> boot_info_s \<Rightarrow> uint_t \<Rightarrow> ppm_s \<Rightarrow> ppm_s option" where
  "reserve_range 0 info reserved ppm = None"
| "reserve_range (Suc fuel) info reserved ppm =
     (if reserved < bi_reserved_end info
      then let page = (if bi_local_cluster_id info = bi_boot_cluster_id info
                       then ppm_ppn2page ppm (drop_bit PMM_PAGE_SHIFT reserved)
                       else ppm_addr2page ppm reserved)
           in if page < length (ppm_pages_tbl ppm)
              then reserve_range fuel info (reserved + PMM_PAGE_SIZE) (upd_page page set_reserved ppm)
              else None
      else Some ppm)"

fun free_unreserved :: "nat list \<Rightarrow> ppm_s \<Rightarrow> ppm_s option" where
  "free_unreserved [] ppm = Some ppm"
| "free_unreserved (i # is) ppm =
     (let page = ppm_pages_tbl ppm ! i
      in if pg_state page \<noteq> PGRESERVED
         then case ppm_free_pages_nolock i (pg_order page) ppm of
                None \<Rightarrow> None
              | Some ppm \<Rightarrow> free_unreserved is ppm
         else free_unreserved is ppm)"

definition ppm_init_finalize :: "(nat \<Rightarrow> page_s) \<Rightarrow> boot_info_s \<Rightarrow> ppm_s \<Rightarrow> ppm_s option" where
  "ppm_init_finalize mem info ppm =
     (case ppm_init_pages mem (bi_local_cluster_id info) ppm of
        None \<Rightarrow> None
      | Some ppm \<Rightarrow>
         (case reserve_range (unat (bi_reserved_end info - bi_reserved_start info) div 0x1000 + 2)
                 info (bi_reserved_start info) ppm of
            None \<Rightarrow> None
          | Some ppm \<Rightarrow> free_unreserved [0..<unat (ppm_pages_nr ppm)] ppm))"

definition ppm_init ::
  "(nat \<Rightarrow> page_s) \<Rightarrow> ppm_s \<Rightarrow> uint_t \<Rightarrow> uint_t \<Rightarrow> uint_t \<Rightarrow> uint_t \<Rightarrow> boot_info_s \<Rightarrow> ppm_s option" where
  "ppm_init mem ppm begin limit vaddr_begin vaddr_start info =
     (let ppm = ppm\<lparr>ppm_ppn_start := drop_bit PMM_PAGE_SHIFT begin,
                    ppm_vaddr_begin := vaddr_begin, ppm_vaddr_start := vaddr_start,
                    ppm_free_pages := replicate PPM_MAX_ORDER \<lparr>bl_root = [], bl_pages_nr = 0\<rparr>,
                    ppm_pages_nr := drop_bit PMM_PAGE_SHIFT (limit - begin),
                    ppm_free_pages_nr := 0, ppm_begin := begin,
                    ppm_wait_tbl := map (\<lambda>q. wait_queue_init q ''PPM WAIT TBL'') (ppm_wait_tbl ppm)\<rparr>
      in case ppm_init_finalize mem info ppm of
           None \<Rightarrow> None
         | Some ppm \<Rightarrow>
             Some (ppm\<lparr>ppm_uprio_pages_min := ppm_free_pages_nr ppm * 80 div 100,
                       ppm_kprio_pages_min := ppm_free_pages_nr ppm * 15 div 100,
                       ppm_urgent_pages_min := ppm_free_pages_nr ppm * 5 div 100\<rparr>))"

section \<open>The allocation policy over the clusters\<close>

abbreviation AF_TTL_MASK :: uint_t where "AF_TTL_MASK \<equiv> 0x000000FF"
abbreviation AF_TTL_LOW :: nat where "AF_TTL_LOW \<equiv> 0x08"
abbreviation AF_TTL_HIGH :: nat where "AF_TTL_HIGH \<equiv> 0x80"
abbreviation AF_USR :: uint_t where "AF_USR \<equiv> 0x00020000"
abbreviation AF_PRIO :: uint_t where "AF_PRIO \<equiv> 0x00100000"
abbreviation AF_AFFINITY :: uint_t where "AF_AFFINITY \<equiv> 0x00800000"
abbreviation PT_ATTR_MEM_PRIO :: uint_t where "PT_ATTR_MEM_PRIO \<equiv> 0x008"
abbreviation PT_ATTR_INTERLEAVE_SEQ :: uint_t where "PT_ATTR_INTERLEAVE_SEQ \<equiv> 0x010"
abbreviation PT_ATTR_INTERLEAVE_ALL :: uint_t where "PT_ATTR_INTERLEAVE_ALL \<equiv> 0x020"
abbreviation PT_ATTR_MEM_CID_RR :: uint_t where "PT_ATTR_MEM_CID_RR \<equiv> 0x100"

text \<open>The state the policy changes: the page managers of all clusters, the threads, and the
  caller's \<^verbatim>\<open>info.ppm_last_cid\<close>.\<close>

record pa_state =
  pa_ppms :: "ppm_s list"
  pa_th :: threads
  pa_last_cid :: uint_t

text \<open>What does not change during one call; \<open>pa_mem_request\<close> is the answer of the resource tree
  (\<^verbatim>\<open>dqdt_mem_request\<close>) for a starting cluster, a threshold and an order.\<close>

record pa_env =
  pa_onln :: nat
  pa_home :: nat
  pa_order :: nat
  pa_flags :: uint_t
  pa_interleave :: bool
  pa_seq_next :: bool
  pa_mem_request :: "ppm_s list \<Rightarrow> nat \<Rightarrow> uint_t \<Rightarrow> nat \<Rightarrow> nat option"

text \<open>One choice of threshold and cluster. \<^verbatim>\<open>current_ppm\<close> is always the manager of
  \<^verbatim>\<open>cid\<close>.\<close>

definition pa_choose :: "pa_env \<Rightarrow> bool \<Rightarrow> nat \<Rightarrow> pa_state \<Rightarrow> uint_t \<times> nat \<times> pa_state" where
  "pa_choose e isUseUPRIO cid s =
     (let ppm = pa_ppms s ! pa_home e
      in if isUseUPRIO then (ppm_uprio_pages_min ppm, cid, s)
         else if pa_flags e AND AF_USR \<noteq> 0
         then (if pa_interleave e
               then (ppm_kprio_pages_min ppm, unat (pa_last_cid s) mod pa_onln e,
                     s\<lparr>pa_last_cid := pa_last_cid s + 1\<rparr>)
               else (ppm_kprio_pages_min ppm, cid, s))
         else if pa_flags e AND AF_PRIO \<noteq> 0 then (ppm_urgent_pages_min ppm, cid, s)
         else (0, cid, s))"

definition pa_try :: "pa_env \<Rightarrow> uint_t \<Rightarrow> nat \<Rightarrow> pa_state \<Rightarrow> (nat option \<times> pa_state) option" where
  "pa_try e threshold cid s =
     (if cid < length (pa_ppms s)
      then if ppm_free_pages_nr (pa_ppms s ! cid) > threshold
           then case ppm_do_alloc_pages (pa_order e) (pa_ppms s ! cid, pa_th s) of
                  None \<Rightarrow> None
                | Some (ptr, ppm, th) \<Rightarrow>
                    Some (ptr, s\<lparr>pa_ppms := (pa_ppms s)[cid := ppm], pa_th := th\<rparr>)
           else Some (None, s)
      else None)"

function ppm_alloc_loop :: "pa_env \<Rightarrow> bool \<Rightarrow> nat \<Rightarrow> nat \<Rightarrow> pa_state \<Rightarrow> ((nat \<times> nat) option \<times> pa_state) option" where
  "ppm_alloc_loop e isUseUPRIO 0 cid s = Some (None, s)"
| "ppm_alloc_loop e isUseUPRIO (Suc cntr) cid s =
     (let (threshold, cid, s) = pa_choose e isUseUPRIO cid s
      in case pa_try e threshold cid s of
           None \<Rightarrow> None
         | Some (Some page, s) \<Rightarrow> Some (Some (cid, page), s)
         | Some (None, s) \<Rightarrow>
            (if cntr = 0 \<and> isUseUPRIO
             then ppm_alloc_loop e False AF_TTL_LOW (pa_home e) s
             else if pa_seq_next e
             then ppm_alloc_loop e isUseUPRIO cntr ((cid + 1) mod pa_onln e) s
             else (case pa_mem_request e (pa_ppms s) cid
                         (threshold + push_bit (pa_order e) 1 + threshold div 100) (pa_order e) of
                    Some cid' \<Rightarrow> ppm_alloc_loop e isUseUPRIO cntr cid' s
                  | None \<Rightarrow> ppm_alloc_loop e False cntr ((cid + 1) mod pa_onln e) s)))"
  by pat_completeness auto
termination
  by (relation "(\<lambda>(e, up, cntr, cid, s). if up then 1 else 0) <*mlex*>
        measure (\<lambda>(e, up, cntr, cid, s). cntr)")
    (auto simp: mlex_prod_def wf_mlex)

definition ppm_alloc_pages ::
  "(ppm_s list \<Rightarrow> nat \<Rightarrow> uint_t \<Rightarrow> nat \<Rightarrow> nat option) \<Rightarrow> nat \<Rightarrow> uint_t \<Rightarrow> nat \<Rightarrow> nat \<Rightarrow> uint_t \<Rightarrow> pa_state \<Rightarrow> ((nat \<times> nat) option \<times> pa_state) option" where
  "ppm_alloc_pages mem_request onln attr_flags cid order flags s =
     (let affinity = flags AND AF_AFFINITY \<noteq> 0;
          isInterleave = (affinity \<and> (attr_flags AND PT_ATTR_INTERLEAVE_ALL \<noteq> 0 \<or>
                                       attr_flags AND PT_ATTR_INTERLEAVE_SEQ \<noteq> 0));
          isSeqNextCID = (affinity \<and> attr_flags AND PT_ATTR_MEM_CID_RR \<noteq> 0);
          isUseUPRIO = (affinity \<and> attr_flags AND PT_ATTR_MEM_PRIO \<noteq> 0);
          cntr = (if isUseUPRIO then AF_TTL_HIGH else unat (flags AND AF_TTL_MASK));
          cntr = (if cntr = 0 then 1 else cntr)
      in ppm_alloc_loop
           \<lparr>pa_onln = onln, pa_home = cid, pa_order = order, pa_flags = flags,
            pa_interleave = isInterleave, pa_seq_next = isSeqNextCID, pa_mem_request = mem_request\<rparr>
           isUseUPRIO cntr cid s)"

section \<open>Waiting for pages\<close>

text \<open>The hash of a descriptor's address into \<^verbatim>\<open>wait_tbl\<close>.\<close>

definition ppm_wait_index :: "uint_t \<Rightarrow> nat" where
  "ppm_wait_index page =
     (let index = push_bit 16 page; index = drop_bit 18 index;
          index = drop_bit 8 index XOR push_bit 8 index
      in unat (index mod of_nat PPM_MAX_ORDER))"

definition ppm_wait_on :: "uint_t \<Rightarrow> tid \<Rightarrow> ppm_s \<times> threads \<Rightarrow> ppm_s \<times> threads" where
  "ppm_wait_on page this = (\<lambda>(ppm, th).
     let i = ppm_wait_index page; (q, th) = wait_on (ppm_wait_tbl ppm ! i) WAIT_LAST this th
     in (ppm\<lparr>ppm_wait_tbl := (ppm_wait_tbl ppm)[i := q]\<rparr>, th))"

definition ppm_wakeup_all :: "uint_t \<Rightarrow> ppm_s \<times> threads \<Rightarrow> nat \<times> ppm_s \<times> threads" where
  "ppm_wakeup_all page = (\<lambda>(ppm, th).
     let i = ppm_wait_index page; (n, q, th) = wakeup_all (ppm_wait_tbl ppm ! i) th
     in (n, ppm\<lparr>ppm_wait_tbl := (ppm_wait_tbl ppm)[i := q]\<rparr>, th))"

section \<open>The invariant\<close>

definition fl :: "ppm_s \<Rightarrow> nat \<Rightarrow> nat list" where
  "fl ppm order = bl_root (ppm_free_pages ppm ! order)"

abbreviation npages :: "ppm_s \<Rightarrow> nat" where
  "npages ppm \<equiv> length (ppm_pages_tbl ppm)"

definition free_blocks :: "ppm_s \<Rightarrow> (nat \<times> nat) set" where
  "free_blocks ppm = {(i, c). c < PPM_MAX_ORDER \<and> i \<in> set (fl ppm c)}"

definition used_blocks :: "ppm_s \<Rightarrow> (nat \<times> nat) set" where
  "used_blocks ppm = {(i, c). i < npages ppm \<and> pg_state (ppm_pages_tbl ppm ! i) \<noteq> PGFREE \<and>
     c = pg_order (ppm_pages_tbl ppm ! i)}"

definition free_total :: "ppm_s \<Rightarrow> nat" where
  "free_total ppm = (\<Sum>c<PPM_MAX_ORDER. length (fl ppm c) * 2 ^ c)"

text \<open>\<open>ppm_core P a\<close>: the invariant while the blocks \<open>P\<close> are in the hands of an operation, on no
  list, and \<^verbatim>\<open>free_pages_nr\<close> is ahead of the lists by \<open>a\<close>.\<close>

definition ppm_core :: "(nat \<times> nat) set \<Rightarrow> uint_t \<Rightarrow> ppm_s \<Rightarrow> bool" where
  "ppm_core P a ppm \<longleftrightarrow>
     length (ppm_free_pages ppm) = PPM_MAX_ORDER \<and>
     2 ^ PPM_LAST_ORDER dvd npages ppm \<and>
     part (npages ppm) (free_blocks ppm \<union> used_blocks ppm \<union> P) \<and>
     P \<inter> (free_blocks ppm \<union> used_blocks ppm) = {} \<and>
     (\<forall>c<PPM_MAX_ORDER. distinct (fl ppm c)) \<and>
     (\<forall>(i, c)\<in>free_blocks ppm. pg_state (ppm_pages_tbl ppm ! i) = PGFREE \<and>
        pg_order (ppm_pages_tbl ppm ! i) = c) \<and>
     (\<forall>(i, c)\<in>P. pg_state (ppm_pages_tbl ppm ! i) = PGFREE) \<and>
     (\<forall>c<PPM_MAX_ORDER. bl_pages_nr (ppm_free_pages ppm ! c) = of_nat (length (fl ppm c))) \<and>
     ppm_free_pages_nr ppm = of_nat (free_total ppm) + a \<and>
     (\<forall>c<PPM_LAST_ORDER. \<forall>i\<in>set (fl ppm c). i XOR 2 ^ c \<notin> set (fl ppm c)) \<and>
     (\<forall>i<npages ppm. pg_state (ppm_pages_tbl ppm ! i) = PGFREE \<longrightarrow> pg_count (ppm_pages_tbl ppm ! i) = 0) \<and>
     (\<forall>(i, c)\<in>used_blocks ppm. c < PPM_MAX_ORDER)"

definition ppm_inv :: "ppm_s \<Rightarrow> bool" where
  "ppm_inv ppm \<longleftrightarrow> ppm_core {} 0 ppm"

lemma ppm_coreD:
  assumes "ppm_core P a ppm"
  shows "length (ppm_free_pages ppm) = PPM_MAX_ORDER"
    and "2 ^ PPM_LAST_ORDER dvd npages ppm"
    and "part (npages ppm) (free_blocks ppm \<union> used_blocks ppm \<union> P)"
    and "P \<inter> (free_blocks ppm \<union> used_blocks ppm) = {}"
    and "ppm_free_pages_nr ppm = of_nat (free_total ppm) + a"
  using assms by (simp_all only: ppm_core_def)

lemma ppm_core_lists:
  assumes "ppm_core P a ppm"
  shows "c < PPM_MAX_ORDER \<Longrightarrow> distinct (fl ppm c)"
    and "(i, c) \<in> free_blocks ppm \<Longrightarrow> pg_state (ppm_pages_tbl ppm ! i) = PGFREE"
    and "(i, c) \<in> free_blocks ppm \<Longrightarrow> pg_order (ppm_pages_tbl ppm ! i) = c"
    and "(i, c) \<in> P \<Longrightarrow> pg_state (ppm_pages_tbl ppm ! i) = PGFREE"
    and "c < PPM_MAX_ORDER \<Longrightarrow> bl_pages_nr (ppm_free_pages ppm ! c) = of_nat (length (fl ppm c))"
    and "c < PPM_LAST_ORDER \<Longrightarrow> i \<in> set (fl ppm c) \<Longrightarrow> i XOR 2 ^ c \<notin> set (fl ppm c)"
    and "i < npages ppm \<Longrightarrow> pg_state (ppm_pages_tbl ppm ! i) = PGFREE \<Longrightarrow> pg_count (ppm_pages_tbl ppm ! i) = 0"
    and "(i, c) \<in> used_blocks ppm \<Longrightarrow> c < PPM_MAX_ORDER"
  using assms unfolding ppm_core_def by (elim conjE, auto)+

section \<open>Effect of the primitives on the lists\<close>

lemma nth_update_field:
  assumes "\<And>x. f (g x) = f x"
  shows "f ((xs[i := g (xs ! i)]) ! j) = f (xs ! j)"
  using assms by (cases "i = j"; cases "i < length xs") (simp_all add: list_update_beyond not_less)

lemma fl_pages_nr_add [simp]: "fl (pages_nr_add c d ppm) = fl ppm"
  by (rule ext) (simp add: fl_def pages_nr_add_def nth_update_field
      [where f = bl_root and g = "\<lambda>bl. bl\<lparr>bl_pages_nr := bl_pages_nr bl + d\<rparr>"])

lemma pages_nr_add_fields [simp]:
  "ppm_pages_tbl (pages_nr_add c d ppm) = ppm_pages_tbl ppm"
  "ppm_free_pages_nr (pages_nr_add c d ppm) = ppm_free_pages_nr ppm"
  "length (ppm_free_pages (pages_nr_add c d ppm)) = length (ppm_free_pages ppm)"
  by (simp_all add: pages_nr_add_def)

lemma pages_nr_add_nr:
  "e < length (ppm_free_pages ppm) \<Longrightarrow> bl_pages_nr (ppm_free_pages (pages_nr_add c d ppm) ! e) =
     bl_pages_nr (ppm_free_pages ppm ! e) + (if c = e then d else 0)"
  by (simp add: pages_nr_add_def nth_list_update)

lemma unlink_page_Some:
  assumes "length (ppm_free_pages ppm) = PPM_MAX_ORDER" "(b, c) \<in> free_blocks ppm"
  shows "unlink_page b ppm = Some (ppm\<lparr>ppm_free_pages :=
             map (\<lambda>bl. bl\<lparr>bl_root := remove1 b (bl_root bl)\<rparr>) (ppm_free_pages ppm)\<rparr>)"
  using assms by (auto simp: unlink_page_def list_ex_iff free_blocks_def fl_def in_set_conv_nth
      intro!: bexI [of _ "ppm_free_pages ppm ! c"] nth_mem)

lemma unlink_page_fields:
  assumes "unlink_page b ppm = Some ppm'"
  shows "ppm_pages_tbl ppm' = ppm_pages_tbl ppm"
    and "ppm_free_pages_nr ppm' = ppm_free_pages_nr ppm"
    and "length (ppm_free_pages ppm') = length (ppm_free_pages ppm)"
    and "c < length (ppm_free_pages ppm) \<Longrightarrow> fl ppm' c = remove1 b (fl ppm c)"
    and "c < length (ppm_free_pages ppm) \<Longrightarrow>
      bl_pages_nr (ppm_free_pages ppm' ! c) = bl_pages_nr (ppm_free_pages ppm ! c)"
  using assms by (auto simp: unlink_page_def fl_def split: if_splits)

lemma link_page_Some: "c < length (ppm_free_pages ppm) \<Longrightarrow> \<exists>ppm'. link_page c b ppm = Some ppm'"
  by (simp add: link_page_def)

lemma link_page_fields:
  assumes "link_page c b ppm = Some ppm'"
  shows "ppm_pages_tbl ppm' = ppm_pages_tbl ppm"
    and "ppm_free_pages_nr ppm' = ppm_free_pages_nr ppm"
    and "length (ppm_free_pages ppm') = length (ppm_free_pages ppm)"
    and "e < length (ppm_free_pages ppm) \<Longrightarrow> fl ppm' e = (if c = e then b # fl ppm e else fl ppm e)"
    and "e < length (ppm_free_pages ppm) \<Longrightarrow> bl_pages_nr (ppm_free_pages ppm' ! e) =
      bl_pages_nr (ppm_free_pages ppm ! e) + (if c = e then 1 else 0)"
  using assms by (auto simp: link_page_def fl_def pages_nr_add_nr pages_nr_add_def nth_list_update
      split: if_splits)

lemma upd_page_fields [simp]:
  "ppm_free_pages (upd_page i f ppm) = ppm_free_pages ppm"
  "ppm_free_pages_nr (upd_page i f ppm) = ppm_free_pages_nr ppm"
  "npages (upd_page i f ppm) = npages ppm"
  "fl (upd_page i f ppm) = fl ppm"
  "free_blocks (upd_page i f ppm) = free_blocks ppm"
  "free_total (upd_page i f ppm) = free_total ppm"
  by (simp_all add: upd_page_def fl_def free_blocks_def free_total_def fun_eq_iff)

lemma upd_page_nth:
  "j < npages ppm \<Longrightarrow> ppm_pages_tbl (upd_page i f ppm) ! j =
     (if i = j then f (ppm_pages_tbl ppm ! j) else ppm_pages_tbl ppm ! j)"
  by (simp add: upd_page_def)

section \<open>Taking a block off a list, putting one back\<close>

text \<open>\<open>off_list b c ppm ppm'\<close>: \<open>ppm'\<close> is \<open>ppm\<close> with block \<open>b\<close> taken off list \<open>c\<close>.\<close>

definition off_list :: "nat \<Rightarrow> nat \<Rightarrow> ppm_s \<Rightarrow> ppm_s \<Rightarrow> bool" where
  "off_list b c ppm ppm' \<longleftrightarrow> c < PPM_MAX_ORDER \<and>
     length (ppm_free_pages ppm) = PPM_MAX_ORDER \<and> length (ppm_free_pages ppm') = PPM_MAX_ORDER \<and>
     ppm_pages_tbl ppm' = ppm_pages_tbl ppm \<and> ppm_free_pages_nr ppm' = ppm_free_pages_nr ppm \<and>
     (\<forall>e<PPM_MAX_ORDER. e \<noteq> c \<longrightarrow> fl ppm' e = fl ppm e \<and>
        bl_pages_nr (ppm_free_pages ppm' ! e) = bl_pages_nr (ppm_free_pages ppm ! e)) \<and>
     set (fl ppm c) = insert b (set (fl ppm' c)) \<and> b \<notin> set (fl ppm' c) \<and>
     length (fl ppm c) = Suc (length (fl ppm' c)) \<and>
     bl_pages_nr (ppm_free_pages ppm ! c) = bl_pages_nr (ppm_free_pages ppm' ! c) + 1"

lemma off_listD:
  assumes "off_list b c ppm ppm'"
  shows "c < PPM_MAX_ORDER" "length (ppm_free_pages ppm) = PPM_MAX_ORDER"
    and "length (ppm_free_pages ppm') = PPM_MAX_ORDER"
    and "ppm_pages_tbl ppm' = ppm_pages_tbl ppm" "ppm_free_pages_nr ppm' = ppm_free_pages_nr ppm"
    and "set (fl ppm c) = insert b (set (fl ppm' c))" "b \<notin> set (fl ppm' c)"
    and "length (fl ppm c) = Suc (length (fl ppm' c))"
    and "bl_pages_nr (ppm_free_pages ppm ! c) = bl_pages_nr (ppm_free_pages ppm' ! c) + 1"
  using assms by (simp_all only: off_list_def simp_thms)

lemma off_list_other:
  assumes "off_list b c ppm ppm'" "e < PPM_MAX_ORDER" "e \<noteq> c"
  shows "fl ppm' e = fl ppm e"
    and "bl_pages_nr (ppm_free_pages ppm' ! e) = bl_pages_nr (ppm_free_pages ppm ! e)"
  using assms by (simp_all add: off_list_def)

lemma off_list_set:
  assumes "off_list b c ppm ppm'" "e < PPM_MAX_ORDER"
  shows "i \<in> set (fl ppm e) \<longleftrightarrow> i = b \<and> e = c \<or> i \<in> set (fl ppm' e)"
proof (cases "e = c")
  case True
  then show ?thesis by (simp add: off_listD(6) [OF assms(1)])
next
  case False
  then show ?thesis using off_list_other(1) [OF assms False] by simp
qed

lemma set_eqI2: "(\<And>x y. (x, y) \<in> A \<longleftrightarrow> (x, y) \<in> B) \<Longrightarrow> A = B"
  by auto

lemma off_list_blocks:
  assumes "off_list b c ppm ppm'"
  shows "free_blocks ppm = insert (b, c) (free_blocks ppm')" "(b, c) \<notin> free_blocks ppm'"
    and "used_blocks ppm' = used_blocks ppm"
proof -
  have "(i, e) \<in> free_blocks ppm \<longleftrightarrow> (i, e) \<in> insert (b, c) (free_blocks ppm')" for i e
    using off_list_set [OF assms, of e i] off_listD(1) [OF assms]
    by (cases "e < PPM_MAX_ORDER") (auto simp: free_blocks_def)
  then show "free_blocks ppm = insert (b, c) (free_blocks ppm')" by (rule set_eqI2)
  show "(b, c) \<notin> free_blocks ppm'" using off_listD(7) [OF assms] by (simp add: free_blocks_def)
  show "used_blocks ppm' = used_blocks ppm" by (simp add: used_blocks_def off_listD(4) [OF assms])
qed

lemma off_list_total:
  assumes "off_list b c ppm ppm'"
  shows "free_total ppm = free_total ppm' + 2 ^ c"
proof -
  have c: "c \<in> {..<PPM_MAX_ORDER}" using off_listD(1) [OF assms] by simp
  have "(\<Sum>e\<in>{..<PPM_MAX_ORDER} - {c}. length (fl ppm e) * 2 ^ e) =
      (\<Sum>e\<in>{..<PPM_MAX_ORDER} - {c}. length (fl ppm' e) * 2 ^ e)"
    using off_list_other(1) [OF assms] by (intro sum.cong) simp_all
  then show ?thesis
    unfolding free_total_def sum.remove [OF finite_lessThan c] off_listD(8) [OF assms] by simp
qed

lemma off_list_distinct:
  assumes "off_list b c ppm ppm'" "e < PPM_MAX_ORDER"
  shows "distinct (fl ppm e) \<longleftrightarrow> distinct (fl ppm' e)"
proof (cases "e = c")
  case True
  then show ?thesis
    using off_listD(6-8) [OF assms(1)] by (auto simp: card_distinct distinct_card
        dest!: distinct_card intro!: card_distinct)
qed (simp add: off_list_other(1) [OF assms])

lemma off_list_counter:
  assumes "off_list b c ppm ppm'" "e < PPM_MAX_ORDER"
  shows "bl_pages_nr (ppm_free_pages ppm ! e) = of_nat (length (fl ppm e)) \<longleftrightarrow>
    bl_pages_nr (ppm_free_pages ppm' ! e) = of_nat (length (fl ppm' e))"
proof (cases "e = c")
  case True
  then show ?thesis using off_listD(8,9) [OF assms(1)] by (simp add: add.commute)
qed (simp add: off_list_other [OF assms])

lemma ppm_coreI:
  assumes "length (ppm_free_pages ppm) = PPM_MAX_ORDER" "2 ^ PPM_LAST_ORDER dvd npages ppm"
    and "part (npages ppm) (free_blocks ppm \<union> used_blocks ppm \<union> P)"
    and "P \<inter> (free_blocks ppm \<union> used_blocks ppm) = {}"
    and "\<And>c. c < PPM_MAX_ORDER \<Longrightarrow> distinct (fl ppm c)"
    and "\<And>i c. (i, c) \<in> free_blocks ppm \<Longrightarrow> pg_state (ppm_pages_tbl ppm ! i) = PGFREE \<and>
      pg_order (ppm_pages_tbl ppm ! i) = c"
    and "\<And>i c. (i, c) \<in> P \<Longrightarrow> pg_state (ppm_pages_tbl ppm ! i) = PGFREE"
    and "\<And>c. c < PPM_MAX_ORDER \<Longrightarrow> bl_pages_nr (ppm_free_pages ppm ! c) = of_nat (length (fl ppm c))"
    and "ppm_free_pages_nr ppm = of_nat (free_total ppm) + a"
    and "\<And>c i. c < PPM_LAST_ORDER \<Longrightarrow> i \<in> set (fl ppm c) \<Longrightarrow> i XOR 2 ^ c \<notin> set (fl ppm c)"
    and "\<And>i. i < npages ppm \<Longrightarrow> pg_state (ppm_pages_tbl ppm ! i) = PGFREE \<Longrightarrow> pg_count (ppm_pages_tbl ppm ! i) = 0"
    and "\<And>i c. (i, c) \<in> used_blocks ppm \<Longrightarrow> c < PPM_MAX_ORDER"
  shows "ppm_core P a ppm"
  unfolding ppm_core_def
  using assms by (intro conjI allI impI ballI) (simp_all add: split_paired_all)

lemma core_take:
  assumes core: "ppm_core P a ppm" and off: "off_list b c ppm ppm'"
  shows "ppm_core (insert (b, c) P) (a + 2 ^ c) ppm'"
proof -
  note bl = off_list_blocks [OF off] and d = ppm_coreD [OF core] and l = ppm_core_lists [OF core]
    and off' = off_listD [OF off]
  have bf: "(b, c) \<in> free_blocks ppm" using bl(1) by simp
  show ?thesis
  proof (rule ppm_coreI)
    show "part (npages ppm') (free_blocks ppm' \<union> used_blocks ppm' \<union> insert (b, c) P)"
      using d(3) bl(1,3) off'(4) by (simp add: Un_assoc)
    show "insert (b, c) P \<inter> (free_blocks ppm' \<union> used_blocks ppm') = {}"
      using d(4) bl l(2) [OF bf] by (auto simp: used_blocks_def)
    show "ppm_free_pages_nr ppm' = of_nat (free_total ppm') + (a + 2 ^ c)"
      using d(5) off_list_total [OF off] off'(5) by simp
    show "e < PPM_LAST_ORDER \<Longrightarrow> i \<in> set (fl ppm' e) \<Longrightarrow> i XOR 2 ^ e \<notin> set (fl ppm' e)" for e i
      using l(6) [of e i] off_list_set [OF off, of e] by auto
    show "distinct (fl ppm' e)" if "e < PPM_MAX_ORDER" for e
      using l(1) [OF that] off_list_distinct [OF off that] by simp
    show "bl_pages_nr (ppm_free_pages ppm' ! e) = of_nat (length (fl ppm' e))"
      if "e < PPM_MAX_ORDER" for e
      using l(5) [OF that] off_list_counter [OF off that] by simp
  qed (use d(1,2) l(2-4) l(7,8) bl bf off' in auto)
qed

lemma core_put:
  assumes core: "ppm_core (insert (b, c) P) a ppm'" and off: "off_list b c ppm ppm'"
    and new: "(b, c) \<notin> P" "pg_order (ppm_pages_tbl ppm' ! b) = c"
    and alone: "c < PPM_LAST_ORDER \<Longrightarrow> b XOR 2 ^ c \<notin> set (fl ppm' c)"
  shows "ppm_core P (a - 2 ^ c) ppm"
proof -
  note bl = off_list_blocks [OF off] and d = ppm_coreD [OF core] and l = ppm_core_lists [OF core]
    and off' = off_listD [OF off]
  show ?thesis
  proof (rule ppm_coreI)
    show "part (npages ppm) (free_blocks ppm \<union> used_blocks ppm \<union> P)"
      using d(3) bl(1,3) off'(4) by (simp add: Un_assoc)
    show "P \<inter> (free_blocks ppm \<union> used_blocks ppm) = {}"
      using d(4) bl new by auto
    show "ppm_free_pages_nr ppm = of_nat (free_total ppm) + (a - 2 ^ c)"
      using d(5) off_list_total [OF off] off'(5) by simp
    show "i XOR 2 ^ e \<notin> set (fl ppm e)" if "e < PPM_LAST_ORDER" "i \<in> set (fl ppm e)" for e i
    proof -
      have e: "e < PPM_MAX_ORDER" using that by simp
      have ne: "i XOR 2 ^ e \<noteq> i" by (metis bit_exp_iff bit_xor_iff possible_bit_def power_eq_0_iff zero_neq_numeral)
      have inv2: "(i XOR 2 ^ e) XOR 2 ^ e = i" by (simp add: xor.assoc)
      show ?thesis
        using l(6) [of e i] that alone ne inv2 unfolding off_list_set [OF off e] by metis
    qed
    show "distinct (fl ppm e)" if "e < PPM_MAX_ORDER" for e
      using l(1) [OF that] off_list_distinct [OF off that] by simp
    show "bl_pages_nr (ppm_free_pages ppm ! e) = of_nat (length (fl ppm e))"
      if "e < PPM_MAX_ORDER" for e
      using l(5) [OF that] off_list_counter [OF off that] by simp
    show "pg_state (ppm_pages_tbl ppm ! i) = PGFREE \<and> pg_order (ppm_pages_tbl ppm ! i) = e"
      if "(i, e) \<in> free_blocks ppm" for i e
      using that l(2) [of i e] l(3) [of i e] l(4) [of b c] new(2) off'(4) unfolding bl(1) by auto
    show "(i, e) \<in> P \<Longrightarrow> pg_state (ppm_pages_tbl ppm ! i) = PGFREE" for i e
      using l(4) [of i e] off'(4) by simp
  qed (use d(1,2) l(7,8) bl off' in auto)
qed

lemma unlink_off_list:
  assumes "ppm_core P a ppm" "(b, c) \<in> free_blocks ppm"
  obtains ppm1 where "unlink_page b ppm = Some ppm1" "off_list b c ppm (pages_nr_add c (-1) ppm1)"
proof -
  obtain ppm1 where u: "unlink_page b ppm = Some ppm1"
    using unlink_page_Some [OF ppm_coreD(1) [OF assms(1)] assms(2)] by blast
  note f = unlink_page_fields [OF u]
  have len: "length (ppm_free_pages ppm) = PPM_MAX_ORDER" by (rule ppm_coreD(1) [OF assms(1)])
  have c: "c < PPM_MAX_ORDER" "b \<in> set (fl ppm c)" using assms(2) by (simp_all add: free_blocks_def)
  have di: "distinct (fl ppm c)" by (rule ppm_core_lists(1) [OF assms(1) c(1)])
  have other: "b \<notin> set (fl ppm e)" if "e < PPM_MAX_ORDER" "e \<noteq> c" for e
    using part_same_head [OF ppm_coreD(3) [OF assms(1)], of b c e] assms(2) that
    by (auto simp: free_blocks_def)
  have "off_list b c ppm (pages_nr_add c (-1) ppm1)"
    unfolding off_list_def
  proof (intro conjI allI impI)
    show "set (fl ppm c) = insert b (set (fl (pages_nr_add c (-1) ppm1) c))"
      "b \<notin> set (fl (pages_nr_add c (-1) ppm1) c)"
      using c di len by (auto simp: f(4))
    show "length (fl ppm c) = Suc (length (fl (pages_nr_add c (- 1) ppm1) c))"
      using c len length_pos_if_in_set [OF c(2)] by (simp add: f(4) length_remove1)
  qed (use c len in \<open>simp_all add: f pages_nr_add_nr remove1_idem other\<close>)
  with u show thesis by (rule that)
qed

lemma link_off_list:
  assumes "link_page c b ppm = Some ppm'" "length (ppm_free_pages ppm) = PPM_MAX_ORDER"
    and "c < PPM_MAX_ORDER" "b \<notin> set (fl ppm c)"
  shows "off_list b c ppm' ppm"
  using assms(2-) by (simp add: off_list_def link_page_fields [OF assms(1)])

lemma used_blocks_upd_free:
  assumes "i < npages ppm" "pg_state (ppm_pages_tbl ppm ! i) = PGFREE"
    and "pg_state (f (ppm_pages_tbl ppm ! i)) = PGFREE"
  shows "used_blocks (upd_page i f ppm) = used_blocks ppm"
  using assms by (auto simp: used_blocks_def upd_page_nth split: if_splits)

lemma core_upd_order:
  assumes core: "ppm_core P a ppm" and i: "i < npages ppm" "pg_state (ppm_pages_tbl ppm ! i) = PGFREE"
    and no: "\<And>c. (i, c) \<notin> free_blocks ppm"
  shows "ppm_core P a (upd_page i (\<lambda>p. p\<lparr>pg_order := x\<rparr>) ppm)"
proof -
  note d = ppm_coreD [OF core] and l = ppm_core_lists [OF core]
  have lt: "(j, c) \<in> free_blocks ppm \<union> P \<Longrightarrow> j < npages ppm" for j c
    using part_head_less [OF d(3)] by blast
  show ?thesis
  proof (rule ppm_coreI)
    show "pg_state (ppm_pages_tbl (upd_page i (\<lambda>p. p\<lparr>pg_order := x\<rparr>) ppm) ! j) = PGFREE \<and>
        pg_order (ppm_pages_tbl (upd_page i (\<lambda>p. p\<lparr>pg_order := x\<rparr>) ppm) ! j) = c"
      if "(j, c) \<in> free_blocks (upd_page i (\<lambda>p. p\<lparr>pg_order := x\<rparr>) ppm)" for j c
      using that no [of c] l(2,3) [of j c] lt [of j c] by (auto simp: upd_page_nth)
    show "pg_state (ppm_pages_tbl (upd_page i (\<lambda>p. p\<lparr>pg_order := x\<rparr>) ppm) ! j) = PGFREE"
      if "(j, c) \<in> P" for j c
      using that l(4) [of j c] lt [of j c] by (auto simp: upd_page_nth)
  qed (use i d l in \<open>auto simp: used_blocks_upd_free upd_page_nth split: if_splits\<close>)
qed

text \<open>A pending block heads no listed block.\<close>

lemma core_pending_head:
  assumes "ppm_core P a ppm" "(p, c) \<in> P"
  shows "(p, d) \<notin> free_blocks ppm" "p < npages ppm"
proof -
  note d = ppm_coreD [OF assms(1)]
  show "(p, d) \<notin> free_blocks ppm"
    using part_same_head [OF d(3), of p c d] assms(2) d(4) by auto
  show "p < npages ppm" using part_head_less [OF d(3)] assms(2) by blast
qed

lemma core_merge:
  assumes core: "ppm_core {(p, c), (p XOR 2 ^ c, c)} a ppm"
  shows "ppm_core {(p AND (p XOR 2 ^ c), Suc c)} a ppm"
proof -
  note d = ppm_coreD [OF core] and l = ppm_core_lists [OF core]
  define B where "B = free_blocks ppm \<union> used_blocks ppm"
  have "(p, c) \<in> B \<union> {(p, c), (p XOR 2 ^ c, c)}" by simp
  then have al: "2 ^ c dvd p" using part_aligned d(3) unfolding B_def by blast
  obtain m where m: "2 ^ Suc c dvd m" "p AND (p XOR 2 ^ c) = m"
    "{(p, c), (p XOR 2 ^ c, c)} = {(m, c), (m + 2 ^ c, c)}" "p = m \<or> p XOR 2 ^ c = m"
  proof (rule buddy_halves [OF al])
    fix m assume "p = m + 2 ^ c" "p XOR 2 ^ c = m" "p AND (p XOR 2 ^ c) = m" "2 ^ Suc c dvd m"
    then show thesis by (intro that [of m]) auto
  next
    assume "p XOR 2 ^ c = p + 2 ^ c" "p AND (p XOR 2 ^ c) = p" "2 ^ Suc c dvd p"
    then show thesis by (intro that [of p]) simp_all
  qed
  have "B \<inter> {(m, c), (m + 2 ^ c, c)} = {}" using d(4) m(3) unfolding B_def by blast
  moreover have pt: "part (npages ppm) (B \<union> {(m, c), (m + 2 ^ c, c)})"
    using d(3) m(3) unfolding B_def by simp
  ultimately have "part (npages ppm) (B \<union> {(m, Suc c)})"
    using part_merge [OF pt _ _ m(1)] by (simp add: Un_Diff Diff_triv insert_Diff_if)
  moreover have "(m, Suc c) \<notin> B"
    using part_same_head [OF pt, of m c "Suc c"] by auto
  ultimately show ?thesis
    using d l(1-3) l(5-8) l(4) [of p c] l(4) [of "p XOR 2 ^ c" c] m(2,4) unfolding B_def
    by (intro ppm_coreI) auto
qed

section \<open>Freeing\<close>

text \<open>\<open>freed_to\<close>: what the merging loop guarantees of the block it ends with.\<close>

lemma ppm_merge_ok:
  assumes "ppm_core {(p, c)} a ppm" "c \<le> PPM_LAST_ORDER"
  shows "\<exists>p' c' ppm'. ppm_merge p c ppm = Some (p', c', ppm') \<and> c \<le> c' \<and> c' \<le> PPM_LAST_ORDER \<and>
     ppm_core {(p', c')} (a + 2 ^ c' - 2 ^ c) ppm' \<and> used_blocks ppm' = used_blocks ppm \<and>
     npages ppm' = npages ppm \<and>
     (c' < PPM_LAST_ORDER \<longrightarrow> p' XOR 2 ^ c' \<notin> set (fl ppm' c'))"
  using assms
proof (induction p c ppm arbitrary: a rule: ppm_merge.induct)
  case (1 p c ppm)
  note d = ppm_coreD [OF 1(2)] and l = ppm_core_lists [OF 1(2)]
  define b where "b = p XOR 2 ^ c"
  show ?case
  proof (cases "c < PPM_LAST_ORDER")
    case False
    then have "ppm_merge p c ppm = Some (p, c, ppm)" by (simp add: ppm_merge.simps [of p c])
    then show ?thesis using 1(2,3) False by auto
  next
    case True
    have "(2::nat) ^ Suc c dvd 2 ^ PPM_LAST_ORDER" using True by (intro le_imp_power_dvd) simp
    then have "2 ^ Suc c dvd npages ppm" using d(2) dvd_trans by blast
    then obtain e where b: "b < npages ppm" "(b, e) \<in> free_blocks ppm \<union> used_blocks ppm \<union> {(p, c)}"
      using part_buddy [OF d(3), of p c] unfolding b_def by auto
    show ?thesis
    proof (cases "pg_state (ppm_pages_tbl ppm ! b) \<noteq> PGFREE \<or> pg_order (ppm_pages_tbl ppm ! b) \<noteq> c")
      case True
      then have "(b, c) \<notin> free_blocks ppm" using l(2,3) by blast
      then have "b \<notin> set (fl ppm c)" using \<open>c < PPM_LAST_ORDER\<close> by (simp add: free_blocks_def)
      then show ?thesis
        using True 1(2) b(1) \<open>c < PPM_LAST_ORDER\<close>
        by (simp add: ppm_merge.simps [of p c] b_def)
    next
      case False
      have "b \<noteq> p" using bit_exp_iff [of c c] bit_xor_iff [of p "2 ^ c" c] unfolding b_def by auto
      then have bf: "(b, c) \<in> free_blocks ppm"
        using b(2) False l(3) [of b e] by (auto simp: used_blocks_def)
      obtain ppm1 where u: "unlink_page b ppm = Some ppm1"
        and off: "off_list b c ppm (pages_nr_add c (-1) ppm1)"
        using unlink_off_list [OF 1(2) bf] .
      define ppm2 where "ppm2 = pages_nr_add c (-1) ppm1"
      define ppm3 where "ppm3 = upd_page b (\<lambda>p. p\<lparr>pg_order := 0\<rparr>) ppm2"
      have tbl: "ppm_pages_tbl ppm2 = ppm_pages_tbl ppm" using off_listD(4) [OF off] by (simp add: ppm2_def)
      have core2: "ppm_core {(b, c), (p, c)} (a + 2 ^ c) ppm2"
        using core_take [OF 1(2) off] by (simp add: ppm2_def)
      then have "ppm_core {(b, c), (p, c)} (a + 2 ^ c) ppm3"
        unfolding ppm3_def using core_pending_head(1) [OF core2, of b c] b(1) False tbl
        by (intro core_upd_order) simp_all
      then have core3: "ppm_core {(p AND b, Suc c)} (a + 2 ^ c) ppm3"
        using core_merge unfolding b_def by (simp add: insert_commute)
      have same: "used_blocks ppm3 = used_blocks ppm" "npages ppm3 = npages ppm"
        using False b(1) off_list_blocks(3) [OF off] tbl
        by (simp_all add: ppm3_def used_blocks_upd_free) (simp add: ppm2_def)
      have eq: "ppm_merge p c ppm = ppm_merge (p AND b) (Suc c) ppm3"
        using True b(1) False u by (simp add: ppm_merge.simps [of p c] b_def ppm3_def ppm2_def Let_def)
      have ar: "a + 2 ^ c + 2 ^ c' - 2 ^ Suc c = a + 2 ^ c' - 2 ^ c" for c'
        by simp
      obtain p' c' ppm' where "ppm_merge (p AND b) (Suc c) ppm3 = Some (p', c', ppm')"
        "Suc c \<le> c'" "c' \<le> PPM_LAST_ORDER" "ppm_core {(p', c')} (a + 2 ^ c + 2 ^ c' - 2 ^ Suc c) ppm'"
        "used_blocks ppm' = used_blocks ppm3" "npages ppm' = npages ppm3"
        "c' < PPM_LAST_ORDER \<longrightarrow> p' XOR 2 ^ c' \<notin> set (fl ppm' c')"
        using 1(1) [OF True b_def _ _ _ u ppm2_def ppm3_def core3] b(1) False True by (auto simp: b_def)
      then show ?thesis unfolding eq ar same by auto
    qed
  qed
qed

text \<open>The block being freed leaves the used blocks and is pending.\<close>

lemma core_start_free:
  assumes core: "ppm_core {} 0 ppm" and i: "(i, c) \<in> used_blocks ppm"
    and cnt: "pg_count (ppm_pages_tbl ppm ! i) = 0"
  defines "ppm' \<equiv> (upd_page i set_free ppm)\<lparr>ppm_free_pages_nr := ppm_free_pages_nr ppm + 2 ^ c\<rparr>"
  shows "ppm_core {(i, c)} (2 ^ c) ppm'" and "used_blocks ppm' = used_blocks ppm - {(i, c)}"
proof -
  note d = ppm_coreD [OF core] and l = ppm_core_lists [OF core]
  have i': "i < npages ppm" "pg_state (ppm_pages_tbl ppm ! i) \<noteq> PGFREE" "pg_order (ppm_pages_tbl ppm ! i) = c"
    using i by (auto simp: used_blocks_def)
  have tbl: "npages ppm' = npages ppm"
    "\<And>j. j < npages ppm \<Longrightarrow> ppm_pages_tbl ppm' ! j =
       (if i = j then set_free (ppm_pages_tbl ppm ! j) else ppm_pages_tbl ppm ! j)"
    by (simp_all add: ppm'_def upd_page_def)
  have fb: "free_blocks ppm' = free_blocks ppm" "fl ppm' = fl ppm" "free_total ppm' = free_total ppm"
    "ppm_free_pages ppm' = ppm_free_pages ppm"
    by (simp_all add: ppm'_def free_blocks_def fl_def free_total_def upd_page_def fun_eq_iff)
  show ub: "used_blocks ppm' = used_blocks ppm - {(i, c)}"
    using i' tbl by (auto simp: used_blocks_def set_free_def split: if_splits)
  have nf: "(j, e) \<in> free_blocks ppm \<Longrightarrow> j \<noteq> i \<and> j < npages ppm" for j e
    using l(2) i'(2) part_head_less [OF d(3)] by blast
  show "ppm_core {(i, c)} (2 ^ c) ppm'"
  proof (rule ppm_coreI)
    have "free_blocks ppm \<union> (used_blocks ppm - {(i, c)}) \<union> {(i, c)} = free_blocks ppm \<union> used_blocks ppm \<union> {}"
      using i by auto
    then show "part (npages ppm') (free_blocks ppm' \<union> used_blocks ppm' \<union> {(i, c)})"
      using d(3) unfolding fb ub tbl by simp
    show "{(i, c)} \<inter> (free_blocks ppm' \<union> used_blocks ppm') = {}" using nf [of i c] by (auto simp: fb ub)
    show "ppm_free_pages_nr ppm' = word_of_nat (free_total ppm') + 2 ^ c"
      using d(5) unfolding fb by (simp add: ppm'_def)
    show "pg_state (ppm_pages_tbl ppm' ! j) = PGFREE \<and> pg_order (ppm_pages_tbl ppm' ! j) = e"
      if "(j, e) \<in> free_blocks ppm'" for j e
      using that nf [of j e] l(2,3) [of j e] tbl(2) [of j] by (simp add: fb)
  qed (use d l(1) l(5-8) i' cnt tbl in \<open>auto simp: fb ub set_free_def split: if_splits\<close>)
qed

lemma ppm_free_pages_nolock_ok:
  assumes inv: "ppm_inv ppm" and i: "(i, c) \<in> used_blocks ppm"
    and cnt: "pg_count (ppm_pages_tbl ppm ! i) = 0"
  shows "\<exists>ppm'. ppm_free_pages_nolock i c ppm = Some ppm' \<and> ppm_inv ppm' \<and>
    used_blocks ppm' = used_blocks ppm - {(i, c)} \<and> npages ppm' = npages ppm"
proof -
  have core: "ppm_core {} 0 ppm" using inv by (simp add: ppm_inv_def)
  define ppm1 where "ppm1 = (upd_page i set_free ppm)\<lparr>ppm_free_pages_nr := ppm_free_pages_nr ppm + 2 ^ c\<rparr>"
  have core1: "ppm_core {(i, c)} (2 ^ c) ppm1" and ub1: "used_blocks ppm1 = used_blocks ppm - {(i, c)}"
    using core_start_free [OF core i cnt] by (simp_all add: ppm1_def)
  have c: "c \<le> PPM_LAST_ORDER" using ppm_core_lists(8) [OF core i] by simp
  obtain p' c' ppm2 where m: "ppm_merge i c ppm1 = Some (p', c', ppm2)" "c' \<le> PPM_LAST_ORDER"
    "ppm_core {(p', c')} (2 ^ c + 2 ^ c' - 2 ^ c) ppm2" "used_blocks ppm2 = used_blocks ppm1"
    "npages ppm2 = npages ppm1" "c' < PPM_LAST_ORDER \<longrightarrow> p' XOR 2 ^ c' \<notin> set (fl ppm2 c')"
    using ppm_merge_ok [OF core1 c] by auto
  define ppm3 where "ppm3 = upd_page p' (\<lambda>p. p\<lparr>pg_order := c'\<rparr>) ppm2"
  have core2: "ppm_core {(p', c')} (2 ^ c') ppm2" using m(3) by simp
  note h = core_pending_head [OF core2 singletonI] and st = ppm_core_lists(4) [OF core2 singletonI]
  have core3: "ppm_core {(p', c')} (2 ^ c') ppm3"
    unfolding ppm3_def by (rule core_upd_order [OF core2 h(2) st h(1)])
  have c': "c' < PPM_MAX_ORDER" using m(2) by simp
  have len: "length (ppm_free_pages ppm3) = PPM_MAX_ORDER" by (rule ppm_coreD(1) [OF core3])
  then obtain ppm4 where l4: "link_page c' p' ppm3 = Some ppm4" using link_page_Some c' by metis
  have off: "off_list p' c' ppm4 ppm3"
    using link_off_list [OF l4 len c'] h(1) [of c'] c' by (simp add: free_blocks_def ppm3_def)
  have "ppm_core {} (2 ^ c' - 2 ^ c') ppm4"
    using m(6) h(2) by (intro core_put [OF core3 off]) (simp_all add: ppm3_def upd_page_nth)
  moreover have "npages ppm3 = npages ppm4" "npages ppm1 = npages ppm"
    using off_listD(4) [OF off] by simp_all (simp add: ppm1_def upd_page_def)
  then have "npages ppm4 = npages ppm" using m(5) by (simp add: ppm3_def)
  moreover have "used_blocks ppm4 = used_blocks ppm - {(i, c)}"
    using off_list_blocks(3) [OF off] m(4) ub1 h(2) st by (simp add: ppm3_def used_blocks_upd_free)
  moreover have "ppm_free_pages_nolock i c ppm = Some ppm4"
    using i m(1) l4 by (simp add: ppm_free_pages_nolock_def used_blocks_def ppm1_def ppm3_def
        push_bit_eq_mult Let_def)
  ultimately show ?thesis by (simp add: ppm_inv_def)
qed

lemma core_upd_used:
  assumes core: "ppm_core P a ppm" and i: "i < npages ppm" "pg_state (ppm_pages_tbl ppm ! i) \<noteq> PGFREE"
    and f: "pg_state (f (ppm_pages_tbl ppm ! i)) \<noteq> PGFREE"
      "pg_order (f (ppm_pages_tbl ppm ! i)) = pg_order (ppm_pages_tbl ppm ! i)"
  shows "ppm_core P a (upd_page i f ppm)" and "used_blocks (upd_page i f ppm) = used_blocks ppm"
proof -
  note d = ppm_coreD [OF core] and l = ppm_core_lists [OF core]
  show ub: "used_blocks (upd_page i f ppm) = used_blocks ppm"
    using i f by (auto simp: used_blocks_def upd_page_nth split: if_splits)
  have lt: "(j, c) \<in> free_blocks ppm \<union> P \<Longrightarrow> j < npages ppm \<and> j \<noteq> i" for j c
    using part_head_less [OF d(3)] l(2,4) i(2) by blast
  show "ppm_core P a (upd_page i f ppm)"
  proof (rule ppm_coreI)
    show "pg_state (ppm_pages_tbl (upd_page i f ppm) ! j) = PGFREE \<and>
        pg_order (ppm_pages_tbl (upd_page i f ppm) ! j) = c"
      if "(j, c) \<in> free_blocks (upd_page i f ppm)" for j c
      using that l(2,3) [of j c] lt [of j c] by (auto simp: upd_page_nth)
    show "pg_state (ppm_pages_tbl (upd_page i f ppm) ! j) = PGFREE" if "(j, c) \<in> P" for j c
      using that l(4) [of j c] lt [of j c] by (auto simp: upd_page_nth)
  qed (use i f d l(1) l(5-8) in \<open>auto simp: ub upd_page_nth split: if_splits\<close>)
qed

text \<open>\<^verbatim>\<open>ppm_free_pages\<close>: the last reference frees the block, any other only counts down.\<close>

lemma ppm_free_pages_last:
  assumes inv: "ppm_inv ppm" and i: "(i, c) \<in> used_blocks ppm"
    and cnt: "pg_count (ppm_pages_tbl ppm ! i) = 1"
  shows "\<exists>ppm'. ppm_free_pages_op i ppm = Some ppm' \<and> ppm_inv ppm' \<and>
    used_blocks ppm' = used_blocks ppm - {(i, c)} \<and> npages ppm' = npages ppm"
proof -
  define ppm1 where "ppm1 = upd_page i (\<lambda>_. (ppm_pages_tbl ppm ! i)\<lparr>pg_count := 0\<rparr>) ppm"
  have i': "i < npages ppm" "pg_state (ppm_pages_tbl ppm ! i) \<noteq> PGFREE" "pg_order (ppm_pages_tbl ppm ! i) = c"
    using i by (auto simp: used_blocks_def)
  have "ppm_inv ppm1" "used_blocks ppm1 = used_blocks ppm"
    using core_upd_used [of "{}" 0 ppm i "\<lambda>_. (ppm_pages_tbl ppm ! i)\<lparr>pg_count := 0\<rparr>"] inv i'
    by (simp_all add: ppm1_def ppm_inv_def)
  then have "\<exists>ppm'. ppm_free_pages_nolock i c ppm1 = Some ppm' \<and> ppm_inv ppm' \<and>
      used_blocks ppm' = used_blocks ppm - {(i, c)} \<and> npages ppm' = npages ppm"
    using ppm_free_pages_nolock_ok [of ppm1 i c] i i' by (simp add: ppm1_def upd_page_nth)
  then show ?thesis
    using i' cnt by (simp add: ppm_free_pages_op_def page_refcount_down_def ppm1_def)
qed

lemma ppm_free_pages_shared:
  assumes inv: "ppm_inv ppm" and i: "(i, c) \<in> used_blocks ppm"
    and cnt: "pg_count (ppm_pages_tbl ppm ! i) > 1"
  shows "ppm_free_pages_op i ppm =
      Some (upd_page i (\<lambda>p. p\<lparr>pg_count := pg_count p - 1\<rparr>) ppm)"
    and "ppm_inv (upd_page i (\<lambda>p. p\<lparr>pg_count := pg_count p - 1\<rparr>) ppm)"
    and "used_blocks (upd_page i (\<lambda>p. p\<lparr>pg_count := pg_count p - 1\<rparr>) ppm) = used_blocks ppm"
  using core_upd_used [of "{}" 0 ppm i "\<lambda>p. p\<lparr>pg_count := pg_count p - 1\<rparr>"] inv i cnt
  by (simp_all add: ppm_free_pages_op_def page_refcount_down_def used_blocks_def ppm_inv_def upd_page_def)

section \<open>Allocation\<close>

lemma find_order_Some:
  "find_order c ppm = Some e \<Longrightarrow>
     c \<le> e \<and> e < PPM_MAX_ORDER \<and> fl ppm e \<noteq> [] \<and> (\<forall>x. c \<le> x \<and> x < e \<longrightarrow> fl ppm x = [])"
proof (induction c ppm rule: find_order.induct)
  case (1 c ppm)
  show ?case
  proof (cases "bl_root (ppm_free_pages ppm ! c) \<noteq> []")
    case True
    then show ?thesis using 1(2) by (auto simp: find_order.simps [of c] fl_def split: if_splits)
  next
    case False
    then have lt: "c < PPM_MAX_ORDER" and f: "find_order (Suc c) ppm = Some e"
      using 1(2) by (simp_all add: find_order.simps [of c] split: if_splits)
    have "fl ppm c = []" using False by (simp add: fl_def)
    then show ?thesis using 1(1) [OF lt _ f] False by (metis Suc_leD Suc_leI le_neq_implies_less)
  qed
qed

lemma find_order_None:
  "find_order c ppm = None \<longleftrightarrow> (\<forall>x. c \<le> x \<and> x < PPM_MAX_ORDER \<longrightarrow> fl ppm x = [])"
proof (induction c ppm rule: find_order.induct)
  case (1 c ppm)
  show ?case
  proof (cases "c < PPM_MAX_ORDER \<and> fl ppm c = []")
    case True
    then have "find_order c ppm = find_order (Suc c) ppm"
      by (simp add: find_order.simps [of c] fl_def)
    then show ?thesis
      using 1 True by (simp add: fl_def) (metis Suc_leD Suc_leI le_neq_implies_less)
  next
    case False
    then show ?thesis by (auto simp: find_order.simps [of c] fl_def)
  qed
qed

lemma core_split:
  assumes core: "ppm_core {(b, Suc c)} a ppm"
  shows "ppm_core {(b + 2 ^ c, c), (b, c)} a ppm"
proof -
  note d = ppm_coreD [OF core] and l = ppm_core_lists [OF core]
  define B where "B = free_blocks ppm \<union> used_blocks ppm"
  have pt: "part (npages ppm) (B \<union> {(b, Suc c)})" "(b, Suc c) \<notin> B"
    using d(3,4) by (simp_all add: B_def)
  have cov: "covers (b, Suc c) b" "covers (b, Suc c) (b + 2 ^ c)"
    by (simp_all add: covers_def)
  have no: "(b, e) \<notin> B" "(b + 2 ^ c, e) \<notin> B" for e
    using part_unique [OF pt(1), of "(b, Suc c)" "(b, e)" b]
      part_unique [OF pt(1), of "(b, Suc c)" "(b + 2 ^ c, e)" "b + 2 ^ c"] cov pt(2)
    by (auto simp: covers_def)
  have "b + 2 ^ Suc c \<le> npages ppm" using part_le [OF pt(1)] by blast
  moreover have "(2::nat) ^ c < 2 ^ Suc c" by simp
  ultimately have "b + 2 ^ c < npages ppm" by linarith
  then have fr: "pg_state (ppm_pages_tbl ppm ! (b + 2 ^ c)) = PGFREE"
    using no(2) by (auto simp: B_def used_blocks_def)
  have "part (npages ppm) (B \<union> {(b + 2 ^ c, c), (b, c)})"
    using part_split [OF pt(1), of b c] pt(2) by (simp add: insert_commute)
  then show ?thesis
    using d(1,2,5) l(1-3) l(5-8) l(4) [of b "Suc c"] fr no unfolding B_def
    by (intro ppm_coreI) auto
qed

lemma ppm_split_ok:
  assumes "ppm_core {(b, cur)} a ppm" "order \<le> cur" "cur < PPM_MAX_ORDER"
  shows "\<exists>ppm'. ppm_split b order cur ppm = Some ppm' \<and>
    ppm_core {(b, order)} (a + 2 ^ order - 2 ^ cur) ppm' \<and>
    used_blocks ppm' = used_blocks ppm \<and> npages ppm' = npages ppm"
  using assms
proof (induction cur arbitrary: a ppm)
  case 0
  then show ?case by simp
next
  case (Suc c)
  show ?case
  proof (cases "order = Suc c")
    case True
    then show ?thesis using Suc.prems by simp
  next
    case False
    define r where "r = b + 2 ^ c"
    define ppm1 where "ppm1 = upd_page r (\<lambda>p. p\<lparr>pg_order := c\<rparr>) ppm"
    have core0: "ppm_core {(r, c), (b, c)} a ppm" using core_split [OF Suc.prems(1)] by (simp add: r_def)
    have r: "r < npages ppm" "\<And>e. (r, e) \<notin> free_blocks ppm" "pg_state (ppm_pages_tbl ppm ! r) = PGFREE"
      using core_pending_head [OF core0, of r c] ppm_core_lists(4) [OF core0, of r c] by simp_all
    have core1: "ppm_core {(r, c), (b, c)} a ppm1"
      unfolding ppm1_def by (rule core_upd_order [OF core0 r(1,3,2)])
    have c: "c < PPM_MAX_ORDER" using Suc.prems(3) by simp
    have len: "length (ppm_free_pages ppm1) = PPM_MAX_ORDER" by (rule ppm_coreD(1) [OF core1])
    then obtain ppm2 where lk: "link_page c r ppm1 = Some ppm2" using link_page_Some c by metis
    have off: "off_list r c ppm2 ppm1"
      using link_off_list [OF lk len c] r(2) [of c] c by (simp add: free_blocks_def ppm1_def)
    have al: "2 ^ Suc c dvd b" by (rule part_aligned [OF ppm_coreD(3) [OF Suc.prems(1)]]) simp
    have "b \<notin> set (fl ppm1 c)"
      using core_pending_head(1) [OF core0, of b c c] c by (simp add: free_blocks_def ppm1_def)
    then have core2: "ppm_core {(b, c)} (a - 2 ^ c) ppm2"
      using buddy_low(2) [OF al] r(1)
      by (intro core_put [OF core1 off]) (simp_all add: r_def ppm1_def upd_page_nth)
    have "used_blocks ppm2 = used_blocks ppm" "npages ppm1 = npages ppm2"
      using off_list_blocks(3) [OF off] off_listD(4) [OF off] r
      by (simp_all add: ppm1_def used_blocks_upd_free)
    moreover have "npages ppm1 = npages ppm" by (simp add: ppm1_def)
    moreover have "ppm_split b order (Suc c) ppm = ppm_split b order c ppm2"
      using False Suc.prems(2) r(1) lk by (simp add: r_def ppm1_def Let_def)
    moreover have "a - 2 ^ c + 2 ^ order - 2 ^ c = a + 2 ^ order - 2 ^ Suc c" by simp
    ultimately show ?thesis using Suc.IH [OF core2] False Suc.prems(2) c by simp
  qed
qed

lemma core_finish_alloc:
  assumes core: "ppm_core {(b, c)} 0 ppm" and c: "c < PPM_MAX_ORDER"
  defines "ppm' \<equiv> upd_page b (\<lambda>_. (ppm_pages_tbl ppm ! b)
      \<lparr>pg_state := PGINVALID, pg_count := pg_count (ppm_pages_tbl ppm ! b) + 1, pg_order := c\<rparr>) ppm"
  shows "ppm_inv ppm'" and "used_blocks ppm' = insert (b, c) (used_blocks ppm)"
    and "pg_count (ppm_pages_tbl ppm' ! b) = 1"
proof -
  note d = ppm_coreD [OF core] and l = ppm_core_lists [OF core]
  note h = core_pending_head [OF core singletonI] and st = l(4) [OF singletonI]
  show ub: "used_blocks ppm' = insert (b, c) (used_blocks ppm)"
    using h(2) st by (auto simp: used_blocks_def upd_page_nth ppm'_def split: if_splits)
  show "pg_count (ppm_pages_tbl ppm' ! b) = 1"
    using h(2) st l(7) by (simp add: ppm'_def upd_page_nth)
  have lt: "(j, e) \<in> free_blocks ppm \<Longrightarrow> j < npages ppm \<and> j \<noteq> b" for j e
    using part_head_less [OF d(3)] h(1) by blast
  have fb: "free_blocks ppm' = free_blocks ppm" "fl ppm' = fl ppm" "free_total ppm' = free_total ppm"
    "ppm_free_pages ppm' = ppm_free_pages ppm" "npages ppm' = npages ppm"
    "ppm_free_pages_nr ppm' = ppm_free_pages_nr ppm"
    by (simp_all add: ppm'_def)
  show "ppm_inv ppm'"
    unfolding ppm_inv_def
  proof (rule ppm_coreI)
    show "part (npages ppm') (free_blocks ppm' \<union> used_blocks ppm' \<union> {})"
      using d(3) by (simp add: fb ub Un_commute)
    show "pg_state (ppm_pages_tbl ppm' ! j) = PGFREE \<and> pg_order (ppm_pages_tbl ppm' ! j) = e"
      if "(j, e) \<in> free_blocks ppm'" for j e
      using that l(2,3) [of j e] lt [of j e] by (auto simp: fb ppm'_def upd_page_nth)
    show "pg_count (ppm_pages_tbl ppm' ! j) = 0"
      if "j < npages ppm'" "pg_state (ppm_pages_tbl ppm' ! j) = PGFREE" for j
      using that l(7) [of j] by (auto simp: fb ppm'_def upd_page_nth split: if_splits)
  qed (use d l(1) l(5,6,8) c in \<open>auto simp: fb ub\<close>)
qed

lemma ppm_do_alloc_pages_Some:
  assumes inv: "ppm_inv ppm" and f: "find_order order ppm = Some cur"
  shows "\<exists>b ppm'. ppm_do_alloc_pages order (ppm, th) = Some (Some b, ppm', th) \<and> ppm_inv ppm' \<and>
    (b, order) \<notin> used_blocks ppm \<and> used_blocks ppm' = insert (b, order) (used_blocks ppm) \<and>
    pg_count (ppm_pages_tbl ppm' ! b) = 1 \<and> npages ppm' = npages ppm"
proof -
  have core: "ppm_core {} 0 ppm" using inv by (simp add: ppm_inv_def)
  have cur: "order \<le> cur" "cur < PPM_MAX_ORDER" "fl ppm cur \<noteq> []"
    using find_order_Some [OF f] by auto
  define b where "b = hd (fl ppm cur)"
  have bf: "(b, cur) \<in> free_blocks ppm" using cur by (simp add: free_blocks_def b_def)
  obtain ppm1 where u: "unlink_page b ppm = Some ppm1"
    and off: "off_list b cur ppm (pages_nr_add cur (-1) ppm1)"
    using unlink_off_list [OF core bf] .
  define ppm2 where "ppm2 = pages_nr_add cur (-1) ppm1"
  define ppm3 where "ppm3 = ppm2\<lparr>ppm_free_pages_nr := ppm_free_pages_nr ppm2 - 2 ^ order\<rparr>"
  have core2: "ppm_core {(b, cur)} (2 ^ cur) ppm2" using core_take [OF core off] by (simp add: ppm2_def)
  have same3: "free_blocks ppm3 = free_blocks ppm2" "fl ppm3 = fl ppm2" "used_blocks ppm3 = used_blocks ppm2"
    "free_total ppm3 = free_total ppm2" "ppm_pages_tbl ppm3 = ppm_pages_tbl ppm2"
    "ppm_free_pages ppm3 = ppm_free_pages ppm2"
    by (simp_all add: ppm3_def free_blocks_def fl_def used_blocks_def free_total_def fun_eq_iff)
  have core3: "ppm_core {(b, cur)} (2 ^ cur - 2 ^ order) ppm3"
    using ppm_coreD [OF core2] ppm_core_lists [OF core2]
    by (intro ppm_coreI) (simp_all add: same3, simp add: ppm3_def)
  obtain ppm4 where sp: "ppm_split b order cur ppm3 = Some ppm4"
    "ppm_core {(b, order)} 0 ppm4" "used_blocks ppm4 = used_blocks ppm3" "npages ppm4 = npages ppm3"
    using ppm_split_ok [OF core3 cur(1,2)] by auto
  define ppm5 where "ppm5 = upd_page b (\<lambda>_. (ppm_pages_tbl ppm4 ! b)
      \<lparr>pg_state := PGINVALID, pg_count := pg_count (ppm_pages_tbl ppm4 ! b) + 1, pg_order := order\<rparr>) ppm4"
  have ord: "order < PPM_MAX_ORDER" using cur by simp
  note fin = core_finish_alloc [OF sp(2) ord, folded ppm5_def]
  have u2: "used_blocks ppm2 = used_blocks ppm" "npages ppm2 = npages ppm"
    using off_list_blocks(3) [OF off] off_listD(4) [OF off] by (simp_all add: ppm2_def)
  have b: "b < npages ppm4" "pg_state (ppm_pages_tbl ppm4 ! b) = PGFREE" "(b, order) \<notin> used_blocks ppm"
    using core_pending_head(2) [OF sp(2) singletonI] ppm_core_lists(4) [OF sp(2) singletonI]
      ppm_coreD(4) [OF sp(2)] sp(3) same3 u2 by auto
  have "ppm_do_alloc_pages order (ppm, th) = Some (Some b, ppm5, th)"
  proof -
    have "hd (bl_root (ppm_free_pages ppm ! cur)) = b" by (simp add: b_def fl_def)
    moreover have "pages_nr_add cur (-1) (ppm1\<lparr>ppm_free_pages_nr := ppm_free_pages_nr ppm1 - 2 ^ order\<rparr>) = ppm3"
      by (cases ppm1) (simp add: ppm3_def ppm2_def pages_nr_add_def)
    ultimately show ?thesis
      using f u sp(1) b by (simp add: ppm_do_alloc_pages_def page_to_invalid_def page_refcount_up_def
          ppm5_def push_bit_eq_mult Let_def)
  qed
  moreover have "npages ppm5 = npages ppm" using sp(4) same3(5) u2(2) by (simp add: ppm5_def)
  ultimately show ?thesis using fin b(3) sp(3) same3(3) u2(1) by auto
qed

lemma ppm_do_alloc_pages_None:
  "find_order order ppm = None \<Longrightarrow> ppm_do_alloc_pages order (ppm, th) = Some (None, ppm, th)"
  by (simp add: ppm_do_alloc_pages_def)

section \<open>Frames\<close>

text \<open>Merging and splitting write no descriptor field but the order.\<close>

definition erase_order :: "ppm_s \<Rightarrow> page_s list" where
  "erase_order ppm = map (\<lambda>p. p\<lparr>pg_order := 0\<rparr>) (ppm_pages_tbl ppm)"

lemma erase_order_upd:
  "erase_order (upd_page i (\<lambda>p. p\<lparr>pg_order := x\<rparr>) ppm) = erase_order ppm"
  by (rule nth_equalityI) (simp_all add: erase_order_def upd_page_def
      nth_update_field [where f = "\<lambda>p. p\<lparr>pg_order := 0\<rparr>" and g = "\<lambda>p. p\<lparr>pg_order := x\<rparr>"])

lemma erase_order_tbl: "ppm_pages_tbl ppm' = ppm_pages_tbl ppm \<Longrightarrow> erase_order ppm' = erase_order ppm"
  by (simp add: erase_order_def)

lemma ppm_merge_frame:
  "ppm_merge p c ppm = Some (p', c', ppm') \<Longrightarrow>
     erase_order ppm' = erase_order ppm \<and> ppm_pages_nr ppm' = ppm_pages_nr ppm \<and>
     ppm_free_pages_nr ppm' = ppm_free_pages_nr ppm"
proof (induction p c ppm rule: ppm_merge.induct)
  case (1 p c ppm)
  show ?case
  proof (cases "c < PPM_LAST_ORDER \<and> \<not> (pg_state (ppm_pages_tbl ppm ! (p XOR 2 ^ c)) \<noteq> PGFREE \<or>
      pg_order (ppm_pages_tbl ppm ! (p XOR 2 ^ c)) \<noteq> c)")
    case True
    then obtain ppm1 where u: "unlink_page (p XOR 2 ^ c) ppm = Some ppm1"
      and lt: "p XOR 2 ^ c < npages ppm"
      and m: "ppm_merge (p AND (p XOR 2 ^ c)) (Suc c)
         (upd_page (p XOR 2 ^ c) (\<lambda>p. p\<lparr>pg_order := 0\<rparr>) (pages_nr_add c (-1) ppm1)) = Some (p', c', ppm')"
      using 1(2) by (auto simp: ppm_merge.simps [of p c] Let_def split: if_splits option.splits)
    define ppm2 where "ppm2 = upd_page (p XOR 2 ^ c) (\<lambda>p. p\<lparr>pg_order := 0\<rparr>) (pages_nr_add c (-1) ppm1)"
    have "ppm_pages_tbl ppm1 = ppm_pages_tbl ppm" "ppm_pages_nr ppm1 = ppm_pages_nr ppm"
      "ppm_free_pages_nr ppm1 = ppm_free_pages_nr ppm"
      using u by (auto simp: unlink_page_def split: if_splits)
    then have "erase_order ppm2 = erase_order ppm" "ppm_pages_nr ppm2 = ppm_pages_nr ppm"
      "ppm_free_pages_nr ppm2 = ppm_free_pages_nr ppm"
      unfolding ppm2_def erase_order_upd
      by (simp add: erase_order_def, simp_all add: upd_page_def pages_nr_add_def)
    then show ?thesis
      using 1(1) [OF _ refl lt refl _ u refl refl m] True by (simp add: ppm2_def)
  next
    case False
    then have "ppm' = ppm"
      using 1(2) by (auto simp: ppm_merge.simps [of p c] Let_def split: if_splits)
    then show ?thesis by simp
  qed
qed

lemma link_page_frame:
  assumes "link_page c b ppm = Some ppm'"
  shows "erase_order ppm' = erase_order ppm" "ppm_pages_nr ppm' = ppm_pages_nr ppm"
  using assms by (auto simp: link_page_def erase_order_def pages_nr_add_def split: if_splits)

lemma ppm_free_pages_nolock_frame:
  assumes "ppm_free_pages_nolock i c ppm = Some ppm'"
  shows "erase_order ppm' = (erase_order ppm)[i := set_free (erase_order ppm ! i)]"
    and "ppm_pages_nr ppm' = ppm_pages_nr ppm" "ppm_free_pages_nr ppm' = ppm_free_pages_nr ppm + 2 ^ c"
proof -
  define ppm1 where "ppm1 = (upd_page i set_free ppm)\<lparr>ppm_free_pages_nr := ppm_free_pages_nr ppm + 2 ^ c\<rparr>"
  obtain p' c' ppm2 where i: "i < npages ppm" and m: "ppm_merge i c ppm1 = Some (p', c', ppm2)"
    and l: "link_page c' p' (upd_page p' (\<lambda>p. p\<lparr>pg_order := c'\<rparr>) ppm2) = Some ppm'"
    using assms by (auto simp: ppm_free_pages_nolock_def ppm1_def Let_def push_bit_eq_mult
        split: if_splits option.splits)
  have "erase_order ppm1 = (erase_order ppm)[i := set_free (erase_order ppm ! i)]"
    using i by (cases "ppm_pages_tbl ppm ! i")
      (simp add: erase_order_def ppm1_def upd_page_def set_free_def map_update)
  then show "erase_order ppm' = (erase_order ppm)[i := set_free (erase_order ppm ! i)]"
    using ppm_merge_frame [OF m] link_page_frame [OF l] by (simp add: erase_order_upd)
  show "ppm_pages_nr ppm' = ppm_pages_nr ppm"
    using ppm_merge_frame [OF m] link_page_frame [OF l] by (simp add: ppm1_def upd_page_def)
  show "ppm_free_pages_nr ppm' = ppm_free_pages_nr ppm + 2 ^ c"
    using ppm_merge_frame [OF m] link_page_fields(2) [OF l] by (simp add: ppm1_def)
qed

lemma erase_order_fields:
  assumes "j < npages ppm"
  shows "pg_state (erase_order ppm ! j) = pg_state (ppm_pages_tbl ppm ! j)"
    and "pg_count (erase_order ppm ! j) = pg_count (ppm_pages_tbl ppm ! j)"
  using assms by (simp_all add: erase_order_def)

section \<open>Initialisation\<close>

text \<open>A manager whose descriptors are all unlinked single pages, as \<^verbatim>\<open>ppm_init_pages\<close> leaves it.\<close>

lemma part_singles: "part n {(i, c). i < n \<and> c = (0::nat)}"
  unfolding part_def covers_def by auto

lemma fresh_inv:
  assumes "ppm_free_pages ppm = replicate PPM_MAX_ORDER \<lparr>bl_root = [], bl_pages_nr = 0\<rparr>"
    and "ppm_free_pages_nr ppm = 0" "2 ^ PPM_LAST_ORDER dvd npages ppm"
    and "\<And>i. i < npages ppm \<Longrightarrow> pg_state (ppm_pages_tbl ppm ! i) \<noteq> PGFREE \<and> pg_order (ppm_pages_tbl ppm ! i) = 0"
  shows "ppm_inv ppm" "used_blocks ppm = {(i, c). i < npages ppm \<and> c = 0}"
proof -
  show ub: "used_blocks ppm = {(i, c). i < npages ppm \<and> c = 0}"
    using assms(4) by (auto simp: used_blocks_def)
  have e: "fl ppm c = []" if "c < PPM_MAX_ORDER" for c using that by (simp add: fl_def assms(1))
  then have "free_blocks ppm = {}" "free_total ppm = 0"
    by (auto simp: free_blocks_def free_total_def)
  then show "ppm_inv ppm"
    unfolding ppm_inv_def
    using assms e part_singles [of "npages ppm"] ub by (intro ppm_coreI) auto
qed

lemma free_unreserved_ok:
  assumes "ppm_inv ppm" "distinct is"
    and "\<And>i. i \<in> set is \<Longrightarrow> i < npages ppm \<and> (i, 0) \<in> used_blocks ppm \<and>
      (pg_state (ppm_pages_tbl ppm ! i) = PGRESERVED \<or> pg_count (ppm_pages_tbl ppm ! i) = 0)"
  shows "\<exists>ppm'. free_unreserved is ppm = Some ppm' \<and> ppm_inv ppm' \<and> npages ppm' = npages ppm \<and>
    used_blocks ppm' = used_blocks ppm -
      {(i, 0) |i. i \<in> set is \<and> pg_state (ppm_pages_tbl ppm ! i) \<noteq> PGRESERVED}"
  using assms
proof (induction "is" arbitrary: ppm)
  case Nil
  then show ?case by simp
next
  case (Cons i "is")
  have i: "i < npages ppm" "(i, 0) \<in> used_blocks ppm" using Cons.prems(3) [of i] by auto
  then have o0: "pg_order (ppm_pages_tbl ppm ! i) = 0" by (simp add: used_blocks_def)
  show ?case
  proof (cases "pg_state (ppm_pages_tbl ppm ! i) = PGRESERVED")
    case True
    then have eq: "{(j, 0) |j. j \<in> set (i # is) \<and> pg_state (ppm_pages_tbl ppm ! j) \<noteq> PGRESERVED} =
        {(j, 0) |j. j \<in> set is \<and> pg_state (ppm_pages_tbl ppm ! j) \<noteq> PGRESERVED}"
      by auto
    show ?thesis unfolding eq using Cons.IH [OF Cons.prems(1)] Cons.prems(2,3) True by (simp add: Let_def)
  next
    case False
    then have "pg_count (ppm_pages_tbl ppm ! i) = 0" using Cons.prems(3) [of i] by simp
    then obtain ppm1 where f: "ppm_free_pages_nolock i 0 ppm = Some ppm1" "ppm_inv ppm1"
      "used_blocks ppm1 = used_blocks ppm - {(i, 0)}" "npages ppm1 = npages ppm"
      using ppm_free_pages_nolock_ok [OF Cons.prems(1) i(2)] by blast
    have same: "pg_state (ppm_pages_tbl ppm1 ! j) = pg_state (ppm_pages_tbl ppm ! j)"
      "pg_count (ppm_pages_tbl ppm1 ! j) = pg_count (ppm_pages_tbl ppm ! j)"
      if "j < npages ppm" "j \<noteq> i" for j
      using arg_cong [OF ppm_free_pages_nolock_frame(1) [OF f(1)], of "\<lambda>l. pg_state (l ! j)"]
        arg_cong [OF ppm_free_pages_nolock_frame(1) [OF f(1)], of "\<lambda>l. pg_count (l ! j)"]
        erase_order_fields [of j ppm] erase_order_fields [of j ppm1] that f(4) by simp_all
    have "\<exists>ppm'. free_unreserved is ppm1 = Some ppm' \<and> ppm_inv ppm' \<and> npages ppm' = npages ppm1 \<and>
      used_blocks ppm' = used_blocks ppm1 -
        {(j, 0) |j. j \<in> set is \<and> pg_state (ppm_pages_tbl ppm1 ! j) \<noteq> PGRESERVED}"
    proof (rule Cons.IH)
      show "j < npages ppm1 \<and> (j, 0) \<in> used_blocks ppm1 \<and>
        (pg_state (ppm_pages_tbl ppm1 ! j) = PGRESERVED \<or> pg_count (ppm_pages_tbl ppm1 ! j) = 0)"
        if "j \<in> set is" for j
      proof -
        have "j \<noteq> i" using that Cons.prems(2) by auto
        then show ?thesis using Cons.prems(3) [of j] same [of j] f(3,4) that by simp
      qed
    qed (use f(2) Cons.prems(2) in simp_all)
    moreover have "{(j, 0::nat) |j. j \<in> set is \<and> pg_state (ppm_pages_tbl ppm1 ! j) \<noteq> PGRESERVED} =
        {(j, 0) |j. j \<in> set is \<and> pg_state (ppm_pages_tbl ppm ! j) \<noteq> PGRESERVED}"
    proof -
      have "pg_state (ppm_pages_tbl ppm1 ! j) = pg_state (ppm_pages_tbl ppm ! j)" if "j \<in> set is" for j
        using that Cons.prems(2) Cons.prems(3) [of j] by (intro same(1)) auto
      then show ?thesis by auto
    qed
    moreover have "{(j, 0::nat) |j. j \<in> set (i # is) \<and> pg_state (ppm_pages_tbl ppm ! j) \<noteq> PGRESERVED} =
        insert (i, 0) {(j, 0) |j. j \<in> set is \<and> pg_state (ppm_pages_tbl ppm ! j) \<noteq> PGRESERVED}"
      using False by auto
    ultimately show ?thesis using f False o0 by (auto simp: Let_def)
  qed
qed

text \<open>What the reservation loops keep.\<close>

definition boot_tbl :: "nat \<Rightarrow> ppm_s \<Rightarrow> bool" where
  "boot_tbl n ppm \<longleftrightarrow> npages ppm = n \<and> unat (ppm_pages_nr ppm) = n \<and>
     ppm_free_pages ppm = replicate PPM_MAX_ORDER \<lparr>bl_root = [], bl_pages_nr = 0\<rparr> \<and>
     ppm_free_pages_nr ppm = 0 \<and>
     (\<forall>i<n. pg_order (ppm_pages_tbl ppm ! i) = 0 \<and>
        (pg_state (ppm_pages_tbl ppm ! i) = PGRESERVED \<or>
         pg_state (ppm_pages_tbl ppm ! i) = PGINIT \<and> pg_count (ppm_pages_tbl ppm ! i) = 0))"

lemma boot_tbl_reserve: "boot_tbl n ppm \<Longrightarrow> boot_tbl n (upd_page i set_reserved ppm)"
  by (auto simp: boot_tbl_def upd_page_nth set_reserved_def) (simp add: upd_page_def)

definition rsv :: "ppm_s \<Rightarrow> nat set" where
  "rsv ppm = {i. i < npages ppm \<and> pg_state (ppm_pages_tbl ppm ! i) = PGRESERVED}"

lemma rsv_reserve: "i < npages ppm \<Longrightarrow> rsv (upd_page i set_reserved ppm) = insert i (rsv ppm)"
  by (auto simp: rsv_def upd_page_nth set_reserved_def)

lemma reserve_first_ok:
  "boot_tbl n ppm \<Longrightarrow> k \<le> n \<Longrightarrow> \<exists>ppm'. reserve_first k ppm = Some ppm' \<and> boot_tbl n ppm' \<and> rsv ppm' = rsv ppm \<union> {..<k} \<and>
     ppm_vaddr_begin ppm' = ppm_vaddr_begin ppm \<and> ppm_ppn_start ppm' = ppm_ppn_start ppm"
proof (induction k)
  case 0
  then show ?case by simp
next
  case (Suc k)
  then obtain ppm1 where 1: "reserve_first k ppm = Some ppm1" "boot_tbl n ppm1" "rsv ppm1 = rsv ppm \<union> {..<k}"
    "ppm_vaddr_begin ppm1 = ppm_vaddr_begin ppm" "ppm_ppn_start ppm1 = ppm_ppn_start ppm"
    by auto
  have k: "k < npages ppm1" using 1(2) Suc.prems(2) by (simp add: boot_tbl_def)
  have "rsv (upd_page k set_reserved ppm1) = rsv ppm \<union> {..<Suc k}" unfolding rsv_reserve [OF k] 1(3) by auto
  then show ?case using 1 k boot_tbl_reserve [OF 1(2), of k] by (simp add: upd_page_def)
qed

lemma reserve_range_boot:
  "reserve_range fuel info r ppm = Some ppm' \<Longrightarrow> boot_tbl n ppm \<Longrightarrow> boot_tbl n ppm'"
proof (induction fuel arbitrary: r ppm)
  case (Suc fuel)
  then show ?case using boot_tbl_reserve by (auto simp: Let_def split: if_splits)
qed simp

lemma boot_tbl_inv:
  assumes "boot_tbl n ppm" "2 ^ PPM_LAST_ORDER dvd n"
  shows "ppm_inv ppm" "used_blocks ppm = {(i, c). i < n \<and> c = 0}"
proof -
  have "pg_state (ppm_pages_tbl ppm ! i) \<noteq> PGFREE \<and> pg_order (ppm_pages_tbl ppm ! i) = 0"
    if "i < npages ppm" for i
    using assms(1) that by (auto simp: boot_tbl_def)
  then show "ppm_inv ppm" "used_blocks ppm = {(i, c). i < n \<and> c = 0}"
    using fresh_inv [of ppm] assms by (simp_all add: boot_tbl_def)
qed

lemma free_unreserved_boot:
  assumes "boot_tbl n ppm" "2 ^ PPM_LAST_ORDER dvd n"
  shows "\<exists>ppm'. free_unreserved [0..<n] ppm = Some ppm' \<and> ppm_inv ppm' \<and> npages ppm' = n \<and>
    used_blocks ppm' = {(i, 0) |i. i < n \<and> pg_state (ppm_pages_tbl ppm ! i) = PGRESERVED}"
proof -
  have "\<exists>ppm'. free_unreserved [0..<n] ppm = Some ppm' \<and> ppm_inv ppm' \<and> npages ppm' = npages ppm \<and>
    used_blocks ppm' = used_blocks ppm -
      {(i, 0) |i. i \<in> set [0..<n] \<and> pg_state (ppm_pages_tbl ppm ! i) \<noteq> PGRESERVED}"
    using assms(1) boot_tbl_inv [OF assms]
    by (intro free_unreserved_ok) (auto simp: boot_tbl_def)
  moreover have "{(i, c). i < n \<and> c = 0} -
      {(i, 0) |i. i \<in> set [0..<n] \<and> pg_state (ppm_pages_tbl ppm ! i) \<noteq> PGRESERVED} =
      {(i, 0::nat) |i. i < n \<and> pg_state (ppm_pages_tbl ppm ! i) = PGRESERVED}"
    by auto
  ultimately show ?thesis using boot_tbl_inv(2) [OF assms] assms(1) by (simp add: boot_tbl_def)
qed

text \<open>After \<^verbatim>\<open>ppm_init\<close> every page that is not reserved is free, in maximal blocks.\<close>

definition boot_reserved_nr :: "uint_t \<Rightarrow> uint_t \<Rightarrow> uint_t \<Rightarrow> nat" where
  "boot_reserved_nr pages_nr vaddr_begin vaddr_start =
     unat (drop_bit PMM_PAGE_SHIFT (ARROUND_UP (pages_nr * SIZEOF_PAGE_S) PMM_PAGE_SIZE)
       + drop_bit PMM_PAGE_SHIFT (vaddr_start - vaddr_begin))"

definition reserve_index :: "boot_info_s \<Rightarrow> ppm_s \<Rightarrow> uint_t \<Rightarrow> nat" where
  "reserve_index info ppm r =
     (if bi_local_cluster_id info = bi_boot_cluster_id info
      then ppm_ppn2page ppm (drop_bit PMM_PAGE_SHIFT r) else ppm_addr2page ppm r)"

lemma reserve_index_upd: "reserve_index info (upd_page i f ppm) r = reserve_index info ppm r"
  by (simp add: reserve_index_def ppm_ppn2page_def ppm_addr2page_def upd_page_def)

lemma shift_image: "{f k |k. P k} = (if P 0 then insert (f 0) {f (Suc k) |k. P (Suc k)} else {f (Suc k) |k. P (Suc k)})"
  by (auto, (metis nat.exhaust)+)

lemma reserve_range_ok:
  assumes "boot_tbl n ppm" and "unat (bi_reserved_end info) + 0x1000 \<le> 2 ^ 32"
    and "\<And>k. unat r + k * 0x1000 < unat (bi_reserved_end info) \<Longrightarrow>
       reserve_index info ppm (r + of_nat (k * 0x1000)) < n"
    and "unat (bi_reserved_end info) < unat r + fuel * 0x1000"
  shows "\<exists>ppm'. reserve_range (Suc fuel) info r ppm = Some ppm' \<and>
     rsv ppm' = rsv ppm \<union> {reserve_index info ppm (r + of_nat (k * 0x1000)) |k. unat r + k * 0x1000 < unat (bi_reserved_end info)}"
  using assms(1,3,4)
proof (induction fuel arbitrary: r ppm)
  case 0
  then show ?case by (simp add: word_less_nat_alt)
next
  case (Suc fuel)
  show ?case
  proof (cases "r < bi_reserved_end info")
    case False
    then show ?thesis by (auto simp: word_less_nat_alt)
  next
    case True
    then have lt: "unat r < unat (bi_reserved_end info)" by (simp add: word_less_nat_alt)
    define i where "i = reserve_index info ppm r"
    have i: "i < n" using Suc.prems(2) [of 0] lt by (simp add: i_def)
    have r: "unat (r + 0x1000) = unat r + 0x1000"
      using lt assms(2) by (simp add: unat_word_ariths)
    have "\<exists>ppm'. reserve_range (Suc fuel) info (r + 0x1000) (upd_page i set_reserved ppm) = Some ppm' \<and>
       rsv ppm' = rsv (upd_page i set_reserved ppm) \<union> {reserve_index info (upd_page i set_reserved ppm) (r + 0x1000 + of_nat (k * 0x1000)) |k.
         unat (r + 0x1000) + k * 0x1000 < unat (bi_reserved_end info)}"
    proof (rule Suc.IH)
      show "boot_tbl n (upd_page i set_reserved ppm)" by (rule boot_tbl_reserve [OF Suc.prems(1)])
      show "reserve_index info (upd_page i set_reserved ppm) (r + 0x1000 + of_nat (k * 0x1000)) < n"
        if "unat (r + 0x1000) + k * 0x1000 < unat (bi_reserved_end info)" for k
        using that r Suc.prems(2) [of "Suc k"] by (simp add: reserve_index_upd add.assoc)
      show "unat (bi_reserved_end info) < unat (r + 0x1000) + fuel * 0x1000"
        using Suc.prems(3) r by simp
    qed
    then obtain ppm' where p: "reserve_range (Suc fuel) info (r + 0x1000) (upd_page i set_reserved ppm) = Some ppm'"
      "rsv ppm' = insert i (rsv ppm) \<union> {reserve_index info ppm (r + of_nat (Suc k * 0x1000)) |k. unat r + Suc k * 0x1000 < unat (bi_reserved_end info)}"
      using i Suc.prems(1) r by (auto simp: rsv_reserve boot_tbl_def reserve_index_upd add.assoc)
    have "reserve_range (Suc (Suc fuel)) info r ppm = Some ppm'"
      using True i Suc.prems(1) p(1) unfolding i_def reserve_index_def
      by (simp add: boot_tbl_def Let_def)
    moreover have "{reserve_index info ppm (r + of_nat (k * 0x1000)) |k. unat r + k * 0x1000 < unat (bi_reserved_end info)} =
      insert i {reserve_index info ppm (r + of_nat (Suc k * 0x1000)) |k. unat r + Suc k * 0x1000 < unat (bi_reserved_end info)}"
      unfolding shift_image [where P = "\<lambda>k. unat r + k * 0x1000 < unat (bi_reserved_end info)"] using lt by (simp add: i_def)
    ultimately show ?thesis using p(2) by auto
  qed
qed

lemma ppm_init_pages_ok:
  assumes fp: "ppm_free_pages ppm = replicate PPM_MAX_ORDER \<lparr>bl_root = [], bl_pages_nr = 0\<rparr>"
    "ppm_free_pages_nr ppm = 0" and n: "n = unat (ppm_pages_nr ppm)"
    and "boot_reserved_nr (ppm_pages_nr ppm) (ppm_vaddr_begin ppm) (ppm_vaddr_start ppm) \<le> n"
  shows "\<exists>ppm'. ppm_init_pages mem cid ppm = Some ppm' \<and> boot_tbl n ppm' \<and>
    rsv ppm' = {..<boot_reserved_nr (ppm_pages_nr ppm) (ppm_vaddr_begin ppm) (ppm_vaddr_start ppm)} \<and>
    ppm_vaddr_begin ppm' = ppm_vaddr_begin ppm \<and> ppm_ppn_start ppm' = ppm_ppn_start ppm"
proof -
  define ppm1 where
    "ppm1 = ppm\<lparr>ppm_pages_tbl := map (\<lambda>i. page_init (mem i) cid) [0..<unat (ppm_pages_nr ppm)]\<rparr>"
  have b1: "boot_tbl n ppm1" using fp n by (simp add: boot_tbl_def ppm1_def page_init_def)
  have "rsv ppm1 = {}" by (auto simp: rsv_def ppm1_def page_init_def)
  with reserve_first_ok [OF b1 assms(4)] show ?thesis
    by (auto simp: ppm_init_pages_def boot_reserved_nr_def ppm1_def Let_def)
qed

text \<open>The pages that initialisation keeps: those of the kernel image and the table of descriptors, and the range that the boot
  information reserves.\<close>

definition boot_reserved :: "boot_info_s \<Rightarrow> uint_t \<Rightarrow> uint_t \<Rightarrow> uint_t \<Rightarrow> ppm_s \<Rightarrow> nat set" where
  "boot_reserved info pages_nr vaddr_begin vaddr_start ppm =
     {..<boot_reserved_nr pages_nr vaddr_begin vaddr_start} \<union>
     {reserve_index info ppm (bi_reserved_start info + of_nat (k * 0x1000)) |k. unat (bi_reserved_start info) + k * 0x1000 < unat (bi_reserved_end info)}"

lemma reserve_index_cong:
  "ppm_vaddr_begin ppm = ppm_vaddr_begin ppm' \<Longrightarrow> ppm_ppn_start ppm = ppm_ppn_start ppm' \<Longrightarrow> reserve_index info ppm r = reserve_index info ppm' r"
  by (simp add: reserve_index_def ppm_ppn2page_def ppm_addr2page_def)

text \<open>Under the invariant a page lies in exactly one block, so a page in no block in use lies in a free one.\<close>

lemma unused_page_free:
  assumes "ppm_inv ppm" "used_blocks ppm = (\<lambda>i. (i, 0)) ` R" "i < npages ppm"
  shows "i \<notin> R \<longleftrightarrow> (\<exists>(b, c)\<in>free_blocks ppm. b \<le> i \<and> i < b + 2 ^ c)"
proof -
  have ex: "\<exists>!x. x \<in> free_blocks ppm \<union> used_blocks ppm \<and> covers x i"
    using ppm_coreD(3) [OF assms(1) [unfolded ppm_inv_def]] assms(3) by (simp add: part_def)
  have dis: "x \<notin> used_blocks ppm" if "x \<in> free_blocks ppm" for x
    using ppm_core_lists(2) [OF assms(1) [unfolded ppm_inv_def], of "fst x" "snd x"] that by (auto simp: used_blocks_def)
  have "i \<in> R \<longleftrightarrow> (\<exists>x\<in>used_blocks ppm. covers x i)" unfolding assms(2) covers_def by (auto simp: le_less_Suc_eq)
  then have "i \<notin> R \<longleftrightarrow> (\<exists>x\<in>free_blocks ppm. covers x i)" using ex dis by (metis UnCI UnE)
  then show ?thesis unfolding covers_def case_prod_beta .
qed

lemma ppm_init_ok:
  assumes n: "n = unat (drop_bit PMM_PAGE_SHIFT (limit - base))" "2 ^ PPM_LAST_ORDER dvd n"
    and range: "bi_reserved_start info \<le> bi_reserved_end info"
      "unat (bi_reserved_end info) + 0x1000 \<le> 2 ^ 32"
    and idx: "boot_reserved info (drop_bit PMM_PAGE_SHIFT (limit - base)) vaddr_begin vaddr_start
       (ppm\<lparr>ppm_vaddr_begin := vaddr_begin, ppm_ppn_start := drop_bit PMM_PAGE_SHIFT base\<rparr>) \<subseteq> {..<n}" (is "?R \<subseteq> _")
  shows "\<exists>ppm'. ppm_init mem ppm base limit vaddr_begin vaddr_start info = Some ppm' \<and>
    ppm_inv ppm' \<and> npages ppm' = n \<and> used_blocks ppm' = (\<lambda>i. (i, 0)) ` ?R"
proof -
  define ppm0 where "ppm0 = ppm\<lparr>ppm_ppn_start := drop_bit PMM_PAGE_SHIFT base,
                    ppm_vaddr_begin := vaddr_begin, ppm_vaddr_start := vaddr_start,
                    ppm_free_pages := replicate PPM_MAX_ORDER \<lparr>bl_root = [], bl_pages_nr = 0\<rparr>,
                    ppm_pages_nr := drop_bit PMM_PAGE_SHIFT (limit - base),
                    ppm_free_pages_nr := 0, ppm_begin := base,
                    ppm_wait_tbl := map (\<lambda>q. wait_queue_init q ''PPM WAIT TBL'') (ppm_wait_tbl ppm)\<rparr>"
  obtain ppm1 where 1: "ppm_init_pages mem (bi_local_cluster_id info) ppm0 = Some ppm1" "boot_tbl n ppm1"
    "ppm_vaddr_begin ppm1 = vaddr_begin" "ppm_ppn_start ppm1 = drop_bit PMM_PAGE_SHIFT base"
    "rsv ppm1 = {..<boot_reserved_nr (drop_bit PMM_PAGE_SHIFT (limit - base)) vaddr_begin vaddr_start}"
    using ppm_init_pages_ok [of ppm0 n mem "bi_local_cluster_id info"] n(1) idx by (auto simp: ppm0_def boot_reserved_def)
  let ?q = "ppm\<lparr>ppm_vaddr_begin := vaddr_begin, ppm_ppn_start := drop_bit PMM_PAGE_SHIFT base\<rparr>"
  have ri: "reserve_index info ppm1 r = reserve_index info ?q r" for r by (rule reserve_index_cong) (simp_all add: 1(3,4))
  have lt: "reserve_index info ppm1 (bi_reserved_start info + of_nat (k * 0x1000)) < n" if "unat (bi_reserved_start info) + k * 0x1000 < unat (bi_reserved_end info)" for k
    using idx that unfolding ri boot_reserved_def by blast
  define m where "m = unat (bi_reserved_end info - bi_reserved_start info) div 0x1000"
  have "unat (bi_reserved_end info) < unat (bi_reserved_start info) + (m + 1) * 0x1000"
    using range(1) unfolding m_def by (simp add: unat_sub word_le_nat_alt)
  from reserve_range_ok [OF 1(2) range(2) lt this] obtain ppm2 where 2: "reserve_range (Suc (m + 1)) info (bi_reserved_start info) ppm1 = Some ppm2"
    and r2: "rsv ppm2 = ?R" unfolding 1(5) ri boot_reserved_def by blast
  have b2: "boot_tbl n ppm2" by (rule reserve_range_boot [OF 2 1(2)])
  obtain ppm3 where 3: "free_unreserved [0..<n] ppm2 = Some ppm3" "ppm_inv ppm3" "npages ppm3 = n"
    "used_blocks ppm3 = {(i, 0) |i. i < n \<and> pg_state (ppm_pages_tbl ppm2 ! i) = PGRESERVED}"
    using free_unreserved_boot [OF b2 n(2)] by blast
  define ppm4 where "ppm4 = ppm3\<lparr>ppm_uprio_pages_min := ppm_free_pages_nr ppm3 * 80 div 100,
                       ppm_kprio_pages_min := ppm_free_pages_nr ppm3 * 15 div 100,
                       ppm_urgent_pages_min := ppm_free_pages_nr ppm3 * 5 div 100\<rparr>"
  have pn: "unat (ppm_pages_nr ppm2) = n" using b2 by (simp add: boot_tbl_def)
  have "ppm_init_finalize mem info ppm0 = Some ppm3"
    using 1(1) 2 3(1) pn by (simp add: ppm_init_finalize_def m_def)
  then have "ppm_init mem ppm base limit vaddr_begin vaddr_start info = Some ppm4"
    by (simp add: ppm_init_def ppm0_def ppm4_def Let_def)
  moreover have "ppm_inv ppm4" "npages ppm4 = n" "used_blocks ppm4 = used_blocks ppm3"
    using 3(2,3) by (simp_all add: ppm4_def ppm_inv_def ppm_core_def used_blocks_def free_blocks_def
        fl_def free_total_def)
  moreover have "{(i, 0) |i. i < n \<and> pg_state (ppm_pages_tbl ppm2 ! i) = PGRESERVED} = (\<lambda>i. (i, 0)) ` ?R"
    using b2 unfolding r2 [symmetric] rsv_def boot_tbl_def by auto
  ultimately show ?thesis unfolding 3(4) by blast
qed

section \<open>The allocation policy\<close>

text \<open>All clusters keep their invariant, and a successful call hands out a block that was in use
  nowhere, from a cluster that was above the threshold.\<close>

definition pa_inv :: "pa_state \<Rightarrow> bool" where
  "pa_inv s \<longleftrightarrow> (\<forall>ppm\<in>set (pa_ppms s). ppm_inv ppm)"

definition pa_env_ok :: "pa_env \<Rightarrow> nat \<Rightarrow> bool" where
  "pa_env_ok e n \<longleftrightarrow> 0 < pa_onln e \<and> pa_onln e \<le> n \<and> pa_home e < n \<and>
     (\<forall>ppms cid th ord c. pa_mem_request e ppms cid th ord = Some c \<longrightarrow> c < n)"

lemma ppm_do_alloc_pages_cases:
  assumes "ppm_inv ppm"
  obtains "ppm_do_alloc_pages order (ppm, th) = Some (None, ppm, th)"
    "\<forall>c. order \<le> c \<and> c < PPM_MAX_ORDER \<longrightarrow> fl ppm c = []"
  | b ppm' where "ppm_do_alloc_pages order (ppm, th) = Some (Some b, ppm', th)" "ppm_inv ppm'"
    "(b, order) \<notin> used_blocks ppm" "used_blocks ppm' = insert (b, order) (used_blocks ppm)"
    "pg_count (ppm_pages_tbl ppm' ! b) = 1" "npages ppm' = npages ppm"
proof (cases "find_order order ppm")
  case None
  then show thesis using that(1) ppm_do_alloc_pages_None find_order_None by blast
next
  case (Some cur)
  then show thesis using that(2) ppm_do_alloc_pages_Some [OF assms Some] by blast
qed

lemma pa_choose_frame:
  "pa_choose e up cid s = (threshold, cid', s') \<Longrightarrow> pa_ppms s' = pa_ppms s \<and>
     (0 < pa_onln e \<and> pa_onln e \<le> n \<longrightarrow> cid < n \<longrightarrow> cid' < n)"
  by (auto simp: pa_choose_def Let_def split: if_splits) (meson mod_less_divisor order_less_le_trans)+

lemma pa_try_ok:
  assumes "pa_inv s" "cid < length (pa_ppms s)"
  obtains s' where "pa_try e threshold cid s = Some (None, s')" "pa_inv s'"
    "pa_ppms s' = pa_ppms s"
  | page s' where "pa_try e threshold cid s = Some (Some page, s')" "pa_inv s'"
    "ppm_free_pages_nr (pa_ppms s ! cid) > threshold"
    "(page, pa_order e) \<notin> used_blocks (pa_ppms s ! cid)"
    "length (pa_ppms s') = length (pa_ppms s)"
    "used_blocks (pa_ppms s' ! cid) = insert (page, pa_order e) (used_blocks (pa_ppms s ! cid))"
    "\<And>c. c \<noteq> cid \<Longrightarrow> pa_ppms s' ! c = pa_ppms s ! c"
    "\<exists>th. ppm_do_alloc_pages (pa_order e) (pa_ppms s ! cid, th) = Some (Some page, pa_ppms s' ! cid, th)"
proof (cases "ppm_free_pages_nr (pa_ppms s ! cid) > threshold")
  case False
  then have "pa_try e threshold cid s = Some (None, s)" using assms(2) by (simp add: pa_try_def)
  then show thesis using that(1) assms(1) by blast
next
  case True
  have inv: "ppm_inv (pa_ppms s ! cid)" using assms by (simp add: pa_inv_def)
  show thesis
  proof (rule ppm_do_alloc_pages_cases [OF inv, of "pa_order e" "pa_th s"])
    assume "ppm_do_alloc_pages (pa_order e) (pa_ppms s ! cid, pa_th s) = Some (None, pa_ppms s ! cid, pa_th s)"
    then have "pa_try e threshold cid s = Some (None, s)" using True assms(2) by (simp add: pa_try_def)
    then show thesis using that(1) assms(1) by blast
  next
    fix b ppm' assume a: "ppm_do_alloc_pages (pa_order e) (pa_ppms s ! cid, pa_th s) = Some (Some b, ppm', pa_th s)"
      "ppm_inv ppm'" "(b, pa_order e) \<notin> used_blocks (pa_ppms s ! cid)"
      "used_blocks ppm' = insert (b, pa_order e) (used_blocks (pa_ppms s ! cid))"
    have "pa_try e threshold cid s = Some (Some b, s\<lparr>pa_ppms := (pa_ppms s)[cid := ppm']\<rparr>)"
      using a(1) True assms(2) by (simp add: pa_try_def)
    moreover have "pa_inv (s\<lparr>pa_ppms := (pa_ppms s)[cid := ppm']\<rparr>)"
      using assms a(2) set_update_subset_insert [of "pa_ppms s" cid ppm'] by (auto simp: pa_inv_def)
    ultimately show thesis using that(2) a(1,3,4) True assms(2) by fastforce
  qed
qed

definition alloc_post :: "nat \<Rightarrow> ppm_s list \<Rightarrow> (nat \<times> nat) option \<Rightarrow> ppm_s list \<Rightarrow> bool" where
  "alloc_post order ppms r ppms' \<longleftrightarrow> length ppms' = length ppms \<and>
    (case r of
       None \<Rightarrow> ppms' = ppms
     | Some (c, page) \<Rightarrow> c < length ppms \<and>
         (page, order) \<notin> used_blocks (ppms ! c) \<and>
         used_blocks (ppms' ! c) = insert (page, order) (used_blocks (ppms ! c)) \<and>
         (\<exists>th. ppm_do_alloc_pages order (ppms ! c, th) = Some (Some page, ppms' ! c, th)) \<and>
         (\<forall>d. d \<noteq> c \<longrightarrow> ppms' ! d = ppms ! d))"

text \<open>The reserve the policy leaves for callers of higher priority.\<close>

definition pa_reserve :: "uint_t \<Rightarrow> ppm_s \<Rightarrow> uint_t" where
  "pa_reserve flags ppm =
     (if flags AND AF_USR \<noteq> 0 then ppm_kprio_pages_min ppm
      else if flags AND AF_PRIO \<noteq> 0 then ppm_urgent_pages_min ppm else 0)"

definition alloc_above :: "uint_t \<Rightarrow> nat \<Rightarrow> bool \<Rightarrow> ppm_s list \<Rightarrow> (nat \<times> nat) option \<Rightarrow> bool" where
  "alloc_above flags home up ppms r \<longleftrightarrow> (\<forall>c page. r = Some (c, page) \<longrightarrow>
     pa_reserve flags (ppms ! home) < ppm_free_pages_nr (ppms ! c) \<or>
     up \<and> ppm_uprio_pages_min (ppms ! home) < ppm_free_pages_nr (ppms ! c))"

lemma alloc_above_mono: "alloc_above f h False ppms r \<Longrightarrow> alloc_above f h up ppms r"
  unfolding alloc_above_def by blast

lemma pa_choose_threshold:
  "pa_choose e up cid s = (threshold, cid', s') \<Longrightarrow> threshold =
     (if up then ppm_uprio_pages_min (pa_ppms s ! pa_home e) else pa_reserve (pa_flags e) (pa_ppms s ! pa_home e))"
  by (auto simp: pa_choose_def pa_reserve_def Let_def split: if_splits)

lemma ppm_alloc_loop_ok:
  assumes "pa_inv s" "pa_env_ok e (length (pa_ppms s))" "cid < length (pa_ppms s)"
  shows "\<exists>r s'. ppm_alloc_loop e up cntr cid s = Some (r, s') \<and> pa_inv s' \<and>
    alloc_post (pa_order e) (pa_ppms s) r (pa_ppms s') \<and>
    alloc_above (pa_flags e) (pa_home e) up (pa_ppms s) r"
  using assms
proof (induction e up cntr cid s rule: ppm_alloc_loop.induct)
  case (1 e up cid s)
  then show ?case by (simp add: alloc_post_def alloc_above_def)
next
  case (2 e up cntr cid s)
  obtain threshold cid1 s1 where ch: "pa_choose e up cid s = (threshold, cid1, s1)"
    by (cases "pa_choose e up cid s") auto
  have ok: "0 < pa_onln e" "pa_onln e \<le> length (pa_ppms s)" "pa_home e < length (pa_ppms s)"
    "\<And>a b c d x. pa_mem_request e a b c d = Some x \<Longrightarrow> x < length (pa_ppms s)"
    using 2(6) unfolding pa_env_ok_def by blast+
  have s1: "pa_ppms s1 = pa_ppms s" "cid1 < length (pa_ppms s)"
    using pa_choose_frame [OF ch, of "length (pa_ppms s)"] ok 2(7) by auto
  have "pa_inv s1" "cid1 < length (pa_ppms s1)" using 2(5) s1 by (simp_all add: pa_inv_def)
  then show ?case
  proof (rule pa_try_ok [of s1 cid1 e threshold])
    fix page s2
    assume t: "pa_try e threshold cid1 s1 = Some (Some page, s2)" "pa_inv s2"
      "ppm_free_pages_nr (pa_ppms s1 ! cid1) > threshold"
      "(page, pa_order e) \<notin> used_blocks (pa_ppms s1 ! cid1)"
      "length (pa_ppms s2) = length (pa_ppms s1)"
      "used_blocks (pa_ppms s2 ! cid1) = insert (page, pa_order e) (used_blocks (pa_ppms s1 ! cid1))"
      "\<And>c. c \<noteq> cid1 \<Longrightarrow> pa_ppms s2 ! c = pa_ppms s1 ! c"
      "\<exists>th. ppm_do_alloc_pages (pa_order e) (pa_ppms s1 ! cid1, th) = Some (Some page, pa_ppms s2 ! cid1, th)"
    then have "ppm_alloc_loop e up (Suc cntr) cid s = Some (Some (cid1, page), s2)"
      using ch by simp
    moreover have "alloc_above (pa_flags e) (pa_home e) up (pa_ppms s) (Some (cid1, page))"
      using pa_choose_threshold [OF ch] t(3) s1 by (auto simp: alloc_above_def split: if_splits)
    ultimately show ?thesis using t s1 by (simp add: alloc_post_def)
  next
    fix s2
    assume t: "pa_try e threshold cid1 s1 = Some (None, s2)" "pa_inv s2" "pa_ppms s2 = pa_ppms s1"
    have s2: "pa_ppms s2 = pa_ppms s" using t(3) s1 by simp
    have e2: "pa_env_ok e (length (pa_ppms s2))" using 2(6) s2 by simp
    have lt: "(cid1 + 1) mod pa_onln e < length (pa_ppms s2)" "pa_home e < length (pa_ppms s2)"
      using ok s2 by (simp_all add: order_less_le_trans [OF mod_less_divisor])
    note IH = 2(1-4) [OF refl ch [symmetric] refl t(1) refl refl]
    consider "cntr = 0 \<and> up" | "\<not> (cntr = 0 \<and> up)" "pa_seq_next e"
      | "\<not> (cntr = 0 \<and> up)" "\<not> pa_seq_next e" by blast
    then show ?thesis
    proof cases
      case 1
      then show ?thesis using IH(1) [OF 1 t(2) e2 lt(2)] ch t(1) s2 by (auto intro: alloc_above_mono)
    next
      case 2
      then show ?thesis using IH(2) [OF 2 t(2) e2 lt(1)] ch t(1) s2 by auto
    next
      case 3
      show ?thesis
      proof (cases "pa_mem_request e (pa_ppms s2) cid1
          (threshold + push_bit (pa_order e) 1 + threshold div 100) (pa_order e)")
        case None
        then show ?thesis using IH(3) [OF 3 None t(2) e2 lt(1)] ch t(1) s2 3
          by (auto intro: alloc_above_mono)
      next
        case (Some c)
        then have "c < length (pa_ppms s2)" using ok(4) s2 by auto
        then show ?thesis using IH(4) [OF 3 Some t(2) e2] ch t(1) s2 3 Some by auto
      qed
    qed
  qed
qed

section \<open>The free lists are determined by the used blocks\<close>

lemma part_covered: "part n B \<Longrightarrow> k < n \<Longrightarrow> \<exists>b. b \<in> B \<and> covers b k"
  unfolding part_def by blast

lemma no_smaller_free:
  assumes p: "ppm_inv p" and q: "ppm_inv q" and same: "npages p = npages q" "used_blocks p = used_blocks q"
    and jd: "(j, d) \<in> free_blocks q"
  shows "\<not> (\<exists>i c. (i, c) \<in> free_blocks p \<and> c < d \<and> i div 2 ^ d = j div 2 ^ d)"
proof
  assume ex: "\<exists>i c. (i, c) \<in> free_blocks p \<and> c < d \<and> i div 2 ^ d = j div 2 ^ d"
  note pc = p [unfolded ppm_inv_def] and qc = q [unfolded ppm_inv_def]
  note pp = ppm_coreD(3) [OF pc, unfolded Un_empty_right] and qp = ppm_coreD(3) [OF qc, unfolded Un_empty_right]
  define c where "c = (LEAST c. \<exists>i. (i, c) \<in> free_blocks p \<and> c < d \<and> i div 2 ^ d = j div 2 ^ d)"
  have "\<exists>i. (i, c) \<in> free_blocks p \<and> c < d \<and> i div 2 ^ d = j div 2 ^ d"
    unfolding c_def by (rule LeastI_ex) (use ex in blast)
  then obtain i where i: "(i, c) \<in> free_blocks p" "c < d" "i div 2 ^ d = j div 2 ^ d" by blast
  have min: "c \<le> e" if "(b, e) \<in> free_blocks p" "e < d" "b div 2 ^ d = j div 2 ^ d" for b e
    unfolding c_def by (rule Least_le) (use that in blast)
  have d10: "d < PPM_MAX_ORDER" using jd by (simp add: free_blocks_def)
  define b where "b = i XOR 2 ^ c"
  have ic: "(i, c) \<in> free_blocks p \<union> used_blocks p" using i(1) by simp
  have al: "2 ^ c dvd i" by (rule part_aligned [OF pp ic])
  have "(2::nat) ^ Suc c dvd 2 ^ PPM_LAST_ORDER" using i(2) d10 by (intro le_imp_power_dvd) simp
  then have "2 ^ Suc c dvd npages p" using ppm_coreD(2) [OF pc] dvd_trans by blast
  then obtain e where e: "b < npages p" "e \<le> c" "(b, e) \<in> free_blocks p \<union> used_blocks p"
    using part_buddy [OF pp ic] unfolding b_def by blast
  have "b div 2 ^ Suc c = i div 2 ^ Suc c"
  proof (rule buddy_halves [OF al])
    fix m assume m: "i = m + 2 ^ c" "i XOR 2 ^ c = m" "2 ^ Suc c dvd m"
    then show ?thesis
      using covers_iff [OF m(3), of i] by (simp add: b_def covers_def)
  next
    assume m: "i XOR 2 ^ c = i + 2 ^ c" "2 ^ Suc c dvd i"
    then show ?thesis
      using covers_iff [OF m(2), of b] by (simp add: b_def covers_def)
  qed
  then have "b div 2 ^ d = i div 2 ^ d" by (rule div_power_coarser) (use i(2) in simp)
  then have bj: "b div 2 ^ d = j div 2 ^ d" using i(3) by simp
  have jal: "2 ^ d dvd j" by (rule part_aligned [OF qp]) (use jd in simp)
  have "(b, e) \<notin> used_blocks q"
  proof
    assume u: "(b, e) \<in> used_blocks q"
    have "(b, e) = (j, d)"
      by (rule part_unique [OF qp, of _ _ b]) (use u jd bj covers_iff [OF jal] in \<open>auto simp: covers_def [of "(b, e)"]\<close>)
    then show False using e(2) i(2) by simp
  qed
  then have bf: "(b, e) \<in> free_blocks p" using e(3) same by simp
  then have "e = c" using min [OF bf _ bj] e(2) i(2) by simp
  then have "b \<in> set (fl p c)" "i \<in> set (fl p c)" "c < PPM_LAST_ORDER"
    using bf i d10 by (simp_all add: free_blocks_def)
  then show False using ppm_core_lists(6) [OF pc, of c i] by (simp add: b_def)
qed

lemma free_blocks_canonical:
  assumes p: "ppm_inv p" and q: "ppm_inv q" and same: "npages p = npages q" "used_blocks p = used_blocks q"
  shows "free_blocks p = free_blocks q"
proof -
  have sub: "free_blocks p \<subseteq> free_blocks q"
    if p: "ppm_inv p" and q: "ppm_inv q" and same: "npages p = npages q" "used_blocks p = used_blocks q" for p q
  proof (rule subrelI)
    fix i c assume ic: "(i, c) \<in> free_blocks p"
    note pp = ppm_coreD(3) [OF p [unfolded ppm_inv_def], unfolded Un_empty_right]
      and qp = ppm_coreD(3) [OF q [unfolded ppm_inv_def], unfolded Un_empty_right]
    have lt: "i < npages q" using part_head_less [OF pp] ic same by auto
    obtain j d where jd: "(j, d) \<in> free_blocks q \<union> used_blocks q" "covers (j, d) i"
      using part_covered [OF qp lt] by auto
    have "(j, d) \<in> free_blocks q"
    proof (rule ccontr)
      assume "(j, d) \<notin> free_blocks q"
      then have u: "(j, d) \<in> used_blocks p" using jd same by simp
      have "(j, d) = (i, c)"
        by (rule part_unique [OF pp, of _ _ i]) (use u ic jd in \<open>auto simp: covers_def\<close>)
      then show False using u ic ppm_core_lists(2) [OF p [unfolded ppm_inv_def]]
        by (auto simp: used_blocks_def)
    qed
    moreover have al: "2 ^ d dvd j" "2 ^ c dvd i"
      using part_aligned [OF qp] part_aligned [OF pp] jd(1) ic by blast+
    moreover have "i div 2 ^ d = j div 2 ^ d" using jd(2) covers_iff [OF al(1)] by simp
    ultimately have "\<not> c < d" using no_smaller_free [OF p q same] ic by blast
    then have "2 ^ d dvd i" using al(2) le_imp_power_dvd [of d c "2::nat"] dvd_trans by (metis not_less)
    then have "j = i" using aligned_block_eq [OF al(1)] jd(2) by (simp add: covers_def)
    moreover have "\<not> d < c"
      using no_smaller_free [OF q p same(1,2) [symmetric] ic] \<open>(j, d) \<in> free_blocks q\<close> \<open>j = i\<close> by blast
    ultimately show "(i, c) \<in> free_blocks q"
      using \<open>\<not> c < d\<close> \<open>(j, d) \<in> free_blocks q\<close> by (simp add: not_less_iff_gr_or_eq)
  qed
  show ?thesis using sub [OF assms] sub [OF q p same(1,2) [symmetric]] by blast
qed

section \<open>The contract of a page allocator\<close>

text \<open>What the object caches expect of the functions they get pages from. \<open>None\<close> of an operation
  is a memory error; the laws exclude it.\<close>

locale page_allocator =
  fixes ok :: "'s \<Rightarrow> bool"
    and owned :: "'s \<Rightarrow> 'p set"
    and alloc :: "'s \<Rightarrow> ('p option \<times> 's) option"
    and dealloc :: "'p \<Rightarrow> 's \<Rightarrow> 's option"
  assumes alloc_safe: "ok s \<Longrightarrow> alloc s \<noteq> None"
    and alloc_None: "ok s \<Longrightarrow> alloc s = Some (None, s') \<Longrightarrow> ok s' \<and> owned s' = owned s"
    and alloc_Some: "ok s \<Longrightarrow> alloc s = Some (Some p, s') \<Longrightarrow>
      ok s' \<and> p \<notin> owned s \<and> owned s' = insert p (owned s)"
    and dealloc_ok: "ok s \<Longrightarrow> p \<in> owned s \<Longrightarrow>
      \<exists>s'. dealloc p s = Some s' \<and> ok s' \<and> owned s' = owned s - {p}"
begin

text \<open>Allocating \<open>n\<close> times gives pairwise different pages, none of them owned before.\<close>

primrec alloc_n :: "nat \<Rightarrow> 's \<Rightarrow> ('p list \<times> 's) option" where
  "alloc_n 0 s = Some ([], s)"
| "alloc_n (Suc n) s =
     (case alloc s of
        Some (Some p, s') \<Rightarrow> map_option (\<lambda>(ps, s''). (p # ps, s'')) (alloc_n n s')
      | Some (None, s') \<Rightarrow> Some ([], s')
      | None \<Rightarrow> None)"

lemma alloc_n_distinct:
  "ok s \<Longrightarrow> \<exists>ps s'. alloc_n n s = Some (ps, s') \<and> ok s' \<and> distinct ps \<and>
     set ps \<inter> owned s = {} \<and> owned s' = owned s \<union> set ps"
proof (induction n arbitrary: s)
  case 0
  then show ?case by simp
next
  case (Suc n)
  then obtain r s1 where a: "alloc s = Some (r, s1)" using alloc_safe by fastforce
  show ?case
  proof (cases r)
    case None
    then show ?thesis using a alloc_None [OF Suc.prems] by simp
  next
    case (Some p)
    then have 1: "ok s1" "p \<notin> owned s" "owned s1 = insert p (owned s)"
      using alloc_Some [OF Suc.prems] a by auto
    then show ?thesis using Suc.IH [OF 1(1)] a Some by auto
  qed
qed

lemma alloc_dealloc:
  "ok s \<Longrightarrow> alloc s = Some (Some p, s') \<Longrightarrow>
   \<exists>s''. dealloc p s' = Some s'' \<and> ok s'' \<and> owned s'' = owned s"
  using alloc_Some [of s p s'] dealloc_ok [of s' p] by (metis Diff_insert_absorb insertI1)

end

text \<open>The buddy allocator provides it for every order: a page is owned when it heads a used block
  of that order with one reference.\<close>

definition ppm_owned :: "nat \<Rightarrow> ppm_s \<times> threads \<Rightarrow> nat set" where
  "ppm_owned order = (\<lambda>(ppm, th). {i. (i, order) \<in> used_blocks ppm \<and> pg_count (ppm_pages_tbl ppm ! i) = 1})"

definition ppm_ok :: "ppm_s \<times> threads \<Rightarrow> bool" where
  "ppm_ok = (\<lambda>(ppm, th). ppm_inv ppm)"

definition ppm_dealloc :: "nat \<Rightarrow> ppm_s \<times> threads \<Rightarrow> (ppm_s \<times> threads) option" where
  "ppm_dealloc page = (\<lambda>(ppm, th). map_option (\<lambda>ppm. (ppm, th)) (ppm_free_pages_op page ppm))"

lemma ppm_split_frame:
  "ppm_split b order cur ppm = Some ppm' \<Longrightarrow>
     erase_order ppm' = erase_order ppm \<and> ppm_free_pages_nr ppm' = ppm_free_pages_nr ppm"
proof (induction cur arbitrary: ppm)
  case (Suc c)
  show ?case
  proof (cases "Suc c > order")
    case True
    then obtain ppm1 where l: "link_page c (b + 2 ^ c) (upd_page (b + 2 ^ c) (\<lambda>p. p\<lparr>pg_order := c\<rparr>) ppm) = Some ppm1"
      and sp: "ppm_split b order c ppm1 = Some ppm'"
      using Suc.prems by (auto simp: Let_def split: if_splits option.splits)
    show ?thesis using Suc.IH [OF sp] link_page_frame(1) [OF l] link_page_fields(2) [OF l]
      by (simp add: erase_order_upd)
  next
    case False
    then show ?thesis using Suc.prems by simp
  qed
qed simp

lemma erase_order_eq_fields:
  assumes "erase_order ppm' = erase_order ppm"
  shows "npages ppm' = npages ppm"
    and "j < npages ppm \<Longrightarrow> pg_count (ppm_pages_tbl ppm' ! j) = pg_count (ppm_pages_tbl ppm ! j)"
proof -
  show n: "npages ppm' = npages ppm"
    using arg_cong [OF assms, of length] by (simp add: erase_order_def)
  show "pg_count (ppm_pages_tbl ppm' ! j) = pg_count (ppm_pages_tbl ppm ! j)" if "j < npages ppm"
    using erase_order_fields(2) [of j ppm] erase_order_fields(2) [of j ppm'] that n assms by simp
qed

lemma ppm_do_alloc_pages_counts:
  assumes "ppm_do_alloc_pages order (ppm, th) = Some (Some b, ppm', th')"
  shows "j < npages ppm \<Longrightarrow> j \<noteq> b \<Longrightarrow> pg_count (ppm_pages_tbl ppm' ! j) = pg_count (ppm_pages_tbl ppm ! j)"
    and "ppm_free_pages_nr ppm' = ppm_free_pages_nr ppm - 2 ^ order"
proof -
  obtain cur ppm1 ppm2 f where f: "find_order order ppm = Some cur"
    and u: "unlink_page b ppm = Some ppm1"
    and sp: "ppm_split b order cur (pages_nr_add cur (-1) (ppm1\<lparr>ppm_free_pages_nr :=
        ppm_free_pages_nr ppm1 - push_bit order 1\<rparr>)) = Some ppm2"
    and r: "ppm' = upd_page b (\<lambda>_. f) ppm2"
    using assms by (auto simp: ppm_do_alloc_pages_def Let_def split: option.splits prod.splits if_splits)
  have "erase_order ppm2 = erase_order ppm"
    using ppm_split_frame [OF sp] unlink_page_fields(1) [OF u] by (simp add: erase_order_def)
  note e = erase_order_eq_fields [OF this]
  show "j < npages ppm \<Longrightarrow> j \<noteq> b \<Longrightarrow> pg_count (ppm_pages_tbl ppm' ! j) = pg_count (ppm_pages_tbl ppm ! j)"
    using e r by (simp add: upd_page_nth)
  show "ppm_free_pages_nr ppm' = ppm_free_pages_nr ppm - 2 ^ order"
    using ppm_split_frame [OF sp] unlink_page_fields(2) [OF u] r by (simp add: push_bit_eq_mult)
qed

lemma ppm_free_pages_op_counts:
  assumes "ppm_inv ppm" "(i, c) \<in> used_blocks ppm" "pg_count (ppm_pages_tbl ppm ! i) = 1"
    and "ppm_free_pages_op i ppm = Some ppm'" "j < npages ppm" "j \<noteq> i"
  shows "pg_count (ppm_pages_tbl ppm' ! j) = pg_count (ppm_pages_tbl ppm ! j)"
proof -
  define ppm1 where "ppm1 = upd_page i (\<lambda>_. (ppm_pages_tbl ppm ! i)\<lparr>pg_count := 0\<rparr>) ppm"
  have f: "ppm_free_pages_nolock i c ppm1 = Some ppm'"
    using assms(2-4) by (simp add: ppm_free_pages_op_def page_refcount_down_def used_blocks_def ppm1_def)
  note fr = ppm_free_pages_nolock_frame(1) [OF f]
  have n: "npages ppm' = npages ppm" "npages ppm1 = npages ppm"
    using arg_cong [OF fr, of length] by (simp_all add: erase_order_def ppm1_def)
  have "pg_count (ppm_pages_tbl ppm' ! j) = pg_count (erase_order ppm' ! j)"
    using erase_order_fields(2) [of j ppm'] n assms(5) by simp
  also have "\<dots> = pg_count (erase_order ppm1 ! j)" using fr assms(6) by simp
  also have "\<dots> = pg_count (ppm_pages_tbl ppm ! j)"
    using erase_order_fields(2) [of j ppm1] n assms(5,6) by (simp add: ppm1_def upd_page_nth)
  finally show ?thesis .
qed

interpretation pgs: page_allocator ppm_ok "ppm_owned order" "ppm_do_alloc_pages order" ppm_dealloc
  for order
proof
  fix s :: "ppm_s \<times> threads"
  obtain ppm th where s: "s = (ppm, th)" by (cases s) auto
  assume "ppm_ok s"
  then have inv: "ppm_inv ppm" by (simp add: ppm_ok_def s)
  note part = ppm_coreD(3) [OF inv [unfolded ppm_inv_def], unfolded Un_empty_right]
  have lt: "(i, order) \<in> used_blocks ppm \<Longrightarrow> i < npages ppm" for i by (simp add: used_blocks_def)
  show "ppm_do_alloc_pages order s \<noteq> None"
    by (rule ppm_do_alloc_pages_cases [OF inv, of order th]) (auto simp: s)
  show "ppm_ok s' \<and> ppm_owned order s' = ppm_owned order s"
    if "ppm_do_alloc_pages order s = Some (None, s')" for s'
    using that inv by (rule_tac ppm_do_alloc_pages_cases [OF inv, of order th]) (auto simp: s ppm_ok_def)
  show "ppm_ok s' \<and> p \<notin> ppm_owned order s \<and> ppm_owned order s' = insert p (ppm_owned order s)"
    if a: "ppm_do_alloc_pages order s = Some (Some p, s')" for p s'
  proof (rule ppm_do_alloc_pages_cases [OF inv, of order th])
    fix b ppm' assume b: "ppm_do_alloc_pages order (ppm, th) = Some (Some b, ppm', th)" "ppm_inv ppm'"
      "(b, order) \<notin> used_blocks ppm" "used_blocks ppm' = insert (b, order) (used_blocks ppm)"
      "pg_count (ppm_pages_tbl ppm' ! b) = 1"
    have "(i, order) \<in> used_blocks ppm \<Longrightarrow>
        pg_count (ppm_pages_tbl ppm' ! i) = pg_count (ppm_pages_tbl ppm ! i)" for i
      using ppm_do_alloc_pages_counts(1) [OF b(1), of i] lt b(3) by metis
    then show ?thesis using a b s by (auto simp: ppm_ok_def ppm_owned_def)
  qed (use a s in simp)
  show "\<exists>s'. ppm_dealloc p s = Some s' \<and> ppm_ok s' \<and> ppm_owned order s' = ppm_owned order s - {p}"
    if "p \<in> ppm_owned order s" for p
  proof -
    have p: "(p, order) \<in> used_blocks ppm" "pg_count (ppm_pages_tbl ppm ! p) = 1"
      using that by (simp_all add: ppm_owned_def s)
    obtain ppm' where f: "ppm_free_pages_op p ppm = Some ppm'" "ppm_inv ppm'"
      "used_blocks ppm' = used_blocks ppm - {(p, order)}"
      using ppm_free_pages_last [OF inv p] by blast
    have "(i, order) \<in> used_blocks ppm \<Longrightarrow> i \<noteq> p \<Longrightarrow>
        pg_count (ppm_pages_tbl ppm' ! i) = pg_count (ppm_pages_tbl ppm ! i)" for i
      using ppm_free_pages_op_counts [OF inv p f(1), of i] lt by blast
    then show ?thesis using f s by (auto simp: ppm_dealloc_def ppm_ok_def ppm_owned_def)
  qed
qed

section \<open>Properties\<close>

lemma used_blocks_disjoint:
  assumes "ppm_inv ppm" "(i, c) \<in> used_blocks ppm" "(b, d) \<in> used_blocks ppm" "(i, c) \<noteq> (b, d)"
  shows "{i..<i + 2 ^ c} \<inter> {b..<b + 2 ^ d} = {}"
proof -
  note pt = ppm_coreD(3) [OF assms(1) [unfolded ppm_inv_def], unfolded Un_empty_right]
  have "k \<notin> {i..<i + 2 ^ c} \<inter> {b..<b + 2 ^ d}" for k
    using part_unique [OF pt, of "(i, c)" "(b, d)" k] assms(2-4) by (auto simp: covers_def)
  then show ?thesis by blast
qed

lemma ppm_inv_total: "ppm_inv ppm \<Longrightarrow> ppm_free_pages_nr ppm = of_nat (free_total ppm)"
  using ppm_coreD(5) [of "{}" 0 ppm] by (simp add: ppm_inv_def)

text \<open>A cluster of 512 pages that is one free block.\<close>

definition demo_page :: page_s where
  "demo_page = \<lparr>pg_state = PGFREE, pg_flags = 0, pg_cid = 0, pg_order = 0,
     pg_wait_queue = \<lparr>wq_addr = 4, wq_name = ''Page'', wq_state = 0, wq_root = []\<rparr>,
     pg_index = 0, pg_mapper = 0, pg_private = 0, pg_count = 0\<rparr>"

definition demo_ppm :: ppm_s where
  "demo_ppm = \<lparr>ppm_ppn_start = 0, ppm_vaddr_begin = 0, ppm_vaddr_start = 0,
     ppm_free_pages = replicate 9 \<lparr>bl_root = [], bl_pages_nr = 0\<rparr> @ [\<lparr>bl_root = [0], bl_pages_nr = 1\<rparr>],
     ppm_pages_tbl = (demo_page\<lparr>pg_order := 9\<rparr>) # replicate 511 demo_page,
     ppm_pages_nr = 512, ppm_free_pages_nr = 512, ppm_uprio_pages_min = 409,
     ppm_kprio_pages_min = 76, ppm_urgent_pages_min = 25, ppm_begin = 0, ppm_wait_tbl = []\<rparr>"

definition demo_th :: threads where
  "demo_th = \<lparr>th_queue = (\<lambda>_. 0), th_woken = []\<rparr>"

lemma demo_fl: "c < PPM_MAX_ORDER \<Longrightarrow> fl demo_ppm c = (if c = 9 then [0] else [])"
  by (auto simp: fl_def demo_ppm_def nth_append)

lemma demo_tbl: "i < 512 \<Longrightarrow> ppm_pages_tbl demo_ppm ! i = (if i = 0 then demo_page\<lparr>pg_order := 9\<rparr> else demo_page)"
  by (cases i) (simp_all add: demo_ppm_def)

lemma demo_blocks: "free_blocks demo_ppm = {(0, 9)}" "used_blocks demo_ppm = {}"
proof -
  show "free_blocks demo_ppm = {(0, 9)}"
    by (auto simp: free_blocks_def demo_fl)
  have n: "npages demo_ppm = 512" by (simp add: demo_ppm_def)
  show "used_blocks demo_ppm = {}"
    by (auto simp: used_blocks_def n demo_tbl demo_page_def)
qed

lemma demo_inv: "ppm_inv demo_ppm"
  unfolding ppm_inv_def
proof (rule ppm_coreI)
  have n: "npages demo_ppm = 512" by (simp add: demo_ppm_def)
  show "part (npages demo_ppm) (free_blocks demo_ppm \<union> used_blocks demo_ppm \<union> {})"
    by (auto simp: n demo_blocks part_def covers_def)
  show "pg_state (ppm_pages_tbl demo_ppm ! i) = PGFREE \<and> pg_order (ppm_pages_tbl demo_ppm ! i) = c"
    if "(i, c) \<in> free_blocks demo_ppm" for i c
    using that by (simp add: demo_blocks demo_tbl) (simp add: demo_page_def)
  show "pg_count (ppm_pages_tbl demo_ppm ! i) = 0" if "i < npages demo_ppm" for i
    using that by (simp add: n demo_tbl demo_page_def)
  show "bl_pages_nr (ppm_free_pages demo_ppm ! c) = of_nat (length (fl demo_ppm c))"
    if "c < PPM_MAX_ORDER" for c
    using that by (simp add: demo_fl) (auto simp: demo_ppm_def nth_append)
  have "free_total demo_ppm = (\<Sum>c<PPM_MAX_ORDER. if c = 9 then 512 else 0)"
    unfolding free_total_def by (intro sum.cong) (simp_all add: demo_fl)
  then show "ppm_free_pages_nr demo_ppm = of_nat (free_total demo_ppm) + 0"
    by (simp add: demo_ppm_def)
qed (simp_all add: demo_blocks demo_fl, simp_all add: demo_ppm_def)

text \<open>C1. Under the invariant, \<^verbatim>\<open>ppm_do_alloc_pages\<close> touches no memory outside its tables and
  keeps the invariant. It fails only when every list of the requested or a larger order is empty;
  otherwise it returns an aligned block inside the page range that overlaps no block in use, with one
  reference, and the free page counter goes down by exactly the size of the block.\<close>

theorem ppm_alloc_correct:
  assumes "ppm_inv ppm"
  shows "\<exists>r ppm'. ppm_do_alloc_pages order (ppm, th) = Some (r, ppm', th) \<and> ppm_inv ppm' \<and>
    (case r of
       None \<Rightarrow> ppm' = ppm \<and> (\<forall>c. order \<le> c \<and> c < PPM_MAX_ORDER \<longrightarrow> fl ppm c = [])
     | Some b \<Rightarrow> used_blocks ppm' = insert (b, order) (used_blocks ppm) \<and>
         2 ^ order dvd b \<and> b + 2 ^ order \<le> npages ppm \<and>
         (\<forall>(i, c)\<in>used_blocks ppm. {i..<i + 2 ^ c} \<inter> {b..<b + 2 ^ order} = {}) \<and>
         pg_count (ppm_pages_tbl ppm' ! b) = 1 \<and>
         ppm_free_pages_nr ppm' = ppm_free_pages_nr ppm - 2 ^ order)"
proof (rule ppm_do_alloc_pages_cases [OF assms, of order th])
  assume "ppm_do_alloc_pages order (ppm, th) = Some (None, ppm, th)"
    "\<forall>c. order \<le> c \<and> c < PPM_MAX_ORDER \<longrightarrow> fl ppm c = []"
  then show ?thesis using assms by auto
next
  fix b ppm' assume b: "ppm_do_alloc_pages order (ppm, th) = Some (Some b, ppm', th)" "ppm_inv ppm'"
    "(b, order) \<notin> used_blocks ppm" "used_blocks ppm' = insert (b, order) (used_blocks ppm)"
    "pg_count (ppm_pages_tbl ppm' ! b) = 1" "npages ppm' = npages ppm"
  note pt = ppm_coreD(3) [OF b(2) [unfolded ppm_inv_def], unfolded Un_empty_right]
  have u: "(b, order) \<in> free_blocks ppm' \<union> used_blocks ppm'" using b(4) by simp
  have "{i..<i + 2 ^ c} \<inter> {b..<b + 2 ^ order} = {}" if "(i, c) \<in> used_blocks ppm" for i c
    using used_blocks_disjoint [OF b(2), of i c b order] that b(3,4) by auto
  then have "\<forall>(i, c)\<in>used_blocks ppm. {i..<i + 2 ^ c} \<inter> {b..<b + 2 ^ order} = {}" by blast
  then show ?thesis
    using b part_aligned [OF pt u] part_le [OF pt u] ppm_do_alloc_pages_counts(2) [OF b(1)] by auto
qed

theorem ppm_alloc_correct_witness:
  "\<exists>b ppm'. ppm_do_alloc_pages 3 (demo_ppm, demo_th) = Some (Some b, ppm', demo_th) \<and>
     ppm_inv ppm' \<and> used_blocks ppm' = {(b, 3)} \<and> 8 dvd b"
proof -
  obtain r ppm' where r: "ppm_do_alloc_pages 3 (demo_ppm, demo_th) = Some (r, ppm', demo_th)" "ppm_inv ppm'"
    "case r of None \<Rightarrow> ppm' = demo_ppm \<and> (\<forall>c. 3 \<le> c \<and> c < PPM_MAX_ORDER \<longrightarrow> fl demo_ppm c = [])
     | Some b \<Rightarrow> used_blocks ppm' = insert (b, 3) (used_blocks demo_ppm) \<and> 2 ^ 3 dvd b \<and>
         b + 2 ^ 3 \<le> npages demo_ppm \<and>
         (\<forall>(i, c)\<in>used_blocks demo_ppm. {i..<i + 2 ^ c} \<inter> {b..<b + 2 ^ 3} = {}) \<and>
         pg_count (ppm_pages_tbl ppm' ! b) = 1 \<and> ppm_free_pages_nr ppm' = ppm_free_pages_nr demo_ppm - 2 ^ 3"
    using ppm_alloc_correct [OF demo_inv, of 3 demo_th] by blast
  show ?thesis
  proof (cases r)
    case None
    then show ?thesis using r(3) demo_fl [of 9] by auto
  next
    case (Some b)
    then show ?thesis using r by (auto simp: demo_blocks)
  qed
qed

text \<open>C2. Dropping the last reference of a used block returns exactly that block: the call is memory
  safe, keeps the invariant (in particular leaves no two free buddies unmerged), and the free page
  counter goes up by the size of the block; with more references it only counts down.\<close>

theorem ppm_free_correct:
  assumes "ppm_inv ppm" and "(i, c) \<in> used_blocks ppm" and "pg_count (ppm_pages_tbl ppm ! i) \<noteq> 0"
  shows "\<exists>ppm'. ppm_free_pages_op i ppm = Some ppm' \<and> ppm_inv ppm' \<and>
    (if pg_count (ppm_pages_tbl ppm ! i) = 1
     then used_blocks ppm' = used_blocks ppm - {(i, c)} \<and>
          ppm_free_pages_nr ppm' = ppm_free_pages_nr ppm + 2 ^ c \<and>
          (\<forall>k\<in>{i..<i + 2 ^ c}. \<exists>b\<in>free_blocks ppm'. covers b k)
     else used_blocks ppm' = used_blocks ppm \<and> ppm_free_pages_nr ppm' = ppm_free_pages_nr ppm \<and>
          pg_count (ppm_pages_tbl ppm' ! i) = pg_count (ppm_pages_tbl ppm ! i) - 1)"
proof (cases "pg_count (ppm_pages_tbl ppm ! i) = 1")
  case True
  obtain ppm' where f: "ppm_free_pages_op i ppm = Some ppm'" "ppm_inv ppm'"
    "used_blocks ppm' = used_blocks ppm - {(i, c)}" "npages ppm' = npages ppm"
    using ppm_free_pages_last [OF assms(1,2) True] by blast
  have "ppm_free_pages_nolock i c (upd_page i (\<lambda>_. (ppm_pages_tbl ppm ! i)\<lparr>pg_count := 0\<rparr>) ppm) = Some ppm'"
    using f(1) True assms(2) by (simp add: ppm_free_pages_op_def page_refcount_down_def used_blocks_def)
  then have nr: "ppm_free_pages_nr ppm' = ppm_free_pages_nr ppm + 2 ^ c"
    using ppm_free_pages_nolock_frame(3) by fastforce
  note pt = ppm_coreD(3) [OF assms(1) [unfolded ppm_inv_def], unfolded Un_empty_right]
    and pt' = ppm_coreD(3) [OF f(2) [unfolded ppm_inv_def], unfolded Un_empty_right]
  have "\<exists>b\<in>free_blocks ppm'. covers b k" if k: "k \<in> {i..<i + 2 ^ c}" for k
  proof -
    have lt: "k < npages ppm'" using part_le [OF pt, of i c] assms(2) k f(4) by auto
    obtain b where b: "b \<in> free_blocks ppm' \<union> used_blocks ppm'" "covers b k"
      using part_covered [OF pt' lt] by blast
    have "b \<notin> used_blocks ppm'"
      using part_unique [OF pt, of b "(i, c)" k] b(2) f(3) assms(2) k by (auto simp: covers_def)
    then show ?thesis using b by blast
  qed
  then show ?thesis using f nr True by auto
next
  case False
  then have "pg_count (ppm_pages_tbl ppm ! i) > 1"
    using assms(3) by unat_arith
  from ppm_free_pages_shared [OF assms(1,2) this] False assms(2) show ?thesis
    by (auto simp: upd_page_nth used_blocks_def)
qed

theorem ppm_free_correct_witness:
  "\<exists>b ppm'. (b, 3) \<in> used_blocks ppm' \<and> (\<exists>ppm''. ppm_free_pages_op b ppm' = Some ppm'' \<and> ppm_inv ppm'' \<and>
     used_blocks ppm'' = {})"
proof (rule ppm_do_alloc_pages_cases [OF demo_inv, of 3 demo_th])
  assume "\<forall>c. 3 \<le> c \<and> c < PPM_MAX_ORDER \<longrightarrow> fl demo_ppm c = []"
  then show ?thesis using demo_fl [of 9] by auto
next
  fix b ppm' assume "ppm_inv ppm'" "used_blocks ppm' = insert (b, 3) (used_blocks demo_ppm)"
    "pg_count (ppm_pages_tbl ppm' ! b) = 1"
  then show ?thesis
    using ppm_free_correct [of ppm' b 3] by (auto simp: demo_blocks)
qed

text \<open>C3. The free lists are determined by what is in use: freeing a freshly allocated block gives back
  exactly the free blocks there were before the allocation, whatever splitting and merging happened.\<close>

theorem ppm_alloc_free_roundtrip:
  assumes "ppm_inv ppm" and "ppm_do_alloc_pages order (ppm, th) = Some (Some b, ppm', th')"
  shows "\<exists>ppm''. ppm_free_pages_op b ppm' = Some ppm'' \<and> ppm_inv ppm'' \<and>
    free_blocks ppm'' = free_blocks ppm \<and> used_blocks ppm'' = used_blocks ppm \<and>
    ppm_free_pages_nr ppm'' = ppm_free_pages_nr ppm"
proof (rule ppm_do_alloc_pages_cases [OF assms(1), of order th])
  fix b2 ppm2 assume a: "ppm_do_alloc_pages order (ppm, th) = Some (Some b2, ppm2, th)" "ppm_inv ppm2"
    "(b2, order) \<notin> used_blocks ppm" "used_blocks ppm2 = insert (b2, order) (used_blocks ppm)"
    "pg_count (ppm_pages_tbl ppm2 ! b2) = 1" "npages ppm2 = npages ppm"
  then have eq: "b2 = b" "ppm2 = ppm'" using assms(2) by simp_all
  obtain ppm'' where f: "ppm_free_pages_op b ppm' = Some ppm''" "ppm_inv ppm''"
    "used_blocks ppm'' = used_blocks ppm' - {(b, order)}" "npages ppm'' = npages ppm'"
    using ppm_free_pages_last [of ppm' b order] a eq by auto
  have same: "used_blocks ppm'' = used_blocks ppm" "npages ppm'' = npages ppm"
    using f(3,4) a(3,4,6) eq by auto
  have fb: "free_blocks ppm'' = free_blocks ppm"
    by (rule free_blocks_canonical [OF f(2) assms(1) same(2,1)])
  have "length (fl ppm'' c) = length (fl ppm c)" if c: "c < PPM_MAX_ORDER" for c
  proof -
    have "set (fl ppm'' c) = {x. (x, c) \<in> free_blocks ppm''}" "set (fl ppm c) = {x. (x, c) \<in> free_blocks ppm}"
      using c by (simp_all add: free_blocks_def)
    then have "card (set (fl ppm'' c)) = card (set (fl ppm c))" using fb by simp
    then show ?thesis
      using ppm_core_lists(1) [OF f(2) [unfolded ppm_inv_def] c]
        ppm_core_lists(1) [OF assms(1) [unfolded ppm_inv_def] c] by (simp add: distinct_card)
  qed
  then have "free_total ppm'' = free_total ppm" by (simp add: free_total_def)
  then show ?thesis using f same fb ppm_inv_total [OF f(2)] ppm_inv_total [OF assms(1)] by simp
qed (use assms(2) in simp)

theorem ppm_alloc_free_roundtrip_witness:
  "\<exists>b ppm' ppm''. ppm_do_alloc_pages 0 (demo_ppm, demo_th) = Some (Some b, ppm', demo_th) \<and>
     ppm_free_pages_op b ppm' = Some ppm'' \<and> free_blocks ppm'' = {(0, 9)}"
proof (rule ppm_do_alloc_pages_cases [OF demo_inv, of 0 demo_th])
  assume "\<forall>c. 0 \<le> c \<and> c < PPM_MAX_ORDER \<longrightarrow> fl demo_ppm c = []"
  then show ?thesis using demo_fl [of 9] by auto
next
  fix b ppm' assume a: "ppm_do_alloc_pages 0 (demo_ppm, demo_th) = Some (Some b, ppm', demo_th)"
  obtain ppm'' where "ppm_free_pages_op b ppm' = Some ppm''" "free_blocks ppm'' = free_blocks demo_ppm"
    using ppm_alloc_free_roundtrip [OF demo_inv a] by auto
  then show ?thesis using a demo_blocks(1) by auto
qed

text \<open>C4. \<^verbatim>\<open>ppm_init\<close>. For a memory of a multiple of 512 pages whose reservations lie inside it, initialisation is memory safe,
  terminates and establishes the invariant. The pages in use afterwards are exactly the reserved ones, each as a block of its own: the
  first pages, which hold the kernel image and the table of descriptors, and the pages of the range that the boot information
  reserves. A page lies in a free block exactly when it is not reserved.\<close>

theorem ppm_init_correct:
  assumes n: "n = unat (drop_bit PMM_PAGE_SHIFT (limit - base))" "2 ^ PPM_LAST_ORDER dvd n"
    and range: "bi_reserved_start info \<le> bi_reserved_end info" "unat (bi_reserved_end info) + 0x1000 \<le> 2 ^ 32"
    and R: "R = boot_reserved info (drop_bit PMM_PAGE_SHIFT (limit - base)) vaddr_begin vaddr_start
       (ppm\<lparr>ppm_vaddr_begin := vaddr_begin, ppm_ppn_start := drop_bit PMM_PAGE_SHIFT base\<rparr>)" "R \<subseteq> {..<n}"
  shows "\<exists>ppm'. ppm_init mem ppm base limit vaddr_begin vaddr_start info = Some ppm' \<and>
    ppm_inv ppm' \<and> npages ppm' = n \<and> used_blocks ppm' = (\<lambda>i. (i, 0)) ` R \<and>
    (\<forall>i<n. i \<notin> R \<longleftrightarrow> (\<exists>(b, c)\<in>free_blocks ppm'. b \<le> i \<and> i < b + 2 ^ c))"
proof -
  obtain ppm' where p: "ppm_init mem ppm base limit vaddr_begin vaddr_start info = Some ppm'"
    "ppm_inv ppm'" "npages ppm' = n" "used_blocks ppm' = (\<lambda>i. (i, 0)) ` R"
    using ppm_init_ok [OF n range R(2) [unfolded R(1)], of mem] unfolding R(1) by blast
  then show ?thesis using unused_page_free [OF p(2,4)] by auto
qed

theorem ppm_init_correct_witness:
  "\<exists>ppm'. ppm_init (\<lambda>_. demo_page) demo_ppm 0 0x200000 0x80000000 0x80010000
       \<lparr>bi_local_cluster_id = 0, bi_boot_cluster_id = 0, bi_reserved_start = 0x20000, bi_reserved_end = 0x22000\<rparr>
     = Some ppm' \<and> ppm_inv ppm' \<and> npages ppm' = 512 \<and> (0x21, 0) \<in> used_blocks ppm' \<and> (\<exists>(b, c)\<in>free_blocks ppm'. b \<le> 0x100 \<and> 0x100 < b + 2 ^ c)"
proof -
  have n: "512 = unat (drop_bit PMM_PAGE_SHIFT ((0x200000::uint_t) - 0))" by simp
  define info where "info = \<lparr>bi_local_cluster_id = 0, bi_boot_cluster_id = 0,
    bi_reserved_start = (0x20000::uint_t), bi_reserved_end = 0x22000\<rparr>"
  define R where "R = boot_reserved info (drop_bit PMM_PAGE_SHIFT (0x200000 - 0)) 0x80000000 0x80010000
       (demo_ppm\<lparr>ppm_vaddr_begin := 0x80000000, ppm_ppn_start := drop_bit PMM_PAGE_SHIFT 0\<rparr>)"
  have k: "{f k |k. k < 2} = {f 0, f 1}" for f :: "nat \<Rightarrow> nat" by (auto simp: numeral_2_eq_2 less_Suc_eq)
  have R: "R = {..<boot_reserved_nr (drop_bit PMM_PAGE_SHIFT (0x200000 - 0)) 0x80000000 0x80010000} \<union> {0x20, 0x21}"
    unfolding R_def boot_reserved_def info_def by (simp add: k reserve_index_def ppm_ppn2page_def)
  have nr: "boot_reserved_nr (drop_bit PMM_PAGE_SHIFT (0x200000 - 0)) 0x80000000 0x80010000 \<le> 0x100"
    by (simp add: boot_reserved_nr_def ARROUND_UP_def)
  have sub: "R \<subseteq> {..<512}" "0x21 \<in> R" "0x100 \<notin> R" unfolding R using nr by auto
  have i: "bi_reserved_start info \<le> bi_reserved_end info" "unat (bi_reserved_end info) + 0x1000 \<le> 2 ^ 32" by (simp_all add: info_def)
  obtain ppm' where p: "ppm_init (\<lambda>_. demo_page) demo_ppm 0 0x200000 0x80000000 0x80010000 info = Some ppm'" "ppm_inv ppm'" "npages ppm' = 512"
    "used_blocks ppm' = (\<lambda>i. (i, 0)) ` R" "\<forall>i<512. i \<notin> R \<longleftrightarrow> (\<exists>(b, c)\<in>free_blocks ppm'. b \<le> i \<and> i < b + 2 ^ c)"
    using ppm_init_correct [OF n _ i R_def sub(1), of "\<lambda>_. demo_page"] by auto
  then show ?thesis using sub unfolding info_def by auto
qed

text \<open>C5. The allocation policy over all clusters: \<^verbatim>\<open>ppm_alloc_pages\<close> always terminates, is memory
  safe, changes at most one cluster, and keeps every cluster's invariant. A block it returns was in
  use nowhere, and its cluster had more free pages than the reserve of the home cluster for the
  caller's priority, or than the upper reserve when the caller has the priority attribute.\<close>

theorem ppm_alloc_pages_policy:
  assumes "\<forall>ppm\<in>set (pa_ppms s). ppm_inv ppm"
    and "0 < onln" "onln \<le> length (pa_ppms s)" "cid < length (pa_ppms s)"
    and "\<And>ppms c t k d. mem_request ppms c t k = Some d \<Longrightarrow> d < length (pa_ppms s)"
  shows "\<exists>r s'. ppm_alloc_pages mem_request onln attr_flags cid order flags s = Some (r, s') \<and>
    (\<forall>ppm\<in>set (pa_ppms s'). ppm_inv ppm) \<and> alloc_post order (pa_ppms s) r (pa_ppms s') \<and>
    alloc_above flags cid (flags AND AF_AFFINITY \<noteq> 0 \<and> attr_flags AND PT_ATTR_MEM_PRIO \<noteq> 0) (pa_ppms s) r"
proof -
  define e where "e = \<lparr>pa_onln = onln, pa_home = cid, pa_order = order, pa_flags = flags,
    pa_interleave = (flags AND AF_AFFINITY \<noteq> 0 \<and> (attr_flags AND PT_ATTR_INTERLEAVE_ALL \<noteq> 0 \<or>
                                       attr_flags AND PT_ATTR_INTERLEAVE_SEQ \<noteq> 0)),
    pa_seq_next = (flags AND AF_AFFINITY \<noteq> 0 \<and> attr_flags AND PT_ATTR_MEM_CID_RR \<noteq> 0),
    pa_mem_request = mem_request\<rparr>"
  have "pa_env_ok e (length (pa_ppms s))" using assms(2-5) by (auto simp: pa_env_ok_def e_def)
  moreover have "pa_inv s" using assms(1) by (simp add: pa_inv_def)
  ultimately show ?thesis
    using ppm_alloc_loop_ok [of s e cid] assms(4)
    by (simp add: ppm_alloc_pages_def Let_def e_def pa_inv_def)
qed

theorem ppm_alloc_pages_policy_witness:
  "\<exists>r s'. ppm_alloc_pages (\<lambda>_ _ _ _. Some 1) 2 0 0 2 AF_USR
       \<lparr>pa_ppms = [demo_ppm, demo_ppm], pa_th = demo_th, pa_last_cid = 0\<rparr> = Some (r, s') \<and>
     alloc_post 2 [demo_ppm, demo_ppm] r (pa_ppms s')"
  using ppm_alloc_pages_policy [of "\<lparr>pa_ppms = [demo_ppm, demo_ppm], pa_th = demo_th, pa_last_cid = 0\<rparr>" 2 0
      "\<lambda>_ _ _ _. Some 1" 0 2 AF_USR] demo_inv by auto

lemma unat_page_offset:
  assumes "page < 2 ^ 20"
  shows "unat (of_nat page * PMM_PAGE_SIZE :: uint_t) = page * 4096"
    and "unat (of_nat page :: uint_t) = page"
  using assms by (simp_all add: unat_word_ariths unat_of_nat)

text \<open>The conversions between page descriptors, kernel addresses and physical page numbers are
  inverse to each other for the pages of a region of at most 4 GiB, also when adding the region's base
  wraps around the address space.\<close>

theorem ppm_conversions:
  assumes "page < 2 ^ 20"
  shows "ppm_addr2page ppm (ppm_page2addr ppm page) = page \<and>
    ppm_ppn2page ppm (ppm_page2ppn ppm page) = page \<and>
    ppm_ppn2vma ppm (ppm_page2ppn ppm page) = ppm_page2addr ppm page \<and>
    ppm_vma2ppn ppm (ppm_page2addr ppm page) = ppm_page2ppn ppm page"
proof (intro conjI)
  have d: "drop_bit 12 (of_nat page * PMM_PAGE_SIZE :: uint_t) = of_nat page"
  proof (rule word_unat_eq_iff [THEN iffD2])
    show "unat (drop_bit 12 (of_nat page * PMM_PAGE_SIZE :: uint_t)) = unat (of_nat page :: uint_t)"
      by (simp only: unat_drop_bit_eq unat_page_offset [OF assms]) (simp add: drop_bit_eq_div)
  qed
  show "ppm_addr2page ppm (ppm_page2addr ppm page) = page"
    using d unat_page_offset(2) [OF assms] by (simp add: ppm_addr2page_def ppm_page2addr_def)
  show "ppm_ppn2page ppm (ppm_page2ppn ppm page) = page"
    using unat_page_offset(2) [OF assms] by (simp add: ppm_ppn2page_def ppm_page2ppn_def)
  show "ppm_ppn2vma ppm (ppm_page2ppn ppm page) = ppm_page2addr ppm page"
    by (simp add: ppm_ppn2vma_def ppm_page2ppn_def ppm_page2addr_def push_bit_eq_mult)
  show "ppm_vma2ppn ppm (ppm_page2addr ppm page) = ppm_page2ppn ppm page"
    using d by (simp add: ppm_vma2ppn_def ppm_page2addr_def ppm_page2ppn_def)
qed

theorem ppm_conversions_witness:
  "ppm_addr2page demo_ppm (ppm_page2addr demo_ppm 300) = 300"
  using ppm_conversions [of 300 demo_ppm] by simp

end
