(* ===== verification/KCM.thy ===== *)
theory KCM
  imports PPM
begin

text \<open>
  The object caches (\<^verbatim>\<open>kernel/mm/kcm.c\<close>, \<^verbatim>\<open>kcm.h\<close>): each cache cuts pages into blocks of one
  size. The header of a page (\<^verbatim>\<open>page_info_t\<close>) sits at its start and keeps a bitmap of the free
  blocks; the pages are on one of three lists (active, busy, free).

  Addresses are natural numbers below \<open>2 ^ 32\<close>; a page is known by its virtual frame number, so
  \<^verbatim>\<open>ptr & KCM_PAGE_MASK\<close> is \<open>ptr div 4096\<close>. The cache gets its pages through the function pointers
  \<^verbatim>\<open>page_alloc\<close> and \<^verbatim>\<open>page_free\<close>, which are arguments here; \<open>frame\<close> is the frame number of a
  page descriptor (\<^verbatim>\<open>ppm_page2addr\<close>). What the cache needs of them is the locale
  \<open>page_allocator\<close>, and the properties are stated for the buddy allocator of \<open>PPM\<close>.
  \<open>None\<close> of an operation is an access outside its data.
\<close>

abbreviation KCM_ALIGNE :: nat where "KCM_ALIGNE \<equiv> 64"
abbreviation KCM_PAGE_SIZE :: nat where "KCM_PAGE_SIZE \<equiv> 4096"
abbreviation KCM_PAGE_ACTIVE :: "8 word" where "KCM_PAGE_ACTIVE \<equiv> 1"
abbreviation KCM_PAGE_BUSY :: "8 word" where "KCM_PAGE_BUSY \<equiv> 2"

text \<open>\<^verbatim>\<open>sizeof(page_info_t)\<close>: bitmap 16, two pointers, four bytes, a list entry, a pointer.\<close>

abbreviation SIZEOF_PAGE_INFO :: nat where "SIZEOF_PAGE_INFO \<equiv> 40"

record 'p page_info_t =
  pi_bitmap :: bitmap_t
  pi_blk_tbl :: nat
  pi_kcm :: addr
  pi_current_index :: "8 word"
  pi_refcount :: "8 word"
  pi_flags :: "8 word"
  pi_page :: 'p

record kcm_s =
  kcm_addr :: addr
  kcm_size :: nat
  kcm_blocks_nr :: nat
  kcm_aligne :: nat
  kcm_activelist :: "nat list"
  kcm_busylist :: "nat list"
  kcm_freelist :: "nat list"
  kcm_free_pages_nr :: nat
  kcm_free_pages_min :: nat
  kcm_free_pages_max :: nat
  kcm_busy_pages_nr :: nat
  kcm_active_pages_nr :: nat
  kcm_obj_init :: bool
  kcm_obj_destroy :: bool
  kcm_name :: string

text \<open>A cache, the headers in the pages (whatever is there before they are set up), the state of the
  page allocator, and the calls of the object constructor (\<open>True\<close>) and destructor with the address
  they get.\<close>

record ('p, 's) kcm_sys =
  ks_kcm :: kcm_s
  ks_mem :: "nat \<Rightarrow> 'p page_info_t"
  ks_pg :: 's
  ks_log :: "(bool \<times> nat) list"

definition upd_kcm :: "(kcm_s \<Rightarrow> kcm_s) \<Rightarrow> ('p, 's) kcm_sys \<Rightarrow> ('p, 's) kcm_sys" where
  "upd_kcm f s = s\<lparr>ks_kcm := f (ks_kcm s)\<rparr>"

definition upd_pinfo :: "nat \<Rightarrow> ('p page_info_t \<Rightarrow> 'p page_info_t) \<Rightarrow> ('p, 's) kcm_sys \<Rightarrow> ('p, 's) kcm_sys" where
  "upd_pinfo p f s = s\<lparr>ks_mem := (ks_mem s)(p := f (ks_mem s p))\<rparr>"

text \<open>\<^verbatim>\<open>list_unlink(&pinfo->list)\<close>: the page leaves the list it is on.\<close>

definition unlink_pinfo :: "nat \<Rightarrow> ('p, 's) kcm_sys \<Rightarrow> ('p, 's) kcm_sys" where
  "unlink_pinfo p = upd_kcm (\<lambda>k. k\<lparr>kcm_activelist := remove1 p (kcm_activelist k),
     kcm_busylist := remove1 p (kcm_busylist k), kcm_freelist := remove1 p (kcm_freelist k)\<rparr>)"

section \<open>Blocks of one page\<close>

definition get_block :: "kcm_s \<Rightarrow> 'p page_info_t \<Rightarrow> nat option \<times> 'p page_info_t" where
  "get_block kcm pinfo =
     (let index = bitmap_ffs2 (pi_bitmap pinfo) (unat (pi_current_index pinfo)) 16
      in if unat (pi_current_index pinfo) \<ge> kcm_blocks_nr kcm \<or> index = -1
         then (None, pinfo)
         else (Some (pi_blk_tbl pinfo + nat index * kcm_size kcm),
               pinfo\<lparr>pi_bitmap := bitmap_clear (pi_bitmap pinfo) (nat index),
                     pi_current_index := of_nat (nat index + 1),
                     pi_refcount := pi_refcount pinfo + 1\<rparr>))"

definition put_block :: "nat \<Rightarrow> ('p, 's) kcm_sys \<Rightarrow> ('p, 's) kcm_sys option" where
  "put_block ptr s =
     (let p = ptr div KCM_PAGE_SIZE; kcm = ks_kcm s; pinfo = ks_mem s p;
          index = (ptr - pi_blk_tbl pinfo) div kcm_size kcm
      in if ptr < pi_blk_tbl pinfo \<or> index \<ge> 128 then None
         else
           let s = upd_pinfo p (\<lambda>i. i\<lparr>pi_bitmap := bitmap_set (pi_bitmap i) index,
                     pi_current_index := (if index < unat (pi_current_index i) then of_nat index
                                          else pi_current_index i),
                     pi_refcount := pi_refcount i - 1\<rparr>) s;
               pinfo = ks_mem s p
           in if pi_flags pinfo AND KCM_PAGE_BUSY \<noteq> 0
              then let s = upd_pinfo p (\<lambda>i. i\<lparr>pi_flags := pi_flags i AND NOT KCM_PAGE_BUSY\<rparr>) s;
                       s = unlink_pinfo p s
                   in Some (upd_kcm (\<lambda>k. k\<lparr>kcm_busy_pages_nr := kcm_busy_pages_nr k - 1,
                              kcm_activelist := kcm_activelist k @ [p],
                              kcm_active_pages_nr := kcm_active_pages_nr k + 1\<rparr>) s)
              else if pi_flags pinfo AND KCM_PAGE_ACTIVE = 0 \<and> pi_refcount pinfo = 0
              then let s = unlink_pinfo p s
                   in Some (upd_kcm (\<lambda>k. k\<lparr>kcm_freelist := p # kcm_freelist k,
                              kcm_free_pages_nr := kcm_free_pages_nr k + 1,
                              kcm_active_pages_nr := kcm_active_pages_nr k - 1\<rparr>) s)
              else Some s)"

section \<open>The free list\<close>

definition freelist_populate ::
  "('p \<Rightarrow> nat) \<Rightarrow> ('s \<Rightarrow> ('p option \<times> 's) option) \<Rightarrow> ('p, 's) kcm_sys \<Rightarrow> (error_t \<times> ('p, 's) kcm_sys) option" where
  "freelist_populate frame page_alloc s =
     (case page_alloc (ks_pg s) of
        None \<Rightarrow> None
      | Some (None, pg) \<Rightarrow> Some (-1, s\<lparr>ks_pg := pg\<rparr>)
      | Some (Some page, pg) \<Rightarrow>
          let s = s\<lparr>ks_pg := pg\<rparr>; kcm = ks_kcm s; ptr = frame page;
              blk_tbl = ptr * KCM_PAGE_SIZE
                + unat (ARROUND_UP (of_nat SIZEOF_PAGE_INFO) (of_nat (kcm_aligne kcm)));
              s = upd_pinfo ptr (\<lambda>i. i\<lparr>pi_bitmap := bitmap_set_range (pi_bitmap i) 0 (kcm_blocks_nr kcm),
                    pi_current_index := 0, pi_flags := 0, pi_refcount := 0, pi_blk_tbl := blk_tbl,
                    pi_kcm := kcm_addr kcm, pi_page := page\<rparr>) s;
              s = (if kcm_obj_init kcm
                   then s\<lparr>ks_log := ks_log s @
                          map (\<lambda>i. (True, blk_tbl + kcm_size kcm * i)) [0..<kcm_blocks_nr kcm]\<rparr>
                   else s)
          in Some (0, upd_kcm (\<lambda>k. k\<lparr>kcm_freelist := ptr # kcm_freelist k,
                       kcm_free_pages_nr := kcm_free_pages_nr k + 1\<rparr>) s))"

text \<open>The filling loop. Every round adds one page or leaves the loop, so the number of rounds is
  bounded by the distance to the target.\<close>

fun freelist_fill ::
  "nat \<Rightarrow> ('p \<Rightarrow> nat) \<Rightarrow> ('s \<Rightarrow> ('p option \<times> 's) option) \<Rightarrow> ('p, 's) kcm_sys \<Rightarrow> ('p, 's) kcm_sys option" where
  "freelist_fill 0 frame page_alloc s = Some s"
| "freelist_fill (Suc n) frame page_alloc s =
     (if kcm_free_pages_nr (ks_kcm s) < (kcm_free_pages_min (ks_kcm s) + kcm_free_pages_max (ks_kcm s)) div 2
      then (case freelist_populate frame page_alloc s of
              None \<Rightarrow> None
            | Some (err, s) \<Rightarrow> if err \<noteq> 0 then Some s else freelist_fill n frame page_alloc s)
      else Some s)"

definition freelist_get ::
  "('p \<Rightarrow> nat) \<Rightarrow> ('s \<Rightarrow> ('p option \<times> 's) option) \<Rightarrow> ('p, 's) kcm_sys \<Rightarrow> (nat option \<times> ('p, 's) kcm_sys) option" where
  "freelist_get frame page_alloc s =
     (let kcm = ks_kcm s;
          target = (kcm_free_pages_min kcm + kcm_free_pages_max kcm) div 2
      in case (if kcm_free_pages_nr kcm \<le> kcm_free_pages_min kcm
               then freelist_fill (target - kcm_free_pages_nr kcm) frame page_alloc s
               else Some s) of
           None \<Rightarrow> None
         | Some s \<Rightarrow>
             if kcm_free_pages_nr (ks_kcm s) = 0 then Some (None, s)
             else (case kcm_freelist (ks_kcm s) of
                     [] \<Rightarrow> None
                   | p # _ \<Rightarrow>
                       Some (Some p, upd_kcm (\<lambda>k. k\<lparr>kcm_free_pages_nr := kcm_free_pages_nr k - 1\<rparr>)
                                       (unlink_pinfo p s))))"

text \<open>The release loop; the destructor gets addresses counted from the end of the unaligned header.\<close>

fun release_loop ::
  "nat list \<Rightarrow> ('p \<Rightarrow> 's \<Rightarrow> 's option) \<Rightarrow> ('p, 's) kcm_sys \<Rightarrow> ('p, 's) kcm_sys option" where
  "release_loop [] page_free s = Some s"
| "release_loop (p # items) page_free s =
     (if kcm_free_pages_nr (ks_kcm s) \<le> kcm_free_pages_min (ks_kcm s) then Some s
      else let s = unlink_pinfo p s;
               s = upd_kcm (\<lambda>k. k\<lparr>kcm_free_pages_nr := kcm_free_pages_nr k - 1\<rparr>) s;
               kcm = ks_kcm s; blk_tbl = p * KCM_PAGE_SIZE + SIZEOF_PAGE_INFO;
               s = (if kcm_obj_destroy kcm
                    then s\<lparr>ks_log := ks_log s @
                           map (\<lambda>i. (False, blk_tbl + kcm_size kcm * i)) [0..<kcm_blocks_nr kcm]\<rparr>
                    else s)
           in (case page_free (pi_page (ks_mem s p)) (ks_pg s) of
                 None \<Rightarrow> None
               | Some pg \<Rightarrow> release_loop items page_free (s\<lparr>ks_pg := pg\<rparr>)))"

definition freelist_release ::
  "('p \<Rightarrow> 's \<Rightarrow> 's option) \<Rightarrow> ('p, 's) kcm_sys \<Rightarrow> ('p, 's) kcm_sys option" where
  "freelist_release page_free s = release_loop (kcm_freelist (ks_kcm s)) page_free s"

definition kcm_release ::
  "('p \<Rightarrow> 's \<Rightarrow> 's option) \<Rightarrow> ('p, 's) kcm_sys \<Rightarrow> ('p, 's) kcm_sys option" where
  "kcm_release page_free s = freelist_release page_free s"

section \<open>The active page\<close>

definition compute_active_page ::
  "('p \<Rightarrow> nat) \<Rightarrow> ('s \<Rightarrow> ('p option \<times> 's) option) \<Rightarrow> ('p, 's) kcm_sys \<Rightarrow> (nat \<times> ('p, 's) kcm_sys) option" where
  "compute_active_page frame page_alloc s =
     (case kcm_activelist (ks_kcm s) of
        [] \<Rightarrow> None
      | pinfo # rest \<Rightarrow>
          (case (case rest of
                   [] \<Rightarrow> (case freelist_get frame page_alloc s of
                            None \<Rightarrow> None
                          | Some (None, s) \<Rightarrow> Some (None, s)
                          | Some (Some pinfo_new, s) \<Rightarrow>
                              Some (Some pinfo_new,
                                upd_kcm (\<lambda>k. k\<lparr>kcm_activelist := kcm_activelist k @ [pinfo_new],
                                  kcm_active_pages_nr := kcm_active_pages_nr k + 1\<rparr>) s))
                 | q # _ \<Rightarrow> Some (Some q, s)) of
             None \<Rightarrow> None
           | Some (None, s) \<Rightarrow> Some (pinfo, s)
           | Some (Some pinfo_new, s) \<Rightarrow>
               let s = upd_pinfo pinfo (\<lambda>i. i\<lparr>pi_flags := pi_flags i AND NOT KCM_PAGE_ACTIVE\<rparr>) s;
                   s = unlink_pinfo pinfo s;
                   s = upd_kcm (\<lambda>k. k\<lparr>kcm_active_pages_nr := kcm_active_pages_nr k - 1\<rparr>) s;
                   s = upd_pinfo pinfo (\<lambda>i. i\<lparr>pi_flags := pi_flags i OR KCM_PAGE_BUSY\<rparr>) s;
                   s = upd_kcm (\<lambda>k. k\<lparr>kcm_busylist := pinfo # kcm_busylist k,
                                      kcm_busy_pages_nr := kcm_busy_pages_nr k + 1\<rparr>) s;
                   s = upd_pinfo pinfo_new (\<lambda>i. i\<lparr>pi_flags := pi_flags i OR KCM_PAGE_ACTIVE\<rparr>) s
               in Some (pinfo_new, s)))"

section \<open>The interface\<close>

definition kcm_alloc ::
  "('p \<Rightarrow> nat) \<Rightarrow> ('s \<Rightarrow> ('p option \<times> 's) option) \<Rightarrow> ('p, 's) kcm_sys \<Rightarrow> (nat option \<times> ('p, 's) kcm_sys) option" where
  "kcm_alloc frame page_alloc s =
     (case kcm_activelist (ks_kcm s) of
        [] \<Rightarrow> None
      | pinfo # _ \<Rightarrow>
          (case get_block (ks_kcm s) (ks_mem s pinfo) of
             (Some ptr, i) \<Rightarrow> Some (Some ptr, upd_pinfo pinfo (\<lambda>_. i) s)
           | (None, i) \<Rightarrow>
               (case compute_active_page frame page_alloc (upd_pinfo pinfo (\<lambda>_. i) s) of
                  None \<Rightarrow> None
                | Some (pinfo_new, s) \<Rightarrow>
                    if pinfo_new \<noteq> pinfo
                    then (case get_block (ks_kcm s) (ks_mem s pinfo_new) of
                            (ptr, i) \<Rightarrow> Some (ptr, upd_pinfo pinfo_new (\<lambda>_. i) s))
                    else Some (None, s))))"

text \<open>\<^verbatim>\<open>kcm_free\<close> finds the cache in the page header; the model covers the blocks of one cache.\<close>

definition kcm_free :: "nat \<Rightarrow> ('p, 's) kcm_sys \<Rightarrow> ('p, 's) kcm_sys option" where
  "kcm_free ptr s =
     (if ptr = 0 then Some s
      else if pi_kcm (ks_mem s (ptr div KCM_PAGE_SIZE)) \<noteq> kcm_addr (ks_kcm s) then None
      else put_block ptr s)"

definition kcm_init ::
  "('p \<Rightarrow> nat) \<Rightarrow> ('s \<Rightarrow> ('p option \<times> 's) option) \<Rightarrow> string \<Rightarrow> nat \<Rightarrow> nat \<Rightarrow> nat \<Rightarrow> nat \<Rightarrow> bool \<Rightarrow> bool \<Rightarrow> ('p, 's) kcm_sys \<Rightarrow> (error_t \<times> ('p, 's) kcm_sys) option" where
  "kcm_init frame page_alloc name sz aligne free_pages_min free_pages_max obj_init obj_destroy s =
     (let aligne = (if aligne \<noteq> 0 \<and> aligne < 33 then 32 else KCM_ALIGNE);
          sz = unat (ARROUND_UP (of_nat sz) (of_nat aligne));
          blocks_nr = KCM_PAGE_SIZE div sz;
          remaining = KCM_PAGE_SIZE mod sz;
          blocks_nr = (if remaining \<ge> SIZEOF_PAGE_INFO then blocks_nr else blocks_nr - 1);
          s = upd_kcm (\<lambda>k. k\<lparr>kcm_free_pages_nr := 0, kcm_free_pages_min := free_pages_min,
                kcm_free_pages_max := free_pages_max, kcm_busy_pages_nr := 0,
                kcm_active_pages_nr := 0, kcm_aligne := aligne, kcm_size := sz,
                kcm_blocks_nr := blocks_nr, kcm_name := name, kcm_freelist := [],
                kcm_activelist := [], kcm_busylist := [], kcm_obj_init := obj_init,
                kcm_obj_destroy := obj_destroy\<rparr>) s
      in case freelist_get frame page_alloc s of
           None \<Rightarrow> None
         | Some (None, s) \<Rightarrow> Some (-1, s)
         | Some (Some pinfo, s) \<Rightarrow>
             let s = upd_kcm (\<lambda>k. k\<lparr>kcm_activelist := pinfo # kcm_activelist k\<rparr>) s;
                 s = upd_pinfo pinfo (\<lambda>i. i\<lparr>pi_flags := pi_flags i OR KCM_PAGE_ACTIVE\<rparr>) s
             in Some (0, upd_kcm (\<lambda>k. k\<lparr>kcm_active_pages_nr := kcm_active_pages_nr k + 1\<rparr>) s))"

section \<open>One page\<close>

text \<open>The free blocks of a page, and what holds of the header of a page that belongs to a cache.\<close>

definition avail :: "'p page_info_t \<Rightarrow> nat set" where
  "avail pinfo = {i. i < 128 \<and> bm_bit (pi_bitmap pinfo) i}"

definition clean :: "kcm_s \<Rightarrow> 'p page_info_t \<Rightarrow> bool" where
  "clean kcm pinfo \<longleftrightarrow> length (pi_bitmap pinfo) = 4 \<and> avail pinfo \<subseteq> {..<kcm_blocks_nr kcm}"

definition pinfo_ok :: "kcm_s \<Rightarrow> nat \<Rightarrow> 'p page_info_t \<Rightarrow> bool" where
  "pinfo_ok kcm p pinfo \<longleftrightarrow> clean kcm pinfo \<and> pi_blk_tbl pinfo = p * KCM_PAGE_SIZE + 64 \<and>
     pi_kcm pinfo = kcm_addr kcm \<and> unat (pi_current_index pinfo) \<le> kcm_blocks_nr kcm \<and>
     (\<forall>i\<in>avail pinfo. unat (pi_current_index pinfo) \<le> i) \<and>
     unat (pi_refcount pinfo) + card (avail pinfo) = kcm_blocks_nr kcm"

lemma finite_avail [simp]: "finite (avail pinfo)"
  by (simp add: avail_def)

lemma avail_members: "length (pi_bitmap pinfo) = 4 \<Longrightarrow> avail pinfo = bm.members (pi_bitmap pinfo)"
  by (simp add: avail_def bm.members_def)

lemma unat_inc_8: "unat (w :: 8 word) < 255 \<Longrightarrow> unat (w + 1) = unat w + 1"
  by (simp add: unat_word_ariths)

lemma unat_dec_8: "0 < unat (w :: 8 word) \<Longrightarrow> unat (w - 1) = unat w - 1"
  by (cases "w = 0") (simp_all add: unat_minus_one)

lemma get_block_empty:
  assumes "pinfo_ok kcm p pinfo" "kcm_blocks_nr kcm \<le> 127" "avail pinfo = {}"
  shows "get_block kcm pinfo = (None, pinfo)"
proof -
  have l: "length (pi_bitmap pinfo) = 4" using assms(1) by (simp add: pinfo_ok_def clean_def)
  have "unat (pi_current_index pinfo) \<le> 128" using assms(1,2) by (simp add: pinfo_ok_def)
  then have "bitmap_ffs2 (pi_bitmap pinfo) (unat (pi_current_index pinfo)) 16 = -1"
    using bm.find_none_iff [of "unat (pi_current_index pinfo)" "pi_bitmap pinfo"] l assms(3)
    by (simp add: avail_members [OF l])
  then show ?thesis by (simp add: get_block_def)
qed

lemma get_block_some:
  assumes ok: "pinfo_ok kcm p pinfo" and nb: "kcm_blocks_nr kcm \<le> 127" and ne: "avail pinfo \<noteq> {}"
  obtains i pinfo' where "get_block kcm pinfo = (Some (p * KCM_PAGE_SIZE + 64 + i * kcm_size kcm), pinfo')"
    "i \<in> avail pinfo" "avail pinfo' = avail pinfo - {i}" "pinfo_ok kcm p pinfo'"
    "pi_flags pinfo' = pi_flags pinfo" "pi_page pinfo' = pi_page pinfo"
proof -
  let ?c = "unat (pi_current_index pinfo)"
  have l: "length (pi_bitmap pinfo) = 4" and sub: "avail pinfo \<subseteq> {..<kcm_blocks_nr kcm}"
    and low: "\<And>i. i \<in> avail pinfo \<Longrightarrow> ?c \<le> i"
    and cnt: "unat (pi_refcount pinfo) + card (avail pinfo) = kcm_blocks_nr kcm"
    using ok by (auto simp: pinfo_ok_def clean_def)
  have c: "?c < kcm_blocks_nr kcm" using ne low sub by (meson all_not_in_conv lessThan_iff order_le_less_trans subsetD)
  have f: "first_at (bm_bit (pi_bitmap pinfo)) ?c 128 (bitmap_ffs2 (pi_bitmap pinfo) ?c 16)"
    using bitmap_ffs2_first [of ?c 16] c nb by simp
  have "bitmap_ffs2 (pi_bitmap pinfo) ?c 16 \<noteq> -1"
    using bm.find_none_iff [of ?c "pi_bitmap pinfo"] c nb l low ne by (force simp: avail_members [OF l])
  then obtain i where i: "bitmap_ffs2 (pi_bitmap pinfo) ?c 16 = int i" "?c \<le> i" "i < 128"
    "bm_bit (pi_bitmap pinfo) i" "\<And>k. ?c \<le> k \<Longrightarrow> k < i \<Longrightarrow> \<not> bm_bit (pi_bitmap pinfo) k"
    using f by (intro that [of "nat (bitmap_ffs2 (pi_bitmap pinfo) ?c 16)"]) (auto simp: first_at_def)
  have ia: "i \<in> avail pinfo" using i by (simp add: avail_def)
  then have inb: "i < kcm_blocks_nr kcm" using sub by auto
  define pinfo' where "pinfo' = pinfo\<lparr>pi_bitmap := bitmap_clear (pi_bitmap pinfo) i,
     pi_current_index := of_nat (i + 1), pi_refcount := pi_refcount pinfo + 1\<rparr>"
  have av: "avail pinfo' = avail pinfo - {i}"
    using l by (auto simp: avail_def pinfo'_def bm_bit_clear)
  have ci: "unat (pi_current_index pinfo') = i + 1"
    using inb nb by (simp add: pinfo'_def unat_of_nat del: of_nat_add of_nat_Suc)
  have above: "i + 1 \<le> k" if "k \<in> avail pinfo'" for k
  proof (rule ccontr)
    assume "\<not> i + 1 \<le> k"
    then have "k < i" using that av by force
    then show False using i(5) low that av by (auto simp: avail_def)
  qed
  have "card (avail pinfo) > 0" using ne by (simp add: card_gt_0_iff)
  moreover have "card (avail pinfo') = card (avail pinfo) - 1" using ia by (simp add: av)
  moreover have "unat (pi_refcount pinfo') = unat (pi_refcount pinfo) + 1"
    using cnt nb by (simp add: pinfo'_def unat_inc_8)
  ultimately have rc: "unat (pi_refcount pinfo') + card (avail pinfo') = kcm_blocks_nr kcm"
    using cnt by simp
  have "pinfo_ok kcm p pinfo'"
    using ok ci above rc inb sub av l unfolding pinfo_ok_def clean_def by (auto simp: pinfo'_def)
  moreover have "get_block kcm pinfo = (Some (p * KCM_PAGE_SIZE + 64 + i * kcm_size kcm), pinfo')"
    using i(1) c ok by (simp add: get_block_def pinfo'_def pinfo_ok_def)
  moreover have "pi_flags pinfo' = pi_flags pinfo" "pi_page pinfo' = pi_page pinfo"
    by (simp_all add: pinfo'_def)
  ultimately show thesis using that ia av by blast
qed

text \<open>Giving block \<open>i\<close> back to the header.\<close>

definition give_back :: "nat \<Rightarrow> 'p page_info_t \<Rightarrow> 'p page_info_t" where
  "give_back index i = i\<lparr>pi_bitmap := bitmap_set (pi_bitmap i) index,
     pi_current_index := (if index < unat (pi_current_index i) then of_nat index else pi_current_index i),
     pi_refcount := pi_refcount i - 1\<rparr>"

lemma give_back_ok:
  assumes ok: "pinfo_ok kcm p pinfo" and nb: "kcm_blocks_nr kcm \<le> 127"
    and i: "i < kcm_blocks_nr kcm" "i \<notin> avail pinfo"
  shows "pinfo_ok kcm p (give_back i pinfo)" "avail (give_back i pinfo) = insert i (avail pinfo)"
    "pi_flags (give_back i pinfo) = pi_flags pinfo" "pi_page (give_back i pinfo) = pi_page pinfo"
proof -
  have l: "length (pi_bitmap pinfo) = 4" and sub: "avail pinfo \<subseteq> {..<kcm_blocks_nr kcm}"
    and cnt: "unat (pi_refcount pinfo) + card (avail pinfo) = kcm_blocks_nr kcm"
    using ok by (auto simp: pinfo_ok_def clean_def)
  show av: "avail (give_back i pinfo) = insert i (avail pinfo)"
    using l i nb by (auto simp: avail_def give_back_def bm_bit_set)
  have "card (insert i (avail pinfo)) \<le> card {..<kcm_blocks_nr kcm}"
    using sub i(1) by (intro card_mono) auto
  then have "card (avail pinfo) < kcm_blocks_nr kcm" using i(2) by simp
  then have "unat (pi_refcount pinfo - 1) + card (insert i (avail pinfo)) = kcm_blocks_nr kcm"
    using cnt i(2) by (simp add: unat_dec_8)
  moreover have "unat (of_nat i :: 8 word) = i" using i nb by (simp add: unat_of_nat)
  ultimately show "pinfo_ok kcm p (give_back i pinfo)"
    using ok i sub l av unfolding pinfo_ok_def clean_def by (auto simp: give_back_def)
qed (simp_all add: give_back_def)

section \<open>The cache\<close>

definition kcm_pages :: "kcm_s \<Rightarrow> nat list" where
  "kcm_pages k = kcm_activelist k @ kcm_busylist k @ kcm_freelist k"

definition kcm_conf :: "kcm_s \<Rightarrow> bool" where
  "kcm_conf k \<longleftrightarrow> 0 < kcm_blocks_nr k \<and> kcm_blocks_nr k \<le> 127 \<and> 0 < kcm_size k \<and>
     kcm_blocks_nr k * kcm_size k + 64 \<le> KCM_PAGE_SIZE \<and> (kcm_aligne k = 32 \<or> kcm_aligne k = 64)"

definition kcm_counts :: "kcm_s \<Rightarrow> bool" where
  "kcm_counts k \<longleftrightarrow> distinct (kcm_pages k) \<and>
     kcm_active_pages_nr k = length (kcm_activelist k) \<and>
     kcm_busy_pages_nr k = length (kcm_busylist k) \<and> kcm_free_pages_nr k = length (kcm_freelist k)"

text \<open>The flags and free blocks of the pages on each list; \<open>act\<close> are the active pages after the
  first.\<close>

definition roles :: "(nat \<Rightarrow> 'p page_info_t) \<Rightarrow> nat \<Rightarrow> nat list \<Rightarrow> nat list \<Rightarrow> nat list \<Rightarrow> bool" where
  "roles m nb act busy free \<longleftrightarrow>
     (\<forall>p\<in>set act. pi_flags (m p) = 0 \<and> avail (m p) \<noteq> {}) \<and>
     (\<forall>p\<in>set busy. pi_flags (m p) = KCM_PAGE_BUSY \<and> avail (m p) = {}) \<and>
     (\<forall>p\<in>set free. pi_flags (m p) = 0 \<and> avail (m p) = {..<nb})"

definition pages_ok :: "nat set \<Rightarrow> ('p \<Rightarrow> nat) \<Rightarrow> 'p set \<Rightarrow> ('p, 's) kcm_sys \<Rightarrow> bool" where
  "pages_ok F frame own s \<longleftrightarrow>
     (\<forall>p\<in>F. clean (ks_kcm s) (ks_mem s p)) \<and>
     (\<forall>p\<in>set (kcm_pages (ks_kcm s)). pinfo_ok (ks_kcm s) p (ks_mem s p) \<and>
        frame (pi_page (ks_mem s p)) = p \<and> pi_page (ks_mem s p) \<in> own)"

text \<open>The blocks handed out.\<close>

definition block_addr :: "kcm_s \<Rightarrow> nat \<Rightarrow> nat \<Rightarrow> nat" where
  "block_addr k p i = p * KCM_PAGE_SIZE + 64 + i * kcm_size k"

definition kcm_allocated :: "('p, 's) kcm_sys \<Rightarrow> nat set" where
  "kcm_allocated s = {block_addr (ks_kcm s) p i |p i. p \<in> set (kcm_pages (ks_kcm s)) \<and>
     i < kcm_blocks_nr (ks_kcm s) \<and> i \<notin> avail (ks_mem s p)}"

lemma block_in_page:
  assumes "kcm_conf k" "i < kcm_blocks_nr k"
  shows "block_addr k p i div KCM_PAGE_SIZE = p" "block_addr k p i + kcm_size k \<le> Suc p * KCM_PAGE_SIZE"
    "(block_addr k p i - (p * KCM_PAGE_SIZE + 64)) div kcm_size k = i"
proof -
  have "Suc i * kcm_size k \<le> kcm_blocks_nr k * kcm_size k"
    using assms(2) by (intro mult_le_mono1) simp
  then have le: "i * kcm_size k + kcm_size k + 64 \<le> KCM_PAGE_SIZE" using assms(1) by (simp add: kcm_conf_def)
  have sz: "0 < kcm_size k" using assms(1) by (simp add: kcm_conf_def)
  show "block_addr k p i div KCM_PAGE_SIZE = p"
    using le sz by (intro div_nat_eqI) (simp_all add: block_addr_def)
  show "block_addr k p i + kcm_size k \<le> Suc p * KCM_PAGE_SIZE" using le by (simp add: block_addr_def)
  show "(block_addr k p i - (p * KCM_PAGE_SIZE + 64)) div kcm_size k = i"
    using sz by (simp add: block_addr_def)
qed

lemma block_addr_inj:
  assumes "kcm_conf k" "i < kcm_blocks_nr k" "j < kcm_blocks_nr k" "block_addr k p i = block_addr k q j"
  shows "p = q \<and> i = j"
  using block_in_page(1,3) [OF assms(1,2), of p] block_in_page(1,3) [OF assms(1,3), of q] assms(4) by metis

lemma allocated_iff:
  assumes "kcm_conf (ks_kcm s)" "i < kcm_blocks_nr (ks_kcm s)"
  shows "block_addr (ks_kcm s) p i \<in> kcm_allocated s \<longleftrightarrow>
    p \<in> set (kcm_pages (ks_kcm s)) \<and> i \<notin> avail (ks_mem s p)"
  using assms block_addr_inj [OF assms(1)] unfolding kcm_allocated_def by blast

text \<open>Two blocks handed out do not overlap.\<close>

lemma blocks_disjoint:
  assumes k: "kcm_conf k" and i: "i < kcm_blocks_nr k" and j: "j < kcm_blocks_nr k"
    and ne: "(p, i) \<noteq> (q, j)"
  shows "{block_addr k p i..<block_addr k p i + kcm_size k} \<inter>
    {block_addr k q j..<block_addr k q j + kcm_size k} = {}"
proof (cases "p = q")
  case True
  then consider "Suc i \<le> j" | "Suc j \<le> i" using ne by fastforce
  then show ?thesis
  proof cases
    case 1
    then have "Suc i * kcm_size k \<le> j * kcm_size k" by (rule mult_le_mono1)
    then show ?thesis using True by (auto simp: block_addr_def)
  next
    case 2
    then have "Suc j * kcm_size k \<le> i * kcm_size k" by (rule mult_le_mono1)
    then show ?thesis using True by (auto simp: block_addr_def)
  qed
next
  case False
  have a: "p * KCM_PAGE_SIZE \<le> block_addr k p i" "q * KCM_PAGE_SIZE \<le> block_addr k q j"
    by (simp_all add: block_addr_def)
  note b = block_in_page(2) [OF k i, of p] block_in_page(2) [OF k j, of q]
  consider "Suc p \<le> q" | "Suc q \<le> p" using False by linarith
  then show ?thesis
  proof cases
    case 1
    then have "Suc p * KCM_PAGE_SIZE \<le> q * KCM_PAGE_SIZE" by (rule mult_le_mono1)
    then have "block_addr k p i + kcm_size k \<le> block_addr k q j" using a b by linarith
    then show ?thesis by auto
  next
    case 2
    then have "Suc q * KCM_PAGE_SIZE \<le> p * KCM_PAGE_SIZE" by (rule mult_le_mono1)
    then have "block_addr k q j + kcm_size k \<le> block_addr k p i" using a b by linarith
    then show ?thesis by auto
  qed
qed

text \<open>The invariant of a cache; \<open>own\<close> are the pages the page allocator counts as handed out, and \<open>F\<close> is a set of
  frames, in the cache or not, whose bitmaps have no bit from \<^verbatim>\<open>blocks_nr\<close> on.\<close>

definition kcm_inv :: "nat set \<Rightarrow> ('p \<Rightarrow> nat) \<Rightarrow> 'p set \<Rightarrow> ('p, 's) kcm_sys \<Rightarrow> bool" where
  "kcm_inv F frame own s \<longleftrightarrow> kcm_conf (ks_kcm s) \<and> kcm_counts (ks_kcm s) \<and> pages_ok F frame own s \<and>
     kcm_activelist (ks_kcm s) \<noteq> [] \<and>
     pi_flags (ks_mem s (hd (kcm_activelist (ks_kcm s)))) = KCM_PAGE_ACTIVE \<and>
     roles (ks_mem s) (kcm_blocks_nr (ks_kcm s)) (tl (kcm_activelist (ks_kcm s)))
       (kcm_busylist (ks_kcm s)) (kcm_freelist (ks_kcm s))"

text \<open>Changing the header of one page.\<close>

lemma clean_kcm_cong: "kcm_blocks_nr k = kcm_blocks_nr k' \<Longrightarrow> clean k i = clean k' i"
  by (simp add: clean_def)

lemma pinfo_ok_kcm_cong:
  "kcm_blocks_nr k = kcm_blocks_nr k' \<Longrightarrow> kcm_addr k = kcm_addr k' \<Longrightarrow> pinfo_ok k p i = pinfo_ok k' p i"
  by (simp add: pinfo_ok_def clean_def)

lemma roles_upd:
  assumes "roles m nb act busy free" "p \<notin> set act" "p \<notin> set busy" "p \<notin> set free"
  shows "roles (m(p := i)) nb act busy free"
  using assms by (auto simp: roles_def)

lemma pinfo_ok_flags [simp]:
  "pinfo_ok k p (i\<lparr>pi_flags := f\<rparr>) = pinfo_ok k p i" "avail (i\<lparr>pi_flags := f\<rparr>) = avail i"
  "clean k (i\<lparr>pi_flags := f\<rparr>) = clean k i"
  by (simp_all add: pinfo_ok_def clean_def avail_def)

lemma alloc_from_page:
  assumes inv: "kcm_inv F frame own s" and p: "p = hd (kcm_activelist (ks_kcm s))"
    and ne: "avail (ks_mem s p) \<noteq> {}"
  obtains i pinfo' where "get_block (ks_kcm s) (ks_mem s p) = (Some (block_addr (ks_kcm s) p i), pinfo')"
    "i < kcm_blocks_nr (ks_kcm s)" "block_addr (ks_kcm s) p i \<notin> kcm_allocated s"
    "kcm_inv F frame own (upd_pinfo p (\<lambda>_. pinfo') s)"
    "kcm_allocated (upd_pinfo p (\<lambda>_. pinfo') s) = insert (block_addr (ks_kcm s) p i) (kcm_allocated s)"
proof -
  have conf: "kcm_conf (ks_kcm s)" and po: "pages_ok F frame own s" and act: "kcm_activelist (ks_kcm s) \<noteq> []"
    and cnt: "kcm_counts (ks_kcm s)"
    using inv by (simp_all add: kcm_inv_def)
  have pin: "p \<in> set (kcm_pages (ks_kcm s))" using act p by (simp add: kcm_pages_def)
  have ok: "pinfo_ok (ks_kcm s) p (ks_mem s p)" using po pin by (simp add: pages_ok_def)
  have nb: "kcm_blocks_nr (ks_kcm s) \<le> 127" using conf by (simp add: kcm_conf_def)
  obtain i pinfo' where g: "get_block (ks_kcm s) (ks_mem s p) = (Some (p * KCM_PAGE_SIZE + 64 + i * kcm_size (ks_kcm s)), pinfo')"
    "i \<in> avail (ks_mem s p)" "avail pinfo' = avail (ks_mem s p) - {i}" "pinfo_ok (ks_kcm s) p pinfo'"
    "pi_flags pinfo' = pi_flags (ks_mem s p)" "pi_page pinfo' = pi_page (ks_mem s p)"
    using get_block_some [OF ok nb ne] .
  have i: "i < kcm_blocks_nr (ks_kcm s)" using g(2) ok by (auto simp: pinfo_ok_def clean_def)
  have new: "block_addr (ks_kcm s) p i \<notin> kcm_allocated s" using allocated_iff [OF conf i] g(2) by simp
  obtain rest where al: "kcm_activelist (ks_kcm s) = p # rest" using act p by (cases "kcm_activelist (ks_kcm s)") auto
  have out: "p \<notin> set rest" "p \<notin> set (kcm_busylist (ks_kcm s))" "p \<notin> set (kcm_freelist (ks_kcm s))"
    using cnt al by (auto simp: kcm_counts_def kcm_pages_def)
  have "kcm_inv F frame own (upd_pinfo p (\<lambda>_. pinfo') s)"
    using inv g pin out al roles_upd [of "ks_mem s" "kcm_blocks_nr (ks_kcm s)" rest
        "kcm_busylist (ks_kcm s)" "kcm_freelist (ks_kcm s)" p pinfo']
    by (auto simp: kcm_inv_def upd_pinfo_def pages_ok_def pinfo_ok_def)
  moreover have "kcm_allocated (upd_pinfo p (\<lambda>_. pinfo') s) = insert (block_addr (ks_kcm s) p i) (kcm_allocated s)"
    unfolding kcm_allocated_def upd_pinfo_def using g(2,3) pin i by (auto split: if_splits)
  moreover have "get_block (ks_kcm s) (ks_mem s p) = (Some (block_addr (ks_kcm s) p i), pinfo')"
    using g(1) by (simp add: block_addr_def)
  ultimately show thesis using that i new by blast
qed

text \<open>The head page moves to the busy list when it is full, and its successor becomes the head.\<close>

definition retire_head :: "nat \<Rightarrow> nat \<Rightarrow> ('p, 's) kcm_sys \<Rightarrow> ('p, 's) kcm_sys" where
  "retire_head pinfo pinfo_new s =
     (let s = upd_pinfo pinfo (\<lambda>i. i\<lparr>pi_flags := pi_flags i AND NOT KCM_PAGE_ACTIVE\<rparr>) s;
          s = unlink_pinfo pinfo s;
          s = upd_kcm (\<lambda>k. k\<lparr>kcm_active_pages_nr := kcm_active_pages_nr k - 1\<rparr>) s;
          s = upd_pinfo pinfo (\<lambda>i. i\<lparr>pi_flags := pi_flags i OR KCM_PAGE_BUSY\<rparr>) s;
          s = upd_kcm (\<lambda>k. k\<lparr>kcm_busylist := pinfo # kcm_busylist k,
                             kcm_busy_pages_nr := kcm_busy_pages_nr k + 1\<rparr>) s
      in upd_pinfo pinfo_new (\<lambda>i. i\<lparr>pi_flags := pi_flags i OR KCM_PAGE_ACTIVE\<rparr>) s)"

lemma retire_head_ok:
  assumes inv: "kcm_inv F frame own s" and al: "kcm_activelist (ks_kcm s) = p # q # rest"
    and full: "avail (ks_mem s p) = {}"
  shows "kcm_inv F frame own (retire_head p q s)"
    "kcm_activelist (ks_kcm (retire_head p q s)) = q # rest"
    "kcm_allocated (retire_head p q s) = kcm_allocated s"
    "avail (ks_mem (retire_head p q s) q) \<noteq> {}"
    "kcm_size (ks_kcm (retire_head p q s)) = kcm_size (ks_kcm s)"
    "kcm_blocks_nr (ks_kcm (retire_head p q s)) = kcm_blocks_nr (ks_kcm s)"
    "ks_pg (retire_head p q s) = ks_pg s"
proof -
  let ?k = "ks_kcm s"
  have out: "p \<noteq> q" "p \<notin> set rest" "q \<notin> set rest" "p \<notin> set (kcm_busylist ?k)" "p \<notin> set (kcm_freelist ?k)"
    "q \<notin> set (kcm_busylist ?k)" "q \<notin> set (kcm_freelist ?k)"
    using inv al by (auto simp: kcm_inv_def kcm_counts_def kcm_pages_def)
  have fl: "pi_flags (ks_mem s p) = 1" "pi_flags (ks_mem s q) = 0" "avail (ks_mem s q) \<noteq> {}"
    using inv al by (simp_all add: kcm_inv_def roles_def)
  define s' where "s' = s\<lparr>ks_mem := (ks_mem s)(p := (ks_mem s p)\<lparr>pi_flags := 2\<rparr>, q := (ks_mem s q)\<lparr>pi_flags := 1\<rparr>),
      ks_kcm := ?k\<lparr>kcm_activelist := q # rest, kcm_busylist := p # kcm_busylist ?k,
        kcm_active_pages_nr := kcm_active_pages_nr ?k - 1, kcm_busy_pages_nr := kcm_busy_pages_nr ?k + 1\<rparr>\<rparr>"
  have eq: "retire_head p q s = s'"
    using out al fl by (simp add: retire_head_def s'_def upd_pinfo_def upd_kcm_def unlink_pinfo_def
        remove1_idem fun_upd_twist Let_def)
  have pg: "set (kcm_pages (ks_kcm s')) = set (kcm_pages ?k)"
    using al by (auto simp: s'_def kcm_pages_def)
  have mem: "avail (ks_mem s' r) = avail (ks_mem s r)" "pinfo_ok (ks_kcm s') r (ks_mem s' r) = pinfo_ok ?k r (ks_mem s r)"
    "clean (ks_kcm s') (ks_mem s' r) = clean ?k (ks_mem s r)" "pi_page (ks_mem s' r) = pi_page (ks_mem s r)" for r
    by (auto simp: s'_def pinfo_ok_def clean_def avail_def)
  have "kcm_counts (ks_kcm s')"
    using inv al out by (auto simp: kcm_inv_def kcm_counts_def kcm_pages_def s'_def)
  moreover have "kcm_conf (ks_kcm s')" using inv by (simp add: kcm_inv_def kcm_conf_def s'_def)
  moreover have "pages_ok F frame own s'" using inv by (simp add: kcm_inv_def pages_ok_def pg mem)
  moreover have "roles (ks_mem s') (kcm_blocks_nr (ks_kcm s')) (tl (kcm_activelist (ks_kcm s')))
      (kcm_busylist (ks_kcm s')) (kcm_freelist (ks_kcm s'))"
    using inv al out full unfolding kcm_inv_def roles_def by (auto simp: s'_def)
  ultimately show "kcm_inv F frame own (retire_head p q s)"
    unfolding eq kcm_inv_def by (simp add: s'_def)
  show "kcm_activelist (ks_kcm (retire_head p q s)) = q # rest" by (simp add: eq s'_def)
  show "kcm_allocated (retire_head p q s) = kcm_allocated s"
    unfolding eq kcm_allocated_def pg mem by (simp add: s'_def block_addr_def)
  show "avail (ks_mem (retire_head p q s) q) \<noteq> {}" unfolding eq mem by (rule fl(3))
qed (simp_all add: retire_head_def upd_pinfo_def upd_kcm_def unlink_pinfo_def Let_def)

section \<open>Getting pages\<close>

text \<open>The invariant without the head of the active list, which \<^verbatim>\<open>kcm_init\<close> sets up last.\<close>

definition kcm_base :: "nat set \<Rightarrow> ('p \<Rightarrow> nat) \<Rightarrow> 'p set \<Rightarrow> ('p, 's) kcm_sys \<Rightarrow> bool" where
  "kcm_base F frame own s \<longleftrightarrow> kcm_conf (ks_kcm s) \<and> kcm_counts (ks_kcm s) \<and> pages_ok F frame own s \<and>
     roles (ks_mem s) (kcm_blocks_nr (ks_kcm s)) (tl (kcm_activelist (ks_kcm s)))
       (kcm_busylist (ks_kcm s)) (kcm_freelist (ks_kcm s))"

lemma kcm_inv_base:
  "kcm_inv F frame own s \<longleftrightarrow> kcm_base F frame own s \<and> kcm_activelist (ks_kcm s) \<noteq> [] \<and>
     pi_flags (ks_mem s (hd (kcm_activelist (ks_kcm s)))) = KCM_PAGE_ACTIVE"
  unfolding kcm_inv_def kcm_base_def by blast

text \<open>Only the free list grows.\<close>

definition grow :: "('p, 's) kcm_sys \<Rightarrow> ('p, 's) kcm_sys \<Rightarrow> bool" where
  "grow s s' \<longleftrightarrow>
     (\<exists>fs. ks_kcm s' = (ks_kcm s)\<lparr>kcm_freelist := fs @ kcm_freelist (ks_kcm s),
                          kcm_free_pages_nr := length fs + kcm_free_pages_nr (ks_kcm s)\<rparr>) \<and>
     (\<forall>p\<in>set (kcm_pages (ks_kcm s)). ks_mem s' p = ks_mem s p) \<and>
     kcm_allocated s' = kcm_allocated s"

lemma grow_fields:
  assumes "grow s s'"
  shows "kcm_activelist (ks_kcm s') = kcm_activelist (ks_kcm s)" "kcm_busylist (ks_kcm s') = kcm_busylist (ks_kcm s)"
    "kcm_size (ks_kcm s') = kcm_size (ks_kcm s)" "kcm_blocks_nr (ks_kcm s') = kcm_blocks_nr (ks_kcm s)"
    "kcm_free_pages_min (ks_kcm s') = kcm_free_pages_min (ks_kcm s)"
    "kcm_free_pages_max (ks_kcm s') = kcm_free_pages_max (ks_kcm s)"
    "kcm_addr (ks_kcm s') = kcm_addr (ks_kcm s)"
    "set (kcm_pages (ks_kcm s)) \<subseteq> set (kcm_pages (ks_kcm s'))"
    "kcm_allocated s' = kcm_allocated s"
    "p \<in> set (kcm_pages (ks_kcm s)) \<Longrightarrow> ks_mem s' p = ks_mem s p"
  using assms by (auto simp: grow_def kcm_pages_def)

lemma grow_refl: "grow s s"
  unfolding grow_def by (intro conjI exI [of _ "[]"]) auto

lemma grow_pg: "grow s (s\<lparr>ks_pg := pg\<rparr>)"
  unfolding grow_def by (intro conjI exI [of _ "[]"]) (auto simp: kcm_allocated_def)

lemma grow_trans:
  assumes "grow s s1" "grow s1 s2"
  shows "grow s s2"
proof -
  obtain fs gs where f: "ks_kcm s1 = (ks_kcm s)\<lparr>kcm_freelist := fs @ kcm_freelist (ks_kcm s),
      kcm_free_pages_nr := length fs + kcm_free_pages_nr (ks_kcm s)\<rparr>"
    and g: "ks_kcm s2 = (ks_kcm s1)\<lparr>kcm_freelist := gs @ kcm_freelist (ks_kcm s1),
      kcm_free_pages_nr := length gs + kcm_free_pages_nr (ks_kcm s1)\<rparr>"
    using assms unfolding grow_def by blast
  have "ks_kcm s2 = (ks_kcm s)\<lparr>kcm_freelist := (gs @ fs) @ kcm_freelist (ks_kcm s),
      kcm_free_pages_nr := length (gs @ fs) + kcm_free_pages_nr (ks_kcm s)\<rparr>"
    unfolding g f by simp
  then show ?thesis
    using grow_fields(8,9,10) [OF assms(1)] grow_fields(9,10) [OF assms(2)]
    unfolding grow_def by (intro conjI exI [of _ "gs @ fs"]) auto
qed

lemma in_set_tl: "x \<in> set (tl xs) \<Longrightarrow> x \<in> set xs"
  by (cases xs) auto

lemma header_size: "k = 32 \<or> k = 64 \<Longrightarrow> unat (ARROUND_UP (of_nat SIZEOF_PAGE_INFO) (of_nat k)) = 64"
  by (auto simp: ARROUND_UP_def)

text \<open>What the cache relies on: the contract of its page functions, and that different pages have
  different frames. A page it gets comes from \<open>univ\<close>; \<^verbatim>\<open>freelist_populate\<close> does not clear the bitmap of a new page, so
  the frames of the pages that can still be had must be among the clean ones.\<close>

locale kcm_provider = page_allocator ok owned alloc dealloc
  for ok :: "'s \<Rightarrow> bool" and owned :: "'s \<Rightarrow> 'p set"
    and alloc :: "'s \<Rightarrow> ('p option \<times> 's) option" and dealloc :: "'p \<Rightarrow> 's \<Rightarrow> 's option" +
  fixes frame :: "'p \<Rightarrow> nat"
    and univ :: "'p set"
  assumes alloc_univ: "ok s \<Longrightarrow> alloc s = Some (Some p, s') \<Longrightarrow> p \<in> univ"
    and frame_inj: "ok s \<Longrightarrow> p \<in> owned s \<Longrightarrow> q \<in> owned s \<Longrightarrow> frame p = frame q \<Longrightarrow> p = q"
begin

abbreviation base :: "nat set \<Rightarrow> ('p, 's) kcm_sys \<Rightarrow> bool" where
  "base F s \<equiv> kcm_base F frame (owned (ks_pg s)) s \<and> ok (ks_pg s) \<and> frame ` (univ - owned (ks_pg s)) \<subseteq> F"

lemma populate_ok:
  assumes "base F s"
  shows "\<exists>e s'. freelist_populate frame alloc s = Some (e, s') \<and> base F s' \<and> grow s s' \<and>
    (e = 0 \<longrightarrow> kcm_free_pages_nr (ks_kcm s') = Suc (kcm_free_pages_nr (ks_kcm s))) \<and>
    (e \<noteq> 0 \<longrightarrow> kcm_freelist (ks_kcm s') = kcm_freelist (ks_kcm s) \<and>
       (\<exists>pg. alloc (ks_pg s) = Some (None, pg)))"
proof -
  obtain r pg where a: "alloc (ks_pg s) = Some (r, pg)" using alloc_safe assms by fastforce
  show ?thesis
  proof (cases r)
    case None
    then have "ok pg" "owned pg = owned (ks_pg s)" using alloc_None a assms by blast+
    then have "base F (s\<lparr>ks_pg := pg\<rparr>)" using assms by (simp add: kcm_base_def pages_ok_def)
    then show ?thesis using a None grow_pg [of s pg] by (simp add: freelist_populate_def)
  next
    case (Some page)
    let ?k = "ks_kcm s" and ?q = "frame page"
    have o: "ok pg" "page \<notin> owned (ks_pg s)" "owned pg = insert page (owned (ks_pg s))"
      using alloc_Some a Some assms by blast+
    have conf: "kcm_conf ?k" and cnt: "kcm_counts ?k" and po: "pages_ok F frame (owned (ks_pg s)) s"
      and ro: "roles (ks_mem s) (kcm_blocks_nr ?k) (tl (kcm_activelist ?k)) (kcm_busylist ?k) (kcm_freelist ?k)"
      using assms by (simp_all add: kcm_base_def)
    have new: "?q \<notin> set (kcm_pages ?k)"
      using po o frame_inj [OF o(1), of page] unfolding pages_ok_def by (metis insertCI)
    define i where "i = (ks_mem s ?q)\<lparr>pi_bitmap := bitmap_set_range (pi_bitmap (ks_mem s ?q)) 0 (kcm_blocks_nr ?k),
        pi_current_index := 0, pi_flags := 0, pi_refcount := 0, pi_blk_tbl := ?q * KCM_PAGE_SIZE + 64,
        pi_kcm := kcm_addr ?k, pi_page := page\<rparr>"
    have "?q \<in> F" using assms alloc_univ [OF _ a [unfolded Some]] o(2) by auto
    then have cl: "clean ?k (ks_mem s ?q)" using po by (simp add: pages_ok_def)
    have av: "avail i = {..<kcm_blocks_nr ?k}"
      using cl conf by (auto simp: avail_def i_def clean_def kcm_conf_def bm_bit_set_range)
    have iok: "pinfo_ok ?k ?q i"
      using cl av conf by (simp add: pinfo_ok_def clean_def i_def)
    define k' where "k' = ?k\<lparr>kcm_freelist := ?q # kcm_freelist ?k, kcm_free_pages_nr := kcm_free_pages_nr ?k + 1\<rparr>"
    obtain lg where e: "freelist_populate frame alloc s =
        Some (0, s\<lparr>ks_pg := pg, ks_mem := (ks_mem s)(?q := i), ks_log := lg, ks_kcm := k'\<rparr>)"
      using a Some conf header_size [of "kcm_aligne ?k"]
      by (cases "kcm_obj_init ?k"; cases s)
        (simp_all add: freelist_populate_def upd_pinfo_def upd_kcm_def i_def k'_def kcm_conf_def Let_def)
    define s' where "s' = s\<lparr>ks_pg := pg, ks_mem := (ks_mem s)(?q := i), ks_log := lg, ks_kcm := k'\<rparr>"
    have pgs: "set (kcm_pages k') = insert ?q (set (kcm_pages ?k))" by (auto simp: kcm_pages_def k'_def)
    have "kcm_counts k'" using cnt new by (auto simp: kcm_counts_def kcm_pages_def k'_def)
    moreover have "kcm_conf k'" using conf by (simp add: kcm_conf_def k'_def)
    moreover have "pages_ok F frame (owned pg) s'"
      using po iok new o(3) pinfo_ok_kcm_cong [of k' ?k] clean_kcm_cong [of k' ?k] pgs cl
      by (auto simp: pages_ok_def s'_def k'_def) (auto simp: i_def pinfo_ok_def clean_def)
    moreover have "roles (ks_mem s') (kcm_blocks_nr k') (tl (kcm_activelist k')) (kcm_busylist k') (kcm_freelist k')"
      using ro new av unfolding roles_def s'_def
      by (auto simp: k'_def kcm_pages_def i_def dest: in_set_tl)
    ultimately have "base F s'" using o(1,3) assms by (auto simp: kcm_base_def s'_def)
    moreover have al: "p \<in> set (kcm_pages k') \<and> j < kcm_blocks_nr ?k \<and> j \<notin> avail (ks_mem s' p) \<longleftrightarrow>
        p \<in> set (kcm_pages ?k) \<and> j < kcm_blocks_nr ?k \<and> j \<notin> avail (ks_mem s p)" for p j
      using new av pgs by (cases "p = ?q") (simp_all add: s'_def)
    have ks': "ks_kcm s' = k'" "kcm_blocks_nr k' = kcm_blocks_nr ?k" "block_addr k' = block_addr ?k"
      by (simp_all add: s'_def k'_def block_addr_def fun_eq_iff)
    have "kcm_allocated s' = kcm_allocated s" unfolding kcm_allocated_def ks' al ..
    then have "grow s s'"
      unfolding grow_def using new by (intro conjI exI [of _ "[?q]"]) (auto simp: s'_def k'_def)
    ultimately show ?thesis using e by (simp add: s'_def k'_def)
  qed
qed

end

text \<open>Moving the first free page behind the active pages.\<close>

definition adopt :: "('p, 's) kcm_sys \<Rightarrow> ('p, 's) kcm_sys" where
  "adopt s = upd_kcm (\<lambda>k. k\<lparr>kcm_freelist := tl (kcm_freelist k), kcm_free_pages_nr := kcm_free_pages_nr k - 1,
     kcm_activelist := kcm_activelist k @ [hd (kcm_freelist k)],
     kcm_active_pages_nr := kcm_active_pages_nr k + 1\<rparr>) s"

lemma adopt_fields:
  "ks_mem (adopt s) = ks_mem s" "ks_pg (adopt s) = ks_pg s"
  "kcm_size (ks_kcm (adopt s)) = kcm_size (ks_kcm s)" "kcm_blocks_nr (ks_kcm (adopt s)) = kcm_blocks_nr (ks_kcm s)"
  "kcm_addr (ks_kcm (adopt s)) = kcm_addr (ks_kcm s)"
  "kcm_activelist (ks_kcm (adopt s)) = kcm_activelist (ks_kcm s) @ [hd (kcm_freelist (ks_kcm s))]"
  by (simp_all add: adopt_def upd_kcm_def)

lemma adopt_ok:
  assumes b: "kcm_base F frame own s" and f: "kcm_freelist (ks_kcm s) = q # fs"
  shows "kcm_activelist (ks_kcm s) \<noteq> [] \<Longrightarrow> kcm_base F frame own (adopt s)"
    and "kcm_activelist (ks_kcm s) = [] \<Longrightarrow> kcm_base F frame own (adopt s)"
    and "kcm_allocated (adopt s) = kcm_allocated s" "pi_flags (ks_mem s q) = 0" "avail (ks_mem s q) \<noteq> {}"
proof -
  let ?k = "ks_kcm s" and ?k' = "ks_kcm (adopt s)"
  have conf: "kcm_conf ?k" and cnt: "kcm_counts ?k" and po: "pages_ok F frame own s"
    and ro: "roles (ks_mem s) (kcm_blocks_nr ?k) (tl (kcm_activelist ?k)) (kcm_busylist ?k) (kcm_freelist ?k)"
    using b by (simp_all add: kcm_base_def)
  have pg: "set (kcm_pages ?k') = set (kcm_pages ?k)"
    using f by (auto simp: kcm_pages_def adopt_def upd_kcm_def)
  have "kcm_counts ?k'" using cnt f by (auto simp: kcm_counts_def kcm_pages_def adopt_def upd_kcm_def)
  moreover have "kcm_conf ?k'" using conf by (simp add: kcm_conf_def adopt_def upd_kcm_def)
  moreover have "pages_ok F frame own (adopt s)"
    using po unfolding pages_ok_def pg
    by (simp add: adopt_fields pinfo_ok_kcm_cong [of ?k' ?k] clean_kcm_cong [of ?k' ?k])
  ultimately have 1: "kcm_conf ?k' \<and> kcm_counts ?k' \<and> pages_ok F frame own (adopt s)" by blast
  show fq: "pi_flags (ks_mem s q) = 0" "avail (ks_mem s q) \<noteq> {}"
    using ro f conf by (auto simp: roles_def kcm_conf_def)
  show "kcm_base F frame own (adopt s)" if "kcm_activelist ?k \<noteq> []"
    using 1 that ro f fq unfolding kcm_base_def roles_def
    by (cases "kcm_activelist ?k") (auto simp: adopt_def upd_kcm_def)
  show "kcm_base F frame own (adopt s)" if "kcm_activelist ?k = []"
    using 1 that ro f unfolding kcm_base_def roles_def by (auto simp: adopt_def upd_kcm_def)
  show "kcm_allocated (adopt s) = kcm_allocated s"
    unfolding kcm_allocated_def pg by (simp add: adopt_fields block_addr_def)
qed

context kcm_provider
begin

lemma fill_ok:
  "base F s \<Longrightarrow> \<exists>s'. freelist_fill n frame alloc s = Some s' \<and> base F s' \<and> grow s s' \<and>
    (kcm_freelist (ks_kcm s') = kcm_freelist (ks_kcm s) \<longrightarrow>
      n = 0 \<or> \<not> kcm_free_pages_nr (ks_kcm s) < (kcm_free_pages_min (ks_kcm s) + kcm_free_pages_max (ks_kcm s)) div 2 \<or>
      (\<exists>pg. alloc (ks_pg s) = Some (None, pg)))"
proof (induction n arbitrary: s)
  case 0
  then show ?case by (auto simp: grow_refl)
next
  case (Suc n)
  obtain e s1 where p: "freelist_populate frame alloc s = Some (e, s1)" "base F s1" "grow s s1"
    "e = 0 \<longrightarrow> kcm_free_pages_nr (ks_kcm s1) = Suc (kcm_free_pages_nr (ks_kcm s))"
    "e \<noteq> 0 \<longrightarrow> kcm_freelist (ks_kcm s1) = kcm_freelist (ks_kcm s) \<and> (\<exists>pg. alloc (ks_pg s) = Some (None, pg))"
    using populate_ok [OF Suc.prems] by blast
  show ?case
  proof (cases "kcm_free_pages_nr (ks_kcm s) < (kcm_free_pages_min (ks_kcm s) + kcm_free_pages_max (ks_kcm s)) div 2 \<and> e = 0")
    case False
    then show ?thesis using p Suc.prems by (auto simp: grow_refl)
  next
    case True
    obtain s2 where s2: "freelist_fill n frame alloc s1 = Some s2" "base F s2" "grow s1 s2"
      using Suc.IH [OF p(2)] by blast
    have "kcm_freelist (ks_kcm s2) \<noteq> kcm_freelist (ks_kcm s)"
    proof
      assume eq: "kcm_freelist (ks_kcm s2) = kcm_freelist (ks_kcm s)"
      have "length (kcm_freelist (ks_kcm s1)) \<le> length (kcm_freelist (ks_kcm s2))"
        using s2(3) unfolding grow_def by auto
      moreover have "length (kcm_freelist (ks_kcm s1)) = Suc (length (kcm_freelist (ks_kcm s)))"
        using p(2,4) Suc.prems True by (simp add: kcm_base_def kcm_counts_def)
      ultimately show False using eq by simp
    qed
    then show ?thesis using p True s2 grow_trans [OF p(3) s2(3)] by auto
  qed
qed

text \<open>\<^verbatim>\<open>freelist_get\<close> fails only when the free list is empty and no page could be added.\<close>

lemma freelist_get_ok:
  assumes "base F s"
  obtains s1 where "freelist_get frame alloc s = Some (None, s1)" "base F s1" "grow s s1"
    "kcm_freelist (ks_kcm s1) = []"
    "(kcm_free_pages_min (ks_kcm s) + kcm_free_pages_max (ks_kcm s)) div 2 = 0 \<or> (\<exists>pg. alloc (ks_pg s) = Some (None, pg))"
  | q fs s1 where "freelist_get frame alloc s = Some (Some q,
        upd_kcm (\<lambda>k. k\<lparr>kcm_free_pages_nr := kcm_free_pages_nr k - 1\<rparr>) (unlink_pinfo q s1))"
    "base F s1" "grow s s1" "kcm_freelist (ks_kcm s1) = q # fs"
proof -
  let ?k = "ks_kcm s"
  let ?t = "(kcm_free_pages_min ?k + kcm_free_pages_max ?k) div 2"
  obtain s1 where s1: "(if kcm_free_pages_nr ?k \<le> kcm_free_pages_min ?k
       then freelist_fill (?t - kcm_free_pages_nr ?k) frame alloc s else Some s) = Some s1"
    "base F s1" "grow s s1"
    and none: "kcm_freelist (ks_kcm s1) = [] \<Longrightarrow> ?t = 0 \<or> (\<exists>pg. alloc (ks_pg s) = Some (None, pg))"
  proof (cases "kcm_free_pages_nr ?k \<le> kcm_free_pages_min ?k")
    case True
    obtain s1 where f: "freelist_fill (?t - kcm_free_pages_nr ?k) frame alloc s = Some s1" "base F s1" "grow s s1"
      "kcm_freelist (ks_kcm s1) = kcm_freelist ?k \<longrightarrow> ?t - kcm_free_pages_nr ?k = 0 \<or>
        \<not> kcm_free_pages_nr ?k < ?t \<or> (\<exists>pg. alloc (ks_pg s) = Some (None, pg))"
      using fill_ok [OF assms] by blast
    have "?t = 0 \<or> (\<exists>pg. alloc (ks_pg s) = Some (None, pg))" if e: "kcm_freelist (ks_kcm s1) = []"
    proof -
      have "kcm_freelist ?k = []" using f(3) e unfolding grow_def by auto
      then show ?thesis using f(4) e assms by (auto simp: kcm_base_def kcm_counts_def)
    qed
    then show thesis using that f True by simp
  next
    case False
    have "kcm_freelist ?k \<noteq> []" using False assms by (auto simp: kcm_base_def kcm_counts_def)
    then show thesis using that [of s] False assms by (simp add: grow_refl)
  qed
  have nr: "kcm_free_pages_nr (ks_kcm s1) = length (kcm_freelist (ks_kcm s1))"
    using s1(2) by (simp add: kcm_base_def kcm_counts_def)
  show thesis
  proof (cases "kcm_freelist (ks_kcm s1)")
    case Nil
    then show thesis using that(1) [of s1] s1 nr none by (simp add: freelist_get_def)
  next
    case (Cons q fs)
    then show thesis using that(2) [of q s1 fs] s1 nr by (simp add: freelist_get_def)
  qed
qed

lemma unlink_adopt:
  assumes "base F s1" "kcm_freelist (ks_kcm s1) = q # fs"
  shows "upd_kcm (\<lambda>k. k\<lparr>kcm_activelist := kcm_activelist k @ [q], kcm_active_pages_nr := kcm_active_pages_nr k + 1\<rparr>)
     (upd_kcm (\<lambda>k. k\<lparr>kcm_free_pages_nr := kcm_free_pages_nr k - 1\<rparr>) (unlink_pinfo q s1)) = adopt s1"
proof -
  have "q \<notin> set (kcm_activelist (ks_kcm s1))" "q \<notin> set (kcm_busylist (ks_kcm s1))"
    using assms by (auto simp: kcm_base_def kcm_counts_def kcm_pages_def)
  then show ?thesis
    using assms(2) by (cases s1; cases "ks_kcm s1") (simp add: adopt_def upd_kcm_def unlink_pinfo_def remove1_idem)
qed

end

context kcm_provider
begin

abbreviation cinv :: "nat set \<Rightarrow> ('p, 's) kcm_sys \<Rightarrow> bool" where
  "cinv F s \<equiv> kcm_inv F frame (owned (ks_pg s)) s \<and> ok (ks_pg s) \<and> frame ` (univ - owned (ks_pg s)) \<subseteq> F"

lemma grow_inv:
  assumes "kcm_inv F frame own s" "grow s s1" "kcm_base F frame own1 s1"
  shows "kcm_inv F frame own1 s1"
proof -
  have "hd (kcm_activelist (ks_kcm s)) \<in> set (kcm_pages (ks_kcm s))"
    using assms(1) by (simp add: kcm_inv_def kcm_pages_def)
  then show ?thesis
    using assms grow_fields(1) [OF assms(2)] grow_fields(10) [OF assms(2)]
    by (simp add: kcm_inv_base)
qed

text \<open>A full head page is replaced, or no page can be had.\<close>

lemma compute_active_page_ok:
  assumes inv: "cinv F s" and al: "kcm_activelist (ks_kcm s) = p # rest" and full: "avail (ks_mem s p) = {}"
  obtains s1 where "compute_active_page frame alloc s = Some (p, s1)" "cinv F s1"
    "kcm_allocated s1 = kcm_allocated s" "kcm_size (ks_kcm s1) = kcm_size (ks_kcm s)"
    "(kcm_free_pages_min (ks_kcm s) + kcm_free_pages_max (ks_kcm s)) div 2 = 0 \<or> (\<exists>pg. alloc (ks_pg s) = Some (None, pg))"
  | q s1 where "compute_active_page frame alloc s = Some (q, s1)" "q \<noteq> p" "cinv F s1"
    "hd (kcm_activelist (ks_kcm s1)) = q" "kcm_allocated s1 = kcm_allocated s" "avail (ks_mem s1 q) \<noteq> {}"
    "kcm_size (ks_kcm s1) = kcm_size (ks_kcm s)"
proof (cases rest)
  case (Cons q rest')
  then have al2: "kcm_activelist (ks_kcm s) = p # q # rest'" using al by simp
  note r = retire_head_ok [OF conjunct1 [OF inv] al2 full]
  have "compute_active_page frame alloc s = Some (q, retire_head p q s)"
    using al2 by (simp add: compute_active_page_def retire_head_def Let_def)
  moreover have "q \<noteq> p" using inv al2 by (auto simp: kcm_inv_def kcm_counts_def kcm_pages_def)
  ultimately show thesis using that(2) [of q "retire_head p q s"] r inv by simp
next
  case Nil
  then have al1: "kcm_activelist (ks_kcm s) = [p]" using al by simp
  have b: "base F s" using inv by (simp add: kcm_inv_base)
  show thesis
  proof (rule freelist_get_ok [OF b])
    fix s1
    assume g: "freelist_get frame alloc s = Some (None, s1)" "base F s1" "grow s s1"
      "(kcm_free_pages_min (ks_kcm s) + kcm_free_pages_max (ks_kcm s)) div 2 = 0 \<or> (\<exists>pg. alloc (ks_pg s) = Some (None, pg))"
    have "compute_active_page frame alloc s = Some (p, s1)"
      using al1 g(1) by (simp add: compute_active_page_def)
    then show thesis
      using that(1) [of s1] g(2,4) grow_inv [OF conjunct1 [OF inv] g(3)] grow_fields(3,9) [OF g(3)] by blast
  next
    fix q fs s1
    assume g: "freelist_get frame alloc s = Some (Some q,
        upd_kcm (\<lambda>k. k\<lparr>kcm_free_pages_nr := kcm_free_pages_nr k - 1\<rparr>) (unlink_pinfo q s1))"
      "base F s1" "grow s s1" "kcm_freelist (ks_kcm s1) = q # fs"
    have i1: "kcm_inv F frame (owned (ks_pg s1)) s1" using grow_inv [OF conjunct1 [OF inv] g(3)] g(2) by blast
    have a1: "kcm_activelist (ks_kcm s1) = [p]" using grow_fields(1) [OF g(3)] al1 by simp
    have a2: "kcm_activelist (ks_kcm (adopt s1)) = [p, q]" using a1 g(4) by (simp add: adopt_fields)
    have i2: "kcm_inv F frame (owned (ks_pg s1)) (adopt s1)"
      using i1 a1 a2 adopt_ok(1) [OF conjunct1 [OF g(2)] g(4)] by (simp add: kcm_inv_base adopt_fields)
    have pin: "p \<in> set (kcm_pages (ks_kcm s))" using al by (simp add: kcm_pages_def)
    have full2: "avail (ks_mem (adopt s1) p) = {}"
      using full grow_fields(10) [OF g(3) pin] by (simp add: adopt_fields)
    note r = retire_head_ok [OF i2 a2 full2]
    have "compute_active_page frame alloc s = Some (q, retire_head p q (adopt s1))"
      using al1 g(1) unlink_adopt [OF g(2,4)] by (simp add: compute_active_page_def retire_head_def Let_def)
    moreover have "q \<noteq> p" using i2 a2 by (auto simp: kcm_inv_def kcm_counts_def kcm_pages_def)
    moreover have "ks_pg (retire_head p q (adopt s1)) = ks_pg s1" using r(7) by (simp add: adopt_fields)
    moreover have "kcm_allocated (retire_head p q (adopt s1)) = kcm_allocated s"
      using r(3) adopt_ok(3) [OF conjunct1 [OF g(2)] g(4)] grow_fields(9) [OF g(3)] by simp
    moreover have "kcm_size (ks_kcm (retire_head p q (adopt s1))) = kcm_size (ks_kcm s)"
      using r(5) grow_fields(3) [OF g(3)] by (simp add: adopt_fields)
    ultimately show thesis using that(2) [of q "retire_head p q (adopt s1)"] r(1,2,4) g(2) by simp
  qed
qed

lemma kcm_alloc_ok:
  assumes inv: "cinv F s"
  shows "\<exists>r s'. kcm_alloc frame alloc s = Some (r, s') \<and> cinv F s' \<and>
    kcm_size (ks_kcm s') = kcm_size (ks_kcm s) \<and>
    (case r of
       None \<Rightarrow> kcm_allocated s' = kcm_allocated s \<and>
         ((kcm_free_pages_min (ks_kcm s) + kcm_free_pages_max (ks_kcm s)) div 2 = 0 \<or> (\<exists>pg. alloc (ks_pg s) = Some (None, pg)))
     | Some a \<Rightarrow> a \<notin> kcm_allocated s \<and> kcm_allocated s' = insert a (kcm_allocated s) \<and>
         a mod KCM_PAGE_SIZE \<ge> 64 \<and> a mod KCM_PAGE_SIZE + kcm_size (ks_kcm s) \<le> KCM_PAGE_SIZE)"
proof -
  obtain p rest where al: "kcm_activelist (ks_kcm s) = p # rest"
    using inv by (cases "kcm_activelist (ks_kcm s)") (auto simp: kcm_inv_def)
  then have hd: "p = hd (kcm_activelist (ks_kcm s))" by simp
  have conf: "kcm_conf (ks_kcm s)" and nb: "kcm_blocks_nr (ks_kcm s) \<le> 127"
    using inv by (simp_all add: kcm_inv_def kcm_conf_def)
  have inpage: "64 \<le> block_addr k q i mod KCM_PAGE_SIZE \<and>
      block_addr k q i mod KCM_PAGE_SIZE + kcm_size k \<le> KCM_PAGE_SIZE"
    if "kcm_conf k" "i < kcm_blocks_nr k" for k q i
    using block_in_page(1,2) [OF that, of q] mod_mult_div_eq [of "block_addr k q i" KCM_PAGE_SIZE]
    by (simp add: block_addr_def)
  show ?thesis
  proof (cases "avail (ks_mem s p) = {}")
    case False
    obtain i pinfo' where g: "get_block (ks_kcm s) (ks_mem s p) = (Some (block_addr (ks_kcm s) p i), pinfo')"
      "i < kcm_blocks_nr (ks_kcm s)" "block_addr (ks_kcm s) p i \<notin> kcm_allocated s"
      "kcm_inv F frame (owned (ks_pg s)) (upd_pinfo p (\<lambda>_. pinfo') s)"
      "kcm_allocated (upd_pinfo p (\<lambda>_. pinfo') s) = insert (block_addr (ks_kcm s) p i) (kcm_allocated s)"
      using alloc_from_page [OF conjunct1 [OF inv] hd False] by blast
    have "ks_pg (upd_pinfo p (\<lambda>_. pinfo') s) = ks_pg s" "ks_kcm (upd_pinfo p (\<lambda>_. pinfo') s) = ks_kcm s"
      by (simp_all add: upd_pinfo_def)
    then show ?thesis using g al inv inpage [OF conf g(2)] by (simp add: kcm_alloc_def)
  next
    case True
    have "pinfo_ok (ks_kcm s) p (ks_mem s p)" using inv al by (simp add: kcm_inv_def pages_ok_def kcm_pages_def)
    then have gb: "get_block (ks_kcm s) (ks_mem s p) = (None, ks_mem s p)"
      using get_block_empty nb True by blast
    have same: "upd_pinfo p (\<lambda>_. ks_mem s p) s = s" by (simp add: upd_pinfo_def)
    show ?thesis
    proof (rule compute_active_page_ok [OF inv al True])
      fix s1 assume "compute_active_page frame alloc s = Some (p, s1)" "cinv F s1" "kcm_allocated s1 = kcm_allocated s"
        "kcm_size (ks_kcm s1) = kcm_size (ks_kcm s)"
        "(kcm_free_pages_min (ks_kcm s) + kcm_free_pages_max (ks_kcm s)) div 2 = 0 \<or> (\<exists>pg. alloc (ks_pg s) = Some (None, pg))"
      then show ?thesis using al gb same by (simp add: kcm_alloc_def)
    next
      fix q s1 assume c: "compute_active_page frame alloc s = Some (q, s1)" "q \<noteq> p" "cinv F s1"
        "hd (kcm_activelist (ks_kcm s1)) = q" "kcm_allocated s1 = kcm_allocated s" "avail (ks_mem s1 q) \<noteq> {}"
        "kcm_size (ks_kcm s1) = kcm_size (ks_kcm s)"
      obtain i pinfo' where g: "get_block (ks_kcm s1) (ks_mem s1 q) = (Some (block_addr (ks_kcm s1) q i), pinfo')"
        "i < kcm_blocks_nr (ks_kcm s1)" "block_addr (ks_kcm s1) q i \<notin> kcm_allocated s1"
        "kcm_inv F frame (owned (ks_pg s1)) (upd_pinfo q (\<lambda>_. pinfo') s1)"
        "kcm_allocated (upd_pinfo q (\<lambda>_. pinfo') s1) = insert (block_addr (ks_kcm s1) q i) (kcm_allocated s1)"
        using alloc_from_page [OF conjunct1 [OF c(3)] c(4) [symmetric] c(6)] by blast
      have "ks_pg (upd_pinfo q (\<lambda>_. pinfo') s1) = ks_pg s1" "ks_kcm (upd_pinfo q (\<lambda>_. pinfo') s1) = ks_kcm s1"
        by (simp_all add: upd_pinfo_def)
      moreover have "kcm_conf (ks_kcm s1)" using c(3) by (simp add: kcm_inv_def)
      ultimately show ?thesis using c g al gb same inpage [of "ks_kcm s1" i q] by (simp add: kcm_alloc_def)
    qed
  qed
qed

end

section \<open>Giving blocks back\<close>

lemma put_block_eq:
  assumes ok: "pinfo_ok (ks_kcm s) p (ks_mem s p)" and conf: "kcm_conf (ks_kcm s)" and i: "i < kcm_blocks_nr (ks_kcm s)"
  shows "put_block (block_addr (ks_kcm s) p i) s =
    (let s1 = upd_pinfo p (give_back i) s; pinfo = ks_mem s1 p
     in if pi_flags pinfo AND KCM_PAGE_BUSY \<noteq> 0
        then Some (upd_kcm (\<lambda>k. k\<lparr>kcm_busy_pages_nr := kcm_busy_pages_nr k - 1,
                 kcm_activelist := kcm_activelist k @ [p], kcm_active_pages_nr := kcm_active_pages_nr k + 1\<rparr>)
               (unlink_pinfo p (upd_pinfo p (\<lambda>i. i\<lparr>pi_flags := pi_flags i AND NOT KCM_PAGE_BUSY\<rparr>) s1)))
        else if pi_flags pinfo AND KCM_PAGE_ACTIVE = 0 \<and> pi_refcount pinfo = 0
        then Some (upd_kcm (\<lambda>k. k\<lparr>kcm_freelist := p # kcm_freelist k,
                 kcm_free_pages_nr := kcm_free_pages_nr k + 1, kcm_active_pages_nr := kcm_active_pages_nr k - 1\<rparr>)
               (unlink_pinfo p s1))
        else Some s1)"
proof -
  have b: "pi_blk_tbl (ks_mem s p) = p * KCM_PAGE_SIZE + 64" using ok by (simp add: pinfo_ok_def)
  have "\<not> block_addr (ks_kcm s) p i < pi_blk_tbl (ks_mem s p)" by (simp add: b block_addr_def)
  moreover have "\<not> 128 \<le> i" using i conf by (simp add: kcm_conf_def)
  moreover have idx: "(block_addr (ks_kcm s) p i - pi_blk_tbl (ks_mem s p)) div kcm_size (ks_kcm s) = i"
    using block_in_page(3) [OF conf i] b by simp
  ultimately show ?thesis
    unfolding put_block_def Let_def block_in_page(1) [OF conf i] idx give_back_def [abs_def]
    by (simp only: if_False simp_thms)
qed

text \<open>The three places a page with a block to give back can be: head of the active list or further
  down with blocks left in use; on the busy list; on the active list with its last block.\<close>

lemma give_back_stays:
  assumes inv: "kcm_inv F frame own s" and p: "p \<in> set (kcm_activelist (ks_kcm s))"
    and i: "i < kcm_blocks_nr (ks_kcm s)" "i \<notin> avail (ks_mem s p)"
  shows "kcm_inv F frame own (upd_pinfo p (give_back i) s)"
proof -
  have pin: "p \<in> set (kcm_pages (ks_kcm s))" using p by (simp add: kcm_pages_def)
  have ok: "pinfo_ok (ks_kcm s) p (ks_mem s p)" "kcm_blocks_nr (ks_kcm s) \<le> 127"
    using inv pin by (simp_all add: kcm_inv_def pages_ok_def kcm_conf_def)
  note g = give_back_ok [OF ok i]
  have "p \<notin> set (kcm_busylist (ks_kcm s))" "p \<notin> set (kcm_freelist (ks_kcm s))"
    using inv p by (auto simp: kcm_inv_def kcm_counts_def kcm_pages_def)
  moreover have "clean (ks_kcm s) (give_back i (ks_mem s p))" using g(1) by (simp add: pinfo_ok_def)
  ultimately show ?thesis
    using inv g pin by (auto simp: kcm_inv_def upd_pinfo_def pages_ok_def roles_def)
qed

lemma allocated_image:
  "kcm_allocated s = (\<lambda>(q, j). block_addr (ks_kcm s) q j) `
     {(q, j). q \<in> set (kcm_pages (ks_kcm s)) \<and> j < kcm_blocks_nr (ks_kcm s) \<and> j \<notin> avail (ks_mem s q)}"
  unfolding kcm_allocated_def by (auto simp: image_iff)

lemma allocated_give_back:
  assumes inv: "kcm_inv F frame own s" and p: "p \<in> set (kcm_pages (ks_kcm s))"
    and i: "i < kcm_blocks_nr (ks_kcm s)" "i \<notin> avail (ks_mem s p)"
    and k': "set (kcm_pages k') = set (kcm_pages (ks_kcm s))" "kcm_blocks_nr k' = kcm_blocks_nr (ks_kcm s)"
      "kcm_size k' = kcm_size (ks_kcm s)"
    and m': "\<And>q. avail (m' q) = (if q = p then insert i (avail (ks_mem s p)) else avail (ks_mem s q))"
  shows "kcm_allocated (s\<lparr>ks_kcm := k', ks_mem := m'\<rparr>) = kcm_allocated s - {block_addr (ks_kcm s) p i}"
proof -
  let ?A = "{(q, j). q \<in> set (kcm_pages (ks_kcm s)) \<and> j < kcm_blocks_nr (ks_kcm s) \<and> j \<notin> avail (ks_mem s q)}"
  let ?f = "\<lambda>(q, j). block_addr (ks_kcm s) q j"
  have conf: "kcm_conf (ks_kcm s)" using inv by (simp add: kcm_inv_def)
  have b: "block_addr k' = block_addr (ks_kcm s)" using k'(3) by (simp add: block_addr_def fun_eq_iff)
  have ks: "ks_kcm (s\<lparr>ks_kcm := k', ks_mem := m'\<rparr>) = k'" "ks_mem (s\<lparr>ks_kcm := k', ks_mem := m'\<rparr>) = m'" by simp_all
  have inj: "inj_on ?f ?A" using block_addr_inj [OF conf] by (auto simp: inj_on_def)
  have "{(q, j). q \<in> set (kcm_pages k') \<and> j < kcm_blocks_nr k' \<and> j \<notin> avail (m' q)} = ?A - {(p, i)}"
    using k'(1,2) m' by (auto split: if_splits)
  then have "kcm_allocated (s\<lparr>ks_kcm := k', ks_mem := m'\<rparr>) = ?f ` (?A - {(p, i)})"
    by (simp only: allocated_image ks b)
  also have "\<dots> = ?f ` ?A - ?f ` {(p, i)}"
    using inj p i by (intro inj_on_image_set_diff [OF inj]) auto
  also have "?f ` ?A = kcm_allocated s" by (simp only: allocated_image)
  finally show ?thesis by simp
qed

lemma give_back_busy:
  assumes inv: "kcm_inv F frame own s" and p: "p \<in> set (kcm_busylist (ks_kcm s))"
    and i: "i < kcm_blocks_nr (ks_kcm s)" "i \<notin> avail (ks_mem s p)"
  defines "s' \<equiv> upd_kcm (\<lambda>k. k\<lparr>kcm_busy_pages_nr := kcm_busy_pages_nr k - 1,
         kcm_activelist := kcm_activelist k @ [p], kcm_active_pages_nr := kcm_active_pages_nr k + 1\<rparr>)
       (unlink_pinfo p (upd_pinfo p (\<lambda>i. i\<lparr>pi_flags := pi_flags i AND NOT KCM_PAGE_BUSY\<rparr>)
         (upd_pinfo p (give_back i) s)))"
  shows "kcm_inv F frame own s'" "kcm_allocated s' = kcm_allocated s - {block_addr (ks_kcm s) p i}"
proof -
  let ?k = "ks_kcm s"
  have pin: "p \<in> set (kcm_pages ?k)" using p by (simp add: kcm_pages_def)
  have ok: "pinfo_ok ?k p (ks_mem s p)" "kcm_blocks_nr ?k \<le> 127"
    using inv pin by (simp_all add: kcm_inv_def pages_ok_def kcm_conf_def)
  note g = give_back_ok [OF ok i]
  have out: "p \<notin> set (kcm_activelist ?k)" "p \<notin> set (kcm_freelist ?k)" and di: "distinct (kcm_busylist ?k)"
    using inv p by (auto simp: kcm_inv_def kcm_counts_def kcm_pages_def)
  have fl: "pi_flags (ks_mem s p) = 2" using inv p by (simp add: kcm_inv_def roles_def)
  define k' where "k' = ?k\<lparr>kcm_busylist := remove1 p (kcm_busylist ?k), kcm_busy_pages_nr := kcm_busy_pages_nr ?k - 1,
      kcm_activelist := kcm_activelist ?k @ [p], kcm_active_pages_nr := kcm_active_pages_nr ?k + 1\<rparr>"
  define m' where "m' = (ks_mem s)(p := (give_back i (ks_mem s p))\<lparr>pi_flags := 0\<rparr>)"
  have eq: "s' = s\<lparr>ks_kcm := k', ks_mem := m'\<rparr>"
    using out fl g(3) by (cases s; cases ?k) (simp add: s'_def k'_def m'_def upd_kcm_def upd_pinfo_def
        unlink_pinfo_def remove1_idem Let_def)
  have pg: "set (kcm_pages k') = set (kcm_pages ?k)" using p di by (auto simp: kcm_pages_def k'_def)
  have pos: "0 < length (kcm_busylist ?k)" using p by (auto intro: length_pos_if_in_set)
  have cnt: "kcm_counts k'"
    using inv out p pos by (auto simp: kcm_inv_def kcm_counts_def kcm_pages_def k'_def length_remove1)
  have av: "avail (m' q) = (if q = p then insert i (avail (ks_mem s p)) else avail (ks_mem s q))" for q
    using g(2) by (simp add: m'_def)
  show "kcm_allocated s' = kcm_allocated s - {block_addr ?k p i}"
    unfolding eq by (rule allocated_give_back [OF inv pin i pg _ _ av]) (simp_all add: k'_def)
  have "clean ?k (give_back i (ks_mem s p))" using g(1) by (simp add: pinfo_ok_def)
  then have po: "pages_ok F frame own s'"
    using inv g(1,4) unfolding pages_ok_def eq kcm_inv_def
    by (simp add: pg m'_def pinfo_ok_kcm_cong [of k' ?k] clean_kcm_cong [of k' ?k]) (simp add: k'_def pinfo_ok_def clean_def)
  have hd: "kcm_activelist ?k \<noteq> []" "hd (kcm_activelist ?k) \<noteq> p"
    using inv out(1) by (auto simp: kcm_inv_def)
  have "roles m' (kcm_blocks_nr k') (tl (kcm_activelist k')) (kcm_busylist k') (kcm_freelist k')"
    using inv out hd di g unfolding kcm_inv_def roles_def
    by (auto simp: k'_def m'_def dest: in_set_tl)
  then show "kcm_inv F frame own s'"
    using inv po cnt hd unfolding kcm_inv_def eq by (simp add: kcm_conf_def k'_def m'_def)
qed

lemma give_back_last:
  assumes inv: "kcm_inv F frame own s" and p: "p \<in> set (tl (kcm_activelist (ks_kcm s)))"
    and i: "i < kcm_blocks_nr (ks_kcm s)" "i \<notin> avail (ks_mem s p)"
    and last: "pi_refcount (give_back i (ks_mem s p)) = 0"
  defines "s' \<equiv> upd_kcm (\<lambda>k. k\<lparr>kcm_freelist := p # kcm_freelist k,
         kcm_free_pages_nr := kcm_free_pages_nr k + 1, kcm_active_pages_nr := kcm_active_pages_nr k - 1\<rparr>)
       (unlink_pinfo p (upd_pinfo p (give_back i) s))"
  shows "kcm_inv F frame own s'" "kcm_allocated s' = kcm_allocated s - {block_addr (ks_kcm s) p i}"
proof -
  let ?k = "ks_kcm s"
  obtain h rest where al: "kcm_activelist ?k = h # rest" "p \<in> set rest"
    using p by (cases "kcm_activelist ?k") auto
  have pin: "p \<in> set (kcm_pages ?k)" using al by (simp add: kcm_pages_def)
  have ok: "pinfo_ok ?k p (ks_mem s p)" "kcm_blocks_nr ?k \<le> 127"
    using inv pin by (simp_all add: kcm_inv_def pages_ok_def kcm_conf_def)
  note g = give_back_ok [OF ok i]
  have out: "p \<noteq> h" "p \<notin> set (kcm_busylist ?k)" "p \<notin> set (kcm_freelist ?k)" and di: "distinct rest"
    using inv al by (auto simp: kcm_inv_def kcm_counts_def kcm_pages_def)
  have fl: "pi_flags (ks_mem s p) = 0" using inv al by (simp add: kcm_inv_def roles_def)
  have "card (avail (give_back i (ks_mem s p))) = kcm_blocks_nr ?k"
    using g(1) last by (simp add: pinfo_ok_def)
  moreover have "avail (give_back i (ks_mem s p)) \<subseteq> {..<kcm_blocks_nr ?k}"
    using g(1) by (simp add: pinfo_ok_def clean_def)
  ultimately have all: "avail (give_back i (ks_mem s p)) = {..<kcm_blocks_nr ?k}"
    by (intro card_subset_eq) simp_all
  define k' where "k' = ?k\<lparr>kcm_activelist := h # remove1 p rest, kcm_freelist := p # kcm_freelist ?k,
      kcm_free_pages_nr := kcm_free_pages_nr ?k + 1, kcm_active_pages_nr := kcm_active_pages_nr ?k - 1\<rparr>"
  define m' where "m' = (ks_mem s)(p := give_back i (ks_mem s p))"
  have eq: "s' = s\<lparr>ks_kcm := k', ks_mem := m'\<rparr>"
    using out al by (cases s; cases ?k) (simp add: s'_def k'_def m'_def upd_kcm_def upd_pinfo_def
        unlink_pinfo_def remove1_idem Let_def)
  have pg: "set (kcm_pages k') = set (kcm_pages ?k)" using al di by (auto simp: kcm_pages_def k'_def)
  have pos: "0 < length rest" using al(2) by (auto intro: length_pos_if_in_set)
  have cnt: "kcm_counts k'"
    using inv out al pos by (auto simp: kcm_inv_def kcm_counts_def kcm_pages_def k'_def length_remove1)
  have av: "avail (m' q) = (if q = p then insert i (avail (ks_mem s p)) else avail (ks_mem s q))" for q
    using g(2) by (simp add: m'_def)
  show "kcm_allocated s' = kcm_allocated s - {block_addr ?k p i}"
    unfolding eq by (rule allocated_give_back [OF inv pin i pg _ _ av]) (simp_all add: k'_def)
  have "clean ?k (give_back i (ks_mem s p))" using g(1) by (simp add: pinfo_ok_def)
  then have po: "pages_ok F frame own s'"
    using inv g(1,4) unfolding pages_ok_def eq kcm_inv_def
    by (simp add: pg m'_def pinfo_ok_kcm_cong [of k' ?k] clean_kcm_cong [of k' ?k]) (simp add: k'_def pinfo_ok_def clean_def)
  have "roles m' (kcm_blocks_nr k') (tl (kcm_activelist k')) (kcm_busylist k') (kcm_freelist k')"
    using inv out al di g(3) fl all unfolding kcm_inv_def roles_def by (auto simp: k'_def m'_def)
  then show "kcm_inv F frame own s'"
    using inv po cnt al out unfolding kcm_inv_def eq by (simp add: kcm_conf_def k'_def m'_def)
qed

text \<open>The lists of a cache after a block of page \<open>p\<close> has been given back; \<open>used\<close> says whether the page has other blocks in
  use.\<close>

definition lists_after_free :: "nat \<Rightarrow> bool \<Rightarrow> kcm_s \<Rightarrow> kcm_s \<Rightarrow> bool" where
  "lists_after_free p used k k' \<longleftrightarrow>
     (if p \<in> set (kcm_busylist k)
      then kcm_busylist k' = remove1 p (kcm_busylist k) \<and> kcm_activelist k' = kcm_activelist k @ [p] \<and> kcm_freelist k' = kcm_freelist k
      else if p = hd (kcm_activelist k) \<or> used
      then kcm_busylist k' = kcm_busylist k \<and> kcm_activelist k' = kcm_activelist k \<and> kcm_freelist k' = kcm_freelist k
      else kcm_busylist k' = kcm_busylist k \<and> kcm_activelist k' = remove1 p (kcm_activelist k) \<and> kcm_freelist k' = p # kcm_freelist k)"

lemma page_in_use:
  assumes inv: "kcm_inv F frame own s" and p: "p \<in> set (kcm_pages (ks_kcm s))"
    and i: "i < kcm_blocks_nr (ks_kcm s)" "i \<notin> avail (ks_mem s p)"
  shows "pi_refcount (give_back i (ks_mem s p)) \<noteq> 0 \<longleftrightarrow> (\<exists>b\<in>kcm_allocated s - {block_addr (ks_kcm s) p i}. b div KCM_PAGE_SIZE = p)"
proof -
  let ?k = "ks_kcm s" and ?nb = "kcm_blocks_nr (ks_kcm s)" and ?A = "avail (ks_mem s p)"
  have conf: "kcm_conf ?k" and ok: "pinfo_ok ?k p (ks_mem s p)" and nb: "?nb \<le> 127"
    using inv p by (simp_all add: kcm_inv_def pages_ok_def kcm_conf_def)
  note g = give_back_ok [OF ok nb i]
  have c: "unat (pi_refcount (give_back i (ks_mem s p))) + card (insert i ?A) = ?nb" "insert i ?A \<subseteq> {..<?nb}"
    using g(1) unfolding g(2) [symmetric] by (simp_all add: pinfo_ok_def clean_def)
  have "pi_refcount (give_back i (ks_mem s p)) = 0 \<longleftrightarrow> card (insert i ?A) = card {..<?nb}"
    using c(1) by (metis add_cancel_left_left card_lessThan unat_eq_zero)
  also have "\<dots> \<longleftrightarrow> insert i ?A = {..<?nb}" using card_subset_eq [OF finite_lessThan c(2)] by (metis (no_types))
  finally have r: "pi_refcount (give_back i (ks_mem s p)) \<noteq> 0 \<longleftrightarrow> (\<exists>j<?nb. j \<noteq> i \<and> j \<notin> ?A)" using c(2) by auto
  show ?thesis
  proof
    assume "pi_refcount (give_back i (ks_mem s p)) \<noteq> 0"
    then obtain j where j: "j < ?nb" "j \<noteq> i" "j \<notin> ?A" using r by blast
    have "block_addr ?k p j \<in> kcm_allocated s" unfolding kcm_allocated_def using p j by blast
    moreover have "block_addr ?k p j \<noteq> block_addr ?k p i" using block_addr_inj [OF conf j(1) i(1)] j(2) by blast
    ultimately show "\<exists>b\<in>kcm_allocated s - {block_addr ?k p i}. b div KCM_PAGE_SIZE = p"
      using block_in_page(1) [OF conf j(1), of p] by blast
  next
    assume "\<exists>b\<in>kcm_allocated s - {block_addr ?k p i}. b div KCM_PAGE_SIZE = p"
    then obtain q j where j: "block_addr ?k q j div KCM_PAGE_SIZE = p" "j < ?nb" "j \<notin> avail (ks_mem s q)" "block_addr ?k q j \<noteq> block_addr ?k p i"
      unfolding kcm_allocated_def by blast
    then have "q = p" using block_in_page(1) [OF conf j(2), of q] by simp
    then show "pi_refcount (give_back i (ks_mem s p)) \<noteq> 0" using r j by auto
  qed
qed

lemma kcm_free_ok:
  assumes inv: "kcm_inv F frame own s" and a: "a \<in> kcm_allocated s"
  shows "\<exists>s'. kcm_free a s = Some s' \<and> kcm_inv F frame own s' \<and> kcm_allocated s' = kcm_allocated s - {a} \<and>
    ks_pg s' = ks_pg s \<and>
    lists_after_free (a div KCM_PAGE_SIZE) (\<exists>b\<in>kcm_allocated s - {a}. b div KCM_PAGE_SIZE = a div KCM_PAGE_SIZE) (ks_kcm s) (ks_kcm s')"
proof -
  let ?k = "ks_kcm s"
  obtain p i where p: "a = block_addr ?k p i" "p \<in> set (kcm_pages ?k)" "i < kcm_blocks_nr ?k" "i \<notin> avail (ks_mem s p)"
    using a by (auto simp: kcm_allocated_def)
  have conf: "kcm_conf ?k" and ok: "pinfo_ok ?k p (ks_mem s p)" and nb: "kcm_blocks_nr ?k \<le> 127"
    using inv p(2) by (simp_all add: kcm_inv_def pages_ok_def kcm_conf_def)
  note g = give_back_ok [OF ok nb p(3,4)]
  have fr: "kcm_free a s = put_block (block_addr ?k p i) s"
    using p(1) ok block_in_page(1) [OF conf p(3), of p] by (simp add: kcm_free_def pinfo_ok_def block_addr_def)
  have notfree: "p \<notin> set (kcm_freelist ?k)"
    using inv p(3,4) by (auto simp: kcm_inv_def roles_def)
  obtain h rest where al: "kcm_activelist ?k = h # rest" using inv by (cases "kcm_activelist ?k") (auto simp: kcm_inv_def)
  have memp: "ks_mem (upd_pinfo p (give_back i) s) p = give_back i (ks_mem s p)" by (simp add: upd_pinfo_def)
  have al': "kcm_allocated (upd_pinfo p (give_back i) s) = kcm_allocated s - {a}"
    using allocated_give_back [OF inv p(2-4), of ?k "(ks_mem s)(p := give_back i (ks_mem s p))"] g(2) p(1)
    by (simp add: upd_pinfo_def)
  have ap: "a div KCM_PAGE_SIZE = p" using block_in_page(1) [OF conf p(3), of p] p(1) by simp
  note use = page_in_use [OF inv p(2-4), folded p(1), symmetric]
  have out: "h \<notin> set (kcm_busylist ?k)" "p \<in> set rest \<Longrightarrow> p \<noteq> h" "p \<in> set rest \<Longrightarrow> p \<notin> set (kcm_busylist ?k)"
    "p \<in> set (kcm_busylist ?k) \<Longrightarrow> p \<notin> set (kcm_activelist ?k)"
    using inv al by (auto simp: kcm_inv_def kcm_counts_def kcm_pages_def)
  consider "p \<in> set (kcm_busylist ?k)" | "p = h" | "p \<in> set rest"
    using p(2) notfree al by (auto simp: kcm_pages_def)
  then show ?thesis
  proof cases
    case 1
    then have "pi_flags (ks_mem s p) = 2" using inv by (simp add: kcm_inv_def roles_def)
    then show ?thesis
      using give_back_busy [OF inv 1 p(3,4)] g(3) fr p(1) out(4) notfree 1 unfolding put_block_eq [OF ok conf p(3)] Let_def memp ap
      by (simp add: upd_kcm_def unlink_pinfo_def upd_pinfo_def lists_after_free_def remove1_idem)
  next
    case 2
    then have "pi_flags (ks_mem s p) = 1" using inv al by (simp add: kcm_inv_def)
    then show ?thesis
      using give_back_stays [OF inv _ p(3,4)] al 2 al' g(3) fr out(1) unfolding put_block_eq [OF ok conf p(3)] Let_def memp ap
      by (simp add: upd_pinfo_def lists_after_free_def)
  next
    case 3
    then have fl: "pi_flags (ks_mem s p) = 0" using inv al by (simp add: kcm_inv_def roles_def)
    show ?thesis
    proof (cases "pi_refcount (give_back i (ks_mem s p)) = 0")
      case True
      have "p \<in> set (tl (kcm_activelist ?k))" using 3 al by simp
      from give_back_last [OF inv this p(3,4) True] show ?thesis
        using fl g(3) fr p(1) True al out(2,3) 3 notfree unfolding put_block_eq [OF ok conf p(3)] Let_def memp ap use
        by (simp add: upd_kcm_def unlink_pinfo_def upd_pinfo_def lists_after_free_def remove1_idem)
    next
      case False
      then show ?thesis
        using give_back_stays [OF inv _ p(3,4)] al 3 al' g(3) fr fl out(2,3) unfolding put_block_eq [OF ok conf p(3)] Let_def memp ap use
        by (simp add: upd_pinfo_def lists_after_free_def)
    qed
  qed
qed

section \<open>Giving pages back\<close>

text \<open>A free page leaves the cache.\<close>

definition drop_page :: "nat \<Rightarrow> ('p, 's) kcm_sys \<Rightarrow> ('p, 's) kcm_sys" where
  "drop_page p s = upd_kcm (\<lambda>k. k\<lparr>kcm_free_pages_nr := kcm_free_pages_nr k - 1\<rparr>) (unlink_pinfo p s)"

lemma drop_page_ok:
  assumes inv: "kcm_inv F frame own s" and f: "kcm_freelist (ks_kcm s) = p # fs"
    and own: "own' = own - {pi_page (ks_mem s p)}"
  shows "kcm_inv F frame own' (drop_page p s)" "kcm_allocated (drop_page p s) = kcm_allocated s"
    "kcm_freelist (ks_kcm (drop_page p s)) = fs"
proof -
  let ?k = "ks_kcm s"
  define k' where "k' = ?k\<lparr>kcm_freelist := fs, kcm_free_pages_nr := kcm_free_pages_nr ?k - 1\<rparr>"
  have cnt: "kcm_counts ?k" and po: "pages_ok F frame own s" and conf: "kcm_conf ?k"
    using inv by (simp_all add: kcm_inv_def)
  have out: "p \<notin> set (kcm_activelist ?k)" "p \<notin> set (kcm_busylist ?k)" "p \<notin> set fs"
    using cnt f by (auto simp: kcm_counts_def kcm_pages_def)
  have eq: "drop_page p s = s\<lparr>ks_kcm := k'\<rparr>"
    using f out by (cases s; cases ?k) (simp add: drop_page_def k'_def upd_kcm_def unlink_pinfo_def remove1_idem)
  have pg: "set (kcm_pages k') = set (kcm_pages ?k) - {p}" using f out by (auto simp: kcm_pages_def k'_def)
  have "pi_page (ks_mem s q) \<in> own'" if "q \<in> set (kcm_pages k')" for q
  proof -
    have pp: "p \<in> set (kcm_pages ?k)" using f by (simp add: kcm_pages_def)
    have "frame (pi_page (ks_mem s q)) = q" "pi_page (ks_mem s q) \<in> own" "frame (pi_page (ks_mem s p)) = p" "q \<noteq> p"
      using po that pg pp unfolding pages_ok_def by auto
    then show ?thesis using own by auto
  qed
  then have "pages_ok F frame own' (s\<lparr>ks_kcm := k'\<rparr>)"
    using po pg unfolding pages_ok_def by (auto simp: k'_def pinfo_ok_def clean_def)
  moreover have "kcm_counts k'" using cnt f by (auto simp: kcm_counts_def kcm_pages_def k'_def)
  moreover have "roles (ks_mem s) (kcm_blocks_nr k') (tl (kcm_activelist k')) (kcm_busylist k') (kcm_freelist k')"
    using inv f unfolding kcm_inv_def roles_def by (simp add: k'_def)
  ultimately show "kcm_inv F frame own' (drop_page p s)"
    using inv unfolding eq kcm_inv_def by (simp add: k'_def kcm_conf_def)
  have free: "avail (ks_mem s p) = {..<kcm_blocks_nr ?k}" using inv f by (simp add: kcm_inv_def roles_def)
  have k: "kcm_blocks_nr k' = kcm_blocks_nr ?k" "block_addr k' = block_addr ?k"
    by (simp_all add: k'_def block_addr_def fun_eq_iff)
  have "q \<in> set (kcm_pages k') \<and> j < kcm_blocks_nr ?k \<and> j \<notin> avail (ks_mem s q) \<longleftrightarrow>
      q \<in> set (kcm_pages ?k) \<and> j < kcm_blocks_nr ?k \<and> j \<notin> avail (ks_mem s q)" for q j
    using free pg by auto
  then show "kcm_allocated (drop_page p s) = kcm_allocated s"
    unfolding eq kcm_allocated_def by (simp add: k)
  show "kcm_freelist (ks_kcm (drop_page p s)) = fs" by (simp add: eq k'_def)
qed

lemma drop_page_fields [simp]:
  "ks_mem (drop_page p s) = ks_mem s" "ks_pg (drop_page p s) = ks_pg s"
  "kcm_free_pages_nr (ks_kcm (drop_page p s)) = kcm_free_pages_nr (ks_kcm s) - 1"
  "kcm_free_pages_min (ks_kcm (drop_page p s)) = kcm_free_pages_min (ks_kcm s)"
  by (simp_all add: drop_page_def upd_kcm_def unlink_pinfo_def)

lemma kcm_frame_log [simp]:
  "kcm_inv F frame own (s\<lparr>ks_log := l\<rparr>) = kcm_inv F frame own s"
  "kcm_inv F frame own (s\<lparr>ks_pg := pg\<rparr>) = kcm_inv F frame own s"
  "kcm_allocated (s\<lparr>ks_log := l\<rparr>) = kcm_allocated s"
  "kcm_allocated (s\<lparr>ks_pg := pg\<rparr>) = kcm_allocated s"
  by (simp_all add: kcm_inv_def pages_ok_def kcm_allocated_def)

context kcm_provider
begin

lemma release_loop_ok:
  "kcm_inv F frame (owned (ks_pg s)) s \<Longrightarrow> ok (ks_pg s) \<Longrightarrow> kcm_freelist (ks_kcm s) = items \<Longrightarrow>
    \<exists>s'. release_loop items dealloc s = Some s' \<and> kcm_inv F frame (owned (ks_pg s')) s' \<and> ok (ks_pg s') \<and> kcm_allocated s' = kcm_allocated s \<and>
      kcm_free_pages_nr (ks_kcm s') = min (kcm_free_pages_nr (ks_kcm s)) (kcm_free_pages_min (ks_kcm s)) \<and>
      owned (ks_pg s') = owned (ks_pg s) - (\<lambda>p. pi_page (ks_mem s p)) `
        set (take (kcm_free_pages_nr (ks_kcm s) - kcm_free_pages_min (ks_kcm s)) items)"
proof (induction items arbitrary: s)
  case Nil
  then have "kcm_free_pages_nr (ks_kcm s) = 0" by (simp add: kcm_inv_def kcm_counts_def)
  then show ?case using Nil by simp
next
  case (Cons p items)
  show ?case
  proof (cases "kcm_free_pages_nr (ks_kcm s) \<le> kcm_free_pages_min (ks_kcm s)")
    case True
    then show ?thesis using Cons.prems by simp
  next
    case False
    let ?pg = "pi_page (ks_mem s p)"
    have own: "?pg \<in> owned (ks_pg s)"
      using Cons.prems by (simp add: kcm_inv_def pages_ok_def kcm_pages_def)
    obtain pg where d: "dealloc ?pg (ks_pg s) = Some pg" "ok pg" "owned pg = owned (ks_pg s) - {?pg}"
      using dealloc_ok [OF _ own] Cons.prems by blast
    note dp = drop_page_ok [OF Cons.prems(1,3) d(3)]
    define lg where "lg = (if kcm_obj_destroy (ks_kcm (drop_page p s))
      then ks_log (drop_page p s) @ map (\<lambda>i. (False, p * KCM_PAGE_SIZE + SIZEOF_PAGE_INFO +
        kcm_size (ks_kcm (drop_page p s)) * i)) [0..<kcm_blocks_nr (ks_kcm (drop_page p s))]
      else ks_log (drop_page p s))"
    define s1 where "s1 = drop_page p s\<lparr>ks_log := lg, ks_pg := pg\<rparr>"
    have step: "release_loop (p # items) dealloc s = release_loop items dealloc s1"
      using False d(1) unfolding release_loop.simps Let_def drop_page_def [symmetric]
      by (simp add: lg_def s1_def)
    have s1: "kcm_inv F frame (owned (ks_pg s1)) s1" "ok (ks_pg s1)" "kcm_freelist (ks_kcm s1) = items" "kcm_allocated s1 = kcm_allocated s"
      "kcm_free_pages_nr (ks_kcm s1) = kcm_free_pages_nr (ks_kcm s) - 1"
      "kcm_free_pages_min (ks_kcm s1) = kcm_free_pages_min (ks_kcm s)" "ks_pg s1 = pg" "ks_mem s1 = ks_mem s"
      using dp d(2) by (simp_all add: s1_def)
    obtain n where n: "kcm_free_pages_nr (ks_kcm s) - kcm_free_pages_min (ks_kcm s) = Suc n"
      using False by (metis Suc_diff_Suc not_le)
    then have "kcm_free_pages_nr (ks_kcm s1) - kcm_free_pages_min (ks_kcm s1) = n"
      using s1(5,6) by simp
    then show ?thesis using Cons.IH [OF s1(1-3)] s1 False n d(3) unfolding step by auto
  qed
qed

end

section \<open>Setting a cache up\<close>

text \<open>The fields \<^verbatim>\<open>kcm_init\<close> computes before it asks for a page.\<close>

definition kcm_fresh :: "string \<Rightarrow> nat \<Rightarrow> nat \<Rightarrow> nat \<Rightarrow> nat \<Rightarrow> bool \<Rightarrow> bool \<Rightarrow> kcm_s \<Rightarrow> kcm_s" where
  "kcm_fresh name sz aligne free_pages_min free_pages_max obj_init obj_destroy k =
     (let aligne = (if aligne \<noteq> 0 \<and> aligne < 33 then 32 else KCM_ALIGNE);
          sz = unat (ARROUND_UP (of_nat sz) (of_nat aligne));
          blocks_nr = (if KCM_PAGE_SIZE mod sz \<ge> SIZEOF_PAGE_INFO then KCM_PAGE_SIZE div sz
                       else KCM_PAGE_SIZE div sz - 1)
      in k\<lparr>kcm_free_pages_nr := 0, kcm_free_pages_min := free_pages_min,
           kcm_free_pages_max := free_pages_max, kcm_busy_pages_nr := 0,
           kcm_active_pages_nr := 0, kcm_aligne := aligne, kcm_size := sz,
           kcm_blocks_nr := blocks_nr, kcm_name := name, kcm_freelist := [],
           kcm_activelist := [], kcm_busylist := [], kcm_obj_init := obj_init,
           kcm_obj_destroy := obj_destroy\<rparr>)"

lemma kcm_init_eq:
  "kcm_init frame page_alloc name sz aligne mn mx oi od s =
     (case freelist_get frame page_alloc (upd_kcm (kcm_fresh name sz aligne mn mx oi od) s) of
        None \<Rightarrow> None
      | Some (None, s) \<Rightarrow> Some (-1, s)
      | Some (Some pinfo, s) \<Rightarrow>
          Some (0, upd_kcm (\<lambda>k. k\<lparr>kcm_active_pages_nr := kcm_active_pages_nr k + 1\<rparr>)
            (upd_pinfo pinfo (\<lambda>i. i\<lparr>pi_flags := pi_flags i OR KCM_PAGE_ACTIVE\<rparr>)
              (upd_kcm (\<lambda>k. k\<lparr>kcm_activelist := pinfo # kcm_activelist k\<rparr>) s))))"
  unfolding kcm_init_def kcm_fresh_def Let_def ..

lemma flag_head_ok:
  assumes b: "kcm_base F frame own s" and al: "kcm_activelist (ks_kcm s) = [q]" and fl: "pi_flags (ks_mem s q) = 0"
  shows "kcm_inv F frame own (upd_pinfo q (\<lambda>i. i\<lparr>pi_flags := pi_flags i OR KCM_PAGE_ACTIVE\<rparr>) s)"
    "kcm_allocated (upd_pinfo q (\<lambda>i. i\<lparr>pi_flags := pi_flags i OR KCM_PAGE_ACTIVE\<rparr>) s) = kcm_allocated s"
proof -
  have out: "q \<notin> set (kcm_busylist (ks_kcm s))" "q \<notin> set (kcm_freelist (ks_kcm s))"
    using b al by (auto simp: kcm_base_def kcm_counts_def kcm_pages_def)
  show "kcm_inv F frame own (upd_pinfo q (\<lambda>i. i\<lparr>pi_flags := pi_flags i OR KCM_PAGE_ACTIVE\<rparr>) s)"
    using b al out fl unfolding kcm_inv_base kcm_base_def pages_ok_def roles_def
    by (auto simp: upd_pinfo_def)
  show "kcm_allocated (upd_pinfo q (\<lambda>i. i\<lparr>pi_flags := pi_flags i OR KCM_PAGE_ACTIVE\<rparr>) s) = kcm_allocated s"
    unfolding kcm_allocated_def by (auto simp: upd_pinfo_def split: if_splits)
qed

context kcm_provider
begin

lemma kcm_init_ok:
  assumes ok: "ok (ks_pg s)" and conf: "kcm_conf (kcm_fresh name sz aligne mn mx oi od (ks_kcm s))"
    and F: "frame ` (univ - owned (ks_pg s)) \<subseteq> F" and cl: "\<forall>p\<in>F. clean (kcm_fresh name sz aligne mn mx oi od (ks_kcm s)) (ks_mem s p)"
  shows "\<exists>e s'. kcm_init frame alloc name sz aligne mn mx oi od s = Some (e, s') \<and> ok (ks_pg s') \<and>
    (if e = 0 then cinv F s' \<and> kcm_allocated s' = {}
     else (mn + mx) div 2 = 0 \<or> (\<exists>pg. alloc (ks_pg s) = Some (None, pg)))"
proof -
  let ?k = "kcm_fresh name sz aligne mn mx oi od (ks_kcm s)"
  let ?s = "upd_kcm (kcm_fresh name sz aligne mn mx oi od) s"
  have f: "ks_kcm ?s = ?k" "ks_mem ?s = ks_mem s" "ks_pg ?s = ks_pg s" by (simp_all add: upd_kcm_def)
  have k: "kcm_activelist ?k = []" "kcm_busylist ?k = []" "kcm_freelist ?k = []" "kcm_free_pages_nr ?k = 0"
    "kcm_active_pages_nr ?k = 0" "kcm_busy_pages_nr ?k = 0" "kcm_free_pages_min ?k = mn" "kcm_free_pages_max ?k = mx"
    by (simp_all add: kcm_fresh_def Let_def)
  have b: "base F ?s"
    using conf cl ok F f k by (simp add: kcm_base_def kcm_counts_def kcm_pages_def pages_ok_def roles_def)
  have e: "kcm_allocated ?s = {}" using f k by (simp add: kcm_allocated_def kcm_pages_def)
  show ?thesis
  proof (rule freelist_get_ok [OF b])
    fix s1 assume g: "freelist_get frame alloc ?s = Some (None, s1)" "base F s1"
      "(kcm_free_pages_min (ks_kcm ?s) + kcm_free_pages_max (ks_kcm ?s)) div 2 = 0 \<or>
         (\<exists>pg. alloc (ks_pg ?s) = Some (None, pg))"
    then show ?thesis using f k by (simp add: kcm_init_eq)
  next
    fix q fs s1
    assume g: "freelist_get frame alloc ?s = Some (Some q,
        upd_kcm (\<lambda>k. k\<lparr>kcm_free_pages_nr := kcm_free_pages_nr k - 1\<rparr>) (unlink_pinfo q s1))"
      "base F s1" "grow ?s s1" "kcm_freelist (ks_kcm s1) = q # fs"
    have al: "kcm_activelist (ks_kcm s1) = []" using grow_fields(1) [OF g(3)] f k by simp
    note ad = adopt_ok(2) [OF conjunct1 [OF g(2)] g(4) al] adopt_ok(3,4) [OF conjunct1 [OF g(2)] g(4)]
    have q: "kcm_activelist (ks_kcm (adopt s1)) = [q]" "pi_flags (ks_mem (adopt s1) q) = 0"
      using al g(4) ad(3) by (simp_all add: adopt_fields)
    note fh = flag_head_ok [OF ad(1) q]
    have "upd_kcm (\<lambda>k. k\<lparr>kcm_active_pages_nr := kcm_active_pages_nr k + 1\<rparr>)
            (upd_pinfo q (\<lambda>i. i\<lparr>pi_flags := pi_flags i OR KCM_PAGE_ACTIVE\<rparr>)
              (upd_kcm (\<lambda>k. k\<lparr>kcm_activelist := q # kcm_activelist k\<rparr>)
                (upd_kcm (\<lambda>k. k\<lparr>kcm_free_pages_nr := kcm_free_pages_nr k - 1\<rparr>) (unlink_pinfo q s1))))
        = upd_pinfo q (\<lambda>i. i\<lparr>pi_flags := pi_flags i OR KCM_PAGE_ACTIVE\<rparr>) (adopt s1)"
      using al unfolding unlink_adopt [OF g(2,4), symmetric]
      by (simp add: upd_kcm_def upd_pinfo_def unlink_pinfo_def)
    then have "kcm_init frame alloc name sz aligne mn mx oi od s =
        Some (0, upd_pinfo q (\<lambda>i. i\<lparr>pi_flags := pi_flags i OR KCM_PAGE_ACTIVE\<rparr>) (adopt s1))"
      using g(1) by (simp add: kcm_init_eq)
    moreover have "kcm_allocated (adopt s1) = {}" using ad(2) grow_fields(9) [OF g(3)] e by simp
    moreover have "ks_pg (upd_pinfo q (\<lambda>i. i\<lparr>pi_flags := pi_flags i OR KCM_PAGE_ACTIVE\<rparr>) (adopt s1)) = ks_pg s1"
      by (simp add: upd_pinfo_def adopt_fields)
    ultimately show ?thesis using fh g(2) by simp
  qed
qed

end

text \<open>The shape of a cache: objects of at most \<open>4032\<close> bytes aligned to cache lines fit; objects of at
  most 32 bytes aligned to 32 do not: the last block starts at the end of the page.\<close>

lemma ARROUND_UP_64:
  assumes "0 < n" "n \<le> 4032"
  obtains m where "unat (ARROUND_UP (of_nat n) (of_nat 64)) = 64 * m" "0 < m" "m \<le> 63"
proof -
  have "unat (ARROUND_UP (of_nat n :: uint_t) (2 ^ 6)) = (n + 63) div 64 * 64"
    using ARROUND_UP_pow2 [of 6 "of_nat n"] assms by (simp add: unat_of_nat)
  moreover have "0 < (n + 63) div 64" "(n + 63) div 64 \<le> 63" using assms by auto
  ultimately show thesis using that [of "(n + 63) div 64"] by (simp add: mult.commute)
qed

lemma kcm_fresh_conf:
  assumes "0 < sz" "sz \<le> 4032" "aligne = 0 \<or> 33 \<le> aligne"
  shows "kcm_conf (kcm_fresh name sz aligne mn mx oi od k)"
proof -
  obtain m where m: "unat (ARROUND_UP (of_nat sz) (of_nat 64)) = 64 * m" "0 < m" "m \<le> 63"
    using ARROUND_UP_64 [OF assms(1,2)] .
  define q where "q = 64 div m"
  have qm: "q * m + 64 mod m = 64" unfolding q_def by (rule div_mult_mod_eq)
  have q0: "0 < q" "q \<le> 64" unfolding q_def using m by (simp_all add: div_greater_zero_iff)
  have d: "KCM_PAGE_SIZE div (64 * m) = q" unfolding q_def by (subst div_mult2_eq) simp
  have r: "KCM_PAGE_SIZE mod (64 * m) = 64 * (64 mod m)" using mult_mod_right [of 64 64 m] by simp
  have "1 < q" if "64 mod m = 0" using qm that m q0 by (cases "q = 1") auto
  moreover have "(q - 1) * m + m = q * m" using q0 by (metis Suc_diff_1 add.commute mult_Suc)
  ultimately have "kcm_conf (k\<lparr>kcm_aligne := 64, kcm_size := 64 * m,
      kcm_blocks_nr := (if 64 * (64 mod m) \<ge> SIZEOF_PAGE_INFO then q else q - 1)\<rparr>)"
    using qm q0 m by (cases "64 mod m = 0") (simp_all add: kcm_conf_def mult.commute mult.left_commute)
  then show ?thesis using assms(3) m(1) d r by (auto simp: kcm_fresh_def Let_def kcm_conf_def)
qed

section \<open>The page functions of the kernel's caches\<close>

text \<open>\<^verbatim>\<open>kcm_page_alloc\<close> and \<^verbatim>\<open>kcm_page_free\<close>: a page is a cluster and an index in its table. The
  first four arguments are the surroundings of the call: the resource tree's answers, the number of
  clusters on line, the attributes of the calling task and its cluster.\<close>

abbreviation AF_KERNEL :: uint_t where "AF_KERNEL \<equiv> 0x00110020"

definition kcm_page_alloc ::
  "(ppm_s list \<Rightarrow> nat \<Rightarrow> uint_t \<Rightarrow> nat \<Rightarrow> nat option) \<Rightarrow> nat \<Rightarrow> uint_t \<Rightarrow> nat \<Rightarrow> pa_state \<Rightarrow> ((nat \<times> nat) option \<times> pa_state) option" where
  "kcm_page_alloc mem_request onln attr_flags cid s =
     ppm_alloc_pages mem_request onln attr_flags cid 0 AF_KERNEL s"

definition kcm_page_free :: "nat \<times> nat \<Rightarrow> pa_state \<Rightarrow> pa_state option" where
  "kcm_page_free = (\<lambda>(c, i) s.
     if c < length (pa_ppms s)
     then map_option (\<lambda>ppm. s\<lparr>pa_ppms := (pa_ppms s)[c := ppm]\<rparr>) (ppm_free_pages_op i (pa_ppms s ! c))
     else None)"

text \<open>The clusters' regions: first frame and number of pages.\<close>

type_synonym regions = "(nat \<times> nat) list"

definition regions_ok :: "regions \<Rightarrow> bool" where
  "regions_ok rs \<longleftrightarrow> (\<forall>c<length rs. \<forall>d<length rs. c < d \<longrightarrow> fst (rs ! c) + snd (rs ! c) \<le> fst (rs ! d))"

definition page_frame :: "regions \<Rightarrow> nat \<times> nat \<Rightarrow> nat" where
  "page_frame rs = (\<lambda>(c, i). fst (rs ! c) + i)"

definition pa_owned :: "pa_state \<Rightarrow> (nat \<times> nat) set" where
  "pa_owned s = {(c, i). c < length (pa_ppms s) \<and> (i, 0) \<in> used_blocks (pa_ppms s ! c) \<and>
     pg_count (ppm_pages_tbl (pa_ppms s ! c) ! i) = 1}"

definition pa_ok :: "(ppm_s list \<Rightarrow> nat \<Rightarrow> uint_t \<Rightarrow> nat \<Rightarrow> nat option) \<Rightarrow> nat \<Rightarrow> nat \<Rightarrow> regions \<Rightarrow> pa_state \<Rightarrow> bool" where
  "pa_ok mem_request onln cid rs s \<longleftrightarrow> pa_inv s \<and> map npages (pa_ppms s) = map snd rs \<and> regions_ok rs \<and>
     0 < onln \<and> onln \<le> length rs \<and> cid < length rs \<and>
     (\<forall>ppms c t k d. mem_request ppms c t k = Some d \<longrightarrow> d < length rs)"

lemma kcm_page_alloc_eq:
  "kcm_page_alloc mem_request onln attr cid s =
     ppm_alloc_loop \<lparr>pa_onln = onln, pa_home = cid, pa_order = 0, pa_flags = AF_KERNEL,
       pa_interleave = False, pa_seq_next = False, pa_mem_request = mem_request\<rparr> False (Suc 31) cid s"
  by (simp add: kcm_page_alloc_def ppm_alloc_pages_def)

lemma pa_ok_cases:
  assumes "pa_ok mem_request onln cid rs s"
  obtains s' where "kcm_page_alloc mem_request onln attr cid s = Some (None, s')"
    "pa_ok mem_request onln cid rs s'" "pa_ppms s' = pa_ppms s"
  | c i s' th where "kcm_page_alloc mem_request onln attr cid s = Some (Some (c, i), s')" "pa_inv s'"
    "c < length (pa_ppms s)" "length (pa_ppms s') = length (pa_ppms s)"
    "ppm_do_alloc_pages 0 (pa_ppms s ! c, th) = Some (Some i, pa_ppms s' ! c, th)"
    "\<And>d. d \<noteq> c \<Longrightarrow> pa_ppms s' ! d = pa_ppms s ! d"
proof -
  have l: "length (pa_ppms s) = length rs" using assms unfolding pa_ok_def by (metis length_map)
  define e where "e = \<lparr>pa_onln = onln, pa_home = cid, pa_order = 0, pa_flags = AF_KERNEL,
    pa_interleave = False, pa_seq_next = False, pa_mem_request = mem_request\<rparr>"
  have env: "pa_env_ok e (length (pa_ppms s))" using assms l by (auto simp: pa_ok_def pa_env_ok_def e_def)
  have "pa_inv s" "cid < length (pa_ppms s)" using assms l by (simp_all add: pa_ok_def)
  from ppm_alloc_loop_ok [OF this(1) env this(2), of False 32]
  obtain r s' where r: "ppm_alloc_loop e False 32 cid s = Some (r, s')" "pa_inv s'"
    "alloc_post 0 (pa_ppms s) r (pa_ppms s')" by (auto simp: e_def)
  have eq: "kcm_page_alloc mem_request onln attr cid s = ppm_alloc_loop e False 32 cid s"
    by (simp add: kcm_page_alloc_eq e_def)
  show thesis
  proof (cases r)
    case None
    then have "pa_ppms s' = pa_ppms s" using r(3) by (simp add: alloc_post_def)
    then show thesis using that(1) [of s'] r None assms by (simp add: eq pa_ok_def pa_inv_def)
  next
    case (Some x)
    obtain c i where x: "x = (c, i)" by (cases x)
    then show thesis using that(2) [of c i s'] r Some by (auto simp: eq alloc_post_def)
  qed
qed

lemma pa_owned_step:
  assumes "length (pa_ppms s') = length (pa_ppms s)" "c < length (pa_ppms s)"
    and "\<And>d. d \<noteq> c \<Longrightarrow> pa_ppms s' ! d = pa_ppms s ! d"
  shows "pa_owned s' = (pa_owned s - {c} \<times> UNIV) \<union> {c} \<times> ppm_owned 0 (pa_ppms s' ! c, th)"
proof -
  have "(d, i) \<in> pa_owned s' \<longleftrightarrow> (d, i) \<in> (pa_owned s - {c} \<times> UNIV) \<union> {c} \<times> ppm_owned 0 (pa_ppms s' ! c, th)" for d i
    using assms by (cases "d = c") (simp_all add: pa_owned_def ppm_owned_def)
  then show ?thesis by auto
qed

lemma pa_owned_slice: "c < length (pa_ppms s) \<Longrightarrow> (c, i) \<in> pa_owned s \<longleftrightarrow> i \<in> ppm_owned 0 (pa_ppms s ! c, th)"
  by (simp add: pa_owned_def ppm_owned_def)

lemma npages_step:
  assumes "length (pa_ppms s') = length (pa_ppms s)" "c < length (pa_ppms s)"
    "npages (pa_ppms s' ! c) = npages (pa_ppms s ! c)" "\<And>d. d \<noteq> c \<Longrightarrow> pa_ppms s' ! d = pa_ppms s ! d"
  shows "map npages (pa_ppms s') = map npages (pa_ppms s)"
  using assms by (intro nth_equalityI) (auto, metis)

lemma page_frame_inj:
  assumes rs: "regions_ok rs" "c < length rs" "d < length rs"
    and i: "i < snd (rs ! c)" "j < snd (rs ! d)" and eq: "fst (rs ! c) + i = fst (rs ! d) + j"
  shows "c = d \<and> i = j"
proof -
  have "\<not> c < d" "\<not> d < c" using rs i eq unfolding regions_ok_def by fastforce+
  then show ?thesis using eq by simp
qed

definition region_pages :: "regions \<Rightarrow> (nat \<times> nat) set" where
  "region_pages rs = {(c, i). c < length rs \<and> i < snd (rs ! c)}"

lemma pa_owned_region: "pa_ok mem_request onln cid rs s \<Longrightarrow> pa_owned s \<subseteq> region_pages rs"
proof -
  assume ok: "pa_ok mem_request onln cid rs s"
  have np: "npages (pa_ppms s ! c) = snd (rs ! c)" "c < length rs" if "c < length (pa_ppms s)" for c
    using ok that unfolding pa_ok_def by (metis length_map nth_map)+
  then show ?thesis by (auto simp: pa_owned_def used_blocks_def region_pages_def)
qed

lemma kcm_page_alloc_Some:
  assumes ok: "pa_ok mem_request onln cid rs s" and a: "kcm_page_alloc mem_request onln attr cid s = Some (Some p, s')"
  shows "pa_ok mem_request onln cid rs s' \<and> p \<notin> pa_owned s \<and> pa_owned s' = insert p (pa_owned s)"
proof (rule pa_ok_cases [OF ok, of attr])
  fix c i s1 th assume b: "kcm_page_alloc mem_request onln attr cid s = Some (Some (c, i), s1)" "pa_inv s1"
    "c < length (pa_ppms s)" "length (pa_ppms s1) = length (pa_ppms s)"
    "ppm_do_alloc_pages 0 (pa_ppms s ! c, th) = Some (Some i, pa_ppms s1 ! c, th)"
    "\<And>d. d \<noteq> c \<Longrightarrow> pa_ppms s1 ! d = pa_ppms s ! d"
  have eq: "p = (c, i)" "s1 = s'" using a b(1) by simp_all
  have inv: "ppm_inv (pa_ppms s ! c)" using ok b(3) by (simp add: pa_ok_def pa_inv_def)
  then have "ppm_ok (pa_ppms s ! c, th)" by (simp add: ppm_ok_def)
  from pgs.alloc_Some [OF this b(5)] have g: "i \<notin> ppm_owned 0 (pa_ppms s ! c, th)"
    "ppm_owned 0 (pa_ppms s1 ! c, th) = insert i (ppm_owned 0 (pa_ppms s ! c, th))" by auto
  have np: "npages (pa_ppms s1 ! c) = npages (pa_ppms s ! c)"
    by (rule ppm_do_alloc_pages_cases [OF inv, of 0 th]) (use b(5) in auto)
  have "pa_ok mem_request onln cid rs s1"
    using ok b(2) npages_step [OF b(4,3) np b(6)] by (simp add: pa_ok_def)
  moreover have "p \<notin> pa_owned s" using g(1) pa_owned_slice [OF b(3)] eq by simp
  moreover have "pa_owned s1 = insert p (pa_owned s)"
    using pa_owned_step [OF b(4,3,6), of th] g(2) pa_owned_slice [OF b(3), of _ th] eq by auto
  ultimately show ?thesis using eq by simp
qed (use a in simp)

interpretation kpg: kcm_provider "pa_ok mem_request onln cid rs" pa_owned
  "kcm_page_alloc mem_request onln attr cid" kcm_page_free "page_frame rs" "region_pages rs" for mem_request onln attr cid rs
proof
  fix s assume ok: "pa_ok mem_request onln cid rs s"
  show "kcm_page_alloc mem_request onln attr cid s \<noteq> None"
    by (rule pa_ok_cases [OF ok, of attr]) auto
  show "pa_ok mem_request onln cid rs s' \<and> pa_owned s' = pa_owned s"
    if "kcm_page_alloc mem_request onln attr cid s = Some (None, s')" for s'
    by (rule pa_ok_cases [OF ok, of attr]) (use that in \<open>auto simp: pa_owned_def\<close>)
  show "pa_ok mem_request onln cid rs s' \<and> p \<notin> pa_owned s \<and> pa_owned s' = insert p (pa_owned s)"
    if "kcm_page_alloc mem_request onln attr cid s = Some (Some p, s')" for p s'
    by (rule kcm_page_alloc_Some [OF ok that])
  show "\<exists>s'. kcm_page_free p s = Some s' \<and> pa_ok mem_request onln cid rs s' \<and> pa_owned s' = pa_owned s - {p}"
    if p: "p \<in> pa_owned s" for p
  proof -
    obtain c i where ci: "p = (c, i)" "c < length (pa_ppms s)" "(i, 0) \<in> used_blocks (pa_ppms s ! c)"
      "pg_count (ppm_pages_tbl (pa_ppms s ! c) ! i) = 1" using p by (auto simp: pa_owned_def)
    have inv: "ppm_inv (pa_ppms s ! c)" using ok ci(2) by (simp add: pa_ok_def pa_inv_def)
    obtain ppm' where f: "ppm_free_pages_op i (pa_ppms s ! c) = Some ppm'" "ppm_inv ppm'"
      "npages ppm' = npages (pa_ppms s ! c)" using ppm_free_pages_last [OF inv ci(3,4)] by blast
    define s' where "s' = s\<lparr>pa_ppms := (pa_ppms s)[c := ppm']\<rparr>"
    have s': "length (pa_ppms s') = length (pa_ppms s)" "pa_ppms s' ! c = ppm'"
      "\<And>d. d \<noteq> c \<Longrightarrow> pa_ppms s' ! d = pa_ppms s ! d" using ci(2) by (simp_all add: s'_def)
    have "ppm_ok (pa_ppms s ! c, pa_th s)" "i \<in> ppm_owned 0 (pa_ppms s ! c, pa_th s)"
      using inv ci by (simp_all add: ppm_ok_def ppm_owned_def)
    from pgs.dealloc_ok [OF this]
    have g: "ppm_owned 0 (ppm', pa_th s) = ppm_owned 0 (pa_ppms s ! c, pa_th s) - {i}"
      using f(1) by (simp add: ppm_dealloc_def)
    have "pa_inv s'" using ok f(2) set_update_subset_insert [of "pa_ppms s" c ppm']
      by (auto simp: pa_inv_def pa_ok_def s'_def)
    then have "pa_ok mem_request onln cid rs s'"
      using ok npages_step [OF s'(1) ci(2) _ s'(3)] f(3) s'(2) by (simp add: pa_ok_def)
    moreover have "pa_owned s' = pa_owned s - {p}"
      using pa_owned_step [OF s'(1) ci(2) s'(3), of "pa_th s"] g pa_owned_slice [OF ci(2), of _ "pa_th s"] ci(1) s'(2)
      by auto
    moreover have "kcm_page_free p s = Some s'" using f(1) ci by (simp add: kcm_page_free_def s'_def)
    ultimately show ?thesis by blast
  qed
  show "p \<in> region_pages rs" if a: "kcm_page_alloc mem_request onln attr cid s = Some (Some p, s')" for p s'
    using kcm_page_alloc_Some [OF ok a] pa_owned_region by blast
  show "p = q" if "p \<in> pa_owned s" "q \<in> pa_owned s" "page_frame rs p = page_frame rs q" for p q
  proof -
    have np: "npages (pa_ppms s ! c) = snd (rs ! c)" "c < length rs" if "c < length (pa_ppms s)" for c
      using ok that unfolding pa_ok_def by (metis length_map nth_map)+
    show ?thesis
      using that page_frame_inj [of rs "fst p" "fst q" "snd p" "snd q"] np ok
      by (auto simp: pa_owned_def used_blocks_def page_frame_def pa_ok_def prod_eq_iff)
  qed
qed

section \<open>Properties\<close>

lemma bm_bit_zero: "i < 128 \<Longrightarrow> \<not> bm_bit [0, 0, 0, 0] i"
proof -
  assume "i < 128"
  moreover have "[0, 0, 0, 0] = replicate 4 (0 :: uint_t)" by (simp add: numeral_eq_Suc)
  ultimately show ?thesis using div_lt_length [of i 4] by (simp add: bm_bit_def del: replicate.simps)
qed

text \<open>A cache over the page managers of all clusters.\<close>

definition kcm_ok :: "(ppm_s list \<Rightarrow> nat \<Rightarrow> uint_t \<Rightarrow> nat \<Rightarrow> nat option) \<Rightarrow> nat \<Rightarrow> nat \<Rightarrow> regions \<Rightarrow> (nat \<times> nat, pa_state) kcm_sys \<Rightarrow> bool" where
  "kcm_ok mem_request onln cid rs s \<longleftrightarrow>
     kcm_inv {} (page_frame rs) (pa_owned (ks_pg s)) s \<and> pa_ok mem_request onln cid rs (ks_pg s)"

text \<open>The pages that the page managers have not handed out hold no bit from \<^verbatim>\<open>blocks_nr\<close> on where the bitmap of a page of this
  cache would be. \<^verbatim>\<open>freelist_populate\<close> needs this, for it sets the bits of the blocks but clears no other.\<close>

definition unused_clean :: "regions \<Rightarrow> (nat \<times> nat, pa_state) kcm_sys \<Rightarrow> bool" where
  "unused_clean rs s \<longleftrightarrow> (\<forall>page\<in>region_pages rs - pa_owned (ks_pg s). clean (ks_kcm s) (ks_mem s (page_frame rs page)))"

lemma kcm_inv_clean: "kcm_inv F frame own s \<longleftrightarrow> kcm_inv {} frame own s \<and> (\<forall>p\<in>F. clean (ks_kcm s) (ks_mem s p))"
  by (auto simp: kcm_inv_def pages_ok_def)

lemma kcm_cinv:
  assumes "kcm_ok mem_request onln cid rs s" "unused_clean rs s"
  shows "\<exists>F. kpg.cinv mem_request onln cid rs F s"
  using assms kcm_inv_clean [of "page_frame rs ` (region_pages rs - pa_owned (ks_pg s))" "page_frame rs" "pa_owned (ks_pg s)" s]
  by (intro exI [of _ "page_frame rs ` (region_pages rs - pa_owned (ks_pg s))"]) (simp add: kcm_ok_def unused_clean_def)

lemma cinv_kcm:
  assumes "kpg.cinv mem_request onln cid rs F s"
  shows "kcm_ok mem_request onln cid rs s \<and> unused_clean rs s"
  using assms kcm_inv_clean [of F "page_frame rs" "pa_owned (ks_pg s)" s] by (auto simp: kcm_ok_def unused_clean_def)

lemma kcm_block_distinct:
  assumes "kcm_inv F frame own s" "a \<in> kcm_allocated s" "b \<in> kcm_allocated s" "a \<noteq> b"
  shows "{a..<a + kcm_size (ks_kcm s)} \<inter> {b..<b + kcm_size (ks_kcm s)} = {}"
proof -
  obtain p i q j where b: "a = block_addr (ks_kcm s) p i" "i < kcm_blocks_nr (ks_kcm s)"
    "b = block_addr (ks_kcm s) q j" "j < kcm_blocks_nr (ks_kcm s)"
    using assms(2,3) unfolding kcm_allocated_def by blast
  have "kcm_conf (ks_kcm s)" using assms(1) by (simp add: kcm_inv_def)
  moreover have "(p, i) \<noteq> (q, j)" using b assms(4) by auto
  ultimately show ?thesis using blocks_disjoint [OF _ b(2,4)] unfolding b(1,3) by blast
qed

text \<open>C8. \<^verbatim>\<open>kcm_alloc\<close> on a cache over the page managers of all clusters: it never leaves its data and
  keeps the invariant. A block it returns was not handed out, lies in its page behind the header, and is
  disjoint from every block handed out before; it returns nothing only when the cache may not hold a
  free page or no page can be had from any cluster. The theorem has one condition on memory that the code does not establish:
  the pages that the page managers have not handed out must be clean (\<open>unused_clean\<close>), for \<^verbatim>\<open>freelist_populate\<close> does not clear the bits
  behind the last block in the bitmap of a new page.\<close>

theorem kcm_alloc_correct:
  assumes ok: "kcm_ok mem_request onln cid rs s" and clean: "unused_clean rs s"
  shows "\<exists>r s'. kcm_alloc (page_frame rs) (kcm_page_alloc mem_request onln attr cid) s = Some (r, s') \<and>
    kcm_ok mem_request onln cid rs s' \<and> unused_clean rs s' \<and>
    (case r of
       None \<Rightarrow> kcm_allocated s' = kcm_allocated s \<and>
         ((kcm_free_pages_min (ks_kcm s) + kcm_free_pages_max (ks_kcm s)) div 2 = 0 \<or>
          (\<exists>pg. kcm_page_alloc mem_request onln attr cid (ks_pg s) = Some (None, pg)))
     | Some a \<Rightarrow> kcm_allocated s' = insert a (kcm_allocated s) \<and> a \<notin> kcm_allocated s \<and>
         64 \<le> a mod KCM_PAGE_SIZE \<and> a mod KCM_PAGE_SIZE + kcm_size (ks_kcm s') \<le> KCM_PAGE_SIZE \<and>
         (\<forall>b\<in>kcm_allocated s. {a..<a + kcm_size (ks_kcm s')} \<inter> {b..<b + kcm_size (ks_kcm s')} = {}))"
proof -
  obtain r s' where r: "kcm_alloc (page_frame rs) (kcm_page_alloc mem_request onln attr cid) s = Some (r, s')"
    "kcm_ok mem_request onln cid rs s' \<and> unused_clean rs s'" "kcm_size (ks_kcm s') = kcm_size (ks_kcm s)"
    "case r of
       None \<Rightarrow> kcm_allocated s' = kcm_allocated s \<and>
         ((kcm_free_pages_min (ks_kcm s) + kcm_free_pages_max (ks_kcm s)) div 2 = 0 \<or>
          (\<exists>pg. kcm_page_alloc mem_request onln attr cid (ks_pg s) = Some (None, pg)))
     | Some a \<Rightarrow> a \<notin> kcm_allocated s \<and> kcm_allocated s' = insert a (kcm_allocated s) \<and>
         a mod KCM_PAGE_SIZE \<ge> 64 \<and> a mod KCM_PAGE_SIZE + kcm_size (ks_kcm s) \<le> KCM_PAGE_SIZE"
  proof -
    obtain F where F: "kpg.cinv mem_request onln cid rs F s" using kcm_cinv [OF ok clean] by blast
    from kpg.kcm_alloc_ok [OF F, of attr] show thesis by (elim exE) (rule that, use cinv_kcm in blast, use cinv_kcm in blast, blast, blast)
  qed
  have inv: "kcm_inv {} (page_frame rs) (pa_owned (ks_pg s')) s'" using r(2) by (simp add: kcm_ok_def)
  show ?thesis
  proof (cases r)
    case None
    then show ?thesis using r by simp
  next
    case (Some a)
    have "{a..<a + kcm_size (ks_kcm s')} \<inter> {b..<b + kcm_size (ks_kcm s')} = {}"
      if "b \<in> kcm_allocated s" for b
    proof (rule kcm_block_distinct [OF inv])
      show "a \<in> kcm_allocated s'" "b \<in> kcm_allocated s'" "a \<noteq> b" using r(4) Some that by auto
    qed
    then show ?thesis using r Some by simp
  qed
qed

text \<open>C9. \<^verbatim>\<open>kcm_free\<close> takes back exactly the block it is given, whatever list its page is on: the
  invariant holds afterwards and no page goes back to the page manager. A page on the busy list moves to the end of the
  active list; a page of the active list behind its head that has no block in use left moves to the front of the free list; in
  every other case the three lists stay as they are. The null pointer is ignored.\<close>

theorem kcm_free_correct:
  assumes "kcm_ok mem_request onln cid rs s" "a \<in> kcm_allocated s"
  shows "\<exists>s'. kcm_free a s = Some s' \<and> kcm_ok mem_request onln cid rs s' \<and>
    kcm_allocated s' = kcm_allocated s - {a} \<and> ks_pg s' = ks_pg s \<and>
    lists_after_free (a div KCM_PAGE_SIZE) (\<exists>b\<in>kcm_allocated s'. b div KCM_PAGE_SIZE = a div KCM_PAGE_SIZE) (ks_kcm s) (ks_kcm s') \<and>
    kcm_free 0 s = Some s"
proof -
  have "kcm_inv {} (page_frame rs) (pa_owned (ks_pg s)) s" using assms(1) by (simp add: kcm_ok_def)
  from kcm_free_ok [OF this assms(2)] obtain s' where s': "kcm_free a s = Some s'" "kcm_inv {} (page_frame rs) (pa_owned (ks_pg s)) s'"
    "kcm_allocated s' = kcm_allocated s - {a}" "ks_pg s' = ks_pg s"
    "lists_after_free (a div KCM_PAGE_SIZE) (\<exists>b\<in>kcm_allocated s - {a}. b div KCM_PAGE_SIZE = a div KCM_PAGE_SIZE) (ks_kcm s) (ks_kcm s')" by blast
  moreover have "kcm_free 0 s = Some s" by (simp add: kcm_free_def)
  ultimately show ?thesis using assms(1) by (auto simp: kcm_ok_def)
qed

text \<open>\<^verbatim>\<open>kcm_release\<close> gives free pages back until only the minimum is left, in the order of the free
  list, each to the page manager of its cluster; blocks handed out stay handed out.\<close>

theorem kcm_release_correct:
  assumes "kcm_ok mem_request onln cid rs s"
  shows "\<exists>s'. kcm_release kcm_page_free s = Some s' \<and> kcm_ok mem_request onln cid rs s' \<and>
    kcm_allocated s' = kcm_allocated s \<and>
    kcm_free_pages_nr (ks_kcm s') = min (kcm_free_pages_nr (ks_kcm s)) (kcm_free_pages_min (ks_kcm s)) \<and>
    pa_owned (ks_pg s') = pa_owned (ks_pg s) - (\<lambda>p. pi_page (ks_mem s p)) `
      set (take (kcm_free_pages_nr (ks_kcm s) - kcm_free_pages_min (ks_kcm s)) (kcm_freelist (ks_kcm s)))"
  using kpg.release_loop_ok [OF conjunct1 [OF assms [unfolded kcm_ok_def]] conjunct2 [OF assms [unfolded kcm_ok_def]] refl]
  unfolding kcm_ok_def kcm_release_def freelist_release_def by blast

text \<open>\<^verbatim>\<open>kcm_init\<close> for objects of 1 to 4032 bytes with cache-line alignment, when the bitmaps of the
  pages it may get are clear: it either fails because there is no page to be had, or leaves a cache
  that satisfies the invariant and has handed out nothing.\<close>

theorem kcm_init_correct:
  assumes "pa_ok mem_request onln cid rs (ks_pg s)" "0 < sz" "sz \<le> 4032" "aligne = 0 \<or> 33 \<le> aligne"
    and "\<And>page. page \<in> region_pages rs - pa_owned (ks_pg s) \<Longrightarrow> pi_bitmap (ks_mem s (page_frame rs page)) = [0, 0, 0, 0]"
  shows "\<exists>e s'. kcm_init (page_frame rs) (kcm_page_alloc mem_request onln attr cid)
      name sz aligne mn mx oi od s = Some (e, s') \<and> pa_ok mem_request onln cid rs (ks_pg s') \<and>
    (if e = 0 then kcm_ok mem_request onln cid rs s' \<and> unused_clean rs s' \<and> kcm_allocated s' = {}
     else (mn + mx) div 2 = 0 \<or> (\<exists>pg. kcm_page_alloc mem_request onln attr cid (ks_pg s) = Some (None, pg)))"
proof -
  let ?F = "page_frame rs ` (region_pages rs - pa_owned (ks_pg s))"
  have "\<forall>p\<in>?F. clean (kcm_fresh name sz aligne mn mx oi od (ks_kcm s)) (ks_mem s p)"
    using assms(5) bm_bit_zero by (auto simp: clean_def avail_def)
  from kpg.kcm_init_ok [OF assms(1) kcm_fresh_conf [OF assms(2-4)] subset_refl this, of attr]
  show ?thesis using cinv_kcm [where F = ?F and mem_request = mem_request and onln = onln and cid = cid and rs = rs] by (auto split: if_splits)
qed

text \<open>The shape of the cache does not change while it gets pages.\<close>

lemma populate_shape:
  "freelist_populate frame page_alloc s = Some (e, s') \<Longrightarrow>
    kcm_size (ks_kcm s') = kcm_size (ks_kcm s) \<and> kcm_blocks_nr (ks_kcm s') = kcm_blocks_nr (ks_kcm s)"
  by (auto simp: freelist_populate_def upd_kcm_def upd_pinfo_def Let_def split: option.splits prod.splits if_splits)

lemma fill_shape:
  "freelist_fill n frame page_alloc s = Some s' \<Longrightarrow>
    kcm_size (ks_kcm s') = kcm_size (ks_kcm s) \<and> kcm_blocks_nr (ks_kcm s') = kcm_blocks_nr (ks_kcm s)"
  by (induction n arbitrary: s) (fastforce split: option.splits prod.splits if_splits dest: populate_shape)+

lemma freelist_get_shape:
  "freelist_get frame page_alloc s = Some (r, s') \<Longrightarrow>
    kcm_size (ks_kcm s') = kcm_size (ks_kcm s) \<and> kcm_blocks_nr (ks_kcm s') = kcm_blocks_nr (ks_kcm s)"
  by (auto simp: freelist_get_def upd_kcm_def unlink_pinfo_def Let_def
      split: option.splits if_splits list.splits dest: fill_shape)

text \<open>Objects of at most 32 bytes with an alignment of 1 to 32 do not fit: \<^verbatim>\<open>kcm_init\<close> leaves 32 bytes
  for the page header, which takes 64 when it is aligned, and counts 127 blocks. When the last of them
  is the one to be had, \<^verbatim>\<open>get_block\<close> returns the first address of the next page.\<close>

theorem kcm_init_small_overflow:
  assumes "0 < sz" "sz \<le> 32" "0 < aligne" "aligne \<le> 32"
    and "kcm_init frame page_alloc name sz aligne mn mx oi od s = Some (e, s')"
    and "pi_blk_tbl pinfo = p * KCM_PAGE_SIZE + 64" "pi_current_index pinfo = 126" "bm_bit (pi_bitmap pinfo) 126"
  shows "kcm_blocks_nr (ks_kcm s') = 127 \<and> fst (get_block (ks_kcm s') pinfo) = Some (Suc p * KCM_PAGE_SIZE)"
proof -
  have "unat (ARROUND_UP (of_nat sz :: uint_t) (2 ^ 5)) = (sz + 31) div 32 * 32"
    using ARROUND_UP_pow2 [of 5 "of_nat sz"] assms by (simp add: unat_of_nat)
  moreover have "(sz + 31) div 32 = 1" using assms by (intro div_nat_eqI) auto
  ultimately have "kcm_size (kcm_fresh name sz aligne mn mx oi od (ks_kcm s)) = 32 \<and>
      kcm_blocks_nr (kcm_fresh name sz aligne mn mx oi od (ks_kcm s)) = 127"
    using assms by (simp add: kcm_fresh_def Let_def)
  then have k: "kcm_size (ks_kcm s') = 32" "kcm_blocks_nr (ks_kcm s') = 127"
    using assms(5) unfolding kcm_init_eq
    by (auto simp: upd_kcm_def upd_pinfo_def split: option.splits prod.splits dest!: freelist_get_shape)
  have "first_at (bm_bit (pi_bitmap pinfo)) 126 128 (bitmap_ffs2 (pi_bitmap pinfo) 126 16)"
    using bitmap_ffs2_first [of 126 16] by simp
  then have "bitmap_ffs2 (pi_bitmap pinfo) 126 16 = 126"
    using assms(8) by (auto simp: first_at_def split: if_splits)
  then show ?thesis using k assms(6,7) by (simp add: get_block_def Let_def)
qed

section \<open>Witnesses\<close>

text \<open>One cluster of 512 pages at frame 16, a cache of 100-byte objects in it, and the cache after one
  allocation.\<close>

abbreviation demo_req :: "ppm_s list \<Rightarrow> nat \<Rightarrow> uint_t \<Rightarrow> nat \<Rightarrow> nat option" where
  "demo_req \<equiv> \<lambda>_ _ _ _. None"
abbreviation demo_rs :: regions where "demo_rs \<equiv> [(16, 512)]"

definition demo_pa :: pa_state where
  "demo_pa = \<lparr>pa_ppms = [demo_ppm], pa_th = demo_th, pa_last_cid = 0\<rparr>"

definition demo_mem :: "(nat \<times> nat, pa_state) kcm_sys" where
  "demo_mem = \<lparr>ks_kcm = \<lparr>kcm_addr = 0x9000, kcm_size = 0, kcm_blocks_nr = 0, kcm_aligne = 0,
       kcm_activelist = [], kcm_busylist = [], kcm_freelist = [], kcm_free_pages_nr = 0,
       kcm_free_pages_min = 0, kcm_free_pages_max = 0, kcm_busy_pages_nr = 0, kcm_active_pages_nr = 0,
       kcm_obj_init = False, kcm_obj_destroy = False, kcm_name = []\<rparr>,
     ks_mem = (\<lambda>_. \<lparr>pi_bitmap = [0, 0, 0, 0], pi_blk_tbl = 0, pi_kcm = 0, pi_current_index = 0,
       pi_refcount = 0, pi_flags = 0, pi_page = (0, 0)\<rparr>),
     ks_pg = demo_pa, ks_log = []\<rparr>"

definition demo_cache :: "(nat \<times> nat, pa_state) kcm_sys" where
  "demo_cache = snd (the (kcm_init (page_frame demo_rs) (kcm_page_alloc demo_req 1 0 0)
     ''DEMO'' 100 0 1 3 False False demo_mem))"

definition demo_cache1 :: "(nat \<times> nat, pa_state) kcm_sys" where
  "demo_cache1 = snd (the (kcm_alloc (page_frame demo_rs) (kcm_page_alloc demo_req 1 0 0) demo_cache))"

lemma demo_pa_ok: "pa_ok demo_req 1 0 demo_rs demo_pa"
  using demo_inv by (simp add: pa_ok_def pa_inv_def demo_pa_def regions_ok_def) (simp add: demo_ppm_def)

lemma demo_page_alloc: "kcm_page_alloc demo_req 1 0 0 demo_pa \<noteq> Some (None, pg)"
proof -
  obtain b ppm' where "ppm_do_alloc_pages 0 (demo_ppm, demo_th) = Some (Some b, ppm', demo_th)"
    by (rule ppm_do_alloc_pages_cases [OF demo_inv, of 0 demo_th])
      (use demo_fl [of 9] in \<open>auto simp: numeral_eq_Suc\<close>)
  moreover have "ppm_free_pages_nr demo_ppm = 512" "ppm_urgent_pages_min demo_ppm = 25" by (simp_all add: demo_ppm_def)
  ultimately show ?thesis
    unfolding kcm_page_alloc_eq ppm_alloc_loop.simps by (simp add: demo_pa_def pa_choose_def pa_try_def)
qed

lemma demo_cache_ok: "kcm_ok demo_req 1 0 demo_rs demo_cache" "kcm_allocated demo_cache = {}" "unused_clean demo_rs demo_cache"
proof -
  have c: "\<forall>p\<in>UNIV. clean (kcm_fresh ''DEMO'' 100 0 1 3 False False (ks_kcm demo_mem)) (ks_mem demo_mem p)"
    using bm_bit_zero by (auto simp: demo_mem_def clean_def avail_def)
  have "pa_ok demo_req 1 0 demo_rs (ks_pg demo_mem)" using demo_pa_ok by (simp add: demo_mem_def)
  from kpg.kcm_init_ok [OF this kcm_fresh_conf subset_UNIV c, of 0]
  obtain e s' where i: "kcm_init (page_frame demo_rs) (kcm_page_alloc demo_req 1 0 0) ''DEMO'' 100 0 1 3 False False demo_mem
      = Some (e, s')" "if e = 0 then kcm_ok demo_req 1 0 demo_rs s' \<and> unused_clean demo_rs s' \<and> kcm_allocated s' = {}
      else (1 + 3 :: nat) div 2 = 0 \<or> (\<exists>pg. kcm_page_alloc demo_req 1 0 0 (ks_pg demo_mem) = Some (None, pg))"
    using cinv_kcm [where F = UNIV and mem_request = demo_req and onln = 1 and cid = 0 and rs = demo_rs] by (auto split: if_splits)
  have "ks_pg demo_mem = demo_pa" by (simp add: demo_mem_def)
  then have "e = 0" using i(2) demo_page_alloc by (auto split: if_splits)
  then show "kcm_ok demo_req 1 0 demo_rs demo_cache" "kcm_allocated demo_cache = {}" "unused_clean demo_rs demo_cache"
    using i by (simp_all add: demo_cache_def)
qed

lemma demo_alloc:
  obtains a where "kcm_alloc (page_frame demo_rs) (kcm_page_alloc demo_req 1 0 0) demo_cache = Some (Some a, demo_cache1)"
    "kcm_ok demo_req 1 0 demo_rs demo_cache1" "kcm_allocated demo_cache1 = {a}"
proof -
  let ?k = "ks_kcm demo_cache" and ?p = "hd (kcm_activelist (ks_kcm demo_cache))"
  have inv: "kcm_inv {} (page_frame demo_rs) (pa_owned (ks_pg demo_cache)) demo_cache"
    "pa_ok demo_req 1 0 demo_rs (ks_pg demo_cache)" using demo_cache_ok(1) by (simp_all add: kcm_ok_def)
  have al: "kcm_activelist ?k \<noteq> []" "?p \<in> set (kcm_pages ?k)" and conf: "kcm_conf ?k"
    using inv by (simp_all add: kcm_inv_def kcm_pages_def)
  then have "0 \<in> avail (ks_mem demo_cache ?p)"
    using demo_cache_ok(2) allocated_iff [of demo_cache 0 ?p] by (auto simp: kcm_conf_def)
  then have ne: "avail (ks_mem demo_cache ?p) \<noteq> {}" by blast
  obtain i pinfo' where g: "get_block ?k (ks_mem demo_cache ?p) = (Some (block_addr ?k ?p i), pinfo')"
    "kcm_inv {} (page_frame demo_rs) (pa_owned (ks_pg demo_cache)) (upd_pinfo ?p (\<lambda>_. pinfo') demo_cache)"
    "kcm_allocated (upd_pinfo ?p (\<lambda>_. pinfo') demo_cache) = insert (block_addr ?k ?p i) (kcm_allocated demo_cache)"
    using alloc_from_page [OF inv(1) refl ne] by blast
  have a: "kcm_alloc (page_frame demo_rs) (kcm_page_alloc demo_req 1 0 0) demo_cache =
      Some (Some (block_addr ?k ?p i), upd_pinfo ?p (\<lambda>_. pinfo') demo_cache)"
    using al g(1) by (cases "kcm_activelist ?k") (simp_all add: kcm_alloc_def)
  moreover have "ks_pg (upd_pinfo ?p (\<lambda>_. pinfo') demo_cache) = ks_pg demo_cache" by (simp add: upd_pinfo_def)
  ultimately show thesis
    using that [of "block_addr ?k ?p i"] inv g(2,3) demo_cache_ok(2) by (simp add: demo_cache1_def kcm_ok_def)
qed

theorem kcm_alloc_correct_witness:
  "\<exists>r s'. kcm_alloc (page_frame demo_rs) (kcm_page_alloc demo_req 1 0 0) demo_cache = Some (r, s') \<and>
    kcm_ok demo_req 1 0 demo_rs s'"
  using kcm_alloc_correct [OF demo_cache_ok(1,3), of 0] by blast

theorem kcm_free_correct_witness:
  "\<exists>a s'. kcm_free a demo_cache1 = Some s' \<and> kcm_allocated s' = {}"
  by (rule demo_alloc) (use kcm_free_correct [of demo_req 1 0 demo_rs demo_cache1] in fastforce)

theorem kcm_release_correct_witness:
  "\<exists>s'. kcm_release kcm_page_free demo_cache = Some s' \<and> kcm_allocated s' = {}"
  using kcm_release_correct [OF demo_cache_ok(1)] demo_cache_ok(2) by auto

theorem kcm_init_correct_witness:
  "\<exists>e s'. kcm_init (page_frame demo_rs) (kcm_page_alloc demo_req 1 0 0) ''DEMO'' 4032 0 1 3 True True demo_mem
      = Some (e, s') \<and> pa_ok demo_req 1 0 demo_rs (ks_pg s')"
  using kcm_init_correct [of demo_req 1 0 demo_rs demo_mem 4032 0 0 "''DEMO''" 1 3 True True] demo_pa_ok
  by (fastforce simp: demo_mem_def)

theorem kcm_init_small_overflow_witness:
  "\<exists>s'. kcm_init (page_frame demo_rs) (\<lambda>pg. Some (None, pg)) ''SMALL'' 20 16 0 0 False False demo_mem = Some (-1, s') \<and>
    fst (get_block (ks_kcm s') (ks_mem demo_mem 0\<lparr>pi_blk_tbl := 5 * KCM_PAGE_SIZE + 64, pi_current_index := 126,
      pi_bitmap := [0, 0, 0, 0x40000000]\<rparr>)) = Some (6 * KCM_PAGE_SIZE)"
proof -
  have b: "bm_bit [0, 0, 0, 0x40000000] 126" by code_simp
  obtain s' where i: "kcm_init (page_frame demo_rs) (\<lambda>pg. Some (None, pg)) ''SMALL'' 20 16 0 0 False False demo_mem = Some (-1, s')"
    by (simp add: kcm_init_eq kcm_fresh_def freelist_get_def freelist_populate_def upd_kcm_def Let_def)
  show ?thesis
    using kcm_init_small_overflow [OF _ _ _ _ i, of "ks_mem demo_mem 0\<lparr>pi_blk_tbl := 5 * KCM_PAGE_SIZE + 64,
        pi_current_index := 126, pi_bitmap := [0, 0, 0, 0x40000000]\<rparr>" 5] b i by simp
qed

end
