(* ===== verification/HeapManager.thy ===== *)
theory HeapManager
  imports Bits
begin

text \<open>
  The heap of a cluster (\<^verbatim>\<open>kernel/mm/heap_manager.c\<close>, \<^verbatim>\<open>heap_manager.h\<close>): a region cut into
  consecutive blocks, each with a header of eight bytes in front (busy bit, 31-bit size, owner), that
  is searched from \<^verbatim>\<open>next\<close> on and merged with the following free blocks on a free.

  \<open>hs_mem a\<close> is the header at address \<open>a\<close>; under the invariant the headers are at least 64 bytes apart,
  so that no two of them overlap, and the bytes the callers own lie between them. \<open>hs_mgr\<close> holds the
  managers by address: a block names its manager. The loops take fuel; \<open>None\<close> is a loop that does not
  end or the access of a manager that is not there. The spinlock makes each operation atomic. A
  failing \<^verbatim>\<open>assert\<close> only prints.
\<close>

abbreviation CACHE_LINE_SIZE :: uint_t where "CACHE_LINE_SIZE \<equiv> 64"
abbreviation SIZEOF_BLOCK_INFO :: uint_t where "SIZEOF_BLOCK_INFO \<equiv> 8"

record block_info_t =
  bi_busy :: bool
  bi_size :: uint_t
  bi_heap_mgr :: uint_t

record heap_manager_s =
  hm_flags :: uint_t
  hm_base :: uint_t
  hm_start :: uint_t
  hm_limit :: uint_t
  hm_current :: uint_t
  hm_next :: uint_t

type_synonym heap_mem = "uint_t \<Rightarrow> block_info_t"

record heap_sys =
  hs_mem :: heap_mem
  hs_mgr :: "uint_t \<rightharpoonup> heap_manager_s"

text \<open>A store to the 31-bit field \<^verbatim>\<open>size\<close>, and one to \<^verbatim>\<open>busy\<close>.\<close>

definition set_size :: "uint_t \<Rightarrow> uint_t \<Rightarrow> heap_mem \<Rightarrow> heap_mem" where
  "set_size a n mem = mem(a := (mem a)\<lparr>bi_size := take_bit 31 n\<rparr>)"

definition set_busy :: "uint_t \<Rightarrow> bool \<Rightarrow> heap_mem \<Rightarrow> heap_mem" where
  "set_busy a b mem = mem(a := (mem a)\<lparr>bi_busy := b\<rparr>)"

definition heap_manager_init :: "uint_t \<Rightarrow> uint_t \<Rightarrow> uint_t \<Rightarrow> uint_t \<Rightarrow> heap_sys \<Rightarrow> heap_sys" where
  "heap_manager_init h heap_base heap_start heap_limit s =
     s\<lparr>hs_mem := set_busy heap_start False (set_size heap_start (heap_limit - heap_start) (hs_mem s)),
       hs_mgr := (hs_mgr s)(h \<mapsto> \<lparr>hm_flags = 0, hm_base = heap_base, hm_start = heap_start, hm_limit = heap_limit,
         hm_current = heap_start, hm_next = heap_start\<rparr>)\<rparr>"

text \<open>The search loop: \<open>Some None\<close> when the limit is reached.\<close>

fun malloc_search :: "nat \<Rightarrow> heap_mem \<Rightarrow> uint_t \<Rightarrow> uint_t \<Rightarrow> uint_t \<Rightarrow> uint_t option option" where
  "malloc_search 0 mem limit effective_size current = None"
| "malloc_search (Suc fuel) mem limit effective_size current =
     (if bi_busy (mem current) \<or> bi_size (mem current) < effective_size
      then let current = current + bi_size (mem current)
           in if limit \<le> current then Some None else malloc_search fuel mem limit effective_size current
      else Some (Some current))"

definition effective :: "uint_t \<Rightarrow> uint_t" where
  "effective sz = ARROUND_UP (sz + SIZEOF_BLOCK_INFO) CACHE_LINE_SIZE"

definition malloc_start :: "heap_manager_s \<Rightarrow> uint_t \<Rightarrow> uint_t" where
  "malloc_start m effective_size = (if hm_limit m - effective_size < hm_next m then hm_start m else hm_next m)"

definition malloc_take :: "uint_t \<Rightarrow> uint_t \<Rightarrow> uint_t \<Rightarrow> heap_manager_s \<Rightarrow> heap_sys \<Rightarrow> heap_sys" where
  "malloc_take h current effective_size m s =
     (let mem = hs_mem s;
          (mem, m) =
            (if CACHE_LINE_SIZE \<le> bi_size (mem current) - effective_size
             then let next = current + effective_size;
                      mem = set_size next (bi_size (mem current) - effective_size) mem;
                      mem = set_busy next False mem;
                      mem = set_size current effective_size mem
                  in (set_busy current True mem, m\<lparr>hm_next := next\<rparr>)
             else (set_busy current True mem, m))
      in s\<lparr>hs_mem := mem(current := (mem current)\<lparr>bi_heap_mgr := h\<rparr>), hs_mgr := (hs_mgr s)(h \<mapsto> m)\<rparr>)"

definition heap_manager_malloc :: "nat \<Rightarrow> uint_t \<Rightarrow> uint_t \<Rightarrow> heap_sys \<Rightarrow> (uint_t option \<times> heap_sys) option" where
  "heap_manager_malloc fuel h sz s =
     (case hs_mgr s h of None \<Rightarrow> None
      | Some m \<Rightarrow>
        (case malloc_search fuel (hs_mem s) (hm_limit m) (effective sz) (malloc_start m (effective sz)) of
           None \<Rightarrow> None
         | Some None \<Rightarrow> Some (None, s)
         | Some (Some current) \<Rightarrow>
             Some (Some (current + SIZEOF_BLOCK_INFO), malloc_take h current (effective sz) m s)))"

text \<open>The merging loop of \<^verbatim>\<open>heap_manager_free\<close>.\<close>

fun free_merge :: "nat \<Rightarrow> uint_t \<Rightarrow> uint_t \<Rightarrow> heap_mem \<Rightarrow> heap_mem option" where
  "free_merge 0 limit current mem = None"
| "free_merge (Suc fuel) limit current mem =
     (let next = current + bi_size (mem current)
      in if next = 0 \<or> limit \<le> next \<or> bi_busy (mem next) then Some mem
         else free_merge fuel limit current (set_size current (bi_size (mem current) + bi_size (mem next)) mem))"

definition heap_manager_free :: "nat \<Rightarrow> uint_t \<Rightarrow> heap_sys \<Rightarrow> heap_sys option" where
  "heap_manager_free fuel ptr s =
     (if ptr = 0 then Some s
      else let current = ptr - SIZEOF_BLOCK_INFO; h = bi_heap_mgr (hs_mem s current)
           in case hs_mgr s h of None \<Rightarrow> None
              | Some m \<Rightarrow>
                (case free_merge fuel (hm_limit m) current (set_busy current False (hs_mem s)) of
                   None \<Rightarrow> None
                 | Some mem \<Rightarrow> Some (s\<lparr>hs_mem := mem, hs_mgr := (hs_mgr s)(h \<mapsto>
                     (if current < hm_next m then m\<lparr>hm_next := current\<rparr> else m))\<rparr>)))"

section \<open>The chain of blocks\<close>

text \<open>\<open>chain sz a l bs\<close>: the blocks at \<open>bs\<close>, of the sizes \<open>sz\<close>, tile the region from \<open>a\<close> to \<open>l\<close>.\<close>

fun chain :: "(nat \<Rightarrow> nat) \<Rightarrow> nat \<Rightarrow> nat \<Rightarrow> nat list \<Rightarrow> bool" where
  "chain sz a l [] \<longleftrightarrow> a = l"
| "chain sz a l (b # bs) \<longleftrightarrow> b = a \<and> 64 \<le> sz b \<and> 64 dvd b \<and> chain sz (b + sz b) l bs"

definition sizes :: "heap_mem \<Rightarrow> nat \<Rightarrow> nat" where
  "sizes mem b = unat (bi_size (mem (of_nat b)))"

abbreviation busy_at :: "heap_mem \<Rightarrow> nat \<Rightarrow> bool" where "busy_at mem b \<equiv> bi_busy (mem (of_nat b))"

definition heap_inv :: "uint_t \<Rightarrow> heap_manager_s \<Rightarrow> heap_mem \<Rightarrow> nat list \<Rightarrow> bool" where
  "heap_inv h m mem bs \<longleftrightarrow>
     chain (sizes mem) (unat (hm_start m)) (unat (hm_limit m)) bs \<and>
     0 < unat (hm_start m) \<and> unat (hm_limit m) - unat (hm_start m) < 2 ^ 31 \<and>
     unat (hm_next m) \<in> set bs \<and> (\<forall>b \<in> set bs. busy_at mem b \<longrightarrow> bi_heap_mgr (mem (of_nat b)) = h)"

text \<open>The address ranges in use and the free ones.\<close>

definition in_use :: "heap_mem \<Rightarrow> nat list \<Rightarrow> (nat \<times> nat) set" where
  "in_use mem bs = {(b, sizes mem b) | b. b \<in> set bs \<and> busy_at mem b}"

lemma chain_le: "chain sz a l bs \<Longrightarrow> a \<le> l"
  by (induction bs arbitrary: a) fastforce+

lemma chain_append: "chain sz a l (xs @ ys) \<longleftrightarrow> (\<exists>m. chain sz a m xs \<and> chain sz m l ys)"
  by (induction xs arbitrary: a) auto

lemma chain_cong: "(\<And>x. x \<in> set bs \<Longrightarrow> sz x = sz' x) \<Longrightarrow> chain sz a l bs \<longleftrightarrow> chain sz' a l bs"
  by (induction bs arbitrary: a) auto

lemma chain_member: "chain sz a l bs \<Longrightarrow> b \<in> set bs \<Longrightarrow> a \<le> b \<and> b + sz b \<le> l \<and> 64 \<le> sz b \<and> 64 dvd b"
proof (induction bs arbitrary: a)
  case (Cons c bs)
  then show ?case using chain_le [of sz "c + sz c" l bs] by fastforce
qed simp

lemma chain_split:
  assumes "chain sz a l (xs @ c # ys)"
  shows "chain sz a c xs" "chain sz (c + sz c) l ys" "\<forall>x \<in> set xs. x + sz x \<le> c" "\<forall>y \<in> set ys. c + sz c \<le> y"
    "c \<notin> set xs" "c \<notin> set ys" "64 \<le> sz c" "64 dvd c" "a \<le> c" "c + sz c \<le> l"
proof -
  show x: "chain sz a c xs" "chain sz (c + sz c) l ys" "64 \<le> sz c" "64 dvd c" using assms by (auto simp: chain_append)
  show "\<forall>x \<in> set xs. x + sz x \<le> c" "\<forall>y \<in> set ys. c + sz c \<le> y"
    using chain_member [OF x(1)] chain_member [OF x(2)] by auto
  then show "c \<notin> set xs" "c \<notin> set ys" using chain_member [OF x(1)] x(3) by fastforce+
  show "a \<le> c" "c + sz c \<le> l" using chain_le x by auto
qed

lemma chain_disjoint:
  assumes "chain sz a l bs" "b \<in> set bs" "c \<in> set bs" "b \<noteq> c"
  shows "b + sz b \<le> c \<or> c + sz c \<le> b"
proof -
  obtain xs ys where "bs = xs @ b # ys" using assms(2) by (auto simp: in_set_conv_decomp)
  then show ?thesis using chain_split(3,4) [of sz a l xs b ys] assms by auto
qed

lemma chain_det: "chain sz a l bs \<Longrightarrow> chain sz a l' bs \<Longrightarrow> l = l'"
  by (induction bs arbitrary: a) auto

lemma chain_distinct: "chain sz a l bs \<Longrightarrow> distinct bs"
proof (induction bs arbitrary: a)
  case (Cons b bs)
  then show ?case using chain_split(6) [of sz a l "[]" b bs] by auto
qed simp

section \<open>The search\<close>

abbreviation fits :: "heap_mem \<Rightarrow> uint_t \<Rightarrow> nat \<Rightarrow> bool" where
  "fits mem eff b \<equiv> \<not> busy_at mem b \<and> unat eff \<le> sizes mem b"

lemma of_nat_add_size: "of_nat b + bi_size (mem (of_nat b)) = (of_nat (b + sizes mem b) :: uint_t)"
  by (simp add: sizes_def)

lemma le_of_nat: "n \<le> unat (limit :: uint_t) \<Longrightarrow> limit \<le> of_nat n \<longleftrightarrow> n = unat limit"
  using unat_lt_32 [of limit] unat_of_nat_32 [of n] by (auto simp: word_le_nat_alt)

lemma malloc_search_find:
  assumes "chain (sizes mem) a (unat limit) bs" "bs \<noteq> []" "length bs \<le> n"
  shows "malloc_search n mem limit eff (of_nat a) = Some (map_option of_nat (find (fits mem eff) bs))"
  using assms
proof (induction bs arbitrary: a n)
  case (Cons b bs)
  then obtain k where k: "n = Suc k" by (cases n) auto
  have b: "b = a" "chain (sizes mem) (a + sizes mem a) (unat limit) bs" using Cons.prems(1) by auto
  have le: "a + sizes mem a \<le> unat limit" using chain_le [OF b(2)] .
  have f: "bi_busy (mem (of_nat a)) \<or> bi_size (mem (of_nat a)) < eff \<longleftrightarrow> \<not> fits mem eff a"
    by (auto simp: sizes_def word_less_nat_alt)
  show ?case
  proof (cases "fits mem eff a")
    case True
    then show ?thesis unfolding k malloc_search.simps f using b(1) by simp
  next
    case False
    have e: "a + sizes mem a = unat limit \<longleftrightarrow> bs = []"
      using b(2) chain_member [OF b(2), of "hd bs"] by (cases bs) auto
    show ?thesis
    proof (cases "bs = []")
      case True
      then show ?thesis using False e b(1)
        unfolding k malloc_search.simps f of_nat_add_size by (simp add: Let_def)
    next
      case ne: False
      then have "a + sizes mem a \<noteq> unat limit" using e by blast
      then have "\<not> limit \<le> of_nat (a + sizes mem a)" using le_of_nat [OF le] by simp
      moreover have "malloc_search k mem limit eff (of_nat (a + sizes mem a)) = Some (map_option of_nat (find (fits mem eff) bs))"
        using Cons.IH [OF b(2) ne] Cons.prems(3) k by simp
      ultimately show ?thesis
        unfolding k malloc_search.simps f of_nat_add_size Let_def find.simps b(1) by (simp only: False if_False if_True simp_thms)
    qed
  qed
qed simp

text \<open>The blocks the search looks at.\<close>

definition candidates :: "heap_manager_s \<Rightarrow> uint_t \<Rightarrow> nat list \<Rightarrow> nat list" where
  "candidates m eff bs = (if hm_limit m - eff < hm_next m then bs else dropWhile (\<lambda>b. b \<noteq> unat (hm_next m)) bs)"

lemma candidates_chain:
  assumes "heap_inv h m mem bs"
  shows "chain (sizes mem) (unat (malloc_start m eff)) (unat (hm_limit m)) (candidates m eff bs)"
    "candidates m eff bs \<noteq> []" "set (candidates m eff bs) \<subseteq> set bs" "length (candidates m eff bs) \<le> length bs"
proof -
  let ?P = "\<lambda>b. b \<noteq> unat (hm_next m)"
  have c: "chain (sizes mem) (unat (hm_start m)) (unat (hm_limit m)) bs" "unat (hm_next m) \<in> set bs"
    using assms by (auto simp: heap_inv_def)
  obtain ys where d: "dropWhile ?P bs = unat (hm_next m) # ys"
    using c(2) by (metis (mono_tags, lifting) dropWhile_eq_Nil_conv hd_dropWhile list.exhaust_sel)
  have "chain (sizes mem) (unat (hm_start m)) (unat (hm_limit m)) (takeWhile ?P bs @ unat (hm_next m) # ys)"
    using c(1) d by (metis takeWhile_dropWhile_id)
  then have "chain (sizes mem) (unat (hm_next m)) (unat (hm_limit m)) (dropWhile ?P bs)"
    using d by (auto simp: chain_append)
  then show "chain (sizes mem) (unat (malloc_start m eff)) (unat (hm_limit m)) (candidates m eff bs)"
    using c by (simp add: candidates_def malloc_start_def)
  show "candidates m eff bs \<noteq> []" using d c(2) by (auto simp: candidates_def)
  show "set (candidates m eff bs) \<subseteq> set bs" by (auto simp: candidates_def dest: set_dropWhileD)
  show "length (candidates m eff bs) \<le> length bs" by (simp add: candidates_def length_dropWhile_le)
qed

lemma malloc_search_ok:
  assumes "heap_inv h m mem bs" "length bs \<le> n"
  shows "malloc_search n mem (hm_limit m) eff (malloc_start m eff) =
    Some (map_option of_nat (find (fits mem eff) (candidates m eff bs)))"
proof -
  note c = candidates_chain [OF assms(1), of eff]
  have "malloc_start m eff = of_nat (unat (malloc_start m eff))" by simp
  then show ?thesis using malloc_search_find [OF c(1,2), of n eff] c(4) assms(2) by simp
qed

section \<open>Taking a block\<close>

lemma take_bit_31: "unat n < 2 ^ 31 \<Longrightarrow> take_bit 31 (n :: uint_t) = n"
  by (metis take_bit_nat_eq_self unsigned_take_bit_eq word_unat_eq_iff)

lemma of_nat_inj_32: "b < 2 ^ 32 \<Longrightarrow> c < 2 ^ 32 \<Longrightarrow> (of_nat b :: uint_t) = of_nat c \<longleftrightarrow> b = c"
  by (metis unat_of_nat_32)

lemma effective_bounds:
  assumes "unat sz + 71 < 2 ^ 32"
  shows "unat (effective sz) = (unat sz + 71) div 64 * 64" "unat sz + 8 \<le> unat (effective sz)" "64 \<le> unat (effective sz)"
    "64 dvd unat (effective sz)"
proof -
  have u: "unat (sz + 8) = unat sz + 8" using assms by (simp add: unat_word_ariths)
  have e: "unat (effective sz) = (unat sz + 71) div 64 * 64"
    using ARROUND_UP_pow2 [of 6 "sz + 8"] assms u by (simp add: effective_def)
  show "unat (effective sz) = (unat sz + 71) div 64 * 64" by (rule e)
  show "unat sz + 8 \<le> unat (effective sz)" "64 \<le> unat (effective sz)" "64 dvd unat (effective sz)"
    unfolding e using div_mult_mod_eq [of "unat sz + 71" 64] mod_less_divisor [of 64 "unat sz + 71"] by simp_all
qed

text \<open>Replacing a stretch of the chain by one that covers the same addresses.\<close>

lemma chain_replace:
  assumes "chain sz a l (xs @ ws @ ys)" "\<And>i j. chain sz i j ws \<Longrightarrow> chain sz' i j zs"
    "\<And>x. x \<in> set xs \<union> set ys \<Longrightarrow> sz' x = sz x"
  shows "chain sz' a l (xs @ zs @ ys)"
proof -
  obtain i j where "chain sz a i xs" "chain sz i j ws" "chain sz j l ys" using assms(1) by (auto simp: chain_append)
  then show ?thesis
    using assms(2) [of i j] chain_cong [of xs sz sz' a i] chain_cong [of ys sz sz' j l] assms(3)
    by (auto simp: chain_append)
qed

lemma heap_addr_lt:
  assumes "heap_inv h m mem bs" "b \<in> set bs"
  shows "b + sizes mem b \<le> unat (hm_limit m)" "b < 2 ^ 32" "sizes mem b < 2 ^ 31" "64 \<le> sizes mem b" "0 < b" "64 dvd b"
proof -
  have c: "chain (sizes mem) (unat (hm_start m)) (unat (hm_limit m)) bs" "0 < unat (hm_start m)"
    "unat (hm_limit m) - unat (hm_start m) < 2 ^ 31" using assms(1) by (auto simp: heap_inv_def)
  note k = chain_member [OF c(1) assms(2)]
  show "b + sizes mem b \<le> unat (hm_limit m)" "64 \<le> sizes mem b" "64 dvd b" "0 < b" using k c by auto
  show "b < 2 ^ 32" using k unat_lt_32 [of "hm_limit m"] by linarith
  show "sizes mem b < 2 ^ 31" using k c(3) by linarith
qed

text \<open>What a header change does to the view of the other blocks.\<close>

lemma in_use_replace:
  assumes "distinct (xs @ ws @ ys)"
    "\<And>x. x \<in> set xs \<union> set ys \<Longrightarrow> sizes mem' x = sizes mem x \<and> busy_at mem' x = busy_at mem x"
  shows "in_use mem' (xs @ zs @ ys) = in_use mem (xs @ ws @ ys) - in_use mem ws \<union> in_use mem' zs"
  using assms by (fastforce simp: in_use_def)

lemma malloc_take_mem:
  fixes h :: uint_t and m :: heap_manager_s
  assumes "sizes mem c < 2 ^ 31" "unat eff \<le> sizes mem c" "64 \<le> unat eff" "c + sizes mem c < 2 ^ 32" "hs_mem s = mem"
  defines "n \<equiv> c + unat eff"
  defines "mem' \<equiv> hs_mem (malloc_take h (of_nat c) eff m s)"
  shows "busy_at mem' c" "bi_heap_mgr (mem' (of_nat c)) = h"
    "sizes mem' c = (if 64 \<le> sizes mem c - unat eff then unat eff else sizes mem c)"
    "64 \<le> sizes mem c - unat eff \<Longrightarrow> sizes mem' n = sizes mem c - unat eff \<and> \<not> busy_at mem' n"
    "b < 2 ^ 32 \<Longrightarrow> b \<noteq> c \<Longrightarrow> b \<noteq> n \<or> \<not> 64 \<le> sizes mem c - unat eff \<Longrightarrow> mem' (of_nat b) = mem (of_nat b)"
    "hs_mgr (malloc_take h (of_nat c) eff m s) = (hs_mgr s)(h \<mapsto>
       (if 64 \<le> sizes mem c - unat eff then m\<lparr>hm_next := of_nat n\<rparr> else m))"
proof -
  have le: "eff \<le> bi_size (mem (of_nat c))" using assms(2) by (simp add: sizes_def word_le_nat_alt)
  then have d: "unat (bi_size (mem (of_nat c)) - eff) = sizes mem c - unat eff" by (simp add: sizes_def unat_sub)
  have g: "64 \<le> bi_size (mem (of_nat c)) - eff \<longleftrightarrow> 64 \<le> sizes mem c - unat eff" by (simp add: word_le_nat_alt d)
  have n: "of_nat c + eff = of_nat n" by (simp add: n_def)
  have lt: "c < 2 ^ 32" "n < 2 ^ 32" using assms(2,4) by (simp_all add: n_def)
  have ne: "of_nat n \<noteq> (of_nat c :: uint_t)" using of_nat_inj_32 [of n c] assms(2-4) by (simp add: n_def)
  have t: "take_bit 31 (bi_size (mem (of_nat c)) - eff) = bi_size (mem (of_nat c)) - eff" "take_bit 31 eff = eff"
    using assms(1,2) by (auto intro!: take_bit_31 simp: d)
  note defs = malloc_take_def mem'_def set_size_def set_busy_def Let_def g n t assms(5) sizes_def
  show "busy_at mem' c" "bi_heap_mgr (mem' (of_nat c)) = h"
    "sizes mem' c = (if 64 \<le> sizes mem c - unat eff then unat eff else sizes mem c)"
    using ne by (simp_all add: defs split: if_splits)
  show "64 \<le> sizes mem c - unat eff \<Longrightarrow> sizes mem' n = sizes mem c - unat eff \<and> \<not> busy_at mem' n"
    using ne d by (simp add: defs)
  show "b < 2 ^ 32 \<Longrightarrow> b \<noteq> c \<Longrightarrow> b \<noteq> n \<or> \<not> 64 \<le> sizes mem c - unat eff \<Longrightarrow> mem' (of_nat b) = mem (of_nat b)"
    using of_nat_inj_32 [OF _ lt(1), of b] of_nat_inj_32 [OF _ lt(2), of b] by (auto simp: defs)
  show "hs_mgr (malloc_take h (of_nat c) eff m s) = (hs_mgr s)(h \<mapsto>
       (if 64 \<le> sizes mem c - unat eff then m\<lparr>hm_next := of_nat n\<rparr> else m))"
    by (simp add: defs)
qed

lemma malloc_take_ok:
  assumes "hs_mgr s h = Some m" "heap_inv h m (hs_mem s) bs" "c \<in> set bs" "fits (hs_mem s) eff c"
    "64 \<le> unat eff" "64 dvd unat eff"
  defines "s' \<equiv> malloc_take h (of_nat c) eff m s"
  shows "\<exists>m' bs'. hs_mgr s' = (hs_mgr s)(h \<mapsto> m') \<and> heap_inv h m' (hs_mem s') bs' \<and>
    hm_start m' = hm_start m \<and> hm_limit m' = hm_limit m \<and>
    in_use (hs_mem s') bs' = insert (c, sizes (hs_mem s') c) (in_use (hs_mem s) bs) \<and>
    unat eff \<le> sizes (hs_mem s') c \<and> sizes (hs_mem s') c < unat eff + 64 \<and> sizes (hs_mem s') c \<le> sizes (hs_mem s) c \<and>
    (\<forall>b < 2 ^ 32. b < unat (hm_start m) \<or> unat (hm_limit m) \<le> b \<longrightarrow> hs_mem s' (of_nat b) = hs_mem s (of_nat b))"
proof -
  let ?mem = "hs_mem s" and ?mem' = "hs_mem s'" and ?n = "c + unat eff"
  let ?split = "64 \<le> sizes ?mem c - unat eff"
  define zs where "zs = (if ?split then [c, ?n] else [c])"
  define m' where "m' = (if ?split then m\<lparr>hm_next := of_nat ?n\<rparr> else m)"
  note a = heap_addr_lt [OF assms(2)]
  note ac = a [OF assms(3)]
  have lt: "c + sizes ?mem c < 2 ^ 32" using ac(1) unat_lt_32 [of "hm_limit m"] by linarith
  note t = malloc_take_mem [OF ac(3) _ assms(5) lt refl, where h = h and m = m, folded s'_def]
  have e: "unat eff \<le> sizes ?mem c" using assms(4) by blast
  obtain xs ys where bs: "bs = xs @ [c] @ ys" using assms(3) by (auto simp: in_set_conv_decomp)
  have ch: "chain (sizes ?mem) (unat (hm_start m)) (unat (hm_limit m)) (xs @ [c] @ ys)" using assms(2) bs by (simp add: heap_inv_def)
  note sp = chain_split [of "sizes ?mem", OF ch [simplified]]
  have n_lt: "?n < 2 ^ 32" using lt e by linarith
  have other: "?mem' (of_nat x) = ?mem (of_nat x)" if x: "x \<in> set xs \<union> set ys" for x
  proof -
    have "x \<noteq> c" "x \<noteq> ?n \<or> \<not> ?split" using x sp(3-6) e assms(5) by auto
    then show ?thesis using t(5) [OF e, of x] a(2) [of x] x bs by auto
  qed
  then have same: "sizes ?mem' x = sizes ?mem x \<and> busy_at ?mem' x = busy_at ?mem x" if "x \<in> set xs \<union> set ys" for x
    using that by (simp add: sizes_def)
  have sz: "sizes ?mem' c = (if ?split then unat eff else sizes ?mem c)" using t(3) [OF e] .
  have "chain (sizes ?mem') i j zs" if "chain (sizes ?mem) i j [c]" for i j
    using that sz t(4) [OF e] e assms(5,6) by (auto simp: zs_def)
  then have ch': "chain (sizes ?mem') (unat (hm_start m)) (unat (hm_limit m)) (xs @ zs @ ys)"
    using chain_replace [OF ch] same by blast
  have next': "unat (hm_next m') \<in> set (xs @ zs @ ys)"
    using assms(2) n_lt unat_of_nat_32 [OF n_lt] by (auto simp: m'_def zs_def heap_inv_def bs)
  have own: "bi_heap_mgr (?mem' (of_nat b)) = h" if "b \<in> set (xs @ zs @ ys)" "busy_at ?mem' b" for b
    using that t(2,4) [OF e] other assms(2) by (auto simp: zs_def heap_inv_def bs split: if_splits)
  have inv': "heap_inv h m' ?mem' (xs @ zs @ ys)"
    unfolding heap_inv_def using ch' next' own assms(2) by (auto simp: heap_inv_def m'_def)
  have "in_use ?mem [c] = {}" using assms(4) by (auto simp: in_use_def)
  moreover have "in_use ?mem' zs = {(c, sizes ?mem' c)}" using t(1,4) [OF e] by (auto simp: in_use_def zs_def)
  ultimately have use: "in_use ?mem' (xs @ zs @ ys) = insert (c, sizes ?mem' c) (in_use ?mem bs)"
    using in_use_replace [of xs "[c]" ys ?mem' ?mem zs] chain_distinct [OF ch] same bs by auto
  have "hs_mgr s' = (hs_mgr s)(h \<mapsto> m')" using t(6) [OF e] by (simp add: m'_def)
  moreover have "hm_start m' = hm_start m" "hm_limit m' = hm_limit m" by (simp_all add: m'_def)
  moreover have "?mem' (of_nat b) = ?mem (of_nat b)" if "b < 2 ^ 32" "b < unat (hm_start m) \<or> unat (hm_limit m) \<le> b" for b
    using t(5) [OF e that(1)] that(2) sp(9,10) e assms(5) by auto
  ultimately show ?thesis using inv' use sz e by (intro exI [of _ m'] exI [of _ "xs @ zs @ ys"]) auto
qed

lemma malloc_ok:
  assumes "hs_mgr s h = Some m" "heap_inv h m (hs_mem s) bs" "length bs \<le> n" "unat sz + 71 < 2 ^ 32"
  shows "case find (fits (hs_mem s) (effective sz)) (candidates m (effective sz) bs) of
      None \<Rightarrow> heap_manager_malloc n h sz s = Some (None, s)
    | Some c \<Rightarrow> c \<in> set bs \<and> \<not> busy_at (hs_mem s) c \<and> unat (effective sz) \<le> sizes (hs_mem s) c \<and>
        heap_manager_malloc n h sz s = Some (Some (of_nat (c + 8)), malloc_take h (of_nat c) (effective sz) m s)"
proof -
  note f = malloc_search_ok [OF assms(2,3), of "effective sz"]
  show ?thesis
  proof (cases "find (fits (hs_mem s) (effective sz)) (candidates m (effective sz) bs)")
    case None
    then show ?thesis using f assms(1) by (simp add: heap_manager_malloc_def)
  next
    case (Some c)
    then have "c \<in> set (candidates m (effective sz) bs)" "fits (hs_mem s) (effective sz) c"
      by (auto simp: find_Some_iff)
    then show ?thesis using f assms(1) Some candidates_chain(3) [OF assms(2)]
      by (auto simp: heap_manager_malloc_def add.commute)
  qed
qed

section \<open>Giving a block back\<close>

lemma free_merge_ok:
  assumes "chain (sizes mem) c j (c # fs)" "\<forall>f \<in> set fs. \<not> busy_at mem f" "0 < c" "j \<le> unat limit"
    "j = unat limit \<or> busy_at mem j" "j - c < 2 ^ 31" "length fs < n"
  shows "free_merge n limit (of_nat c) mem = Some (mem(of_nat c := (mem (of_nat c))\<lparr>bi_size := of_nat (j - c)\<rparr>))"
  using assms
proof (induction fs arbitrary: mem n)
  case Nil
  obtain k where k: "n = Suc k" using Nil.prems(7) by (cases n) auto
  have j: "j = c + sizes mem c" using Nil.prems(1) by simp
  have lt: "j < 2 ^ 32" using Nil.prems(4) unat_lt_32 [of limit] by linarith
  have "(of_nat j :: uint_t) \<noteq> 0" using of_nat_inj_32 [OF lt, of 0] j Nil.prems(1,3) by auto
  moreover have "limit \<le> of_nat j \<or> busy_at mem j" using Nil.prems(5) le_of_nat [OF Nil.prems(4)] by blast
  moreover have "mem(of_nat c := (mem (of_nat c))\<lparr>bi_size := of_nat (j - c)\<rparr>) = mem"
    by (rule ext) (simp add: j sizes_def)
  ultimately show ?case unfolding k free_merge.simps of_nat_add_size j [symmetric] by (simp add: Let_def)
next
  case (Cons f fs)
  obtain k where k: "n = Suc k" using Cons.prems(7) by (cases n) auto
  have f: "f = c + sizes mem c" "64 \<le> sizes mem c" "64 \<le> sizes mem f" and ch: "chain (sizes mem) (f + sizes mem f) j fs"
    and dv: "64 dvd c" using Cons.prems(1) by auto
  have fj: "f + sizes mem f \<le> j" using chain_le [OF ch] .
  have lt: "f < 2 ^ 32" "c < 2 ^ 32" using fj f Cons.prems(4) unat_lt_32 [of limit] by linarith+
  define mem1 where "mem1 = set_size (of_nat c) (bi_size (mem (of_nat c)) + bi_size (mem (of_nat f))) mem"
  have u: "unat (bi_size (mem (of_nat c)) + bi_size (mem (of_nat f))) = sizes mem c + sizes mem f"
    using fj f Cons.prems(6) by (simp add: unat_word_ariths sizes_def)
  have s1: "sizes mem1 c = sizes mem c + sizes mem f"
    using u fj f Cons.prems(6) by (simp add: mem1_def set_size_def sizes_def take_bit_31)
  have same: "mem1 (of_nat x) = mem (of_nat x)" if "c < x" "x \<le> j" for x
    using that of_nat_inj_32 [of x c] Cons.prems(4) unat_lt_32 [of limit] by (simp add: mem1_def set_size_def)
  have mem: "c < x \<and> x < j" if "x \<in> set fs" for x using chain_member [OF ch that] f by auto
  have "sizes mem1 x = sizes mem x" if "x \<in> set fs" for x using same [of x] mem [OF that] by (simp add: sizes_def)
  then have "chain (sizes mem1) (c + sizes mem1 c) j fs"
    using chain_cong [of fs "sizes mem1" "sizes mem"] ch s1 f(1) by (simp add: add.assoc)
  then have c1: "chain (sizes mem1) c j (c # fs)" using s1 f(2) dv by simp
  have "free_merge k limit (of_nat c) mem1 = Some (mem1(of_nat c := (mem1 (of_nat c))\<lparr>bi_size := of_nat (j - c)\<rparr>))"
  proof (rule Cons.IH [OF c1])
    show "\<forall>f \<in> set fs. \<not> busy_at mem1 f" using Cons.prems(2) same mem by fastforce
    show "j = unat limit \<or> busy_at mem1 j" using Cons.prems(5) same [of j] fj f by auto
  qed (use Cons.prems(3,4,6,7) k in auto)
  moreover have "\<not> limit \<le> of_nat f" using le_of_nat [of f limit] fj f Cons.prems(4) by auto
  moreover have "(of_nat f :: uint_t) \<noteq> 0" using of_nat_inj_32 [OF lt(1), of 0] f by auto
  moreover have "\<not> busy_at mem f" using Cons.prems(2) by simp
  moreover have "mem1(of_nat c := (mem1 (of_nat c))\<lparr>bi_size := w\<rparr>) = mem(of_nat c := (mem (of_nat c))\<lparr>bi_size := w\<rparr>)" for w
    by (rule ext) (simp add: mem1_def set_size_def)
  ultimately show ?case unfolding k free_merge.simps of_nat_add_size f(1) [symmetric] mem1_def by (simp add: Let_def fun_upd_def)
qed

text \<open>The headers after a free that merges the block \<open>c\<close> with the free blocks up to \<open>j\<close>.\<close>

definition merged :: "nat \<Rightarrow> nat \<Rightarrow> heap_mem \<Rightarrow> heap_mem" where
  "merged c j mem = mem(of_nat c := (mem (of_nat c))\<lparr>bi_busy := False, bi_size := of_nat (j - c)\<rparr>)"

lemma merged_facts:
  assumes "c < 2 ^ 32" "j - c < 2 ^ 31"
  shows "sizes (merged c j mem) c = j - c" "\<not> busy_at (merged c j mem) c"
    "x \<noteq> c \<Longrightarrow> x < 2 ^ 32 \<Longrightarrow> merged c j mem (of_nat x) = mem (of_nat x)"
  using assms of_nat_inj_32 [of x c] unat_of_nat_32 [of "j - c"] by (simp_all add: merged_def sizes_def)

lemma free_run:
  assumes "hs_mgr s h = Some m" "heap_inv h m (hs_mem s) (xs @ c # fs @ ys)" "busy_at (hs_mem s) c"
    "\<forall>f \<in> set fs. \<not> busy_at (hs_mem s) f" "ys = [] \<or> busy_at (hs_mem s) (hd ys)" "length fs < n"
    "chain (sizes (hs_mem s)) c j (c # fs)" "chain (sizes (hs_mem s)) j (unat (hm_limit m)) ys" "j - c < 2 ^ 31"
  shows "heap_manager_free n (of_nat (c + 8)) s = Some (s\<lparr>hs_mem := merged c j (hs_mem s), hs_mgr := (hs_mgr s)(h \<mapsto>
      (if (of_nat c :: uint_t) < hm_next m then m\<lparr>hm_next := of_nat c\<rparr> else m))\<rparr>)"
proof -
  let ?mem = "hs_mem s"
  define mem0 where "mem0 = set_busy (of_nat c) False ?mem"
  note a = heap_addr_lt [OF assms(2)]
  have dist: "distinct (xs @ c # fs @ ys)" using chain_distinct assms(2) unfolding heap_inv_def by blast
  have c: "0 < c" "c < 2 ^ 32" "c + 8 < 2 ^ 32" using a(1,2,4,5) [of c] unat_lt_32 [of "hm_limit m"] by auto
  have same0: "mem0 (of_nat x) = ?mem (of_nat x)" if "x \<noteq> c" "x < 2 ^ 32" for x
    using that of_nat_inj_32 [OF that(2) c(2)] by (simp add: mem0_def set_busy_def)
  have s0: "sizes mem0 = sizes ?mem" by (rule ext) (simp add: sizes_def mem0_def set_busy_def)
  have "j = unat (hm_limit m) \<or> busy_at mem0 j"
  proof (cases ys)
    case (Cons y ys')
    then have "y = j" "busy_at ?mem y" using assms(5,8) by auto
    moreover have "y \<noteq> c" "y < 2 ^ 32" using dist Cons a(2) [of y] by auto
    ultimately show ?thesis using same0 [of j] by simp
  qed (use assms(8) in simp)
  moreover have "\<forall>f \<in> set fs. \<not> busy_at mem0 f" using assms(4) dist a(2) same0 by fastforce
  ultimately have fm: "free_merge n (hm_limit m) (of_nat c) mem0 =
      Some (mem0(of_nat c := (mem0 (of_nat c))\<lparr>bi_size := of_nat (j - c)\<rparr>))"
    using free_merge_ok [of mem0 c j fs "hm_limit m" n] assms(6,7,9) s0 c(1) chain_le [OF assms(8)] by auto
  have eq: "mem0(of_nat c := (mem0 (of_nat c))\<lparr>bi_size := w\<rparr>) = ?mem(of_nat c := (?mem (of_nat c))\<lparr>bi_busy := False, bi_size := w\<rparr>)" for w
    by (rule ext) (simp add: mem0_def set_busy_def)
  have h: "bi_heap_mgr (?mem (of_nat c)) = h" using assms(2,3) by (simp add: heap_inv_def)
  have ptr: "(of_nat (c + 8) :: uint_t) \<noteq> 0" "of_nat (c + 8) - 8 = (of_nat c :: uint_t)"
    using of_nat_inj_32 [OF c(3), of 0] by auto
  show ?thesis unfolding heap_manager_free_def ptr(2) Let_def h merged_def eq [symmetric]
    using ptr(1) fm assms(1) by (simp add: mem0_def del: of_nat_add)
qed

lemma free_ok:
  assumes "hs_mgr s h = Some m" "heap_inv h m (hs_mem s) (xs @ c # fs @ ys)" "busy_at (hs_mem s) c"
    "\<forall>f \<in> set fs. \<not> busy_at (hs_mem s) f" "ys = [] \<or> busy_at (hs_mem s) (hd ys)" "length fs < n"
  shows "\<exists>s' m'. heap_manager_free n (of_nat (c + 8)) s = Some s' \<and> hs_mgr s' = (hs_mgr s)(h \<mapsto> m') \<and>
    heap_inv h m' (hs_mem s') (xs @ c # ys) \<and> hm_start m' = hm_start m \<and> hm_limit m' = hm_limit m \<and>
    in_use (hs_mem s') (xs @ c # ys) = in_use (hs_mem s) (xs @ c # fs @ ys) - {(c, sizes (hs_mem s) c)} \<and>
    \<not> busy_at (hs_mem s') c \<and>
    (\<forall>b < 2 ^ 32. b < unat (hm_start m) \<or> unat (hm_limit m) \<le> b \<longrightarrow> hs_mem s' (of_nat b) = hs_mem s (of_nat b))"
proof -
  let ?mem = "hs_mem s" and ?bs = "xs @ (c # fs) @ ys"
  note a = heap_addr_lt [OF assms(2)]
  have ch: "chain (sizes ?mem) (unat (hm_start m)) (unat (hm_limit m)) ?bs" using assms(2) by (simp add: heap_inv_def)
  note dist = chain_distinct [OF ch]
  obtain j where j: "chain (sizes ?mem) c j (c # fs)" "chain (sizes ?mem) j (unat (hm_limit m)) ys"
    using ch by (auto simp: chain_append)
  have c0: "c < 2 ^ 32" using a(2) [of c] by auto
  have jc: "j - c < 2 ^ 31"
    using assms(2) chain_le [OF j(2)] chain_split(9) [of "sizes ?mem" "unat (hm_start m)" "unat (hm_limit m)" xs c "fs @ ys"] ch
    unfolding heap_inv_def by auto
  define mem' where "mem' = merged c j ?mem"
  define m' where "m' = (if (of_nat c :: uint_t) < hm_next m then m\<lparr>hm_next := of_nat c\<rparr> else m)"
  note run = free_run [OF assms j jc, folded mem'_def m'_def]
  note mf = merged_facts [OF c0 jc, where mem = ?mem, folded mem'_def]
  have same: "mem' (of_nat x) = ?mem (of_nat x)" if "x \<in> set xs \<union> set ys" for x
    using that dist a(2) [of x] mf(3) [where x = x] by auto
  then have same_size: "sizes mem' x = sizes ?mem x" if "x \<in> set xs \<union> set ys" for x using that by (simp add: sizes_def)
  have cj: "c + 64 \<le> j" "64 dvd c" using j(1) chain_le [of "sizes ?mem" "c + sizes ?mem c" j fs] by auto
  have "chain (sizes mem') i k [c]" if "chain (sizes ?mem) i k (c # fs)" for i k
    using that chain_det [of "sizes ?mem" c j "c # fs" k] j(1) mf(1) cj by auto
  then have ch': "chain (sizes mem') (unat (hm_start m)) (unat (hm_limit m)) (xs @ [c] @ ys)"
    using chain_replace [OF ch] same_size by blast
  have cn: "of_nat c < hm_next m \<longleftrightarrow> c < unat (hm_next m)" using unat_of_nat_32 [OF c0] by (simp add: word_less_nat_alt)
  have "unat (hm_next m') \<in> set (xs @ [c] @ ys)"
  proof (cases "c < unat (hm_next m)")
    case False
    have "\<forall>f \<in> set fs. c < f" using chain_split(4,7) [of "sizes ?mem" c j "[]" c fs] j(1) by fastforce
    then show ?thesis using assms(2) False cn by (auto simp: heap_inv_def m'_def)
  qed (use cn unat_of_nat_32 [OF c0] in \<open>simp add: m'_def\<close>)
  moreover have "bi_heap_mgr (mem' (of_nat b)) = h" if "b \<in> set (xs @ [c] @ ys)" "busy_at mem' b" for b
    using that same mf(2) assms(2) by (auto simp: heap_inv_def)
  ultimately have inv: "heap_inv h m' mem' (xs @ c # ys)" using ch' assms(2) by (auto simp: heap_inv_def m'_def)
  have "in_use ?mem (c # fs) = {(c, sizes ?mem c)}" "in_use mem' [c] = {}"
    using assms(3,4) mf(2) by (auto simp: in_use_def)
  then have "in_use mem' (xs @ [c] @ ys) = in_use ?mem ?bs - {(c, sizes ?mem c)}"
    using in_use_replace [OF dist, of mem' ?mem "[c]"] same same_size by auto
  moreover have "mem' (of_nat b) = ?mem (of_nat b)" if "b < 2 ^ 32" "b < unat (hm_start m) \<or> unat (hm_limit m) \<le> b" for b
    using mf(3) [where x = b] that chain_member [OF ch, of c] cj(1) by auto
  moreover have "hm_start m' = hm_start m" "hm_limit m' = hm_limit m" by (simp_all add: m'_def)
  ultimately show ?thesis using run inv mf(2)
    by (intro exI [of _ "s\<lparr>hs_mem := mem', hs_mgr := (hs_mgr s)(h \<mapsto> m')\<rparr>"] exI [of _ m']) simp
qed

section \<open>A new heap, and sizes that wrap around\<close>

lemma heap_init_ok:
  fixes h base :: uint_t and s :: heap_sys
  assumes "64 dvd unat heap_start" "unat heap_start + 64 \<le> unat heap_limit" "unat heap_limit - unat heap_start < 2 ^ 31"
    "0 < heap_start"
  defines "s' \<equiv> heap_manager_init h base heap_start heap_limit s"
  shows "\<exists>m. hs_mgr s' h = Some m \<and> hm_start m = heap_start \<and> hm_limit m = heap_limit \<and> hm_next m = heap_start \<and>
    heap_inv h m (hs_mem s') [unat heap_start] \<and> in_use (hs_mem s') [unat heap_start] = {} \<and>
    sizes (hs_mem s') (unat heap_start) = unat heap_limit - unat heap_start"
proof -
  have le: "heap_start \<le> heap_limit" using assms(2) by (simp add: word_le_nat_alt)
  have "unat (take_bit 31 (heap_limit - heap_start)) = unat heap_limit - unat heap_start"
    using take_bit_31 [of "heap_limit - heap_start"] assms(3) le by (simp add: unat_sub)
  moreover have "0 < unat heap_start" using assms(4) by (simp add: word_less_nat_alt)
  ultimately show ?thesis
    using assms by (simp add: heap_manager_init_def set_size_def set_busy_def heap_inv_def sizes_def in_use_def)
qed

lemma effective_wrap:
  assumes "2 ^ 32 - 71 \<le> unat sz" "unat sz \<le> 2 ^ 32 - 8"
  shows "effective sz = 0"
proof (cases "sz = 0xFFFFFFF8")
  case False
  then have ne: "unat sz \<noteq> 2 ^ 32 - 8" by (simp add: word_unat_eq_iff)
  have u: "unat (sz + 8) = unat sz + 8" using assms ne by (simp add: unat_word_ariths)
  have m: "(63 :: uint_t) = mask 6" by (simp add: mask_eq_exp_minus_1)
  have "unat sz + 8 = (2 ^ 32 - 64) + (unat sz - (2 ^ 32 - 72))" "unat sz - (2 ^ 32 - 72) < 64" "0 < unat sz - (2 ^ 32 - 72)"
    using assms ne by simp_all
  then obtain d where d: "unat sz + 8 = 64 * 67108863 + d" "d < 64" "0 < d" by auto
  have "(64 * k + d) mod 64 = d" "(64 * k + d) div 64 = k" for k using d(2) by simp_all
  note md = this [of 67108863]
  have "unat ((sz + 8) AND 63) = d" unfolding m unat_and_mask u d(1) using md(1) by simp
  then have "(sz + 8) AND 63 \<noteq> 0" using d(3) by auto
  moreover have "unat ((sz + 8) AND NOT 63) = 2 ^ 32 - 64" unfolding m unat_and_not_mask u d(1) using md(2) by simp
  then have "(sz + 8) AND NOT 63 = - 64" by (simp add: word_unat_eq_iff)
  ultimately show ?thesis by (simp add: effective_def ARROUND_UP_def)
qed (simp add: effective_def ARROUND_UP_def)

lemma malloc_search_stuck:
  assumes "bi_busy (mem c)" "bi_size (mem c) = 0" "c < limit"
  shows "malloc_search n mem limit eff c = None"
  using assms by (induction n) (simp_all add: Let_def not_le)

section \<open>Properties\<close>

text \<open>C18. \<^verbatim>\<open>heap_manager_malloc\<close> for a size that does not wrap around ends within as many steps as there are
  blocks. Either it returns null, the heap is unchanged and no block the search looks at (from \<^verbatim>\<open>next\<close>
  on) is free and large enough; or it returns a pointer eight bytes behind a cache line boundary, to a
  block with room for the size that lies in the heap, overlaps no block in use, and is the only change of what
  is in use. The heap stays well formed and nothing outside it is written.\<close>

theorem heap_malloc_correct:
  assumes "hs_mgr s h = Some m" "heap_inv h m (hs_mem s) bs" "length bs \<le> fuel" "unat sz + 71 < 2 ^ 32"
  shows "\<exists>r s'. heap_manager_malloc fuel h sz s = Some (r, s') \<and>
    (case r of
       None \<Rightarrow> s' = s \<and> (\<forall>b \<in> set (candidates m (effective sz) bs). \<not> (\<not> busy_at (hs_mem s) b \<and> unat sz + 71 \<le> sizes (hs_mem s) b))
     | Some ptr \<Rightarrow> \<exists>c n m' bs'. ptr = of_nat (c + 8) \<and> c + 8 < 2 ^ 32 \<and> 64 dvd c \<and> unat sz + 8 \<le> n \<and>
         unat (hm_start m) \<le> c \<and> c + n \<le> unat (hm_limit m) \<and>
         (\<forall>(b, k) \<in> in_use (hs_mem s) bs. b + k \<le> c \<or> c + n \<le> b) \<and>
         hs_mgr s' = (hs_mgr s)(h \<mapsto> m') \<and> hm_start m' = hm_start m \<and> hm_limit m' = hm_limit m \<and>
         heap_inv h m' (hs_mem s') bs' \<and> in_use (hs_mem s') bs' = insert (c, n) (in_use (hs_mem s) bs) \<and>
         (\<forall>b < 2 ^ 32. b < unat (hm_start m) \<or> unat (hm_limit m) \<le> b \<longrightarrow> hs_mem s' (of_nat b) = hs_mem s (of_nat b)))"
proof (cases "find (fits (hs_mem s) (effective sz)) (candidates m (effective sz) bs)")
  case None
  have "unat (effective sz) \<le> unat sz + 71" unfolding effective_bounds(1) [OF assms(4)] by (rule div_times_less_eq_dividend)
  then show ?thesis using malloc_ok [OF assms] None by (fastforce simp: find_None_iff)
next
  case (Some c)
  note e = effective_bounds [OF assms(4)]
  have c: "c \<in> set bs" "fits (hs_mem s) (effective sz) c" "heap_manager_malloc fuel h sz s =
      Some (Some (of_nat (c + 8)), malloc_take h (of_nat c) (effective sz) m s)"
    using malloc_ok [OF assms] Some by auto
  define s' where "s' = malloc_take h (of_nat c) (effective sz) m s"
  define n where "n = sizes (hs_mem s') c"
  note t = malloc_take_ok [OF assms(1,2) c(1,2) e(3,4), folded s'_def n_def]
  note a = heap_addr_lt [OF assms(2) c(1)]
  have ch: "chain (sizes (hs_mem s)) (unat (hm_start m)) (unat (hm_limit m)) bs" using assms(2) by (simp add: heap_inv_def)
  have le: "n \<le> sizes (hs_mem s) c" "unat sz + 8 \<le> n" using t e(2) by auto
  have disj: "\<forall>(b, k) \<in> in_use (hs_mem s) bs. b + k \<le> c \<or> c + n \<le> b"
  proof (clarsimp simp: in_use_def)
    fix b assume "b \<in> set bs" "busy_at (hs_mem s) b" "\<not> c + n \<le> b"
    then show "b + sizes (hs_mem s) b \<le> c" using chain_disjoint [OF ch _ c(1), of b] c(2) le(1) by fastforce
  qed
  have "c + 8 < 2 ^ 32" "64 dvd c" "unat (hm_start m) \<le> c" "c + n \<le> unat (hm_limit m)"
    using a le(1) unat_lt_32 [of "hm_limit m"] chain_member [OF ch c(1)] by auto
  then have "\<exists>m' bs'. of_nat (c + 8) = (of_nat (c + 8) :: uint_t) \<and> c + 8 < 2 ^ 32 \<and> 64 dvd c \<and> unat sz + 8 \<le> n \<and>
         unat (hm_start m) \<le> c \<and> c + n \<le> unat (hm_limit m) \<and>
         (\<forall>(b, k) \<in> in_use (hs_mem s) bs. b + k \<le> c \<or> c + n \<le> b) \<and>
         hs_mgr s' = (hs_mgr s)(h \<mapsto> m') \<and> hm_start m' = hm_start m \<and> hm_limit m' = hm_limit m \<and>
         heap_inv h m' (hs_mem s') bs' \<and> in_use (hs_mem s') bs' = insert (c, n) (in_use (hs_mem s) bs) \<and>
         (\<forall>b < 2 ^ 32. b < unat (hm_start m) \<or> unat (hm_limit m) \<le> b \<longrightarrow> hs_mem s' (of_nat b) = hs_mem s (of_nat b))"
    using t le(2) disj by blast
  then show ?thesis using c(3) unfolding s'_def [symmetric]
    by (intro exI [of _ "Some (of_nat (c + 8))"] exI [of _ s'] conjI) (simp_all only: option.case, blast)
qed

text \<open>C19. \<^verbatim>\<open>heap_manager_free\<close> of a pointer that \<^verbatim>\<open>heap_manager_malloc\<close> has returned ends, takes exactly its
  block out of use and merges it with all free blocks that follow it: behind it comes a block in use or
  the end of the heap. The heap stays well formed and nothing outside it is written.\<close>

theorem heap_free_correct:
  assumes "hs_mgr s h = Some m" "heap_inv h m (hs_mem s) bs" "(c, n) \<in> in_use (hs_mem s) bs" "length bs < fuel"
  shows "\<exists>s' m' bs'. heap_manager_free fuel (of_nat (c + 8)) s = Some s' \<and> hs_mgr s' = (hs_mgr s)(h \<mapsto> m') \<and>
    hm_start m' = hm_start m \<and> hm_limit m' = hm_limit m \<and>
    heap_inv h m' (hs_mem s') bs' \<and> in_use (hs_mem s') bs' = in_use (hs_mem s) bs - {(c, n)} \<and>
    c \<in> set bs' \<and> \<not> busy_at (hs_mem s') c \<and>
    (c + sizes (hs_mem s') c = unat (hm_limit m) \<or> (c + sizes (hs_mem s') c, sizes (hs_mem s) (c + sizes (hs_mem s') c)) \<in> in_use (hs_mem s) bs) \<and>
    (\<forall>b < 2 ^ 32. b < unat (hm_start m) \<or> unat (hm_limit m) \<le> b \<longrightarrow> hs_mem s' (of_nat b) = hs_mem s (of_nat b))"
proof -
  let ?mem = "hs_mem s" and ?F = "\<lambda>b. \<not> busy_at (hs_mem s) b"
  have c: "c \<in> set bs" "busy_at ?mem c" "n = sizes ?mem c" using assms(3) by (auto simp: in_use_def)
  obtain xs zs where bs: "bs = xs @ c # zs" using c(1) by (auto simp: in_set_conv_decomp)
  define fs where "fs = takeWhile ?F zs"
  define ys where "ys = dropWhile ?F zs"
  have zs: "zs = fs @ ys" by (simp add: fs_def ys_def)
  have ff: "\<forall>f \<in> set fs. \<not> busy_at ?mem f" by (auto simp: fs_def dest: set_takeWhileD)
  have fy: "ys = [] \<or> busy_at ?mem (hd ys)" using hd_dropWhile [of ?F zs] by (auto simp: ys_def)
  have "length fs < fuel" using assms(4) by (simp add: bs zs)
  from free_ok [OF assms(1) assms(2) [unfolded bs zs] c(2) ff fy this, folded c(3)]
  obtain s' m' where s': "heap_manager_free fuel (of_nat (c + 8)) s = Some s'" "hs_mgr s' = (hs_mgr s)(h \<mapsto> m')"
    "heap_inv h m' (hs_mem s') (xs @ c # ys)" "hm_start m' = hm_start m" "hm_limit m' = hm_limit m"
    "in_use (hs_mem s') (xs @ c # ys) = in_use ?mem bs - {(c, n)}" "\<not> busy_at (hs_mem s') c"
    "\<forall>b < 2 ^ 32. b < unat (hm_start m) \<or> unat (hm_limit m) \<le> b \<longrightarrow> hs_mem s' (of_nat b) = ?mem (of_nat b)"
    unfolding bs zs by blast
  let ?e = "c + sizes (hs_mem s') c"
  have "chain (sizes (hs_mem s')) (unat (hm_start m)) (unat (hm_limit m)) (xs @ c # ys)"
    using s'(3-5) by (simp add: heap_inv_def)
  then have "chain (sizes (hs_mem s')) ?e (unat (hm_limit m)) ys" by (auto simp: chain_append)
  then have "?e = unat (hm_limit m) \<or> (ys \<noteq> [] \<and> hd ys = ?e)" by (cases ys) auto
  moreover have "(hd ys, sizes ?mem (hd ys)) \<in> in_use ?mem bs" if "ys \<noteq> []"
    using that fy by (auto simp: in_use_def bs zs)
  ultimately have "?e = unat (hm_limit m) \<or> (?e, sizes ?mem ?e) \<in> in_use ?mem bs" by auto
  then show ?thesis using s' by (intro exI [of _ s'] exI [of _ m'] exI [of _ "xs @ c # ys"]) simp
qed

text \<open>C20. A size of almost \<open>2 ^ 32\<close> wraps around: on a new heap \<^verbatim>\<open>heap_manager_malloc\<close> then succeeds,
  returns a block of no bytes, and every later call on this heap loops forever.\<close>

theorem heap_malloc_wraps:
  assumes "64 dvd unat heap_start" "unat heap_start + 64 \<le> unat heap_limit" "unat heap_limit - unat heap_start < 2 ^ 31"
    "0 < heap_start" "2 ^ 32 - 71 \<le> unat sz" "unat sz \<le> 2 ^ 32 - 8"
  shows "\<exists>s'. heap_manager_malloc (Suc k) h sz (heap_manager_init h base heap_start heap_limit s) = Some (Some (heap_start + 8), s') \<and>
    sizes (hs_mem s') (unat heap_start) = 0 \<and> heap_manager_malloc fuel h sz' s' = None"
proof -
  let ?s = "heap_manager_init h base heap_start heap_limit s"
  obtain m where m: "hs_mgr ?s h = Some m" "hm_start m = heap_start" "hm_limit m = heap_limit" "hm_next m = heap_start"
    "sizes (hs_mem ?s) (unat heap_start) = unat heap_limit - unat heap_start"
    using heap_init_ok [OF assms(1-4), of h base s] by auto
  note e = effective_wrap [OF assms(5,6)]
  have st: "malloc_start m x = heap_start" for x using m by (simp add: malloc_start_def)
  have fit: "malloc_search (Suc k) (hs_mem ?s) heap_limit 0 heap_start = Some (Some heap_start)"
    by (simp add: heap_manager_init_def set_busy_def)
  define s' where "s' = malloc_take h heap_start 0 m ?s"
  have "bi_size (hs_mem ?s heap_start) - 0 \<ge> 64" using m(5) assms(2) by (simp add: sizes_def word_le_nat_alt)
  then have s': "bi_busy (hs_mem s' heap_start)" "bi_size (hs_mem s' heap_start) = 0" "hs_mgr s' h = Some (m\<lparr>hm_next := heap_start\<rparr>)"
    by (simp_all add: s'_def malloc_take_def Let_def set_size_def set_busy_def)
  have "malloc_start (m\<lparr>hm_next := heap_start\<rparr>) x = heap_start" for x using m by (simp add: malloc_start_def)
  moreover have "heap_start < heap_limit" using assms(2) by (simp add: word_less_nat_alt)
  ultimately have "heap_manager_malloc fuel h sz' s' = None"
    using malloc_search_stuck [of "hs_mem s'" heap_start heap_limit fuel] s'(1,2) s'(3) m(3) by (simp add: heap_manager_malloc_def)
  moreover have "heap_manager_malloc (Suc k) h sz ?s = Some (Some (heap_start + 8), s')"
    using fit m(1,3) st e by (simp add: heap_manager_malloc_def s'_def del: malloc_search.simps)
  moreover have "sizes (hs_mem s') (unat heap_start) = 0" using s'(2) by (simp add: sizes_def)
  ultimately show ?thesis by blast
qed

section \<open>Witnesses\<close>

definition demo_heap :: heap_sys where
  "demo_heap = heap_manager_init 7 0x1000 0x1000 0x2000
     \<lparr>hs_mem = (\<lambda>_. \<lparr>bi_busy = True, bi_size = 5, bi_heap_mgr = 0\<rparr>), hs_mgr = Map.empty\<rparr>"

lemma demo_heap_ok:
  "\<exists>m. hs_mgr demo_heap 7 = Some m \<and> hm_start m = 0x1000 \<and> hm_limit m = 0x2000 \<and> hm_next m = 0x1000 \<and>
    heap_inv 7 m (hs_mem demo_heap) [0x1000] \<and> in_use (hs_mem demo_heap) [0x1000] = {} \<and>
    sizes (hs_mem demo_heap) 0x1000 = 0x1000"
  using heap_init_ok [of "0x1000" "0x2000" 7 "0x1000"
      "\<lparr>hs_mem = (\<lambda>_. \<lparr>bi_busy = True, bi_size = 5, bi_heap_mgr = 0\<rparr>), hs_mgr = Map.empty\<rparr>"]
  unfolding demo_heap_def by simp

theorem heap_malloc_correct_witness:
  "\<exists>ptr s' bs' c n. heap_manager_malloc 1 7 100 demo_heap = Some (Some ptr, s') \<and> ptr = of_nat (c + 8) \<and>
     108 \<le> n \<and> in_use (hs_mem s') bs' = {(c, n)}"
proof -
  obtain m where m: "hs_mgr demo_heap 7 = Some m" "hm_next m = 0x1000" "heap_inv 7 m (hs_mem demo_heap) [0x1000]"
    "in_use (hs_mem demo_heap) [0x1000] = {}" "sizes (hs_mem demo_heap) 0x1000 = 0x1000" using demo_heap_ok by blast
  have f: "\<not> busy_at (hs_mem demo_heap) 0x1000" using m(4) by (auto simp: in_use_def)
  have c: "candidates m e [0x1000] = [0x1000]" for e using m(2) by (simp add: candidates_def)
  obtain r s' where r: "heap_manager_malloc 1 7 100 demo_heap = Some (r, s')"
    using heap_malloc_correct [OF m(1,3), of 1 100] by auto
  show ?thesis
    using heap_malloc_correct [OF m(1,3), of 1 100] f m(4,5) c r by (cases r) auto
qed

theorem heap_free_correct_witness:
  "\<exists>ptr s' s''. heap_manager_malloc 1 7 100 demo_heap = Some (Some ptr, s') \<and> (\<exists>fuel. heap_manager_free fuel ptr s' = Some s'') \<and>
     (\<exists>bs. in_use (hs_mem s'') bs = {})"
proof -
  obtain m where m: "hs_mgr demo_heap 7 = Some m" "heap_inv 7 m (hs_mem demo_heap) [0x1000]" "hm_next m = 0x1000"
    "in_use (hs_mem demo_heap) [0x1000] = {}" "sizes (hs_mem demo_heap) 0x1000 = 0x1000" using demo_heap_ok by blast
  have f: "fits (hs_mem demo_heap) (effective 100) 0x1000"
    using m(4,5) effective_bounds(1) [of 100] by (auto simp: in_use_def)
  have c: "candidates m e [0x1000] = [0x1000]" for e using m(3) by (simp add: candidates_def)
  define s' where "s' = malloc_take 7 (of_nat 0x1000) (effective 100) m demo_heap"
  have run: "heap_manager_malloc 1 7 100 demo_heap = Some (Some (of_nat (0x1000 + 8)), s')"
    using malloc_ok [OF m(1,2), of 1 100] f unfolding c s'_def by simp
  obtain m' bs' where t: "hs_mgr s' 7 = Some m'" "heap_inv 7 m' (hs_mem s') bs'"
    "in_use (hs_mem s') bs' = {(0x1000, sizes (hs_mem s') 0x1000)}"
    using malloc_take_ok [OF m(1,2) _ f] effective_bounds(3,4) [of 100] m(4) unfolding s'_def by auto
  then show ?thesis
    using heap_free_correct [OF t(1,2), of "0x1000" "sizes (hs_mem s') 0x1000" "Suc (length bs')"] run by auto
qed

theorem heap_malloc_wraps_witness:
  "\<exists>s'. heap_manager_malloc 1 7 0xFFFFFFF0 demo_heap = Some (Some 0x1008, s') \<and> heap_manager_malloc 1000 7 16 s' = None"
  using heap_malloc_wraps [of "0x1000" "0x2000" "0xFFFFFFF0" 0 7 "0x1000"] unfolding demo_heap_def by fastforce

end
