(* ===== verification/Semaphore.thy ===== *)
theory Semaphore
  imports WaitQueue
begin

text \<open>
  Semaphores (\<^verbatim>\<open>kernel/kern/semaphore.c\<close>) and condition variables
  (\<^verbatim>\<open>kernel/kern/cond_var.c\<close>). The code checks for misuse of a binary semaphore without the
  spinlock, then works under it, and writes \<^verbatim>\<open>owner\<close> after it; the model keeps these as
  separate functions, the checks one for each load of \<^verbatim>\<open>count\<close> and \<^verbatim>\<open>owner\<close>, so that \<open>sem_step\<close> interleaves them freely
  between threads, and composes them into the calls. \<^verbatim>\<open>count\<close> is a signed 32-bit integer that wraps around. \<open>None\<close> is the null owner. \<open>Blocked\<close> means the caller is asleep on a queue; it
  goes on with \<open>sem_wait_end\<close> when it is woken.
\<close>

abbreviation SEM_VALUE_MAX :: uint_t where "SEM_VALUE_MAX \<equiv> 2048"
abbreviation SEMAPHORE_ID :: uint_t where "SEMAPHORE_ID \<equiv> 0xA0B1C0B3"
abbreviation SEM_SCOPE_SYS :: uint_t where "SEM_SCOPE_SYS \<equiv> 1"

definition sint32 :: "int \<Rightarrow> int" where
  "sint32 x = (x + 2 ^ 31) mod 2 ^ 32 - 2 ^ 31"

lemma sint32_id [simp]: "- (2 ^ 31) \<le> x \<Longrightarrow> x < 2 ^ 31 \<Longrightarrow> sint32 x = x"
  by (simp add: sint32_def)

record semaphore_s =
  sem_signature :: uint_t
  sem_value :: uint_t
  sem_count :: int
  sem_scope :: uint_t
  sem_owner :: "tid option"
  sem_wait_queue :: wait_queue_s

datatype outcome = Returns error_t | Blocked

definition sem_init :: "semaphore_s option \<Rightarrow> uint_t \<Rightarrow> uint_t \<Rightarrow> error_t \<times> semaphore_s option" where
  "sem_init sem val scope =
     (case sem of
        None \<Rightarrow> (EINVAL, None)
      | Some s \<Rightarrow>
          if val > SEM_VALUE_MAX then (EINVAL, Some s)
          else (0, Some (s\<lparr>sem_signature := SEMAPHORE_ID, sem_value := val, sem_count := sint32 (uint val),
                 sem_scope := scope,
                 sem_wait_queue := wait_queue_init (sem_wait_queue s) ''Semaphore Sync''\<rparr>)))"

definition sem_getvalue :: "semaphore_s \<Rightarrow> error_t \<times> int" where
  "sem_getvalue sem = (0, sem_count sem)"

definition sem_check_count :: "semaphore_s \<Rightarrow> bool" where
  "sem_check_count sem \<longleftrightarrow> sem_value sem = 1 \<and> sem_count sem \<noteq> 1"

definition sem_check_owner :: "tid \<Rightarrow> semaphore_s \<Rightarrow> bool" where
  "sem_check_owner this sem \<longleftrightarrow> sem_owner sem = Some this"

definition sem_wait_check :: "tid \<Rightarrow> semaphore_s \<Rightarrow> error_t" where
  "sem_wait_check this sem = (if sem_check_count sem \<and> sem_check_owner this sem then EDEADLK else 0)"

definition sem_wait_lock :: "tid \<Rightarrow> semaphore_s \<times> threads \<Rightarrow> outcome \<times> semaphore_s \<times> threads" where
  "sem_wait_lock this = (\<lambda>(sem, th).
     let sem = sem\<lparr>sem_count := sint32 (sem_count sem - 1)\<rparr>
     in if sem_count sem \<ge> 0 then (Returns 0, sem, th)
        else let (q, th) = wait_on (sem_wait_queue sem) WAIT_LAST this th
             in (Blocked, sem\<lparr>sem_wait_queue := q\<rparr>, th))"

definition sem_wait_end :: "tid \<Rightarrow> semaphore_s \<Rightarrow> semaphore_s" where
  "sem_wait_end this sem = sem\<lparr>sem_owner := Some this\<rparr>"

definition sem_wait :: "tid \<Rightarrow> semaphore_s \<times> threads \<Rightarrow> outcome \<times> semaphore_s \<times> threads" where
  "sem_wait this = (\<lambda>(sem, th).
     let e = sem_wait_check this sem
     in if e \<noteq> 0 then (Returns e, sem, th)
        else case sem_wait_lock this (sem, th) of
               (Blocked, s) \<Rightarrow> (Blocked, s)
             | (Returns e, sem, th) \<Rightarrow> (Returns e, sem_wait_end this sem, th))"

text \<open>The loads of the check of \<^verbatim>\<open>sem_post\<close> after that of \<^verbatim>\<open>value\<close>, which never changes.\<close>

definition sem_post_count :: "semaphore_s \<Rightarrow> bool" where
  "sem_post_count sem \<longleftrightarrow> sem_count sem \<le> 0"

definition sem_post_owner :: "tid \<Rightarrow> semaphore_s \<Rightarrow> bool" where
  "sem_post_owner this sem \<longleftrightarrow> sem_owner sem \<noteq> Some this"

definition sem_post_again :: "semaphore_s \<Rightarrow> bool" where
  "sem_post_again sem \<longleftrightarrow> sem_count sem > 0"

declare sem_check_owner_def [simp] sem_post_count_def [simp] sem_post_owner_def [simp] sem_post_again_def [simp]

definition sem_post_check :: "tid \<Rightarrow> semaphore_s \<Rightarrow> error_t" where
  "sem_post_check this sem =
     (if sem_value sem = 1 \<and> (sem_post_count sem \<and> sem_post_owner this sem \<or> sem_post_again sem)
      then EINVAL else 0)"

definition sem_post_lock :: "semaphore_s \<times> threads \<Rightarrow> semaphore_s \<times> threads" where
  "sem_post_lock = (\<lambda>(sem, th).
     let sem = sem\<lparr>sem_count := sint32 (sem_count sem + 1)\<rparr>
     in if sem_count sem \<le> 0
        then let (thread, q, th) = wakeup_one (sem_wait_queue sem) WAIT_FIRST th
             in (sem\<lparr>sem_wait_queue := q, sem_owner := thread\<rparr>, th)
        else (sem\<lparr>sem_owner := None\<rparr>, th))"

definition sem_post :: "tid \<Rightarrow> semaphore_s \<times> threads \<Rightarrow> error_t \<times> semaphore_s \<times> threads" where
  "sem_post this = (\<lambda>(sem, th).
     let e = sem_post_check this sem
     in if e \<noteq> 0 then (e, sem, th) else (0, sem_post_lock (sem, th)))"

definition sem_trywait_lock :: "tid \<Rightarrow> semaphore_s \<Rightarrow> error_t \<times> semaphore_s" where
  "sem_trywait_lock this sem =
     (if sem_count sem > 0
      then (0, sem\<lparr>sem_count := sem_count sem - 1, sem_owner := Some this\<rparr>)
      else (EAGAIN, sem))"

definition sem_trywait :: "tid \<Rightarrow> semaphore_s \<Rightarrow> error_t \<times> semaphore_s" where
  "sem_trywait this sem =
     (let e = sem_wait_check this sem
      in if e \<noteq> 0 then (e, sem) else sem_trywait_lock this sem)"

definition sem_destroy :: "semaphore_s \<Rightarrow> error_t \<times> semaphore_s" where
  "sem_destroy sem =
     (if sem_count sem mod 2 ^ 32 \<noteq> uint (sem_value sem) then (EBUSY, sem) else (0, sem\<lparr>sem_owner := None\<rparr>))"

section \<open>Condition variables\<close>

abbreviation COND_VAR_ID :: uint_t where "COND_VAR_ID \<equiv> 0xB1CA0BA5"

record cv_s =
  cv_signature :: uint_t
  cv_wait_queue :: wait_queue_s

definition cv_init :: "cv_s \<Rightarrow> cv_s" where
  "cv_init cv = cv\<lparr>cv_signature := COND_VAR_ID,
     cv_wait_queue := wait_queue_init (cv_wait_queue cv) ''Condition Variable Sync''\<rparr>"

text \<open>Up to \<^verbatim>\<open>sched_sleep\<close>; a woken thread goes on with \<open>sem_wait\<close>.\<close>

definition cv_wait :: "tid \<Rightarrow> cv_s \<times> semaphore_s \<times> threads \<Rightarrow> outcome \<times> cv_s \<times> semaphore_s \<times> threads" where
  "cv_wait this = (\<lambda>(cv, sem, th).
     let value = snd (sem_getvalue sem)
     in if sem_owner sem \<noteq> Some this \<or> value > 0 then (Returns EINVAL, cv, sem, th)
        else let (err, sem, th) = sem_post this (sem, th)
             in if err \<noteq> 0 then (Returns err, cv, sem, th)
                else let (q, th) = wait_on (cv_wait_queue cv) WAIT_LAST this th
                     in (Blocked, cv\<lparr>cv_wait_queue := q\<rparr>, sem, th))"

definition cv_signal :: "cv_s \<times> threads \<Rightarrow> cv_s \<times> threads" where
  "cv_signal = (\<lambda>(cv, th).
     let (thread, q, th) = wakeup_one (cv_wait_queue cv) WAIT_FIRST th
     in (cv\<lparr>cv_wait_queue := q\<rparr>, th))"

definition cv_broadcast :: "cv_s \<times> threads \<Rightarrow> cv_s \<times> threads" where
  "cv_broadcast = (\<lambda>(cv, th).
     let (n, q, th) = wakeup_all (cv_wait_queue cv) th in (cv\<lparr>cv_wait_queue := q\<rparr>, th))"

definition cv_destroy :: "cv_s \<Rightarrow> error_t" where
  "cv_destroy cv = (if \<not> wait_queue_isEmpty (cv_wait_queue cv) then EBUSY else 0)"

section \<open>Interleaved callers\<close>

text \<open>
  Where a thread is: outside, in the check of \<^verbatim>\<open>sem_wait\<close> or \<^verbatim>\<open>sem_trywait\<close> between the load of \<^verbatim>\<open>count\<close>
  and that of \<^verbatim>\<open>owner\<close>, past this check, asleep, past the locked part with \<^verbatim>\<open>owner\<close> still to be written, back with the
  semaphore, in the check of \<^verbatim>\<open>sem_post\<close> before the load of \<^verbatim>\<open>owner\<close> or before the second load of \<^verbatim>\<open>count\<close>, or past this
  check. A flag remembers whether the thread has the semaphore. \<open>ss_waits\<close> and \<open>ss_posts\<close> count the units asked for and given.

  The threads are those below \<open>N\<close>. Each may call any operation at any time, also a post without having the semaphore; with
  \<open>lawful\<close> only a thread that has the semaphore posts. Each load of a check is a step of its own, in the order of the source: the
  check of a post first loads \<^verbatim>\<open>count\<close>, then, when it is not positive, \<^verbatim>\<open>owner\<close>, and in the end \<^verbatim>\<open>count\<close> again.
\<close>

datatype sem_pc = SIdle | SLoaded bool bool | SEntering | STrying | SAsleep | SAwake | SHeld
  | SPostOwner bool | SPostAgain bool | SPosting bool

record sem_sys =
  ss_sem :: semaphore_s
  ss_th :: threads
  ss_pc :: "tid \<Rightarrow> sem_pc"
  ss_waits :: nat
  ss_posts :: nat

abbreviation outside :: "sem_pc \<Rightarrow> bool" where "outside p \<equiv> p = SIdle \<or> p = SHeld"
abbreviation returned :: "bool \<Rightarrow> sem_pc" where "returned h \<equiv> if h then SHeld else SIdle"
abbreviation past_check :: "bool \<Rightarrow> sem_pc" where "past_check tr \<equiv> if tr then STrying else SEntering"

fun has_sem :: "sem_pc \<Rightarrow> bool" where
  "has_sem SAwake = True"
| "has_sem SHeld = True"
| "has_sem (SLoaded tr h) = h"
| "has_sem (SPostOwner h) = h"
| "has_sem (SPostAgain h) = h"
| "has_sem (SPosting h) = h"
| "has_sem _ = False"

inductive sem_step :: "nat \<Rightarrow> bool \<Rightarrow> sem_sys \<Rightarrow> sem_sys \<Rightarrow> bool" for N lawful where
  check_count_pass: "t < N \<Longrightarrow> outside (ss_pc y t) \<Longrightarrow> \<not> sem_check_count (ss_sem y) \<Longrightarrow>
    sem_step N lawful y (y\<lparr>ss_pc := (ss_pc y)(t := past_check tr)\<rparr>)"
| check_count: "t < N \<Longrightarrow> outside (ss_pc y t) \<Longrightarrow> sem_check_count (ss_sem y) \<Longrightarrow>
    sem_step N lawful y (y\<lparr>ss_pc := (ss_pc y)(t := SLoaded tr (ss_pc y t = SHeld))\<rparr>)"
| check_owner_pass: "ss_pc y t = SLoaded tr h \<Longrightarrow> \<not> sem_check_owner t (ss_sem y) \<Longrightarrow>
    sem_step N lawful y (y\<lparr>ss_pc := (ss_pc y)(t := past_check tr)\<rparr>)"
| check_owner_fail: "ss_pc y t = SLoaded tr h \<Longrightarrow> sem_check_owner t (ss_sem y) \<Longrightarrow>
    sem_step N lawful y (y\<lparr>ss_pc := (ss_pc y)(t := returned h)\<rparr>)"
| wait_got: "ss_pc y t = SEntering \<Longrightarrow> sem_wait_lock t (ss_sem y, ss_th y) = (Returns e, sem, th) \<Longrightarrow>
    sem_step N lawful y (y\<lparr>ss_sem := sem, ss_th := th, ss_pc := (ss_pc y)(t := SAwake), ss_waits := Suc (ss_waits y)\<rparr>)"
| wait_block: "ss_pc y t = SEntering \<Longrightarrow> sem_wait_lock t (ss_sem y, ss_th y) = (Blocked, sem, th) \<Longrightarrow>
    sem_step N lawful y (y\<lparr>ss_sem := sem, ss_th := th, ss_pc := (ss_pc y)(t := SAsleep), ss_waits := Suc (ss_waits y)\<rparr>)"
| wait_done: "ss_pc y t = SAwake \<Longrightarrow>
    sem_step N lawful y (y\<lparr>ss_sem := sem_wait_end t (ss_sem y), ss_pc := (ss_pc y)(t := SHeld)\<rparr>)"
| try_got: "ss_pc y t = STrying \<Longrightarrow> sem_trywait_lock t (ss_sem y) = (0, sem) \<Longrightarrow>
    sem_step N lawful y (y\<lparr>ss_sem := sem, ss_pc := (ss_pc y)(t := SHeld), ss_waits := Suc (ss_waits y)\<rparr>)"
| try_fail: "ss_pc y t = STrying \<Longrightarrow> sem_trywait_lock t (ss_sem y) = (e, sem) \<Longrightarrow> e \<noteq> 0 \<Longrightarrow>
    sem_step N lawful y (y\<lparr>ss_sem := sem, ss_pc := (ss_pc y)(t := SIdle)\<rparr>)"
| post_any: "t < N \<Longrightarrow> outside (ss_pc y t) \<Longrightarrow> lawful \<longrightarrow> ss_pc y t = SHeld \<Longrightarrow> sem_value (ss_sem y) \<noteq> 1 \<Longrightarrow>
    sem_step N lawful y (y\<lparr>ss_pc := (ss_pc y)(t := SPosting (ss_pc y t = SHeld))\<rparr>)"
| post_count: "t < N \<Longrightarrow> outside (ss_pc y t) \<Longrightarrow> lawful \<longrightarrow> ss_pc y t = SHeld \<Longrightarrow> sem_value (ss_sem y) = 1 \<Longrightarrow>
    sem_step N lawful y (y\<lparr>ss_pc := (ss_pc y)(t :=
      if sem_post_count (ss_sem y) then SPostOwner (ss_pc y t = SHeld) else SPostAgain (ss_pc y t = SHeld))\<rparr>)"
| post_owner: "ss_pc y t = SPostOwner h \<Longrightarrow>
    sem_step N lawful y (y\<lparr>ss_pc := (ss_pc y)(t := if sem_post_owner t (ss_sem y) then returned h else SPostAgain h)\<rparr>)"
| post_again: "ss_pc y t = SPostAgain h \<Longrightarrow>
    sem_step N lawful y (y\<lparr>ss_pc := (ss_pc y)(t := if sem_post_again (ss_sem y) then returned h else SPosting h)\<rparr>)"
| post_idle: "ss_pc y t = SPosting h \<Longrightarrow> sem_post_lock (ss_sem y, ss_th y) = (sem, th) \<Longrightarrow> sem_owner sem = None \<Longrightarrow>
    sem_step N lawful y (y\<lparr>ss_sem := sem, ss_th := th, ss_pc := (ss_pc y)(t := SIdle), ss_posts := Suc (ss_posts y)\<rparr>)"
| post_wake: "ss_pc y t = SPosting h \<Longrightarrow> sem_post_lock (ss_sem y, ss_th y) = (sem, th) \<Longrightarrow> sem_owner sem = Some u \<Longrightarrow>
    sem_step N lawful y (y\<lparr>ss_sem := sem, ss_th := th, ss_pc := (ss_pc y)(t := SIdle, u := SAwake), ss_posts := Suc (ss_posts y)\<rparr>)"

text \<open>The steps of a check without interference are the checks of the calls.\<close>

lemma sem_checks:
  "sem_wait_check t sem = 0 \<longleftrightarrow> \<not> sem_check_count sem \<or> sem_owner sem \<noteq> Some t"
  "sem_post_check t sem = 0 \<longleftrightarrow> sem_value sem \<noteq> 1 \<or> sem_count sem \<le> 0 \<and> sem_owner sem = Some t"
  by (auto simp: sem_wait_check_def sem_post_check_def)

definition sem_start :: "semaphore_s \<Rightarrow> threads \<Rightarrow> sem_sys" where
  "sem_start sem th = \<lparr>ss_sem = sem, ss_th = th, ss_pc = (\<lambda>_. SIdle), ss_waits = 0, ss_posts = 0\<rparr>"

abbreviation sem_reach :: "nat \<Rightarrow> bool \<Rightarrow> sem_sys \<Rightarrow> sem_sys \<Rightarrow> bool" where "sem_reach N lawful \<equiv> (sem_step N lawful)\<^sup>*\<^sup>*"

abbreviation sem_q :: "semaphore_s \<Rightarrow> tid list" where "sem_q sem \<equiv> wq_root (sem_wait_queue sem)"

text \<open>What holds of a semaphore of any value: the count is what is left of the units, and the queue
  holds the sleepers, one for each unit owed.\<close>

definition sem_inv :: "nat \<Rightarrow> sem_sys \<Rightarrow> bool" where
  "sem_inv N y \<longleftrightarrow> sem_count (ss_sem y) = uint (sem_value (ss_sem y)) + int (ss_posts y) - int (ss_waits y) \<and>
     distinct (sem_q (ss_sem y)) \<and> set (sem_q (ss_sem y)) = {t. ss_pc y t = SAsleep} \<and>
     int (length (sem_q (ss_sem y))) = max 0 (- sem_count (ss_sem y)) \<and> sem_count (ss_sem y) < 2 ^ 31 \<and>
     (\<forall>t. ss_pc y t \<noteq> SIdle \<longrightarrow> t < N)"

text \<open>What holds of a binary semaphore in addition, when only its holder posts.\<close>

fun posting :: "sem_pc \<Rightarrow> bool" where
  "posting (SPostOwner h) = True"
| "posting (SPostAgain h) = True"
| "posting (SPosting h) = True"
| "posting _ = False"

definition bin_inv :: "sem_sys \<Rightarrow> bool" where
  "bin_inv y \<longleftrightarrow> sem_value (ss_sem y) = 1 \<and>
     (\<forall>t u. has_sem (ss_pc y t) \<longrightarrow> has_sem (ss_pc y u) \<longrightarrow> t = u) \<and>
     (if \<exists>t. has_sem (ss_pc y t) then sem_count (ss_sem y) \<le> 0 else sem_count (ss_sem y) = 1) \<and>
     (\<forall>t. sem_owner (ss_sem y) = Some t \<longrightarrow> has_sem (ss_pc y t)) \<and>
     (\<forall>t. has_sem (ss_pc y t) \<longrightarrow> ss_pc y t = SAwake \<or> sem_owner (ss_sem y) = Some t) \<and>
     (\<forall>t. posting (ss_pc y t) \<longrightarrow> has_sem (ss_pc y t))"

text \<open>What the locked parts do.\<close>

lemma sem_wait_lock_cases:
  "sem_wait_lock t (sem, th) = (r, sem', th') \<Longrightarrow> - (2 ^ 31) < sem_count sem \<Longrightarrow> sem_count sem < 2 ^ 31 \<Longrightarrow>
     sem_value sem' = sem_value sem \<and> sem_owner sem' = sem_owner sem \<and> sem_count sem' = sem_count sem - 1 \<and>
     (if sem_count sem > 0 then r = Returns 0 \<and> sem_q sem' = sem_q sem
      else r = Blocked \<and> sem_q sem' = sem_q sem @ [t])"
  by (auto simp: sem_wait_lock_def wait_on_def Let_def split: if_splits)

lemma sem_post_lock_idle:
  assumes "sem_post_lock (sem, th) = (sem', th')" "sem_count sem \<ge> 0" "sem_count sem < 2 ^ 31 - 1"
  shows "sem_value sem' = sem_value sem \<and> sem_owner sem' = None \<and> sem_count sem' = sem_count sem + 1 \<and> sem_q sem' = sem_q sem"
  using assms by (auto simp: sem_post_lock_def Let_def)

lemma sem_post_lock_wake:
  assumes "sem_post_lock (sem, th) = (sem', th')" "sem_count sem < 0" "- (2 ^ 31) \<le> sem_count sem" "sem_q sem = u # us"
  shows "sem_value sem' = sem_value sem \<and> sem_owner sem' = Some u \<and> sem_count sem' = sem_count sem + 1 \<and> sem_q sem' = us"
  using assms wakeup_one_first [OF assms(4)] by (auto simp: sem_post_lock_def Let_def)

lemma sem_trywait_lock_cases:
  "sem_trywait_lock t sem = (e, sem') \<Longrightarrow>
     (if sem_count sem > 0 then e = 0 \<and> sem' = sem\<lparr>sem_count := sem_count sem - 1, sem_owner := Some t\<rparr>
      else e = EAGAIN \<and> sem' = sem)"
  by (auto simp: sem_trywait_lock_def split: if_splits)

text \<open>Changing the place of a thread that is not asleep.\<close>

lemma asleep_upd:
  "p \<noteq> SAsleep \<Longrightarrow> f t \<noteq> SAsleep \<Longrightarrow> {u. (f(t := p)) u = SAsleep} = {u. f u = SAsleep}"
  by (rule Collect_cong) (metis fun_upd_apply)

text \<open>The count stays in its range: it is at least minus the number of sleepers.\<close>

lemma sem_inv_low:
  assumes "sem_inv N y" "N \<le> 2 ^ 31"
  shows "- (2 ^ 31) \<le> sem_count (ss_sem y)" "ss_pc y t = SEntering \<Longrightarrow> - (2 ^ 31) < sem_count (ss_sem y)"
proof -
  let ?q = "sem_q (ss_sem y)"
  have sub: "set ?q \<subseteq> {..<N}" using assms(1) by (auto simp: sem_inv_def)
  have l: "length ?q = card (set ?q)" using assms(1) distinct_card [of ?q] by (simp add: sem_inv_def)
  have n: "int N \<le> 2 ^ 31" using assms(2) by simp
  have "card (set ?q) \<le> N" using card_mono [OF finite_lessThan sub] by simp
  moreover have eq: "int (length ?q) = max 0 (- sem_count (ss_sem y))" using assms(1) by (simp add: sem_inv_def)
  ultimately show "- (2 ^ 31) \<le> sem_count (ss_sem y)" using l n by linarith
  assume t: "ss_pc y t = SEntering"
  then have "t < N" "t \<notin> set ?q" using assms(1) by (auto simp: sem_inv_def)
  then have "card (insert t (set ?q)) \<le> N" using card_mono [of "{..<N}" "insert t (set ?q)"] sub by simp
  then show "- (2 ^ 31) < sem_count (ss_sem y)" using l eq n \<open>t \<notin> set ?q\<close> by simp
qed

text \<open>A post wakes the first sleeper exactly when the count is negative.\<close>

lemma post_wakes_iff:
  assumes "sem_inv N y" "N \<le> 2 ^ 31" "sem_post_lock (ss_sem y, ss_th y) = (sem, th)" "sem_count (ss_sem y) < 2 ^ 31 - 1"
  shows "sem_owner sem = None \<longleftrightarrow> sem_count (ss_sem y) \<ge> 0"
    and "sem_owner sem = Some u \<Longrightarrow> sem_count (ss_sem y) < 0 \<and>
      sem_q (ss_sem y) = u # sem_q sem \<and> sem_count sem = sem_count (ss_sem y) + 1 \<and> sem_value sem = sem_value (ss_sem y)"
proof -
  have neg: "\<exists>v us. sem_q (ss_sem y) = v # us" if "sem_count (ss_sem y) < 0"
    using assms(1) that by (cases "sem_q (ss_sem y)") (auto simp: sem_inv_def)
  note low = sem_inv_low(1) [OF assms(1,2)]
  show *: "sem_owner sem = None \<longleftrightarrow> sem_count (ss_sem y) \<ge> 0"
    using neg sem_post_lock_wake [OF assms(3) _ low] sem_post_lock_idle [OF assms(3) _ assms(4)] by fastforce
  show "sem_count (ss_sem y) < 0 \<and> sem_q (ss_sem y) = u # sem_q sem \<and>
      sem_count sem = sem_count (ss_sem y) + 1 \<and> sem_value sem = sem_value (ss_sem y)"
    if "sem_owner sem = Some u"
    using * that neg sem_post_lock_wake [OF assms(3) _ low] by fastforce
qed

text \<open>A step of a check.\<close>

lemma sem_inv_move:
  assumes "sem_inv N y" "t < N" "ss_pc y t \<noteq> SAsleep" "p \<noteq> SAsleep" "y' = y\<lparr>ss_pc := (ss_pc y)(t := p)\<rparr>"
  shows "sem_inv N y'"
  using assms asleep_upd [of p "ss_pc y" t] by (simp add: sem_inv_def)

lemma sem_inv_active: "sem_inv N y \<Longrightarrow> ss_pc y t = p \<Longrightarrow> p \<noteq> SIdle \<Longrightarrow> t < N"
  by (simp add: sem_inv_def)

lemma sem_step_inv:
  assumes st: "sem_step N lawful y y'" and inv: "sem_inv N y" and N: "N \<le> 2 ^ 31"
    and room: "ss_posts y' = ss_posts y \<or> sem_count (ss_sem y) < 2 ^ 31 - 1"
  shows "sem_inv N y'"
  using st
proof (cases rule: sem_step.cases)
  case (wait_got t e sem th)
  have "- (2 ^ 31) < sem_count (ss_sem y)" "sem_count (ss_sem y) < 2 ^ 31" "t < N"
    using sem_inv_low(2) [OF inv N wait_got(2)] inv wait_got(2) by (auto simp: sem_inv_def)
  then show ?thesis using inv sem_wait_lock_cases [OF wait_got(3)] wait_got(1,2)
    by (auto simp: sem_inv_def asleep_upd split: if_splits)
next
  case (wait_block t sem th)
  have "{u. ((ss_pc y)(t := SAsleep)) u = SAsleep} = insert t {u. ss_pc y u = SAsleep}" by auto
  moreover have "- (2 ^ 31) < sem_count (ss_sem y)" "sem_count (ss_sem y) < 2 ^ 31" "t < N"
    using sem_inv_low(2) [OF inv N wait_block(2)] inv wait_block(2) by (auto simp: sem_inv_def)
  ultimately show ?thesis using wait_block inv sem_wait_lock_cases [OF wait_block(3)]
    by (auto simp: sem_inv_def split: if_splits)
next
  case (wait_done t)
  then show ?thesis using inv by (auto simp: sem_inv_def asleep_upd sem_wait_end_def)
next
  case (try_got t sem)
  then show ?thesis using inv sem_trywait_lock_cases [OF try_got(3)]
    by (auto simp: sem_inv_def asleep_upd split: if_splits)
next
  case (try_fail t e sem)
  then show ?thesis using inv sem_trywait_lock_cases [OF try_fail(3)]
    by (auto simp: sem_inv_def asleep_upd split: if_splits)
next
  case (post_idle t h sem th)
  have r: "sem_count (ss_sem y) < 2 ^ 31 - 1" using room post_idle(1) by simp
  have "sem_count (ss_sem y) \<ge> 0" using post_wakes_iff(1) [OF inv N post_idle(3) r] post_idle(4) by simp
  then show ?thesis using post_idle inv r sem_post_lock_idle [OF post_idle(3) _ r]
    by (auto simp: sem_inv_def asleep_upd)
next
  case (post_wake t h sem th u)
  have r: "sem_count (ss_sem y) < 2 ^ 31 - 1" using room post_wake(1) by simp
  note w = post_wakes_iff(2) [OF inv N post_wake(3) r post_wake(4)]
  have i: "distinct (u # sem_q sem)" "insert u (set (sem_q sem)) = {t. ss_pc y t = SAsleep}"
    using inv w by (simp_all add: sem_inv_def)
  then have "{x. ((ss_pc y)(t := SIdle, u := SAwake)) x = SAsleep} = set (sem_q sem)"
    using post_wake(2) by (auto split: if_splits)
  moreover have "ss_pc y u = SAsleep" using i(2) by blast
  then have "u < N" using inv by (simp add: sem_inv_def)
  ultimately show ?thesis using post_wake(1) inv w i by (auto simp: sem_inv_def)
qed (rule sem_inv_move [OF inv]; (use sem_inv_active [OF inv] in auto))+

text \<open>A thread without the semaphore may move.\<close>

lemma bin_inv_move:
  assumes "bin_inv y" "\<not> has_sem (ss_pc y t)" "\<not> has_sem p" "\<not> posting p" "ss_pc y' = (ss_pc y)(t := p)"
    and "sem_value (ss_sem y') = sem_value (ss_sem y)" "sem_owner (ss_sem y') = sem_owner (ss_sem y)"
    and "sem_count (ss_sem y') = sem_count (ss_sem y) \<or> sem_count (ss_sem y) \<le> 0 \<and> sem_count (ss_sem y') \<le> 0"
  shows "bin_inv y'"
proof -
  have h: "has_sem (ss_pc y' u) \<longleftrightarrow> has_sem (ss_pc y u)" "posting (ss_pc y' u) \<Longrightarrow> posting (ss_pc y u)"
    "has_sem (ss_pc y' u) \<Longrightarrow> ss_pc y' u = ss_pc y u" for u using assms(2-5) by (auto split: if_splits)
  have A: "\<forall>u. has_sem (ss_pc y u) \<longrightarrow> ss_pc y' u = SAwake \<or> sem_owner (ss_sem y) = Some u"
    using assms(1) h(1,3) unfolding bin_inv_def by metis
  have B: "\<forall>u. posting (ss_pc y' u) \<longrightarrow> has_sem (ss_pc y u)" using assms(1) h(2) unfolding bin_inv_def by blast
  have C: "if \<exists>t. has_sem (ss_pc y t) then sem_count (ss_sem y') \<le> 0 else sem_count (ss_sem y') = 1"
    using assms(1,8) unfolding bin_inv_def by (auto split: if_splits)
  have D: "sem_value (ss_sem y) = 1" "\<forall>u v. has_sem (ss_pc y u) \<longrightarrow> has_sem (ss_pc y v) \<longrightarrow> u = v"
    "\<forall>u. sem_owner (ss_sem y) = Some u \<longrightarrow> has_sem (ss_pc y u)" using assms(1) unfolding bin_inv_def by blast+
  show ?thesis unfolding bin_inv_def h(1) assms(6,7) by (intro conjI A B C D)
qed

text \<open>A thread is the only one with the semaphore.\<close>

lemma bin_inv_take:
  assumes "\<And>u. has_sem (ss_pc y u) \<longleftrightarrow> u = t" "sem_value (ss_sem y) = 1" "sem_count (ss_sem y) \<le> 0"
    and "sem_owner (ss_sem y) = None \<and> ss_pc y t = SAwake \<or> sem_owner (ss_sem y) = Some t"
    and "\<And>u. posting (ss_pc y u) \<Longrightarrow> u = t"
  shows "bin_inv y"
  using assms unfolding bin_inv_def by auto

lemma bin_invD:
  assumes "bin_inv y"
  shows "sem_value (ss_sem y) = 1" "has_sem (ss_pc y t) \<Longrightarrow> has_sem (ss_pc y u) \<Longrightarrow> t = u"
    "has_sem (ss_pc y t) \<Longrightarrow> sem_count (ss_sem y) \<le> 0"
    "(\<And>t. \<not> has_sem (ss_pc y t)) \<Longrightarrow> sem_count (ss_sem y) = 1"
    "sem_owner (ss_sem y) = Some t \<Longrightarrow> has_sem (ss_pc y t)"
    "has_sem (ss_pc y t) \<Longrightarrow> ss_pc y t \<noteq> SAwake \<Longrightarrow> sem_owner (ss_sem y) = Some t"
    "posting (ss_pc y t) \<Longrightarrow> has_sem (ss_pc y t)"
  using assms unfolding bin_inv_def by (blast, blast, metis, metis, blast, blast, blast)

text \<open>The holder may move to another place of a holder, after \<^verbatim>\<open>owner\<close> names it.\<close>

lemma bin_inv_keep:
  assumes b: "bin_inv y" and h: "has_sem (ss_pc y t)" "has_sem p" and y': "ss_pc y' = (ss_pc y)(t := p)"
    and s: "sem_value (ss_sem y') = sem_value (ss_sem y)" "sem_owner (ss_sem y') = Some t" "sem_count (ss_sem y') = sem_count (ss_sem y)"
  shows "bin_inv y'"
proof (rule bin_inv_take [of _ t])
  have only: "has_sem (ss_pc y u) \<longleftrightarrow> u = t" for u using bin_invD(2) [OF b, of u t] h(1) by auto
  show "has_sem (ss_pc y' u) \<longleftrightarrow> u = t" for u using only [of u] h(2) y' by simp
  show "u = t" if "posting (ss_pc y' u)" for u
    using that only [of u] bin_invD(7) [OF b, of u] y' by (auto split: if_splits)
qed (use s bin_invD(1) [OF b] bin_invD(3) [OF b h(1)] in auto)

text \<open>When a unit is left nobody has the semaphore.\<close>

lemma bin_free:
  assumes "bin_inv y" "sem_count (ss_sem y) > 0"
  shows "\<not> has_sem (ss_pc y t)" "sem_count (ss_sem y) = 1" "sem_owner (ss_sem y) = None" "\<not> posting (ss_pc y t)"
proof -
  show n: "\<not> has_sem (ss_pc y t)" for t using bin_invD(3) [OF assms(1), of t] assms(2) by auto
  show "sem_count (ss_sem y) = 1" using bin_invD(4) [OF assms(1)] n by blast
  show "sem_owner (ss_sem y) = None" using bin_invD(5) [OF assms(1)] n by (cases "sem_owner (ss_sem y)") auto
  show "\<not> posting (ss_pc y t)" using bin_invD(7) [OF assms(1)] n by blast
qed

text \<open>A holder that calls \<^verbatim>\<open>sem_wait\<close> is stopped by the check.\<close>

lemma bin_holder_checked:
  assumes "bin_inv y" "ss_pc y t = SHeld"
  shows "sem_check_count (ss_sem y)" "sem_owner (ss_sem y) = Some t"
  using assms bin_invD(1) [OF assms(1)] bin_invD(3,6) [OF assms(1), of t] by (auto simp: sem_check_count_def)

lemma bin_step_inv:
  assumes st: "sem_step N True y y'" and inv: "sem_inv N y" and N: "N \<le> 2 ^ 31" and b: "bin_inv y"
  shows "bin_inv y'"
  using st
proof (cases rule: sem_step.cases)
  case (check_count_pass t tr)
  then have "ss_pc y t \<noteq> SHeld" using bin_holder_checked(1) [OF b] by blast
  then show ?thesis using bin_inv_move [OF b, of t "past_check tr" y'] check_count_pass by auto
next
  case (check_count t tr)
  show ?thesis
  proof (cases "ss_pc y t = SHeld")
    case True
    then show ?thesis using check_count bin_inv_keep [OF b, of t "SLoaded tr True" y'] bin_holder_checked(2) [OF b] by simp
  next
    case False
    then show ?thesis using check_count bin_inv_move [OF b, of t "SLoaded tr False" y'] by simp
  qed
next
  case (check_owner_pass t tr h)
  have "\<not> has_sem (ss_pc y t)" using bin_invD(6) [OF b, of t] check_owner_pass by auto
  then show ?thesis using bin_inv_move [OF b, of t "past_check tr" y'] check_owner_pass(1) by auto
next
  case (check_owner_fail t tr h)
  have "h" using bin_invD(5) [OF b, of t] check_owner_fail(3) check_owner_fail(2) by simp
  then show ?thesis using bin_inv_keep [OF b, of t SHeld y'] check_owner_fail by simp
next
  case (wait_got t e sem th)
  have r: "- (2 ^ 31) < sem_count (ss_sem y)" "sem_count (ss_sem y) < 2 ^ 31"
    using sem_inv_low(2) [OF inv N wait_got(2)] inv by (simp_all add: sem_inv_def)
  note l = sem_wait_lock_cases [OF wait_got(3) r]
  then have c: "sem_count (ss_sem y) > 0" by (auto split: if_splits)
  show ?thesis
    using wait_got(1) l bin_free [OF b c] bin_invD(1) [OF b] by (intro bin_inv_take [of _ t]) (auto split: if_splits)
next
  case (wait_block t sem th)
  have r: "- (2 ^ 31) < sem_count (ss_sem y)" "sem_count (ss_sem y) < 2 ^ 31"
    using sem_inv_low(2) [OF inv N wait_block(2)] inv by (simp_all add: sem_inv_def)
  note l = sem_wait_lock_cases [OF wait_block(3) r]
  then have "\<not> sem_count (ss_sem y) > 0" by (auto split: if_splits)
  then show ?thesis using bin_inv_move [OF b, of t SAsleep y'] wait_block(1,2) l by simp
next
  case (wait_done t)
  then show ?thesis using bin_inv_keep [OF b, of t SHeld y'] by (simp add: sem_wait_end_def)
next
  case (try_got t sem)
  note l = sem_trywait_lock_cases [OF try_got(3)]
  then have c: "sem_count (ss_sem y) > 0" by (auto split: if_splits)
  show ?thesis
    using try_got(1) l c bin_free [OF b c] bin_invD(1) [OF b] by (intro bin_inv_take [of _ t]) (auto split: if_splits)
next
  case (try_fail t e sem)
  note l = sem_trywait_lock_cases [OF try_fail(3)]
  then have "sem = ss_sem y" using try_fail(4) by (auto split: if_splits)
  then show ?thesis using bin_inv_move [OF b, of t SIdle y'] try_fail(1,2) by simp
next
  case (post_any t)
  then show ?thesis using bin_invD(1) [OF b] by simp
next
  case (post_count t)
  then have h: "ss_pc y t = SHeld" by simp
  then have "sem_count (ss_sem y) \<le> 0" using bin_invD(3) [OF b, of t] by simp
  then show ?thesis using bin_inv_keep [OF b, of t "SPostOwner True" y'] post_count(1) h bin_holder_checked(2) [OF b h] by simp
next
  case (post_owner t h)
  then have "h" "sem_owner (ss_sem y) = Some t" using bin_invD(6,7) [OF b, of t] by auto
  then show ?thesis using bin_inv_keep [OF b, of t "SPostAgain True" y'] post_owner by simp
next
  case (post_again t h)
  then have "h" "sem_owner (ss_sem y) = Some t" "sem_count (ss_sem y) \<le> 0" using bin_invD(3,6,7) [OF b, of t] by auto
  then show ?thesis using bin_inv_keep [OF b, of t "SPosting True" y'] post_again by simp
next
  case (post_idle t h sem th)
  have ht: "has_sem (ss_pc y t)" using bin_invD(7) [OF b, of t] post_idle(2) by simp
  have only: "\<not> has_sem (ss_pc y' u)" for u using bin_invD(2) [OF b, of u t] ht post_idle(1) by auto
  have np: "\<not> posting (ss_pc y' u)" for u using bin_invD(7) [OF b, of u] only [of u] post_idle(1) by (auto split: if_splits)
  have c: "sem_count (ss_sem y) \<le> 0" using bin_invD(3) [OF b ht] .
  then have r: "sem_count (ss_sem y) < 2 ^ 31 - 1" by simp
  moreover have "sem_count (ss_sem y) \<ge> 0"
    using post_wakes_iff(1) [OF inv N post_idle(3) r] post_idle(4) by auto
  moreover have "ss_sem y' = sem" using post_idle(1) by simp
  ultimately show ?thesis
    using sem_post_lock_idle [OF post_idle(3) _ r] c only np bin_invD(1) [OF b] unfolding bin_inv_def by simp
next
  case (post_wake t h sem th u)
  have ht: "has_sem (ss_pc y t)" using bin_invD(7) [OF b, of t] post_wake(2) by simp
  have r: "sem_count (ss_sem y) < 2 ^ 31 - 1" using bin_invD(3) [OF b ht] by simp
  note w = post_wakes_iff(2) [OF inv N post_wake(3) r post_wake(4)]
  have only: "has_sem (ss_pc y x) \<Longrightarrow> x = t" for x using bin_invD(2) [OF b, of x t] ht by simp
  have hu: "has_sem (ss_pc y' x) \<longleftrightarrow> x = u" for x
    using only [of x] by (auto simp: post_wake(1))
  have pu: "x = u" if "posting (ss_pc y' x)" for x
    using that only [of x] bin_invD(7) [OF b, of x] post_wake(1) by (auto split: if_splits)
  have "ss_sem y' = sem" using post_wake(1) by simp
  then show ?thesis
    using w post_wake(4) bin_invD(1) [OF b] by (intro bin_inv_take [OF hu _ _ _ pu]) simp_all
qed

lemma sem_ops_value:
  "sem_wait_lock t (sem, th) = (r, sem', th') \<Longrightarrow> sem_value sem' = sem_value sem"
  "sem_trywait_lock t sem = (e, sem') \<Longrightarrow> sem_value sem' = sem_value sem"
  "sem_post_lock (sem, th) = (sem', th') \<Longrightarrow> sem_value sem' = sem_value sem"
  by (auto simp: sem_wait_lock_def wait_on_def sem_trywait_lock_def sem_post_lock_def Let_def split: if_splits prod.splits)

lemma sem_step_frame:
  assumes "sem_step N lawful y y'"
  shows "sem_value (ss_sem y') = sem_value (ss_sem y)" "ss_posts y \<le> ss_posts y'"
  using assms by (cases rule: sem_step.cases; simp add: sem_wait_end_def sem_ops_value)+

lemma sem_reach_inv:
  assumes "sem_reach N lawful y y'" "sem_inv N y" "N \<le> 2 ^ 31" "unat (sem_value (ss_sem y)) + ss_posts y' < 2 ^ 31"
  shows "sem_inv N y' \<and> sem_value (ss_sem y') = sem_value (ss_sem y)"
  using assms
proof (induction rule: rtranclp_induct)
  case base
  then show ?case by simp
next
  case (step y1 y2)
  note f = sem_step_frame [OF step(2)]
  have i: "sem_inv N y1" "sem_value (ss_sem y1) = sem_value (ss_sem y)" using step f(2) by simp_all
  have "ss_posts y2 = ss_posts y1 \<or> sem_count (ss_sem y1) < 2 ^ 31 - 1"
  proof (cases "ss_posts y2 = ss_posts y1")
    case False
    have "sem_count (ss_sem y1) \<le> int (unat (sem_value (ss_sem y)) + ss_posts y1)" using i by (simp add: sem_inv_def)
    moreover have "unat (sem_value (ss_sem y)) + ss_posts y1 < 2 ^ 31 - 1" using False f(2) step.prems(3) by simp
    then have "int (unat (sem_value (ss_sem y)) + ss_posts y1) < int (2 ^ 31 - 1)" unfolding of_nat_less_iff .
    ultimately show ?thesis by simp
  qed simp
  then show ?case using sem_step_inv [OF step(2) i(1) step.prems(2)] f(1) i(2) by simp
qed

lemma bin_reach_inv:
  assumes "sem_reach N True y y'" "sem_inv N y" "bin_inv y" "N \<le> 2 ^ 31"
  shows "sem_inv N y' \<and> bin_inv y'"
  using assms
proof (induction rule: rtranclp_induct)
  case (step y1 y2)
  then have i: "sem_inv N y1" "bin_inv y1" by simp_all
  have "sem_count (ss_sem y1) \<le> 1" using i(2) by (auto simp: bin_inv_def split: if_splits)
  then show ?case using sem_step_inv [OF step(2) i(1) step.prems(3)] bin_step_inv [OF step(2) i(1) step.prems(3) i(2)] by simp
qed simp

lemma sem_start_inv:
  assumes "sem_init (Some s) val scope = (0, Some sem)"
  shows "sem_inv N (sem_start sem th)" "val = 1 \<Longrightarrow> sem_owner s = None \<Longrightarrow> bin_inv (sem_start sem th)"
    "sem_value sem = val"
proof -
  have "val \<le> SEM_VALUE_MAX" using assms by (auto simp: sem_init_def split: if_splits)
  then have "unat val \<le> 2048" by (simp add: word_le_nat_alt)
  then have "int (unat val) \<le> int 2048" unfolding of_nat_le_iff .
  then have "uint val < 2 ^ 31" by simp
  moreover from this have "sint32 (uint val) = uint val" using uint_ge_0 [of val] by (intro sint32_id) linarith+
  ultimately show "sem_inv N (sem_start sem th)" "val = 1 \<Longrightarrow> sem_owner s = None \<Longrightarrow> bin_inv (sem_start sem th)" "sem_value sem = val"
    using assms by (auto simp: sem_init_def sem_inv_def bin_inv_def sem_start_def wait_queue_init_def split: if_splits)
qed

lemma sem_units:
  fixes w v p l :: nat
  assumes "c = int v + int p - int w" "int l = max 0 (- c)"
  shows "w - l = min w (v + p)" "0 < l \<Longrightarrow> c < 0 \<and> v + p < w"
  using assms by (auto simp: max_def min_def split: if_splits)

section \<open>Properties\<close>

text \<open>C10. A counting semaphore over all interleavings of up to \<open>2 ^ 31\<close> callers, as long as its value and the posts stay below
  \<open>2 ^ 31\<close>, so that the signed count does not wrap around: the count is what is left of the units, and of the units asked for
  exactly as many are granted as the initial value and the posts provide. So no more threads get through than there are units, and
  no thread sleeps while a unit is left.\<close>

theorem sem_counting:
  assumes init: "sem_init (Some s) val scope = (0, Some sem)" and N: "N \<le> 2 ^ 31" and run: "sem_reach N lawful (sem_start sem th) y"
    and posts: "unat val + ss_posts y < 2 ^ 31"
  shows "sem_count (ss_sem y) = int (unat val) + int (ss_posts y) - int (ss_waits y) \<and>
    ss_waits y - card {t. ss_pc y t = SAsleep} = min (ss_waits y) (unat val + ss_posts y) \<and>
    ((\<exists>t. ss_pc y t = SAsleep) \<longrightarrow> sem_count (ss_sem y) < 0 \<and> unat val + ss_posts y < ss_waits y)"
proof -
  have v: "sem_value (ss_sem (sem_start sem th)) = val" using sem_start_inv(3) [OF init] by (simp add: sem_start_def)
  have i: "sem_inv N y" "sem_value (ss_sem y) = val"
    using sem_reach_inv [OF run sem_start_inv(1) [OF init] N] posts v by simp_all
  have "card {t. ss_pc y t = SAsleep} = length (sem_q (ss_sem y))"
    using i(1) distinct_card [of "sem_q (ss_sem y)"] by (simp add: sem_inv_def)
  moreover have sq: "set (sem_q (ss_sem y)) = {t. ss_pc y t = SAsleep}" using i(1) by (simp add: sem_inv_def)
  have "(\<exists>t. ss_pc y t = SAsleep) \<longleftrightarrow> sem_q (ss_sem y) \<noteq> []" unfolding set_empty [symmetric] sq by blast
  moreover have "sem_count (ss_sem y) = int (unat val) + int (ss_posts y) - int (ss_waits y)"
    "int (length (sem_q (ss_sem y))) = max 0 (- sem_count (ss_sem y))"
    using i by (simp_all add: sem_inv_def)
  ultimately show ?thesis using sem_units [of _ "unat val"] by (metis length_greater_0_conv)
qed

text \<open>C11. Mutual exclusion of a binary semaphore whose \<^verbatim>\<open>owner\<close> was null when it was initialised, when only a thread that has
  the semaphore posts it: although the loads of the checks and the write of \<^verbatim>\<open>owner\<close> run outside the spinlock, in every
  interleaving of the single loads, the locked parts and the write at most one thread is between its wait and its post, and if a
  thread is asleep there is one. The count never leaves its range.\<close>

theorem sem_binary_exclusive:
  assumes init: "sem_init (Some s) 1 scope = (0, Some sem)" and o: "sem_owner s = None" and N: "N \<le> 2 ^ 31"
    and run: "sem_reach N True (sem_start sem th) y"
  shows "(has_sem (ss_pc y t) \<longrightarrow> has_sem (ss_pc y u) \<longrightarrow> t = u) \<and>
    (ss_pc y t = SAsleep \<longrightarrow> (\<exists>u. has_sem (ss_pc y u))) \<and> - (2 ^ 31) \<le> sem_count (ss_sem y) \<and> sem_count (ss_sem y) \<le> 1"
proof -
  note s = sem_start_inv(1,2) [OF init, where th = th]
  have b: "bin_inv y" and i: "sem_inv N y" using bin_reach_inv [OF run s(1) s(2) [OF refl o] N] by simp_all
  have "sem_count (ss_sem y) < 0" if "ss_pc y t = SAsleep"
  proof -
    have "0 < length (sem_q (ss_sem y))" using i that unfolding sem_inv_def by force
    moreover have "int (length (sem_q (ss_sem y))) = max 0 (- sem_count (ss_sem y))" using i by (simp add: sem_inv_def)
    ultimately show ?thesis by (cases "sem_count (ss_sem y) < 0") (simp_all add: max_def split: if_splits)
  qed
  then show ?thesis using b sem_inv_low(1) [OF i N] unfolding bin_inv_def by (auto split: if_splits)
qed

text \<open>A thread takes a binary semaphore that is free.\<close>

lemma sem_take_free:
  assumes "t < N" "ss_pc y t = SIdle" "sem_value (ss_sem y) = 1" "sem_count (ss_sem y) = 1"
  shows "sem_reach N lawful y (y\<lparr>ss_sem := (ss_sem y)\<lparr>sem_count := 0\<rparr>, ss_pc := (ss_pc y)(t := SAwake), ss_waits := Suc (ss_waits y)\<rparr>)"
proof -
  let ?y = "y\<lparr>ss_pc := (ss_pc y)(t := SEntering)\<rparr>"
  have 1: "sem_step N lawful y ?y"
    using check_count_pass [where t = t and N = N and y = y and lawful = lawful and tr = False] assms by (simp add: sem_check_count_def)
  have "sem_wait_lock t (ss_sem ?y, ss_th ?y) = (Returns 0, (ss_sem y)\<lparr>sem_count := 0\<rparr>, ss_th y)"
    using assms(4) by (simp add: sem_wait_lock_def)
  from wait_got [OF _ this, of N lawful] have "sem_step N lawful ?y
      (y\<lparr>ss_sem := (ss_sem y)\<lparr>sem_count := 0\<rparr>, ss_pc := (ss_pc y)(t := SAwake), ss_waits := Suc (ss_waits y)\<rparr>)" by simp
  with 1 show ?thesis by (meson converse_rtranclp_into_rtranclp r_into_rtranclp)
qed

text \<open>A post without sleepers.\<close>

lemma sem_post_free:
  assumes "ss_pc y t = SPosting h" "sem_count (ss_sem y) = 0"
  shows "sem_step N lawful y (y\<lparr>ss_sem := (ss_sem y)\<lparr>sem_count := 1, sem_owner := None\<rparr>, ss_pc := (ss_pc y)(t := SIdle), ss_posts := Suc (ss_posts y)\<rparr>)"
proof -
  have "sem_post_lock (ss_sem y, ss_th y) = ((ss_sem y)\<lparr>sem_count := 1, sem_owner := None\<rparr>, ss_th y)"
    using assms(2) by (simp add: sem_post_lock_def)
  from post_idle [OF assms(1) this, of N lawful] show ?thesis by simp
qed


text \<open>\<^verbatim>\<open>sem_init\<close> does not set \<^verbatim>\<open>owner\<close>: when the memory held the address of a thread there, that
  thread can post a binary semaphore another thread has just taken, and a third one gets it too.\<close>

theorem sem_stale_owner:
  assumes "sem_init (Some s) 1 scope = (0, Some sem)" "sem_owner s = Some c" "a \<noteq> b" "a \<noteq> c" "b \<noteq> c" "a < N" "b < N" "c < N"
  shows "\<exists>y. sem_reach N False (sem_start sem th) y \<and> has_sem (ss_pc y a) \<and> has_sem (ss_pc y b)"
proof -
  have s: "sem_value sem = 1" "sem_count sem = 1" "sem_owner sem = Some c"
    using assms(1,2) by (auto simp: sem_init_def wait_queue_init_def split: if_splits)
  define y1 where "y1 = (sem_start sem th)\<lparr>ss_sem := sem\<lparr>sem_count := 0\<rparr>, ss_pc := (\<lambda>_. SIdle)(a := SAwake), ss_waits := 1\<rparr>"
  define y2 where "y2 = y1\<lparr>ss_pc := (ss_pc y1)(c := SPostOwner False)\<rparr>"
  define y3 where "y3 = y2\<lparr>ss_pc := (ss_pc y2)(c := SPostAgain False)\<rparr>"
  define y4 where "y4 = y3\<lparr>ss_pc := (ss_pc y3)(c := SPosting False)\<rparr>"
  define y5 where "y5 = y4\<lparr>ss_sem := sem\<lparr>sem_count := 1, sem_owner := None\<rparr>, ss_pc := (ss_pc y4)(c := SIdle), ss_posts := 1\<rparr>"
  define y6 where "y6 = y5\<lparr>ss_sem := sem\<lparr>sem_owner := None, sem_count := 0\<rparr>, ss_pc := (ss_pc y5)(b := SAwake), ss_waits := 2\<rparr>"
  have "sem_reach N False (sem_start sem th) y1"
    using sem_take_free [of a N "sem_start sem th" False] s assms by (simp add: y1_def sem_start_def)
  moreover have "sem_step N False y1 y2"
    using post_count [where t = c and N = N and y = y1 and lawful = False] s assms by (simp add: y1_def y2_def)
  moreover have "sem_step N False y2 y3"
    using post_owner [where t = c and N = N and y = y2 and lawful = False and h = False] s assms by (simp add: y1_def y2_def y3_def)
  moreover have "sem_step N False y3 y4"
    using post_again [where t = c and N = N and y = y3 and lawful = False and h = False] s assms by (simp add: y1_def y2_def y3_def y4_def)
  moreover have "sem_step N False y4 y5"
    using sem_post_free [of y4 c False N False] s assms by (simp add: y1_def y2_def y3_def y4_def y5_def sem_start_def)
  moreover have "sem_reach N False y5 y6"
    using sem_take_free [of b N y5 False] s assms by (simp add: y1_def y2_def y3_def y4_def y5_def y6_def sem_start_def numeral_2_eq_2)
  ultimately have "sem_reach N False (sem_start sem th) y6"
    by (meson converse_rtranclp_into_rtranclp rtranclp_trans r_into_rtranclp)
  moreover have "has_sem (ss_pc y6 a)" "has_sem (ss_pc y6 b)" using assms by (simp_all add: y6_def y5_def y4_def y3_def y2_def y1_def)
  ultimately show ?thesis by blast
qed

lemma cv_signal_n:
  "n \<le> length (wq_root (cv_wait_queue cv)) \<Longrightarrow>
    wq_root (cv_wait_queue (fst ((cv_signal ^^ n) (cv, th)))) = drop n (wq_root (cv_wait_queue cv)) \<and>
    th_woken (snd ((cv_signal ^^ n) (cv, th))) = th_woken th @ take n (wq_root (cv_wait_queue cv))"
proof (induction n arbitrary: cv th)
  case (Suc n)
  then obtain t ts where q: "wq_root (cv_wait_queue cv) = t # ts" by (cases "wq_root (cv_wait_queue cv)") auto
  have "n \<le> length ts" using Suc.prems q by simp
  then show ?case
    using Suc.IH [of "cv\<lparr>cv_wait_queue := cv_wait_queue cv\<lparr>wq_root := ts\<rparr>\<rparr>"] q
    by (simp add: funpow_Suc_right cv_signal_def wakeup_one_first [OF q] del: funpow.simps)
qed simp

text \<open>C13. \<^verbatim>\<open>cv_wait\<close> with a binary semaphore: a caller that does not have the semaphore gets \<^verbatim>\<open>EINVAL\<close> and
  nothing changes. Otherwise the caller releases it and is queued behind the earlier waiters in one step
  under the variable's lock, so that every signal after the release finds it: it is woken by the signal
  that follows as many signals as there were waiters before it, or by a broadcast.\<close>

theorem cv_wait_signal:
  assumes "cv_wait this (cv, sem, th) = (r, cv', sem', th')" "sem_value sem = 1"
  shows "if sem_owner sem = Some this \<and> sem_count sem \<le> 0
    then r = Blocked \<and> sem' = fst (sem_post_lock (sem, th)) \<and>
      wq_root (cv_wait_queue cv') = wq_root (cv_wait_queue cv) @ [this] \<and>
      last (th_woken (snd ((cv_signal ^^ Suc (length (wq_root (cv_wait_queue cv)))) (cv', th')))) = this \<and>
      this \<in> set (th_woken (snd (cv_broadcast (cv', th'))))
    else r = Returns EINVAL \<and> (cv', sem', th') = (cv, sem, th)"
proof (cases "sem_owner sem = Some this \<and> sem_count sem \<le> 0")
  case False
  then show ?thesis using assms(1) by (auto simp: cv_wait_def sem_getvalue_def)
next
  case True
  obtain sem1 th1 where p: "sem_post_lock (sem, th) = (sem1, th1)" by (cases "sem_post_lock (sem, th)")
  have r: "r = Blocked" "sem' = sem1" "cv' = cv\<lparr>cv_wait_queue := fst (wait_on (cv_wait_queue cv) WAIT_LAST this th1)\<rparr>"
    using assms True p
    by (auto simp: cv_wait_def sem_getvalue_def sem_post_def sem_post_check_def Let_def split: prod.splits)
  then have q: "wq_root (cv_wait_queue cv') = wq_root (cv_wait_queue cv) @ [this]" by simp
  have "th_woken (snd ((cv_signal ^^ Suc (length (wq_root (cv_wait_queue cv)))) (cv', th'))) =
      th_woken th' @ wq_root (cv_wait_queue cv')"
    using cv_signal_n [of "Suc (length (wq_root (cv_wait_queue cv)))" cv' th'] q by simp
  then have "last (th_woken (snd ((cv_signal ^^ Suc (length (wq_root (cv_wait_queue cv)))) (cv', th')))) = this"
    using q by simp
  moreover have "this \<in> set (th_woken (snd (cv_broadcast (cv', th'))))"
    using q by (simp add: cv_broadcast_def wakeup_all_spec)
  ultimately show ?thesis using True r(1,2) q p by simp
qed

section \<open>Witnesses\<close>

definition demo_sem :: semaphore_s where
  "demo_sem = \<lparr>sem_signature = 0, sem_value = 0, sem_count = 0, sem_scope = 0, sem_owner = None,
     sem_wait_queue = \<lparr>wq_addr = 8, wq_name = [], wq_state = 0, wq_root = []\<rparr>\<rparr>"

definition demo_sem1 :: semaphore_s where
  "demo_sem1 = demo_sem\<lparr>sem_signature := SEMAPHORE_ID, sem_value := 1, sem_count := 1, sem_scope := 1,
     sem_wait_queue := \<lparr>wq_addr = 8, wq_name = ''Semaphore Sync'', wq_state = 0, wq_root = []\<rparr>\<rparr>"

definition demo_threads :: threads where
  "demo_threads = \<lparr>th_queue = (\<lambda>_. NULL), th_woken = []\<rparr>"

lemma demo_sem_init: "sem_init (Some (demo_sem\<lparr>sem_owner := ow\<rparr>)) 1 1 = (0, Some (demo_sem1\<lparr>sem_owner := ow\<rparr>))"
  by (simp add: sem_init_def demo_sem_def demo_sem1_def wait_queue_init_def)

lemma demo_taken:
  "sem_reach 10 True (sem_start demo_sem1 demo_threads)
     ((sem_start demo_sem1 demo_threads)\<lparr>ss_sem := demo_sem1\<lparr>sem_count := 0\<rparr>, ss_pc := (\<lambda>_. SIdle)(3 := SAwake), ss_waits := 1\<rparr>)"
  using sem_take_free [of 3 10 "sem_start demo_sem1 demo_threads" True] by (simp add: sem_start_def demo_sem1_def)

theorem sem_counting_witness:
  "\<exists>y. sem_reach 10 True (sem_start demo_sem1 demo_threads) y \<and> ss_waits y = 1 \<and> ss_waits y - card {t. ss_pc y t = SAsleep} = min (ss_waits y) (1 + ss_posts y)"
proof -
  let ?y = "(sem_start demo_sem1 demo_threads)\<lparr>ss_sem := demo_sem1\<lparr>sem_count := 0\<rparr>, ss_pc := (\<lambda>_. SIdle)(3 := SAwake), ss_waits := 1\<rparr>"
  have i: "sem_init (Some demo_sem) 1 1 = (0, Some demo_sem1)"
    using demo_sem_init [of None] by (simp add: demo_sem_def demo_sem1_def)
  have p: "unat (1 :: uint_t) + ss_posts ?y < 2 ^ 31" by (simp add: sem_start_def)
  from sem_counting [OF i _ demo_taken p] demo_taken show ?thesis by (intro exI [of _ ?y]) simp
qed

theorem sem_binary_exclusive_witness:
  "\<exists>y. sem_reach 10 True (sem_start demo_sem1 demo_threads) y \<and> has_sem (ss_pc y 3) \<and> \<not> has_sem (ss_pc y 4)"
proof -
  let ?y = "(sem_start demo_sem1 demo_threads)\<lparr>ss_sem := demo_sem1\<lparr>sem_count := 0\<rparr>, ss_pc := (\<lambda>_. SIdle)(3 := SAwake), ss_waits := 1\<rparr>"
  have i: "sem_init (Some demo_sem) 1 1 = (0, Some demo_sem1)" "sem_owner demo_sem = None"
    using demo_sem_init [of None] by (simp_all add: demo_sem_def demo_sem1_def)
  have h: "has_sem (ss_pc ?y 3)" by simp
  have "(10::nat) \<le> 2 ^ 31" by simp
  from sem_binary_exclusive [OF i this demo_taken, of 3 4] h show ?thesis using demo_taken by (intro exI [of _ ?y]) auto
qed


theorem sem_stale_owner_witness:
  "\<exists>y. sem_reach 10 False (sem_start (demo_sem1\<lparr>sem_owner := Some 9\<rparr>) demo_threads) y \<and> has_sem (ss_pc y 3) \<and> has_sem (ss_pc y 4)"
  using sem_stale_owner [OF demo_sem_init [of "Some 9"], of 9 3 4 10 demo_threads] by simp

theorem cv_wait_signal_witness:
  "\<exists>cv' sem' th'. cv_wait 5 (\<lparr>cv_signature = COND_VAR_ID, cv_wait_queue = sem_wait_queue demo_sem\<rparr>,
      demo_sem1\<lparr>sem_count := 0, sem_owner := Some 5\<rparr>, demo_threads) = (Blocked, cv', sem', th') \<and>
    th_woken (snd (cv_signal (cv', th'))) = [5]"
proof -
  let ?cv = "\<lparr>cv_signature = COND_VAR_ID, cv_wait_queue = sem_wait_queue demo_sem\<rparr>"
  let ?sem = "demo_sem1\<lparr>sem_count := 0, sem_owner := Some 5\<rparr>"
  obtain r cv' sem' th' where c: "cv_wait 5 (?cv, ?sem, demo_threads) = (r, cv', sem', th')"
    by (cases "cv_wait 5 (?cv, ?sem, demo_threads)") auto
  have v: "sem_value ?sem = 1" "sem_owner ?sem = Some 5 \<and> sem_count ?sem \<le> 0" "wq_root (cv_wait_queue ?cv) = []"
    by (simp_all add: demo_sem1_def demo_sem_def)
  have t: "th_woken th' = []"
    using c by (auto simp: cv_wait_def sem_getvalue_def sem_post_def sem_post_check_def sem_post_lock_def
        demo_sem1_def demo_sem_def demo_threads_def wait_on_def Let_def)
  show ?thesis
    using cv_wait_signal [OF c v(1)] v(2,3) c t
    by (auto simp: cv_signal_def wakeup_one_def sched_wakeup_call_def)
qed

end
