(* ===== verification/RwLock.thy ===== *)
theory RwLock
  imports Semaphore
begin

text \<open>
  Reader/writer locks (\<^verbatim>\<open>kernel/kern/rwlock.c\<close>). Every operation runs under the lock's queue lock
  and is one step here. \<open>rw_count\<close> is \<open>-1\<close> for a writer and otherwise the number of readers; a
  release hands the lock to the first waiting writer or to all waiting readers.
\<close>

abbreviation RWLOCK_ID :: uint_t where "RWLOCK_ID \<equiv> 0xD1A5B1EF"

record rwlock_s =
  rw_signature :: uint_t
  rw_count :: int
  rw_rd_wait_queue :: wait_queue_s
  rw_wr_wait_queue :: wait_queue_s

definition rwlock_init :: "rwlock_s \<Rightarrow> rwlock_s" where
  "rwlock_init rwlock = rwlock\<lparr>rw_signature := RWLOCK_ID, rw_count := 0,
     rw_rd_wait_queue := wait_queue_init (rw_rd_wait_queue rwlock) ''RWLOCK: Rreaders'',
     rw_wr_wait_queue := wait_queue_init (rw_wr_wait_queue rwlock) ''RWLOCK: Writers''\<rparr>"

definition rwlock_wrlock :: "tid \<Rightarrow> rwlock_s \<times> threads \<Rightarrow> outcome \<times> rwlock_s \<times> threads" where
  "rwlock_wrlock this = (\<lambda>(rwlock, th).
     if rw_count rwlock = 0 then (Returns 0, rwlock\<lparr>rw_count := rw_count rwlock - 1\<rparr>, th)
     else let (q, th) = wait_on (rw_wr_wait_queue rwlock) WAIT_LAST this th
          in (Blocked, rwlock\<lparr>rw_wr_wait_queue := q\<rparr>, th))"

definition rwlock_rdlock :: "tid \<Rightarrow> rwlock_s \<times> threads \<Rightarrow> outcome \<times> rwlock_s \<times> threads" where
  "rwlock_rdlock this = (\<lambda>(rwlock, th).
     if rw_count rwlock \<ge> 0 \<and> wait_queue_isEmpty (rw_wr_wait_queue rwlock)
     then (Returns 0, rwlock\<lparr>rw_count := rw_count rwlock + 1\<rparr>, th)
     else let (q, th) = wait_on (rw_rd_wait_queue rwlock) WAIT_LAST this th
          in (Blocked, rwlock\<lparr>rw_rd_wait_queue := q\<rparr>, th))"

definition rwlock_trywrlock :: "rwlock_s \<Rightarrow> error_t \<times> rwlock_s" where
  "rwlock_trywrlock rwlock =
     (if rw_count rwlock \<noteq> 0 then (EBUSY, rwlock) else (0, rwlock\<lparr>rw_count := rw_count rwlock - 1\<rparr>))"

definition rwlock_tryrdlock :: "rwlock_s \<Rightarrow> error_t \<times> rwlock_s" where
  "rwlock_tryrdlock rwlock =
     (if rw_count rwlock \<ge> 0 \<and> wait_queue_isEmpty (rw_wr_wait_queue rwlock)
      then (0, rwlock\<lparr>rw_count := rw_count rwlock + 1\<rparr>)
      else (EBUSY, rwlock))"

definition rwlock_unlock :: "rwlock_s \<times> threads \<Rightarrow> error_t \<times> rwlock_s \<times> threads" where
  "rwlock_unlock = (\<lambda>(rwlock, th).
     if rw_count rwlock = 0 then (EPERM, rwlock, th)
     else if rw_count rwlock > 1 then (0, rwlock\<lparr>rw_count := rw_count rwlock - 1\<rparr>, th)
     else let rwlock = rwlock\<lparr>rw_count := 0\<rparr>;
              (thread, q, th) = wakeup_one (rw_wr_wait_queue rwlock) WAIT_FIRST th;
              rwlock = rwlock\<lparr>rw_wr_wait_queue := q\<rparr>
          in if thread \<noteq> None then (0, rwlock\<lparr>rw_count := rw_count rwlock - 1\<rparr>, th)
             else let (n, q, th) = wakeup_all (rw_rd_wait_queue rwlock) th
                  in (0, rwlock\<lparr>rw_rd_wait_queue := q, rw_count := rw_count rwlock + int n\<rparr>, th))"

definition rwlock_destroy :: "rwlock_s \<Rightarrow> error_t" where
  "rwlock_destroy rwlock = (if rw_count rwlock \<noteq> 0 then EBUSY else 0)"

section \<open>Interleaved callers\<close>

datatype rw_pc = RIdle | RWaitRead | RWaitWrite | RReading | RWriting

record rw_sys =
  rs_lock :: rwlock_s
  rs_th :: threads
  rs_pc :: "tid \<Rightarrow> rw_pc"

text \<open>A release is the call of a reader or a writer; the threads it wakes go on as the holders they
  waited to become.\<close>

definition woken_pc :: "tid list \<Rightarrow> (tid \<Rightarrow> rw_pc) \<Rightarrow> tid \<Rightarrow> rw_pc" where
  "woken_pc ts pc t =
     (if t \<in> set ts
      then (case pc t of RWaitRead \<Rightarrow> RReading | RWaitWrite \<Rightarrow> RWriting | p \<Rightarrow> p)
      else pc t)"

inductive rw_step :: "rw_sys \<Rightarrow> rw_sys \<Rightarrow> bool" where
  wr_got: "rs_pc y t = RIdle \<Longrightarrow> rwlock_wrlock t (rs_lock y, rs_th y) = (Returns e, l, th) \<Longrightarrow>
    rw_step y \<lparr>rs_lock = l, rs_th = th, rs_pc = (rs_pc y)(t := RWriting)\<rparr>"
| wr_block: "rs_pc y t = RIdle \<Longrightarrow> rwlock_wrlock t (rs_lock y, rs_th y) = (Blocked, l, th) \<Longrightarrow>
    rw_step y \<lparr>rs_lock = l, rs_th = th, rs_pc = (rs_pc y)(t := RWaitWrite)\<rparr>"
| rd_got: "rs_pc y t = RIdle \<Longrightarrow> rwlock_rdlock t (rs_lock y, rs_th y) = (Returns e, l, th) \<Longrightarrow>
    rw_step y \<lparr>rs_lock = l, rs_th = th, rs_pc = (rs_pc y)(t := RReading)\<rparr>"
| rd_block: "rs_pc y t = RIdle \<Longrightarrow> rwlock_rdlock t (rs_lock y, rs_th y) = (Blocked, l, th) \<Longrightarrow>
    rw_step y \<lparr>rs_lock = l, rs_th = th, rs_pc = (rs_pc y)(t := RWaitRead)\<rparr>"
| trywr: "rs_pc y t = RIdle \<Longrightarrow> rwlock_trywrlock (rs_lock y) = (0, l) \<Longrightarrow>
    rw_step y \<lparr>rs_lock = l, rs_th = rs_th y, rs_pc = (rs_pc y)(t := RWriting)\<rparr>"
| tryrd: "rs_pc y t = RIdle \<Longrightarrow> rwlock_tryrdlock (rs_lock y) = (0, l) \<Longrightarrow>
    rw_step y \<lparr>rs_lock = l, rs_th = rs_th y, rs_pc = (rs_pc y)(t := RReading)\<rparr>"
| unlock: "rs_pc y t = RReading \<or> rs_pc y t = RWriting \<Longrightarrow>
    rwlock_unlock (rs_lock y, rs_th y) = (e, l, th) \<Longrightarrow> th_woken th = th_woken (rs_th y) @ woken \<Longrightarrow>
    rw_step y \<lparr>rs_lock = l, rs_th = th, rs_pc = woken_pc woken ((rs_pc y)(t := RIdle))\<rparr>"

abbreviation rw_reach :: "rw_sys \<Rightarrow> rw_sys \<Rightarrow> bool" where "rw_reach \<equiv> rw_step\<^sup>*\<^sup>*"

abbreviation rd_q :: "rwlock_s \<Rightarrow> tid list" where "rd_q l \<equiv> wq_root (rw_rd_wait_queue l)"
abbreviation wr_q :: "rwlock_s \<Rightarrow> tid list" where "wr_q l \<equiv> wq_root (rw_wr_wait_queue l)"

definition rw_start :: "rwlock_s \<Rightarrow> threads \<Rightarrow> rw_sys" where
  "rw_start l th = \<lparr>rs_lock = l, rs_th = th, rs_pc = (\<lambda>_. RIdle)\<rparr>"

text \<open>The invariant on the count, the two queues and the places of the threads. \<open>R\<close> are the readers
  and \<open>W\<close> the writers.\<close>

definition rw_shape :: "int \<Rightarrow> tid list \<Rightarrow> tid list \<Rightarrow> tid set \<Rightarrow> tid set \<Rightarrow> bool" where
  "rw_shape c rq wq R W \<longleftrightarrow> distinct rq \<and> distinct wq \<and> finite R \<and>
     (c = -1 \<and> R = {} \<and> (\<exists>t. W = {t}) \<or> c = int (card R) \<and> W = {}) \<and>
     (wq \<noteq> [] \<longrightarrow> c \<noteq> 0) \<and> (rq \<noteq> [] \<longrightarrow> c = -1 \<or> wq \<noteq> [])"

definition rw_inv :: "rw_sys \<Rightarrow> bool" where
  "rw_inv y \<longleftrightarrow> rw_shape (rw_count (rs_lock y)) (rd_q (rs_lock y)) (wr_q (rs_lock y))
       {t. rs_pc y t = RReading} {t. rs_pc y t = RWriting} \<and>
     set (rd_q (rs_lock y)) = {t. rs_pc y t = RWaitRead} \<and>
     set (wr_q (rs_lock y)) = {t. rs_pc y t = RWaitWrite}"

lemma shape_wr: "rw_shape 0 rq wq R W \<Longrightarrow> rw_shape (-1) rq wq R (insert t W)"
  by (auto simp: rw_shape_def)

lemma shape_wrq: "rw_shape c rq wq R W \<Longrightarrow> c \<noteq> 0 \<Longrightarrow> t \<notin> set wq \<Longrightarrow> rw_shape c rq (wq @ [t]) R W"
  by (auto simp: rw_shape_def)

lemma shape_rd: "rw_shape c rq [] R W \<Longrightarrow> c \<ge> 0 \<Longrightarrow> t \<notin> R \<Longrightarrow> rw_shape (c + 1) rq [] (insert t R) W"
  by (auto simp: rw_shape_def)

lemma shape_rdq: "rw_shape c rq wq R W \<Longrightarrow> c < 0 \<or> wq \<noteq> [] \<Longrightarrow> t \<notin> set rq \<Longrightarrow> rw_shape c (rq @ [t]) wq R W"
  by (auto simp: rw_shape_def)

lemma shape_leave: "rw_shape c rq wq R W \<Longrightarrow> c > 1 \<Longrightarrow> t \<in> R \<union> W \<Longrightarrow> rw_shape (c - 1) rq wq (R - {t}) (W - {t})"
  by (auto simp: rw_shape_def card_Diff_singleton)

text \<open>The last reader or the writer leaves: nobody else is in.\<close>

lemma shape_last:
  assumes "rw_shape c rq wq R W" "\<not> c > 1" "c \<noteq> 0" "t \<in> R \<union> W"
  shows "R - {t} = {}" "W - {t} = {}"
proof -
  consider "c = -1" "R = {}" "\<exists>t. W = {t}" | "card R = 1" "W = {}"
    using assms(1-3) unfolding rw_shape_def by fastforce
  then have "R - {t} = {} \<and> W - {t} = {}"
    using assms(4) by cases (auto simp: card_1_singleton_iff)
  then show "R - {t} = {}" "W - {t} = {}" by simp_all
qed

lemma shape_hand_w: "rw_shape c rq (u # wq) R W \<Longrightarrow> rw_shape (-1) rq wq {} {u}"
  by (auto simp: rw_shape_def)

lemma shape_hand_r: "rw_shape c rq [] R W \<Longrightarrow> rw_shape (int (length rq)) [] [] (set rq) {}"
  by (auto simp: rw_shape_def distinct_card)

lemma pc_upd: "{u. (f(t := p)) u = q} = (if p = q then insert t {u. f u = q} else {u. f u = q} - {t})"
  by auto

text \<open>The places after a release.\<close>

lemma woken_one:
  assumes "pc u = RWaitWrite"
  shows "{v. woken_pc [u] pc v = RReading} = {v. pc v = RReading}"
    "{v. woken_pc [u] pc v = RWriting} = insert u {v. pc v = RWriting}"
    "{v. woken_pc [u] pc v = RWaitRead} = {v. pc v = RWaitRead}"
    "{v. woken_pc [u] pc v = RWaitWrite} = {v. pc v = RWaitWrite} - {u}"
  using assms by (auto simp: woken_pc_def)

lemma woken_readers:
  assumes "set ts = {v. pc v = RWaitRead}"
  shows "{v. woken_pc ts pc v = RReading} = {v. pc v = RReading} \<union> set ts"
    "{v. woken_pc ts pc v = RWriting} = {v. pc v = RWriting}"
    "{v. woken_pc ts pc v = RWaitRead} = {}"
    "{v. woken_pc ts pc v = RWaitWrite} = {v. pc v = RWaitWrite}"
  using assms by (auto simp: woken_pc_def split: rw_pc.splits)

lemma woken_none: "woken_pc [] pc = pc"
  by (simp add: woken_pc_def fun_eq_iff)

lemma rw_unlock_inv:
  assumes inv: "rw_inv y" and t: "rs_pc y t = RReading \<or> rs_pc y t = RWriting"
    and u: "rwlock_unlock (rs_lock y, rs_th y) = (e, l, th)" and w: "th_woken th = th_woken (rs_th y) @ woken"
  shows "rw_inv \<lparr>rs_lock = l, rs_th = th, rs_pc = woken_pc woken ((rs_pc y)(t := RIdle))\<rparr>"
proof -
  let ?l = "rs_lock y" and ?pc = "(rs_pc y)(t := RIdle)"
  let ?R = "{u. rs_pc y u = RReading}" and ?W = "{u. rs_pc y u = RWriting}"
  have sh: "rw_shape (rw_count ?l) (rd_q ?l) (wr_q ?l) ?R ?W"
    and q: "set (rd_q ?l) = {u. rs_pc y u = RWaitRead}" "set (wr_q ?l) = {u. rs_pc y u = RWaitWrite}"
    using inv by (simp_all add: rw_inv_def)
  have tin: "t \<in> ?R \<union> ?W" using t by simp
  have pc: "{u. ?pc u = RReading} = ?R - {t}" "{u. ?pc u = RWriting} = ?W - {t}"
    "{u. ?pc u = RWaitRead} = {u. rs_pc y u = RWaitRead}" "{u. ?pc u = RWaitWrite} = {u. rs_pc y u = RWaitWrite}"
    using t by auto
  have nz: "rw_count ?l \<noteq> 0" using sh tin by (auto simp: rw_shape_def)
  consider (leave) "rw_count ?l > 1" | (wr) v vs where "\<not> rw_count ?l > 1" "wr_q ?l = v # vs"
    | (rd) "\<not> rw_count ?l > 1" "wr_q ?l = []"
    by (cases "wr_q ?l") auto
  then show ?thesis
  proof cases
    case leave
    then have "l = ?l\<lparr>rw_count := rw_count ?l - 1\<rparr>" "woken = []" using u w by (auto simp: rwlock_unlock_def)
    then show ?thesis using shape_leave [OF sh leave tin] q by (simp add: rw_inv_def woken_none pc del: fun_upd_apply)
  next
    case wr
    have l: "rw_count l = -1" "rd_q l = rd_q ?l" "wr_q l = vs" "woken = [v]"
      using u w nz wr wakeup_one_first [OF wr(2)] by (auto simp: rwlock_unlock_def Let_def)
    have "rs_pc y v = RWaitWrite" using q(2) wr(2) by auto
    then have v: "?pc v = RWaitWrite" using t by auto
    have vs: "set vs = {u. rs_pc y u = RWaitWrite} - {v}"
      using q(2) wr(2) sh by (auto simp: rw_shape_def)
    show ?thesis
      unfolding rw_inv_def rw_sys.simps l woken_one [of ?pc v, OF v] pc shape_last [OF sh wr(1) nz tin]
      using shape_hand_w [of "rw_count ?l" "rd_q ?l" v vs] sh wr(2) q(1) vs by simp
  next
    case rd
    have l: "rw_count l = int (length (rd_q ?l))" "rd_q l = []" "wr_q l = []" "woken = rd_q ?l"
      using u w nz rd by (auto simp: rwlock_unlock_def wakeup_one_empty wakeup_all_spec Let_def)
    have v: "set woken = {u. ?pc u = RWaitRead}" using q(1) pc(3) l(4) by simp
    show ?thesis
      unfolding rw_inv_def rw_sys.simps woken_readers [OF v] pc shape_last [OF sh rd(1) nz tin]
      unfolding l using shape_hand_r [of "rw_count ?l" "rd_q ?l"] sh rd(2) q by simp
  qed
qed

lemma rw_step_inv:
  assumes "rw_step y y'" "rw_inv y"
  shows "rw_inv y'"
proof -
  let ?l = "rs_lock y"
  have sh: "rw_shape (rw_count ?l) (rd_q ?l) (wr_q ?l) {u. rs_pc y u = RReading} {u. rs_pc y u = RWriting}"
    and q: "set (rd_q ?l) = {u. rs_pc y u = RWaitRead}" "set (wr_q ?l) = {u. rs_pc y u = RWaitWrite}"
    using assms(2) by (simp_all add: rw_inv_def)
  have out: "t \<notin> {u. rs_pc y u = p}" if "rs_pc y t = RIdle" "p \<noteq> RIdle" for t p using that by auto
  from assms(1) show ?thesis
  proof (cases rule: rw_step.cases)
    case (wr_got t e l th)
    then have "rw_count ?l = 0" "l = ?l\<lparr>rw_count := -1\<rparr>"
      by (auto simp: rwlock_wrlock_def Let_def split: if_splits prod.splits)
    then show ?thesis using shape_wr sh q out [OF wr_got(2)] wr_got(1)
      by (simp add: rw_inv_def pc_upd del: fun_upd_apply mem_Collect_eq)
  next
    case (wr_block t l th)
    then have "rw_count ?l \<noteq> 0" "rw_count l = rw_count ?l" "rd_q l = rd_q ?l" "wr_q l = wr_q ?l @ [t]"
      by (auto simp: rwlock_wrlock_def wait_on_def Let_def split: if_splits)
    then show ?thesis using shape_wrq [OF sh, of t] q out [OF wr_block(2)] wr_block(1)
      by (simp add: rw_inv_def pc_upd del: fun_upd_apply mem_Collect_eq)
  next
    case (rd_got t e l th)
    then have "rw_count ?l \<ge> 0" "wr_q ?l = []" "l = ?l\<lparr>rw_count := rw_count ?l + 1\<rparr>"
      by (auto simp: rwlock_rdlock_def wait_queue_isEmpty_def Let_def split: if_splits prod.splits)
    then show ?thesis using shape_rd [of "rw_count ?l" "rd_q ?l" _ _ t] sh q out [OF rd_got(2)] rd_got(1)
      by (simp add: rw_inv_def pc_upd del: fun_upd_apply mem_Collect_eq)
  next
    case (rd_block t l th)
    then have "rw_count ?l < 0 \<or> wr_q ?l \<noteq> []" "rw_count l = rw_count ?l" "wr_q l = wr_q ?l" "rd_q l = rd_q ?l @ [t]"
      by (auto simp: rwlock_rdlock_def wait_on_def wait_queue_isEmpty_def Let_def split: if_splits)
    then show ?thesis using shape_rdq [OF sh, of t] q out [OF rd_block(2)] rd_block(1)
      by (simp add: rw_inv_def pc_upd del: fun_upd_apply mem_Collect_eq)
  next
    case (trywr t l)
    then have "rw_count ?l = 0" "l = ?l\<lparr>rw_count := -1\<rparr>" by (auto simp: rwlock_trywrlock_def split: if_splits)
    then show ?thesis using shape_wr sh q out [OF trywr(2)] trywr(1)
      by (simp add: rw_inv_def pc_upd del: fun_upd_apply mem_Collect_eq)
  next
    case (tryrd t l)
    then have "rw_count ?l \<ge> 0" "wr_q ?l = []" "l = ?l\<lparr>rw_count := rw_count ?l + 1\<rparr>"
      by (auto simp: rwlock_tryrdlock_def wait_queue_isEmpty_def split: if_splits)
    then show ?thesis using shape_rd [of "rw_count ?l" "rd_q ?l" _ _ t] sh q out [OF tryrd(2)] tryrd(1)
      by (simp add: rw_inv_def pc_upd del: fun_upd_apply mem_Collect_eq)
  next
    case (unlock t e l th woken)
    then show ?thesis using rw_unlock_inv [OF assms(2)] by simp
  qed
qed

lemma rw_reach_inv: "rw_reach y y' \<Longrightarrow> rw_inv y \<Longrightarrow> rw_inv y'"
  by (induction rule: rtranclp_induct) (blast intro: rw_step_inv)+

lemma rw_start_inv: "rw_inv (rw_start (rwlock_init l) th)"
  by (simp add: rw_inv_def rw_start_def rw_shape_def rwlock_init_def wait_queue_init_def)

section \<open>Properties\<close>

text \<open>C14. Over all interleavings of threads that take a reader/writer lock and release what they hold: a
  writer is alone, and the count is \<open>-1\<close> or the number of readers. No thread waits for a lock nobody
  holds, so that a release will come, and no waiting reader is overtaken by a free lock.\<close>

theorem rwlock_exclusive:
  assumes "rw_reach (rw_start (rwlock_init l) th) y"
  shows "(rs_pc y t = RWriting \<longrightarrow> rw_count (rs_lock y) = -1 \<and>
      (\<forall>u. u \<noteq> t \<longrightarrow> rs_pc y u \<noteq> RWriting \<and> rs_pc y u \<noteq> RReading)) \<and>
    (rs_pc y t = RReading \<longrightarrow> rw_count (rs_lock y) = int (card {u. rs_pc y u = RReading})) \<and>
    (rs_pc y t = RWaitRead \<or> rs_pc y t = RWaitWrite \<longrightarrow> (\<exists>u. rs_pc y u = RReading \<or> rs_pc y u = RWriting)) \<and>
    (rs_pc y t = RWaitRead \<longrightarrow> (\<exists>u. rs_pc y u = RWriting \<or> rs_pc y u = RWaitWrite))"
proof -
  let ?l = "rs_lock y" and ?R = "{u. rs_pc y u = RReading}" and ?W = "{u. rs_pc y u = RWriting}"
  have sh: "rw_shape (rw_count ?l) (rd_q ?l) (wr_q ?l) ?R ?W"
    and q: "set (rd_q ?l) = {u. rs_pc y u = RWaitRead}" "set (wr_q ?l) = {u. rs_pc y u = RWaitWrite}"
    using rw_reach_inv [OF assms rw_start_inv] by (simp_all add: rw_inv_def)
  have c: "rw_count ?l = -1 \<and> ?R = {} \<and> (\<exists>t. ?W = {t}) \<or> rw_count ?l = int (card ?R) \<and> ?W = {}"
    and wq: "wr_q ?l \<noteq> [] \<longrightarrow> rw_count ?l \<noteq> 0" and rq: "rd_q ?l \<noteq> [] \<longrightarrow> rw_count ?l = -1 \<or> wr_q ?l \<noteq> []"
    using sh by (simp_all add: rw_shape_def)
  have ne: "rd_q ?l \<noteq> []" if "rs_pc y t = RWaitRead" using q(1) that by force
  have nw: "wr_q ?l \<noteq> []" if "rs_pc y t = RWaitWrite" using q(2) that by force
  have holder: "\<exists>u. rs_pc y u = RReading \<or> rs_pc y u = RWriting" if "rw_count ?l \<noteq> 0"
  proof (cases "?W = {}")
    case True
    then have "card ?R \<noteq> 0" using c that by auto
    then have "?R \<noteq> {}" by (metis card.empty)
    then show ?thesis by blast
  qed blast
  have "\<exists>u. rs_pc y u = RReading \<or> rs_pc y u = RWriting" if "rs_pc y t = RWaitRead \<or> rs_pc y t = RWaitWrite"
    using that holder ne nw wq rq by fastforce
  moreover have "\<exists>u. rs_pc y u = RWriting \<or> rs_pc y u = RWaitWrite" if w: "rs_pc y t = RWaitRead"
  proof (cases "wr_q ?l = []")
    case True
    then have "rw_count ?l = -1" using rq ne [OF w] by blast
    then obtain x where "?W = {x}" using c by auto
    then show ?thesis by blast
  next
    case False
    then obtain x where "x \<in> set (wr_q ?l)" by (meson list.set_sel(1))
    then show ?thesis using q(2) by auto
  qed
  moreover have "rw_count ?l = -1 \<and> (\<forall>u. u \<noteq> t \<longrightarrow> rs_pc y u \<noteq> RWriting \<and> rs_pc y u \<noteq> RReading)"
    if "rs_pc y t = RWriting"
  proof -
    have "t \<in> ?W" using that by simp
    then obtain x where x: "rw_count ?l = -1" "?R = {}" "?W = {x}" using c by blast
    then have "u \<in> ?W \<Longrightarrow> u = t" "u \<notin> ?R" for u using \<open>t \<in> ?W\<close> by auto
    then show ?thesis using x(1) by auto
  qed
  moreover have "rw_count ?l = int (card ?R)" if "rs_pc y t = RReading" using c that by auto
  ultimately show ?thesis by blast
qed

text \<open>Writers go first: while a writer waits, a reader that asks is queued and \<^verbatim>\<open>rwlock_tryrdlock\<close>
  fails, and the release of the last holder gives the lock to the writer that waits longest; when no
  writer waits it wakes all waiting readers at once.\<close>

theorem rwlock_writers_first:
  assumes "rw_count l \<noteq> 0" "\<not> rw_count l > 1"
  shows "case wr_q l of
      [] \<Rightarrow> (\<exists>l' th'. rwlock_unlock (l, th) = (0, l', th') \<and> rw_count l' = int (length (rd_q l)) \<and>
        rd_q l' = [] \<and> th_woken th' = th_woken th @ rd_q l)
    | w # ws \<Rightarrow> fst (rwlock_rdlock t (l, th)) = Blocked \<and> fst (rwlock_tryrdlock l) = EBUSY \<and>
        (\<exists>l' th'. rwlock_unlock (l, th) = (0, l', th') \<and> rw_count l' = -1 \<and> wr_q l' = ws \<and>
          rd_q l' = rd_q l \<and> th_woken th' = th_woken th @ [w])"
proof (cases "wr_q l")
  case Nil
  then show ?thesis using assms by (simp add: rwlock_unlock_def wakeup_one_empty wakeup_all_spec Let_def)
next
  case (Cons w ws)
  then show ?thesis
    using assms wakeup_one_first [OF Cons]
    by (simp add: rwlock_unlock_def rwlock_rdlock_def rwlock_tryrdlock_def wait_queue_isEmpty_def Let_def wait_on_def)
qed

section \<open>Witnesses\<close>

definition demo_rw :: rwlock_s where
  "demo_rw = \<lparr>rw_signature = 0, rw_count = 0,
     rw_rd_wait_queue = \<lparr>wq_addr = 16, wq_name = [], wq_state = 0, wq_root = []\<rparr>,
     rw_wr_wait_queue = \<lparr>wq_addr = 24, wq_name = [], wq_state = 0, wq_root = []\<rparr>\<rparr>"

theorem rwlock_exclusive_witness:
  "\<exists>y. rw_reach (rw_start (rwlock_init demo_rw) demo_threads) y \<and> rs_pc y 3 = RWriting \<and> rs_pc y 4 \<noteq> RReading"
proof -
  let ?l = "rwlock_init demo_rw"
  define y where "y = \<lparr>rs_lock = ?l\<lparr>rw_count := -1\<rparr>, rs_th = demo_threads, rs_pc = (\<lambda>_. RIdle)(3 := RWriting)\<rparr>"
  have "rw_step (rw_start ?l demo_threads) y"
    using wr_got [of "rw_start ?l demo_threads" 3 0 "?l\<lparr>rw_count := -1\<rparr>" demo_threads]
    by (simp add: rw_start_def y_def rwlock_wrlock_def rwlock_init_def)
  then have r: "rw_reach (rw_start ?l demo_threads) y" by (rule r_into_rtranclp)
  have "rs_pc y 3 = RWriting" by (simp add: y_def)
  then show ?thesis using rwlock_exclusive [OF r, of 3] r by auto
qed

theorem rwlock_writers_first_witness:
  "fst (rwlock_rdlock 9 (demo_rw\<lparr>rw_count := 1, rw_wr_wait_queue := \<lparr>wq_addr = 24, wq_name = [], wq_state = 0, wq_root = [5, 6]\<rparr>\<rparr>,
     demo_threads)) = Blocked"
  using rwlock_writers_first [of "demo_rw\<lparr>rw_count := 1, rw_wr_wait_queue :=
      \<lparr>wq_addr = 24, wq_name = [], wq_state = 0, wq_root = [5, 6]\<rparr>\<rparr>" demo_threads 9] by simp

end
