(* ===== verification/Fifo.thy ===== *)
theory Fifo
  imports Prelude
begin

text \<open>
  The kernel's ring buffers: the lock-free pointer FIFO (\<^verbatim>\<open>kernel/kern/kfifo.c\<close>, \<^verbatim>\<open>kfifo.h\<close>) and
  the byte FIFO under a spinlock (\<^verbatim>\<open>kernel/kern/mwmr.c\<close>). Both are shown to implement a bounded
  queue; for the lock-free one also when one writer and one reader run concurrently, instruction by
  instruction.

  The tables come from the kernel heap; \<open>kmem_alloc\<close> is an argument of the initialisers that says
  whether the request succeeds. Sizes in bytes are taken not to wrap around (the kernel's FIFOs have 32 places).
\<close>

section \<open>The pointer FIFO\<close>

record 'a kfifo_s =
  kf_wridx :: nat
  kf_rdidx :: nat
  kf_put_multi :: bool
  kf_get_multi :: bool
  kf_size :: nat
  kf_tbl :: "'a list"

abbreviation KFIFO_MW :: nat where "KFIFO_MW \<equiv> 1"
abbreviation KFIFO_MR :: nat where "KFIFO_MR \<equiv> 2"
abbreviation KFIFO_MASK :: nat where "KFIFO_MASK \<equiv> 3"
abbreviation kf_threshold :: nat where "kf_threshold \<equiv> 10000"

text \<open>The accesses of \<^verbatim>\<open>single_put\<close> and \<^verbatim>\<open>single_get\<close> to the shared FIFO after the load of the own
  index, one definition for each; the operations are these in their order. The size never changes after
  the initialisation.\<close>

definition sput_full :: "nat \<Rightarrow> 'a kfifo_s \<Rightarrow> bool" where
  "sput_full wridx kfifo \<longleftrightarrow> (wridx + 1) mod kf_size kfifo = kf_rdidx kfifo"

definition sput_store :: "'a \<Rightarrow> nat \<Rightarrow> 'a kfifo_s \<Rightarrow> 'a kfifo_s" where
  "sput_store val wridx kfifo = kfifo\<lparr>kf_tbl := (kf_tbl kfifo)[wridx := val]\<rparr>"

definition sput_publish :: "nat \<Rightarrow> 'a kfifo_s \<Rightarrow> 'a kfifo_s" where
  "sput_publish wridx kfifo = kfifo\<lparr>kf_wridx := (wridx + 1) mod kf_size kfifo\<rparr>"

definition single_put :: "'a \<Rightarrow> 'a kfifo_s \<Rightarrow> error_t \<times> 'a kfifo_s" where
  "single_put val kfifo =
     (let wridx = kf_wridx kfifo
      in if sput_full wridx kfifo then (EAGAIN, kfifo)
         else let kfifo = sput_store val wridx kfifo
              in (0, sput_publish wridx kfifo))"

definition sget_empty :: "nat \<Rightarrow> 'a kfifo_s \<Rightarrow> bool" where
  "sget_empty rdidx kfifo \<longleftrightarrow> rdidx = kf_wridx kfifo"

definition sget_load :: "nat \<Rightarrow> 'a kfifo_s \<Rightarrow> 'a" where
  "sget_load rdidx kfifo = kf_tbl kfifo ! rdidx"

definition sget_publish :: "nat \<Rightarrow> 'a kfifo_s \<Rightarrow> 'a kfifo_s" where
  "sget_publish rdidx kfifo = kfifo\<lparr>kf_rdidx := (rdidx + 1) mod kf_size kfifo\<rparr>"

definition single_get :: "'a kfifo_s \<Rightarrow> error_t \<times> 'a option \<times> 'a kfifo_s" where
  "single_get kfifo =
     (let rdidx = kf_rdidx kfifo
      in if sget_empty rdidx kfifo then (EAGAIN, None, kfifo)
         else let val = sget_load rdidx kfifo
              in (0, Some val, sget_publish rdidx kfifo))"

text \<open>The loops with compare-and-swap. \<open>left\<close> is \<^verbatim>\<open>threshold - cntr\<close>, so every call ends after at
  most \<open>kf_threshold + 1\<close> rounds; \<open>env left\<close> is what the other processors do between the loads of
  the indices and the swap, \<open>late\<close> what they do between the swap of \<^verbatim>\<open>wridx\<close> and the store of the
  value, which comes after it.\<close>

fun multi_put_loop :: "nat \<Rightarrow> (nat \<Rightarrow> 'a kfifo_s \<Rightarrow> 'a kfifo_s) \<Rightarrow> ('a kfifo_s \<Rightarrow> 'a kfifo_s) \<Rightarrow> 'a \<Rightarrow> 'a kfifo_s \<Rightarrow> error_t \<times> 'a kfifo_s" where
  "multi_put_loop left env late val kfifo =
     (let size = kf_size kfifo; wridx = kf_wridx kfifo; rdidx = kf_rdidx kfifo
      in if (wridx + 1) mod size = rdidx then (EAGAIN, kfifo)
         else let kfifo = env left kfifo;
                  isAtomic = (kf_wridx kfifo = wridx);
                  kfifo = (if isAtomic then kfifo\<lparr>kf_wridx := (wridx + 1) mod kf_size kfifo\<rparr> else kfifo)
              in if left = 0 then (EBUSY, kfifo)
                 else if isAtomic then let kfifo = late kfifo in (0, kfifo\<lparr>kf_tbl := (kf_tbl kfifo)[wridx := val]\<rparr>)
                 else multi_put_loop (left - 1) env late val kfifo)"

fun multi_get_loop :: "nat \<Rightarrow> (nat \<Rightarrow> 'a kfifo_s \<Rightarrow> 'a kfifo_s) \<Rightarrow> 'a kfifo_s \<Rightarrow> error_t \<times> 'a option \<times> 'a kfifo_s" where
  "multi_get_loop left env kfifo =
     (let size = kf_size kfifo; rdidx = kf_rdidx kfifo; wridx = kf_wridx kfifo
      in if rdidx = wridx then (EAGAIN, None, kfifo)
         else let val = kf_tbl kfifo ! rdidx;
                  kfifo = env left kfifo;
                  isAtomic = (kf_rdidx kfifo = rdidx);
                  kfifo = (if isAtomic then kfifo\<lparr>kf_rdidx := (rdidx + 1) mod size\<rparr> else kfifo)
              in if left = 0 then (EBUSY, Some val, kfifo)
                 else if isAtomic then (0, Some val, kfifo)
                 else multi_get_loop (left - 1) env kfifo)"

declare multi_put_loop.simps [simp del] multi_get_loop.simps [simp del]

definition multi_put :: "(nat \<Rightarrow> 'a kfifo_s \<Rightarrow> 'a kfifo_s) \<Rightarrow> ('a kfifo_s \<Rightarrow> 'a kfifo_s) \<Rightarrow> 'a \<Rightarrow> 'a kfifo_s \<Rightarrow> error_t \<times> 'a kfifo_s" where
  "multi_put env late val kfifo = multi_put_loop kf_threshold env late val kfifo"

definition multi_get :: "(nat \<Rightarrow> 'a kfifo_s \<Rightarrow> 'a kfifo_s) \<Rightarrow> 'a kfifo_s \<Rightarrow> error_t \<times> 'a option \<times> 'a kfifo_s" where
  "multi_get env kfifo = multi_get_loop kf_threshold env kfifo"

definition kfifo_init :: "(nat \<Rightarrow> bool) \<Rightarrow> 'a \<Rightarrow> nat \<Rightarrow> nat \<Rightarrow> 'a kfifo_s \<Rightarrow> error_t \<times> 'a kfifo_s" where
  "kfifo_init kmem_alloc zero sz mode kfifo =
     (if \<not> kmem_alloc (4 * sz) then (ENOMEM, kfifo)
      else let mode = mode AND KFIFO_MASK
           in (0, kfifo\<lparr>kf_tbl := replicate sz zero, kf_wridx := 0, kf_rdidx := 0, kf_size := sz,
                kf_put_multi := (mode AND KFIFO_MW \<noteq> 0), kf_get_multi := (mode AND KFIFO_MR \<noteq> 0)\<rparr>))"

definition kfifo_put :: "(nat \<Rightarrow> 'a kfifo_s \<Rightarrow> 'a kfifo_s) \<Rightarrow> ('a kfifo_s \<Rightarrow> 'a kfifo_s) \<Rightarrow> 'a \<Rightarrow> 'a kfifo_s \<Rightarrow> error_t \<times> 'a kfifo_s" where
  "kfifo_put env late val kfifo = (if kf_put_multi kfifo then multi_put env late val kfifo else single_put val kfifo)"

definition kfifo_get :: "(nat \<Rightarrow> 'a kfifo_s \<Rightarrow> 'a kfifo_s) \<Rightarrow> 'a kfifo_s \<Rightarrow> error_t \<times> 'a option \<times> 'a kfifo_s" where
  "kfifo_get env kfifo = (if kf_get_multi kfifo then multi_get env kfifo else single_get kfifo)"

definition kfifo_isEmpty :: "'a kfifo_s \<Rightarrow> bool" where
  "kfifo_isEmpty kfifo \<longleftrightarrow> kf_rdidx kfifo = kf_wridx kfifo"

definition kfifo_isFull :: "'a kfifo_s \<Rightarrow> bool" where
  "kfifo_isFull kfifo \<longleftrightarrow> kf_wridx kfifo = (kf_rdidx kfifo + 1) mod kf_size kfifo"

section \<open>The byte FIFO\<close>

record 'b fifomwmr_s =
  fm_isAtomic :: bool
  fm_status :: nat
  fm_read_ptr :: nat
  fm_write_ptr :: nat
  fm_data :: "'b list"
  fm_item :: nat
  fm_length :: nat

text \<open>\<^verbatim>\<open>for (i = 0; i < n; i++) dest[i] = src[i]\<close> with both pointers into their arrays.\<close>

definition copy_loop :: "nat \<Rightarrow> 'b list \<Rightarrow> nat \<Rightarrow> 'b list \<Rightarrow> nat \<Rightarrow> 'b list" where
  "copy_loop n src so dest d = fold (\<lambda>i dest. dest[d + i := src ! (so + i)]) [0..<n] dest"

definition mwmr_init :: "(nat \<Rightarrow> bool) \<Rightarrow> 'b \<Rightarrow> nat \<Rightarrow> nat \<Rightarrow> nat \<Rightarrow> bool \<Rightarrow> 'b fifomwmr_s option" where
  "mwmr_init kmem_alloc zero sizeof_fifo item len isAtomic =
     (if \<not> kmem_alloc sizeof_fifo then None
      else if \<not> kmem_alloc (4 * item * len) then None
      else Some \<lparr>fm_isAtomic = isAtomic, fm_status = 0, fm_read_ptr = 0, fm_write_ptr = 0,
             fm_data = replicate (4 * item * len) zero, fm_item = item, fm_length = len * item\<rparr>)"

definition mwmr_read :: "'b fifomwmr_s \<Rightarrow> 'b list \<Rightarrow> nat \<Rightarrow> nat \<times> 'b list \<times> 'b fifomwmr_s" where
  "mwmr_read fifo buff sz =
     (if sz = 0 then (0, buff, fifo)
      else let rnum = (if sz > fm_status fifo then fm_status fifo else sz)
           in if rnum \<noteq> 0
              then let buff = (if fm_read_ptr fifo + rnum \<le> fm_length fifo
                               then copy_loop rnum (fm_data fifo) (fm_read_ptr fifo) buff 0
                               else let size1 = fm_length fifo - fm_read_ptr fifo; size2 = rnum - size1;
                                        buff = copy_loop size1 (fm_data fifo) (fm_read_ptr fifo) buff 0
                                    in copy_loop size2 (fm_data fifo) 0 buff size1)
                   in (rnum, buff, fifo\<lparr>fm_status := fm_status fifo - rnum,
                         fm_read_ptr := (fm_read_ptr fifo + rnum) mod fm_length fifo\<rparr>)
              else (rnum, buff, fifo))"

definition mwmr_write :: "'b fifomwmr_s \<Rightarrow> 'b list \<Rightarrow> nat \<Rightarrow> nat \<times> 'b fifomwmr_s" where
  "mwmr_write fifo buff sz =
     (if sz = 0 then (0, fifo)
      else let free_space = fm_length fifo - fm_status fifo;
               wnum = (if sz > free_space then free_space else sz)
           in if wnum \<noteq> 0
              then let data = (if fm_write_ptr fifo + wnum \<le> fm_length fifo
                               then copy_loop wnum buff 0 (fm_data fifo) (fm_write_ptr fifo)
                               else let size1 = fm_length fifo - fm_write_ptr fifo; size2 = wnum - size1;
                                        data = copy_loop size1 buff 0 (fm_data fifo) (fm_write_ptr fifo)
                                    in copy_loop size2 buff size1 data 0)
                   in (wnum, fifo\<lparr>fm_data := data, fm_status := fm_status fifo + wnum,
                         fm_write_ptr := (fm_write_ptr fifo + wnum) mod fm_length fifo\<rparr>)
              else (wnum, fifo))"

section \<open>The contract of a bounded queue\<close>

locale bounded_queue =
  fixes inv :: "'s \<Rightarrow> bool" and contents :: "'s \<Rightarrow> 'a list" and capacity :: "'s \<Rightarrow> nat"
    and put :: "'a \<Rightarrow> 's \<Rightarrow> error_t \<times> 's" and get :: "'s \<Rightarrow> error_t \<times> 'a option \<times> 's"
  assumes put_room: "inv s \<Longrightarrow> length (contents s) < capacity s \<Longrightarrow>
      \<exists>s'. put v s = (0, s') \<and> inv s' \<and> contents s' = contents s @ [v] \<and> capacity s' = capacity s"
    and put_full: "inv s \<Longrightarrow> capacity s \<le> length (contents s) \<Longrightarrow> put v s = (EAGAIN, s)"
    and get_some: "inv s \<Longrightarrow> contents s = v # vs \<Longrightarrow>
      \<exists>s'. get s = (0, Some v, s') \<and> inv s' \<and> contents s' = vs \<and> capacity s' = capacity s"
    and get_none: "inv s \<Longrightarrow> contents s = [] \<Longrightarrow> get s = (EAGAIN, None, s)"
begin

text \<open>A sequence of puts (\<open>Some v\<close>) and gets (\<open>None\<close>), with the values that went in and came out.\<close>

fun run :: "'a option list \<Rightarrow> 's \<Rightarrow> 'a list \<times> 'a list \<times> 's" where
  "run [] s = ([], [], s)"
| "run (Some v # ops) s =
     (let (e, s) = put v s; (ins, outs, s) = run ops s in (if e = 0 then v # ins else ins, outs, s))"
| "run (None # ops) s =
     (let (e, r, s) = get s; (ins, outs, s) = run ops s
      in (ins, case r of Some v \<Rightarrow> (if e = 0 then v # outs else outs) | None \<Rightarrow> outs, s))"

text \<open>What comes out, followed by what is still there, is what was there followed by what went in.\<close>

lemma run_fifo:
  "inv s \<Longrightarrow> run ops s = (ins, outs, s') \<Longrightarrow>
     inv s' \<and> contents s @ ins = outs @ contents s' \<and> capacity s' = capacity s"
proof (induction ops arbitrary: s ins outs)
  case (Cons op ops)
  show ?case
  proof (cases op)
    case (Some v)
    consider "length (contents s) < capacity s" | "capacity s \<le> length (contents s)" by linarith
    then show ?thesis
    proof cases
      case 1
      then obtain s1 where p: "put v s = (0, s1)" "inv s1" "contents s1 = contents s @ [v]" "capacity s1 = capacity s"
        using put_room Cons.prems(1) by blast
      obtain ins1 where "run ops s1 = (ins1, outs, s')" "ins = v # ins1"
        using Cons.prems(2) Some p(1) by (auto split: prod.splits)
      then show ?thesis using Cons.IH [OF p(2)] p by auto
    next
      case 2
      then have "run ops s = (ins, outs, s')" using put_full Cons.prems Some by (auto split: prod.splits)
      then show ?thesis using Cons.IH [OF Cons.prems(1)] by blast
    qed
  next
    case None
    show ?thesis
    proof (cases "contents s")
      case Nil
      then have "run ops s = (ins, outs, s')" using get_none Cons.prems None by (auto split: prod.splits)
      then show ?thesis using Cons.IH [OF Cons.prems(1)] by blast
    next
      case c: (Cons v vs)
      then obtain s1 where p: "get s = (0, Some v, s1)" "inv s1" "contents s1 = vs" "capacity s1 = capacity s"
        using get_some Cons.prems(1) by blast
      obtain outs1 where "run ops s1 = (ins, outs1, s')" "outs = v # outs1"
        using Cons.prems(2) None p(1) by (auto split: prod.splits)
      then show ?thesis using Cons.IH [OF p(2)] p c by auto
    qed
  qed
qed simp

end

section \<open>Rings\<close>

definition ring :: "'a list \<Rightarrow> nat \<Rightarrow> nat \<Rightarrow> nat \<Rightarrow> 'a list" where
  "ring tbl r n sz = map (\<lambda>i. tbl ! ((r + i) mod sz)) [0..<n]"

lemma length_ring [simp]: "length (ring tbl r n sz) = n"
  by (simp add: ring_def)

lemma ring_0 [simp]: "ring tbl r 0 sz = []"
  by (simp add: ring_def)

lemma ring_Suc_last: "ring tbl r (Suc n) sz = ring tbl r n sz @ [tbl ! ((r + n) mod sz)]"
  by (simp add: ring_def)

lemma ring_Suc_first:
  assumes "r < sz"
  shows "ring tbl r (Suc n) sz = tbl ! r # ring tbl ((r + 1) mod sz) n sz"
proof -
  have "[0..<Suc n] = 0 # map Suc [0..<n]" by (metis map_Suc_upt upt_conv_Cons zero_less_Suc)
  then show ?thesis using assms by (simp add: ring_def mod_add_left_eq)
qed

lemma mod_add_cancel_nat: "(r + i) mod s = (r + j) mod s \<longleftrightarrow> i mod s = j mod (s::nat)"
proof (cases "i \<le> j")
  case True
  then show ?thesis
    using mod_eq_dvd_iff_nat [of "r + i" "r + j" s] mod_eq_dvd_iff_nat [of i j s] by auto
next
  case False
  then show ?thesis
    using mod_eq_dvd_iff_nat [of "r + j" "r + i" s] mod_eq_dvd_iff_nat [of j i s] by auto
qed

lemma mod_add_inj: "i < (sz::nat) \<Longrightarrow> j < sz \<Longrightarrow> (r + i) mod sz = (r + j) mod sz \<Longrightarrow> i = j"
  by (simp add: mod_add_cancel_nat)

lemma ring_upd_other:
  assumes "n \<le> k" "k < sz"
  shows "ring (tbl[(r + k) mod sz := v]) r n sz = ring tbl r n sz"
proof -
  have "(r + k) mod sz \<noteq> (r + i) mod sz" if "i < n" for i
    using mod_add_inj [of i sz k r] that assms by auto
  then show ?thesis by (simp add: ring_def)
qed

lemma ring_snoc:
  assumes "n < sz" "length tbl = sz"
  shows "ring (tbl[(r + n) mod sz := v]) r (Suc n) sz = ring tbl r n sz @ [v]"
  using assms ring_upd_other [of n n sz tbl r v] by (simp add: ring_Suc_last)

section \<open>The pointer FIFO is a bounded queue\<close>

definition kf_used :: "'a kfifo_s \<Rightarrow> nat" where
  "kf_used kf = (kf_wridx kf + kf_size kf - kf_rdidx kf) mod kf_size kf"

definition kf_contents :: "'a kfifo_s \<Rightarrow> 'a list" where
  "kf_contents kf = ring (kf_tbl kf) (kf_rdidx kf) (kf_used kf) (kf_size kf)"

definition kf_inv :: "'a kfifo_s \<Rightarrow> bool" where
  "kf_inv kf \<longleftrightarrow> length (kf_tbl kf) = kf_size kf \<and> kf_rdidx kf < kf_size kf \<and> kf_wridx kf < kf_size kf"

lemma used_wr: "r < s \<Longrightarrow> w < s \<Longrightarrow> (r + (w + s - r) mod s) mod s = (w :: nat)"
  by (simp add: mod_add_right_eq)

lemma used_Suc:
  assumes "r < s" "w < s" "(w + 1) mod s \<noteq> (r :: nat)"
  shows "((w + 1) mod s + s - r) mod s = Suc ((w + s - r) mod s)"
proof -
  have "s \<noteq> 1" using assms by auto
  have "(w + s - r) mod s \<noteq> s - 1"
  proof
    assume "(w + s - r) mod s = s - 1"
    then have "(r + (s - 1)) mod s = w" using used_wr [OF assms(1,2)] by simp
    then have "(w + 1) mod s = (r + (s - 1) + 1) mod s" by (metis mod_add_left_eq)
    also have "r + (s - 1) + 1 = r + s" using assms by simp
    finally show False using assms by simp
  qed
  moreover have "(w + s - r) mod s < s" using assms by simp
  ultimately have lt: "Suc ((w + s - r) mod s) < s" by linarith
  have "(w + 1) mod s + s - r = (w + 1) mod s + (s - r)" using assms(1) by simp
  then have "((w + 1) mod s + s - r) mod s = (w + 1 + (s - r)) mod s" by (simp only: mod_add_left_eq)
  also have "\<dots> = Suc ((w + s - r)) mod s" using assms(1) by simp
  also have "\<dots> = Suc ((w + s - r) mod s) mod s" by (simp add: mod_Suc_eq)
  finally show ?thesis using lt by simp
qed

lemma used_pred:
  assumes "r < s" "w < s" "r \<noteq> (w :: nat)"
  shows "Suc ((w + s - (r + 1) mod s) mod s) = (w + s - r) mod s"
proof -
  have ne: "(w + s - r) mod s \<noteq> 0"
    using used_wr [OF assms(1,2)] assms by (metis add.right_neutral mod_less)
  define d where "d = (w + s - (r + 1) mod s) mod s"
  have "((r + 1) mod s + d) mod s = w"
    using used_wr [of "(r + 1) mod s" s w] assms unfolding d_def by simp
  then have "(r + Suc d) mod s = w" by (simp add: mod_add_left_eq)
  then have "(r + Suc d) mod s = (r + (w + s - r) mod s) mod s" using used_wr [OF assms(1,2)] by simp
  then have eq: "Suc d mod s = (w + s - r) mod s" by (simp only: mod_add_cancel_nat mod_mod_trivial)
  then have "Suc d \<noteq> s" using ne by auto
  moreover have "d < s" using assms by (simp add: d_def)
  ultimately show ?thesis using eq by (simp add: d_def)
qed

lemma kf_full_iff:
  assumes "kf_inv kf"
  shows "(kf_wridx kf + 1) mod kf_size kf = kf_rdidx kf \<longleftrightarrow> length (kf_contents kf) = kf_size kf - 1"
    and "length (kf_contents kf) \<le> kf_size kf - 1"
proof -
  let ?s = "kf_size kf" and ?r = "kf_rdidx kf" and ?w = "kf_wridx kf"
  have b: "?r < ?s" "?w < ?s" using assms by (simp_all add: kf_inv_def)
  have lt: "kf_used kf < ?s" using b by (simp add: kf_used_def)
  then show "length (kf_contents kf) \<le> ?s - 1" by (simp add: kf_contents_def)
  show "(?w + 1) mod ?s = ?r \<longleftrightarrow> length (kf_contents kf) = ?s - 1"
  proof
    assume e: "(?w + 1) mod ?s = ?r"
    show "length (kf_contents kf) = ?s - 1"
    proof (cases "?w + 1 = ?s")
      case True
      then show ?thesis using e b by (simp add: kf_contents_def kf_used_def)
    next
      case False
      then have "?r = ?w + 1" using e b by simp
      then have "?w + ?s - ?r = ?s - 1" by simp
      then show ?thesis using b by (simp add: kf_contents_def kf_used_def)
    qed
  next
    assume "length (kf_contents kf) = ?s - 1"
    then have u: "(?w + ?s - ?r) mod ?s = ?s - 1" by (simp add: kf_contents_def kf_used_def)
    show "(?w + 1) mod ?s = ?r"
    proof (rule ccontr)
      assume "(?w + 1) mod ?s \<noteq> ?r"
      then have "((?w + 1) mod ?s + ?s - ?r) mod ?s = ?s" using used_Suc [OF b] u b by simp
      then show False using b by (metis mod_less_divisor less_irrefl not_less_zero gr0I)
    qed
  qed
qed

lemma kf_empty_iff: "kf_inv kf \<Longrightarrow> kf_rdidx kf = kf_wridx kf \<longleftrightarrow> kf_contents kf = []"
proof -
  assume i: "kf_inv kf"
  have "length (kf_contents kf) = (kf_wridx kf + kf_size kf - kf_rdidx kf) mod kf_size kf"
    by (simp add: kf_contents_def kf_used_def)
  then show ?thesis
    using used_pred [of "kf_rdidx kf" "kf_size kf" "kf_wridx kf"] i
    by (cases "kf_rdidx kf = kf_wridx kf") (auto simp: kf_inv_def simp del: mod_0_imp_dvd)
qed

text \<open>Storing a value behind the last one and moving the write index; taking the first.\<close>

lemma kf_push:
  fixes kf :: "'a kfifo_s" and v :: 'a
  assumes "kf_inv kf" "(kf_wridx kf + 1) mod kf_size kf \<noteq> kf_rdidx kf"
  defines "kf' \<equiv> kf\<lparr>kf_tbl := (kf_tbl kf)[kf_wridx kf := v], kf_wridx := (kf_wridx kf + 1) mod kf_size kf\<rparr>"
  shows "kf_inv kf'" "kf_contents kf' = kf_contents kf @ [v]" "kf_size kf' = kf_size kf"
proof -
  have b: "kf_rdidx kf < kf_size kf" "kf_wridx kf < kf_size kf" "length (kf_tbl kf) = kf_size kf"
    using assms(1) by (simp_all add: kf_inv_def)
  show "kf_inv kf'" using b by (simp add: kf_inv_def kf'_def)
  have u: "kf_used kf' = Suc (kf_used kf)" using used_Suc [OF b(1,2) assms(2)] by (simp add: kf_used_def kf'_def)
  have w: "kf_wridx kf = (kf_rdidx kf + kf_used kf) mod kf_size kf" using used_wr [OF b(1,2)] by (simp add: kf_used_def)
  have "kf_used kf < kf_size kf" using b by (simp add: kf_used_def)
  then have "ring ((kf_tbl kf)[kf_wridx kf := v]) (kf_rdidx kf) (Suc (kf_used kf)) (kf_size kf) = kf_contents kf @ [v]"
    using ring_snoc [of "kf_used kf" "kf_size kf" "kf_tbl kf" "kf_rdidx kf" v] b(3) w by (simp add: kf_contents_def)
  then show "kf_contents kf' = kf_contents kf @ [v]" by (simp add: kf_contents_def u) (simp add: kf'_def)
qed (simp add: kf'_def)

lemma kf_pop:
  assumes "kf_inv kf" "kf_rdidx kf \<noteq> kf_wridx kf"
  defines "kf' \<equiv> kf\<lparr>kf_rdidx := (kf_rdidx kf + 1) mod kf_size kf\<rparr>"
  shows "kf_inv kf'" "kf_contents kf = kf_tbl kf ! kf_rdidx kf # kf_contents kf'" "kf_size kf' = kf_size kf"
proof -
  have b: "kf_rdidx kf < kf_size kf" "kf_wridx kf < kf_size kf" "length (kf_tbl kf) = kf_size kf"
    using assms(1) by (simp_all add: kf_inv_def)
  show "kf_inv kf'" using b by (simp add: kf_inv_def kf'_def)
  have u: "Suc (kf_used kf') = kf_used kf" using used_pred [OF b(1,2) assms(2)] by (simp add: kf_used_def kf'_def)
  show "kf_contents kf = kf_tbl kf ! kf_rdidx kf # kf_contents kf'"
    using ring_Suc_first [OF b(1), of "kf_tbl kf" "kf_used kf'"] u by (simp add: kf_contents_def) (simp add: kf'_def)
qed (simp add: kf'_def)

lemmas sput_defs = sput_full_def sput_store_def sput_publish_def

lemmas sget_defs = sget_empty_def sget_load_def sget_publish_def

lemma multi_put_alone: "0 < left \<Longrightarrow> multi_put_loop left (\<lambda>_ kf. kf) (\<lambda>kf. kf) v kf = single_put v kf"
  by (subst multi_put_loop.simps) (simp add: single_put_def sput_defs Let_def)

lemma multi_get_alone: "0 < left \<Longrightarrow> multi_get_loop left (\<lambda>_ kf. kf) kf = single_get kf"
  by (subst multi_get_loop.simps) (simp add: single_get_def sget_defs Let_def)

interpretation kfq: bounded_queue kf_inv kf_contents "\<lambda>kf. kf_size kf - 1"
  "kfifo_put (\<lambda>_ kf. kf) (\<lambda>kf. kf)" "kfifo_get (\<lambda>_ kf. kf)"
proof
  have put: "kfifo_put (\<lambda>_ kf. kf) (\<lambda>kf. kf) v s = single_put v s" for v and s :: "'a kfifo_s"
    by (simp add: kfifo_put_def multi_put_def multi_put_alone)
  have get: "kfifo_get (\<lambda>_ kf. kf) s = single_get s" for s :: "'a kfifo_s"
    by (simp add: kfifo_get_def multi_get_def multi_get_alone)
  fix s :: "'a kfifo_s" and v :: 'a and vs
  assume i: "kf_inv s"
  show "\<exists>s'. kfifo_put (\<lambda>_ kf. kf) (\<lambda>kf. kf) v s = (0, s') \<and> kf_inv s' \<and>
      kf_contents s' = kf_contents s @ [v] \<and> kf_size s' - 1 = kf_size s - 1"
    if "length (kf_contents s) < kf_size s - 1"
    using kf_push [OF i, of v] kf_full_iff(1) [OF i] that by (simp add: put single_put_def sput_defs Let_def)
  show "kfifo_put (\<lambda>_ kf. kf) (\<lambda>kf. kf) v s = (EAGAIN, s)" if "kf_size s - 1 \<le> length (kf_contents s)"
    using kf_full_iff [OF i] that by (simp add: put single_put_def sput_defs Let_def)
  show "\<exists>s'. kfifo_get (\<lambda>_ kf. kf) s = (0, Some v, s') \<and> kf_inv s' \<and> kf_contents s' = vs \<and> kf_size s' - 1 = kf_size s - 1"
    if "kf_contents s = v # vs"
    using kf_pop [OF i] kf_empty_iff [OF i] that by (simp add: get single_get_def sget_defs Let_def)
  show "kfifo_get (\<lambda>_ kf. kf) s = (EAGAIN, None, s)" if "kf_contents s = []"
    using kf_empty_iff [OF i] that by (simp add: get single_get_def sget_defs)
qed

section \<open>One writer and one reader at the same time\<close>

text \<open>A writer in \<^verbatim>\<open>single_put\<close> and a reader in \<^verbatim>\<open>single_get\<close>, one access to the FIFO at a time: the load
  of the own index, the load of the other one with the test, the access to the table, and the store of the
  own index. A place carries the values of the local variables. Memory is sequentially consistent: the
  barriers of the code (\<^verbatim>\<open>cpu_wbflush\<close>) stand between the two stores.\<close>

datatype 'a wr_pc = WIdle | WLoaded 'a nat | WReady 'a nat | WStored 'a nat
datatype 'a rd_pc = RdIdle | RdLoaded nat | RdReady nat | RdTaken nat 'a

record 'a spsc =
  sp_kf :: "'a kfifo_s"
  sp_w :: "'a wr_pc"
  sp_r :: "'a rd_pc"
  sp_in :: "'a list"
  sp_out :: "'a list"

inductive spsc_step :: "'a spsc \<Rightarrow> 'a spsc \<Rightarrow> bool" where
  put_wridx: "sp_w y = WIdle \<Longrightarrow> spsc_step y (y\<lparr>sp_w := WLoaded v (kf_wridx (sp_kf y))\<rparr>)"
| put_full: "sp_w y = WLoaded v w \<Longrightarrow> sput_full w (sp_kf y) \<Longrightarrow> spsc_step y (y\<lparr>sp_w := WIdle\<rparr>)"
| put_room: "sp_w y = WLoaded v w \<Longrightarrow> \<not> sput_full w (sp_kf y) \<Longrightarrow> spsc_step y (y\<lparr>sp_w := WReady v w\<rparr>)"
| put_store: "sp_w y = WReady v w \<Longrightarrow>
    spsc_step y (y\<lparr>sp_kf := sput_store v w (sp_kf y), sp_w := WStored v w\<rparr>)"
| put_publish: "sp_w y = WStored v w \<Longrightarrow>
    spsc_step y (y\<lparr>sp_kf := sput_publish w (sp_kf y), sp_w := WIdle, sp_in := sp_in y @ [v]\<rparr>)"
| get_rdidx: "sp_r y = RdIdle \<Longrightarrow> spsc_step y (y\<lparr>sp_r := RdLoaded (kf_rdidx (sp_kf y))\<rparr>)"
| get_empty: "sp_r y = RdLoaded r \<Longrightarrow> sget_empty r (sp_kf y) \<Longrightarrow> spsc_step y (y\<lparr>sp_r := RdIdle\<rparr>)"
| get_some: "sp_r y = RdLoaded r \<Longrightarrow> \<not> sget_empty r (sp_kf y) \<Longrightarrow> spsc_step y (y\<lparr>sp_r := RdReady r\<rparr>)"
| get_load: "sp_r y = RdReady r \<Longrightarrow> spsc_step y (y\<lparr>sp_r := RdTaken r (sget_load r (sp_kf y))\<rparr>)"
| get_publish: "sp_r y = RdTaken r v \<Longrightarrow>
    spsc_step y (y\<lparr>sp_kf := sget_publish r (sp_kf y), sp_r := RdIdle, sp_out := sp_out y @ [v]\<rparr>)"

text \<open>The steps of one side with none of the other in between are the operation.\<close>

lemma spsc_put_run:
  assumes "sp_w y = WIdle" "single_put v (sp_kf y) = (e, kf)"
  shows "spsc_step\<^sup>*\<^sup>* y (y\<lparr>sp_kf := kf, sp_in := sp_in y @ (if e = 0 then [v] else [])\<rparr>)"
proof -
  let ?w = "kf_wridx (sp_kf y)"
  let ?y1 = "y\<lparr>sp_w := WLoaded v ?w\<rparr>"
  have 1: "spsc_step y ?y1" using assms(1) by (rule spsc_step.put_wridx)
  show ?thesis
  proof (cases "sput_full ?w (sp_kf y)")
    case True
    then have "spsc_step ?y1 (?y1\<lparr>sp_w := WIdle\<rparr>)" by (intro spsc_step.put_full) auto
    moreover have "?y1\<lparr>sp_w := WIdle\<rparr> = y\<lparr>sp_kf := kf, sp_in := sp_in y @ (if e = 0 then [v] else [])\<rparr>"
      using assms True by (auto simp: single_put_def)
    ultimately show ?thesis using 1 by (metis converse_rtranclp_into_rtranclp r_into_rtranclp)
  next
    case False
    let ?y2 = "?y1\<lparr>sp_w := WReady v ?w\<rparr>"
    let ?y3 = "?y2\<lparr>sp_kf := sput_store v ?w (sp_kf ?y2), sp_w := WStored v ?w\<rparr>"
    let ?y4 = "?y3\<lparr>sp_kf := sput_publish ?w (sp_kf ?y3), sp_w := WIdle, sp_in := sp_in ?y3 @ [v]\<rparr>"
    have "spsc_step ?y1 ?y2" using False by (intro spsc_step.put_room) auto
    moreover have "spsc_step ?y2 ?y3" by (intro spsc_step.put_store) auto
    moreover have "spsc_step ?y3 ?y4" by (intro spsc_step.put_publish) auto
    ultimately have "spsc_step\<^sup>*\<^sup>* y ?y4" using 1 by (meson rtranclp.rtrancl_into_rtrancl r_into_rtranclp)
    moreover have "?y4 = y\<lparr>sp_kf := kf, sp_in := sp_in y @ (if e = 0 then [v] else [])\<rparr>"
      using assms False by (auto simp: single_put_def Let_def)
    ultimately show ?thesis by simp
  qed
qed

lemma spsc_get_run:
  assumes "sp_r y = RdIdle" "single_get (sp_kf y) = (e, r, kf)"
  shows "spsc_step\<^sup>*\<^sup>* y (y\<lparr>sp_kf := kf, sp_out := sp_out y @ (case r of Some v \<Rightarrow> [v] | None \<Rightarrow> [])\<rparr>)"
proof -
  let ?r = "kf_rdidx (sp_kf y)"
  let ?y1 = "y\<lparr>sp_r := RdLoaded ?r\<rparr>"
  have 1: "spsc_step y ?y1" using assms(1) by (rule spsc_step.get_rdidx)
  show ?thesis
  proof (cases "sget_empty ?r (sp_kf y)")
    case True
    then have "spsc_step ?y1 (?y1\<lparr>sp_r := RdIdle\<rparr>)" by (intro spsc_step.get_empty) auto
    moreover have "?y1\<lparr>sp_r := RdIdle\<rparr> = y\<lparr>sp_kf := kf, sp_out := sp_out y @ (case r of Some v \<Rightarrow> [v] | None \<Rightarrow> [])\<rparr>"
      using assms True by (auto simp: single_get_def)
    ultimately show ?thesis using 1 by (metis converse_rtranclp_into_rtranclp r_into_rtranclp)
  next
    case False
    let ?v = "sget_load ?r (sp_kf y)"
    let ?y2 = "?y1\<lparr>sp_r := RdReady ?r\<rparr>"
    let ?y3 = "?y2\<lparr>sp_r := RdTaken ?r (sget_load ?r (sp_kf ?y2))\<rparr>"
    let ?y4 = "?y3\<lparr>sp_kf := sget_publish ?r (sp_kf ?y3), sp_r := RdIdle, sp_out := sp_out ?y3 @ [?v]\<rparr>"
    have "spsc_step ?y1 ?y2" using False by (intro spsc_step.get_some) auto
    moreover have "spsc_step ?y2 ?y3" by (intro spsc_step.get_load) auto
    moreover have "spsc_step ?y3 ?y4" by (intro spsc_step.get_publish) auto
    ultimately have "spsc_step\<^sup>*\<^sup>* y ?y4" using 1 by (meson rtranclp.rtrancl_into_rtrancl r_into_rtranclp)
    moreover have "?y4 = y\<lparr>sp_kf := kf, sp_out := sp_out y @ (case r of Some v \<Rightarrow> [v] | None \<Rightarrow> [])\<rparr>"
      using assms False by (auto simp: single_get_def Let_def)
    ultimately show ?thesis by simp
  qed
qed

fun wr_ok :: "'a kfifo_s \<Rightarrow> 'a wr_pc \<Rightarrow> bool" where
  "wr_ok kf WIdle = True"
| "wr_ok kf (WLoaded v w) = (w = kf_wridx kf)"
| "wr_ok kf (WReady v w) = (w = kf_wridx kf \<and> (w + 1) mod kf_size kf \<noteq> kf_rdidx kf)"
| "wr_ok kf (WStored v w) = (w = kf_wridx kf \<and> (w + 1) mod kf_size kf \<noteq> kf_rdidx kf \<and> kf_tbl kf ! w = v)"

fun rd_ok :: "'a kfifo_s \<Rightarrow> 'a rd_pc \<Rightarrow> bool" where
  "rd_ok kf RdIdle = True"
| "rd_ok kf (RdLoaded r) = (r = kf_rdidx kf)"
| "rd_ok kf (RdReady r) = (r = kf_rdidx kf \<and> r \<noteq> kf_wridx kf)"
| "rd_ok kf (RdTaken r v) = (r = kf_rdidx kf \<and> r \<noteq> kf_wridx kf \<and> kf_tbl kf ! r = v)"

definition spsc_inv :: "'a spsc \<Rightarrow> bool" where
  "spsc_inv y \<longleftrightarrow> kf_inv (sp_kf y) \<and> wr_ok (sp_kf y) (sp_w y) \<and> rd_ok (sp_kf y) (sp_r y) \<and>
     sp_in y = sp_out y @ kf_contents (sp_kf y)"

text \<open>Storing into the slot behind the contents changes neither them nor the slot the reader is at.\<close>

lemma kf_store:
  assumes "kf_inv kf" "w = kf_wridx kf"
  shows "kf_inv (kf\<lparr>kf_tbl := (kf_tbl kf)[w := v]\<rparr>)" "kf_contents (kf\<lparr>kf_tbl := (kf_tbl kf)[w := v]\<rparr>) = kf_contents kf"
    "rd_ok kf r \<Longrightarrow> rd_ok (kf\<lparr>kf_tbl := (kf_tbl kf)[w := v]\<rparr>) r"
proof -
  have b: "kf_rdidx kf < kf_size kf" "kf_wridx kf < kf_size kf" "length (kf_tbl kf) = kf_size kf"
    using assms(1) by (simp_all add: kf_inv_def)
  show "kf_inv (kf\<lparr>kf_tbl := (kf_tbl kf)[w := v]\<rparr>)" using b by (simp add: kf_inv_def)
  have "w = (kf_rdidx kf + kf_used kf) mod kf_size kf" using used_wr [OF b(1,2)] assms(2) by (simp add: kf_used_def)
  moreover have "kf_used kf < kf_size kf" using b by (simp add: kf_used_def)
  ultimately show "kf_contents (kf\<lparr>kf_tbl := (kf_tbl kf)[w := v]\<rparr>) = kf_contents kf"
    using ring_upd_other [of "kf_used kf" "kf_used kf" "kf_size kf" "kf_tbl kf" "kf_rdidx kf" v]
    by (simp add: kf_contents_def kf_used_def)
  show "rd_ok kf r \<Longrightarrow> rd_ok (kf\<lparr>kf_tbl := (kf_tbl kf)[w := v]\<rparr>) r"
    using assms(2) by (cases r) auto
qed

lemma spsc_step_inv:
  assumes "spsc_step y y'" "spsc_inv y"
  shows "spsc_inv y'"
proof -
  let ?kf = "sp_kf y"
  note sput_defs [simp] sget_defs [simp]
  have i: "kf_inv ?kf" and w: "wr_ok ?kf (sp_w y)" and r: "rd_ok ?kf (sp_r y)"
    and io: "sp_in y = sp_out y @ kf_contents ?kf"
    using assms(2) by (simp_all add: spsc_inv_def)
  have b: "kf_rdidx ?kf < kf_size ?kf" "kf_wridx ?kf < kf_size ?kf" using i by (simp_all add: kf_inv_def)
  from assms(1) show ?thesis
  proof (cases rule: spsc_step.cases)
    case (put_store v x)
    have x: "x = kf_wridx ?kf" "(x + 1) mod kf_size ?kf \<noteq> kf_rdidx ?kf" using w put_store(2) by auto
    show ?thesis using put_store(1) kf_store [OF i x(1), where v = v] x b r io i by (simp add: spsc_inv_def kf_inv_def)
  next
    case (put_publish v x)
    have x: "x = kf_wridx ?kf" "(x + 1) mod kf_size ?kf \<noteq> kf_rdidx ?kf" "kf_tbl ?kf ! x = v" using w put_publish(2) by auto
    have t: "(kf_tbl ?kf)[kf_wridx ?kf := v] = kf_tbl ?kf" using x b by (metis list_update_id)
    have "rd_ok (?kf\<lparr>kf_wridx := (x + 1) mod kf_size ?kf\<rparr>) (sp_r y)" using r x by (cases "sp_r y") auto
    then show ?thesis
      using put_publish(1) kf_push [OF i, of v] x t io by (simp add: spsc_inv_def)
  next
    case (get_publish x v)
    have x: "x = kf_rdidx ?kf" "x \<noteq> kf_wridx ?kf" "kf_tbl ?kf ! x = v" using r get_publish(2) by auto
    have "(kf_wridx ?kf + 1) mod kf_size ?kf \<noteq> (x + 1) mod kf_size ?kf"
      using x b mod_add_inj [of "kf_wridx ?kf" "kf_size ?kf" x 1] by (auto simp: add.commute)
    then have "wr_ok (?kf\<lparr>kf_rdidx := (x + 1) mod kf_size ?kf\<rparr>) (sp_w y)" using w by (cases "sp_w y") auto
    then show ?thesis
      using get_publish(1) kf_pop [OF i] x io by (simp add: spsc_inv_def)
  qed (use i w r io in \<open>auto simp: spsc_inv_def\<close>)
qed

definition spsc_start :: "'a kfifo_s \<Rightarrow> 'a spsc" where
  "spsc_start kf = \<lparr>sp_kf = kf, sp_w = WIdle, sp_r = RdIdle, sp_in = [], sp_out = []\<rparr>"

lemma kfifo_init_ok:
  assumes "kfifo_init kmem_alloc zero sz mode kf0 = (0, kf)" "0 < sz"
  shows "kf_inv kf" "kf_contents kf = []" "kf_size kf = sz"
  using assms by (auto simp: kfifo_init_def kf_inv_def kf_contents_def kf_used_def Let_def split: if_splits)

lemma spsc_reach_inv:
  assumes "spsc_step\<^sup>*\<^sup>* (spsc_start kf) y" "kf_inv kf" "kf_contents kf = []"
  shows "spsc_inv y \<and> kf_size (sp_kf y) = kf_size kf \<and> kf_put_multi (sp_kf y) = kf_put_multi kf \<and>
    kf_get_multi (sp_kf y) = kf_get_multi kf"
  using assms(1)
proof (induction rule: rtranclp_induct)
  case base
  then show ?case using assms(2,3) by (simp add: spsc_inv_def spsc_start_def)
next
  case (step y1 y2)
  moreover have "kf_size (sp_kf y2) = kf_size (sp_kf y1) \<and> kf_put_multi (sp_kf y2) = kf_put_multi (sp_kf y1) \<and>
      kf_get_multi (sp_kf y2) = kf_get_multi (sp_kf y1)"
    using step(2) by (cases rule: spsc_step.cases) (auto simp: sput_defs sget_defs)
  ultimately show ?case using spsc_step_inv by metis
qed

section \<open>The byte FIFO\<close>

lemma length_copy_loop [simp]: "length (copy_loop n src so dest d) = length dest"
  by (induction n) (simp_all add: copy_loop_def)

lemma copy_loop_nth:
  "d + n \<le> length dest \<Longrightarrow> k < length dest \<Longrightarrow>
     copy_loop n src so dest d ! k = (if d \<le> k \<and> k < d + n then src ! (so + (k - d)) else dest ! k)"
proof (induction n)
  case (Suc n)
  have "copy_loop (Suc n) src so dest d = (copy_loop n src so dest d)[d + n := src ! (so + n)]"
    by (simp add: copy_loop_def)
  then show ?case using Suc by (auto simp: nth_list_update)
qed (auto simp: copy_loop_def)

definition fm_contents :: "'b fifomwmr_s \<Rightarrow> 'b list" where
  "fm_contents f = ring (fm_data f) (fm_read_ptr f) (fm_status f) (fm_length f)"

definition fm_inv :: "'b fifomwmr_s \<Rightarrow> bool" where
  "fm_inv f \<longleftrightarrow> 0 < fm_length f \<and> fm_length f \<le> length (fm_data f) \<and> fm_status f \<le> fm_length f \<and>
     fm_read_ptr f < fm_length f \<and> fm_write_ptr f = (fm_read_ptr f + fm_status f) mod fm_length f"

lemma mod_wrap: "r < (n :: nat) \<Longrightarrow> k \<le> n \<Longrightarrow> (r + k) mod n = (if r + k < n then r + k else r + k - n)"
  by (simp add: mod_if)

text \<open>The two copies of \<^verbatim>\<open>mwmr_read\<close> give the first bytes of the contents, whether they wrap or not.\<close>

lemma mwmr_read_bytes:
  assumes "fm_inv f" "n \<le> fm_status f" "n \<le> length buff"
  defines "out \<equiv> (if fm_read_ptr f + n \<le> fm_length f
      then copy_loop n (fm_data f) (fm_read_ptr f) buff 0
      else let size1 = fm_length f - fm_read_ptr f; size2 = n - size1;
               buff = copy_loop size1 (fm_data f) (fm_read_ptr f) buff 0
           in copy_loop size2 (fm_data f) 0 buff size1)"
  shows "out = take n (fm_contents f) @ drop n buff"
proof (rule nth_equalityI)
  have lo: "length out = length buff" by (simp add: out_def Let_def)
  have i: "fm_read_ptr f < fm_length f" "fm_status f \<le> fm_length f" using assms(1) by (simp_all add: fm_inv_def)
  show "length out = length (take n (fm_contents f) @ drop n buff)"
    using lo assms(2,3) by (simp add: fm_contents_def)
  fix k assume "k < length out"
  then have k: "k < length buff" using lo by simp
  have "(take n (fm_contents f) @ drop n buff) ! k =
      (if k < n then fm_data f ! ((fm_read_ptr f + k) mod fm_length f) else buff ! k)"
    using assms(2,3) k by (auto simp: nth_append fm_contents_def ring_def)
  moreover have "out ! k = (if k < n then fm_data f ! ((fm_read_ptr f + k) mod fm_length f) else buff ! k)"
    using assms(2,3) k i mod_wrap [OF i(1), of k]
    by (auto simp: out_def Let_def copy_loop_nth add.commute [of k "fm_read_ptr f"] split: if_splits)
  ultimately show "out ! k = (take n (fm_contents f) @ drop n buff) ! k" by simp
qed

lemma ring_drop: "ring tbl r (n + m) sz = ring tbl r n sz @ ring tbl ((r + n) mod sz) m sz"
proof (induction m)
  case (Suc m)
  then show ?case using ring_Suc_last [of tbl r "n + m" sz] ring_Suc_last [of tbl "(r + n) mod sz" m sz]
    by (simp add: mod_add_left_eq add.assoc)
qed simp

lemma mwmr_write_data:
  assumes "fm_inv f" "n \<le> fm_length f - fm_status f" "n \<le> length buff"
  defines "data \<equiv> (if fm_write_ptr f + n \<le> fm_length f
      then copy_loop n buff 0 (fm_data f) (fm_write_ptr f)
      else let size1 = fm_length f - fm_write_ptr f; size2 = n - size1;
               data = copy_loop size1 buff 0 (fm_data f) (fm_write_ptr f)
           in copy_loop size2 buff size1 data 0)"
  shows "length data = length (fm_data f)" "ring data (fm_read_ptr f) (fm_status f) (fm_length f) = fm_contents f"
    "ring data (fm_write_ptr f) n (fm_length f) = take n buff"
proof -
  let ?L = "fm_length f" and ?w = "fm_write_ptr f" and ?r = "fm_read_ptr f"
  have i: "0 < ?L" "?L \<le> length (fm_data f)" "?r < ?L" "fm_status f \<le> ?L" "?w = (?r + fm_status f) mod ?L"
    using assms(1) by (simp_all add: fm_inv_def)
  have w: "?w < ?L" using i by simp
  show ld: "length data = length (fm_data f)" by (simp add: data_def Let_def)
  have new: "data ! ((?w + k) mod ?L) = buff ! k" if "k < n" for k
    using that assms(2,3) i(1,2) w mod_wrap [OF w, of k] by (auto simp: data_def Let_def copy_loop_nth)
  have old: "data ! j = fm_data f ! j" if "j < ?L" "\<And>k. k < n \<Longrightarrow> j \<noteq> (?w + k) mod ?L" for j
  proof -
    have "\<not> (?w \<le> j \<and> j < ?w + n)"
    proof
      assume a: "?w \<le> j \<and> j < ?w + n"
      then have "j - ?w < n" "(?w + (j - ?w)) mod ?L = j" using that(1) by auto
      then show False using that(2) by metis
    qed
    moreover have "\<not> (?L < ?w + n \<and> j < ?w + n - ?L)"
    proof
      assume a: "?L < ?w + n \<and> j < ?w + n - ?L"
      then have "j + ?L - ?w < n" "(?w + (j + ?L - ?w)) mod ?L = j" using that(1) w by auto
      then show False using that(2) by metis
    qed
    ultimately show ?thesis using that(1) i(2) assms(2) w by (auto simp: data_def Let_def copy_loop_nth)
  qed
  show "ring data ?w n ?L = take n buff" using new assms(3) by (intro nth_equalityI) (auto simp: ring_def)
  have "(?r + a) mod ?L \<noteq> (?w + k) mod ?L" if "a < fm_status f" "k < n" for a k
  proof -
    have "(?w + k) mod ?L = (?r + (fm_status f + k)) mod ?L" by (simp add: i(5) mod_add_left_eq add.assoc)
    moreover have "a < ?L" "fm_status f + k < ?L" using that assms(2) i(4) by linarith+
    ultimately show ?thesis using mod_add_inj [of a ?L "fm_status f + k" ?r] that by auto
  qed
  then have "data ! ((?r + a) mod ?L) = fm_data f ! ((?r + a) mod ?L)" if "a < fm_status f" for a
    using that i(1) by (intro old) auto
  then show "ring data ?r (fm_status f) ?L = fm_contents f" by (simp add: ring_def fm_contents_def)
qed

section \<open>Properties\<close>

text \<open>C15. The pointer FIFO in any of its access modes, used by one processor at a time, is a queue of one
  place less than its table: \<^verbatim>\<open>kfifo_init\<close> leaves it empty, a put appends while there is room and
  otherwise returns \<^verbatim>\<open>EAGAIN\<close>, a get takes the oldest element or returns \<^verbatim>\<open>EAGAIN\<close>, and
  \<^verbatim>\<open>kfifo_isEmpty\<close> is exact.\<close>

theorem kfifo_queue:
  fixes kf kf0 kf1 :: "'a kfifo_s"
  assumes "kf_inv kf"
  defines "put \<equiv> kfifo_put (\<lambda>_ kf. kf) (\<lambda>kf. kf)" and "get \<equiv> kfifo_get (\<lambda>_ kf. kf)"
  shows "(if length (kf_contents kf) < kf_size kf - 1
      then \<exists>kf'. put v kf = (0, kf') \<and> kf_inv kf' \<and> kf_contents kf' = kf_contents kf @ [v]
      else put v kf = (EAGAIN, kf)) \<and>
    (case kf_contents kf of
       [] \<Rightarrow> get kf = (EAGAIN, None, kf) \<and> kfifo_isEmpty kf
     | x # xs \<Rightarrow> \<exists>kf'. get kf = (0, Some x, kf') \<and> kf_inv kf' \<and> kf_contents kf' = xs \<and> \<not> kfifo_isEmpty kf) \<and>
    (0 < sz \<and> kfifo_init kmem_alloc zero sz mode kf0 = (0, kf1) \<longrightarrow>
      kf_inv kf1 \<and> kf_contents kf1 = [] \<and> kf_size kf1 = sz)"
proof (intro conjI)
  show "0 < sz \<and> kfifo_init kmem_alloc zero sz mode kf0 = (0, kf1) \<longrightarrow>
      kf_inv kf1 \<and> kf_contents kf1 = [] \<and> kf_size kf1 = sz"
    using kfifo_init_ok [of kmem_alloc zero sz mode kf0 kf1] by blast
  show "if length (kf_contents kf) < kf_size kf - 1
      then \<exists>kf'. put v kf = (0, kf') \<and> kf_inv kf' \<and> kf_contents kf' = kf_contents kf @ [v]
      else put v kf = (EAGAIN, kf)"
    using kfq.put_room [OF assms(1), of v] kfq.put_full [OF assms(1), of v] unfolding put_def by auto
  show "case kf_contents kf of
       [] \<Rightarrow> get kf = (EAGAIN, None, kf) \<and> kfifo_isEmpty kf
     | x # xs \<Rightarrow> \<exists>kf'. get kf = (0, Some x, kf') \<and> kf_inv kf' \<and> kf_contents kf' = xs \<and> \<not> kfifo_isEmpty kf"
    using kfq.get_none [OF assms(1)] kfq.get_some [OF assms(1)] kf_empty_iff [OF assms(1)]
    unfolding get_def kfifo_isEmpty_def by (cases "kf_contents kf") auto
qed

text \<open>C16. A FIFO initialised for one writer and one reader (\<^verbatim>\<open>KFIFO_NA\<close>, so that \<^verbatim>\<open>kfifo_put\<close> is
  \<^verbatim>\<open>single_put\<close> and \<^verbatim>\<open>kfifo_get\<close> is \<^verbatim>\<open>single_get\<close>), used by both at the same time in any interleaving of
  their single accesses to it: what the reader has taken, followed by what is in the table, is what the
  writer has put, in order, and the table never overflows. The interleaving contains the operations: in
  every state reached, a side that is between two calls can run \<^verbatim>\<open>kfifo_put\<close> or \<^verbatim>\<open>kfifo_get\<close> by its steps,
  with the state and the result of the definition of that call. Nothing is said of the modes with several
  writers or readers.\<close>

theorem kfifo_spsc:
  assumes "kfifo_init kmem_alloc zero sz mode kf0 = (0, kf)" "0 < sz" "mode AND KFIFO_MASK = 0"
    "spsc_step\<^sup>*\<^sup>* (spsc_start kf) y"
  shows "sp_in y = sp_out y @ kf_contents (sp_kf y) \<and> length (kf_contents (sp_kf y)) < sz \<and>
    (sp_w y = WIdle \<longrightarrow> (\<exists>e kf'. kfifo_put env late v (sp_kf y) = (e, kf') \<and>
      spsc_step\<^sup>*\<^sup>* y (y\<lparr>sp_kf := kf', sp_in := sp_in y @ (if e = 0 then [v] else [])\<rparr>) \<and>
      (e = 0 \<longleftrightarrow> length (kf_contents (sp_kf y)) < sz - 1))) \<and>
    (sp_r y = RdIdle \<longrightarrow> (\<exists>e r kf'. kfifo_get env (sp_kf y) = (e, r, kf') \<and>
      spsc_step\<^sup>*\<^sup>* y (y\<lparr>sp_kf := kf', sp_out := sp_out y @ (case r of Some v \<Rightarrow> [v] | None \<Rightarrow> [])\<rparr>) \<and>
      (e = 0 \<longleftrightarrow> kf_contents (sp_kf y) \<noteq> [])))"
proof -
  note i = kfifo_init_ok [OF assms(1,2)]
  have "\<not> kf_put_multi kf" "\<not> kf_get_multi kf"
    using assms(1,3) by (auto simp: kfifo_init_def Let_def split: if_splits)
  then have y: "spsc_inv y" "kf_size (sp_kf y) = sz" "\<not> kf_put_multi (sp_kf y)" "\<not> kf_get_multi (sp_kf y)"
    using spsc_reach_inv [OF assms(4) i(1,2)] i(3) by auto
  then have k: "kf_inv (sp_kf y)" by (simp add: spsc_inv_def)
  have p: "kfifo_put env late v (sp_kf y) = single_put v (sp_kf y)"
    and g: "kfifo_get env (sp_kf y) = single_get (sp_kf y)"
    using y(3,4) by (simp_all add: kfifo_put_def kfifo_get_def)
  obtain e kf' where put: "single_put v (sp_kf y) = (e, kf')" by fastforce
  obtain e' r kf'' where get: "single_get (sp_kf y) = (e', r, kf'')" by (metis prod_cases3)
  have pe: "e = 0 \<longleftrightarrow> length (kf_contents (sp_kf y)) < sz - 1"
    using put kf_full_iff [OF k] y(2) by (auto simp: single_put_def sput_defs Let_def split: if_splits)
  have ge: "e' = 0 \<longleftrightarrow> kf_contents (sp_kf y) \<noteq> []"
    using get kf_empty_iff [OF k] by (auto simp: single_get_def sget_defs Let_def split: if_splits)
  have "sp_in y = sp_out y @ kf_contents (sp_kf y)" "length (kf_contents (sp_kf y)) < sz"
    using y(1,2) kf_full_iff(2) [OF k] assms(2) by (auto simp: spsc_inv_def)
  then show ?thesis
    using p g put get pe ge spsc_put_run [OF _ put] spsc_get_run [OF _ get] by auto
qed

text \<open>With several writers the order is wrong: \<^verbatim>\<open>multi_put\<close> moves \<^verbatim>\<open>wridx\<close> first and stores the
  value after it. In between the FIFO shows an element, and a reader gets what the slot held before.\<close>

theorem kfifo_multi_put_early:
  assumes "kf_inv kf" "kf_contents kf = []" "1 < kf_size kf"
  defines "seen \<equiv> kf\<lparr>kf_wridx := (kf_wridx kf + 1) mod kf_size kf\<rparr>"
  shows "multi_put (\<lambda>_ kf. kf) late v kf =
      (0, (late seen)\<lparr>kf_tbl := (kf_tbl (late seen))[kf_wridx kf := v]\<rparr>) \<and>
    fst (snd (single_get seen)) = Some (kf_tbl kf ! kf_wridx kf)"
proof -
  have b: "kf_rdidx kf = kf_wridx kf" "kf_wridx kf < kf_size kf"
    using kf_empty_iff [OF assms(1)] assms(1,2) by (auto simp: kf_inv_def)
  then have ne: "(kf_wridx kf + 1) mod kf_size kf \<noteq> kf_rdidx kf"
    using assms(3) by (simp add: mod_if)
  then show ?thesis
    using b unfolding multi_put_def multi_put_loop.simps [of kf_threshold] by (simp add: single_get_def sget_defs seen_def Let_def)
qed

text \<open>So an element can be lost: when the only reader calls \<^verbatim>\<open>kfifo_get\<close> in between, it takes the old value of
  the slot, the put still returns 0, and the FIFO is empty after it.\<close>

theorem kfifo_multi_put_lost:
  fixes kf :: "'a kfifo_s"
  assumes "kf_inv kf" "kf_contents kf = []" "1 < kf_size kf" "kf_put_multi kf" "\<not> kf_get_multi kf"
  defines "seen \<equiv> kf\<lparr>kf_wridx := (kf_wridx kf + 1) mod kf_size kf\<rparr>"
  shows "\<exists>kf'. kfifo_put (\<lambda>_ kf. kf) (\<lambda>kf. snd (snd (kfifo_get env kf))) v kf = (0, kf') \<and> kf_contents kf' = [] \<and>
    fst (kfifo_get env seen) = 0 \<and> fst (snd (kfifo_get env seen)) = Some (kf_tbl kf ! kf_wridx kf)"
proof -
  have b: "kf_rdidx kf = kf_wridx kf" "kf_wridx kf < kf_size kf"
    using kf_empty_iff [OF assms(1)] assms(1,2) by (auto simp: kf_inv_def)
  then have ne: "(kf_wridx kf + 1) mod kf_size kf \<noteq> kf_wridx kf" using assms(3) by (simp add: mod_if)
  have g: "kfifo_get env seen = (0, Some (kf_tbl kf ! kf_wridx kf), seen\<lparr>kf_rdidx := (kf_wridx kf + 1) mod kf_size kf\<rparr>)"
    using assms(5) b ne by (auto simp: kfifo_get_def single_get_def sget_defs seen_def Let_def)
  have "kfifo_put (\<lambda>_ kf. kf) (\<lambda>kf. snd (snd (kfifo_get env kf))) v kf =
      (0, seen\<lparr>kf_rdidx := (kf_wridx kf + 1) mod kf_size kf, kf_tbl := (kf_tbl kf)[kf_wridx kf := v]\<rparr>)"
    using assms(4) b ne g unfolding kfifo_put_def multi_put_def multi_put_loop.simps [of kf_threshold]
    by (simp add: seen_def Let_def)
  then show ?thesis using g by (simp add: kf_contents_def kf_used_def seen_def)
qed

text \<open>\<^verbatim>\<open>mwmr_write\<close> puts as many bytes as fit behind the contents and says how many, \<^verbatim>\<open>mwmr_read\<close> takes
  the oldest ones into the front of the buffer; so what was written is read back in order, also around
  the end of the data.\<close>

theorem mwmr_queue:
  assumes "fm_inv f" "sz \<le> length buff"
  shows "(\<exists>f'. mwmr_write f buff sz = (min sz (fm_length f - length (fm_contents f)), f') \<and> fm_inv f' \<and>
      fm_length f' = fm_length f \<and>
      fm_contents f' = fm_contents f @ take (min sz (fm_length f - length (fm_contents f))) buff) \<and>
    (\<exists>f'. mwmr_read f buff sz = (min sz (length (fm_contents f)),
        take sz (fm_contents f) @ drop (min sz (length (fm_contents f))) buff, f') \<and> fm_inv f' \<and>
      fm_length f' = fm_length f \<and> fm_contents f' = drop sz (fm_contents f))"
proof (intro conjI)
  let ?n = "min sz (fm_length f - length (fm_contents f))"
  have st: "length (fm_contents f) = fm_status f" by (simp add: fm_contents_def)
  show "\<exists>f'. mwmr_write f buff sz = (?n, f') \<and> fm_inv f' \<and> fm_length f' = fm_length f \<and>
      fm_contents f' = fm_contents f @ take ?n buff"
  proof (cases "?n = 0")
    case True
    then show ?thesis using assms st by (auto simp: mwmr_write_def Let_def min_def split: if_splits)
  next
    case False
    have n: "?n \<le> fm_length f - fm_status f" "?n \<le> length buff" using assms(2) st by auto
    define data where "data = (if fm_write_ptr f + ?n \<le> fm_length f
      then copy_loop ?n buff 0 (fm_data f) (fm_write_ptr f)
      else let size1 = fm_length f - fm_write_ptr f; size2 = ?n - size1;
               data = copy_loop size1 buff 0 (fm_data f) (fm_write_ptr f)
           in copy_loop size2 buff size1 data 0)"
    note d = mwmr_write_data [OF assms(1) n, folded data_def]
    define f' where "f' = f\<lparr>fm_data := data, fm_status := fm_status f + ?n,
      fm_write_ptr := (fm_write_ptr f + ?n) mod fm_length f\<rparr>"
    have wn: "(if sz > fm_length f - fm_status f then fm_length f - fm_status f else sz) = ?n" "sz \<noteq> 0"
      using False st by (auto simp: min_def split: if_splits)
    have e: "mwmr_write f buff sz = (?n, f')"
      using False wn(2) unfolding mwmr_write_def f'_def data_def Let_def wn(1) by (simp only: if_False if_True simp_thms)
    have "fm_status f + ?n \<le> fm_length f" using n(1) assms(1) unfolding fm_inv_def by linarith
    then have i: "fm_inv f'"
      using assms(1) d(1) by (simp add: fm_inv_def f'_def mod_add_left_eq add.assoc)
    have "fm_contents f' = ring data (fm_read_ptr f) (fm_status f) (fm_length f) @ ring data (fm_write_ptr f) ?n (fm_length f)"
      using assms(1) by (simp add: fm_contents_def f'_def ring_drop fm_inv_def)
    then show ?thesis using e i d(2,3) by (auto simp: f'_def)
  qed
  let ?m = "min sz (length (fm_contents f))"
  show "\<exists>f'. mwmr_read f buff sz = (?m, take sz (fm_contents f) @ drop ?m buff, f') \<and> fm_inv f' \<and>
      fm_length f' = fm_length f \<and> fm_contents f' = drop sz (fm_contents f)"
  proof (cases "?m = 0")
    case True
    then show ?thesis using assms st by (auto simp: mwmr_read_def Let_def min_def split: if_splits)
  next
    case False
    have n: "?m \<le> fm_status f" "?m \<le> length buff" using assms(2) st by auto
    note b = mwmr_read_bytes [OF assms(1) n]
    define f' where "f' = f\<lparr>fm_status := fm_status f - ?m, fm_read_ptr := (fm_read_ptr f + ?m) mod fm_length f\<rparr>"
    have rn: "(if sz > fm_status f then fm_status f else sz) = ?m" "sz \<noteq> 0"
      using False st by (auto simp: min_def split: if_splits)
    have e: "mwmr_read f buff sz = (?m, take ?m (fm_contents f) @ drop ?m buff, f')"
      using False rn(2) b unfolding mwmr_read_def f'_def Let_def rn(1) by (simp only: if_False if_True simp_thms)
    have "((fm_read_ptr f + ?m) mod fm_length f + (fm_status f - ?m)) mod fm_length f =
        (fm_read_ptr f + fm_status f) mod fm_length f"
      using n(1) by (simp only: mod_add_left_eq) simp
    then have i: "fm_inv f'"
      using assms(1) n unfolding fm_inv_def f'_def by (auto simp del: mod_add_left_eq)
    have "fm_contents f = ring (fm_data f) (fm_read_ptr f) ?m (fm_length f) @ fm_contents f'"
      using ring_drop [of "fm_data f" "fm_read_ptr f" ?m "fm_status f - ?m" "fm_length f"] n
      by (simp add: fm_contents_def f'_def)
    then have "fm_contents f' = drop ?m (fm_contents f)" by (metis append_eq_conv_conj length_ring)
    then show ?thesis using e i st by (auto simp: f'_def min_def)
  qed
qed

section \<open>Witnesses\<close>

definition demo_kf :: "nat kfifo_s" where
  "demo_kf = \<lparr>kf_wridx = 1, kf_rdidx = 2, kf_put_multi = True, kf_get_multi = False, kf_size = 3, kf_tbl = [7, 8, 9]\<rparr>"

theorem kfifo_queue_witness:
  "\<exists>kf'. kfifo_get (\<lambda>_ kf. kf) demo_kf = (0, Some 9, kf') \<and> kf_contents kf' = [7]"
proof -
  have c: "kf_contents demo_kf = [9, 7]" "kf_inv demo_kf"
    by (simp_all add: demo_kf_def kf_contents_def kf_used_def ring_def kf_inv_def numeral_2_eq_2)
  show ?thesis using kfifo_queue [OF c(2), of 0 1 "\<lambda>_. True" 0 0 demo_kf demo_kf] c(1) by auto
qed

text \<open>The reader has loaded \<^verbatim>\<open>rdidx\<close> while the writer was in the middle of its put, has found the element
  and read it, and has not published its index yet.\<close>

definition demo_spsc :: "nat spsc" where
  "demo_spsc = \<lparr>sp_kf = \<lparr>kf_wridx = 1, kf_rdidx = 0, kf_put_multi = False, kf_get_multi = False, kf_size = 3, kf_tbl = [5, 0, 0]\<rparr>,
     sp_w = WIdle, sp_r = RdTaken 0 5, sp_in = [5], sp_out = []\<rparr>"

lemma demo_spsc_reached:
  assumes "kfifo_init (\<lambda>_. True) 0 3 0 demo_kf = (0, kf)"
  shows "spsc_step\<^sup>*\<^sup>* (spsc_start kf) demo_spsc"
proof -
  have kf: "kf = \<lparr>kf_wridx = 0, kf_rdidx = 0, kf_put_multi = False, kf_get_multi = False, kf_size = 3, kf_tbl = [0, 0, 0]\<rparr>"
    using assms by (simp add: kfifo_init_def Let_def demo_kf_def numeral_3_eq_3)
  note d = spsc_start_def kf demo_spsc_def sput_defs sget_defs
  let ?y0 = "spsc_start kf"
  let ?y1 = "?y0\<lparr>sp_w := WLoaded 5 0\<rparr>"
  let ?y2 = "?y1\<lparr>sp_w := WReady 5 0\<rparr>"
  let ?y3 = "?y2\<lparr>sp_r := RdLoaded 0\<rparr>"
  let ?y4 = "?y3\<lparr>sp_kf := kf\<lparr>kf_tbl := [5, 0, 0]\<rparr>, sp_w := WStored 5 0\<rparr>"
  let ?y5 = "?y4\<lparr>sp_kf := kf\<lparr>kf_tbl := [5, 0, 0], kf_wridx := 1\<rparr>, sp_w := WIdle, sp_in := [5]\<rparr>"
  let ?y6 = "?y5\<lparr>sp_r := RdReady 0\<rparr>"
  have "spsc_step ?y0 ?y1" using spsc_step.put_wridx [of ?y0 5] by (simp add: d)
  moreover have "spsc_step ?y1 ?y2" using spsc_step.put_room [of ?y1 5 0] by (simp add: d)
  moreover have "spsc_step ?y2 ?y3" using spsc_step.get_rdidx [of ?y2] by (simp add: d)
  moreover have "spsc_step ?y3 ?y4" using spsc_step.put_store [of ?y3 5 0] by (simp add: d)
  moreover have "spsc_step ?y4 ?y5" using spsc_step.put_publish [of ?y4 5 0] by (simp add: d)
  moreover have "spsc_step ?y5 ?y6" using spsc_step.get_some [of ?y5 0] by (simp add: d)
  moreover have "spsc_step ?y6 demo_spsc" using spsc_step.get_load [of ?y6 0] by (simp add: d)
  ultimately show ?thesis by (meson rtranclp.rtrancl_into_rtrancl rtranclp.rtrancl_refl)
qed

theorem kfifo_spsc_witness:
  "kf_contents (sp_kf demo_spsc) = [5] \<and> (\<exists>kf'. kfifo_put (\<lambda>_ kf. kf) (\<lambda>kf. kf) 6 (sp_kf demo_spsc) = (0, kf') \<and>
    spsc_step\<^sup>*\<^sup>* demo_spsc (demo_spsc\<lparr>sp_kf := kf', sp_in := [5, 6]\<rparr>))"
proof -
  obtain kf where kf: "kfifo_init (\<lambda>_. True) 0 3 0 demo_kf = (0, kf)" by (simp add: kfifo_init_def Let_def)
  note t = kfifo_spsc [OF kf _ _ demo_spsc_reached [OF kf], of "\<lambda>_ kf. kf" "\<lambda>kf. kf" 6]
  have d: "sp_in demo_spsc = [5]" "sp_out demo_spsc = []" "sp_w demo_spsc = WIdle" by (simp_all add: demo_spsc_def)
  have c: "kf_contents (sp_kf demo_spsc) = [5]" using t d by simp
  then show ?thesis using t d by auto
qed

theorem kfifo_multi_put_early_witness:
  "fst (snd (single_get (demo_kf\<lparr>kf_rdidx := 1, kf_wridx := 2\<rparr>))) = Some 8"
proof -
  have c: "kf_contents (demo_kf\<lparr>kf_rdidx := 1\<rparr>) = []" "kf_inv (demo_kf\<lparr>kf_rdidx := 1\<rparr>)"
    by (simp_all add: demo_kf_def kf_contents_def kf_used_def ring_def kf_inv_def)
  show ?thesis using kfifo_multi_put_early [OF c(2,1), of "\<lambda>kf. kf" 0] by (simp add: demo_kf_def numeral_2_eq_2)
qed

theorem mwmr_queue_witness:
  "\<exists>f'. mwmr_write \<lparr>fm_isAtomic = True, fm_status = 2, fm_read_ptr = 2, fm_write_ptr = 1, fm_data = [5, 0, 4 :: nat],
      fm_item = 1, fm_length = 3\<rparr> [6, 7] 2 = (1, f') \<and> fm_contents f' = [4, 5, 6]"
proof -
  let ?f = "\<lparr>fm_isAtomic = True, fm_status = 2, fm_read_ptr = 2, fm_write_ptr = 1, fm_data = [5, 0, 4 :: nat],
      fm_item = 1, fm_length = 3\<rparr>"
  have c: "fm_contents ?f = [4, 5]" "fm_inv ?f"
    by (simp_all add: fm_contents_def ring_def fm_inv_def numeral_2_eq_2)
  show ?thesis using mwmr_queue [OF c(2), of 2 "[6, 7]"] c(1) by auto
qed

end
