(* ===== verification/KeysDB.thy ===== *)
theory KeysDB
  imports Bits
begin

text \<open>
  The two-level table of keys (\<^verbatim>\<open>kernel/kern/keysdb.c\<close>, \<^verbatim>\<open>keysdb.h\<close>) that the virtual memory
  manager uses to find regions: a page of record pointers, and records of 64 values allocated when
  their first key is inserted.

  A null pointer is \<open>None\<close>. An operation returns \<open>None\<close> when it would access memory outside its
  table. Records come from \<^verbatim>\<open>kmem_alloc\<close>, which is an argument (\<open>mem\<close> is the number of records it
  has left); \<open>kd_live\<close> counts the records allocated and not freed. \<open>env\<close> is what other processors
  do to the database between the allocation of a record and the swap that installs it; they only ever
  add records.
\<close>

abbreviation KEYS_PER_REC :: nat where "KEYS_PER_REC \<equiv> 64"
abbreviation PMM_PAGE_SIZE_N :: nat where "PMM_PAGE_SIZE_N \<equiv> 4096"

record 'v keys_record_s =
  kr_tbl :: "'v option list"

record 'v keysdb_s =
  kd_root :: "'v keys_record_s option list"
  kd_records_nr :: nat
  kd_records_bits :: nat
  kd_key_width :: nat
  kd_keys_per_record :: nat
  kd_live :: nat

text \<open>\<^verbatim>\<open>memset(rec, 0, sizeof(keys_record_t))\<close>\<close>

definition zero_record :: "'v keys_record_s" where
  "zero_record = \<lparr>kr_tbl = replicate KEYS_PER_REC None\<rparr>"

definition keysdb_init :: "bool \<Rightarrow> nat \<Rightarrow> 'v keysdb_s \<Rightarrow> error_t \<times> 'v keysdb_s" where
  "keysdb_init page key_width db =
     (let db = db\<lparr>kd_records_nr := PMM_PAGE_SIZE_N div 4,
                  kd_records_bits := bits_log2 (of_nat (PMM_PAGE_SIZE_N div 4)),
                  kd_keys_per_record := KEYS_PER_REC, kd_key_width := key_width\<rparr>
      in if \<not> page then (ENOMEM, db)
         else (0, db\<lparr>kd_root := replicate (PMM_PAGE_SIZE_N div 4) None\<rparr>))"

text \<open>The loop of \<^verbatim>\<open>keysdb_destroy\<close>; the root page goes back last.\<close>

definition keysdb_destroy :: "'v keysdb_s \<Rightarrow> 'v keysdb_s option" where
  "keysdb_destroy db =
     (if kd_records_nr db > length (kd_root db) then None
      else Some (fold (\<lambda>i db. case kd_root db ! i of None \<Rightarrow> db | Some _ \<Rightarrow> db\<lparr>kd_live := kd_live db - 1\<rparr>)
             [0..<kd_records_nr db] db))"

definition keysdb_index :: "'v keysdb_s \<Rightarrow> uint_t \<Rightarrow> nat \<times> nat" where
  "keysdb_index db key =
     (let bits = kd_key_width db - kd_records_bits db
      in (unat (drop_bit bits key), unat (key AND (push_bit bits 1 - 1))))"

definition set_value :: "nat \<Rightarrow> nat \<Rightarrow> 'v option \<Rightarrow> 'v keysdb_s \<Rightarrow> 'v keysdb_s" where
  "set_value ri ki v db = db\<lparr>kd_root := (kd_root db)[ri :=
     map_option (\<lambda>r. r\<lparr>kr_tbl := (kr_tbl r)[ki := v]\<rparr>) (kd_root db ! ri)]\<rparr>"

definition keysdb_insert_seq :: "bool \<Rightarrow> uint_t \<Rightarrow> 'v option \<Rightarrow> 'v keysdb_s \<Rightarrow> (error_t \<times> 'v keysdb_s) option" where
  "keysdb_insert_seq mem key val db =
     (let (ri, ki) = keysdb_index db key
      in if ri \<ge> length (kd_root db) then None
         else if kd_root db ! ri = None \<and> \<not> mem then Some (ENOMEM, db)
         else let db = (if kd_root db ! ri = None
                        then db\<lparr>kd_root := (kd_root db)[ri := Some zero_record], kd_live := kd_live db + 1\<rparr>
                        else db)
              in case kd_root db ! ri of
                   None \<Rightarrow> None
                 | Some rec \<Rightarrow>
                     if ki \<ge> length (kr_tbl rec) then None
                     else if kr_tbl rec ! ki \<noteq> None then Some (EEXIST, db)
                     else Some (0, set_value ri ki val db))"

definition keysdb_insert ::
  "('v keysdb_s \<Rightarrow> 'v keysdb_s) \<Rightarrow> bool \<Rightarrow> uint_t \<Rightarrow> 'v option \<Rightarrow> 'v keysdb_s \<Rightarrow> (error_t \<times> 'v keysdb_s) option" where
  "keysdb_insert env mem key val db =
     (let (ri, ki) = keysdb_index db key
      in if ri \<ge> length (kd_root db) then None
         else if kd_root db ! ri = None \<and> \<not> mem then Some (ENOMEM, db)
         else let db = (if kd_root db ! ri = None
                        then let db = env (db\<lparr>kd_live := kd_live db + 1\<rparr>)
                             in if kd_root db ! ri = None
                                then db\<lparr>kd_root := (kd_root db)[ri := Some zero_record]\<rparr>
                                else db\<lparr>kd_live := kd_live db - 1\<rparr>
                        else db)
              in case kd_root db ! ri of
                   None \<Rightarrow> None
                 | Some rec \<Rightarrow>
                     if ki \<ge> length (kr_tbl rec) then None
                     else if kr_tbl rec ! ki \<noteq> None then Some (EEXIST, db)
                     else Some (0, set_value ri ki val db))"

definition keysdb_remove :: "uint_t \<Rightarrow> 'v keysdb_s \<Rightarrow> ('v option \<times> 'v keysdb_s) option" where
  "keysdb_remove key db =
     (let (ri, ki) = keysdb_index db key
      in if ri \<ge> length (kd_root db) then None
         else case kd_root db ! ri of
                None \<Rightarrow> Some (None, db)
              | Some rec \<Rightarrow>
                  if ki \<ge> length (kr_tbl rec) then None
                  else Some (kr_tbl rec ! ki, set_value ri ki None db))"

definition keysdb_lookup :: "'v keysdb_s \<Rightarrow> uint_t \<Rightarrow> 'v option option" where
  "keysdb_lookup db key =
     (let (ri, ki) = keysdb_index db key
      in if ri \<ge> length (kd_root db) then None
         else case kd_root db ! ri of
                None \<Rightarrow> Some None
              | Some rec \<Rightarrow> if ki \<ge> length (kr_tbl rec) then None else Some (kr_tbl rec ! ki))"

text \<open>The loops of \<^verbatim>\<open>keysdb_bind\<close>. \<open>mem i\<close> says whether the allocation for the \<open>i\<close>-th key would
  succeed. The first loop returns the error and the index it stopped at.\<close>

fun bind_loop :: "nat \<Rightarrow> (nat \<Rightarrow> bool) \<Rightarrow> nat \<Rightarrow> uint_t \<Rightarrow> 'v option \<Rightarrow> 'v keysdb_s \<Rightarrow> (error_t \<times> nat \<times> 'v keysdb_s) option" where
  "bind_loop 0 mem i key_start val db = Some (0, i, db)"
| "bind_loop (Suc n) mem i key_start val db =
     (case keysdb_insert (\<lambda>db. db) (mem i) (key_start + of_nat i) val db of
        None \<Rightarrow> None
      | Some (err, db) \<Rightarrow> if err \<noteq> 0 then Some (err, i, db) else bind_loop n mem (i + 1) key_start val db)"

fun undo_loop :: "nat \<Rightarrow> uint_t \<Rightarrow> 'v keysdb_s \<Rightarrow> 'v keysdb_s option" where
  "undo_loop 0 key_start db = Some db"
| "undo_loop (Suc i) key_start db =
     (case keysdb_remove (key_start + of_nat i) db of
        None \<Rightarrow> None
      | Some (_, db) \<Rightarrow> undo_loop i key_start db)"

definition keysdb_bind :: "(nat \<Rightarrow> bool) \<Rightarrow> uint_t \<Rightarrow> nat \<Rightarrow> 'v option \<Rightarrow> 'v keysdb_s \<Rightarrow> (error_t \<times> 'v keysdb_s) option" where
  "keysdb_bind mem key_start keys_nr val db =
     (case bind_loop keys_nr mem 0 key_start val db of
        None \<Rightarrow> None
      | Some (err, i, db) \<Rightarrow>
          if err \<noteq> 0 then map_option (\<lambda>db. (err, db)) (undo_loop i key_start db) else Some (err, db))"

fun keysdb_unbind_loop :: "nat \<Rightarrow> nat \<Rightarrow> uint_t \<Rightarrow> 'v keysdb_s \<Rightarrow> 'v keysdb_s option" where
  "keysdb_unbind_loop 0 i key_start db = Some db"
| "keysdb_unbind_loop (Suc n) i key_start db =
     (case keysdb_remove (key_start + of_nat i) db of
        None \<Rightarrow> None
      | Some (_, db) \<Rightarrow> keysdb_unbind_loop n (i + 1) key_start db)"

definition keysdb_unbind :: "uint_t \<Rightarrow> nat \<Rightarrow> 'v keysdb_s \<Rightarrow> (error_t \<times> 'v keysdb_s) option" where
  "keysdb_unbind key_start keys_nr db = map_option (\<lambda>db. (0, db)) (keysdb_unbind_loop keys_nr 0 key_start db)"

section \<open>The invariant and the map it stands for\<close>

definition kd_inv :: "'v keysdb_s \<Rightarrow> bool" where
  "kd_inv db \<longleftrightarrow> kd_key_width db = 16 \<and> kd_records_bits db = 10 \<and> kd_records_nr db = 1024 \<and>
     length (kd_root db) = 1024 \<and> (\<forall>r. Some r \<in> set (kd_root db) \<longrightarrow> length (kr_tbl r) = KEYS_PER_REC) \<and>
     kd_live db = card {i. i < 1024 \<and> kd_root db ! i \<noteq> None}"

definition kd_map :: "'v keysdb_s \<Rightarrow> nat \<rightharpoonup> 'v" where
  "kd_map db k =
     (if k < 2 ^ 16 then (case kd_root db ! (k div 64) of None \<Rightarrow> None | Some r \<Rightarrow> kr_tbl r ! (k mod 64)) else None)"

lemma keysdb_index_eq: "kd_inv db \<Longrightarrow> keysdb_index db key = (unat key div 64, unat key mod 64)"
proof -
  assume "kd_inv db"
  then have b: "kd_key_width db - kd_records_bits db = 6" by (simp add: kd_inv_def)
  have "unat (key AND mask 6) = unat key mod 64" by (simp flip: take_bit_eq_mask add: take_bit_eq_mod unat_mod)
  moreover have "unat (drop_bit 6 key) = unat key div 64" by (simp only: unat_drop_bit_eq) (simp add: drop_bit_eq_div)
  ultimately show ?thesis unfolding keysdb_index_def b Let_def exp_minus_one_mask by (simp only:)
qed

lemma kd_record:
  assumes "kd_inv db" "k < 2 ^ 16" "kd_root db ! (k div 64) = Some r"
  shows "length (kr_tbl r) = 64"
proof -
  have "k div 64 < length (kd_root db)" using assms by (simp add: kd_inv_def)
  then show ?thesis using assms(1,3) unfolding kd_inv_def by (metis nth_mem)
qed

lemma kd_set_value:
  assumes "kd_inv db" "k < 2 ^ 16" "kd_root db ! (k div 64) = Some r"
  shows "kd_inv (set_value (k div 64) (k mod 64) v db)"
    "kd_map (set_value (k div 64) (k mod 64) v db) = (kd_map db)(k := v)"
proof -
  let ?i = "k div 64" and ?db = "set_value (k div 64) (k mod 64) v db"
  have l: "?i < 1024" "length (kd_root db) = 1024" "length (kr_tbl r) = 64"
    using assms kd_record [OF assms] by (simp_all add: kd_inv_def)
  have root: "kd_root ?db = (kd_root db)[?i := Some (r\<lparr>kr_tbl := (kr_tbl r)[k mod 64 := v]\<rparr>)]"
    using assms(3) by (simp add: set_value_def)
  have "{i. i < 1024 \<and> kd_root ?db ! i \<noteq> None} = {i. i < 1024 \<and> kd_root db ! i \<noteq> None}"
    using assms(3) l unfolding root by (auto simp: nth_list_update)
  moreover have "length (kr_tbl x) = KEYS_PER_REC" if "Some x \<in> set (kd_root ?db)" for x
    using that set_update_subset_insert [of "kd_root db" ?i] l(3) assms(1) unfolding root kd_inv_def by fastforce
  ultimately show "kd_inv ?db" using assms(1) l by (simp add: kd_inv_def) (simp add: set_value_def)
  show "kd_map ?db = (kd_map db)(k := v)"
  proof
    fix j
    show "kd_map ?db j = ((kd_map db)(k := v)) j"
    proof (cases "j < 2 ^ 16 \<and> j div 64 = ?i")
      case False
      then have "j \<noteq> k" using assms(2) by auto
      then show ?thesis using False l unfolding kd_map_def root by auto
    next
      case True
      then have "j = k \<longleftrightarrow> j mod 64 = k mod 64" by (metis div_mult_mod_eq)
      then show ?thesis using True l assms(3) unfolding kd_map_def root by (auto simp: nth_list_update)
    qed
  qed
qed

lemma kd_install:
  assumes "kd_inv db" "i < 1024" "kd_root db ! i = None"
  defines "db' \<equiv> db\<lparr>kd_root := (kd_root db)[i := Some zero_record], kd_live := kd_live db + 1\<rparr>"
  shows "kd_inv db'" "kd_map db' = kd_map db"
proof -
  have l: "length (kd_root db) = 1024" using assms(1) by (simp add: kd_inv_def)
  have "{j. j < 1024 \<and> kd_root db' ! j \<noteq> None} = insert i {j. j < 1024 \<and> kd_root db ! j \<noteq> None}"
    using assms(2) l by (auto simp: db'_def nth_list_update split: if_splits)
  then have "card {j. j < 1024 \<and> kd_root db' ! j \<noteq> None} = kd_live db'"
    using assms(1,3) by (simp add: kd_inv_def db'_def)
  moreover have "length (kr_tbl x) = KEYS_PER_REC" if "Some x \<in> set (kd_root db')" for x
    using that set_update_subset_insert [of "kd_root db" i] assms(1) unfolding db'_def kd_inv_def
    by (fastforce simp: zero_record_def)
  ultimately show "kd_inv db'" using assms(1) by (simp add: kd_inv_def) (simp add: db'_def)
  show "kd_map db' = kd_map db"
  proof
    fix j
    show "kd_map db' j = kd_map db j"
      using assms(2,3) l by (cases "j div 64 = i") (auto simp: kd_map_def db'_def zero_record_def)
  qed
qed

text \<open>The part of an insertion after the record is there.\<close>

lemma kd_insert_tail:
  assumes "kd_inv db" "k < 2 ^ 16" "kd_root db ! (k div 64) \<noteq> None"
  shows "\<exists>db'. (case kd_root db ! (k div 64) of
       None \<Rightarrow> None
     | Some rec \<Rightarrow>
         if k mod 64 \<ge> length (kr_tbl rec) then None
         else if kr_tbl rec ! (k mod 64) \<noteq> None then Some (EEXIST, db)
         else Some (0, set_value (k div 64) (k mod 64) val db)) =
      Some (if kd_map db k = None then 0 else EEXIST, db') \<and> kd_inv db' \<and>
      kd_map db' = (if kd_map db k = None then (kd_map db)(k := val) else kd_map db)"
proof -
  obtain r where r: "kd_root db ! (k div 64) = Some r" using assms(3) by auto
  have "kd_map db k = kr_tbl r ! (k mod 64)" using r assms(2) by (simp add: kd_map_def)
  then show ?thesis using kd_record [OF assms(1,2) r] kd_set_value [OF assms(1,2) r, of val] r assms(1)
    by (cases "kr_tbl r ! (k mod 64)") auto
qed

lemma kd_upd_swap: "db\<lparr>kd_live := l, kd_root := r\<rparr> = db\<lparr>kd_root := r, kd_live := l\<rparr>"
  by (cases db) simp

lemma keysdb_insert_ok:
  assumes inv: "kd_inv db" and k: "unat key < 2 ^ 16"
  shows "\<exists>e db'. keysdb_insert (\<lambda>db. db) mem key val db = Some (e, db') \<and> kd_inv db' \<and>
    e = (if kd_root db ! (unat key div 64) = None \<and> \<not> mem then ENOMEM
         else if kd_map db (unat key) \<noteq> None then EEXIST else 0) \<and>
    kd_map db' = (if e = 0 then (kd_map db)(unat key := val) else kd_map db)"
proof -
  let ?k = "unat key" and ?i = "unat key div 64"
  have i: "?i < 1024" "length (kd_root db) = 1024" using k inv by (simp_all add: kd_inv_def)
  define db1 where "db1 = (if kd_root db ! ?i = None
    then db\<lparr>kd_root := (kd_root db)[?i := Some zero_record], kd_live := kd_live db + 1\<rparr> else db)"
  have d1: "kd_inv db1" "kd_map db1 = kd_map db" "kd_root db1 ! ?i \<noteq> None"
    using inv kd_install [OF inv i(1)] i by (auto simp: db1_def)
  have eq: "keysdb_insert (\<lambda>db. db) mem key val db =
      (if kd_root db ! ?i = None \<and> \<not> mem then Some (ENOMEM, db)
       else case kd_root db1 ! ?i of
         None \<Rightarrow> None
       | Some rec \<Rightarrow>
           if ?k mod 64 \<ge> length (kr_tbl rec) then None
           else if kr_tbl rec ! (?k mod 64) \<noteq> None then Some (EEXIST, db1)
           else Some (0, set_value ?i (?k mod 64) val db1))"
    using i unfolding keysdb_insert_def keysdb_index_eq [OF inv] db1_def Let_def kd_upd_swap
    by (simp add: kd_upd_swap)
  show ?thesis
  proof (cases "kd_root db ! ?i = None \<and> \<not> mem")
    case True
    then show ?thesis using inv eq by auto
  next
    case False
    obtain db' where "keysdb_insert (\<lambda>db. db) mem key val db = Some (if kd_map db1 ?k = None then 0 else EEXIST, db')"
      "kd_inv db'" "kd_map db' = (if kd_map db1 ?k = None then (kd_map db1)(?k := val) else kd_map db1)"
      using kd_insert_tail [OF d1(1) k d1(3), of val] False unfolding eq by auto
    then show ?thesis using False d1(2) by auto
  qed
qed

lemma keysdb_insert_seq_eq:
  assumes "kd_inv db" "unat key < 2 ^ 16"
  shows "keysdb_insert_seq mem key val db = keysdb_insert (\<lambda>db. db) mem key val db"
proof -
  have "unat key div 64 < length (kd_root db)" using assms by (simp add: kd_inv_def)
  then show ?thesis
    unfolding keysdb_insert_seq_def keysdb_insert_def keysdb_index_eq [OF assms(1)] Let_def by (simp add: kd_upd_swap)
qed

lemma keysdb_remove_ok:
  assumes inv: "kd_inv db" and k: "unat key < 2 ^ 16"
  shows "\<exists>db'. keysdb_remove key db = Some (kd_map db (unat key), db') \<and> kd_inv db' \<and>
    kd_map db' = (kd_map db)(unat key := None)"
proof -
  have i: "unat key div 64 < length (kd_root db)" using k inv by (simp add: kd_inv_def)
  show ?thesis
  proof (cases "kd_root db ! (unat key div 64)")
    case None
    then have "kd_map db (unat key) = None" by (simp add: kd_map_def)
    then have "(kd_map db)(unat key := None) = kd_map db" by (simp add: fun_upd_idem)
    then show ?thesis using None i inv \<open>kd_map db (unat key) = None\<close>
      by (simp add: keysdb_remove_def keysdb_index_eq [OF inv])
  next
    case (Some r)
    then show ?thesis using kd_set_value [OF inv k Some, of None] kd_record [OF inv k Some] i k
      by (simp add: keysdb_remove_def keysdb_index_eq [OF inv] kd_map_def)
  qed
qed

lemma keysdb_lookup_ok:
  assumes "kd_inv db" "unat key < 2 ^ 16"
  shows "keysdb_lookup db key = Some (kd_map db (unat key))"
proof -
  have "\<not> length (kd_root db) \<le> unat key div 64" using assms by (simp add: kd_inv_def)
  then show ?thesis
    using assms kd_record [OF assms]
    by (cases "kd_root db ! (unat key div 64)") (simp_all add: keysdb_lookup_def keysdb_index_eq kd_map_def not_le)
qed

section \<open>The contract of a table of keys\<close>

text \<open>What the operations on single keys promise, for the clients that work on ranges of keys.\<close>

locale key_table =
  fixes inv :: "'s \<Rightarrow> bool" and table :: "'s \<Rightarrow> nat \<rightharpoonup> 'v" and width :: nat
    and insert :: "bool \<Rightarrow> uint_t \<Rightarrow> 'v option \<Rightarrow> 's \<Rightarrow> (error_t \<times> 's) option"
    and remove :: "uint_t \<Rightarrow> 's \<Rightarrow> ('v option \<times> 's) option"
  assumes width_le: "width \<le> 32"
    and insert_ok: "inv s \<Longrightarrow> unat key < 2 ^ width \<Longrightarrow>
      \<exists>e s'. insert m key v s = Some (e, s') \<and> inv s' \<and> (m \<longrightarrow> e = (if table s (unat key) \<noteq> None then EEXIST else 0)) \<and>
        (e = 0 \<longrightarrow> table s (unat key) = None) \<and>
        table s' = (if e = 0 then (table s)(unat key := v) else table s)"
    and remove_ok: "inv s \<Longrightarrow> unat key < 2 ^ width \<Longrightarrow>
      \<exists>s'. remove key s = Some (table s (unat key), s') \<and> inv s' \<and> table s' = (table s)(unat key := None)"
begin

lemma unat_key:
  fixes key_start :: uint_t
  assumes "unat key_start + n \<le> 2 ^ width" "i < n"
  shows "unat (key_start + of_nat i) = unat key_start + i" "unat key_start + i < 2 ^ width"
proof -
  have "unat key_start + i < 2 ^ 32"
    using assms power_increasing [OF width_le, of "2 :: nat"] by linarith
  then show "unat (key_start + of_nat i) = unat key_start + i"
    by (simp add: unat_word_ariths unat_of_nat)
  show "unat key_start + i < 2 ^ width" using assms by simp
qed

end

interpretation kdt: key_table kd_inv kd_map 16 "keysdb_insert (\<lambda>db. db)" keysdb_remove
proof
  fix s :: "'v keysdb_s" and key :: uint_t and m and v :: "'v option"
  assume i: "kd_inv s" "unat key < 2 ^ 16"
  show "\<exists>e s'. keysdb_insert (\<lambda>db. db) m key v s = Some (e, s') \<and> kd_inv s' \<and>
      (m \<longrightarrow> e = (if kd_map s (unat key) \<noteq> None then EEXIST else 0)) \<and> (e = 0 \<longrightarrow> kd_map s (unat key) = None) \<and>
      kd_map s' = (if e = 0 then (kd_map s)(unat key := v) else kd_map s)"
  proof -
    obtain e s' where e: "keysdb_insert (\<lambda>db. db) m key v s = Some (e, s')" "kd_inv s'"
      "e = (if kd_root s ! (unat key div 64) = None \<and> \<not> m then ENOMEM
         else if kd_map s (unat key) \<noteq> None then EEXIST else 0)"
      "kd_map s' = (if e = 0 then (kd_map s)(unat key := v) else kd_map s)"
      using keysdb_insert_ok [OF i] by blast
    show ?thesis using e(3) by (intro exI [of _ e] exI [of _ s'] conjI e) (auto split: if_splits)
  qed
  show "\<exists>s'. keysdb_remove key s = Some (kd_map s (unat key), s') \<and> kd_inv s' \<and> kd_map s' = (kd_map s)(unat key := None)"
    by (rule keysdb_remove_ok [OF i])
qed simp

section \<open>Ranges of keys\<close>

definition paint :: "nat \<Rightarrow> nat \<Rightarrow> 'v option \<Rightarrow> (nat \<rightharpoonup> 'v) \<Rightarrow> nat \<rightharpoonup> 'v" where
  "paint lo hi v m k = (if lo \<le> k \<and> k < hi then v else m k)"

lemma paint_empty [simp]: "hi \<le> lo \<Longrightarrow> paint lo hi v m = m"
  by (auto simp: paint_def fun_eq_iff)

lemma paint_first: "lo < hi \<Longrightarrow> paint (Suc lo) hi v (m(lo := v)) = paint lo hi v m"
  by (auto simp: paint_def fun_eq_iff)

lemma paint_last: "lo \<le> hi \<Longrightarrow> (paint lo (Suc hi) w m)(hi := v) = paint lo hi w (m(hi := v))"
  by (auto simp: paint_def fun_eq_iff)

lemma bind_loop_ok:
  "kd_inv db \<Longrightarrow> unat key_start + (i + n) \<le> 2 ^ 16 \<Longrightarrow>
   \<exists>e j db'. bind_loop n mem i key_start v db = Some (e, j, db') \<and> kd_inv db' \<and> i \<le> j \<and> j \<le> i + n \<and>
     kd_map db' = paint (unat key_start + i) (unat key_start + j) v (kd_map db) \<and>
     (e = 0 \<longleftrightarrow> j = i + n) \<and>
     (\<forall>k. unat key_start + i \<le> k \<and> k < unat key_start + j \<longrightarrow> kd_map db k = None) \<and>
     (e \<noteq> 0 \<and> (\<forall>k. mem k) \<longrightarrow> e = EEXIST \<and> kd_map db (unat key_start + j) \<noteq> None)"
proof (induction n arbitrary: i db)
  case 0
  then show ?case by auto
next
  case (Suc n)
  let ?s = "unat key_start"
  have key: "unat (key_start + of_nat i) = ?s + i" "?s + i < 2 ^ 16"
    using kdt.unat_key [of key_start "i + Suc n" i] Suc.prems(2) by simp_all
  obtain e db1 where ins: "keysdb_insert (\<lambda>db. db) (mem i) (key_start + of_nat i) v db = Some (e, db1)" "kd_inv db1"
    "mem i \<longrightarrow> e = (if kd_map db (?s + i) \<noteq> None then EEXIST else 0)" "e = 0 \<longrightarrow> kd_map db (?s + i) = None"
    "kd_map db1 = (if e = 0 then (kd_map db)(?s + i := v) else kd_map db)"
    using kdt.insert_ok [OF Suc.prems(1), of "key_start + of_nat i" "mem i" v] key by auto
  show ?case
  proof (cases "e = 0")
    case False
    then show ?thesis using ins by (auto intro!: exI [of _ i] split: if_splits)
  next
    case True
    obtain f j db' where r: "bind_loop n mem (i + 1) key_start v db1 = Some (f, j, db')" "kd_inv db'" "i + 1 \<le> j" "j \<le> i + 1 + n"
      "kd_map db' = paint (?s + (i + 1)) (?s + j) v (kd_map db1)"
      "f = 0 \<longleftrightarrow> j = i + 1 + n"
      "\<forall>k. ?s + (i + 1) \<le> k \<and> k < ?s + j \<longrightarrow> kd_map db1 k = None"
      "f \<noteq> 0 \<and> (\<forall>k. mem k) \<longrightarrow> f = EEXIST \<and> kd_map db1 (?s + j) \<noteq> None"
      using Suc.IH [OF ins(2), of "i + 1"] Suc.prems(2) by auto
    have m1: "kd_map db1 = (kd_map db)(?s + i := v)" using ins(5) True by simp
    have "kd_map db' = paint (?s + i) (?s + j) v (kd_map db)"
      using r(3,5) paint_first [of "?s + i" "?s + j" v "kd_map db"] m1 by simp
    moreover have free: "kd_map db k = None" if "?s + i \<le> k \<and> k < ?s + j" for k
      using r(7) that m1 ins(4) True by (cases "k = ?s + i") auto
    moreover have "f \<noteq> 0 \<and> (\<forall>k. mem k) \<longrightarrow> f = EEXIST \<and> kd_map db (?s + j) \<noteq> None"
      using r(3,8) m1 by (auto split: if_splits)
    ultimately show ?thesis using r(1-4,6) ins(1) True by auto
  qed
qed

lemma undo_loop_ok:
  "kd_inv db \<Longrightarrow> unat key_start + n \<le> 2 ^ 16 \<Longrightarrow>
   \<exists>db'. undo_loop n key_start db = Some db' \<and> kd_inv db' \<and>
     kd_map db' = paint (unat key_start) (unat key_start + n) None (kd_map db)"
proof (induction n arbitrary: db)
  case 0
  then show ?case by simp
next
  case (Suc n)
  let ?s = "unat key_start"
  have key: "unat (key_start + of_nat n) = ?s + n" "?s + n < 2 ^ 16"
    using kdt.unat_key [of key_start "Suc n" n] Suc.prems(2) by simp_all
  obtain db1 where r: "keysdb_remove (key_start + of_nat n) db = Some (kd_map db (?s + n), db1)" "kd_inv db1"
    "kd_map db1 = (kd_map db)(?s + n := None)"
    using kdt.remove_ok [OF Suc.prems(1), of "key_start + of_nat n"] key by auto
  obtain db' where u: "undo_loop n key_start db1 = Some db'" "kd_inv db'" "kd_map db' = paint ?s (?s + n) None (kd_map db1)"
    using Suc.IH [OF r(2)] Suc.prems(2) by auto
  have "kd_map db' = paint ?s (?s + Suc n) None (kd_map db)" using u(3) r(3) by (auto simp: paint_def fun_eq_iff)
  then show ?case using r(1) u by simp
qed

lemma unbind_loop_ok:
  "kd_inv db \<Longrightarrow> unat key_start + (i + n) \<le> 2 ^ 16 \<Longrightarrow>
   \<exists>db'. keysdb_unbind_loop n i key_start db = Some db' \<and> kd_inv db' \<and>
     kd_map db' = paint (unat key_start + i) (unat key_start + (i + n)) None (kd_map db)"
proof (induction n arbitrary: i db)
  case 0
  then show ?case by simp
next
  case (Suc n)
  let ?s = "unat key_start"
  have key: "unat (key_start + of_nat i) = ?s + i" "?s + i < 2 ^ 16"
    using kdt.unat_key [of key_start "i + Suc n" i] Suc.prems(2) by simp_all
  obtain db1 where r: "keysdb_remove (key_start + of_nat i) db = Some (kd_map db (?s + i), db1)" "kd_inv db1"
    "kd_map db1 = (kd_map db)(?s + i := None)"
    using kdt.remove_ok [OF Suc.prems(1), of "key_start + of_nat i"] key by auto
  obtain db' where u: "keysdb_unbind_loop n (i + 1) key_start db1 = Some db'" "kd_inv db'"
    "kd_map db' = paint (?s + (i + 1)) (?s + (i + 1 + n)) None (kd_map db1)"
    using Suc.IH [OF r(2), of "i + 1"] Suc.prems(2) by auto
  have "kd_map db' = paint (?s + i) (?s + (i + Suc n)) None (kd_map db)"
    using u(3) r(3) paint_first [of "?s + i" "?s + (i + Suc n)" None "kd_map db"] by simp
  then show ?case using r(1) u by simp
qed

lemma keysdb_init_ok:
  assumes "keysdb_init page 16 db = (0, db')" "kd_live db = 0"
  shows "kd_inv db'" "kd_map db' = Map.empty"
proof -
  have b: "bits_log2 (1024 :: uint_t) = 10" by code_simp
  have p: "page" using assms(1) by (auto simp: keysdb_init_def Let_def split: if_splits)
  have "{i. i < 1024 \<and> replicate 1024 (None :: 'a keys_record_s option) ! i \<noteq> None} = {}" by auto
  then show "kd_inv db'" "kd_map db' = Map.empty"
    using assms p b by (auto simp: keysdb_init_def kd_inv_def kd_map_def Let_def fun_eq_iff simp del: replicate_Suc split: option.splits)
qed

text \<open>\<^verbatim>\<open>keysdb_destroy\<close> frees every record.\<close>

lemma destroy_loop:
  "n \<le> 1024 \<Longrightarrow>
   (let db' = fold (\<lambda>i db. case kd_root db ! i of None \<Rightarrow> db | Some _ \<Rightarrow> db\<lparr>kd_live := kd_live db - 1\<rparr>) [0..<n] db
    in kd_root db' = kd_root db \<and> kd_live db' = kd_live db - card {i. i < n \<and> kd_root db ! i \<noteq> None})"
proof (induction n)
  case (Suc n)
  have "{i. i < Suc n \<and> kd_root db ! i \<noteq> None} =
      (if kd_root db ! n = None then {} else {n}) \<union> {i. i < n \<and> kd_root db ! i \<noteq> None}"
    by (auto simp: less_Suc_eq)
  then show ?case using Suc by (cases "kd_root db ! n") (auto simp: Let_def)
qed simp

lemma keysdb_destroy_ok:
  assumes "kd_inv db"
  shows "\<exists>db'. keysdb_destroy db = Some db' \<and> kd_live db' = 0"
  using destroy_loop [of 1024 db] assms by (simp add: keysdb_destroy_def kd_inv_def Let_def)

section \<open>Properties\<close>

text \<open>C17. The table of keys is a map from 16-bit keys to values: \<^verbatim>\<open>keysdb_init\<close> makes it empty, an insert
  adds exactly one binding or returns \<^verbatim>\<open>EEXIST\<close> for a bound key and \<^verbatim>\<open>ENOMEM\<close> without memory, changing
  no binding then; a remove takes one binding away and returns it; a lookup returns the binding. No
  operation leaves its tables, and \<^verbatim>\<open>keysdb_destroy\<close> frees every record.\<close>

theorem keysdb_map:
  assumes "kd_inv db" "unat key < 2 ^ 16"
  shows "(\<exists>e db'. keysdb_insert (\<lambda>db. db) mem key val db = Some (e, db') \<and> kd_inv db' \<and>
      e = (if kd_root db ! (unat key div 64) = None \<and> \<not> mem then ENOMEM
           else if kd_map db (unat key) \<noteq> None then EEXIST else 0) \<and>
      kd_map db' = (if e = 0 then (kd_map db)(unat key := val) else kd_map db)) \<and>
    keysdb_insert_seq mem key val db = keysdb_insert (\<lambda>db. db) mem key val db \<and>
    (\<exists>db'. keysdb_remove key db = Some (kd_map db (unat key), db') \<and> kd_inv db' \<and>
      kd_map db' = (kd_map db)(unat key := None)) \<and>
    keysdb_lookup db key = Some (kd_map db (unat key)) \<and>
    (\<exists>db'. keysdb_destroy db = Some db' \<and> kd_live db' = 0) \<and>
    (keysdb_init page 16 db0 = (0, db1) \<and> kd_live db0 = 0 \<longrightarrow> kd_inv db1 \<and> kd_map db1 = Map.empty)"
  using keysdb_init_ok [of page db0 db1] keysdb_insert_ok [OF assms] keysdb_insert_seq_eq [OF assms] keysdb_remove_ok [OF assms]
    keysdb_lookup_ok [OF assms] keysdb_destroy_ok [OF assms(1)] by blast

text \<open>\<^verbatim>\<open>keysdb_bind\<close> is all or nothing: it binds every key of the range, which were all free, or returns
  an error and leaves every binding as it was; with memory it fails exactly when a key of the range is
  bound. \<^verbatim>\<open>keysdb_unbind\<close> of the range undoes it.\<close>

theorem keysdb_bind_atomic:
  assumes "kd_inv db" "unat key_start + n \<le> 2 ^ 16"
  shows "\<exists>e db'. keysdb_bind mem key_start n (Some v) db = Some (e, db') \<and> kd_inv db' \<and>
    (if e = 0
     then (\<forall>k. unat key_start \<le> k \<and> k < unat key_start + n \<longrightarrow> kd_map db k = None) \<and>
       kd_map db' = paint (unat key_start) (unat key_start + n) (Some v) (kd_map db) \<and>
       (\<exists>db''. keysdb_unbind key_start n db' = Some (0, db'') \<and> kd_map db'' = kd_map db)
     else kd_map db' = kd_map db \<and>
       ((\<forall>i. mem i) \<longrightarrow> (\<exists>k. unat key_start \<le> k \<and> k < unat key_start + n \<and> kd_map db k \<noteq> None)))"
proof -
  let ?s = "unat key_start"
  obtain e j db1 where b: "bind_loop n mem 0 key_start (Some v) db = Some (e, j, db1)" "kd_inv db1" "j \<le> n"
    "kd_map db1 = paint ?s (?s + j) (Some v) (kd_map db)" "e = 0 \<longleftrightarrow> j = n"
    "\<forall>k. ?s \<le> k \<and> k < ?s + j \<longrightarrow> kd_map db k = None"
    "e \<noteq> 0 \<and> (\<forall>k. mem k) \<longrightarrow> kd_map db (?s + j) \<noteq> None"
    using bind_loop_ok [OF assms(1), of key_start 0 n mem "Some v"] assms(2) by auto
  show ?thesis
  proof (cases "e = 0")
    case True
    obtain db2 where u: "keysdb_unbind_loop n 0 key_start db1 = Some db2" "kd_map db2 = paint ?s (?s + n) None (kd_map db1)"
      using unbind_loop_ok [OF b(2), of key_start 0 n] assms(2) by auto
    have "kd_map db2 = kd_map db" using u(2) b(4,5,6) True by (auto simp: paint_def fun_eq_iff)
    then show ?thesis using b True u(1) by (simp add: keysdb_bind_def keysdb_unbind_def)
  next
    case False
    obtain db2 where u: "undo_loop j key_start db1 = Some db2" "kd_inv db2" "kd_map db2 = paint ?s (?s + j) None (kd_map db1)"
      using undo_loop_ok [OF b(2), of key_start j] assms(2) b(3) by auto
    have m: "kd_map db2 = kd_map db" using u(3) b(4,6) by (auto simp: paint_def fun_eq_iff)
    have "j < n" using b(3,5) False by simp
    then show ?thesis using b False u m by (auto simp: keysdb_bind_def intro!: exI [of _ "?s + j"])
  qed
qed

section \<open>Witnesses\<close>

definition demo_db :: "nat keysdb_s" where
  "demo_db = snd (keysdb_init True 16 \<lparr>kd_root = [], kd_records_nr = 0, kd_records_bits = 0, kd_key_width = 0,
     kd_keys_per_record = 0, kd_live = 0\<rparr>)"

lemma demo_db_ok: "kd_inv demo_db" "kd_map demo_db = Map.empty"
proof -
  have "keysdb_init True 16 \<lparr>kd_root = [], kd_records_nr = 0, kd_records_bits = 0, kd_key_width = 0,
     kd_keys_per_record = 0, kd_live = 0\<rparr> = (0, demo_db)"
    unfolding demo_db_def by (simp add: keysdb_init_def Let_def)
  then show "kd_inv demo_db" "kd_map demo_db = Map.empty" using keysdb_init_ok by fastforce+
qed

theorem keysdb_map_witness:
  "keysdb_lookup demo_db 0x1234 = Some None \<and>
   (\<exists>db'. keysdb_insert (\<lambda>db. db) True 0x1234 (Some 7) demo_db = Some (0, db') \<and> kd_map db' 0x1234 = Some 7)"
  using keysdb_map [OF demo_db_ok(1), of "0x1234" True "Some 7" True demo_db demo_db] demo_db_ok(2) by auto

theorem keysdb_bind_atomic_witness:
  "\<exists>e db'. keysdb_bind (\<lambda>_. True) 60 10 (Some 7) demo_db = Some (e, db') \<and> e = 0 \<and> kd_map db' 69 = Some 7"
  using keysdb_bind_atomic [OF demo_db_ok(1), of 60 10 "\<lambda>_. True" 7] demo_db_ok(2)
  by (auto simp: paint_def split: if_splits)

end
