(* ===== verification/LibK.thy ===== *)
theory LibK
  imports Prelude
begin

text \<open>
  The byte and string routines of the kernel (\<^verbatim>\<open>kernel/libk/memcpy.c\<close>, \<^verbatim>\<open>memset.c\<close>, \<^verbatim>\<open>strlen.c\<close>,
  \<^verbatim>\<open>strcmp.c\<close>, \<^verbatim>\<open>strcpy.c\<close>, \<^verbatim>\<open>strchr.c\<close>, \<^verbatim>\<open>atoi.c\<close>, \<^verbatim>\<open>ctype.c\<close>, \<^verbatim>\<open>rand.c\<close>).

  Memory is a function from 32-bit addresses to bytes; addresses wrap around. A 32-bit load or store
  reads or writes four bytes, the lowest one first (little-endian MIPS). \<^verbatim>\<open>char\<close> is signed. Counted
  loops are folds over their indices; loops whose end depends on the memory are partial functions, for
  which \<open>None\<close> is a loop that never ends. Cache maintenance has no effect on the memory.
\<close>

type_synonym byte = "8 word"
type_synonym mem = "uint_t \<Rightarrow> byte"

definition load32 :: "mem \<Rightarrow> uint_t \<Rightarrow> uint_t" where
  "load32 m a = ucast (m a) OR push_bit 8 (ucast (m (a + 1))) OR push_bit 16 (ucast (m (a + 2)))
     OR push_bit 24 (ucast (m (a + 3)))"

definition store32 :: "uint_t \<Rightarrow> uint_t \<Rightarrow> mem \<Rightarrow> mem" where
  "store32 a w m = m(a := ucast w, a + 1 := ucast (drop_bit 8 w), a + 2 := ucast (drop_bit 16 w),
     a + 3 := ucast (drop_bit 24 w))"

section \<open>memcpy and memset\<close>

text \<open>One round of \<^verbatim>\<open>do_memcpy_8\<close>: eight loads, then eight stores.\<close>

definition copy_line :: "uint_t \<Rightarrow> uint_t \<Rightarrow> mem \<Rightarrow> mem" where
  "copy_line dst_ptr src_ptr m =
     (let b = map (\<lambda>k. load32 m (src_ptr + of_nat (4 * k))) [0..<8]
      in fold (\<lambda>k m. store32 (dst_ptr + of_nat (4 * k)) (b ! k) m) [0..<8] m)"

definition do_memcpy_8 :: "uint_t \<Rightarrow> uint_t \<Rightarrow> nat \<Rightarrow> mem \<Rightarrow> mem" where
  "do_memcpy_8 dst src count m =
     fold (\<lambda>i m. copy_line (dst + of_nat (32 * i)) (src + of_nat (32 * i)) m) [0..<count] m"

definition memcpy :: "uint_t \<Rightarrow> uint_t \<Rightarrow> uint_t \<Rightarrow> mem \<Rightarrow> uint_t \<times> mem" where
  "memcpy dest src sz m =
     (if dest AND 3 \<noteq> 0 \<or> src AND 3 \<noteq> 0
      then (dest, fold (\<lambda>i m. m(dest + of_nat i := m (src + of_nat i))) [0..<unat sz] m)
      else
        let isize = drop_bit 5 sz;
            m = (if isize \<noteq> 0 then do_memcpy_8 dest src (unat isize) m else m);
            count = push_bit 5 isize; sz = sz - count
        in if sz = 0 then (dest, m)
           else
             let dest = dest + count; src = src + count; isize = unat (drop_bit 2 sz);
                 m = fold (\<lambda>i m. store32 (dest + of_nat (4 * i)) (load32 m (src + of_nat (4 * i))) m) [0..<isize] m;
                 m = fold (\<lambda>i m. m(dest + of_nat i := m (src + of_nat i))) [4 * isize..<unat sz] m
             in (dest, m))"

text \<open>The loop of \<^verbatim>\<open>do_memset_8\<close> compares pointers for equality.\<close>

partial_function (option) do_memset_8_loop :: "uint_t \<Rightarrow> uint_t \<Rightarrow> uint_t \<Rightarrow> mem \<Rightarrow> mem option" where
  "do_memset_8_loop val limit_ptr dst_ptr m =
     (if dst_ptr = limit_ptr then Some m
      else do_memset_8_loop val limit_ptr (dst_ptr + 32)
             (fold (\<lambda>k m. store32 (dst_ptr + of_nat (4 * k)) val m) [0..<8] m))"

definition do_memset_8 :: "uint_t \<Rightarrow> uint_t \<Rightarrow> uint_t \<Rightarrow> mem \<Rightarrow> mem option" where
  "do_memset_8 dst val sz m = do_memset_8_loop val (dst + push_bit 5 sz) dst m"

text \<open>The first loop of \<^verbatim>\<open>memset\<close> runs up to the next word boundary.\<close>

fun memset_head :: "nat \<Rightarrow> uint_t \<Rightarrow> byte \<Rightarrow> mem \<Rightarrow> uint_t \<times> nat \<times> mem" where
  "memset_head 0 ptr c m = (ptr, 0, m)"
| "memset_head (Suc n) ptr c m =
     (if ptr AND 3 \<noteq> 0 then memset_head n (ptr + 1) c (m(ptr := c)) else (ptr, Suc n, m))"

definition memset :: "uint_t \<Rightarrow> uint_t \<Rightarrow> uint_t \<Rightarrow> mem \<Rightarrow> (uint_t \<times> mem) option" where
  "memset s c sz m =
     (let c = c AND 0xFF; (ptr, sz, m) = memset_head (unat sz) s (ucast c) m
      in if sz = 0 then Some (s, m)
         else
           let val = push_bit 24 c OR push_bit 16 c OR push_bit 8 c OR (c AND 0xFF);
               isize = sz div 32
           in (case (if isize \<noteq> 0 then do_memset_8 ptr val (of_nat isize) m else Some m) of
                 None \<Rightarrow> None
               | Some m \<Rightarrow>
                   let count = isize * 32; sz = sz - count
                   in if sz = 0 then Some (s, m)
                      else
                        let wptr = ptr + of_nat count; isize = sz div 4;
                            m = fold (\<lambda>k m. store32 (wptr + of_nat (4 * k)) val m) [0..<isize] m;
                            ptr = wptr + of_nat (4 * isize); sz = sz - isize * 4
                        in Some (s, fold (\<lambda>k m. m(ptr + of_nat k := ucast c)) [0..<sz] m)))"

section \<open>Strings\<close>

text \<open>\<^verbatim>\<open>while(*ptr) ptr++\<close>\<close>

partial_function (option) scan_end :: "mem \<Rightarrow> uint_t \<Rightarrow> uint_t option" where
  "scan_end m ptr = (if m ptr \<noteq> 0 then scan_end m (ptr + 1) else Some ptr)"

definition strlen :: "mem \<Rightarrow> uint_t \<Rightarrow> uint_t option" where
  "strlen m str = (if str = 0 then Some 0 else map_option (\<lambda>ptr. ptr - str) (scan_end m str))"

fun strnlen_loop :: "mem \<Rightarrow> nat \<Rightarrow> uint_t \<Rightarrow> uint_t" where
  "strnlen_loop m 0 ptr = ptr"
| "strnlen_loop m (Suc n) ptr = (if m ptr \<noteq> 0 then strnlen_loop m n (ptr + 1) else ptr)"

definition strnlen :: "mem \<Rightarrow> uint_t \<Rightarrow> int \<Rightarrow> uint_t" where
  "strnlen m str count = (if str = 0 then 0 else strnlen_loop m (nat count) str - str)"

partial_function (option) strcmp_loop :: "mem \<Rightarrow> uint_t \<Rightarrow> uint_t \<Rightarrow> int option" where
  "strcmp_loop m s1 s2 =
     (if m s1 \<noteq> 0 \<and> m s1 = m s2 then strcmp_loop m (s1 + 1) (s2 + 1) else Some (sint (m s1) - sint (m s2)))"

definition strcmp :: "mem \<Rightarrow> uint_t \<Rightarrow> uint_t \<Rightarrow> int option" where
  "strcmp m s1 s2 = (if s1 = 0 \<or> s2 = 0 then Some (sint (s1 - s2)) else strcmp_loop m s1 s2)"

fun strncmp_loop :: "mem \<Rightarrow> nat \<Rightarrow> uint_t \<Rightarrow> uint_t \<Rightarrow> int" where
  "strncmp_loop m n s1 s2 =
     (if m s1 \<noteq> 0 \<and> m s1 = m s2 \<and> n > 1 then strncmp_loop m (n - 1) (s1 + 1) (s2 + 1) else sint (m s1) - sint (m s2))"

definition strncmp :: "mem \<Rightarrow> uint_t \<Rightarrow> uint_t \<Rightarrow> nat \<Rightarrow> int" where
  "strncmp m s1 s2 n = (if s1 = 0 \<or> s2 = 0 \<or> n = 0 then sint (s1 - s2) else strncmp_loop m n s1 s2)"

partial_function (option) strcpy_loop :: "uint_t \<Rightarrow> uint_t \<Rightarrow> mem \<Rightarrow> mem option" where
  "strcpy_loop dst_ptr src_ptr m =
     (if m src_ptr \<noteq> 0 then strcpy_loop (dst_ptr + 1) (src_ptr + 1) (m(dst_ptr := m src_ptr)) else Some (m(dst_ptr := 0)))"

definition strcpy :: "uint_t \<Rightarrow> uint_t \<Rightarrow> mem \<Rightarrow> (uint_t \<times> mem) option" where
  "strcpy dest src m = (if dest = 0 \<or> src = 0 then Some (dest, m) else map_option (Pair dest) (strcpy_loop dest src m))"

text \<open>\<open>n - i\<close> rounds are left of the first loop of \<^verbatim>\<open>strncpy\<close>.\<close>

fun strncpy_loop :: "nat \<Rightarrow> uint_t \<Rightarrow> uint_t \<Rightarrow> nat \<Rightarrow> mem \<Rightarrow> nat \<times> mem" where
  "strncpy_loop 0 dest src i m = (i, m)"
| "strncpy_loop (Suc k) dest src i m =
     (if m (src + of_nat i) \<noteq> 0 then strncpy_loop k dest src (i + 1) (m(dest + of_nat i := m (src + of_nat i)))
      else (i, m))"

definition strncpy :: "uint_t \<Rightarrow> uint_t \<Rightarrow> nat \<Rightarrow> mem \<Rightarrow> uint_t \<times> mem" where
  "strncpy dest src n m =
     (let (i, m) = strncpy_loop n dest src 0 m in (dest, fold (\<lambda>i m. m(dest + of_nat i := 0)) [i..<n] m))"

partial_function (option) strchr_loop :: "mem \<Rightarrow> byte \<Rightarrow> uint_t \<Rightarrow> uint_t option" where
  "strchr_loop m c s = (if m s \<noteq> 0 \<and> m s \<noteq> c then strchr_loop m c (s + 1) else Some s)"

definition strchr :: "mem \<Rightarrow> uint_t \<Rightarrow> uint_t \<Rightarrow> uint_t option" where
  "strchr m s c =
     (if s = 0 then Some 0
      else map_option (\<lambda>s. if m s = ucast c then s else 0) (strchr_loop m (ucast c) s))"

section \<open>Characters and numbers\<close>

definition isprint :: "int \<Rightarrow> bool" where
  "isprint c \<longleftrightarrow> 127 - 32 > (c - 32) mod 256"

definition isalpha :: "int \<Rightarrow> bool" where
  "isalpha c \<longleftrightarrow> ((c OR 0x20) - 97) mod 256 < 26"

definition isspace :: "int \<Rightarrow> bool" where
  "isspace c \<longleftrightarrow> c = 32 \<or> c - 9 < 5"

definition toupper :: "int \<Rightarrow> int" where
  "toupper c = (if isalpha c then c AND NOT 0x20 else c)"

text \<open>\<^verbatim>\<open>while(isspace(*nptr));\<close> does not advance the pointer.\<close>

partial_function (option) atoi_skip :: "mem \<Rightarrow> uint_t \<Rightarrow> uint_t option" where
  "atoi_skip m nptr = (if isspace (sint (m nptr)) then atoi_skip m nptr else Some nptr)"

partial_function (option) atoi_loop :: "mem \<Rightarrow> uint_t \<Rightarrow> uint_t \<Rightarrow> uint_t option" where
  "atoi_loop m nptr num =
     (if m nptr \<noteq> 0
      then atoi_loop m (nptr + 1)
             (if 48 \<le> sint (m nptr) \<and> sint (m nptr) \<le> 57 then num * 10 + (ucast (m nptr) - 48) else num)
      else Some num)"

definition atoi :: "mem \<Rightarrow> uint_t \<Rightarrow> uint_t option" where
  "atoi m nptr =
     Option.bind (atoi_skip m nptr) (\<lambda>nptr.
       let signe = (if m nptr = 45 then -1 else 1)
       in map_option (\<lambda>num. num * signe) (atoi_loop m nptr 0))"

record prng_cpu =
  prng_last_num :: uint_t
  prng_A :: uint_t
  prng_C :: uint_t

definition srand :: "uint_t \<Rightarrow> prng_cpu \<Rightarrow> prng_cpu" where
  "srand seed cpu = cpu\<lparr>prng_last_num := seed\<rparr>"

definition rand :: "uint_t \<Rightarrow> prng_cpu \<Rightarrow> uint_t \<times> prng_cpu" where
  "rand time_stamp cpu =
     (let cpu = cpu\<lparr>prng_last_num := (prng_last_num cpu * prng_A cpu + prng_C cpu) XOR (time_stamp AND 0xFFF)\<rparr>
      in (prng_last_num cpu, cpu))"

section \<open>Copying and filling blocks of bytes\<close>

text \<open>The reference: \<open>n\<close> bytes at \<open>d\<close> replaced by those that were at \<open>s\<close>, or by one byte.\<close>

definition copied :: "uint_t \<Rightarrow> uint_t \<Rightarrow> nat \<Rightarrow> mem \<Rightarrow> mem" where
  "copied d s n m = (\<lambda>a. if unat (a - d) < n then m (s + (a - d)) else m a)"

definition filled :: "uint_t \<Rightarrow> nat \<Rightarrow> byte \<Rightarrow> mem \<Rightarrow> mem" where
  "filled d n c m = (\<lambda>a. if unat (a - d) < n then c else m a)"

definition separate :: "uint_t \<Rightarrow> uint_t \<Rightarrow> nat \<Rightarrow> bool" where
  "separate d s n \<longleftrightarrow> (\<forall>i < n. \<forall>j < n. d + of_nat i \<noteq> s + of_nat j)"

lemma unat_minus_of_nat:
  assumes "k < 2 ^ 32"
  shows "unat ((w :: uint_t) - of_nat k) = (if k \<le> unat w then unat w - k else unat w + 2 ^ 32 - k)"
proof -
  have "unat (of_nat k :: uint_t) = k" using assms by (rule unat_of_nat_32)
  then show ?thesis using unat_sub_if_size [of w "of_nat k"] by (simp add: word_size)
qed

lemma in_block: "k + n \<le> 2 ^ 32 \<Longrightarrow> k < 2 ^ 32 \<Longrightarrow> unat ((a :: uint_t) - (d + of_nat k)) < n \<longleftrightarrow> k \<le> unat (a - d) \<and> unat (a - d) < k + (n :: nat)"
  using unat_minus_of_nat [of k "a - d"] unat_lt_32 [of "a - d"] by (auto simp: diff_diff_add [symmetric])

lemma of_nat_unat_diff: "d + of_nat (unat (a - d)) = (a :: uint_t)"
  by simp

lemma separateD: "separate d s n \<Longrightarrow> unat (a - d) < n \<Longrightarrow> unat (a - s) < n \<Longrightarrow> False"
  unfolding separate_def by (metis of_nat_unat_diff)

lemma separate_shift:
  assumes "separate d s n" "k + l \<le> n"
  shows "separate (d + of_nat k) (s + of_nat k) l"
  unfolding separate_def
proof (intro allI impI)
  fix i j assume "i < l" "j < l"
  then have "d + of_nat (k + i) \<noteq> s + of_nat (k + j)" using assms unfolding separate_def by auto
  then show "d + of_nat k + of_nat i \<noteq> s + of_nat k + of_nat j" by (simp add: add.assoc)
qed

lemma copied_append:
  assumes "separate d s (k + n)" "k + n < 2 ^ 32"
  shows "copied (d + of_nat k) (s + of_nat k) n (copied d s k m) = copied d s (k + n) m"
proof (rule ext)
  fix a
  have b: "unat (a - (d + of_nat k)) < n \<longleftrightarrow> k \<le> unat (a - d) \<and> unat (a - d) < k + n"
    using in_block [of k n a d] assms(2) by simp
  have e: "s + of_nat k + (a - (d + of_nat k)) = s + (a - d)" by (simp add: algebra_simps)
  show "copied (d + of_nat k) (s + of_nat k) n (copied d s k m) a = copied d s (k + n) m a"
  proof (cases "k \<le> unat (a - d) \<and> unat (a - d) < k + n")
    case True
    have "unat (s + (a - d) - s) < k + n" using True by simp
    then have "\<not> unat (s + (a - d) - d) < k + n" using separateD [OF assms(1)] by blast
    then show ?thesis using True b by (simp add: copied_def e)
  next
    case False then show ?thesis using b by (auto simp: copied_def)
  qed
qed

lemma filled_append:
  "k + n < 2 ^ 32 \<Longrightarrow> filled (d + of_nat k) n c (filled d k c m) = filled d (k + n) c m"
  using in_block [of k n _ d] by (fastforce simp: filled_def)

lemma copied_0 [simp]: "copied d s 0 m = m" by (simp add: copied_def)
lemma filled_0 [simp]: "filled d 0 c m = m" by (simp add: filled_def)

lemma unat_diff_0: "unat (a - d) = 0 \<longleftrightarrow> a = (d :: uint_t)"
  by (simp add: unat_eq_zero)

lemma copied_1: "m(d := m s) = copied d s 1 m"
  by (rule ext) (auto simp: copied_def unat_diff_0)

lemma filled_1: "m(d := c) = filled d 1 c m"
  by (rule ext) (auto simp: filled_def unat_diff_0)

text \<open>A loop whose rounds copy (or fill) \<open>u\<close> bytes each, from the round \<open>b\<close> on.\<close>

lemma copy_loop:
  assumes "\<And>d s m. separate d s u \<Longrightarrow> f d s m = copied d s u m" "separate d s (u * n)" "u * n < 2 ^ 32" "b \<le> n"
  shows "fold (\<lambda>i. f (d + of_nat (u * i)) (s + of_nat (u * i))) [b..<n] (copied d s (u * b) m) = copied d s (u * n) m"
  using assms(2-4)
proof (induction n)
  case (Suc n)
  show ?case
  proof (cases "b = Suc n")
    case False
    then have b: "b \<le> n" using Suc.prems(3) by simp
    have sep: "separate d s (u * n)" "separate (d + of_nat (u * n)) (s + of_nat (u * n)) u" "separate d s (u * n + u)"
      using separate_shift [OF Suc.prems(1), of 0 "u * n"] separate_shift [OF Suc.prems(1), of "u * n" u] Suc.prems(1)
      by (simp_all add: algebra_simps)
    have "u * n < 2 ^ 32" "u * n + u < 2 ^ 32" using Suc.prems(2) by simp_all
    then show ?thesis
      using Suc.IH [OF sep(1) _ b] assms(1) [OF sep(2)] copied_append [OF sep(3)] b
      by (simp add: algebra_simps)
  qed simp
qed simp

lemma fill_loop:
  assumes "\<And>d m. f d m = filled d u c m" "u * n < 2 ^ 32" "b \<le> n"
  shows "fold (\<lambda>i. f (d + of_nat (u * i))) [b..<n] (filled d (u * b) c m) = filled d (u * n) c m"
  using assms(2,3)
proof (induction n)
  case (Suc n)
  show ?case
  proof (cases "b = Suc n")
    case False
    then have b: "b \<le> n" using Suc.prems(2) by simp
    have "u * n < 2 ^ 32" "u * n + u < 2 ^ 32" using Suc.prems(1) by simp_all
    then show ?thesis using Suc.IH [OF _ b] assms(1) filled_append [of "u * n" u d c m] b by (simp add: algebra_simps)
  qed simp
qed simp

section \<open>Words and lines\<close>

lemma unat_less_4: "unat w < 4 \<longleftrightarrow> w = 0 \<or> w = 1 \<or> w = 2 \<or> w = (3 :: uint_t)"
proof -
  have "unat w < 4 \<longleftrightarrow> unat w = 0 \<or> unat w = 1 \<or> unat w = 2 \<or> unat w = 3" by auto
  then show ?thesis by (simp add: word_unat_eq_iff)
qed

lemma store32_eq:
  "store32 d w M a = (if unat (a - d) < 4 then ucast (drop_bit (8 * unat (a - d)) w) else M a)"
proof -
  have "a = d + (a - d)" by simp
  then obtain x where a: "a = d + x" by blast
  show ?thesis
    unfolding a store32_def by (cases "unat x < 4") (auto simp: unat_less_4)
qed

lemma byte_of_load32:
  "ucast (load32 m a) = m a" "ucast (drop_bit 8 (load32 m a)) = m (a + 1)"
  "ucast (drop_bit 16 (load32 m a)) = m (a + 2)" "ucast (drop_bit 24 (load32 m a)) = m (a + 3)"
  unfolding load32_def
  by (rule bit_word_eqI; auto simp: bit_simps dest: bit_imp_le_length)+

lemma store32_load32:
  "store32 d (load32 m s) M = (\<lambda>a. if unat (a - d) < 4 then m (s + (a - d)) else M a)"
  by (rule ext) (auto simp: store32_eq unat_less_4 byte_of_load32)

lemma store32_byte:
  assumes "\<And>k. k < 4 \<Longrightarrow> ucast (drop_bit (8 * k) val) = c"
  shows "store32 d val m = filled d 4 c m"
  using assms by (auto simp: store32_eq filled_def fun_eq_iff)

lemma word_copied: "store32 d (load32 m s) m = copied d s 4 m"
  by (simp add: store32_load32 copied_def)

lemma copied_extend:
  assumes "k + 4 < 2 ^ 32"
  shows "store32 (d + of_nat k) (load32 m (s + of_nat k)) (copied d s k m) = copied d s (k + 4) m"
proof (rule ext)
  fix a
  have e: "s + of_nat k + (a - (d + of_nat k)) = s + (a - d)" by (simp add: algebra_simps)
  show "store32 (d + of_nat k) (load32 m (s + of_nat k)) (copied d s k m) a = copied d s (k + 4) m a"
    using in_block [of k 4 a d] assms unfolding store32_load32 e by (auto simp: copied_def)
qed

lemma line_copied: "copy_line d s m = copied d s 32 m"
proof -
  let ?b = "map (\<lambda>k. load32 m (s + of_nat (4 * k))) [0..<8]"
  have "fold (\<lambda>k M. store32 (d + of_nat (4 * k)) (?b ! k) M) [0..<n] m = copied d s (4 * n) m" if "n \<le> 8" for n
    using that
  proof (induction n)
    case (Suc n)
    then have "?b ! n = load32 m (s + of_nat (4 * n))" by (simp del: of_nat_mult upt_rec_numeral)
    then show ?case using Suc copied_extend [of "4 * n" d m s] by (simp del: of_nat_mult upt_rec_numeral add: add.commute)
  qed simp
  from this [of 8] show ?thesis unfolding copy_line_def Let_def by simp
qed

lemma line_filled:
  assumes "\<And>d m. store32 d val m = filled d 4 c m"
  shows "fold (\<lambda>k m. store32 (d + of_nat (4 * k)) val m) [0..<8] m = filled d 32 c m"
  using fill_loop [of "\<lambda>d. store32 d val" 4 c 8 0 d m, OF assms] by simp

lemma do_memcpy_8_copies:
  assumes "separate d s (32 * n)" "32 * n < 2 ^ 32"
  shows "do_memcpy_8 d s n m = copied d s (32 * n) m"
  using copy_loop [of 32 copy_line d s n 0 m, OF line_copied assms] by (simp add: do_memcpy_8_def)

lemma do_memset_8_fills:
  assumes "\<And>d m. store32 d val m = filled d 4 c m" "32 * n < 2 ^ 32"
  shows "do_memset_8 d val (of_nat n) m = Some (filled d (32 * n) c m)"
proof -
  have step: "do_memset_8_loop val (d + of_nat (32 * n)) (d + of_nat (32 * k)) (filled d (32 * k) c m) =
      Some (filled d (32 * n) c m)" if "k \<le> n" for k
    using that
  proof (induction k rule: inc_induct)
    case base then show ?case by (simp add: do_memset_8_loop.simps)
  next
    case (step k)
    have "(of_nat (32 * k) :: uint_t) \<noteq> of_nat (32 * n)"
      using step(2) assms(2) unat_of_nat_32 [of "32 * k"] unat_of_nat_32 [of "32 * n"] by fastforce
    moreover have "filled (d + of_nat (32 * k)) 32 c (filled d (32 * k) c m) = filled d (32 * Suc k) c m"
      using filled_append [of "32 * k" 32 d c m] step(2) assms(2) by (simp add: add.commute)
    moreover have "d + of_nat (32 * Suc k) = d + of_nat (32 * k) + (32 :: uint_t)" by simp
    ultimately show ?case
      using step(3) unfolding do_memset_8_loop.simps [of val _ "d + of_nat (32 * k)"] line_filled [OF assms(1)]
      by (simp del: of_nat_mult of_nat_Suc add: ac_simps)
  qed
  have "push_bit 5 (of_nat n :: uint_t) = of_nat (32 * n)" by (simp add: push_bit_eq_mult)
  then show ?thesis using step [of 0] by (simp add: do_memset_8_def)
qed

lemma div_32_words:
  fixes sz :: uint_t
  shows "unat (drop_bit 5 sz) = unat sz div 32" "push_bit 5 (drop_bit 5 sz) = of_nat (32 * (unat sz div 32))"
    "sz - of_nat (32 * (unat sz div 32)) = of_nat (unat sz mod 32)" "unat (drop_bit 2 sz) = unat sz div 4"
proof -
  show d: "unat (drop_bit 5 sz) = unat sz div 32" "unat (drop_bit 2 sz) = unat sz div 4"
    by (simp_all only: unat_drop_bit_eq) (simp_all add: drop_bit_eq_div)
  have "push_bit 5 (drop_bit 5 sz) = of_nat (unat (drop_bit 5 sz)) * 32" by (simp add: push_bit_eq_mult)
  then show "push_bit 5 (drop_bit 5 sz) = of_nat (32 * (unat sz div 32))" unfolding d by simp
  have "of_nat (32 * (unat sz div 32)) + of_nat (unat sz mod 32) = (of_nat (unat sz) :: uint_t)"
    unfolding of_nat_add [symmetric] by (simp only: mult_div_mod_eq)
  then show "sz - of_nat (32 * (unat sz div 32)) = of_nat (unat sz mod 32)"
    by (simp del: of_nat_mult add: algebra_simps)
qed

lemma bytes_copied:
  assumes "separate d s n" "n < 2 ^ 32" "b \<le> n"
  shows "fold (\<lambda>i m. m(d + of_nat i := m (s + of_nat i))) [b..<n] (copied d s b m) = copied d s n m"
  using copy_loop [of 1 "\<lambda>d s m. m(d := m s)" d s n b m] copied_1 assms by simp

lemma words_copied:
  assumes "separate d s (4 * n)" "4 * n < 2 ^ 32"
  shows "fold (\<lambda>i m. store32 (d + of_nat (4 * i)) (load32 m (s + of_nat (4 * i))) m) [0..<n] m = copied d s (4 * n) m"
  using copy_loop [of 4 "\<lambda>d s m. store32 d (load32 m s) m" d s n 0 m, OF word_copied assms] by simp

lemma memcpy_eq:
  assumes "separate dest src (unat sz)"
  shows "memcpy dest src sz m =
    (if dest AND 3 \<noteq> 0 \<or> src AND 3 \<noteq> 0 \<or> unat sz mod 32 = 0 then dest else dest + of_nat (32 * (unat sz div 32)),
     copied dest src (unat sz) m)"
proof (cases "dest AND 3 \<noteq> 0 \<or> src AND 3 \<noteq> 0")
  case True
  then show ?thesis using bytes_copied [OF assms _ le0, of m] unat_lt_32 [of sz] by (auto simp: memcpy_def)
next
  case False
  define q where "q = unat sz div 32"
  define r where "r = unat sz mod 32"
  have n: "unat sz = 32 * q + r" "r < 32" by (simp_all add: q_def r_def)
  have lt: "32 * q + r < 2 ^ 32" using unat_lt_32 [of sz] n by simp
  note w = div_32_words [of sz, folded q_def r_def]
  have sep: "separate dest src (32 * q)" "separate (dest + of_nat (32 * q)) (src + of_nat (32 * q)) r"
    using separate_shift [OF assms, of 0 "32 * q"] separate_shift [OF assms, of "32 * q" r] n by simp_all
  let ?d = "dest + of_nat (32 * q)" and ?s = "src + of_nat (32 * q)" and ?M = "copied dest src (32 * q) m"
  have lines: "(if drop_bit 5 sz \<noteq> 0 then do_memcpy_8 dest src q m else m) = ?M"
    using do_memcpy_8_copies [OF sep(1), of m] lt w(1) by (cases "q = 0") (auto simp: unat_eq_0)
  have r: "unat (of_nat r :: uint_t) = r" using n(2) by (simp add: unat_of_nat_32)
  have "separate ?d ?s (4 * (r div 4))" using separate_shift [OF sep(2), of 0 "4 * (r div 4)"] by simp
  then have words: "fold (\<lambda>i m. store32 (?d + of_nat (4 * i)) (load32 m (?s + of_nat (4 * i))) m) [0..<r div 4] ?M =
      copied ?d ?s (4 * (r div 4)) ?M" using words_copied n(2) by simp
  have bytes: "fold (\<lambda>i m. m(?d + of_nat i := m (?s + of_nat i))) [4 * (r div 4)..<r] (copied ?d ?s (4 * (r div 4)) ?M) =
      copied ?d ?s r ?M" using bytes_copied [OF sep(2), of "4 * (r div 4)" ?M] n(2) by simp
  have all: "copied ?d ?s r ?M = copied dest src (unat sz) m"
    using copied_append [of dest src "32 * q" r m] assms lt n(1) by simp
  have z: "(of_nat r :: uint_t) = 0 \<longleftrightarrow> r = 0" using r by (auto simp: unat_eq_0)
  show ?thesis
  proof (cases "r = 0")
    case True
    then show ?thesis using False lines all
      unfolding memcpy_def Let_def w(2,3) w(1) z r_def [symmetric] by simp
  next
    case rn: False
    then show ?thesis using False words bytes all
      unfolding memcpy_def Let_def w(2,3) w(1) z div_32_words(4) r r_def [symmetric] q_def [symmetric] lines
      by (simp del: of_nat_mult)
  qed
qed

lemma memset_head_fills:
  assumes "n < 2 ^ 32"
  shows "\<exists>k \<le> n. memset_head n ptr c m = (ptr + of_nat k, n - k, filled ptr k c m)"
  using assms
proof (induction n arbitrary: ptr m)
  case (Suc n)
  show ?case
  proof (cases "ptr AND 3 \<noteq> 0")
    case True
    obtain k where k: "k \<le> n" "memset_head n (ptr + 1) c (m(ptr := c)) = (ptr + 1 + of_nat k, n - k, filled (ptr + 1) k c (m(ptr := c)))"
      using Suc.IH [of "ptr + 1" "m(ptr := c)"] Suc.prems Suc_lessD by blast
    have "filled (ptr + 1) k c (m(ptr := c)) = filled ptr (Suc k) c m"
      using filled_append [of 1 k ptr c m] Suc.prems k(1) by (simp add: filled_1)
    then show ?thesis using True k by (intro exI [of _ "Suc k"]) (simp add: add.assoc)
  qed (auto intro!: exI [of _ 0])
qed simp

lemma memset_word:
  fixes c :: uint_t
  defines "x \<equiv> c AND 0xFF"
  defines "val \<equiv> push_bit 24 x OR push_bit 16 x OR push_bit 8 x OR (x AND 0xFF)"
  shows "store32 d val m = filled d 4 (ucast x) m"
proof (rule store32_byte)
  fix k :: nat assume "k < 4"
  then have k: "k = 0 \<or> k = 1 \<or> k = 2 \<or> k = 3" by auto
  have hi: "\<not> bit x n" if "8 \<le> n" for n
  proof -
    have "x = take_bit 8 c" by (simp add: x_def take_bit_eq_mask mask_eq_exp_minus_1)
    then show ?thesis using that by (simp add: bit_take_bit_iff)
  qed
  have lo: "x AND 0xFF = x" by (simp add: x_def and.assoc)
  show "ucast (drop_bit (8 * k) val) = (ucast x :: byte)"
    using k hi by (elim disjE; intro bit_word_eqI) (auto simp: val_def lo bit_simps)
qed

lemma memset_eq: "memset s c sz m = Some (s, filled s (unat sz) (ucast (c AND 0xFF)) m)"
proof -
  define x where "x = c AND 0xFF"
  define b where "b = (ucast x :: byte)"
  define val where "val = push_bit 24 x OR push_bit 16 x OR push_bit 8 x OR (x AND 0xFF)"
  obtain k where k: "k \<le> unat sz" "memset_head (unat sz) s b m = (s + of_nat k, unat sz - k, filled s k b m)"
    using memset_head_fills [OF unat_lt_32] by blast
  define p where "p = s + of_nat k"
  define n where "n = unat sz - k"
  have n: "n < 2 ^ 32" "k + n < 2 ^ 32" "k + n = unat sz" using k(1) unat_lt_32 [of sz] by (simp_all add: n_def)
  have st: "store32 d val m = filled d 4 b m" for d m using memset_word [where c = c] by (simp add: b_def val_def x_def)
  let ?q = "n div 32" and ?r = "n mod 32"
  have nqr: "n = ?q * 32 + ?r" by simp
  have lines: "(if ?q \<noteq> 0 then do_memset_8 p val (of_nat ?q) M else Some M) = Some (filled p (32 * ?q) b M)" for M
    using do_memset_8_fills [OF st, of ?q p M] n(1) by simp
  let ?w = "p + of_nat (?q * 32)"
  have words: "fold (\<lambda>i m. store32 (?w + of_nat (4 * i)) val m) [0..<?r div 4] M = filled ?w (4 * (?r div 4)) b M" for M
    using fill_loop [of "\<lambda>d. store32 d val" 4 b "?r div 4" 0 ?w M, OF st] by simp
  have bytes: "fold (\<lambda>i m. m(e + of_nat i := b)) [0..<?r - ?r div 4 * 4] M = filled e (?r - ?r div 4 * 4) b M" for e M
    using fill_loop [of "\<lambda>d m. m(d := b)" 1 b "?r - ?r div 4 * 4" 0 e M] by (simp add: filled_1)
  have tail: "filled (?w + of_nat (4 * (?r div 4))) (?r - ?r div 4 * 4) b (filled ?w (4 * (?r div 4)) b M) = filled ?w ?r b M" for M
    using filled_append [of "4 * (?r div 4)" "?r - ?r div 4 * 4" ?w b M] by (simp add: mult.commute)
  have body: "filled ?w ?r b (filled p (32 * ?q) b M) = filled p n b M" for M
    using filled_append [of "?q * 32" ?r p b M] n(1) by (simp add: mult.commute del: of_nat_mult)
  have whole: "filled p n b (filled s k b m) = filled s (unat sz) b m"
    using filled_append [OF n(2), of s b m] n(3) by (simp add: p_def)
  have sub: "n - ?q * 32 = ?r" by (simp add: minus_div_mult_eq_mod)
  have "memset s c sz m = Some (s, filled p n b (filled s k b m))"
    unfolding memset_def Let_def x_def [symmetric] b_def [symmetric] k(2) prod.case p_def [symmetric] n_def [symmetric]
      val_def [symmetric] lines option.case sub words bytes tail body
    using body [of "filled s k b m"] by (cases "?r = 0") auto
  then show ?thesis using whole by (simp add: b_def x_def)
qed

section \<open>Strings in memory\<close>

fun cstring :: "mem \<Rightarrow> uint_t \<Rightarrow> byte list \<Rightarrow> bool" where
  "cstring m p [] \<longleftrightarrow> m p = 0"
| "cstring m p (x # xs) \<longleftrightarrow> x \<noteq> 0 \<and> m p = x \<and> cstring m (p + 1) xs"

lemma takeWhile_shorter: "length (takeWhile P xs) < length xs \<longleftrightarrow> (\<exists>x \<in> set xs. \<not> P x)"
  by (induction xs) auto

lemma cstring_nonzero: "cstring m p xs \<Longrightarrow> 0 \<notin> set xs"
  by (induction xs arbitrary: p) auto

lemma scan_end_cstring: "cstring m p xs \<Longrightarrow> scan_end m p = Some (p + of_nat (length xs))"
  by (induction xs arbitrary: p) (simp_all add: scan_end.simps add.assoc)

lemma strnlen_loop_cstring: "cstring m p xs \<Longrightarrow> strnlen_loop m n p = p + of_nat (min n (length xs))"
  by (induction xs arbitrary: p n; case_tac n) (simp_all add: add.assoc)

fun compare :: "byte list \<Rightarrow> byte list \<Rightarrow> int" where
  "compare (x # xs) (y # ys) = (if x = y then compare xs ys else sint x - sint y)"
| "compare [] (y # ys) = - sint y"
| "compare (x # xs) [] = sint x"
| "compare [] [] = 0"

lemma strcmp_loop_compare: "cstring m p xs \<Longrightarrow> cstring m q ys \<Longrightarrow> strcmp_loop m p q = Some (compare xs ys)"
  by (induction xs ys arbitrary: p q rule: compare.induct) (simp_all add: strcmp_loop.simps)

lemma sint_eq_0: "sint (x :: byte) = 0 \<longleftrightarrow> x = 0"
  by (metis signed_0 signed_word_eqI)

lemma compare_0: "0 \<notin> set xs \<Longrightarrow> 0 \<notin> set ys \<Longrightarrow> compare xs ys = 0 \<longleftrightarrow> xs = ys"
  by (induction xs ys rule: compare.induct) (auto simp: sint_eq_0 signed_word_eqI)

lemma compare_neg:
  "0 \<notin> set xs \<Longrightarrow> 0 \<notin> set ys \<Longrightarrow> compare xs ys < 0 \<longleftrightarrow> ord_class.lexordp (map sint xs @ [0]) (map sint ys @ [0 :: int])"
proof (induction xs ys rule: compare.induct)
  case (1 x xs y ys)
  have "x \<noteq> y \<Longrightarrow> sint x \<noteq> sint y" using signed_word_eqI by blast
  then show ?case using 1 by (cases "x = y") (simp_all, linarith)
next
  case (2 y ys)
  then show ?case using sint_eq_0 [of y] by simp linarith
next
  case (3 x xs)
  then show ?case using sint_eq_0 [of x] by simp
qed simp

lemma strchr_loop_cstring:
  "cstring m p xs \<Longrightarrow> strchr_loop m c p = Some (p + of_nat (length (takeWhile (\<lambda>x. x \<noteq> c) xs)))"
  by (induction xs arbitrary: p) (auto simp: strchr_loop.simps add.assoc)

lemma cstring_nth: "cstring m p xs \<Longrightarrow> i \<le> length xs \<Longrightarrow> m (p + of_nat i) = (xs @ [0]) ! i"
proof (induction xs arbitrary: p i)
  case (Cons x xs) then show ?case by (cases i) (simp_all add: add.assoc [symmetric])
qed simp

lemma cstring_cong: "(\<And>i. i \<le> length xs \<Longrightarrow> m' (p + of_nat i) = m (p + of_nat i)) \<Longrightarrow> cstring m p xs \<Longrightarrow> cstring m' p xs"
proof (induction xs arbitrary: p)
  case (Cons x xs)
  have "m' (p + 1 + of_nat i) = m (p + 1 + of_nat i)" if "i \<le> length xs" for i
    using Cons.prems(1) [of "Suc i"] that by (simp add: add.assoc)
  then show ?case using Cons.IH [of "p + 1"] Cons.prems(1) [of 0] Cons.prems(2) by simp
qed simp

lemma strcpy_loop_copies:
  assumes "cstring m s xs" "separate d s (length xs + 1)" "length xs + 1 < 2 ^ 32"
  shows "strcpy_loop d s m = Some (copied d s (length xs + 1) m)"
  using assms
proof (induction xs arbitrary: d s m)
  case Nil
  then show ?case using copied_1 [of m d s] by (simp add: strcpy_loop.simps)
next
  case (Cons x xs)
  let ?m = "m(d := m s)"
  have "d \<noteq> s + 1 + of_nat i" if "i \<le> length xs" for i
  proof -
    have "0 < length (x # xs) + 1" "Suc i < length (x # xs) + 1" using that by simp_all
    then have "d + of_nat 0 \<noteq> s + of_nat (Suc i)" using Cons.prems(2) unfolding separate_def by blast
    then show ?thesis by (simp add: add.assoc)
  qed
  then have "?m (s + 1 + of_nat i) = m (s + 1 + of_nat i)" if "i \<le> length xs" for i using that by (metis fun_upd_apply)
  then have "cstring ?m (s + 1) xs" using cstring_cong [of xs ?m "s + 1" m] Cons.prems(1) by (simp del: fun_upd_apply)
  moreover have "separate (d + 1) (s + 1) (length xs + 1)" using separate_shift [OF Cons.prems(2), of 1 "length xs + 1"] by simp
  ultimately have "strcpy_loop (d + 1) (s + 1) ?m = Some (copied (d + 1) (s + 1) (length xs + 1) ?m)"
    using Cons.IH Cons.prems(3) by simp
  moreover have "copied (d + 1) (s + 1) (length xs + 1) ?m = copied d s (length (x # xs) + 1) m"
    using copied_append [of d s 1 "length xs + 1" m] Cons.prems(2,3) by (simp add: copied_1)
  ultimately show ?case using Cons.prems(1) strcpy_loop.simps [of d s m] by simp
qed

lemma strncpy_loop_copies:
  assumes "cstring m s xs" "separate d s (n + length xs + 1)" "n + length xs + 1 < 2 ^ 32" "i \<le> length xs"
  shows "strncpy_loop k d s i (copied d s i m) = (min (i + k) (length xs), copied d s (min (i + k) (length xs)) m)"
  using assms(4)
proof (induction k arbitrary: i)
  case (Suc k)
  have si: "copied d s i m (s + of_nat i) = m (s + of_nat i)"
  proof -
    have u: "unat (of_nat i :: uint_t) = i" using Suc.prems assms(3) by (intro unat_of_nat_32) simp
    then have "unat (s + of_nat i - s) < n + length xs + 1" using Suc.prems by simp
    then have "\<not> unat (s + of_nat i - d) < n + length xs + 1" using separateD [OF assms(2)] by blast
    then show ?thesis using Suc.prems by (simp add: copied_def)
  qed
  note v = cstring_nth [OF assms(1) Suc.prems]
  show ?case
  proof (cases "i = length xs")
    case True then show ?thesis using v si by (simp add: min_def)
  next
    case False
    then have "xs ! i \<in> set xs" using Suc.prems by simp
    then have "xs ! i \<noteq> 0" using cstring_nonzero [OF assms(1)] by metis
    then have nz: "m (s + of_nat i) \<noteq> 0" using v False Suc.prems by (simp add: nth_append)
    have "separate d s (i + 1)" using separate_shift [OF assms(2), of 0 "i + 1"] Suc.prems by simp
    then have "(copied d s i m)(d + of_nat i := copied d s i m (s + of_nat i)) = copied d s (Suc i) m"
      using copied_append [of d s i 1 m] Suc.prems assms(3) by (simp add: copied_1)
    then show ?thesis using Suc.IH [of "Suc i"] False Suc.prems nz si by (simp del: of_nat_Suc fun_upd_apply)
  qed
qed (simp add: min_absorb1)

lemma zeros_fill:
  assumes "b \<le> n" "n < 2 ^ 32"
  shows "fold (\<lambda>i m. m(d + of_nat i := 0)) [b..<n] M = filled (d + of_nat b) (n - b) 0 M"
  using assms
proof (induction n)
  case (Suc n)
  show ?case
  proof (cases "b = Suc n")
    case False
    then show ?thesis
      using Suc filled_append [of "n - b" 1 "d + of_nat b" 0 M] by (simp add: filled_1 add.assoc Suc_diff_le flip: of_nat_add)
  qed simp
qed simp

lemma separate_ranges:
  assumes "unat d + n \<le> unat s \<and> unat s + n \<le> 2 ^ 32 \<or> unat s + n \<le> unat d \<and> unat d + n \<le> 2 ^ 32"
  shows "separate d s n"
  unfolding separate_def
proof (intro allI impI notI)
  fix i j assume ij: "i < n" "j < n" and eq: "d + of_nat i = s + of_nat j"
  have "unat (d + of_nat i) = unat d + i" "unat (s + of_nat j) = unat s + j"
    using ij assms unat_of_nat_32 [of i] unat_of_nat_32 [of j] unat_lt_32 [of d] unat_lt_32 [of s]
    by (auto simp: unat_word_ariths mod_less)
  then show False using eq assms ij by auto
qed

section \<open>Decimal numbers\<close>

abbreviation digit :: "byte \<Rightarrow> bool" where "digit x \<equiv> 48 \<le> sint x \<and> sint x \<le> 57"

definition decimal :: "byte list \<Rightarrow> nat" where
  "decimal xs = foldl (\<lambda>n x. 10 * n + (unat x - 48)) 0 (filter digit xs)"

lemma sint_unat:
  assumes "0 \<le> sint (x :: byte)"
  shows "sint x = int (unat x)"
proof -
  have "uint (word_of_int k :: byte) = take_bit 8 k" for k by (simp add: uint_word_of_int_eq)
  from this [of "sint x"] have "uint x = take_bit 8 (sint x)" by simp
  also have "\<dots> = sint x" using assms sint_less [of x] by (simp add: take_bit_int_eq_self)
  finally show ?thesis by simp
qed

lemma digit_value: "digit x \<Longrightarrow> (ucast x - 48 :: uint_t) = of_nat (unat x - 48)"
proof -
  assume d: "digit x"
  then have "int 48 \<le> int (unat x)" using sint_unat [of x] by simp
  then have "48 \<le> unat x" by (simp only: of_nat_le_iff)
  then show ?thesis by (simp add: of_nat_diff)
qed

lemma atoi_skip_returns: "atoi_skip m p = Some q \<Longrightarrow> \<not> isspace (sint (m p))"
  by (erule atoi_skip.raw_induct [where P = "\<lambda>m p q. \<not> isspace (sint (m p))", rotated]) (auto split: if_splits)

lemma atoi_loop_cstring:
  "cstring m p xs \<Longrightarrow> atoi_loop m p (of_nat n) =
    Some (of_nat (foldl (\<lambda>n x. 10 * n + (unat x - 48)) n (filter digit xs)))"
proof (induction xs arbitrary: p n)
  case (Cons x xs)
  show ?case
  proof (cases "digit x")
    case True
    then have "of_nat n * 10 + (ucast x - 48 :: uint_t) = of_nat (10 * n + (unat x - 48))"
      by (simp add: digit_value mult.commute)
    then have "atoi_loop m p (of_nat n) = atoi_loop m (p + 1) (of_nat (10 * n + (unat x - 48)))"
      using Cons.prems True atoi_loop.simps [of m p "of_nat n"] by (simp del: of_nat_add of_nat_mult)
    then show ?thesis using Cons.IH [of "p + 1" "10 * n + (unat x - 48)"] Cons.prems True by simp
  next
    case False
    then show ?thesis using Cons atoi_loop.simps [of m p "of_nat n"] by auto
  qed
qed (simp add: atoi_loop.simps)

section \<open>Properties\<close>

text \<open>C21. For source and destination that do not overlap \<^verbatim>\<open>memcpy\<close>, with its copying by lines, words and
  bytes, is the copy of \<open>size\<close> bytes and changes no other byte. It returns the destination only when an
  address is unaligned or the size is a multiple of 32; otherwise it returns the end of the last full
  line.\<close>

theorem memcpy_copies:
  assumes "separate dest src (unat sz)"
  shows "memcpy dest src sz m =
    (if dest AND 3 \<noteq> 0 \<or> src AND 3 \<noteq> 0 \<or> unat sz mod 32 = 0 then dest else dest + of_nat (32 * (unat sz div 32)),
     \<lambda>a. if unat (a - dest) < unat sz then m (src + (a - dest)) else m a)"
  using memcpy_eq [OF assms] by (simp add: copied_def)

text \<open>\<^verbatim>\<open>memset\<close>, for any address and size, ends, stores the low byte of \<^verbatim>\<open>c\<close> in each of the \<open>size\<close> bytes
  and in no other, and returns the address.\<close>

theorem memset_fills:
  "memset s c sz m = Some (s, \<lambda>a. if unat (a - s) < unat sz then ucast (c AND 0xFF) else m a)"
  using memset_eq by (simp add: filled_def)

text \<open>On null-terminated strings \<^verbatim>\<open>strlen\<close>, \<^verbatim>\<open>strnlen\<close> and \<^verbatim>\<open>strchr\<close> return the length, the bounded length and
  the first occurrence (null when there is none); \<^verbatim>\<open>strcmp\<close> returns zero exactly for equal strings and is
  negative exactly when the first string is smaller in the order of signed characters; \<^verbatim>\<open>strcpy\<close> to a
  separate place copies the string with its terminator.\<close>

theorem strings_correct:
  assumes "cstring m s xs" "s \<noteq> 0" "cstring m t ys" "t \<noteq> 0"
  shows "strlen m s = Some (of_nat (length xs)) \<and>
    strnlen m s cnt = of_nat (min (nat cnt) (length xs)) \<and>
    strchr m s c = Some (if ucast c \<in> set xs \<or> ucast c = (0 :: byte)
      then s + of_nat (length (takeWhile (\<lambda>x. x \<noteq> ucast c) xs)) else 0) \<and>
    (\<exists>r. strcmp m s t = Some r \<and> (r = 0 \<longleftrightarrow> xs = ys) \<and>
      (r < 0 \<longleftrightarrow> ord_class.lexordp (map sint xs @ [0]) (map sint ys @ [0 :: int]))) \<and>
    (d \<noteq> 0 \<and> separate d s (length xs + 1) \<and> length xs + 1 < 2 ^ 32 \<longrightarrow>
      strcpy d s m = Some (d, \<lambda>a. if unat (a - d) < length xs + 1 then m (s + (a - d)) else m a))"
proof -
  note nz = cstring_nonzero [OF assms(1)] cstring_nonzero [OF assms(3)]
  let ?k = "length (takeWhile (\<lambda>x. x \<noteq> ucast c) xs)"
  have "?k \<le> length xs" by (rule length_takeWhile_le)
  then have k: "m (s + of_nat ?k) = (xs @ [0]) ! ?k" using cstring_nth [OF assms(1)] by blast
  have "?k < length xs \<longleftrightarrow> ucast c \<in> set xs" by (auto simp: takeWhile_shorter)
  moreover have "xs ! ?k = ucast c" if "?k < length xs" using nth_length_takeWhile [OF that] by simp
  moreover have "?k = length xs" if "\<not> ?k < length xs" using that length_takeWhile_le [of "\<lambda>x. x \<noteq> ucast c" xs] by simp
  ultimately have "m (s + of_nat ?k) = ucast c \<longleftrightarrow> ucast c \<in> set xs \<or> ucast c = (0 :: byte)"
    using k by (cases "?k < length xs") (auto simp: nth_append)
  then have "strchr m s c = Some (if ucast c \<in> set xs \<or> ucast c = (0 :: byte)
      then s + of_nat ?k else 0)" using strchr_loop_cstring [OF assms(1), of "ucast c"] assms(2) by (simp add: strchr_def)
  moreover have "\<exists>r. strcmp m s t = Some r \<and> (r = 0 \<longleftrightarrow> xs = ys) \<and>
      (r < 0 \<longleftrightarrow> ord_class.lexordp (map sint xs @ [0]) (map sint ys @ [0 :: int]))"
    using strcmp_loop_compare [OF assms(1,3)] compare_0 [OF nz] compare_neg [OF nz] assms(2,4) by (simp add: strcmp_def)
  moreover have "d \<noteq> 0 \<and> separate d s (length xs + 1) \<and> length xs + 1 < 2 ^ 32 \<longrightarrow>
      strcpy d s m = Some (d, copied d s (length xs + 1) m)"
    using strcpy_loop_copies [OF assms(1)] assms(2) by (simp add: strcpy_def)
  ultimately show ?thesis
    using scan_end_cstring [OF assms(1)] strnlen_loop_cstring [OF assms(1)] assms(2)
    by (simp add: strlen_def strnlen_def copied_def)
qed

text \<open>\<^verbatim>\<open>atoi\<close> on a string that does not start with a space or a control character returns the number
  its decimal digits spell (other characters are skipped), modulo \<open>2 ^ 32\<close>, negated after a leading minus.\<close>

theorem atoi_value:
  assumes "cstring m p (x # xs)" "\<not> isspace (sint x)"
  shows "atoi m p = Some (if x = 45 then - of_nat (decimal (x # xs)) else of_nat (decimal (x # xs)))"
proof -
  have "atoi_skip m p = Some p" using assms by (simp add: atoi_skip.simps)
  moreover have "atoi_loop m p 0 = Some (of_nat (decimal (x # xs)))"
    using atoi_loop_cstring [OF assms(1), of 0] by (simp add: decimal_def)
  ultimately show ?thesis using assms(1) by (simp add: atoi_def Let_def)
qed

text \<open>The loop that should skip leading spaces does not advance: \<^verbatim>\<open>atoi\<close> never returns on a string that
  starts with a space or a control character, nor on the empty string, whose terminator \<^verbatim>\<open>isspace\<close> takes for
  a space.\<close>

theorem atoi_hangs:
  assumes "cstring m p xs" "xs = [] \<or> isspace (sint (hd xs))"
  shows "atoi m p = None"
proof -
  have "isspace (sint (m p))" using assms by (cases xs) (auto simp: isspace_def)
  then have "atoi_skip m p = None" using atoi_skip_returns by (cases "atoi_skip m p") blast+
  then show ?thesis by (simp add: atoi_def)
qed

section \<open>Witnesses\<close>

text \<open>A memory with the strings \<open>42\<close> at 16, \<open>-7\<close> at 32 and a space at 48.\<close>

definition demo_mem_k :: mem where
  "demo_mem_k = (\<lambda>_. 0)(16 := 52, 17 := 50, 32 := 45, 33 := 55, 48 := 32)"

lemma demo_strings:
  "cstring demo_mem_k 16 [52, 50]" "cstring demo_mem_k 32 [45, 55]" "cstring demo_mem_k 48 [32]"
  by (simp_all add: demo_mem_k_def)

theorem memcpy_copies_witness:
  "fst (memcpy 0x100 16 40 demo_mem_k) = 0x120 \<and> snd (memcpy 0x100 16 40 demo_mem_k) 0x101 = 50"
  using memcpy_copies [of "0x100" 16 40 demo_mem_k] separate_ranges [of "0x100" 40 16] by (simp add: demo_mem_k_def)

theorem strings_correct_witness:
  "strlen demo_mem_k 16 = Some 2 \<and> strchr demo_mem_k 16 50 = Some 17 \<and>
   (\<exists>r. strcmp demo_mem_k 16 32 = Some r \<and> r \<noteq> 0 \<and> \<not> r < 0) \<and>
   strcpy 64 16 demo_mem_k = Some (64, \<lambda>a. if unat (a - 64) < 3 then demo_mem_k (16 + (a - 64)) else demo_mem_k a)"
  using strings_correct [OF demo_strings(1) _ demo_strings(2), of 5 50 64] separate_ranges [of 64 3 16] by (auto simp: numeral_3_eq_3)

theorem atoi_value_witness: "atoi demo_mem_k 16 = Some 42 \<and> atoi demo_mem_k 32 = Some (- 7)"
  using atoi_value [OF demo_strings(1)] atoi_value [OF demo_strings(2)] by (simp add: isspace_def decimal_def)

theorem atoi_hangs_witness: "atoi demo_mem_k 48 = None \<and> atoi demo_mem_k 100 = None"
  using atoi_hangs [OF demo_strings(3)] atoi_hangs [of demo_mem_k 100 "[]"] by (simp add: isspace_def demo_mem_k_def)

end
