(* ===== verification/Alarm.thy ===== *)
theory Alarm
  imports DList
begin

text \<open>
  The alarms of a processor and the time accounting of threads (\<^verbatim>\<open>kernel/kern/time.c\<close>, \<^verbatim>\<open>time.h\<close>).

  The alarm queue is the intrusive list of \<open>DList\<close>, rooted at the address of \<^verbatim>\<open>wait_queue\<close>; an
  \<^verbatim>\<open>alarm_info_s\<close> is known by the address of its list entry. \<open>as_sent\<close> records the events sent, in
  order. Both functions run with interrupts disabled on the processor that owns the queue, so each is
  one step. The loops take fuel and return \<open>None\<close> when it runs out.
\<close>

abbreviation ALRM_INFO_ID :: uint_t where "ALRM_INFO_ID \<equiv> 0xAF5FABE5"
abbreviation MSEC_PER_TICK :: uint_t where "MSEC_PER_TICK \<equiv> 1"

record alarm_info_s =
  ai_signature :: uint_t
  ai_event :: nat
  ai_tm_wakeup :: uint_t

record alarm_sys =
  as_links :: lheap
  as_info :: "addr \<Rightarrow> alarm_info_s"
  as_sent :: "nat list"

definition alarm_manager_init :: "addr \<Rightarrow> alarm_sys \<Rightarrow> alarm_sys" where
  "alarm_manager_init wait_queue s = s\<lparr>as_links := list_root_init (as_links s) wait_queue\<rparr>"

text \<open>The loop of \<^verbatim>\<open>alarm_wait\<close>, from \<^verbatim>\<open>iter\<close> on, with the insertion at its end.\<close>

fun alarm_scan :: "nat \<Rightarrow> addr \<Rightarrow> addr \<Rightarrow> (addr \<Rightarrow> alarm_info_s) \<Rightarrow> addr \<Rightarrow> lheap \<Rightarrow> lheap option" where
  "alarm_scan 0 wait_queue info infos iter h = None"
| "alarm_scan (Suc fuel) wait_queue info infos iter h =
     (if iter = wait_queue then Some (list_add_last h wait_queue info)
      else if ai_tm_wakeup (infos info) \<le> ai_tm_wakeup (infos iter) then Some (list_add_pred h iter info)
      else alarm_scan fuel wait_queue info infos (nxt h iter) h)"

definition alarm_wait :: "nat \<Rightarrow> addr \<Rightarrow> uint_t \<Rightarrow> addr \<Rightarrow> uint_t \<Rightarrow> alarm_sys \<Rightarrow> alarm_sys option" where
  "alarm_wait fuel wait_queue ticks info msec s =
     (let tm_now = ticks * MSEC_PER_TICK;
          infos = (as_info s)(info := (as_info s info)\<lparr>ai_signature := ALRM_INFO_ID, ai_tm_wakeup := tm_now + msec\<rparr>);
          h = as_links s
      in map_option (\<lambda>h. s\<lparr>as_links := h, as_info := infos\<rparr>)
           (if list_empty h wait_queue then Some (list_add_first h wait_queue info)
            else alarm_scan fuel wait_queue info infos (nxt h wait_queue) h))"

text \<open>The loop of \<^verbatim>\<open>alarm_clock\<close>: \<^verbatim>\<open>ptr\<close> is the successor read before the current entry is unlinked.\<close>

fun alarm_run :: "nat \<Rightarrow> uint_t \<Rightarrow> addr \<Rightarrow> addr \<Rightarrow> addr \<Rightarrow> alarm_sys \<Rightarrow> alarm_sys option" where
  "alarm_run 0 tm_msec wait_queue iter ptr s = None"
| "alarm_run (Suc fuel) tm_msec wait_queue iter ptr s =
     (if iter = wait_queue then Some s
      else if tm_msec < ai_tm_wakeup (as_info s iter) then Some s
      else let s = s\<lparr>as_links := list_unlink (as_links s) iter, as_sent := as_sent s @ [ai_event (as_info s iter)]\<rparr>
           in alarm_run fuel tm_msec wait_queue ptr (nxt (as_links s) ptr) s)"

definition alarm_clock :: "nat \<Rightarrow> addr \<Rightarrow> uint_t \<Rightarrow> alarm_sys \<Rightarrow> alarm_sys option" where
  "alarm_clock fuel wait_queue ticks_nr s =
     (let tm_msec = ticks_nr * MSEC_PER_TICK; h = as_links s
      in alarm_run fuel tm_msec wait_queue (nxt h wait_queue) (nxt h (nxt h wait_queue)) s)"

section \<open>Time accounting\<close>

text \<open>The times of \<^verbatim>\<open>struct thread_info\<close>; \<open>tm_idle\<close> says that the thread is of type \<^verbatim>\<open>TH_IDLE\<close>. The time of
  \<^verbatim>\<open>rt_timer_read\<close> is an argument.\<close>

record thread_times =
  tm_idle :: bool
  tm_exec :: uint_t
  tm_tmp :: uint_t
  tm_usr :: uint_t
  tm_sys :: uint_t
  tm_sleep :: uint_t
  tm_wait :: uint_t
  tm_create :: uint_t
  tm_born :: uint_t
  tm_dead :: uint_t

definition tm_sleep_compute :: "uint_t \<Rightarrow> thread_times \<Rightarrow> thread_times" where
  "tm_sleep_compute tm_now t =
     (if tm_idle t then t else t\<lparr>tm_sleep := tm_sleep t + (tm_now - tm_tmp t), tm_tmp := tm_now\<rparr>)"

definition tm_usr_compute :: "uint_t \<Rightarrow> thread_times \<Rightarrow> thread_times" where
  "tm_usr_compute tm_now t = t\<lparr>tm_usr := tm_usr t + (tm_now - tm_tmp t), tm_tmp := tm_now\<rparr>"

definition tm_sys_compute :: "uint_t \<Rightarrow> thread_times \<Rightarrow> thread_times" where
  "tm_sys_compute tm_now t = t\<lparr>tm_sys := tm_sys t + (tm_now - tm_tmp t), tm_tmp := tm_now\<rparr>"

definition tm_wait_compute :: "uint_t \<Rightarrow> thread_times \<Rightarrow> thread_times" where
  "tm_wait_compute tm_now t =
     (if tm_idle t then t
      else t\<lparr>tm_wait := tm_wait t + (tm_now - tm_tmp t), tm_tmp := tm_now, tm_exec := tm_now\<rparr>)"

definition tm_exit_compute :: "uint_t \<Rightarrow> thread_times \<Rightarrow> thread_times" where
  "tm_exit_compute tm_now t = t\<lparr>tm_sys := tm_sys t + (tm_now - tm_tmp t), tm_dead := tm_now\<rparr>"

definition tm_born_compute :: "uint_t \<Rightarrow> thread_times \<Rightarrow> thread_times" where
  "tm_born_compute tm_now t = t\<lparr>tm_born := tm_now, tm_tmp := tm_now, tm_exec := tm_now\<rparr>"

definition tm_create_compute :: "uint_t \<Rightarrow> thread_times \<Rightarrow> thread_times" where
  "tm_create_compute tm_now t = t\<lparr>tm_create := tm_now\<rparr>"

text \<open>What happens to a thread between its birth and its end, with the time of each event.\<close>

datatype tm_event = TSleep uint_t | TUsr uint_t | TSys uint_t | TWait uint_t

primrec tm_apply :: "tm_event \<Rightarrow> thread_times \<Rightarrow> thread_times" where
  "tm_apply (TSleep n) = tm_sleep_compute n"
| "tm_apply (TUsr n) = tm_usr_compute n"
| "tm_apply (TSys n) = tm_sys_compute n"
| "tm_apply (TWait n) = tm_wait_compute n"

abbreviation tm_total :: "thread_times \<Rightarrow> uint_t" where
  "tm_total t \<equiv> tm_usr t + tm_sys t + tm_sleep t + tm_wait t"

section \<open>The queue in order of time\<close>

definition due :: "alarm_sys \<Rightarrow> addr \<Rightarrow> nat" where
  "due s a = unat (ai_tm_wakeup (as_info s a))"

definition alarm_inv :: "addr \<Rightarrow> alarm_sys \<Rightarrow> addr list \<Rightarrow> bool" where
  "alarm_inv wait_queue s xs \<longleftrightarrow> dlist (as_links s) wait_queue xs \<and> sorted (map (due s) xs)"

lemma dlist_nxt: "dlist h r (xs @ y # ys) \<Longrightarrow> nxt h y = hd (ys @ [r])"
  by (cases xs) (auto simp: dlist_def linked_append dest: linked_nxt)

lemma alarm_scan_ok:
  assumes "dlist h r (as @ bs)" "info \<noteq> r" "info \<notin> set (as @ bs)" "length bs < n" "iter = hd (bs @ [r])"
  shows "\<exists>h'. alarm_scan n r info infos iter h = Some h' \<and>
    dlist h' r (as @ insort_key (\<lambda>a. unat (ai_tm_wakeup (infos a))) info bs)"
  using assms
proof (induction bs arbitrary: as n iter)
  case Nil
  then show ?case using dlist_add_last [of h r as info] by (cases n) auto
next
  case (Cons b bs)
  obtain k where k: "n = Suc k" using Cons.prems(4) by (cases n) auto
  have it: "iter = b" "b \<noteq> r" using Cons.prems(1,5) by (auto simp: dlist_def)
  show ?case
  proof (cases "ai_tm_wakeup (infos info) \<le> ai_tm_wakeup (infos b)")
    case True
    then show ?thesis using dlist_add_pred [OF Cons.prems(1-3)] k it by (simp add: word_le_nat_alt)
  next
    case False
    have "nxt h b = hd (bs @ [r])" using dlist_nxt [OF Cons.prems(1)] .
    then obtain h' where "alarm_scan k r info infos (nxt h b) h = Some h'"
      "dlist h' r ((as @ [b]) @ insort_key (\<lambda>a. unat (ai_tm_wakeup (infos a))) info bs)"
      using Cons.IH [of "as @ [b]" k "nxt h b"] Cons.prems k by auto
    then show ?thesis using False k it by (simp add: word_le_nat_alt)
  qed
qed

lemma alarm_run_ok:
  assumes "dlist (as_links s) r xs" "length xs < n" "iter = hd (xs @ [r])" "xs \<noteq> [] \<Longrightarrow> ptr = hd (tl xs @ [r])"
  shows "\<exists>h. alarm_run n tm r iter ptr s =
      Some (s\<lparr>as_links := h, as_sent := as_sent s @ map (\<lambda>a. ai_event (as_info s a)) (takeWhile (\<lambda>a. due s a \<le> unat tm) xs)\<rparr>) \<and> dlist h r (dropWhile (\<lambda>a. due s a \<le> unat tm) xs)"
  using assms
proof (induction xs arbitrary: s n iter ptr)
  case Nil
  then show ?case by (cases n) (auto intro!: exI [of _ "as_links s"])
next
  case (Cons x xs)
  obtain k where k: "n = Suc k" using Cons.prems(2) by (cases n) auto
  have it: "iter = x" "x \<noteq> r" "ptr = hd (xs @ [r])" using Cons.prems by (auto simp: dlist_def)
  have late: "tm < ai_tm_wakeup (as_info s x) \<longleftrightarrow> \<not> due s x \<le> unat tm" by (simp add: due_def word_less_nat_alt not_le)
  show ?case
  proof (cases "due s x \<le> unat tm")
    case False
    then show ?thesis using late it k Cons.prems(1) by (intro exI [of _ "as_links s"]) simp
  next
    case True
    define s1 where "s1 = s\<lparr>as_links := list_unlink (as_links s) x, as_sent := as_sent s @ [ai_event (as_info s x)]\<rparr>"
    have d: "dlist (as_links s1) r xs" using dlist_unlink [OF Cons.prems(1), of x] by (simp add: s1_def)
    have "nxt (as_links s1) ptr = hd (tl xs @ [r])" if "xs \<noteq> []"
      using that it(3) dlist_nxt [of "as_links s1" r "[]" "hd xs" "tl xs"] d by simp
    moreover have "due s1 = due s" "as_info s1 = as_info s" by (auto simp: s1_def due_def fun_eq_iff)
    ultimately obtain h where "alarm_run k tm r ptr (nxt (as_links s1) ptr) s1 =
        Some (s1\<lparr>as_links := h, as_sent := as_sent s1 @ map (\<lambda>a. ai_event (as_info s a)) (takeWhile (\<lambda>a. due s a \<le> unat tm) xs)\<rparr>)"
      "dlist h r (dropWhile (\<lambda>a. due s a \<le> unat tm) xs)"
      using Cons.IH [OF d, of k ptr "nxt (as_links s1) ptr"] Cons.prems(2) k it(3) by auto
    then show ?thesis using True late it k by (intro exI [of _ h]) (simp add: s1_def [symmetric] Let_def, simp add: s1_def)
  qed
qed

lemma sorted_takeWhile_filter:
  "sorted (map f xs) \<Longrightarrow> takeWhile (\<lambda>a. f a \<le> (n :: nat)) xs = filter (\<lambda>a. f a \<le> n) xs \<and>
     dropWhile (\<lambda>a. f a \<le> n) xs = filter (\<lambda>a. \<not> f a \<le> n) xs"
proof (induction xs)
  case (Cons x xs)
  show ?case
  proof (cases "f x \<le> n")
    case False
    then have "\<forall>y \<in> set xs. \<not> f y \<le> n" using Cons.prems by fastforce
    then have "filter (\<lambda>a. f a \<le> n) xs = []" "filter (\<lambda>a. \<not> f a \<le> n) xs = xs" by auto
    then show ?thesis using False by simp
  qed (use Cons in simp)
qed simp

lemma tm_apply_total: "tm_total (tm_apply e t) - tm_tmp (tm_apply e t) = tm_total t - tm_tmp t"
  by (cases e) (simp_all add: tm_sleep_compute_def tm_usr_compute_def tm_sys_compute_def tm_wait_compute_def)

lemma tm_apply_born [simp]: "tm_born (tm_apply e t) = tm_born t"
  by (cases e) (simp_all add: tm_sleep_compute_def tm_usr_compute_def tm_sys_compute_def tm_wait_compute_def)

lemma tm_fold_total:
  "tm_total (fold tm_apply es t) - tm_tmp (fold tm_apply es t) = tm_total t - tm_tmp t \<and> tm_born (fold tm_apply es t) = tm_born t"
proof (induction es arbitrary: t)
  case (Cons e es) then show ?case using tm_apply_total [of e t] by simp
qed simp

section \<open>Properties\<close>

text \<open>C22. The alarm queue: \<^verbatim>\<open>alarm_wait\<close> keeps it sorted by wake-up time, putting a new alarm in front of
  those due at the same time, and \<^verbatim>\<open>alarm_clock\<close> sends exactly the events that are due, in the order of
  the queue, and leaves the others queued. The links stay a list although \<^verbatim>\<open>alarm_clock\<close> unlinks the
  entries while it walks over them. The wake-up time is computed modulo \<open>2 ^ 32\<close>.\<close>

theorem alarm_correct:
  assumes "alarm_inv wq s xs" "length xs < fuel"
  shows "(info \<noteq> wq \<and> info \<notin> set xs \<longrightarrow>
      (\<exists>s'. alarm_wait fuel wq ticks info msec s = Some s' \<and> alarm_inv wq s' (insort_key (due s') info xs) \<and>
        due s' info = unat (ticks + msec) \<and> (\<forall>a. a \<noteq> info \<longrightarrow> due s' a = due s a) \<and> as_sent s' = as_sent s)) \<and>
    (\<exists>s'. alarm_clock fuel wq ticks s = Some s' \<and> alarm_inv wq s' (filter (\<lambda>a. unat ticks < due s a) xs) \<and>
      as_sent s' = as_sent s @ map (\<lambda>a. ai_event (as_info s a)) (filter (\<lambda>a. due s a \<le> unat ticks) xs) \<and> due s' = due s)"
proof (intro conjI impI)
  have inv: "dlist (as_links s) wq xs" "sorted (map (due s) xs)" using assms(1) by (auto simp: alarm_inv_def)
  { assume i: "info \<noteq> wq \<and> info \<notin> set xs"
    define infos where "infos = (as_info s)(info := (as_info s info)\<lparr>ai_signature := ALRM_INFO_ID, ai_tm_wakeup := ticks + msec\<rparr>)"
    have hd: "nxt (as_links s) wq = hd (xs @ [wq])" using inv(1) linked_nxt by (auto simp: dlist_def)
    obtain h where h: "(if list_empty (as_links s) wq then Some (list_add_first (as_links s) wq info)
        else alarm_scan fuel wq info infos (nxt (as_links s) wq) (as_links s)) = Some h"
      "dlist h wq (insort_key (\<lambda>a. unat (ai_tm_wakeup (infos a))) info xs)"
      using alarm_scan_ok [of "as_links s" wq "[]" xs info fuel _ infos, OF _ _ _ assms(2) hd] inv(1) i
        dlist_empty [OF inv(1)] dlist_add_first [OF inv(1), of info] by (cases "xs = []") auto
    define s' where "s' = s\<lparr>as_links := h, as_info := infos\<rparr>"
    have d: "due s' = (due s)(info := unat (ticks + msec))" by (auto simp: due_def s'_def infos_def fun_eq_iff)
    have "map (due s') xs = map (due s) xs" using i by (auto simp: d)
    then have "sorted (map (due s') (insort_key (due s') info xs))" using inv(2) by (simp only: sorted_insort_key)
    moreover have "(\<lambda>a. unat (ai_tm_wakeup (infos a))) = due s'" by (auto simp: due_def s'_def)
    ultimately have "alarm_inv wq s' (insort_key (due s') info xs)" using h(2) by (simp add: alarm_inv_def s'_def)
    moreover have "alarm_wait fuel wq ticks info msec s = Some s'"
      using h(1) by (auto simp: alarm_wait_def Let_def infos_def [symmetric] s'_def split: if_splits)
    ultimately show "\<exists>s'. alarm_wait fuel wq ticks info msec s = Some s' \<and> alarm_inv wq s' (insort_key (due s') info xs) \<and>
        due s' info = unat (ticks + msec) \<and> (\<forall>a. a \<noteq> info \<longrightarrow> due s' a = due s a) \<and> as_sent s' = as_sent s"
      using d by (intro exI [of _ s']) (auto simp: s'_def) }
  have n2: "xs \<noteq> [] \<Longrightarrow> nxt (as_links s) (nxt (as_links s) wq) = hd (tl xs @ [wq])"
    using inv(1) by (cases xs) (auto simp: dlist_def dest: linked_nxt)
  have n1: "nxt (as_links s) wq = hd (xs @ [wq])" using inv(1) linked_nxt by (auto simp: dlist_def)
  obtain h where h: "alarm_clock fuel wq ticks s =
      Some (s\<lparr>as_links := h, as_sent := as_sent s @ map (\<lambda>a. ai_event (as_info s a)) (filter (\<lambda>a. due s a \<le> unat ticks) xs)\<rparr>)"
    "dlist h wq (filter (\<lambda>a. unat ticks < due s a) xs)"
    using alarm_run_ok [OF inv(1) assms(2) n1 n2, of ticks] sorted_takeWhile_filter [OF inv(2), of "unat ticks"]
    by (auto simp: alarm_clock_def Let_def not_le)
  have d: "due (s\<lparr>as_links := h, as_sent := l\<rparr>) = due s" for l by (auto simp: due_def)
  show "\<exists>s'. alarm_clock fuel wq ticks s = Some s' \<and> alarm_inv wq s' (filter (\<lambda>a. unat ticks < due s a) xs) \<and>
      as_sent s' = as_sent s @ map (\<lambda>a. ai_event (as_info s a)) (filter (\<lambda>a. due s a \<le> unat ticks) xs) \<and> due s' = due s"
    using h d sorted_filter [OF inv(2)] by (simp add: alarm_inv_def)
qed

text \<open>Time accounting: whatever sequence of user, system, sleep and wait periods a thread goes through
  after its birth, its four counters add up to the time since then (modulo \<open>2 ^ 32\<close>), also after the
  last period is closed at its end.\<close>

theorem tm_accounting:
  assumes "tm_total t = 0"
  shows "tm_total (fold tm_apply es (tm_born_compute b t)) = tm_tmp (fold tm_apply es (tm_born_compute b t)) - b \<and>
    tm_total (tm_exit_compute e (fold tm_apply es (tm_born_compute b t))) = e - b"
proof -
  let ?t = "fold tm_apply es (tm_born_compute b t)"
  have "tm_total ?t - tm_tmp ?t = - b" using tm_fold_total [of es "tm_born_compute b t"] assms
    by (simp add: tm_born_compute_def)
  then have "tm_total ?t = tm_tmp ?t - b" by (simp add: algebra_simps)
  moreover have "tm_total (tm_exit_compute e ?t) = tm_total ?t + (e - tm_tmp ?t)" by (simp add: tm_exit_compute_def)
  ultimately show ?thesis by simp
qed

section \<open>Witnesses\<close>

definition demo_alarms :: alarm_sys where
  "demo_alarms = alarm_manager_init 8 \<lparr>as_links = \<lparr>nxt = (\<lambda>_. 0), prv = (\<lambda>_. 0)\<rparr>,
     as_info = (\<lambda>a. \<lparr>ai_signature = 0, ai_event = a + 1, ai_tm_wakeup = 0\<rparr>), as_sent = []\<rparr>"

theorem alarm_correct_witness:
  "\<exists>s s'. alarm_wait 1 8 100 16 50 demo_alarms = Some s \<and> alarm_clock 2 8 150 s = Some s' \<and> as_sent s' = [17]"
proof -
  have i: "alarm_inv 8 demo_alarms []" using dlist_root_init by (simp add: alarm_inv_def demo_alarms_def alarm_manager_init_def)
  then obtain s where s: "alarm_wait 1 8 100 16 50 demo_alarms = Some s" "alarm_inv 8 s [16]" "due s 16 = 150" "as_sent s = []"
    using alarm_correct [OF i, of 1 16 100 50] by (auto simp: demo_alarms_def alarm_manager_init_def)
  have "ai_event (as_info s 16) = 17"
    using s(1) by (auto simp: alarm_wait_def Let_def demo_alarms_def alarm_manager_init_def split: if_splits)
  then show ?thesis using alarm_correct [OF s(2), of 2 16 150 0] s by auto
qed

theorem tm_accounting_witness:
  "tm_total (tm_exit_compute 30 (fold tm_apply [TUsr 10, TSleep 25]
     (tm_born_compute 4 \<lparr>tm_idle = False, tm_exec = 0, tm_tmp = 0, tm_usr = 0, tm_sys = 0, tm_sleep = 0, tm_wait = 0,
        tm_create = 0, tm_born = 0, tm_dead = 0\<rparr>))) = 26"
  using tm_accounting [of "\<lparr>tm_idle = False, tm_exec = 0, tm_tmp = 0, tm_usr = 0, tm_sys = 0, tm_sleep = 0, tm_wait = 0,
        tm_create = 0, tm_born = 0, tm_dead = 0\<rparr>" "[TUsr 10, TSleep 25]" 4 30] by simp

end
