(* ===== verification/Spinlock.thy ===== *)
theory Spinlock
  imports WaitQueue
begin

text \<open>
  Spinlocks (\<^verbatim>\<open>kernel/kern/spinlock.c\<close>, \<^verbatim>\<open>spinlock.h\<close>) and the atomic counters of
  \<^verbatim>\<open>kernel/kern/atomic.c\<close>.

  The lock word is 0 when free, -1 when locked, and otherwise the number of readers, with the sign bit
  set when a writer has announced itself. Every access to the word (a load, a compare-and-swap, a
  store) is one step of the thread that makes it, so that all interleavings of the processors are
  covered; a round function says what a thread does with the value it has loaded, given the value that
  is there when it acts. Interrupt masks and the yields of a thread that spins do not touch the word.
\<close>

section \<open>Atomic counters\<close>

text \<open>Each operation returns the old value and leaves the new one. \<^verbatim>\<open>atomic_set\<close> is a retry loop, whose
  rounds may be disturbed: \<open>env n\<close> is what the other processors do before the swap of round \<open>n\<close>.\<close>

definition atomic_init :: "uint_t \<Rightarrow> uint_t \<Rightarrow> uint_t" where
  "atomic_init v cur = v"

definition atomic_add :: "uint_t \<Rightarrow> uint_t \<Rightarrow> uint_t \<times> uint_t" where
  "atomic_add v cur = (cur, cur + v)"

definition atomic_inc :: "uint_t \<Rightarrow> uint_t \<times> uint_t" where
  "atomic_inc cur = atomic_add 1 cur"

definition atomic_dec :: "uint_t \<Rightarrow> uint_t \<times> uint_t" where
  "atomic_dec cur = atomic_add (-1) cur"

definition atomic_cas :: "uint_t \<Rightarrow> uint_t \<Rightarrow> uint_t \<Rightarrow> bool \<times> uint_t" where
  "atomic_cas old new cur = (if cur = old then (True, new) else (False, cur))"

definition atomic_get :: "uint_t \<Rightarrow> uint_t" where
  "atomic_get cur = cur"

fun atomic_set :: "nat \<Rightarrow> (nat \<Rightarrow> uint_t \<Rightarrow> uint_t) \<Rightarrow> uint_t \<Rightarrow> uint_t \<Rightarrow> (uint_t \<times> uint_t) option" where
  "atomic_set 0 env v cur = None"
| "atomic_set (Suc n) env v cur =
     (let old = atomic_get cur; (isAtomic, cur) = atomic_cas old v (env n cur)
      in if isAtomic then Some (old, cur) else atomic_set n env v cur)"

definition refcount_up :: "uint_t \<Rightarrow> uint_t \<times> uint_t" where
  "refcount_up cur = atomic_inc cur"

definition refcount_down :: "uint_t \<Rightarrow> uint_t \<times> uint_t" where
  "refcount_down cur = atomic_dec cur"

definition refcount_set :: "uint_t \<Rightarrow> uint_t \<Rightarrow> uint_t \<times> uint_t" where
  "refcount_set new_val cur = (cur, new_val)"

section \<open>Rounds of the lock loops\<close>

abbreviation SL_WRITER :: uint_t where "SL_WRITER \<equiv> 0x80000000"

text \<open>\<^verbatim>\<open>spin_lock\<close>, \<^verbatim>\<open>spinlock_lock\<close>, \<^verbatim>\<open>spinlock_lock_noirq\<close> and \<^verbatim>\<open>spinlock_trylock\<close>: from the value loaded and
  the value now there, whether the lock is taken and what is there afterwards.\<close>

definition spin_lock_round :: "uint_t \<Rightarrow> uint_t \<Rightarrow> bool \<times> uint_t" where
  "spin_lock_round val cur = (if val \<noteq> 0 then (False, cur) else atomic_cas 0 (-1) cur)"

definition spinlock_lock_round :: "uint_t \<Rightarrow> uint_t \<Rightarrow> bool \<times> uint_t" where
  "spinlock_lock_round val cur =
     (if 0 < sint val then (False, snd (atomic_cas val (val OR SL_WRITER) cur))
      else if val \<noteq> 0 then (False, cur)
      else atomic_cas 0 (-1) cur)"

definition spinlock_lock_noirq_round :: "uint_t \<Rightarrow> uint_t \<Rightarrow> bool \<times> uint_t" where
  "spinlock_lock_noirq_round val cur = (if val = 0 then atomic_cas 0 (-1) cur else (False, cur))"

definition spinlock_trylock_round :: "uint_t \<Rightarrow> uint_t \<Rightarrow> bool \<times> uint_t" where
  "spinlock_trylock_round val cur = (if val = 0 then atomic_cas 0 (-1) cur else (False, cur))"

definition spinlock_rdlock_round :: "uint_t \<Rightarrow> uint_t \<Rightarrow> bool \<times> uint_t" where
  "spinlock_rdlock_round val cur = (if sint val < 0 then (False, cur) else atomic_cas val (val + 1) cur)"

definition spinlock_tryrdlock_round :: "uint_t \<Rightarrow> uint_t \<Rightarrow> bool \<times> uint_t" where
  "spinlock_tryrdlock_round val cur = (if 0 \<le> sint val then atomic_cas val (val + 1) cur else (False, cur))"

text \<open>\<^verbatim>\<open>__spinlock_unlock\<close> and \<^verbatim>\<open>spinlock_unlock_noirq\<close>: the test of the sign and the store are two accesses.\<close>

definition spinlock_unlock_store :: "bool \<Rightarrow> uint_t \<Rightarrow> uint_t" where
  "spinlock_unlock_store negative cur = (if negative then 0 else snd (atomic_add (-1) cur))"

section \<open>Interleavings\<close>

datatype lock_op = OpSpinLock | OpLock | OpLockNoirq | OpTrylock | OpRdlock | OpTryrdlock

primrec round_of :: "lock_op \<Rightarrow> uint_t \<Rightarrow> uint_t \<Rightarrow> bool \<times> uint_t" where
  "round_of OpSpinLock = spin_lock_round"
| "round_of OpLock = spinlock_lock_round"
| "round_of OpLockNoirq = spinlock_lock_noirq_round"
| "round_of OpTrylock = spinlock_trylock_round"
| "round_of OpRdlock = spinlock_rdlock_round"
| "round_of OpTryrdlock = spinlock_tryrdlock_round"

primrec reads :: "lock_op \<Rightarrow> bool" where
  "reads OpSpinLock = False"
| "reads OpLock = False"
| "reads OpLockNoirq = False"
| "reads OpTrylock = False"
| "reads OpRdlock = True"
| "reads OpTryrdlock = True"

primrec once :: "lock_op \<Rightarrow> bool" where
  "once OpSpinLock = False"
| "once OpLock = False"
| "once OpLockNoirq = False"
| "once OpTrylock = True"
| "once OpRdlock = False"
| "once OpTryrdlock = True"

text \<open>A thread is outside, at the start of a round, has loaded the lock word, holds the lock, or is
  releasing it after the test of the sign.\<close>

datatype spin_pc = Outside | Spinning lock_op | Loaded lock_op uint_t | Holding lock_op | Releasing lock_op bool

record spin_sys =
  sl_val :: uint_t
  sl_pc :: "tid \<Rightarrow> spin_pc"
  sl_locks :: "tid \<Rightarrow> int"

text \<open>\<open>ops\<close> are the operations the threads use to take the lock.\<close>

inductive spin_step :: "lock_op set \<Rightarrow> spin_sys \<Rightarrow> spin_sys \<Rightarrow> bool" for ops where
  call: "op \<in> ops \<Longrightarrow> sl_pc y t = Outside \<Longrightarrow> spin_step ops y (y\<lparr>sl_pc := (sl_pc y)(t := Spinning op)\<rparr>)"
| load: "sl_pc y t = Spinning op \<Longrightarrow> spin_step ops y (y\<lparr>sl_pc := (sl_pc y)(t := Loaded op (sl_val y))\<rparr>)"
| got: "sl_pc y t = Loaded op v \<Longrightarrow> round_of op v (sl_val y) = (True, w) \<Longrightarrow>
    spin_step ops y (y\<lparr>sl_val := w, sl_pc := (sl_pc y)(t := Holding op), sl_locks := (sl_locks y)(t := sl_locks y t + 1)\<rparr>)"
| again: "sl_pc y t = Loaded op v \<Longrightarrow> round_of op v (sl_val y) = (False, w) \<Longrightarrow> \<not> once op \<Longrightarrow>
    spin_step ops y (y\<lparr>sl_val := w, sl_pc := (sl_pc y)(t := Spinning op)\<rparr>)"
| failed: "sl_pc y t = Loaded op v \<Longrightarrow> round_of op v (sl_val y) = (False, w) \<Longrightarrow> once op \<Longrightarrow>
    spin_step ops y (y\<lparr>sl_val := w, sl_pc := (sl_pc y)(t := Outside)\<rparr>)"
| test: "sl_pc y t = Holding op \<Longrightarrow> spin_step ops y (y\<lparr>sl_pc := (sl_pc y)(t := Releasing op (sint (sl_val y) < 0))\<rparr>)"
| release: "sl_pc y t = Releasing op neg \<Longrightarrow>
    spin_step ops y (y\<lparr>sl_val := spinlock_unlock_store neg (sl_val y), sl_pc := (sl_pc y)(t := Outside),
      sl_locks := (sl_locks y)(t := sl_locks y t - 1)\<rparr>)"

abbreviation spin_reach :: "lock_op set \<Rightarrow> spin_sys \<Rightarrow> spin_sys \<Rightarrow> bool" where "spin_reach ops \<equiv> (spin_step ops)\<^sup>*\<^sup>*"

definition spinlock_init :: spin_sys where
  "spinlock_init = \<lparr>sl_val = 0, sl_pc = (\<lambda>_. Outside), sl_locks = (\<lambda>_. 0)\<rparr>"

primrec inside :: "spin_pc \<Rightarrow> bool" where
  "inside Outside = False"
| "inside (Spinning op) = False"
| "inside (Loaded op v) = False"
| "inside (Holding op) = True"
| "inside (Releasing op neg) = True"

primrec op_of :: "spin_pc \<Rightarrow> lock_op option" where
  "op_of Outside = None"
| "op_of (Spinning op) = Some op"
| "op_of (Loaded op v) = Some op"
| "op_of (Holding op) = Some op"
| "op_of (Releasing op neg) = Some op"

section \<open>Exclusive use\<close>

text \<open>A thread that releases the lock has found it locked by a writer.\<close>

primrec tested :: "spin_pc \<Rightarrow> bool" where
  "tested Outside = True"
| "tested (Spinning op) = True"
| "tested (Loaded op v) = True"
| "tested (Holding op) = True"
| "tested (Releasing op neg) = neg"

definition spin_inv :: "spin_sys \<Rightarrow> bool" where
  "spin_inv y \<longleftrightarrow>
     (sl_val y = 0 \<and> (\<forall>t. \<not> inside (sl_pc y t)) \<or> sl_val y = -1 \<and> (\<exists>t. {u. inside (sl_pc y u)} = {t})) \<and>
     (\<forall>t. tested (sl_pc y t)) \<and>
     (\<forall>t op. op_of (sl_pc y t) = Some op \<longrightarrow> \<not> reads op) \<and>
     (\<forall>t. sl_locks y t = (if inside (sl_pc y t) then 1 else 0))"

lemma round_cases:
  assumes "\<not> reads op" "cur = 0 \<or> cur = -1"
  shows "round_of op v cur = (True, w) \<Longrightarrow> cur = 0 \<and> w = -1" "round_of op v cur = (False, w) \<Longrightarrow> w = cur"
proof -
  have "sint (-1 :: uint_t) = -1" by simp
  then have nv: "\<not> 0 < sint v \<or> v \<noteq> cur" using assms(2) by auto
  show "round_of op v cur = (True, w) \<Longrightarrow> cur = 0 \<and> w = -1" "round_of op v cur = (False, w) \<Longrightarrow> w = cur"
    using assms nv by (cases op; auto simp: spin_lock_round_def spinlock_lock_round_def spinlock_lock_noirq_round_def
        spinlock_trylock_round_def atomic_cas_def split: if_splits)+
qed

text \<open>A step that changes the place of one thread which is, before and after, outside the lock.\<close>

lemma spin_inv_move:
  assumes "spin_inv y" "\<not> inside (sl_pc y t)" "\<not> inside p" "\<And>op. op_of p = Some op \<Longrightarrow> \<not> reads op"
  shows "spin_inv (y\<lparr>sl_pc := (sl_pc y)(t := p)\<rparr>)"
proof -
  have "inside (((sl_pc y)(t := p)) u) = inside (sl_pc y u)" for u using assms(2,3) by simp
  then have "{u. inside (((sl_pc y)(t := p)) u)} = {u. inside (sl_pc y u)}" by auto
  moreover have "tested p" using assms(3) by (cases p) auto
  ultimately show ?thesis using assms unfolding spin_inv_def by auto
qed

lemma spin_inv_op: "spin_inv y \<Longrightarrow> op_of (sl_pc y t) = Some op \<Longrightarrow> \<not> reads op"
  by (simp add: spin_inv_def)

lemma spin_inv_inside:
  assumes "spin_inv y" "inside (sl_pc y t)"
  shows "sl_val y = -1" "{u. inside (sl_pc y u)} = {t}"
proof -
  have "sl_val y = -1 \<and> (\<exists>t. {u. inside (sl_pc y u)} = {t})" using assms unfolding spin_inv_def by blast
  then show "sl_val y = -1" "{u. inside (sl_pc y u)} = {t}" using assms(2) by (blast, metis mem_Collect_eq singletonD)
qed

lemma spin_inv_val: "spin_inv y \<Longrightarrow> sl_val y = 0 \<or> sl_val y = -1"
  by (auto simp: spin_inv_def)

lemma spin_step_inv:
  assumes "spin_step ops y y'" "spin_inv y" "\<forall>op \<in> ops. \<not> reads op"
  shows "spin_inv y'"
  using assms
proof (induction rule: spin_step.induct)
  case (call op y t)
  then show ?case by (intro spin_inv_move) auto
next
  case (load y t op)
  then show ?case using spin_inv_op [of y t op] by (intro spin_inv_move) auto
next
  case (got y t op v w)
  have r: "\<not> reads op" using got spin_inv_op [of y t op] by auto
  have v: "sl_val y = 0" "w = -1" using round_cases(1) [OF r spin_inv_val got(2)] got(3) by auto
  then have none: "\<not> inside (sl_pc y u)" for u using got(3) by (auto simp: spin_inv_def)
  then have "{u. inside (((sl_pc y)(t := Holding op)) u)} = {t}" by auto
  then show ?case using got v r none unfolding spin_inv_def by auto
next
  case (again y t op v w)
  have r: "\<not> reads op" using again spin_inv_op [of y t op] by auto
  have "w = sl_val y" using round_cases(2) [OF r spin_inv_val again(2)] again(4) by auto
  then show ?case using spin_inv_move [OF again(4), of t "Spinning op"] again(1) r by auto
next
  case (failed y t op v w)
  have r: "\<not> reads op" using failed spin_inv_op [of y t op] by auto
  have "w = sl_val y" using round_cases(2) [OF r spin_inv_val failed(2)] failed(4) by auto
  then show ?case using spin_inv_move [OF failed(4), of t Outside] failed(1) by auto
next
  case (test y t op)
  have v: "sl_val y = -1" using spin_inv_inside(1) [of y t] test by simp
  have "inside (((sl_pc y)(t := Releasing op n)) u) = inside (sl_pc y u)" for u n using test(1) by simp
  then have "{u. inside (((sl_pc y)(t := Releasing op n)) u)} = {u. inside (sl_pc y u)}" for n by auto
  moreover have "\<not> reads op" using test spin_inv_op [of y t op] by auto
  ultimately show ?case using test v unfolding spin_inv_def by auto
next
  case (release y t op neg)
  have i: "inside (sl_pc y t)" "neg" using release unfolding spin_inv_def by (auto dest: spec [of _ t])
  then have "{u. inside (sl_pc y u)} = {t}" using spin_inv_inside(2) release(2) by blast
  then have o: "\<not> inside (sl_pc y u)" if "u \<noteq> t" for u using that by auto
  have l: "sl_locks y u = (if inside (sl_pc y u) then 1 else 0)" for u using release(2) by (simp add: spin_inv_def)
  show ?case
    unfolding spin_inv_def using release(2) i o l by (auto simp: spinlock_unlock_store_def spin_inv_def)
qed

lemma spin_reach_inv:
  assumes "spin_reach ops spinlock_init y" "\<forall>op \<in> ops. \<not> reads op"
  shows "spin_inv y"
  using assms(1)
proof (induction rule: rtranclp_induct)
  case base
  then show ?case by (simp add: spin_inv_def spinlock_init_def)
next
  case (step y z)
  then show ?case using spin_step_inv assms(2) by blast
qed

section \<open>Properties\<close>

text \<open>C23. A spinlock used by writers only, whatever mix of \<^verbatim>\<open>spin_lock\<close>, \<^verbatim>\<open>spinlock_lock\<close>, \<^verbatim>\<open>spinlock_lock_noirq\<close>
  and \<^verbatim>\<open>spinlock_trylock\<close>, gives mutual exclusion in every interleaving of the loads, swaps and stores; the
  word is 0 exactly when nobody is inside, and \<^verbatim>\<open>locks_count\<close> counts the locks a thread holds.\<close>

theorem spinlock_exclusive:
  assumes "spin_reach {OpSpinLock, OpLock, OpLockNoirq, OpTrylock} spinlock_init y"
  shows "(inside (sl_pc y t) \<and> inside (sl_pc y u) \<longrightarrow> t = u) \<and>
    (sl_val y = 0 \<longleftrightarrow> (\<forall>t. \<not> inside (sl_pc y t))) \<and> sl_locks y t = (if inside (sl_pc y t) then 1 else 0)"
proof -
  have i: "spin_inv y" using spin_reach_inv [OF assms] by auto
  have "t = u" if "inside (sl_pc y t)" "inside (sl_pc y u)" using spin_inv_inside(2) [OF i] that by blast
  then show ?thesis using i unfolding spin_inv_def by fastforce
qed

text \<open>With readers it does not: a writer that finds two readers sets the sign bit, and then
  \<^verbatim>\<open>__spinlock_unlock\<close> of the first reader, which takes any negative word for a writer's lock, stores 0. The
  writer gets the lock while the second reader still holds it.\<close>

theorem spinlock_reader_lost:
  assumes "a \<noteq> b" "a \<noteq> c" "b \<noteq> c"
  shows "\<exists>y. spin_reach {OpLock, OpRdlock} spinlock_init y \<and>
    sl_pc y b = Holding OpRdlock \<and> sl_pc y c = Holding OpLock"
proof -
  let ?s = "spin_step {OpLock, OpRdlock}"
  define st where "st = (\<lambda>v (p :: tid \<Rightarrow> spin_pc) (l :: tid \<Rightarrow> int). \<lparr>sl_val = v, sl_pc = p, sl_locks = l\<rparr>)"
  have sv: "sint (2 :: uint_t) = 2" "sint (2 OR SL_WRITER) < 0" by code_simp+
  have enter: "\<exists>l. (?s)\<^sup>*\<^sup>* (st v p l0) (st w (p(t := Holding op)) l)"
    if "op \<in> {OpLock, OpRdlock}" "p t = Outside" "round_of op v v = (True, w)" for v p l0 t op w
  proof -
    let ?p1 = "p(t := Spinning op)" and ?p2 = "p(t := Loaded op v)"
    have "?s (st v p l0) (st v ?p1 l0)" using call [of op _ "st v p l0" t] that by (simp add: st_def)
    moreover have "?s (st v ?p1 l0) (st v ?p2 l0)" using load [of "st v ?p1 l0" t op] by (simp add: st_def)
    moreover have "?s (st v ?p2 l0) (st w (p(t := Holding op)) (l0(t := l0 t + 1)))"
      using got [of "st v ?p2 l0" t op v w] that(3) by (simp add: st_def)
    ultimately show ?thesis by (meson converse_rtranclp_into_rtranclp rtranclp.rtrancl_refl)
  qed
  define p1 where "p1 = (\<lambda>_. Outside)(a := Holding OpRdlock)"
  define p2 where "p2 = p1(b := Holding OpRdlock)"
  obtain l1 where 1: "(?s)\<^sup>*\<^sup>* spinlock_init (st 1 p1 l1)"
    using enter [of OpRdlock "\<lambda>_. Outside" a 0 1 "\<lambda>_. 0"] by (auto simp: spinlock_init_def st_def p1_def spinlock_rdlock_round_def atomic_cas_def)
  obtain l2 where 2: "(?s)\<^sup>*\<^sup>* (st 1 p1 l1) (st 2 p2 l2)"
    using enter [of OpRdlock p1 b 1 2 l1] assms by (auto simp: p1_def p2_def spinlock_rdlock_round_def atomic_cas_def)
  let ?p3 = "p2(c := Spinning OpLock)" and ?p4 = "p2(c := Loaded OpLock 2)"
  have 3: "?s (st 2 p2 l2) (st 2 ?p3 l2)" using call [of OpLock _ "st 2 p2 l2" c] assms by (simp add: st_def p2_def p1_def)
  have 4: "?s (st 2 ?p3 l2) (st 2 ?p4 l2)" using load [of "st 2 ?p3 l2" c OpLock] by (simp add: st_def)
  have 5: "?s (st 2 ?p4 l2) (st (2 OR SL_WRITER) ?p3 l2)"
    using again [of "st 2 ?p4 l2" c OpLock 2 "2 OR SL_WRITER"] sv by (simp add: st_def spinlock_lock_round_def atomic_cas_def)
  let ?p5 = "p2(c := Spinning OpLock, a := Releasing OpRdlock True)"
  have 6: "?s (st (2 OR SL_WRITER) ?p3 l2) (st (2 OR SL_WRITER) ?p5 l2)"
    using test [of "st (2 OR SL_WRITER) ?p3 l2" a OpRdlock] assms sv by (simp add: st_def p2_def p1_def)
  let ?p6 = "?p5(a := Outside)" and ?l3 = "l2(a := l2 a - 1)"
  have 7: "?s (st (2 OR SL_WRITER) ?p5 l2) (st 0 ?p6 ?l3)"
    using release [of "st (2 OR SL_WRITER) ?p5 l2" a OpRdlock True] by (simp add: st_def spinlock_unlock_store_def)
  let ?p7 = "?p6(c := Loaded OpLock 0)" and ?p8 = "?p6(c := Holding OpLock)"
  have 8: "?s (st 0 ?p6 ?l3) (st 0 ?p7 ?l3)" using load [of "st 0 ?p6 ?l3" c OpLock] assms by (simp add: st_def)
  have 9: "?s (st 0 ?p7 ?l3) (st (-1) ?p8 (?l3(c := ?l3 c + 1)))"
    using got [of "st 0 ?p7 ?l3" c OpLock 0 "-1"] by (simp add: st_def spinlock_lock_round_def atomic_cas_def)
  have "(?s)\<^sup>*\<^sup>* (st 2 p2 l2) (st (-1) ?p8 (?l3(c := ?l3 c + 1)))"
    using 3 4 5 6 7 8 9 by (meson converse_rtranclp_into_rtranclp rtranclp.rtrancl_refl)
  then have "(?s)\<^sup>*\<^sup>* spinlock_init (st (-1) ?p8 (?l3(c := ?l3 c + 1)))" using 1 2 by (meson rtranclp_trans)
  then show ?thesis using assms by (intro exI [of _ "st (-1) ?p8 (?l3(c := ?l3 c + 1))"] conjI) (simp_all add: st_def p2_def p1_def)
qed

section \<open>Witnesses\<close>

theorem spinlock_exclusive_witness:
  "\<exists>y. spin_reach {OpSpinLock, OpLock, OpLockNoirq, OpTrylock} spinlock_init y \<and> sl_pc y 3 = Spinning OpLock \<and> sl_locks y 3 = 0"
proof -
  have r: "spin_reach {OpSpinLock, OpLock, OpLockNoirq, OpTrylock} spinlock_init
      (spinlock_init\<lparr>sl_pc := (sl_pc spinlock_init)(3 := Spinning OpLock)\<rparr>)"
    by (rule r_into_rtranclp, rule call) (simp_all add: spinlock_init_def)
  show ?thesis using spinlock_exclusive [OF r, of 3 3] r
    by (intro exI [of _ "spinlock_init\<lparr>sl_pc := (sl_pc spinlock_init)(3 := Spinning OpLock)\<rparr>"]) auto
qed

theorem spinlock_reader_lost_witness:
  "\<exists>y. spin_reach {OpLock, OpRdlock} spinlock_init y \<and> sl_pc y 1 = Holding OpRdlock \<and> sl_pc y 2 = Holding OpLock"
  using spinlock_reader_lost [of 0 1 2] by auto

end
