(* ===== verification/Barrier.thy ===== *)
theory Barrier
  imports Spinlock
begin

text \<open>
  Barriers (\<^verbatim>\<open>kernel/kern/barrier.c\<close>, \<^verbatim>\<open>barrier.h\<close>) without hardware support, with event based wake-ups.
  A shared barrier (no owner) counts arrivals under its spinlock; a private one (owned by a task)
  counts them with an atomic counter. \<^verbatim>\<open>waiting\<close> and \<^verbatim>\<open>lock\<close> are the same word (a union):
  \<open>bar_word\<close>.

  The four pages of the wait queue database are one table of 2048 listeners, addressed as the code
  does it (page \<open>index / 512\<close>, record \<open>index % 512\<close>); a listener is the thread its event wakes. \<open>None\<close> is
  an access outside the table.
\<close>

abbreviation BARRIER_ID :: uint_t where "BARRIER_ID \<equiv> 0xCFA5B1A3"
abbreviation PTHREAD_BARRIER_SERIAL_THREAD :: error_t where "PTHREAD_BARRIER_SERIAL_THREAD \<equiv> 1"
abbreviation WQDB_RECORDS :: nat where "WQDB_RECORDS \<equiv> 2048"

record barrier_s =
  bar_word :: uint_t
  bar_signature :: uint_t
  bar_owner :: "nat option"
  bar_count :: uint_t
  bar_index :: uint_t
  bar_tm_first :: uint_t
  bar_tm_last :: uint_t
  bar_tbl :: "tid option list"

datatype arrival = BReturns error_t | BSleeps | BLast

text \<open>\<^verbatim>\<open>barrier_wait\<close> up to the sleep or the broadcast.\<close>

definition barrier_arrive :: "tid \<Rightarrow> nat \<Rightarrow> nat \<Rightarrow> uint_t \<Rightarrow> barrier_s \<Rightarrow> (arrival \<times> barrier_s) option" where
  "barrier_arrive this task order tm_now b =
     (let isShared = (bar_owner b = None)
      in if bar_signature b \<noteq> BARRIER_ID \<or> \<not> isShared \<and> bar_owner b \<noteq> Some task then Some (BReturns EINVAL, b)
         else
           let (index, ticket, b) =
                 (if isShared
                  then (unat (bar_index b), bar_count b - bar_index b, b\<lparr>bar_word := -1, bar_index := bar_index b + 1\<rparr>)
                  else (order, 0, b))
           in if index \<ge> WQDB_RECORDS then None
              else
                let b = b\<lparr>bar_tbl := (bar_tbl b)[index := Some this]\<rparr>;
                    (ticket, b) =
                      (if isShared then (ticket, b)
                       else let (old, word) = atomic_add (-1) (bar_word b) in (old, b\<lparr>bar_word := word\<rparr>))
                in if ticket = 1
                   then
                     let b = b\<lparr>bar_tm_last := tm_now, bar_tbl := (bar_tbl b)[index := None]\<rparr>
                     in Some (BLast,
                          if isShared
                          then b\<lparr>bar_index := 0, bar_word := spinlock_unlock_store (sint (bar_word b) < 0) (bar_word b)\<rparr>
                          else b\<lparr>bar_word := atomic_init (bar_count b) (bar_word b)\<rparr>)
                   else
                     let b = (if ticket = bar_count b then b\<lparr>bar_tm_first := tm_now\<rparr> else b)
                     in Some (BSleeps, b\<lparr>bar_word := spinlock_unlock_store (sint (bar_word b) < 0) (bar_word b)\<rparr>))"

text \<open>One round of the broadcast, at the record \<^verbatim>\<open>i\<close>: the thread to wake, if any.\<close>

definition broadcast_round :: "nat \<Rightarrow> barrier_s \<Rightarrow> tid option \<times> barrier_s" where
  "broadcast_round i b = (bar_tbl b ! i, b\<lparr>bar_tbl := (bar_tbl b)[i := None]\<rparr>)"

fun broadcast_loop :: "nat list \<Rightarrow> nat \<Rightarrow> barrier_s \<Rightarrow> tid list \<times> barrier_s" where
  "broadcast_loop [] ticket b = ([], b)"
| "broadcast_loop (i # is) ticket b =
     (if ticket < unat (bar_count b - 1)
      then (case broadcast_round i b of
              (None, b) \<Rightarrow> broadcast_loop is ticket b
            | (Some t, b) \<Rightarrow> (case broadcast_loop is (ticket + 1) b of (ts, b) \<Rightarrow> (t # ts, b)))
      else ([], b))"

definition barrier_do_broadcast :: "barrier_s \<Rightarrow> tid list \<times> barrier_s" where
  "barrier_do_broadcast b = broadcast_loop [0..<WQDB_RECORDS] 0 b"

text \<open>The whole call when no other thread interferes: its outcome and the threads it wakes. \<open>BSleeps\<close> is
  a call that sleeps, to return 0 when it is woken.\<close>

definition barrier_wait :: "tid \<Rightarrow> nat \<Rightarrow> nat \<Rightarrow> uint_t \<Rightarrow> barrier_s \<Rightarrow> (arrival \<times> tid list \<times> barrier_s) option" where
  "barrier_wait this task order tm_now b =
     map_option (\<lambda>(r, b). case r of
         BLast \<Rightarrow> (BReturns PTHREAD_BARRIER_SERIAL_THREAD, barrier_do_broadcast b)
       | _ \<Rightarrow> (r, [], b)) (barrier_arrive this task order tm_now b)"

text \<open>\<open>page i\<close> says whether the \<open>i\<close>th page allocation succeeds; \<^verbatim>\<open>AF_ZERO\<close> pages hold null listeners.\<close>

definition barrier_init :: "(nat \<Rightarrow> bool) \<Rightarrow> nat \<Rightarrow> nat \<Rightarrow> uint_t \<Rightarrow> bool \<Rightarrow> barrier_s \<Rightarrow> error_t \<times> barrier_s" where
  "barrier_init page current_task threads_limit count private b =
     (if count = 0 then (EINVAL, b)
      else if threads_limit > WQDB_RECORDS then (ENOMEM, b)
      else if unat count > WQDB_RECORDS then (ENOMEM, b)
      else
        let b = b\<lparr>bar_owner := (if private then Some current_task else None)\<rparr>;
            b = (if private then b\<lparr>bar_word := atomic_init count (bar_word b)\<rparr>
                 else b\<lparr>bar_word := 0, bar_index := 0\<rparr>)
        in if \<not> list_all page [0..<4] then (ENOMEM, b)
           else (0, b\<lparr>bar_tbl := replicate WQDB_RECORDS None, bar_count := count, bar_signature := BARRIER_ID\<rparr>))"

definition barrier_destroy :: "nat \<Rightarrow> barrier_s \<Rightarrow> error_t \<times> barrier_s" where
  "barrier_destroy current_task b =
     (if bar_signature b \<noteq> BARRIER_ID then (EINVAL, b)
      else if bar_owner b \<noteq> None \<and> bar_owner b \<noteq> Some current_task then (EINVAL, b)
      else let cntr = (if bar_owner b = None then bar_index b else atomic_get (bar_word b))
           in if cntr \<noteq> 0 then (EBUSY, b) else (0, b\<lparr>bar_signature := 0\<rparr>))"

section \<open>Interleavings of a shared barrier\<close>

text \<open>The last thread of a round has given the lock back when it starts to wake the others, so they may
  arrive again while it does. \<open>bs_done\<close> counts the calls a thread has completed.\<close>

datatype bar_pc = BOut | BAsleep | BCasting nat nat

record bar_sys =
  bs_bar :: barrier_s
  bs_pc :: "tid \<Rightarrow> bar_pc"
  bs_done :: "tid \<Rightarrow> nat"

inductive bar_step :: "tid set \<Rightarrow> bar_sys \<Rightarrow> bar_sys \<Rightarrow> bool" for P where
  sleep: "t \<in> P \<Longrightarrow> bs_pc y t = BOut \<Longrightarrow> barrier_arrive t task order tm (bs_bar y) = Some (BSleeps, b) \<Longrightarrow>
    bar_step P y (y\<lparr>bs_bar := b, bs_pc := (bs_pc y)(t := BAsleep)\<rparr>)"
| last: "t \<in> P \<Longrightarrow> bs_pc y t = BOut \<Longrightarrow> barrier_arrive t task order tm (bs_bar y) = Some (BLast, b) \<Longrightarrow>
    bar_step P y (y\<lparr>bs_bar := b, bs_pc := (bs_pc y)(t := BCasting 0 0)\<rparr>)"
| skip: "bs_pc y t = BCasting i k \<Longrightarrow> i < WQDB_RECORDS \<Longrightarrow> k < unat (bar_count (bs_bar y) - 1) \<Longrightarrow>
    broadcast_round i (bs_bar y) = (None, b) \<Longrightarrow>
    bar_step P y (y\<lparr>bs_bar := b, bs_pc := (bs_pc y)(t := BCasting (i + 1) k)\<rparr>)"
| wake: "bs_pc y t = BCasting i k \<Longrightarrow> i < WQDB_RECORDS \<Longrightarrow> k < unat (bar_count (bs_bar y) - 1) \<Longrightarrow>
    broadcast_round i (bs_bar y) = (Some u, b) \<Longrightarrow>
    bar_step P y (y\<lparr>bs_bar := b, bs_pc := (bs_pc y)(t := BCasting (i + 1) (k + 1), u := BOut),
      bs_done := (bs_done y)(u := bs_done y u + 1)\<rparr>)"
| finish: "bs_pc y t = BCasting i k \<Longrightarrow> \<not> (i < WQDB_RECORDS \<and> k < unat (bar_count (bs_bar y) - 1)) \<Longrightarrow>
    bar_step P y (y\<lparr>bs_pc := (bs_pc y)(t := BOut), bs_done := (bs_done y)(t := bs_done y t + 1)\<rparr>)"

abbreviation bar_reach :: "tid set \<Rightarrow> bar_sys \<Rightarrow> bar_sys \<Rightarrow> bool" where "bar_reach P \<equiv> (bar_step P)\<^sup>*\<^sup>*"

definition bar_start :: "barrier_s \<Rightarrow> bar_sys" where
  "bar_start b = \<lparr>bs_bar = b, bs_pc = (\<lambda>_. BOut), bs_done = (\<lambda>_. 0)\<rparr>"

definition started :: "bar_sys \<Rightarrow> tid \<Rightarrow> nat" where
  "started y t = bs_done y t + (if bs_pc y t = BOut then 0 else 1)"

section \<open>The invariant\<close>

definition bar_ok :: "tid set \<Rightarrow> barrier_s \<Rightarrow> bool" where
  "bar_ok P b \<longleftrightarrow> bar_signature b = BARRIER_ID \<and> bar_owner b = None \<and> finite P \<and> card P = unat (bar_count b) \<and>
     0 < unat (bar_count b) \<and> unat (bar_count b) \<le> WQDB_RECORDS \<and> length (bar_tbl b) = WQDB_RECORDS"

text \<open>The table: the threads of the current round from the start, and those still to be woken from \<open>i\<close> on.\<close>

definition table :: "tid list \<Rightarrow> nat \<Rightarrow> tid list \<Rightarrow> nat \<Rightarrow> tid option" where
  "table new i old j = (if j < length new then Some (new ! j) else if i \<le> j \<and> j < i + length old then Some (old ! (j - i)) else None)"

definition holds :: "barrier_s \<Rightarrow> tid list \<Rightarrow> nat \<Rightarrow> tid list \<Rightarrow> bool" where
  "holds b new i old \<longleftrightarrow> unat (bar_index b) = length new \<and> (\<forall>j < WQDB_RECORDS. bar_tbl b ! j = table new i old j)"

definition quiet :: "tid set \<Rightarrow> bar_sys \<Rightarrow> tid list \<Rightarrow> nat \<Rightarrow> bool" where
  "quiet P y new k \<longleftrightarrow> distinct new \<and> set new \<subseteq> P \<and> length new < card P \<and> holds (bs_bar y) new 0 [] \<and>
     (\<forall>t. bs_pc y t = (if t \<in> set new then BAsleep else BOut)) \<and> (\<forall>t \<in> P. bs_done y t = k)"

definition casting :: "tid set \<Rightarrow> bar_sys \<Rightarrow> tid \<Rightarrow> nat \<Rightarrow> tid list \<Rightarrow> tid list \<Rightarrow> nat \<Rightarrow> bool" where
  "casting P y c i new old k \<longleftrightarrow> distinct (c # new @ old) \<and> set (c # new @ old) \<subseteq> P \<and> i + length old = card P - 1 \<and>
     length new \<le> i \<and> holds (bs_bar y) new i old \<and>
     (\<forall>t. bs_pc y t = (if t = c then BCasting i i else if t \<in> set (new @ old) then BAsleep else BOut)) \<and>
     (\<forall>t \<in> P. bs_done y t = (if t = c \<or> t \<in> set old then k else k + 1))"

definition bar_inv :: "tid set \<Rightarrow> bar_sys \<Rightarrow> bool" where
  "bar_inv P y \<longleftrightarrow> bar_ok P (bs_bar y) \<and> ((\<exists>new k. quiet P y new k) \<or> (\<exists>c i new old k. casting P y c i new old k))"

lemma arrive_shared:
  assumes "bar_ok P b" "unat (bar_index b) < card P" "barrier_arrive t task order tm b = Some (r, b')"
  shows "r = (if unat (bar_index b) + 1 = card P then BLast else BSleeps)" "bar_ok P b'"
    "r = BSleeps \<Longrightarrow> unat (bar_index b') = unat (bar_index b) + 1 \<and> bar_tbl b' = (bar_tbl b)[unat (bar_index b) := Some t]"
    "r = BLast \<Longrightarrow> bar_index b' = 0 \<and> bar_tbl b' = (bar_tbl b)[unat (bar_index b) := None]"
proof -
  let ?i = "bar_index b" and ?n = "bar_count b"
  have o: "bar_signature b = BARRIER_ID" "bar_owner b = None" "unat ?i < unat ?n" "unat ?n \<le> WQDB_RECORDS" "card P = unat ?n"
    using assms(1,2) by (auto simp: bar_ok_def)
  have "unat (?n - ?i) = unat ?n - unat ?i" using o(3) by (simp add: unat_sub word_le_nat_alt)
  then have t: "?n - ?i = 1 \<longleftrightarrow> unat ?i + 1 = card P" using o(3,5) by (auto simp: word_unat_eq_iff)
  have u: "unat (?i + 1) = unat ?i + 1" using o(3,4) by (simp add: unat_word_ariths)
  have x: "\<not> WQDB_RECORDS \<le> unat ?i" using o(3,4) by linarith
  show "r = (if unat ?i + 1 = card P then BLast else BSleeps)" "bar_ok P b'"
    "r = BSleeps \<Longrightarrow> unat (bar_index b') = unat ?i + 1 \<and> bar_tbl b' = (bar_tbl b)[unat ?i := Some t]"
    "r = BLast \<Longrightarrow> bar_index b' = 0 \<and> bar_tbl b' = (bar_tbl b)[unat ?i := None]"
    using assms(1,3) o(1,2) t u x unfolding barrier_arrive_def bar_ok_def by (auto simp: Let_def split: if_splits)
qed

lemma bar_ok_count: "bar_ok P b \<Longrightarrow> unat (bar_count b - 1) = card P - 1"
  unfolding bar_ok_def by (cases "bar_count b = 0") (simp_all add: unat_minus_one)

lemma holds_arrive:
  assumes "holds b new i old" "length new \<le> i \<or> old = []" "length new < WQDB_RECORDS" "length (bar_tbl b) = WQDB_RECORDS"
    "unat (bar_index b') = unat (bar_index b) + 1" "bar_tbl b' = (bar_tbl b)[unat (bar_index b) := Some t]"
    "length new < i \<or> old = []"
  shows "holds b' (new @ [t]) i old"
  using assms unfolding holds_def table_def by (auto simp: nth_list_update nth_append less_Suc_eq)

lemma holds_last:
  assumes "holds b new 0 []" "length new < WQDB_RECORDS" "length (bar_tbl b) = WQDB_RECORDS"
    "bar_index b' = 0" "bar_tbl b' = (bar_tbl b)[unat (bar_index b) := None]"
  shows "holds b' [] 0 new"
  using assms unfolding holds_def table_def by (auto simp: nth_list_update)

lemma holds_wake:
  assumes "holds b new i (u # old)" "length new \<le> i" "i < WQDB_RECORDS" "length (bar_tbl b) = WQDB_RECORDS"
  shows "bar_tbl b ! i = Some u" "holds (b\<lparr>bar_tbl := (bar_tbl b)[i := None]\<rparr>) new (i + 1) old"
  using assms unfolding holds_def table_def by (auto simp: nth_list_update)

text \<open>The threads that are neither casting nor still to be woken are few enough.\<close>

lemma casting_room:
  assumes "bar_ok P (bs_bar y)" "casting P y c i new old k" "t \<in> P" "bs_pc y t = BOut"
  shows "length new + 1 \<le> i" "t \<notin> set (c # new @ old)"
proof -
  have c: "distinct (c # new @ old)" "set (c # new @ old) \<subseteq> P" "i + length old = card P - 1" "finite P"
    using assms(1,2) by (auto simp: casting_def bar_ok_def)
  show t: "t \<notin> set (c # new @ old)" using assms(2,4) unfolding casting_def by (auto split: if_splits)
  then have "card (set (t # c # new @ old)) = length (t # c # new @ old)" using c(1) distinct_card [of "t # c # new @ old"] by simp
  moreover have "card (set (t # c # new @ old)) \<le> card P" using c(2,4) assms(3) by (intro card_mono) auto
  ultimately show "length new + 1 \<le> i" using c(3) by simp
qed

lemma bar_step_quiet:
  assumes "bar_step P y y'" "bar_ok P (bs_bar y)" "quiet P y new k"
  shows "bar_inv P y'"
  using assms
proof (induction rule: bar_step.induct)
  case (sleep t y task order tm b)
  have q: "unat (bar_index (bs_bar y)) = length new" "length new < card P" "card P \<le> WQDB_RECORDS"
    "length (bar_tbl (bs_bar y)) = WQDB_RECORDS" "holds (bs_bar y) new 0 []"
    using sleep by (auto simp: quiet_def holds_def bar_ok_def)
  note a = arrive_shared [OF sleep(4) _ sleep(3)]
  have b: "bar_ok P b" "length new + 1 \<noteq> card P" "unat (bar_index b) = length new + 1"
    "bar_tbl b = (bar_tbl (bs_bar y))[length new := Some t]" using a q by (auto split: if_splits)
  have h: "holds b (new @ [t]) 0 []" using holds_arrive [OF q(5), of b t] b q by simp
  have "t \<notin> set new" using sleep(2,5) by (auto simp: quiet_def)
  then have "quiet P (y\<lparr>bs_bar := b, bs_pc := (bs_pc y)(t := BAsleep)\<rparr>) (new @ [t]) k"
    using sleep(1,5) h b(2) q(2) by (auto simp: quiet_def)
  then show ?case using b(1) by (auto simp: bar_inv_def)
next
  case (last t y task order tm b)
  have q: "unat (bar_index (bs_bar y)) = length new" "length new < card P" "card P \<le> WQDB_RECORDS"
    "length (bar_tbl (bs_bar y)) = WQDB_RECORDS" "holds (bs_bar y) new 0 []"
    using last by (auto simp: quiet_def holds_def bar_ok_def)
  note a = arrive_shared [OF last(4) _ last(3)]
  have b: "bar_ok P b" "length new + 1 = card P" "bar_index b = 0"
    "bar_tbl b = (bar_tbl (bs_bar y))[length new := None]" using a q by (auto split: if_splits)
  have h: "holds b [] 0 new" using holds_last [OF q(5), of b] b q by simp
  have n: "t \<notin> set new" using last(2,5) by (auto simp: quiet_def)
  have "card (set (t # new)) = card P" using n last(5) b(2) distinct_card [of "t # new"] by (simp add: quiet_def)
  then have all: "set (t # new) = P" using last(1,5) b(1) by (intro card_subset_eq) (auto simp: quiet_def bar_ok_def)
  have "casting P (y\<lparr>bs_bar := b, bs_pc := (bs_pc y)(t := BCasting 0 0)\<rparr>) t 0 [] new k"
    using last(5) h b(2) n all by (auto simp: casting_def quiet_def)
  then show ?case using b(1) by (auto simp: bar_inv_def)
qed (auto simp: quiet_def split: if_splits)

lemma bar_step_casting:
  assumes "bar_step P y y'" "bar_ok P (bs_bar y)" "casting P y c i new old k"
  shows "bar_inv P y'"
  using assms
proof (induction rule: bar_step.induct)
  case (sleep t y task order tm b)
  note room = casting_room [OF sleep(4,5,1,2)]
  have q: "unat (bar_index (bs_bar y)) = length new" "i + length old = card P - 1" "card P \<le> WQDB_RECORDS" "0 < card P"
    "length (bar_tbl (bs_bar y)) = WQDB_RECORDS" "holds (bs_bar y) new i old"
    using sleep by (auto simp: casting_def holds_def bar_ok_def)
  note a = arrive_shared [OF sleep(4) _ sleep(3)]
  have b: "bar_ok P b" "unat (bar_index b) = length new + 1"
    "bar_tbl b = (bar_tbl (bs_bar y))[length new := Some t]" using a q room(1) by (auto split: if_splits)
  have h: "holds b (new @ [t]) i old" using holds_arrive [OF q(6), of b t] b q room(1) by simp
  have "casting P (y\<lparr>bs_bar := b, bs_pc := (bs_pc y)(t := BAsleep)\<rparr>) c i (new @ [t]) old k"
    using sleep(1,5) h room by (auto simp: casting_def)
  then show ?case using b(1) by (auto simp: bar_inv_def)
next
  case (last t y task order tm b)
  note room = casting_room [OF last(4,5,1,2)]
  have q: "unat (bar_index (bs_bar y)) = length new" "i + length old = card P - 1" "0 < card P"
    using last by (auto simp: casting_def holds_def bar_ok_def)
  then have "length new < card P" "length new + 1 \<noteq> card P" using room(1) by linarith+
  then show ?case using arrive_shared(1) [OF last(4) _ last(3)] q(1) by auto
next
  case (skip y t j l b)
  have c: "t = c" "j = i" "l = i" using skip(1,6) by (auto simp: casting_def split: if_splits)
  have "old \<noteq> []" using skip(3,6) c bar_ok_count [OF skip(5)] by (auto simp: casting_def)
  then obtain u old' where o: "old = u # old'" by (cases old) auto
  have "bar_tbl (bs_bar y) ! i = Some u"
    using holds_wake(1) [of "bs_bar y" new i u old'] skip(2,5,6) o c by (simp add: casting_def bar_ok_def)
  then show ?case using skip(4) c by (simp add: broadcast_round_def)
next
  case (wake y t j l u b)
  have c: "t = c" "j = i" "l = i" using wake(1,6) by (auto simp: casting_def split: if_splits)
  have "old \<noteq> []" using wake(3,6) c bar_ok_count [OF wake(5)] by (auto simp: casting_def)
  then obtain v old' where o: "old = v # old'" by (cases old) auto
  have w: "bar_tbl (bs_bar y) ! i = Some v" "holds (bs_bar y\<lparr>bar_tbl := (bar_tbl (bs_bar y))[i := None]\<rparr>) new (i + 1) old'"
    using holds_wake [of "bs_bar y" new i v old'] wake(2,5,6) o c by (simp_all add: casting_def bar_ok_def)
  have ub: "u = v" "b = bs_bar y\<lparr>bar_tbl := (bar_tbl (bs_bar y))[i := None]\<rparr>" using wake(4) w(1) c by (auto simp: broadcast_round_def)
  have "casting P (y\<lparr>bs_bar := b, bs_pc := (bs_pc y)(t := BCasting (j + 1) (l + 1), u := BOut),
      bs_done := (bs_done y)(u := bs_done y u + 1)\<rparr>) c (i + 1) new old' k"
    using wake(6) w(2) o ub c unfolding casting_def by auto
  moreover have "bar_ok P b" using wake(5) ub by (simp add: bar_ok_def)
  ultimately show ?case by (auto simp: bar_inv_def)
next
  case (finish y t j l)
  have c: "t = c" "j = i" "l = i" using finish(1,4) by (auto simp: casting_def split: if_splits)
  have "unat (bar_count (bs_bar y) - 1) = card P - 1" "card P \<le> WQDB_RECORDS" "0 < card P"
    using bar_ok_count [OF finish(3)] finish(3) by (auto simp: bar_ok_def)
  moreover from this have "\<not> i < card P - 1" using finish(2) c by auto
  moreover have "i + length old = card P - 1" "length new \<le> i" using finish(4) by (simp_all add: casting_def)
  ultimately have "length old = 0" "length new < card P" by linarith+
  then have o: "old = []" "length new < card P" by simp_all
  have h: "holds (bs_bar y) new 0 []" using finish(4) o(1) by (simp add: casting_def holds_def table_def)
  have "quiet P (y\<lparr>bs_pc := (bs_pc y)(t := BOut), bs_done := (bs_done y)(t := bs_done y t + 1)\<rparr>) new (k + 1)"
    using finish(4) o h c unfolding casting_def quiet_def by auto
  then show ?case using finish(3) by (auto simp: bar_inv_def)
qed

lemma bar_reach_inv:
  assumes "bar_reach P y0 y" "bar_inv P y0"
  shows "bar_inv P y"
  using assms
proof (induction rule: rtranclp_induct)
  case (step y z)
  then show ?case using bar_step_quiet [OF step(2)] bar_step_casting [OF step(2)] unfolding bar_inv_def by blast
qed

lemma bar_start_inv:
  assumes "barrier_init page task limit count False b0 = (0, b)" "finite P" "card P = unat count"
  shows "bar_inv P (bar_start b)"
proof -
  have b: "bar_signature b = BARRIER_ID" "bar_owner b = None" "bar_count b = count" "bar_tbl b = replicate WQDB_RECORDS None"
    "bar_index b = 0" "unat count \<le> WQDB_RECORDS" "count \<noteq> 0"
    using assms(1) by (auto simp: barrier_init_def Let_def split: if_splits)
  have "0 < card P" using b(7) assms(3) by (simp add: unat_gt_0)
  moreover have "bar_ok P b" using b assms(2,3) by (simp add: bar_ok_def unat_gt_0)
  moreover have "holds b [] 0 []" using b by (simp add: holds_def table_def)
  ultimately have "quiet P (bar_start b) [] 0" by (simp add: quiet_def bar_start_def)
  then show ?thesis using \<open>bar_ok P b\<close> by (auto simp: bar_inv_def bar_start_def)
qed

section \<open>Properties\<close>

text \<open>C24. A shared barrier of \<open>count\<close> used by as many threads, in every interleaving of their arrivals with the
  wake-ups of a broadcast that is still under way: no thread completes its nth wait before every thread
  has started its nth one, and the threads never are all asleep.\<close>

theorem barrier_shared_correct:
  assumes "barrier_init page task limit count False b0 = (0, b)" "finite P" "card P = unat count"
    "bar_reach P (bar_start b) y" "t \<in> P" "u \<in> P"
  shows "bs_done y t \<le> started y u \<and> (\<exists>v \<in> P. bs_pc y v \<noteq> BAsleep)"
proof -
  have "bar_inv P y" using bar_reach_inv [OF assms(4) bar_start_inv [OF assms(1-3)]] .
  then consider (q) new k where "quiet P y new k" | (c) c i new old k where "casting P y c i new old k" "bar_ok P (bs_bar y)"
    by (auto simp: bar_inv_def)
  then show ?thesis
  proof cases
    case q
    have "\<not> P \<subseteq> set new" using q card_mono [of "set new" P] card_length [of new] unfolding quiet_def by fastforce
    then show ?thesis using q assms(5,6) unfolding quiet_def started_def by auto
  next
    case c
    then have "bs_pc y c \<noteq> BAsleep" "c \<in> P" unfolding casting_def by auto
    moreover have "bs_done y t \<le> k + 1" "k + 1 \<le> started y u" using c assms(5,6) unfolding casting_def started_def by auto
    ultimately show ?thesis by (meson le_trans)
  qed
qed

text \<open>A private barrier does not work: its counter shares the word of the spinlock that a thread going to
  sleep releases without having taken it, so each sleeper counts twice. With a count of two both threads
  go to sleep; with a count of three the second thread is taken for the last.\<close>

theorem barrier_private_broken:
  assumes "barrier_init page task limit count True b0 = (0, b)" "i < WQDB_RECORDS" "j < WQDB_RECORDS"
  shows "\<exists>b1. barrier_wait t task i tm b = Some (if count = 1 then (BReturns PTHREAD_BARRIER_SERIAL_THREAD, [], b1) else (BSleeps, [], b1)) \<and>
    (count = 2 \<longrightarrow> (\<exists>b2. barrier_wait u task j tm' b1 = Some (BSleeps, [], b2))) \<and>
    (count = 3 \<longrightarrow> (\<exists>ts b2. barrier_wait u task j tm' b1 = Some (BReturns PTHREAD_BARRIER_SERIAL_THREAD, ts, b2)))"
proof -
  have b: "bar_signature b = BARRIER_ID" "bar_owner b = Some task" "bar_word b = count" "bar_count b = count"
    using assms(1) by (auto simp: barrier_init_def atomic_init_def Let_def split: if_splits)
  show ?thesis
  proof (cases "count = 1")
    case True
    have "broadcast_loop is k x = ([], x)" if "bar_count x = 1" for "is" k x using that by (cases "is") simp_all
    then show ?thesis using b assms(2) True
      by (simp add: barrier_wait_def barrier_arrive_def barrier_do_broadcast_def atomic_add_def atomic_init_def Let_def)
  next
    case False
    define w where "w = spinlock_unlock_store (sint (count - 1) < 0) (count - 1)"
    obtain b1 where b1: "barrier_wait t task i tm b = Some (BSleeps, [], b1)" "bar_signature b1 = BARRIER_ID"
      "bar_owner b1 = Some task" "bar_word b1 = w" "bar_count b1 = count"
      using b assms(2) False by (simp add: barrier_wait_def barrier_arrive_def atomic_add_def Let_def w_def)
    have "sint (1 :: uint_t) = 1" "sint (2 :: uint_t) = 2" by code_simp+
    then have "count = 2 \<Longrightarrow> w = 0" "count = 3 \<Longrightarrow> w = 1" by (simp_all add: w_def spinlock_unlock_store_def atomic_add_def)
    then have "count = 2 \<longrightarrow> (\<exists>b2. barrier_wait u task j tm' b1 = Some (BSleeps, [], b2))"
      "count = 3 \<longrightarrow> (\<exists>ts b2. barrier_wait u task j tm' b1 = Some (BReturns PTHREAD_BARRIER_SERIAL_THREAD, ts, b2))"
      using b1 assms(3) by (auto simp: barrier_wait_def barrier_arrive_def atomic_add_def Let_def)
    then show ?thesis using b1(1) False by auto
  qed
qed

section \<open>Witnesses\<close>

definition demo_barrier :: barrier_s where
  "demo_barrier = \<lparr>bar_word = 0, bar_signature = 0, bar_owner = None, bar_count = 0, bar_index = 0, bar_tm_first = 0,
     bar_tm_last = 0, bar_tbl = []\<rparr>"

theorem barrier_shared_correct_witness:
  "\<exists>b y. barrier_init (\<lambda>_. True) 5 100 2 False demo_barrier = (0, b) \<and> bar_reach {3, 4} (bar_start b) y \<and>
     bs_pc y 3 = BAsleep \<and> bs_pc y 4 \<noteq> BAsleep"
proof -
  obtain b where b: "barrier_init (\<lambda>_. True) 5 100 2 False demo_barrier = (0, b)"
    by (simp add: barrier_init_def Let_def list_all_iff)
  then have f: "bar_signature b = BARRIER_ID" "bar_owner b = None" "bar_count b = 2" "bar_index b = 0"
    by (auto simp: barrier_init_def Let_def split: if_splits)
  obtain b' where a: "barrier_arrive 3 5 0 9 b = Some (BSleeps, b')" using f by (simp add: barrier_arrive_def Let_def)
  define y where "y = (bar_start b)\<lparr>bs_bar := b', bs_pc := (bs_pc (bar_start b))(3 := BAsleep)\<rparr>"
  have "bar_step {3, 4} (bar_start b) y" unfolding y_def
    by (rule sleep [where task = 5 and order = 0 and tm = 9]) (use a in \<open>simp_all add: bar_start_def\<close>)
  then have r: "bar_reach {3, 4} (bar_start b) y" by (rule r_into_rtranclp)
  have "bs_pc y 3 = BAsleep" by (simp add: y_def)
  then show ?thesis using barrier_shared_correct [OF b _ _ r, of 3 4] b r by auto
qed

theorem barrier_private_broken_witness:
  "\<exists>b b1 b2. barrier_init (\<lambda>_. True) 5 100 2 True demo_barrier = (0, b) \<and>
     barrier_wait 3 5 0 9 b = Some (BSleeps, [], b1) \<and> barrier_wait 4 5 1 9 b1 = Some (BSleeps, [], b2)"
proof -
  obtain b where b: "barrier_init (\<lambda>_. True) 5 100 2 True demo_barrier = (0, b)"
    by (simp add: barrier_init_def Let_def list_all_iff)
  show ?thesis using barrier_private_broken [OF b, of 0 1 3 9 4 9] b by auto
qed

end
