(* ===== verification/Sched.thy ===== *)
theory Sched
  imports Bits
begin

text \<open>
  The scheduler of a processor (\<^verbatim>\<open>kernel/kern/scheduler.c\<close>, \<^verbatim>\<open>scheduler.h\<close>) and its round-robin policy
  (\<^verbatim>\<open>kernel/kern/rr-sched.c\<close>), in the configuration with event ports instead of scheduler locks and with
  load balancing.

  The state is that of one processor: its three queues, the counters at their widths, the table of
  event ports, the running thread and the descriptors of the threads, known by their addresses. A
  scheduling event is a word with the address of a thread (a multiple of 4096) and an operation in the
  low 12 bits. All functions run with interrupts disabled on their processor. Other processors only
  store events into the ports. \<open>None\<close> is the use of an empty list as if it had an element.
\<close>

abbreviation RR_QUANTUM :: int where "RR_QUANTUM \<equiv> 4"
abbreviation CONFIG_CPU_BALANCING_PERIOD :: uint_t where "CONFIG_CPU_BALANCING_PERIOD \<equiv> 4"
abbreviation SCHED_THREADS_NR :: nat where "SCHED_THREADS_NR \<equiv> 32"
abbreviation SCHED_OP_WAKEUP :: uint_t where "SCHED_OP_WAKEUP \<equiv> 0x100"
abbreviation SCHED_OP_UWAKEUP :: uint_t where "SCHED_OP_UWAKEUP \<equiv> 0x101"
abbreviation SCHED_OP_ADD_CREATED :: uint_t where "SCHED_OP_ADD_CREATED \<equiv> 0x200"
abbreviation SCHED_OP_MASK :: uint_t where "SCHED_OP_MASK \<equiv> 0xFFF"
abbreviation ERANGE :: error_t where "ERANGE \<equiv> 34"

abbreviation TH_NEED_TO_SCHED :: uint_t where "TH_NEED_TO_SCHED \<equiv> 0x001"
abbreviation TH_CAN_WAKEUP :: uint_t where "TH_CAN_WAKEUP \<equiv> 0x008"
abbreviation TH_CAP_WAKEUP :: uint_t where "TH_CAP_WAKEUP \<equiv> 0x010"
abbreviation TH_NEED_TO_MIGRATE :: uint_t where "TH_NEED_TO_MIGRATE \<equiv> 0x020"
abbreviation TH_CAN_MIGRATE :: uint_t where "TH_CAN_MIGRATE \<equiv> 0x040"
abbreviation TH_EXPORTED :: uint_t where "TH_EXPORTED \<equiv> 0x100"
abbreviation TH_IMPORTED :: uint_t where "TH_IMPORTED \<equiv> 0x200"
abbreviation TH_FORCED_YIELD :: uint_t where "TH_FORCED_YIELD \<equiv> 0x400"

datatype thread_type_t = PTHREAD | KTHREAD | TH_IDLE | TH_BOOT
datatype thread_state_t = S_CREATE | S_USR | S_KERNEL | S_READY | S_WAIT | S_DEAD

record thread_s =
  th_type :: thread_type_t
  th_state :: thread_state_t
  th_flags :: uint_t
  th_quantum :: int
  th_boosted_prio :: int
  th_ticks_nr :: uint_t
  th_ltid :: nat

record sched_cpu =
  sc_threads :: "uint_t \<Rightarrow> thread_s"
  sc_this :: uint_t
  sc_idle :: uint_t
  sc_kthreads :: "uint_t list"
  sc_runnable :: "uint_t list"
  sc_migrate :: "uint_t list"
  sc_count :: uint_t
  sc_rq_u_runnable :: uint_t
  sc_rq_m_runnable :: uint_t
  sc_clock_cntr :: uint_t
  sc_period :: uint_t
  sc_total_nr :: "16 word"
  sc_user_nr :: "16 word"
  sc_u_runnable :: "16 word"
  sc_k_runnable :: "16 word"
  sc_bitmap :: bitmap_t
  sc_next :: nat
  sc_ports :: "(uint_t \<times> uint_t) list"
  sc_active :: bool

definition upd_th :: "uint_t \<Rightarrow> (thread_s \<Rightarrow> thread_s) \<Rightarrow> sched_cpu \<Rightarrow> sched_cpu" where
  "upd_th t f s = s\<lparr>sc_threads := (sc_threads s)(t := f (sc_threads s t))\<rparr>"

definition set_flag :: "uint_t \<Rightarrow> thread_s \<Rightarrow> thread_s" where
  "set_flag f th = th\<lparr>th_flags := th_flags th OR f\<rparr>"

definition clear_flag :: "uint_t \<Rightarrow> thread_s \<Rightarrow> thread_s" where
  "clear_flag f th = th\<lparr>th_flags := th_flags th AND NOT f\<rparr>"

abbreviation has_flag :: "uint_t \<Rightarrow> thread_s \<Rightarrow> bool" where
  "has_flag f th \<equiv> th_flags th AND f \<noteq> 0"

section \<open>The round-robin policy\<close>

text \<open>The loop of \<^verbatim>\<open>rr_sched_load_balance\<close> over the runnable threads, with the best victim so far.\<close>

fun balance_loop :: "uint_t list \<Rightarrow> uint_t \<Rightarrow> int \<Rightarrow> sched_cpu \<Rightarrow> uint_t \<times> int \<times> sched_cpu" where
  "balance_loop [] victim mx s = (victim, mx, s)"
| "balance_loop (thread # rest) victim mx s =
     (let th = sc_threads s thread
      in if has_flag TH_EXPORTED th \<or> \<not> has_flag TH_CAN_MIGRATE th then balance_loop rest victim mx s
         else
           let (victim, mx) = (if th_boosted_prio th > mx then (thread, th_boosted_prio th) else (victim, mx));
               s = upd_th thread (\<lambda>th. clear_flag TH_NEED_TO_MIGRATE (th\<lparr>th_boosted_prio := th_boosted_prio th div 2\<rparr>)) s
           in balance_loop rest victim mx s)"

definition rr_sched_load_balance :: "uint_t \<Rightarrow> sched_cpu \<Rightarrow> sched_cpu" where
  "rr_sched_load_balance this s =
     (let th = sc_threads s this;
          mx = (if \<not> has_flag TH_EXPORTED th \<and> has_flag TH_CAN_MIGRATE th then th_boosted_prio th else -1);
          s = upd_th this (\<lambda>th. clear_flag TH_NEED_TO_MIGRATE (th\<lparr>th_boosted_prio := th_boosted_prio th div 2\<rparr>)) s;
          (victim, mx, s) = balance_loop (sc_runnable s) this mx s
      in if mx \<ge> 0 \<and> (th_type (sc_threads s this) = PTHREAD \<or> sc_rq_u_runnable s > 0)
         then
           let s = upd_th victim (set_flag TH_NEED_TO_MIGRATE) s
           in if victim \<noteq> this
              then s\<lparr>sc_runnable := remove1 victim (sc_runnable s), sc_migrate := sc_migrate s @ [victim],
                     sc_rq_m_runnable := sc_rq_m_runnable s + 1, sc_rq_u_runnable := sc_rq_u_runnable s - 1\<rparr>
              else s
         else s)"

definition rr_clock :: "uint_t \<Rightarrow> sched_cpu \<Rightarrow> sched_cpu" where
  "rr_clock this s =
     (let s = upd_th this (\<lambda>th. if th_quantum th > 0 then th\<lparr>th_quantum := th_quantum th - 1\<rparr> else th) s
      in if th_quantum (sc_threads s this) = 0 \<and> th_type (sc_threads s this) \<noteq> TH_IDLE
         then upd_th this (set_flag TH_NEED_TO_SCHED) s else s)"

text \<open>The usage of the processor and the loads of the two levels above it and of the root of the load tree
  (\<^verbatim>\<open>dqdt\<close>) are arguments.\<close>

definition rr_clock_balancing :: "nat \<Rightarrow> nat \<Rightarrow> nat \<Rightarrow> nat \<Rightarrow> uint_t \<Rightarrow> sched_cpu \<Rightarrow> sched_cpu" where
  "rr_clock_balancing usage U1 U2 U_root this s =
     (let s = rr_clock this s;
          cond1 = (usage \<ge> 150 \<and> sc_rq_u_runnable s > 0 \<and> sc_user_nr s > 1);
          cond2 = (U1 \<le> 90 \<or> U2 \<le> 95);
          cond3 = (cond1 \<and> cond2);
          s = s\<lparr>sc_clock_cntr := sc_clock_cntr s + (if cond3 then drop_bit 1 (sc_period s) else 1)\<rparr>;
          s = (if sc_clock_cntr s \<ge> sc_period s
               then let s = s\<lparr>sc_clock_cntr := 0\<rparr>
                    in if cond1 \<and> U_root < 100 then rr_sched_load_balance this s else s
               else s)
      in if sc_rq_m_runnable s > 0 \<and> \<not> has_flag TH_EXPORTED (sc_threads s this)
         then upd_th this (\<lambda>th. (set_flag TH_NEED_TO_SCHED th)\<lparr>th_quantum := 0\<rparr>) s
         else s)"

definition rr_remove :: "uint_t \<Rightarrow> sched_cpu \<Rightarrow> sched_cpu" where
  "rr_remove this s = s\<lparr>sc_total_nr := sc_total_nr s - 1, sc_user_nr := sc_user_nr s - 1\<rparr>"

definition rr_exit :: "uint_t \<Rightarrow> sched_cpu \<Rightarrow> sched_cpu" where
  "rr_exit this s =
     (let s = s\<lparr>sc_total_nr := sc_total_nr s - 1\<rparr>;
          s = (if th_type (sc_threads s this) = PTHREAD then s\<lparr>sc_user_nr := sc_user_nr s - 1\<rparr> else s)
      in upd_th this (\<lambda>th. th\<lparr>th_state := S_DEAD\<rparr>) s)"

definition rr_sleep :: "uint_t \<Rightarrow> sched_cpu \<Rightarrow> sched_cpu" where
  "rr_sleep this s = upd_th this (\<lambda>th. th\<lparr>th_state := S_WAIT\<rparr>) s"

definition rr_wakeup :: "uint_t \<Rightarrow> sched_cpu \<Rightarrow> sched_cpu" where
  "rr_wakeup thread s =
     (if th_state (sc_threads s thread) = S_READY then s
      else
        let s = upd_th thread (\<lambda>th. th\<lparr>th_state := S_READY\<rparr>) s;
            s = s\<lparr>sc_count := sc_count s + 1\<rparr>
        in if th_type (sc_threads s thread) = KTHREAD
           then
             let s = s\<lparr>sc_k_runnable := sc_k_runnable s + 1, sc_kthreads := sc_kthreads s @ [thread]\<rparr>
             in upd_th (sc_this s) (\<lambda>th. set_flag TH_FORCED_YIELD (set_flag TH_NEED_TO_SCHED th)) s
           else s\<lparr>sc_rq_u_runnable := sc_rq_u_runnable s + 1, sc_u_runnable := sc_u_runnable s + 1,
                  sc_runnable := sc_runnable s @ [thread]\<rparr>)"

definition rr_add_created :: "uint_t \<Rightarrow> sched_cpu \<Rightarrow> sched_cpu" where
  "rr_add_created thread s =
     (let s = s\<lparr>sc_count := sc_count s + 1, sc_total_nr := sc_total_nr s + 1\<rparr>
      in if th_type (sc_threads s thread) = KTHREAD
         then s\<lparr>sc_k_runnable := sc_k_runnable s + 1, sc_kthreads := sc_kthreads s @ [thread]\<rparr>
         else
           let s = s\<lparr>sc_user_nr := sc_user_nr s + 1, sc_u_runnable := sc_u_runnable s + 1,
                     sc_rq_u_runnable := sc_rq_u_runnable s + 1, sc_runnable := sc_runnable s @ [thread]\<rparr>
           in if has_flag TH_IMPORTED (sc_threads s thread)
              then upd_th thread (\<lambda>th. clear_flag TH_IMPORTED (th\<lparr>th_boosted_prio := 3 * RR_QUANTUM\<rparr>)) s
              else upd_th thread (\<lambda>th. th\<lparr>th_boosted_prio := RR_QUANTUM\<rparr>) s)"

text \<open>\<^verbatim>\<open>rr_elect_balancing\<close>: the running thread goes back to its queue when it is still in state
  \<^verbatim>\<open>S_KERNEL\<close>, then the head of the first queue that has one is taken.\<close>

definition requeue_this :: "sched_cpu \<Rightarrow> sched_cpu" where
  "requeue_this s =
     (let this = sc_this s; th = sc_threads s this
      in if th_type th \<noteq> TH_IDLE \<and> th_state th = S_KERNEL
         then
           let s = upd_th this (\<lambda>th. th\<lparr>th_state := S_READY, th_boosted_prio := th_boosted_prio th + th_quantum th\<rparr>) s;
               s = s\<lparr>sc_count := sc_count s + 1\<rparr>
           in if th_type th = PTHREAD
              then
                let s = (if has_flag TH_FORCED_YIELD th
                         then upd_th this (\<lambda>th. th\<lparr>th_boosted_prio := th_boosted_prio th - th_quantum th\<rparr>)
                                (s\<lparr>sc_runnable := this # sc_runnable s\<rparr>)
                         else upd_th this (\<lambda>th. (clear_flag TH_NEED_TO_MIGRATE th)\<lparr>th_quantum := RR_QUANTUM\<rparr>)
                                (s\<lparr>sc_runnable := sc_runnable s @ [this]\<rparr>))
                in s\<lparr>sc_u_runnable := sc_u_runnable s + 1, sc_rq_u_runnable := sc_rq_u_runnable s + 1\<rparr>
              else
                upd_th this (\<lambda>th. th\<lparr>th_quantum := RR_QUANTUM\<rparr>)
                  (s\<lparr>sc_kthreads := sc_kthreads s @ [this], sc_k_runnable := sc_k_runnable s + 1\<rparr>)
         else s)"

definition take_elected :: "uint_t \<Rightarrow> sched_cpu \<Rightarrow> sched_cpu" where
  "take_elected elected s =
     upd_th elected (\<lambda>th. clear_flag TH_FORCED_YIELD (clear_flag TH_NEED_TO_SCHED th))
       (s\<lparr>sc_kthreads := remove1 elected (sc_kthreads s), sc_migrate := remove1 elected (sc_migrate s),
          sc_runnable := remove1 elected (sc_runnable s), sc_count := sc_count s - 1\<rparr>)"

definition rr_elect_balancing :: "sched_cpu \<Rightarrow> (uint_t option \<times> sched_cpu) option" where
  "rr_elect_balancing s =
     (let s = upd_th (sc_this s) (clear_flag TH_NEED_TO_SCHED) s;
          s = requeue_this s
      in if sc_count s > 0
         then (case sc_kthreads s of
                 elected # _ \<Rightarrow> Some (Some elected, take_elected elected (s\<lparr>sc_k_runnable := sc_k_runnable s - 1\<rparr>))
               | [] \<Rightarrow>
                 (case sc_migrate s of
                    elected # _ \<Rightarrow> Some (Some elected, take_elected elected
                      (s\<lparr>sc_u_runnable := sc_u_runnable s - 1, sc_rq_m_runnable := sc_rq_m_runnable s - 1\<rparr>))
                  | [] \<Rightarrow>
                    (case sc_runnable s of
                       elected # _ \<Rightarrow> Some (Some elected, take_elected elected
                         (s\<lparr>sc_u_runnable := sc_u_runnable s - 1, sc_rq_u_runnable := sc_rq_u_runnable s - 1\<rparr>))
                     | [] \<Rightarrow> None)))
         else Some (None, s))"

definition rr_sched_init :: "sched_cpu \<Rightarrow> sched_cpu" where
  "rr_sched_init s = s\<lparr>sc_clock_cntr := 0, sc_period := CONFIG_CPU_BALANCING_PERIOD * 4, sc_rq_u_runnable := 0,
     sc_rq_m_runnable := 0, sc_kthreads := [], sc_runnable := [], sc_migrate := [], sc_count := 0\<rparr>"

section \<open>The scheduler\<close>

definition sched_init :: "bool \<Rightarrow> sched_cpu \<Rightarrow> error_t \<times> sched_cpu" where
  "sched_init mem s =
     (if \<not> mem then (ENOMEM, s)
      else (0, rr_sched_init (s\<lparr>sc_bitmap := bitmap_set_range [0] 0 SCHED_THREADS_NR, sc_next := 0,
                                sc_ports := replicate SCHED_THREADS_NR (0, 0)\<rparr>)))"

definition sched_register :: "uint_t \<Rightarrow> sched_cpu \<Rightarrow> error_t \<times> sched_cpu" where
  "sched_register thread s =
     (let s = (if sc_next s \<ge> SCHED_THREADS_NR then s\<lparr>sc_next := 0\<rparr> else s);
          index = bitmap_ffs2 (sc_bitmap s) (sc_next s) 4
      in if index \<noteq> -1
         then (0, upd_th thread (\<lambda>th. th\<lparr>th_ltid := nat index\<rparr>)
                    (s\<lparr>sc_bitmap := bitmap_clear (sc_bitmap s) (nat index), sc_next := nat index + 1\<rparr>))
         else (ERANGE, s))"

definition sched_unregister :: "uint_t \<Rightarrow> sched_cpu \<Rightarrow> sched_cpu" where
  "sched_unregister thread s =
     (let ltid = th_ltid (sc_threads s thread);
          s = s\<lparr>sc_ports := (sc_ports s)[ltid := (0, 0)], sc_bitmap := bitmap_set (sc_bitmap s) ltid\<rparr>
      in if ltid < sc_next s then s\<lparr>sc_next := ltid\<rparr> else s)"

text \<open>One entry of the table of ports in \<^verbatim>\<open>sched_event_notify\<close>.\<close>

definition notify_port :: "nat \<Rightarrow> sched_cpu \<Rightarrow> sched_cpu" where
  "notify_port i s =
     (let (p0, p1) = sc_ports s ! i
      in if p0 AND SCHED_OP_WAKEUP \<noteq> 0
         then rr_wakeup (p0 AND NOT SCHED_OP_MASK) (s\<lparr>sc_ports := (sc_ports s)[i := (0, p1)]\<rparr>)
         else if p0 AND SCHED_OP_ADD_CREATED \<noteq> 0
         then let thread = p0 AND NOT SCHED_OP_MASK
              in rr_add_created thread
                   (upd_th thread (\<lambda>th. th\<lparr>th_state := S_CREATE\<rparr>) (s\<lparr>sc_ports := (sc_ports s)[i := (0, p1)]\<rparr>))
         else
           let thread = p1 AND NOT SCHED_OP_MASK
           in if p1 AND SCHED_OP_UWAKEUP \<noteq> 0 \<and> has_flag TH_CAN_WAKEUP (sc_threads s thread)
              then rr_wakeup thread (upd_th thread (clear_flag TH_CAN_WAKEUP) (s\<lparr>sc_ports := (sc_ports s)[i := (p0, 0)]\<rparr>))
              else s)"

definition sched_event_notify :: "sched_cpu \<Rightarrow> sched_cpu" where
  "sched_event_notify s = fold notify_port [0..<SCHED_THREADS_NR] s"

definition sched_event_make :: "uint_t \<Rightarrow> uint_t \<Rightarrow> uint_t" where
  "sched_event_make thread opn = thread OR opn"

text \<open>\<^verbatim>\<open>sched_get_listner\<close> and \<^verbatim>\<open>sched_event_send\<close>: a store into the port of the thread's entry that belongs
  to the operation.\<close>

definition sched_event_send :: "uint_t \<Rightarrow> uint_t \<Rightarrow> sched_cpu \<Rightarrow> sched_cpu" where
  "sched_event_send thread opn s =
     (let ltid = th_ltid (sc_threads s thread); event = sched_event_make thread opn; (p0, p1) = sc_ports s ! ltid
      in s\<lparr>sc_ports := (sc_ports s)[ltid := (if opn AND 0xFF = 0 then (event, p1) else (p0, event))]\<rparr>)"

definition sched_wakeup :: "uint_t \<Rightarrow> sched_cpu \<Rightarrow> sched_cpu" where
  "sched_wakeup thread s = sched_event_send thread SCHED_OP_WAKEUP s"

definition sched_add_created :: "uint_t \<Rightarrow> sched_cpu \<Rightarrow> sched_cpu" where
  "sched_add_created thread s =
     sched_event_send thread SCHED_OP_ADD_CREATED (upd_th thread (\<lambda>th. th\<lparr>th_state := S_CREATE\<rparr>) s)"

definition sched_add :: "uint_t \<Rightarrow> sched_cpu \<Rightarrow> sched_cpu" where
  "sched_add thread s = rr_add_created thread (upd_th thread (\<lambda>th. th\<lparr>th_state := S_READY\<rparr>) s)"

text \<open>\<^verbatim>\<open>schedule\<close> up to the switch to the elected thread.\<close>

definition schedule :: "sched_cpu \<Rightarrow> sched_cpu option" where
  "schedule s =
     (case rr_elect_balancing (sched_event_notify s) of
        None \<Rightarrow> None
      | Some (r, s) \<Rightarrow>
          let (elected, s) = (case r of None \<Rightarrow> (sc_idle s, s\<lparr>sc_active := False\<rparr>)
                                      | Some t \<Rightarrow> (t, s\<lparr>sc_active := True\<rparr>))
          in Some (
               if elected \<noteq> sc_this s
               then upd_th elected (\<lambda>th. th\<lparr>th_state :=
                      (if th_state th = S_CREATE \<and> th_type th = PTHREAD then S_USR else S_KERNEL)\<rparr>) (s\<lparr>sc_this := elected\<rparr>)
               else upd_th elected (\<lambda>th. th\<lparr>th_state := S_KERNEL\<rparr>) s))"

definition sched_yield :: "sched_cpu \<Rightarrow> sched_cpu option" where
  "sched_yield s = schedule s"

definition sched_exit :: "sched_cpu \<Rightarrow> sched_cpu option" where
  "sched_exit s =
     schedule (upd_th (sc_this s) (\<lambda>th. th\<lparr>th_state := S_DEAD\<rparr>) (rr_exit (sc_this s) (sched_unregister (sc_this s) s)))"

definition sched_remove :: "sched_cpu \<Rightarrow> sched_cpu option" where
  "sched_remove s =
     schedule (upd_th (sc_this s) (\<lambda>th. th\<lparr>th_type := KTHREAD, th_state := S_DEAD\<rparr>)
       (rr_remove (sc_this s) (sched_unregister (sc_this s) s)))"

definition sched_sleep :: "sched_cpu \<Rightarrow> sched_cpu option" where
  "sched_sleep s =
     schedule (rr_sleep (sc_this s)
       (if has_flag TH_CAP_WAKEUP (sc_threads s (sc_this s))
        then upd_th (sc_this s) (\<lambda>th. clear_flag TH_CAP_WAKEUP (set_flag TH_CAN_WAKEUP th)) s else s))"

text \<open>What \<^verbatim>\<open>sched_sleep\<close> does when its thread runs again, and the system calls
  \<^verbatim>\<open>sys_thread_sleep\<close> and (for one target) \<^verbatim>\<open>sys_thread_wakeup\<close>.\<close>

definition sched_sleep_return :: "sched_cpu \<Rightarrow> sched_cpu" where
  "sched_sleep_return s = upd_th (sc_this s) (clear_flag TH_CAN_WAKEUP) s"

definition sys_thread_sleep :: "sched_cpu \<Rightarrow> sched_cpu option" where
  "sys_thread_sleep s = sched_sleep (upd_th (sc_this s) (set_flag TH_CAP_WAKEUP) s)"

definition thread_wakeup_target :: "uint_t \<Rightarrow> sched_cpu \<Rightarrow> sched_cpu" where
  "thread_wakeup_target target s = sched_event_send target SCHED_OP_UWAKEUP s"

definition sched_clock :: "nat \<Rightarrow> nat \<Rightarrow> nat \<Rightarrow> nat \<Rightarrow> sched_cpu \<Rightarrow> sched_cpu" where
  "sched_clock usage U1 U2 U_root s =
     (let this = sc_this s;
          s = upd_th this (\<lambda>th. th\<lparr>th_ticks_nr := th_ticks_nr th + 1\<rparr>) s;
          s = (if th_type (sc_threads s this) = KTHREAD
               then upd_th (sc_idle s) (\<lambda>th. th\<lparr>th_ticks_nr := th_ticks_nr th + 1\<rparr>) s else s)
      in rr_clock_balancing usage U1 U2 U_root this (sched_event_notify s))"

definition sched_idle :: "sched_cpu \<Rightarrow> sched_cpu" where
  "sched_idle s = sched_event_notify s"


section \<open>Flags and events\<close>

lemma upd_th_sel [simp]:
  "sc_threads (upd_th t f s) = (sc_threads s)(t := f (sc_threads s t))"
  "sc_this (upd_th t f s) = sc_this s" "sc_idle (upd_th t f s) = sc_idle s"
  "sc_kthreads (upd_th t f s) = sc_kthreads s" "sc_runnable (upd_th t f s) = sc_runnable s"
  "sc_migrate (upd_th t f s) = sc_migrate s" "sc_count (upd_th t f s) = sc_count s"
  "sc_rq_u_runnable (upd_th t f s) = sc_rq_u_runnable s" "sc_rq_m_runnable (upd_th t f s) = sc_rq_m_runnable s"
  "sc_u_runnable (upd_th t f s) = sc_u_runnable s" "sc_k_runnable (upd_th t f s) = sc_k_runnable s"
  "sc_bitmap (upd_th t f s) = sc_bitmap s" "sc_next (upd_th t f s) = sc_next s" "sc_ports (upd_th t f s) = sc_ports s"
  "sc_total_nr (upd_th t f s) = sc_total_nr s" "sc_user_nr (upd_th t f s) = sc_user_nr s"
  "sc_period (upd_th t f s) = sc_period s" "sc_clock_cntr (upd_th t f s) = sc_clock_cntr s"
  by (simp_all add: upd_th_def)

lemma flag_ops_sel [simp]:
  "th_type (set_flag f th) = th_type th" "th_state (set_flag f th) = th_state th" "th_ltid (set_flag f th) = th_ltid th"
  "th_type (clear_flag f th) = th_type th" "th_state (clear_flag f th) = th_state th" "th_ltid (clear_flag f th) = th_ltid th"
  "th_quantum (set_flag f th) = th_quantum th" "th_quantum (clear_flag f th) = th_quantum th"
  by (simp_all add: set_flag_def clear_flag_def)

lemma or_and_disjoint: "f AND g = 0 \<Longrightarrow> (w OR f) AND g = w AND (g::uint_t)"
  by (simp add: bit.conj_disj_distrib2)

lemma and_not_and_disjoint: "f AND g = 0 \<Longrightarrow> (w AND NOT f) AND g = w AND (g::uint_t)"
proof -
  assume "f AND g = 0"
  then have "\<And>n. \<not> (bit f n \<and> bit g n)" by (metis bit_and_iff bit_0_eq bot_apply bot_bool_def)
  then show ?thesis by (intro bit_eqI) (auto simp: bit_simps)
qed

lemma and_not_and_self: "(w AND NOT f) AND f = (0::uint_t)"
  by (simp add: bit_eq_iff bit_simps)

lemma flag_ops_flags [simp]:
  "f AND g = 0 \<Longrightarrow> th_flags (set_flag f th) AND g = th_flags th AND g"
  "f AND g = 0 \<Longrightarrow> th_flags (clear_flag f th) AND g = th_flags th AND g"
  "th_flags (clear_flag f th) AND f = 0"
  by (simp_all add: set_flag_def clear_flag_def or_and_disjoint and_not_and_disjoint and_not_and_self)

lemma or_and_self_nonzero: "g \<noteq> 0 \<Longrightarrow> (w OR g) AND g \<noteq> (0::uint_t)"
  by (simp add: bit.conj_disj_distrib2)

abbreviation th_aligned :: "uint_t \<Rightarrow> bool" where
  "th_aligned t \<equiv> t AND 0xFFF = 0"

lemma and_sub_zero: "t AND m = 0 \<Longrightarrow> g AND m = g \<Longrightarrow> t AND g = (0::uint_t)"
  by (auto simp: bit_eq_iff bit_simps)

lemma event_decode:
  assumes "th_aligned t" and "opn AND 0xFFF = opn"
  shows "(sched_event_make t opn) AND NOT SCHED_OP_MASK = t"
    and "g AND 0xFFF = g \<Longrightarrow> (sched_event_make t opn) AND g = opn AND g"
proof -
  have "opn AND NOT m = 0" if "opn AND m = opn" for m using that by (auto simp: bit_eq_iff bit_simps)
  with assms(2) have "opn AND NOT 0xFFF = 0" by blast
  moreover have "t AND NOT m = t" if "t AND m = 0" for m using that by (auto simp: bit_eq_iff bit_simps)
  with assms(1) have "t AND NOT 0xFFF = t" by blast
  ultimately show "(sched_event_make t opn) AND NOT SCHED_OP_MASK = t"
    by (simp add: sched_event_make_def bit.conj_disj_distrib2 or.commute)
next
  assume "g AND 0xFFF = g"
  with assms show "(sched_event_make t opn) AND g = opn AND g"
    by (simp add: sched_event_make_def bit.conj_disj_distrib2 and_sub_zero [of t "0xFFF" g])
qed

section \<open>The invariant\<close>

definition sc_queue :: "sched_cpu \<Rightarrow> uint_t list" where
  "sc_queue s = sc_kthreads s @ sc_migrate s @ sc_runnable s"

definition sc_queued :: "sched_cpu \<Rightarrow> uint_t \<Rightarrow> bool" where
  "sc_queued s t \<longleftrightarrow> t \<in> set (sc_queue s)"

abbreviation st :: "sched_cpu \<Rightarrow> uint_t \<Rightarrow> thread_state_t" where
  "st s t \<equiv> th_state (sc_threads s t)"

definition cnt_ok :: "sched_cpu \<Rightarrow> bool" where
  "cnt_ok s \<longleftrightarrow> distinct (sc_queue s) \<and> sc_count s = of_nat (length (sc_queue s)) \<and>
     sc_k_runnable s = of_nat (length (sc_kthreads s)) \<and>
     sc_u_runnable s = of_nat (length (sc_migrate s) + length (sc_runnable s)) \<and>
     sc_rq_u_runnable s = of_nat (length (sc_runnable s)) \<and> sc_rq_m_runnable s = of_nat (length (sc_migrate s))"

definition th_ok :: "sched_cpu \<Rightarrow> uint_t \<Rightarrow> bool" where
  "th_ok s t \<longleftrightarrow>
     (st s t = S_READY \<longrightarrow> sc_queued s t) \<and>
     (sc_queued s t \<longrightarrow> st s t \<in> {S_READY, S_CREATE, S_WAIT} \<and> t \<noteq> sc_idle s) \<and>
     (t \<noteq> sc_this s \<and> t \<noteq> sc_idle s \<longrightarrow> st s t \<noteq> S_KERNEL \<and> st s t \<noteq> S_USR) \<and>
     (t = sc_idle s \<longrightarrow> th_type (sc_threads s t) = TH_IDLE \<and> st s t = S_KERNEL) \<and>
     (has_flag TH_CAN_WAKEUP (sc_threads s t) \<longrightarrow> st s t = S_WAIT \<and> \<not> sc_queued s t \<or> st s t = S_READY) \<and>
     (st s t \<noteq> S_DEAD \<and> t \<noteq> sc_idle s \<longrightarrow>
        th_type (sc_threads s t) \<noteq> TH_IDLE \<and> th_ltid (sc_threads s t) < SCHED_THREADS_NR \<and>
        \<not> bm_bit (sc_bitmap s) (th_ltid (sc_threads s t))) \<and>
     (st s t = S_CREATE \<and> \<not> sc_queued s t \<longrightarrow>
        fst (sc_ports s ! th_ltid (sc_threads s t)) = sched_event_make t SCHED_OP_ADD_CREATED)"

definition ltid_inj :: "sched_cpu \<Rightarrow> bool" where
  "ltid_inj s \<longleftrightarrow> (\<forall>t u. st s t \<noteq> S_DEAD \<and> st s u \<noteq> S_DEAD \<and> t \<noteq> sc_idle s \<and> u \<noteq> sc_idle s \<and>
     th_ltid (sc_threads s t) = th_ltid (sc_threads s u) \<longrightarrow> t = u)"

definition ev_thread :: "sched_cpu \<Rightarrow> nat \<Rightarrow> uint_t \<Rightarrow> bool" where
  "ev_thread s i t \<longleftrightarrow> t \<noteq> sc_idle s \<and> st s t \<noteq> S_DEAD \<and> th_ltid (sc_threads s t) = i \<and> th_aligned t"

definition port_ok :: "sched_cpu \<Rightarrow> nat \<Rightarrow> bool" where
  "port_ok s i \<longleftrightarrow>
     (fst (sc_ports s ! i) = 0 \<or>
        (\<exists>t. ev_thread s i t \<and> \<not> sc_queued s t \<and>
           (fst (sc_ports s ! i) = sched_event_make t SCHED_OP_WAKEUP \<and> st s t \<noteq> S_CREATE \<or>
            fst (sc_ports s ! i) = sched_event_make t SCHED_OP_ADD_CREATED \<and> st s t = S_CREATE))) \<and>
     (snd (sc_ports s ! i) = 0 \<or> (\<exists>t. ev_thread s i t \<and> snd (sc_ports s ! i) = sched_event_make t SCHED_OP_UWAKEUP))"

definition reg_ok :: "sched_cpu \<Rightarrow> bool" where
  "reg_ok s \<longleftrightarrow> length (sc_bitmap s) = 1 \<and> length (sc_ports s) = SCHED_THREADS_NR \<and>
     sc_next s \<le> SCHED_THREADS_NR \<and> (\<forall>k. k < sc_next s \<longrightarrow> \<not> bm_bit (sc_bitmap s) k)"

text \<open>\<open>sched_core\<close> holds at every point of the scheduler's functions. The running thread may be in any
  state there; between two calls it is running (or has been woken up before it went to sleep).\<close>

definition sched_core :: "sched_cpu \<Rightarrow> bool" where
  "sched_core s \<longleftrightarrow> cnt_ok s \<and> (\<forall>t. th_ok s t) \<and> ltid_inj s \<and> (\<forall>i<SCHED_THREADS_NR. port_ok s i) \<and> reg_ok s"

definition sched_inv :: "sched_cpu \<Rightarrow> bool" where
  "sched_inv s \<longleftrightarrow> sched_core s \<and> st s (sc_this s) \<in> {S_KERNEL, S_USR, S_READY} \<and>
     \<not> has_flag TH_CAN_WAKEUP (sc_threads s (sc_this s)) \<and>
     (\<forall>t. \<not> has_flag TH_CAP_WAKEUP (sc_threads s t))"

lemma sched_core_queue_bound:
  assumes "sched_core s"
  shows "length (sc_queue s) \<le> SCHED_THREADS_NR"
proof -
  have q: "\<And>t. t \<in> set (sc_queue s) \<Longrightarrow> st s t \<noteq> S_DEAD \<and> t \<noteq> sc_idle s \<and> th_ltid (sc_threads s t) < SCHED_THREADS_NR"
    using assms by (auto simp: sched_core_def th_ok_def sc_queued_def)
  have "inj_on (\<lambda>t. th_ltid (sc_threads s t)) (set (sc_queue s))"
    using assms q by (auto simp: sched_core_def ltid_inj_def inj_on_def)
  moreover have "(\<lambda>t. th_ltid (sc_threads s t)) ` set (sc_queue s) \<subseteq> {..<SCHED_THREADS_NR}"
    using q by auto
  ultimately have "card (set (sc_queue s)) \<le> SCHED_THREADS_NR"
    by (metis card_inj_on_le card_lessThan finite_lessThan)
  moreover have "distinct (sc_queue s)" using assms by (simp add: sched_core_def cnt_ok_def)
  ultimately show ?thesis by (simp add: distinct_card)
qed


text \<open>Operations that put a thread into a queue: what they change, in terms of the observations the
  invariant uses.\<close>

lemma sc_queue_upd_th [simp]: "sc_queue (upd_th t f s) = sc_queue s"
  by (simp add: sc_queue_def)

definition same_obs :: "thread_s \<Rightarrow> thread_s \<Rightarrow> bool" where
  "same_obs a b \<longleftrightarrow> th_type a = th_type b \<and> th_ltid a = th_ltid b \<and>
     (has_flag TH_CAN_WAKEUP a \<longleftrightarrow> has_flag TH_CAN_WAKEUP b) \<and> (has_flag TH_CAP_WAKEUP a \<longleftrightarrow> has_flag TH_CAP_WAKEUP b)"

lemma same_obs_refl [simp]: "same_obs a a"
  by (simp add: same_obs_def)

text \<open>\<open>enq t s s'\<close>: \<open>s'\<close> is \<open>s\<close> with \<open>t\<close> put into one of the queues, in state \<open>c\<close>.\<close>

definition enq :: "uint_t \<Rightarrow> thread_state_t \<Rightarrow> sched_cpu \<Rightarrow> sched_cpu \<Rightarrow> bool" where
  "enq t c s s' \<longleftrightarrow> (\<forall>u. same_obs (sc_threads s' u) (sc_threads s u)) \<and>
     (\<forall>u. st s' u = (if u = t then c else st s u)) \<and>
     sc_this s' = sc_this s \<and> sc_idle s' = sc_idle s \<and> sc_ports s' = sc_ports s \<and> sc_bitmap s' = sc_bitmap s \<and>
     sc_next s' = sc_next s \<and> set (sc_queue s') = insert t (set (sc_queue s)) \<and>
     (cnt_ok s \<and> t \<notin> set (sc_queue s) \<longrightarrow> cnt_ok s')"

lemma enq_core:
  assumes "enq t c s s'" and "sched_core s" and "\<not> sc_queued s t" and "t \<noteq> sc_idle s" and "st s t \<noteq> S_DEAD"
    and "fst (sc_ports s ! th_ltid (sc_threads s t)) = 0" and "c = S_READY \<or> c = S_CREATE \<and> \<not> has_flag TH_CAN_WAKEUP (sc_threads s t)"
  shows "sched_core s'"
proof -
  have e: "\<And>u. same_obs (sc_threads s' u) (sc_threads s u)" "\<And>u. st s' u = (if u = t then c else st s u)"
    "sc_this s' = sc_this s" "sc_idle s' = sc_idle s" "sc_ports s' = sc_ports s" "sc_bitmap s' = sc_bitmap s"
    "sc_next s' = sc_next s" "\<And>u. sc_queued s' u \<longleftrightarrow> u = t \<or> sc_queued s u" "cnt_ok s'"
    using assms(1,2,3) by (auto simp: enq_def sc_queued_def sched_core_def)
  have o: "th_type (sc_threads s' u) = th_type (sc_threads s u)" "th_ltid (sc_threads s' u) = th_ltid (sc_threads s u)"
    "has_flag TH_CAN_WAKEUP (sc_threads s' u) \<longleftrightarrow> has_flag TH_CAN_WAKEUP (sc_threads s u)" for u
    using e(1) [of u] by (auto simp: same_obs_def)
  have th: "th_ok s u" "ltid_inj s" "reg_ok s" and p: "\<And>i. i < SCHED_THREADS_NR \<Longrightarrow> port_ok s i" for u
    using assms(2) by (auto simp: sched_core_def)
  have "th_ok s' u" for u
    using th(1) [of u] assms(3-7) by (auto simp: th_ok_def e o)
  moreover have "ltid_inj s'"
    using th(2) assms(4,5,7) unfolding ltid_inj_def e o by (metis (full_types))
  moreover have "port_ok s' i" if "i < SCHED_THREADS_NR" for i
  proof -
    have "u \<noteq> t" if "ev_thread s i u" "fst (sc_ports s ! i) \<noteq> 0" for u
      using that assms(6) by (auto simp: ev_thread_def)
    moreover have "ev_thread s' i u" if "ev_thread s i u" for u
      using that assms(7) by (auto simp: ev_thread_def e o)
    ultimately show ?thesis
      using p [OF that] unfolding port_ok_def e(3-8) by (smt (verit, ccfv_SIG) e(2))
  qed
  moreover have "reg_ok s'" using th(3) by (simp add: reg_ok_def e)
  ultimately show ?thesis using e(9) by (simp add: sched_core_def)
qed

lemma rr_wakeup_enq:
  assumes "st s t \<noteq> S_READY"
  shows "enq t S_READY s (rr_wakeup t s)"
  using assms unfolding enq_def rr_wakeup_def cnt_ok_def
  by (auto simp: Let_def sc_queue_def same_obs_def)

lemma rr_add_created_enq: "enq t (st s t) s (rr_add_created t s)"
  unfolding enq_def rr_add_created_def cnt_ok_def
  by (auto simp: Let_def sc_queue_def same_obs_def)


lemma sched_coreD:
  assumes "sched_core s"
  shows "th_ok s t" "ltid_inj s" "reg_ok s" "i < SCHED_THREADS_NR \<Longrightarrow> port_ok s i" "cnt_ok s"
  using assms by (auto simp: sched_core_def)

lemma ev_thread_unique: "sched_core s \<Longrightarrow> ev_thread s i t \<Longrightarrow> ev_thread s i u \<Longrightarrow> t = u"
  unfolding ev_thread_def using sched_coreD(2) [of s] unfolding ltid_inj_def by blast

text \<open>How the parts of the invariant carry over to a changed state.\<close>

lemma ltid_injD: "ltid_inj s \<Longrightarrow> st s t \<noteq> S_DEAD \<Longrightarrow> st s u \<noteq> S_DEAD \<Longrightarrow> t \<noteq> sc_idle s \<Longrightarrow> u \<noteq> sc_idle s \<Longrightarrow>
    th_ltid (sc_threads s t) = th_ltid (sc_threads s u) \<Longrightarrow> t = u"
  unfolding ltid_inj_def by blast

lemma ltid_inj_mono:
  assumes "ltid_inj s" and "sc_idle s' = sc_idle s"
    and "\<And>u. st s' u \<noteq> S_DEAD \<Longrightarrow> st s u \<noteq> S_DEAD \<and> th_ltid (sc_threads s' u) = th_ltid (sc_threads s u)"
  shows "ltid_inj s'"
  using assms unfolding ltid_inj_def by metis

lemma port_ok_mono:
  assumes "port_ok s i" and "fst (sc_ports s' ! i) = 0 \<or> fst (sc_ports s' ! i) = fst (sc_ports s ! i)"
    and "snd (sc_ports s' ! i) = 0 \<or> snd (sc_ports s' ! i) = snd (sc_ports s ! i)"
    and "\<And>u. ev_thread s i u \<Longrightarrow> ev_thread s' i u"
    and "\<And>u. ev_thread s i u \<Longrightarrow> \<not> sc_queued s u \<Longrightarrow> fst (sc_ports s' ! i) \<noteq> 0 \<Longrightarrow>
           \<not> sc_queued s' u \<and> (st s' u = S_CREATE \<longleftrightarrow> st s u = S_CREATE)"
  shows "port_ok s' i"
  unfolding port_ok_def
proof
  show "fst (sc_ports s' ! i) = 0 \<or> (\<exists>t. ev_thread s' i t \<and> \<not> sc_queued s' t \<and>
     (fst (sc_ports s' ! i) = sched_event_make t SCHED_OP_WAKEUP \<and> st s' t \<noteq> S_CREATE \<or>
      fst (sc_ports s' ! i) = sched_event_make t SCHED_OP_ADD_CREATED \<and> st s' t = S_CREATE))"
    using assms(1,2,4,5) unfolding port_ok_def by metis
  show "snd (sc_ports s' ! i) = 0 \<or> (\<exists>t. ev_thread s' i t \<and> snd (sc_ports s' ! i) = sched_event_make t SCHED_OP_UWAKEUP)"
    using assms(1,3,4) unfolding port_ok_def by metis
qed

lemma th_ok_cong:
  assumes "th_ok s u" and "sc_queued s' u = sc_queued s u" and "sc_this s' = sc_this s" and "sc_idle s' = sc_idle s"
    and "st s' u = st s u" and "th_type (sc_threads s' u) = th_type (sc_threads s u)"
    and "th_ltid (sc_threads s' u) = th_ltid (sc_threads s u)"
    and "has_flag TH_CAN_WAKEUP (sc_threads s' u) \<Longrightarrow> has_flag TH_CAN_WAKEUP (sc_threads s u)"
    and "st s u \<noteq> S_DEAD \<Longrightarrow> u \<noteq> sc_idle s \<Longrightarrow> th_ltid (sc_threads s u) < SCHED_THREADS_NR \<Longrightarrow>
           bm_bit (sc_bitmap s') (th_ltid (sc_threads s u)) \<Longrightarrow> bm_bit (sc_bitmap s) (th_ltid (sc_threads s u))"
    and "st s u = S_CREATE \<Longrightarrow> u \<noteq> sc_idle s \<Longrightarrow> \<not> sc_queued s u \<Longrightarrow>
           fst (sc_ports s' ! th_ltid (sc_threads s u)) = fst (sc_ports s ! th_ltid (sc_threads s u))"
  shows "th_ok s' u"
proof -
  have "u \<noteq> sc_idle s" if "st s u = S_CREATE" using that assms(1) by (auto simp: th_ok_def)
  with assms show ?thesis unfolding th_ok_def by (metis (no_types, lifting))
qed

text \<open>Taking an event out of a port. A thread whose creation is notified is seen as waiting until it is
  in its queue.\<close>

lemma sched_core_ports_len: "sched_core s \<Longrightarrow> length (sc_ports s) = SCHED_THREADS_NR"
  by (simp add: sched_core_def reg_ok_def)

lemma clear_port_0_core:
  assumes c: "sched_core s" and i: "i < SCHED_THREADS_NR" and t: "ev_thread s i t"
    and f: "f = id \<and> st s t \<noteq> S_CREATE \<or> f = th_state_update (\<lambda>_. S_WAIT) \<and> st s t = S_CREATE \<and> \<not> sc_queued s t"
  shows "sched_core (upd_th t f (s\<lparr>sc_ports := (sc_ports s)[i := (0, snd (sc_ports s ! i))]\<rparr>))" (is "sched_core ?s")
proof -
  note r = sched_core_ports_len [OF c]
  have q: "sc_queued ?s u = sc_queued s u" for u by (simp add: sc_queued_def sc_queue_def)
  have fo [simp]: "th_type (f th) = th_type th" "th_ltid (f th) = th_ltid th" "th_flags (f th) = th_flags th" for th
    using f by auto
  have sf: "th_state (f (sc_threads s t)) = (if st s t = S_CREATE then S_WAIT else st s t)" using f by auto
  have e: "ev_thread ?s j u = ev_thread s j u" for j u using sf by (auto simp: ev_thread_def)
  have "th_ok ?s u" for u
  proof (cases "u = t")
    case True
    then show ?thesis using sched_coreD(1) [OF c, of t] sf t f i r
      by (simp add: th_ok_def q ev_thread_def split: if_splits)
  next
    case False
    then have "th_ltid (sc_threads s u) \<noteq> i" if "st s u = S_CREATE" "u \<noteq> sc_idle s"
      using ltid_injD [OF sched_coreD(2) [OF c], of u t] that t by (auto simp: ev_thread_def)
    then show ?thesis using False by (intro th_ok_cong [OF sched_coreD(1) [OF c]]) (simp_all add: q)
  qed
  moreover have "port_ok ?s j" if j: "j < SCHED_THREADS_NR" for j
  proof (rule port_ok_mono [OF sched_coreD(4) [OF c j]])
    fix u assume u: "ev_thread s j u" "\<not> sc_queued s u" "fst (sc_ports ?s ! j) \<noteq> 0"
    then have "j \<noteq> i" using r i by auto
    then have "u \<noteq> t" using u(1) t by (auto simp: ev_thread_def)
    then show "\<not> sc_queued ?s u \<and> (st ?s u = S_CREATE \<longleftrightarrow> st s u = S_CREATE)" using u q by simp
  qed (use r i j in \<open>auto simp: e nth_list_update_if\<close>)
  moreover have "ltid_inj ?s"
    by (rule ltid_inj_mono [OF sched_coreD(2) [OF c]]) (use sf t in \<open>auto simp: ev_thread_def split: if_splits\<close>)
  moreover have "cnt_ok ?s" "reg_ok ?s"
    using sched_coreD(5,3) [OF c] by (simp_all add: cnt_ok_def sc_queue_def reg_ok_def)
  ultimately show ?thesis by (simp add: sched_core_def)
qed

lemma clear_port_1_core:
  assumes c: "sched_core s" and i: "i < SCHED_THREADS_NR"
  shows "sched_core (upd_th t (clear_flag TH_CAN_WAKEUP) (s\<lparr>sc_ports := (sc_ports s)[i := (fst (sc_ports s ! i), 0)]\<rparr>))"
    (is "sched_core ?s")
proof -
  note r = sched_core_ports_len [OF c]
  have q: "sc_queued ?s u = sc_queued s u" for u by (simp add: sc_queued_def sc_queue_def)
  have e: "ev_thread ?s j u = ev_thread s j u" for j u by (simp add: ev_thread_def)
  have p: "fst (sc_ports ?s ! j) = fst (sc_ports s ! j)" for j
    using r i by (cases "j = i") simp_all
  have "th_ok ?s u" for u
    by (rule th_ok_cong [OF sched_coreD(1) [OF c]]) (simp_all add: q p [simplified] split: if_splits)
  moreover have "port_ok ?s j" if j: "j < SCHED_THREADS_NR" for j
  proof (rule port_ok_mono [OF sched_coreD(4) [OF c j]])
    fix u assume "\<not> sc_queued s u"
    then show "\<not> sc_queued ?s u \<and> (st ?s u = S_CREATE \<longleftrightarrow> st s u = S_CREATE)" by (simp add: q)
  qed (use r i j in \<open>auto simp: e nth_list_update_if\<close>)
  moreover have "ltid_inj ?s"
    by (rule ltid_inj_mono [OF sched_coreD(2) [OF c]]) (auto split: if_splits)
  moreover have "cnt_ok ?s" "reg_ok ?s"
    using sched_coreD(5,3) [OF c] by (simp_all add: cnt_ok_def sc_queue_def reg_ok_def)
  ultimately show ?thesis by (simp add: sched_core_def)
qed


definition port0_clear :: "nat \<Rightarrow> sched_cpu \<Rightarrow> bool" where
  "port0_clear i s \<longleftrightarrow> fst (sc_ports s ! i) = 0"

text \<open>What the notification of events does, seen from outside.\<close>

definition notified :: "sched_cpu \<Rightarrow> sched_cpu \<Rightarrow> bool" where
  "notified s s' \<longleftrightarrow> sched_core s' \<and> sc_this s' = sc_this s \<and> sc_idle s' = sc_idle s \<and>
     (\<forall>u. (has_flag TH_CAP_WAKEUP (sc_threads s' u) \<longleftrightarrow> has_flag TH_CAP_WAKEUP (sc_threads s u)) \<and>
          (has_flag TH_CAN_WAKEUP (sc_threads s' u) \<longrightarrow> has_flag TH_CAN_WAKEUP (sc_threads s u)) \<and>
          (st s' u = st s u \<or> st s' u = S_READY) \<and> (sc_queued s u \<longrightarrow> sc_queued s' u)) \<and>
     (\<forall>j. port0_clear j s \<longrightarrow> port0_clear j s')"

lemma notified_trans: "notified s s1 \<Longrightarrow> notified s1 s2 \<Longrightarrow> notified s s2"
  unfolding notified_def by metis

lemma enq_notified:
  assumes "enq t c s s'" and "sched_core s'" and "c = S_READY \<or> c = st s t"
  shows "notified s s'"
  using assms by (auto simp: enq_def notified_def same_obs_def sc_queued_def port0_clear_def)

lemma enq_upd_state: "enq t c s s' \<Longrightarrow> enq t c (upd_th t (th_state_update (\<lambda>_. x)) s) s'"
  by (auto simp: enq_def same_obs_def cnt_ok_def sc_queue_def)

lemma upd_th_id [simp]: "upd_th t id s = s"
  by (simp add: upd_th_def)

lemma notify_wakeup:
  assumes c: "sched_core s" and i: "i < SCHED_THREADS_NR" and t: "ev_thread s i t" "\<not> sc_queued s t" "st s t \<noteq> S_CREATE"
  defines "s' \<equiv> rr_wakeup t (s\<lparr>sc_ports := (sc_ports s)[i := (0, snd (sc_ports s ! i))]\<rparr>)"
  shows "notified s s' \<and> port0_clear i s' \<and> st s' t = S_READY"
proof -
  let ?s = "s\<lparr>sc_ports := (sc_ports s)[i := (0, snd (sc_ports s ! i))]\<rparr>"
  note r = sched_core_ports_len [OF c]
  have c1: "sched_core ?s" using clear_port_0_core [OF c i t(1), of id] t(3) by simp
  have "st s t \<noteq> S_READY" using sched_coreD(1) [OF c, of t] t by (auto simp: th_ok_def)
  then have e: "enq t S_READY ?s s'" unfolding s'_def by (intro rr_wakeup_enq) simp
  have "sched_core s'"
    by (rule enq_core [OF e c1]) (use t r i in \<open>auto simp: ev_thread_def sc_queued_def sc_queue_def\<close>)
  then have "notified ?s s'" by (rule enq_notified [OF e]) simp
  moreover have "notified s ?s"
    using c1 by (auto simp: notified_def sc_queued_def sc_queue_def port0_clear_def)
      (metis fst_conv nth_list_update_eq nth_list_update_neq list_update_beyond not_le)
  moreover have "port0_clear i ?s" using r i by (simp add: port0_clear_def)
  moreover have "st s' t = S_READY" using e by (simp add: enq_def)
  ultimately show ?thesis by (meson notified_def notified_trans)
qed

lemma notify_created:
  assumes c: "sched_core s" and i: "i < SCHED_THREADS_NR" and t: "ev_thread s i t" "\<not> sc_queued s t" "st s t = S_CREATE"
  defines "s' \<equiv> rr_add_created t (upd_th t (\<lambda>th. th\<lparr>th_state := S_CREATE\<rparr>) (s\<lparr>sc_ports := (sc_ports s)[i := (0, snd (sc_ports s ! i))]\<rparr>))"
  shows "notified s s' \<and> port0_clear i s' \<and> sc_queued s' t"
proof -
  let ?a = "s\<lparr>sc_ports := (sc_ports s)[i := (0, snd (sc_ports s ! i))]\<rparr>"
  let ?s = "upd_th t (th_state_update (\<lambda>_. S_WAIT)) ?a"
  note r = sched_core_ports_len [OF c]
  have [simp]: "upd_th t (\<lambda>th. th\<lparr>th_state := S_CREATE\<rparr>) ?a = ?a"
    using t(3) by (simp add: upd_th_def fun_upd_idem)
  have c1: "sched_core ?s" using clear_port_0_core [OF c i t(1), of "th_state_update (\<lambda>_. S_WAIT)"] t by simp
  have e0: "enq t S_CREATE ?a s'" using rr_add_created_enq [of t ?a] t(3) by (simp add: s'_def)
  have e: "enq t S_CREATE ?s s'" by (rule enq_upd_state [OF e0])
  have "\<not> has_flag TH_CAN_WAKEUP (sc_threads s t)" using sched_coreD(1) [OF c, of t] t by (auto simp: th_ok_def)
  then have c2: "sched_core s'"
    by (intro enq_core [OF e c1]) (use t r i in \<open>auto simp: ev_thread_def sc_queued_def sc_queue_def\<close>)
  have "notified ?a s'" using enq_notified [OF e0 c2] t(3) by simp
  moreover have "port0_clear j s \<Longrightarrow> port0_clear j ?a" for j
    using r i by (cases "j = i") (auto simp: port0_clear_def)
  ultimately have "notified s s'" by (auto simp: notified_def sc_queued_def sc_queue_def)
  moreover have "port0_clear i s'" "sc_queued s' t"
    using e0 r i by (auto simp: enq_def port0_clear_def sc_queued_def)
  ultimately show ?thesis by simp
qed

lemma notify_uwakeup:
  assumes c: "sched_core s" and i: "i < SCHED_THREADS_NR" and t: "ev_thread s i t" "has_flag TH_CAN_WAKEUP (sc_threads s t)"
    and p: "port0_clear i s"
  defines "s' \<equiv> rr_wakeup t (upd_th t (clear_flag TH_CAN_WAKEUP) (s\<lparr>sc_ports := (sc_ports s)[i := (fst (sc_ports s ! i), 0)]\<rparr>))"
  shows "notified s s' \<and> st s' t = S_READY"
proof -
  let ?s = "upd_th t (clear_flag TH_CAN_WAKEUP) (s\<lparr>sc_ports := (sc_ports s)[i := (fst (sc_ports s ! i), 0)]\<rparr>)"
  note r = sched_core_ports_len [OF c]
  have c1: "sched_core ?s" by (rule clear_port_1_core [OF c i])
  have "port0_clear j s \<Longrightarrow> port0_clear j ?s" for j
    using r i by (cases "j = i") (auto simp: port0_clear_def)
  with c1 have n: "notified s ?s" by (auto simp: notified_def sc_queued_def sc_queue_def)
  have st: "st s t = S_WAIT \<and> \<not> sc_queued s t \<or> st s t = S_READY"
    using sched_coreD(1) [OF c, of t] t(2) by (auto simp: th_ok_def)
  show ?thesis
  proof (cases "st s t = S_READY")
    case True
    then have "s' = ?s" by (simp add: s'_def rr_wakeup_def)
    with n True show ?thesis by simp
  next
    case False
    then have e: "enq t S_READY ?s s'" unfolding s'_def by (intro rr_wakeup_enq) simp
    have "sched_core s'"
      by (rule enq_core [OF e c1]) (use t r i p st False in \<open>auto simp: ev_thread_def sc_queued_def sc_queue_def port0_clear_def\<close>)
    then have "notified ?s s'" by (rule enq_notified [OF e]) simp
    with n e show ?thesis by (auto intro: notified_trans simp: enq_def)
  qed
qed


lemma notified_refl: "sched_core s \<Longrightarrow> notified s s"
  by (simp add: notified_def)

lemma notify_port_cases:
  assumes c: "sched_core s" and i: "i < SCHED_THREADS_NR"
  obtains (none) "notify_port i s = s" "port0_clear i s" "\<And>t. ev_thread s i t \<Longrightarrow> snd (sc_ports s ! i) = sched_event_make t SCHED_OP_UWAKEUP \<Longrightarrow> \<not> has_flag TH_CAN_WAKEUP (sc_threads s t)"
  | (uwakeup) t where "port0_clear i s" "ev_thread s i t" "has_flag TH_CAN_WAKEUP (sc_threads s t)"
      "notify_port i s = rr_wakeup t (upd_th t (clear_flag TH_CAN_WAKEUP) (s\<lparr>sc_ports := (sc_ports s)[i := (fst (sc_ports s ! i), 0)]\<rparr>))"
  | (wakeup) t where "ev_thread s i t" "\<not> sc_queued s t" "st s t \<noteq> S_CREATE"
      "notify_port i s = rr_wakeup t (s\<lparr>sc_ports := (sc_ports s)[i := (0, snd (sc_ports s ! i))]\<rparr>)"
  | (created) t where "ev_thread s i t" "\<not> sc_queued s t" "st s t = S_CREATE"
      "notify_port i s = rr_add_created t (upd_th t (\<lambda>th. th\<lparr>th_state := S_CREATE\<rparr>) (s\<lparr>sc_ports := (sc_ports s)[i := (0, snd (sc_ports s ! i))]\<rparr>))"
proof -
  obtain p0 p1 where p: "sc_ports s ! i = (p0, p1)" by fastforce
  note ok = sched_coreD(4) [OF c i, unfolded port_ok_def p fst_conv snd_conv]
  have dec: "th_aligned t \<Longrightarrow> sched_event_make t SCHED_OP_WAKEUP AND NOT SCHED_OP_MASK = t \<and> sched_event_make t SCHED_OP_WAKEUP AND SCHED_OP_WAKEUP \<noteq> 0"
    "th_aligned t \<Longrightarrow> sched_event_make t SCHED_OP_ADD_CREATED AND NOT SCHED_OP_MASK = t \<and>
       sched_event_make t SCHED_OP_ADD_CREATED AND SCHED_OP_WAKEUP = 0 \<and> sched_event_make t SCHED_OP_ADD_CREATED AND SCHED_OP_ADD_CREATED \<noteq> 0"
    "th_aligned t \<Longrightarrow> sched_event_make t SCHED_OP_UWAKEUP AND NOT SCHED_OP_MASK = t \<and> sched_event_make t SCHED_OP_UWAKEUP AND SCHED_OP_UWAKEUP \<noteq> 0" for t
    using event_decode [of t SCHED_OP_WAKEUP] event_decode [of t SCHED_OP_ADD_CREATED] event_decode [of t SCHED_OP_UWAKEUP] by simp_all
  from ok consider "p0 = 0" "p1 = 0"
    | t where "p0 = 0" "ev_thread s i t" "p1 = sched_event_make t SCHED_OP_UWAKEUP"
    | t where "ev_thread s i t" "\<not> sc_queued s t" "p0 = sched_event_make t SCHED_OP_WAKEUP" "st s t \<noteq> S_CREATE"
    | t where "ev_thread s i t" "\<not> sc_queued s t" "p0 = sched_event_make t SCHED_OP_ADD_CREATED" "st s t = S_CREATE"
    by blast
  then show ?thesis
  proof cases
    case 1
    have "sched_event_make t SCHED_OP_UWAKEUP \<noteq> 0" if "ev_thread s i t" for t using dec(3) [of t] that by (auto simp: ev_thread_def)
    moreover have "notify_port i s = s" using 1 by (simp add: notify_port_def p)
    moreover have "port0_clear i s" using 1 by (simp add: port0_clear_def p)
    ultimately show ?thesis using 1 p by (intro none) auto
  next
    case 2
    then have al: "th_aligned t" by (simp add: ev_thread_def)
    show ?thesis
    proof (cases "has_flag TH_CAN_WAKEUP (sc_threads s t)")
      case True
      then show ?thesis using 2 dec(3) [OF al] p by (intro uwakeup [of t]) (simp_all add: notify_port_def port0_clear_def Let_def)
    next
      case False
      have "u = t" if "ev_thread s i u" for u using ev_thread_unique [OF c that 2(2)] .
      moreover have "notify_port i s = s" using 2 dec(3) [OF al] False by (simp add: notify_port_def p Let_def)
      moreover have "port0_clear i s" using 2 by (simp add: port0_clear_def p)
      ultimately show ?thesis using False by (intro none) auto
    qed
  next
    case 3
    then have "th_aligned t" by (simp add: ev_thread_def)
    then show ?thesis using 3 dec(1) [of t] p by (intro wakeup [of t]) (simp_all add: notify_port_def Let_def)
  next
    case 4
    then have "th_aligned t" by (simp add: ev_thread_def)
    then show ?thesis using 4 dec(2) [of t] p by (intro created [of t]) (simp_all add: notify_port_def Let_def)
  qed
qed

lemma notify_port_core:
  assumes c: "sched_core s" and i: "i < SCHED_THREADS_NR"
  shows "notified s (notify_port i s) \<and> port0_clear i (notify_port i s)"
  using c i
proof (cases rule: notify_port_cases)
  case none
  then show ?thesis using notified_refl [OF c] by simp
next
  case (uwakeup t)
  then show ?thesis using notify_uwakeup [OF c i uwakeup(2,3,1)] by (auto simp: notified_def)
next
  case (wakeup t)
  then show ?thesis using notify_wakeup [OF c i wakeup(1-3)] by simp
next
  case (created t)
  then show ?thesis using notify_created [OF c i created(1-3)] by simp
qed

lemma notify_fold:
  assumes "sched_core s" and "\<forall>i\<in>set is. i < SCHED_THREADS_NR"
  shows "notified s (fold notify_port is s) \<and> (\<forall>j\<in>set is. port0_clear j (fold notify_port is s))"
  using assms
proof (induction "is" arbitrary: s)
  case Nil
  then show ?case by (simp add: notified_refl)
next
  case (Cons i "is")
  have n: "notified s (notify_port i s)" "port0_clear i (notify_port i s)"
    using notify_port_core [of s i] Cons.prems by auto
  then have "sched_core (notify_port i s)" by (simp add: notified_def)
  with Cons have IH: "notified (notify_port i s) (fold notify_port is (notify_port i s))"
    "\<forall>j\<in>set is. port0_clear j (fold notify_port is (notify_port i s))" by auto
  then show ?case using n notified_trans [OF n(1) IH(1)] by (auto simp: notified_def)
qed

lemma sched_event_notify_core:
  assumes "sched_core s"
  shows "notified s (sched_event_notify s)" and "i < SCHED_THREADS_NR \<Longrightarrow> port0_clear i (sched_event_notify s)"
  using notify_fold [OF assms, of "[0..<SCHED_THREADS_NR]"] by (auto simp: sched_event_notify_def)


section \<open>Election\<close>

definition same_threads :: "sched_cpu \<Rightarrow> sched_cpu \<Rightarrow> bool" where
  "same_threads s s' \<longleftrightarrow> (\<forall>u. same_obs (sc_threads s' u) (sc_threads s u) \<and> st s' u = st s u) \<and>
     sc_this s' = sc_this s \<and> sc_idle s' = sc_idle s \<and> sc_ports s' = sc_ports s \<and> sc_bitmap s' = sc_bitmap s \<and>
     sc_next s' = sc_next s \<and> set (sc_queue s') = set (sc_queue s) \<and> (cnt_ok s \<longrightarrow> cnt_ok s')"

lemma same_threads_core:
  assumes "same_threads s s'" and c: "sched_core s"
  shows "sched_core s'"
proof -
  have e: "\<And>u. same_obs (sc_threads s' u) (sc_threads s u)" "\<And>u. st s' u = st s u"
    "sc_this s' = sc_this s" "sc_idle s' = sc_idle s" "sc_ports s' = sc_ports s" "sc_bitmap s' = sc_bitmap s"
    "sc_next s' = sc_next s" "\<And>u. sc_queued s' u \<longleftrightarrow> sc_queued s u" "cnt_ok s'"
    using assms by (auto simp: same_threads_def sc_queued_def sched_core_def)
  have o: "th_type (sc_threads s' u) = th_type (sc_threads s u)" "th_ltid (sc_threads s' u) = th_ltid (sc_threads s u)"
    "has_flag TH_CAN_WAKEUP (sc_threads s' u) \<longleftrightarrow> has_flag TH_CAN_WAKEUP (sc_threads s u)" for u
    using e(1) [of u] by (auto simp: same_obs_def)
  have "th_ok s' u" for u by (rule th_ok_cong [OF sched_coreD(1) [OF c]]) (use o in \<open>simp_all add: e\<close>)
  moreover have "ltid_inj s'" by (rule ltid_inj_mono [OF sched_coreD(2) [OF c]]) (simp_all add: e o)
  moreover have "port_ok s' i" if "i < SCHED_THREADS_NR" for i
    by (rule port_ok_mono [OF sched_coreD(4) [OF c that]]) (simp_all add: e o ev_thread_def)
  moreover have "reg_ok s'" using sched_coreD(3) [OF c] by (simp add: reg_ok_def e)
  ultimately show ?thesis using e(9) by (simp add: sched_core_def)
qed

lemma same_threads_trans: "same_threads a b \<Longrightarrow> same_threads b c \<Longrightarrow> same_threads a c"
  by (simp add: same_threads_def same_obs_def)

lemma same_threads_upd_th:
  "(\<And>th. same_obs (f th) th \<and> th_state (f th) = th_state th) \<Longrightarrow> same_threads s (upd_th t f s)"
  by (simp add: same_threads_def cnt_ok_def sc_queue_def)

definition this_back :: "sched_cpu \<Rightarrow> bool" where
  "this_back s \<longleftrightarrow> th_type (sc_threads s (sc_this s)) \<noteq> TH_IDLE \<and> st s (sc_this s) = S_KERNEL"

lemma requeue_this_enq: "this_back s \<Longrightarrow> enq (sc_this s) S_READY s (requeue_this s)"
  unfolding enq_def requeue_this_def cnt_ok_def this_back_def
  by (auto simp: Let_def sc_queue_def same_obs_def)

lemma requeue_this_same: "\<not> this_back s \<Longrightarrow> requeue_this s = s"
  by (auto simp: requeue_this_def this_back_def Let_def)

text \<open>The state in which a thread is elected: the running thread is back in its queue.\<close>

definition before_take :: "sched_cpu \<Rightarrow> sched_cpu" where
  "before_take s = requeue_this (upd_th (sc_this s) (clear_flag TH_NEED_TO_SCHED) s)"

lemma before_take_core:
  assumes c: "sched_core s" and p: "\<forall>i<SCHED_THREADS_NR. port0_clear i s"
  shows "sched_core (before_take s)"
    and "sc_this (before_take s) = sc_this s" "sc_idle (before_take s) = sc_idle s"
      "sc_ports (before_take s) = sc_ports s"
    and "st (before_take s) u = (if this_back s \<and> u = sc_this s then S_READY else st s u)"
    and "sc_queued (before_take s) u \<longleftrightarrow> sc_queued s u \<or> this_back s \<and> u = sc_this s"
    and "same_obs (sc_threads (before_take s) u) (sc_threads s u)"
proof -
  let ?s = "upd_th (sc_this s) (clear_flag TH_NEED_TO_SCHED) s"
  have sm: "same_threads s ?s" by (rule same_threads_upd_th) (simp add: same_obs_def)
  then have c1: "sched_core ?s" using c by (rule same_threads_core)
  have tb: "this_back ?s = this_back s" by (simp add: this_back_def)
  have all: "sched_core (before_take s) \<and> sc_this (before_take s) = sc_this s \<and> sc_idle (before_take s) = sc_idle s \<and>
      sc_ports (before_take s) = sc_ports s \<and>
      (\<forall>u. st (before_take s) u = (if this_back s \<and> u = sc_this s then S_READY else st s u) \<and>
           (sc_queued (before_take s) u \<longleftrightarrow> sc_queued s u \<or> this_back s \<and> u = sc_this s) \<and>
           same_obs (sc_threads (before_take s) u) (sc_threads s u))"
  proof (cases "this_back s")
    case True
    have e: "enq (sc_this s) S_READY ?s (before_take s)"
      using requeue_this_enq [of ?s] tb True by (simp add: before_take_def)
    have k: "st s (sc_this s) = S_KERNEL" "sc_this s \<noteq> sc_idle s" "\<not> sc_queued s (sc_this s)"
      "th_ltid (sc_threads s (sc_this s)) < SCHED_THREADS_NR"
      using sched_coreD(1) [OF c, of "sc_this s"] True by (auto simp: th_ok_def this_back_def)
    have "sched_core (before_take s)"
      by (rule enq_core [OF e c1]) (use k p in \<open>auto simp: sc_queued_def port0_clear_def\<close>)
    with e True show ?thesis by (auto simp: enq_def sc_queued_def same_obs_def)
  next
    case False
    then have "before_take s = ?s" using requeue_this_same [of ?s] tb by (simp add: before_take_def)
    with c1 False show ?thesis by (auto simp: sc_queued_def same_obs_def)
  qed
  show "sched_core (before_take s)" "sc_this (before_take s) = sc_this s" "sc_idle (before_take s) = sc_idle s"
    "sc_ports (before_take s) = sc_ports s"
    "st (before_take s) u = (if this_back s \<and> u = sc_this s then S_READY else st s u)"
    "sc_queued (before_take s) u \<longleftrightarrow> sc_queued s u \<or> this_back s \<and> u = sc_this s"
    "same_obs (sc_threads (before_take s) u) (sc_threads s u)" using all by blast+
qed

text \<open>The elected thread is the head of the queues in the order of their priority.\<close>

lemma rr_elect_balancing_take:
  assumes "sched_core (before_take s)"
  shows "sc_queue (before_take s) = [] \<Longrightarrow> rr_elect_balancing s = Some (None, before_take s)"
    and "sc_queue (before_take s) = t # q \<Longrightarrow> \<exists>s'. rr_elect_balancing s = Some (Some t, s') \<and> sc_queue s' = q \<and> cnt_ok s' \<and>
           (\<forall>u. same_obs (sc_threads s' u) (sc_threads (before_take s) u) \<and> st s' u = st (before_take s) u) \<and>
           sc_this s' = sc_this (before_take s) \<and> sc_idle s' = sc_idle (before_take s) \<and>
           sc_ports s' = sc_ports (before_take s) \<and> sc_bitmap s' = sc_bitmap (before_take s) \<and> sc_next s' = sc_next (before_take s)"
proof -
  let ?s = "before_take s"
  have cnt: "cnt_ok ?s" and b: "length (sc_queue ?s) \<le> SCHED_THREADS_NR"
    using assms sched_core_queue_bound by (auto simp: sched_core_def)
  have n: "unat (sc_count ?s) = length (sc_queue ?s)"
    using cnt b by (simp add: cnt_ok_def unat_of_nat_32)
  then have g: "sc_count ?s > 0 \<longleftrightarrow> sc_queue ?s \<noteq> []" by (simp add: word_gt_0 unat_gt_0 [symmetric] del: unat_gt_0)
  show "sc_queue ?s = [] \<Longrightarrow> rr_elect_balancing s = Some (None, ?s)"
    using g by (simp add: rr_elect_balancing_def before_take_def [symmetric] Let_def)
  assume q: "sc_queue ?s = t # q"
  with g have "sc_count ?s > 0" by simp
  note u = rr_elect_balancing_def before_take_def [symmetric] Let_def this
  note v = take_elected_def sc_queue_def cnt_ok_def same_obs_def remove1_idem
  from q consider K where "sc_kthreads ?s = t # K" "q = K @ sc_migrate ?s @ sc_runnable ?s"
    | M where "sc_kthreads ?s = []" "sc_migrate ?s = t # M" "q = M @ sc_runnable ?s"
    | "sc_kthreads ?s = []" "sc_migrate ?s = []" "sc_runnable ?s = t # q"
    by (cases "sc_kthreads ?s"; cases "sc_migrate ?s") (auto simp: sc_queue_def)
  then show "\<exists>s'. rr_elect_balancing s = Some (Some t, s') \<and> sc_queue s' = q \<and> cnt_ok s' \<and>
      (\<forall>u. same_obs (sc_threads s' u) (sc_threads ?s u) \<and> st s' u = st ?s u) \<and> sc_this s' = sc_this ?s \<and>
      sc_idle s' = sc_idle ?s \<and> sc_ports s' = sc_ports ?s \<and> sc_bitmap s' = sc_bitmap ?s \<and> sc_next s' = sc_next ?s"
  proof cases
    case 1
    then have "rr_elect_balancing s = Some (Some t, take_elected t (?s\<lparr>sc_k_runnable := sc_k_runnable ?s - 1\<rparr>))" by (simp add: u)
    with 1 cnt show ?thesis by (simp add: v)
  next
    case 2
    then have "rr_elect_balancing s = Some (Some t, take_elected t
        (?s\<lparr>sc_u_runnable := sc_u_runnable ?s - 1, sc_rq_m_runnable := sc_rq_m_runnable ?s - 1\<rparr>))" by (simp add: u)
    with 2 cnt show ?thesis by (simp add: v)
  next
    case 3
    then have "rr_elect_balancing s = Some (Some t, take_elected t
        (?s\<lparr>sc_u_runnable := sc_u_runnable ?s - 1, sc_rq_u_runnable := sc_rq_u_runnable ?s - 1\<rparr>))" by (simp add: u)
    with 3 cnt show ?thesis by (simp add: v)
  qed
qed


text \<open>Running the elected thread \<open>t\<close>, or the idle thread when the queues are empty.\<close>

lemma run_core:
  assumes c: "sched_core b" and p: "\<forall>i<SCHED_THREADS_NR. port0_clear i b"
    and old: "\<And>u. u \<noteq> t \<Longrightarrow> u \<noteq> sc_idle b \<Longrightarrow> st b u \<noteq> S_KERNEL \<and> st b u \<noteq> S_USR"
    and t: "sc_queue b = t # sc_queue f \<or> t = sc_idle b \<and> sc_queue f = sc_queue b" and cnt: "cnt_ok f"
    and f: "sc_this f = t" "sc_idle f = sc_idle b" "sc_ports f = sc_ports b" "sc_bitmap f = sc_bitmap b" "sc_next f = sc_next b"
    and st: "\<And>u. st f u = (if u = t then k else st b u)"
    and k: "k = S_KERNEL \<or> k = S_USR \<and> t \<noteq> sc_idle b"
    and o: "\<And>u. th_type (sc_threads f u) = th_type (sc_threads b u) \<and> th_ltid (sc_threads f u) = th_ltid (sc_threads b u)"
    and can: "\<And>u. has_flag TH_CAN_WAKEUP (sc_threads f u) \<Longrightarrow> has_flag TH_CAN_WAKEUP (sc_threads b u) \<and> u \<noteq> t"
  shows "sched_core f"
proof -
  have d: "distinct (sc_queue b)" using sched_coreD(5) [OF c] by (simp add: cnt_ok_def)
  have ni: "\<not> sc_queued b (sc_idle b)" using sched_coreD(1) [OF c, of "sc_idle b"] by (auto simp: th_ok_def)
  have q: "sc_queued f u \<longleftrightarrow> sc_queued b u \<and> u \<noteq> t" for u using t d ni by (auto simp: sc_queued_def)
  have nd: "st b t \<noteq> S_DEAD" "sc_queued b t \<or> t = sc_idle b"
    using t sched_coreD(1) [OF c, of t] by (auto simp: th_ok_def sc_queued_def)
  have live: "st f u \<noteq> S_DEAD \<Longrightarrow> st b u \<noteq> S_DEAD" for u using st [of u] nd(1) by (auto split: if_splits)
  have p0: "fst (sc_ports f ! i) = 0" if "i < SCHED_THREADS_NR" for i using p that f(3) by (simp add: port0_clear_def)
  have "th_ok f u" for u
  proof (cases "u = t")
    case True
    have "sc_queued f t \<longleftrightarrow> False" "\<not> has_flag TH_CAN_WAKEUP (sc_threads f t)" "st f t = k" "k \<noteq> S_READY" "k \<noteq> S_CREATE" "k \<noteq> S_WAIT"
      using q can [of t] st k by auto
    then show ?thesis using True sched_coreD(1) [OF c, of t] nd(1) k o [of t] f by (auto simp: th_ok_def)
  next
    case False
    then have "st f u = st b u" "sc_queued f u \<longleftrightarrow> sc_queued b u" using st q by auto
    then show ?thesis using sched_coreD(1) [OF c, of u] False old [of u] can [of u] o [of u] unfolding th_ok_def f by metis
  qed
  moreover have "ltid_inj f" by (rule ltid_inj_mono [OF sched_coreD(2) [OF c]]) (use live o f in auto)
  moreover have "port_ok f i" if "i < SCHED_THREADS_NR" for i
  proof (rule port_ok_mono [OF sched_coreD(4) [OF c that]])
    fix u assume "ev_thread b i u"
    then show "ev_thread f i u" using st k o [of u] f by (auto simp: ev_thread_def)
  qed (use p0 [OF that] f in auto)
  moreover have "reg_ok f" using sched_coreD(3) [OF c] by (simp add: reg_ok_def f)
  ultimately show ?thesis using cnt by (simp add: sched_core_def)
qed


text \<open>\<open>schedule\<close> finds a thread to run from every state of the running thread but \<^verbatim>\<open>S_USR\<close>, and it is the
  idle thread only when no thread is ready.\<close>

lemma schedule_core:
  assumes c: "sched_core s" and u: "st s (sc_this s) \<noteq> S_USR" and cap: "\<And>u. \<not> has_flag TH_CAP_WAKEUP (sc_threads s u)"
  shows "\<exists>s1. schedule s = Some s1 \<and> sched_inv (sched_sleep_return s1) \<and> sc_idle s1 = sc_idle s \<and>
     (let b = before_take (sched_event_notify s)
      in if sc_queue b = [] then sc_this s1 = sc_idle s \<and> sc_queue s1 = []
         else sc_this s1 = hd (sc_queue b) \<and> sc_queue s1 = tl (sc_queue b) \<and> sc_this s1 \<noteq> sc_idle s)"
proof -
  let ?n = "sched_event_notify s" and ?b = "before_take (sched_event_notify s)"
  have n: "notified s ?n" and p: "\<forall>i<SCHED_THREADS_NR. port0_clear i ?n" using sched_event_notify_core [OF c] by auto
  have cn: "sched_core ?n" and nt: "sc_this ?n = sc_this s" "sc_idle ?n = sc_idle s" using n by (auto simp: notified_def)
  note b = before_take_core [OF cn p]
  have pb: "\<forall>i<SCHED_THREADS_NR. port0_clear i ?b" using p b(4) by (simp add: port0_clear_def)
  have old: "st ?b u \<noteq> S_KERNEL \<and> st ?b u \<noteq> S_USR" if "u \<noteq> sc_idle ?b" for u
  proof (cases "u = sc_this s")
    case True
    have "st ?n u = st s u \<or> st ?n u = S_READY" using n by (auto simp: notified_def)
    with True u have "st ?n u \<noteq> S_USR" by auto
    moreover have "st ?n u = S_KERNEL \<longrightarrow> th_type (sc_threads ?n u) \<noteq> TH_IDLE"
      using sched_coreD(1) [OF cn, of u] that b(3) by (auto simp: th_ok_def)
    ultimately show ?thesis using True nt by (auto simp: b(5) this_back_def)
  next
    case False
    then show ?thesis using sched_coreD(1) [OF b(1), of u] that b(2) nt by (auto simp: th_ok_def)
  qed
  have capb: "\<not> has_flag TH_CAP_WAKEUP (sc_threads ?b u)" for u
    using b(7) [of u] n cap [of u] by (auto simp: notified_def same_obs_def)
  show ?thesis
  proof (cases "sc_queue ?b")
    case Nil
    let ?s1 = "upd_th (sc_idle s) (\<lambda>th. th\<lparr>th_state := S_KERNEL\<rparr>) (?b\<lparr>sc_active := False, sc_this := sc_idle s\<rparr>)"
    have i: "st ?b (sc_idle s) = S_KERNEL" using sched_coreD(1) [OF b(1), of "sc_idle s"] b(3) nt by (simp add: th_ok_def)
    have e: "schedule s = Some ?s1"
      using rr_elect_balancing_take(1) [OF b(1) Nil] b(2,3) nt i by (simp add: schedule_def upd_th_def)
    have cnt: "cnt_ok (sched_sleep_return ?s1)" using sched_coreD(5) [OF b(1)]
      by (simp add: sched_sleep_return_def cnt_ok_def sc_queue_def)
    have "sched_core (sched_sleep_return ?s1)"
      by (rule run_core [OF b(1) pb, where t = "sc_idle s" and k = S_KERNEL])
        (use old b(3) nt cnt in \<open>auto simp: sched_sleep_return_def sc_queue_def split: if_splits\<close>)
    then have "sched_inv (sched_sleep_return ?s1)" using capb by (simp add: sched_inv_def sched_sleep_return_def)
    moreover have "sc_idle ?s1 = sc_idle s \<and> sc_this ?s1 = sc_idle s \<and> sc_queue ?s1 = []"
      using Nil b(3) nt by (simp add: sc_queue_def)
    ultimately show ?thesis using e Nil by (intro exI [of _ ?s1]) (simp add: Let_def)
  next
    case (Cons t q)
    from rr_elect_balancing_take(2) [OF b(1) Cons] obtain s' where
      e: "rr_elect_balancing ?n = Some (Some t, s')" and q: "sc_queue s' = q" "cnt_ok s'"
      and o: "\<And>u. same_obs (sc_threads s' u) (sc_threads ?b u)" "\<And>u. st s' u = st ?b u"
      and s': "sc_this s' = sc_this ?b" "sc_idle s' = sc_idle ?b" "sc_ports s' = sc_ports ?b"
        "sc_bitmap s' = sc_bitmap ?b" "sc_next s' = sc_next ?b" by blast
    define k where "k = (if t \<noteq> sc_this s \<and> st ?b t = S_CREATE \<and> th_type (sc_threads ?b t) = PTHREAD then S_USR else S_KERNEL)"
    define s1 where "s1 = upd_th t (\<lambda>th. th\<lparr>th_state := k\<rparr>) (s'\<lparr>sc_active := True, sc_this := t\<rparr>)"
    have "th_type (sc_threads s' t) = th_type (sc_threads ?b t)" using o(1) [of t] by (simp add: same_obs_def)
    then have es: "schedule s = Some s1"
      using e s' b(2,3) nt o(2) [of t] by (auto simp: schedule_def upd_th_def s1_def k_def Let_def)
    have ti: "t \<noteq> sc_idle ?b" using sched_coreD(1) [OF b(1), of t] Cons by (simp add: th_ok_def sc_queued_def)
    have cnt: "cnt_ok (sched_sleep_return s1)" "sc_queue (sched_sleep_return s1) = q" "sc_queue s1 = q" using q
      by (auto simp: sched_sleep_return_def cnt_ok_def sc_queue_def s1_def)
    have oo: "th_type (sc_threads (sched_sleep_return s1) u) = th_type (sc_threads ?b u) \<and>
        th_ltid (sc_threads (sched_sleep_return s1) u) = th_ltid (sc_threads ?b u)"
      "has_flag TH_CAN_WAKEUP (sc_threads (sched_sleep_return s1) u) \<Longrightarrow> has_flag TH_CAN_WAKEUP (sc_threads ?b u) \<and> u \<noteq> t"
      "\<not> has_flag TH_CAP_WAKEUP (sc_threads (sched_sleep_return s1) u)" for u
      using o(1) [of u] capb [of u] by (auto simp: sched_sleep_return_def s1_def same_obs_def split: if_splits)
    have "sched_core (sched_sleep_return s1)"
    proof (rule run_core [OF b(1) pb _ _ cnt(1), where t = t and k = k])
      show "st (sched_sleep_return s1) u = (if u = t then k else st ?b u)" for u
        by (simp add: sched_sleep_return_def s1_def o(2))
      show "sc_queue ?b = t # sc_queue (sched_sleep_return s1) \<or>
          t = sc_idle ?b \<and> sc_queue (sched_sleep_return s1) = sc_queue ?b" using cnt(2) Cons by simp
      show "k = S_KERNEL \<or> k = S_USR \<and> t \<noteq> sc_idle ?b" using ti by (simp add: k_def)
      show "has_flag TH_CAN_WAKEUP (sc_threads ?b u) \<and> u \<noteq> t" if "has_flag TH_CAN_WAKEUP (sc_threads (sched_sleep_return s1) u)" for u
        using oo(2) that .
    qed (simp_all add: old oo(1), simp_all add: sched_sleep_return_def s1_def s')
    then have "sched_inv (sched_sleep_return s1)" using oo(3) by (simp add: sched_inv_def sched_sleep_return_def s1_def k_def)
    moreover have "sc_idle s1 = sc_idle s \<and> sc_this s1 = t" using s' b(3) nt by (simp add: s1_def)
    moreover have "t \<noteq> sc_idle s" using ti b(3) nt by simp
    ultimately show ?thesis using es Cons cnt(3) by (intro exI [of _ s1]) (simp add: Let_def)
  qed
qed


section \<open>The other operations\<close>

lemma queue_bits [simp]: "sc_queued (upd_th t f s) u = sc_queued s u"
  by (simp add: sc_queued_def)

text \<open>A change of one thread.\<close>

lemma upd_one_core:
  assumes c: "sched_core s" and l: "\<And>th. th_ltid (f th) = th_ltid th" and live: "st s t \<noteq> S_DEAD" "th_state (f (sc_threads s t)) \<noteq> S_DEAD"
    and cr: "th_state (f (sc_threads s t)) = S_CREATE \<longleftrightarrow> st s t = S_CREATE" and ok: "th_ok (upd_th t f s) t"
  shows "sched_core (upd_th t f s)"
proof -
  have e: "ev_thread (upd_th t f s) i u = ev_thread s i u" for i u using l live by (auto simp: ev_thread_def)
  have "th_ok (upd_th t f s) u" for u
    by (cases "u = t") (use ok in blast, rule th_ok_cong [OF sched_coreD(1) [OF c]], simp_all)
  moreover have "ltid_inj (upd_th t f s)"
    by (rule ltid_inj_mono [OF sched_coreD(2) [OF c]]) (use l live in \<open>auto split: if_splits\<close>)
  moreover have "port_ok (upd_th t f s) i" if "i < SCHED_THREADS_NR" for i
    by (rule port_ok_mono [OF sched_coreD(4) [OF c that]]) (use e cr in \<open>auto split: if_splits\<close>)
  moreover have "cnt_ok (upd_th t f s)" "reg_ok (upd_th t f s)"
    using sched_coreD(5,3) [OF c] by (simp_all add: cnt_ok_def sc_queue_def reg_ok_def)
  ultimately show ?thesis by (simp add: sched_core_def)
qed

text \<open>Events sent to a thread.\<close>

lemma send_port_core:
  assumes c: "sched_core s" and e: "ev_thread s i t" "i < SCHED_THREADS_NR"
    and p: "p = (sched_event_make t SCHED_OP_WAKEUP, snd (sc_ports s ! i)) \<and> \<not> sc_queued s t \<and> st s t \<noteq> S_CREATE \<or>
            p = (fst (sc_ports s ! i), sched_event_make t SCHED_OP_UWAKEUP)"
  shows "sched_core (s\<lparr>sc_ports := (sc_ports s)[i := p]\<rparr>)" (is "sched_core ?s")
proof -
  note r = sched_core_ports_len [OF c]
  have q: "sc_queued ?s u = sc_queued s u" for u by (simp add: sc_queued_def sc_queue_def)
  have ev: "ev_thread ?s j u = ev_thread s j u" for j u by (simp add: ev_thread_def)
  have "th_ok ?s u" for u
  proof (rule th_ok_cong [OF sched_coreD(1) [OF c]])
    assume u: "st s u = S_CREATE" "u \<noteq> sc_idle s" "\<not> sc_queued s u"
    have "u = t" if "th_ltid (sc_threads s u) = i"
      using ltid_injD [OF sched_coreD(2) [OF c], of u t] that u e(1) by (auto simp: ev_thread_def)
    with u p have "th_ltid (sc_threads s u) \<noteq> i \<or> fst p = fst (sc_ports s ! i)" by auto
    then show "fst (sc_ports ?s ! th_ltid (sc_threads s u)) = fst (sc_ports s ! th_ltid (sc_threads s u))"
      using r e(2) by (auto simp: nth_list_update)
  qed (simp_all add: q)
  moreover have "port_ok ?s j" if "j < SCHED_THREADS_NR" for j
  proof (cases "j = i")
    case True
    have "port_ok s i" by (rule sched_coreD(4) [OF c e(2)])
    then show ?thesis using True p e r by (auto simp: port_ok_def q ev)
  next
    case False
    show ?thesis by (rule port_ok_mono [OF sched_coreD(4) [OF c that]]) (use False in \<open>simp_all add: q ev\<close>)
  qed
  moreover have "ltid_inj ?s" by (rule ltid_inj_mono [OF sched_coreD(2) [OF c]]) simp_all
  moreover have "cnt_ok ?s" "reg_ok ?s"
    using sched_coreD(5,3) [OF c] by (simp_all add: cnt_ok_def sc_queue_def reg_ok_def)
  ultimately show ?thesis by (simp add: sched_core_def)
qed

text \<open>A thread gets an identifier only it has; until it is added it is seen as waiting.\<close>

lemma sched_register_spec:
  assumes "reg_ok s"
  shows "(\<exists>k<SCHED_THREADS_NR. bm_bit (sc_bitmap s) k \<and> (\<forall>j<k. \<not> bm_bit (sc_bitmap s) j) \<and>
           sched_register t s = (0, upd_th t (\<lambda>th. th\<lparr>th_ltid := k\<rparr>)
             (s\<lparr>sc_bitmap := bitmap_clear (sc_bitmap s) k, sc_next := k + 1\<rparr>)))
    \<or> (\<forall>k<SCHED_THREADS_NR. \<not> bm_bit (sc_bitmap s) k) \<and> (\<exists>n. n \<le> SCHED_THREADS_NR \<and> sched_register t s = (ERANGE, s\<lparr>sc_next := n\<rparr>))"
proof -
  let ?n = "if sc_next s \<ge> SCHED_THREADS_NR then 0 else sc_next s"
  define index where "index = bitmap_ffs2 (sc_bitmap s) ?n 4"
  have f: "first_at (bm_bit (sc_bitmap s)) ?n 32 index"
    using bitmap_ffs2_first [of ?n 4 "sc_bitmap s"] by (auto simp: index_def)
  have low: "\<not> bm_bit (sc_bitmap s) j" if "j < ?n" for j
    using assms that by (auto simp: reg_ok_def split: if_splits)
  show ?thesis
  proof (cases "index = -1")
    case True
    then have "\<not> bm_bit (sc_bitmap s) k" if "k < 32" for k using f low that by (cases "k < ?n") (auto simp: first_at_def)
    moreover have "sched_register t s = (ERANGE, s\<lparr>sc_next := ?n\<rparr>)"
      using True by (auto simp: sched_register_def Let_def index_def)
    ultimately show ?thesis by (intro disjI2) (auto intro!: exI [of _ ?n])
  next
    case False
    define k where "k = nat index"
    with False f have k: "index = int k" "?n \<le> k" "k < 32" "bm_bit (sc_bitmap s) k" "\<forall>j. ?n \<le> j \<and> j < k \<longrightarrow> \<not> bm_bit (sc_bitmap s) j"
      by (simp_all add: first_at_def)
    have "\<not> bm_bit (sc_bitmap s) j" if "j < k" for j using k(5) low that by (cases "j < ?n") auto
    moreover have "sched_register t s = (0, upd_th t (\<lambda>th. th\<lparr>th_ltid := k\<rparr>)
             (s\<lparr>sc_bitmap := bitmap_clear (sc_bitmap s) k, sc_next := k + 1\<rparr>))"
      using False k(1) by (auto simp: sched_register_def Let_def index_def upd_th_def)
    ultimately show ?thesis using k by (intro disjI1) auto
  qed
qed


lemma register_core:
  assumes c: "sched_core s" and t: "st s t = S_DEAD" "t \<noteq> sc_idle s" "t \<noteq> sc_this s"
    and k: "k < SCHED_THREADS_NR" "bm_bit (sc_bitmap s) k" "\<forall>j<k. \<not> bm_bit (sc_bitmap s) j"
    and th: "th_type th \<noteq> TH_IDLE" "\<not> has_flag TH_CAN_WAKEUP th" "th_state th = S_WAIT" "th_ltid th = k"
  defines "m \<equiv> upd_th t (\<lambda>_. th) (s\<lparr>sc_bitmap := bitmap_clear (sc_bitmap s) k, sc_next := k + 1\<rparr>)"
  shows "sched_core m" and "sc_ports m ! k = (0, 0)" and "\<not> sc_queued m t"
proof -
  have q: "sc_queued m u = sc_queued s u" for u by (simp add: m_def sc_queued_def sc_queue_def)
  have nq: "\<not> sc_queued s t" using sched_coreD(1) [OF c, of t] t by (auto simp: th_ok_def)
  then show "\<not> sc_queued m t" by (simp add: q)
  have len: "length (sc_bitmap s) = 1" using sched_coreD(3) [OF c] by (simp add: reg_ok_def)
  have bm: "j < SCHED_THREADS_NR \<Longrightarrow> bm_bit (sc_bitmap m) j \<longleftrightarrow> j \<noteq> k \<and> bm_bit (sc_bitmap s) j" for j
    using len by (simp add: m_def bitmap_simps)
  have lt: "th_ltid (sc_threads s u) \<noteq> k" if "st s u \<noteq> S_DEAD" "u \<noteq> sc_idle s" for u
    using sched_coreD(1) [OF c, of u] that k by (auto simp: th_ok_def)
  have ev: "ev_thread s i u \<Longrightarrow> ev_thread m i u" for i u using t by (auto simp: ev_thread_def m_def)
  have "port_ok s k" by (rule sched_coreD(4) [OF c k(1)])
  moreover have "\<not> ev_thread s k u" for u using lt [of u] by (auto simp: ev_thread_def)
  ultimately show "sc_ports m ! k = (0, 0)" by (simp add: m_def port_ok_def prod_eq_iff)
  have "th_ok m u" for u
  proof (cases "u = t")
    case True
    then show ?thesis using t th nq k bm [OF k(1)] by (simp add: th_ok_def q) (simp add: m_def)
  next
    case False
    then show ?thesis
      by (intro th_ok_cong [OF sched_coreD(1) [OF c, of u]]) (use bm q in \<open>auto simp: m_def\<close>)
  qed
  moreover have "ltid_inj m"
    unfolding ltid_inj_def
  proof (intro allI impI, elim conjE)
    fix a b assume a: "st m a \<noteq> S_DEAD" "st m b \<noteq> S_DEAD" "a \<noteq> sc_idle m" "b \<noteq> sc_idle m"
      "th_ltid (sc_threads m a) = th_ltid (sc_threads m b)"
    have "th_ltid (sc_threads m u) = (if u = t then k else th_ltid (sc_threads s u))" "u \<noteq> t \<Longrightarrow> st m u = st s u" for u
      using th by (simp_all add: m_def)
    with a lt [of a] lt [of b] ltid_injD [OF sched_coreD(2) [OF c], of a b] show "a = b"
      by (cases "a = t"; cases "b = t") (use th(4) in \<open>auto simp: m_def\<close>)
  qed
  moreover have "port_ok m i" if "i < SCHED_THREADS_NR" for i
    by (rule port_ok_mono [OF sched_coreD(4) [OF c that]]) (use ev q t in \<open>auto simp: m_def ev_thread_def\<close>)
  moreover have "reg_ok m"
  proof -
    have "\<not> bm_bit (sc_bitmap m) j" if "j < k + 1" for j
      using bm [of j] k that by (cases "j = k") auto
    then show ?thesis using sched_coreD(3) [OF c] k by (simp add: reg_ok_def) (simp add: m_def)
  qed
  moreover have "cnt_ok m" using sched_coreD(5) [OF c] by (simp add: m_def cnt_ok_def sc_queue_def)
  ultimately show "sched_core m" by (simp add: sched_core_def)
qed

lemma created_core:
  assumes c: "sched_core m" and t: "st m t = S_WAIT" "t \<noteq> sc_idle m" "\<not> sc_queued m t" "th_aligned t"
    "\<not> has_flag TH_CAN_WAKEUP (sc_threads m t)" and p: "fst (sc_ports m ! th_ltid (sc_threads m t)) = 0"
  shows "sched_core (sched_event_send t SCHED_OP_ADD_CREATED (upd_th t (\<lambda>th. th\<lparr>th_state := S_CREATE\<rparr>) m))" (is "sched_core ?s")
proof -
  let ?i = "th_ltid (sc_threads m t)"
  note r = sched_core_ports_len [OF c]
  have i: "?i < SCHED_THREADS_NR" using sched_coreD(1) [OF c, of t] t by (auto simp: th_ok_def)
  have s: "?s = upd_th t (\<lambda>th. th\<lparr>th_state := S_CREATE\<rparr>)
      (m\<lparr>sc_ports := (sc_ports m)[?i := (sched_event_make t SCHED_OP_ADD_CREATED, snd (sc_ports m ! ?i))]\<rparr>)"
    by (simp add: sched_event_send_def Let_def upd_th_def split: prod.split)
  have q: "sc_queued ?s u = sc_queued m u" for u by (simp add: s sc_queued_def sc_queue_def)
  have ev: "ev_thread ?s j u = ev_thread m j u" for j u using t by (auto simp: ev_thread_def s)
  have "th_ok ?s u" for u
  proof (cases "u = t")
    case True
    then show ?thesis using t r i sched_coreD(1) [OF c, of t] by (simp add: th_ok_def q) (simp add: s)
  next
    case False
    show ?thesis
    proof (rule th_ok_cong [OF sched_coreD(1) [OF c]])
      assume "st m u = S_CREATE" "u \<noteq> sc_idle m"
      then have "th_ltid (sc_threads m u) \<noteq> ?i" using ltid_injD [OF sched_coreD(2) [OF c], of u t] t False by auto
      then show "fst (sc_ports ?s ! th_ltid (sc_threads m u)) = fst (sc_ports m ! th_ltid (sc_threads m u))" by (simp add: s)
    qed (use False in \<open>auto simp: q s sc_queued_def sc_queue_def\<close>)
  qed
  moreover have "port_ok ?s j" if "j < SCHED_THREADS_NR" for j
  proof (cases "j = ?i")
    case True
    have "ev_thread m ?i t" using t by (simp add: ev_thread_def)
    then show ?thesis using True sched_coreD(4) [OF c that] t r i unfolding port_ok_def ev q
      by (intro conjI) (rule disjI2, rule exI [of _ t], simp add: s, simp add: s)
  next
    case False
    then have "u \<noteq> t" if "ev_thread m j u" for u using that by (auto simp: ev_thread_def)
    with False show ?thesis
      by (intro port_ok_mono [OF sched_coreD(4) [OF c that]]) (auto simp: q ev, auto simp: s)
  qed
  moreover have "ltid_inj ?s"
    by (rule ltid_inj_mono [OF sched_coreD(2) [OF c]]) (use t in \<open>auto simp: s split: if_splits\<close>)
  moreover have "cnt_ok ?s" "reg_ok ?s"
    using sched_coreD(5,3) [OF c] by (simp_all add: s cnt_ok_def sc_queue_def reg_ok_def)
  ultimately show ?thesis by (simp add: sched_core_def)
qed

lemma unregister_core:
  assumes c: "sched_core s" and t: "st s t \<noteq> S_DEAD" "t \<noteq> sc_idle s" "\<not> sc_queued s t"
    and f: "th_state (f (sc_threads s t)) = S_DEAD" "\<not> has_flag TH_CAN_WAKEUP (f (sc_threads s t))"
  shows "sched_core (upd_th t f (sched_unregister t s))"
proof -
  define n where "n = upd_th t f (sched_unregister t s)"
  let ?i = "th_ltid (sc_threads s t)"
  note r = sched_core_ports_len [OF c]
  have i: "?i < SCHED_THREADS_NR" using sched_coreD(1) [OF c, of t] t by (auto simp: th_ok_def)
  have len: "length (sc_bitmap s) = 1" using sched_coreD(3) [OF c] by (simp add: reg_ok_def)
  have s: "sc_threads n = (sc_threads s)(t := f (sc_threads s t))" "sc_this n = sc_this s" "sc_idle n = sc_idle s"
    "sc_ports n = (sc_ports s)[?i := (0, 0)]" "sc_bitmap n = bitmap_set (sc_bitmap s) ?i" "sc_next n = min ?i (sc_next s)"
    "sc_queue n = sc_queue s"
    by (auto simp: n_def sched_unregister_def Let_def sc_queue_def)
  have q: "sc_queued n u = sc_queued s u" for u unfolding sc_queued_def s(7) ..
  have bm: "j < SCHED_THREADS_NR \<Longrightarrow> bm_bit (sc_bitmap n) j \<longleftrightarrow> j = ?i \<or> bm_bit (sc_bitmap s) j" for j
    using len by (simp add: s bitmap_simps)
  have inj: "th_ltid (sc_threads s u) \<noteq> ?i \<and> ?i \<noteq> th_ltid (sc_threads s u)" if "u \<noteq> t" "st s u \<noteq> S_DEAD" "u \<noteq> sc_idle s" for u
    using ltid_injD [OF sched_coreD(2) [OF c], of u t] t that by auto
  have "th_ok n u" for u
  proof (cases "u = t")
    case True
    then show ?thesis using t f by (simp add: th_ok_def q) (simp add: s)
  next
    case False
    then show ?thesis
      by (intro th_ok_cong [OF sched_coreD(1) [OF c, of u]]) (use bm inj [of u] in \<open>auto simp: s q\<close>)
  qed
  moreover have "port_ok n j" if "j < SCHED_THREADS_NR" for j
  proof (cases "j = ?i")
    case True
    then show ?thesis using r i by (simp add: port_ok_def s)
  next
    case False
    then have "u \<noteq> t" if "ev_thread s j u" for u using that by (auto simp: ev_thread_def)
    then show ?thesis using False
      by (intro port_ok_mono [OF sched_coreD(4) [OF c that]]) (auto simp: s q ev_thread_def)
  qed
  moreover have "ltid_inj n"
    by (rule ltid_inj_mono [OF sched_coreD(2) [OF c]]) (use f t in \<open>auto simp: s split: if_splits\<close>)
  moreover have "cnt_ok n" using sched_coreD(5) [OF c]
    by (simp add: cnt_ok_def s) (simp add: n_def sched_unregister_def Let_def)
  moreover have "reg_ok n"
  proof -
    have "\<not> bm_bit (sc_bitmap n) k" if "k < min ?i (sc_next s)" for k
      using bm [of k] that i sched_coreD(3) [OF c] by (auto simp: reg_ok_def)
    then show ?thesis using sched_coreD(3) [OF c] i unfolding reg_ok_def s(6) by (simp add: s)
  qed
  ultimately have "sched_core n" by (simp add: sched_core_def)
  then show ?thesis by (simp add: n_def)
qed


text \<open>The clock changes quanta, priorities and flags, and may move one thread to the queue of the threads
  to be migrated.\<close>

lemma same_threads_refl [simp]: "same_threads s s"
  by (simp add: same_threads_def)

lemma same_threads_flags:
  "same_threads s (upd_th t (\<lambda>th. clear_flag TH_NEED_TO_MIGRATE (th\<lparr>th_boosted_prio := g th\<rparr>)) s)"
  "same_threads s (upd_th t (set_flag TH_NEED_TO_MIGRATE) s)" "same_threads s (upd_th t (set_flag TH_NEED_TO_SCHED) s)"
  "same_threads s (upd_th t (\<lambda>th. (set_flag TH_NEED_TO_SCHED th)\<lparr>th_quantum := 0\<rparr>) s)"
  "same_threads s (upd_th t (\<lambda>th. if th_quantum th > 0 then th\<lparr>th_quantum := th_quantum th - 1\<rparr> else th) s)"
  "same_threads s (upd_th t (\<lambda>th. th\<lparr>th_ticks_nr := th_ticks_nr th + 1\<rparr>) s)"
  "same_threads s (s\<lparr>sc_clock_cntr := x\<rparr>)"
  by (rule same_threads_upd_th, simp add: same_obs_def)+ (simp add: same_threads_def cnt_ok_def sc_queue_def)

lemma balance_loop_same:
  assumes "balance_loop ts victim mx s = (v, x, s')"
  shows "same_threads s s' \<and> sc_runnable s' = sc_runnable s \<and> sc_migrate s' = sc_migrate s \<and> sc_kthreads s' = sc_kthreads s \<and>
    (v = victim \<or> v \<in> set ts)"
  using assms
proof (induction ts arbitrary: victim mx s)
  case (Cons thread rest)
  let ?u = "upd_th thread (\<lambda>th. clear_flag TH_NEED_TO_MIGRATE (th\<lparr>th_boosted_prio := th_boosted_prio th div 2\<rparr>)) s"
  show ?case
  proof (cases "has_flag TH_EXPORTED (sc_threads s thread) \<or> \<not> has_flag TH_CAN_MIGRATE (sc_threads s thread)")
    case True
    then show ?thesis using Cons by (auto simp: Let_def)
  next
    case False
    let ?p = "if th_boosted_prio (sc_threads s thread) > mx then (thread, th_boosted_prio (sc_threads s thread)) else (victim, mx)"
    have e: "balance_loop rest (fst ?p) (snd ?p) ?u = (v, x, s')"
      using Cons.prems False by (auto simp: Let_def split: if_splits)
    have "same_threads ?u s' \<and> sc_runnable s' = sc_runnable ?u \<and> sc_migrate s' = sc_migrate ?u \<and> sc_kthreads s' = sc_kthreads ?u \<and>
        (v = fst ?p \<or> v \<in> set rest)"
      by (rule Cons.IH [OF e])
    then show ?thesis using same_threads_trans [OF same_threads_flags(1) [of s thread]] by (auto split: if_splits)
  qed
qed simp

lemma move_same:
  assumes "v \<in> set (sc_runnable s)"
  shows "same_threads s (s\<lparr>sc_runnable := remove1 v (sc_runnable s), sc_migrate := sc_migrate s @ [v],
     sc_rq_m_runnable := sc_rq_m_runnable s + 1, sc_rq_u_runnable := sc_rq_u_runnable s - 1\<rparr>)"
proof -
  obtain a b where r: "sc_runnable s = a @ v # b" "v \<notin> set a" using assms by (metis split_list_first)
  then have "remove1 v (sc_runnable s) = a @ b" by (simp add: remove1_append)
  moreover have "cnt_ok s \<longrightarrow> cnt_ok (s\<lparr>sc_runnable := a @ b, sc_migrate := sc_migrate s @ [v],
     sc_rq_m_runnable := sc_rq_m_runnable s + 1, sc_rq_u_runnable := sc_rq_u_runnable s - 1\<rparr>)"
    unfolding cnt_ok_def sc_queue_def by (auto simp: r(1))
  ultimately show ?thesis using r(1) by (simp add: same_threads_def) (auto simp: sc_queue_def)
qed

lemma rr_sched_load_balance_same: "same_threads s (rr_sched_load_balance this s)"
proof -
  let ?u = "upd_th this (\<lambda>th. clear_flag TH_NEED_TO_MIGRATE (th\<lparr>th_boosted_prio := th_boosted_prio th div 2\<rparr>)) s"
  let ?mx = "if \<not> has_flag TH_EXPORTED (sc_threads s this) \<and> has_flag TH_CAN_MIGRATE (sc_threads s this)
    then th_boosted_prio (sc_threads s this) else -1"
  obtain v x s' where e: "balance_loop (sc_runnable ?u) this ?mx ?u = (v, x, s')" by (rule prod_cases3)
  note b = balance_loop_same [OF e]
  let ?w = "upd_th v (set_flag TH_NEED_TO_MIGRATE) s'"
  have s1: "same_threads s s'" by (rule same_threads_trans [OF same_threads_flags(1) conjunct1 [OF b]])
  then have s2: "same_threads s ?w" by (rule same_threads_trans [OF _ same_threads_flags(2)])
  have "rr_sched_load_balance this s = s' \<or> rr_sched_load_balance this s = ?w \<or>
      v \<noteq> this \<and> rr_sched_load_balance this s = ?w\<lparr>sc_runnable := remove1 v (sc_runnable ?w), sc_migrate := sc_migrate ?w @ [v],
        sc_rq_m_runnable := sc_rq_m_runnable ?w + 1, sc_rq_u_runnable := sc_rq_u_runnable ?w - 1\<rparr>"
    unfolding rr_sched_load_balance_def Let_def e by (simp add: Let_def)
  moreover have "v \<noteq> this \<Longrightarrow> v \<in> set (sc_runnable ?w)" using b by auto
  ultimately show ?thesis using s1 s2 same_threads_trans [OF s2 move_same] by metis
qed

lemma rr_clock_same: "same_threads s (rr_clock this s)"
  unfolding rr_clock_def Let_def by (auto intro: same_threads_flags same_threads_trans)

lemma rr_clock_balancing_same: "same_threads s (rr_clock_balancing usage U1 U2 U_root this s)"
proof -
  define c where "c = rr_clock this s"
  define e where "e = c\<lparr>sc_clock_cntr := sc_clock_cntr c +
    (if (usage \<ge> 150 \<and> sc_rq_u_runnable c > 0 \<and> sc_user_nr c > 1) \<and> (U1 \<le> 90 \<or> U2 \<le> 95) then drop_bit 1 (sc_period c) else 1)\<rparr>"
  define d where "d = (if sc_clock_cntr e \<ge> sc_period e
    then if (usage \<ge> 150 \<and> sc_rq_u_runnable c > 0 \<and> sc_user_nr c > 1) \<and> U_root < 100
         then rr_sched_load_balance this (e\<lparr>sc_clock_cntr := 0\<rparr>) else e\<lparr>sc_clock_cntr := 0\<rparr>
    else e)"
  have "same_threads s e"
    unfolding e_def c_def by (rule same_threads_trans [OF rr_clock_same same_threads_flags(7)])
  moreover have "same_threads e d"
    unfolding d_def by (simp add: same_threads_flags(7) same_threads_trans [OF same_threads_flags(7) rr_sched_load_balance_same])
  ultimately have d: "same_threads s d" by (rule same_threads_trans)
  have "rr_clock_balancing usage U1 U2 U_root this s =
      (if sc_rq_m_runnable d > 0 \<and> \<not> has_flag TH_EXPORTED (sc_threads d this)
       then upd_th this (\<lambda>th. (set_flag TH_NEED_TO_SCHED th)\<lparr>th_quantum := 0\<rparr>) d else d)"
    by (simp only: rr_clock_balancing_def Let_def d_def e_def c_def)
  then show ?thesis using d same_threads_trans [OF d same_threads_flags(4)] by simp
qed


section \<open>The life of the threads of a processor\<close>

text \<open>
  The calls made by the threads of the processor and the events other processors send, under the conditions
  that the callers keep and the scheduler does not test:

  \<^item> a kernel wake-up is sent once to a thread that has entered a wait queue, maybe before it goes to sleep: so
    not to a thread that is in a scheduler queue already, nor to one that is just created. (\<^verbatim>\<open>rr_wakeup\<close> has no
    such test: a second wake-up of a queued thread links it twice, \<open>sched_double_wakeup\<close> below.) A user wake-up
    (\<^verbatim>\<open>sys_thread_wakeup\<close>) is sent at any time;
  \<^item> the running thread calls the scheduler from the kernel, not from user mode; \<^verbatim>\<open>sys_thread_sleep\<close>,
    \<^verbatim>\<open>sched_exit\<close> and \<^verbatim>\<open>sched_remove\<close> are called in \<^verbatim>\<open>S_KERNEL\<close>, as \<^verbatim>\<open>rr_exit\<close> and \<^verbatim>\<open>rr_remove\<close> assert, and none
    of the calls but \<^verbatim>\<open>sched_yield\<close> by the idle thread;
  \<^item> events are sent to threads that are alive, and thread descriptors are aligned to pages.

  The thread that runs after \<open>schedule\<close> returns from its own call of it; \<^verbatim>\<open>TH_CAN_WAKEUP\<close> is set only in
  \<^verbatim>\<open>sched_sleep\<close>, which clears it there.
\<close>

definition new_thread :: "thread_s \<Rightarrow> bool" where
  "new_thread th \<longleftrightarrow> th_type th \<noteq> TH_IDLE \<and> \<not> has_flag TH_CAN_WAKEUP th \<and> \<not> has_flag TH_CAP_WAKEUP th"

inductive sched_step :: "sched_cpu \<Rightarrow> sched_cpu \<Rightarrow> bool" where
  create: "st s t = S_DEAD \<Longrightarrow> t \<noteq> sc_idle s \<Longrightarrow> th_aligned t \<Longrightarrow> new_thread th \<Longrightarrow>
    sched_register t (upd_th t (\<lambda>_. th) s) = (0, s1) \<Longrightarrow> sched_step s (sched_add_created t s1)"
| migrated: "st s t = S_DEAD \<Longrightarrow> t \<noteq> sc_idle s \<Longrightarrow> th_aligned t \<Longrightarrow> new_thread th \<Longrightarrow>
    sched_register t (upd_th t (\<lambda>_. th) s) = (0, s1) \<Longrightarrow> sched_step s (sched_add t s1)"
| wakeup: "st s t \<noteq> S_DEAD \<Longrightarrow> st s t \<noteq> S_CREATE \<Longrightarrow> t \<noteq> sc_idle s \<Longrightarrow> th_aligned t \<Longrightarrow> \<not> sc_queued s t \<Longrightarrow>
    sched_step s (sched_wakeup t s)"
| uwakeup: "st s t \<noteq> S_DEAD \<Longrightarrow> t \<noteq> sc_idle s \<Longrightarrow> th_aligned t \<Longrightarrow> sched_step s (thread_wakeup_target t s)"
| clock: "sched_step s (sched_clock usage U1 U2 U_root s)"
| idle: "sched_step s (sched_idle s)"
| enter: "st s (sc_this s) = S_USR \<Longrightarrow> sched_step s (upd_th (sc_this s) (\<lambda>th. th\<lparr>th_state := S_KERNEL\<rparr>) s)"
| leave: "st s (sc_this s) = S_KERNEL \<Longrightarrow> sc_this s \<noteq> sc_idle s \<Longrightarrow> sched_step s (upd_th (sc_this s) (\<lambda>th. th\<lparr>th_state := S_USR\<rparr>) s)"
| yield: "st s (sc_this s) \<noteq> S_USR \<Longrightarrow> sched_yield s = Some s1 \<Longrightarrow> sched_step s (sched_sleep_return s1)"
| sleep: "st s (sc_this s) \<noteq> S_USR \<Longrightarrow> sc_this s \<noteq> sc_idle s \<Longrightarrow> sched_sleep s = Some s1 \<Longrightarrow> sched_step s (sched_sleep_return s1)"
| usleep: "st s (sc_this s) = S_KERNEL \<Longrightarrow> sc_this s \<noteq> sc_idle s \<Longrightarrow> sys_thread_sleep s = Some s1 \<Longrightarrow>
    sched_step s (sched_sleep_return s1)"
| exit: "st s (sc_this s) = S_KERNEL \<Longrightarrow> sc_this s \<noteq> sc_idle s \<Longrightarrow> sched_exit s = Some s1 \<Longrightarrow> sched_step s (sched_sleep_return s1)"
| remove: "st s (sc_this s) = S_KERNEL \<Longrightarrow> sc_this s \<noteq> sc_idle s \<Longrightarrow> sched_remove s = Some s1 \<Longrightarrow> sched_step s (sched_sleep_return s1)"

inductive sched_reach :: "sched_cpu \<Rightarrow> bool" where
  init: "sched_init True s0 = (0, s) \<Longrightarrow> sc_this s0 = sc_idle s0 \<Longrightarrow>
    sc_threads s0 (sc_idle s0) = \<lparr>th_type = TH_IDLE, th_state = S_KERNEL, th_flags = 0, th_quantum = 0, th_boosted_prio = 0,
      th_ticks_nr = 0, th_ltid = 0\<rparr> \<Longrightarrow>
    (\<And>t. t \<noteq> sc_idle s0 \<Longrightarrow> st s0 t = S_DEAD \<and> th_flags (sc_threads s0 t) = 0) \<Longrightarrow>
    sc_u_runnable s0 = 0 \<Longrightarrow> sc_k_runnable s0 = 0 \<Longrightarrow> sched_reach s"
| step: "sched_reach s \<Longrightarrow> sched_step s s' \<Longrightarrow> sched_reach s'"

lemma sched_init_inv:
  assumes "sched_init True s0 = (0, s)" and "sc_this s0 = sc_idle s0" and "th_type (sc_threads s0 (sc_idle s0)) = TH_IDLE"
    and "st s0 (sc_idle s0) = S_KERNEL" "th_flags (sc_threads s0 (sc_idle s0)) = 0"
    and "\<And>t. t \<noteq> sc_idle s0 \<Longrightarrow> st s0 t = S_DEAD \<and> th_flags (sc_threads s0 t) = 0"
    and "sc_u_runnable s0 = 0" "sc_k_runnable s0 = 0"
  shows "sched_inv s"
proof -
  have s: "s = rr_sched_init (s0\<lparr>sc_bitmap := bitmap_set_range [0] 0 SCHED_THREADS_NR, sc_next := 0,
      sc_ports := replicate SCHED_THREADS_NR (0, 0)\<rparr>)" using assms(1) by (simp add: sched_init_def)
  have e: "sc_threads s = sc_threads s0" "sc_idle s = sc_idle s0" "sc_this s = sc_this s0" "sc_queue s = []"
    "sc_ports s = replicate SCHED_THREADS_NR (0, 0)"
    by (simp_all add: s rr_sched_init_def sc_queue_def)
  have fl: "th_flags (sc_threads s0 t) = 0" for t using assms(5) assms(6) [of t] by (cases "t = sc_idle s0") auto
  have "th_ok s t" for t
    using assms(2-4) assms(6) [of t] fl [of t] by (cases "t = sc_idle s0") (auto simp: th_ok_def e sc_queued_def)
  moreover have "ltid_inj s" unfolding ltid_inj_def e using assms(6) by metis
  moreover have "port_ok s i" if "i < SCHED_THREADS_NR" for i using that by (simp add: port_ok_def e)
  moreover have "cnt_ok s" using assms(7,8) by (simp add: cnt_ok_def e) (simp add: s rr_sched_init_def)
  moreover have "reg_ok s" by (simp add: reg_ok_def e) (simp add: s rr_sched_init_def)
  ultimately show ?thesis using assms(2,4) fl by (simp add: sched_inv_def sched_core_def e)
qed


lemma sched_invD:
  assumes "sched_inv s"
  shows "sched_core s" "st s (sc_this s) \<in> {S_KERNEL, S_USR, S_READY}" "\<not> has_flag TH_CAP_WAKEUP (sc_threads s t)"
    "\<not> has_flag TH_CAN_WAKEUP (sc_threads s (sc_this s))"
  using assms by (auto simp: sched_inv_def)

lemma sched_register_new:
  assumes i: "sched_inv s" and t: "st s t = S_DEAD" "t \<noteq> sc_idle s" "new_thread th"
    and r: "sched_register t (upd_th t (\<lambda>_. th) s) = (0, s1)"
  obtains k where "k < SCHED_THREADS_NR" "sched_core (upd_th t (\<lambda>th. th\<lparr>th_state := S_WAIT\<rparr>) s1)"
    "\<not> sc_queued s1 t" "sc_ports s1 ! k = (0, 0)" "sc_threads s1 = (sc_threads s)(t := th\<lparr>th_ltid := k\<rparr>)"
    "sc_this s1 = sc_this s" "sc_idle s1 = sc_idle s" "t \<noteq> sc_this s"
proof -
  note c = sched_invD(1) [OF i]
  have tt: "t \<noteq> sc_this s" using sched_invD(2) [OF i] t(1) by auto
  have "reg_ok (upd_th t (\<lambda>_. th) s)" using sched_coreD(3) [OF c] by (simp add: reg_ok_def)
  from sched_register_spec [OF this, of t] r obtain k where k: "k < SCHED_THREADS_NR" "bm_bit (sc_bitmap s) k"
    "\<forall>j<k. \<not> bm_bit (sc_bitmap s) j" and s1: "s1 = upd_th t (\<lambda>th. th\<lparr>th_ltid := k\<rparr>)
      ((upd_th t (\<lambda>_. th) s)\<lparr>sc_bitmap := bitmap_clear (sc_bitmap s) k, sc_next := k + 1\<rparr>)" by auto
  have m: "upd_th t (\<lambda>th. th\<lparr>th_state := S_WAIT\<rparr>) s1 =
      upd_th t (\<lambda>_. th\<lparr>th_ltid := k, th_state := S_WAIT\<rparr>) (s\<lparr>sc_bitmap := bitmap_clear (sc_bitmap s) k, sc_next := k + 1\<rparr>)"
    by (simp add: s1 upd_th_def)
  note rc = register_core [OF c t(1,2) tt k, of "th\<lparr>th_ltid := k, th_state := S_WAIT\<rparr>"]
  show ?thesis
  proof (rule that [of k])
    show "sched_core (upd_th t (\<lambda>th. th\<lparr>th_state := S_WAIT\<rparr>) s1)" unfolding m using t(3) by (intro rc(1)) (simp_all add: new_thread_def)
    show "\<not> sc_queued s1 t" "sc_ports s1 ! k = (0, 0)"
      using rc(2,3) t(3) by (simp_all add: new_thread_def s1 sc_queued_def sc_queue_def)
  qed (use k tt in \<open>simp_all add: s1\<close>)
qed

lemma create_inv:
  assumes i: "sched_inv s" and t: "st s t = S_DEAD" "t \<noteq> sc_idle s" "new_thread th" "th_aligned t"
    and r: "sched_register t (upd_th t (\<lambda>_. th) s) = (0, s1)"
  shows "sched_inv (sched_add_created t s1)" and "sched_inv (sched_add t s1)"
proof -
  obtain k where k: "k < SCHED_THREADS_NR" "sched_core (upd_th t (\<lambda>th. th\<lparr>th_state := S_WAIT\<rparr>) s1)" (is "sched_core ?m")
    "\<not> sc_queued s1 t" "sc_ports s1 ! k = (0, 0)" "sc_threads s1 = (sc_threads s)(t := th\<lparr>th_ltid := k\<rparr>)"
    "sc_this s1 = sc_this s" "sc_idle s1 = sc_idle s" "t \<noteq> sc_this s"
    using sched_register_new [OF i t(1-3) r] by blast
  have th: "\<not> has_flag TH_CAN_WAKEUP (sc_threads ?m t)" "\<not> has_flag TH_CAP_WAKEUP th" "th_ltid (sc_threads ?m t) = k"
    "sc_ports ?m ! k = (0, 0)" "\<not> sc_queued ?m t" "t \<noteq> sc_idle ?m"
    using t k by (auto simp: new_thread_def)
  have cur: "st s (sc_this s) \<in> {S_KERNEL, S_USR, S_READY}" "\<And>u. \<not> has_flag TH_CAP_WAKEUP (sc_threads s u)"
    "\<not> has_flag TH_CAN_WAKEUP (sc_threads s (sc_this s))"
    using sched_invD(2,3,4) [OF i] by auto
  have "sched_add_created t s1 = sched_event_send t SCHED_OP_ADD_CREATED (upd_th t (\<lambda>th. th\<lparr>th_state := S_CREATE\<rparr>) ?m)"
    by (simp add: sched_add_created_def upd_th_def)
  moreover have "sched_core (sched_event_send t SCHED_OP_ADD_CREATED (upd_th t (\<lambda>th. th\<lparr>th_state := S_CREATE\<rparr>) ?m))"
    by (rule created_core [OF k(2)]) (use th t(4) in simp_all)
  moreover have "sc_threads (sched_add_created t s1) = (sc_threads s)(t := th\<lparr>th_ltid := k, th_state := S_CREATE\<rparr>)"
    "sc_this (sched_add_created t s1) = sc_this s"
    using k by (simp_all add: sched_add_created_def sched_event_send_def Let_def split: prod.split)
  ultimately show "sched_inv (sched_add_created t s1)" using cur th(2) k(8) by (simp add: sched_inv_def)
  let ?r = "upd_th t (\<lambda>th. th\<lparr>th_state := S_READY\<rparr>) s1"
  have e: "enq t S_READY ?m (sched_add t s1)"
    using rr_add_created_enq [of t ?r] enq_upd_state [of t S_READY ?r "sched_add t s1" S_WAIT]
    by (simp add: sched_add_def upd_th_def)
  have "sched_core (sched_add t s1)"
    by (rule enq_core [OF e k(2)]) (use th in simp_all)
  moreover have "st (sched_add t s1) (sc_this s) = st s (sc_this s)" "sc_this (sched_add t s1) = sc_this s"
    "\<And>u. \<not> has_flag TH_CAP_WAKEUP (sc_threads (sched_add t s1) u)"
    "\<not> has_flag TH_CAN_WAKEUP (sc_threads (sched_add t s1) (sc_this s))"
    using e k(5,6,8) cur(2,3) th(2) by (auto simp: enq_def same_obs_def)
  ultimately show "sched_inv (sched_add t s1)" using cur(1) by (simp add: sched_inv_def)
qed

lemma send_inv:
  assumes i: "sched_inv s" and t: "st s t \<noteq> S_DEAD" "t \<noteq> sc_idle s" "th_aligned t"
  shows "\<not> sc_queued s t \<Longrightarrow> st s t \<noteq> S_CREATE \<Longrightarrow> sched_inv (sched_wakeup t s)"
    and "sched_inv (thread_wakeup_target t s)"
proof -
  note c = sched_invD(1) [OF i]
  let ?k = "th_ltid (sc_threads s t)"
  have e: "ev_thread s ?k t" "?k < SCHED_THREADS_NR" using t sched_coreD(1) [OF c, of t] by (auto simp: ev_thread_def th_ok_def)
  have w: "sched_wakeup t s = s\<lparr>sc_ports := (sc_ports s)[?k := (sched_event_make t SCHED_OP_WAKEUP, snd (sc_ports s ! ?k))]\<rparr>"
    "thread_wakeup_target t s = s\<lparr>sc_ports := (sc_ports s)[?k := (fst (sc_ports s ! ?k), sched_event_make t SCHED_OP_UWAKEUP)]\<rparr>"
    by (simp_all add: sched_wakeup_def thread_wakeup_target_def sched_event_send_def Let_def split: prod.split)
  show "\<not> sc_queued s t \<Longrightarrow> st s t \<noteq> S_CREATE \<Longrightarrow> sched_inv (sched_wakeup t s)"
    using send_port_core [OF c e] sched_invD(2,3,4) [OF i] by (simp add: w sched_inv_def)
  show "sched_inv (thread_wakeup_target t s)"
    using send_port_core [OF c e] sched_invD(2,3,4) [OF i] by (simp add: w sched_inv_def)
qed

lemma notified_inv: "sched_inv s \<Longrightarrow> notified s s' \<Longrightarrow> sched_inv s'"
  unfolding sched_inv_def notified_def by (metis insertI1 insertI2)

lemma same_threads_inv:
  assumes "sched_inv s" and "same_threads s s'"
  shows "sched_inv s'"
proof -
  have "sched_core s'" using same_threads_core [OF assms(2)] assms(1) by (simp add: sched_inv_def)
  with assms show ?thesis by (auto simp: sched_inv_def same_threads_def same_obs_def)
qed

lemma clock_inv:
  assumes "sched_inv s"
  shows "sched_inv (sched_clock usage U1 U2 U_root s)"
proof -
  define a where "a = upd_th (sc_this s) (\<lambda>th. th\<lparr>th_ticks_nr := th_ticks_nr th + 1\<rparr>) s"
  define b where "b = (if th_type (sc_threads a (sc_this s)) = KTHREAD
    then upd_th (sc_idle a) (\<lambda>th. th\<lparr>th_ticks_nr := th_ticks_nr th + 1\<rparr>) a else a)"
  have "sched_inv a" unfolding a_def by (rule same_threads_inv [OF assms same_threads_flags(6)])
  then have "sched_inv b" unfolding b_def by (simp add: same_threads_inv [OF _ same_threads_flags(6)])
  then have "sched_inv (sched_event_notify b)"
    using sched_event_notify_core(1) [of b] by (auto intro: notified_inv dest: sched_invD(1))
  then have "sched_inv (rr_clock_balancing usage U1 U2 U_root (sc_this s) (sched_event_notify b))"
    by (rule same_threads_inv [OF _ rr_clock_balancing_same])
  then show ?thesis by (simp only: sched_clock_def Let_def a_def [symmetric] b_def [symmetric])
qed


text \<open>The calls that give up the processor.\<close>

lemma sleep_core:
  assumes i: "sched_inv s" and t: "st s (sc_this s) \<noteq> S_USR" "sc_this s \<noteq> sc_idle s"
    and f: "\<And>th. th_ltid (f th) = th_ltid th \<and> th_type (f th) = th_type th \<and> th_state (f th) = S_WAIT"
    and can: "has_flag TH_CAN_WAKEUP (f (sc_threads s (sc_this s))) \<Longrightarrow> st s (sc_this s) = S_KERNEL"
  shows "sched_core (upd_th (sc_this s) f s)"
proof -
  note c = sched_invD(1) [OF i]
  have k: "st s (sc_this s) \<in> {S_KERNEL, S_READY}" using sched_invD(2) [OF i] t by auto
  have "th_ok s (sc_this s)" by (rule sched_coreD(1) [OF c])
  then have "th_ok (upd_th (sc_this s) f s) (sc_this s)"
    using k t f can by (auto simp: th_ok_def)
  with k f show ?thesis by (intro upd_one_core [OF c]) auto
qed

lemma sched_sleep_eq:
  "\<not> has_flag TH_CAP_WAKEUP (sc_threads s (sc_this s)) \<Longrightarrow>
     sched_sleep s = schedule (upd_th (sc_this s) (\<lambda>th. th\<lparr>th_state := S_WAIT\<rparr>) s)"
  by (simp add: sched_sleep_def rr_sleep_def)

lemma sys_thread_sleep_eq:
  "sys_thread_sleep s = schedule (upd_th (sc_this s)
     (\<lambda>th. (clear_flag TH_CAP_WAKEUP (set_flag TH_CAN_WAKEUP (set_flag TH_CAP_WAKEUP th)))\<lparr>th_state := S_WAIT\<rparr>) s)"
proof -
  have "th_flags (set_flag TH_CAP_WAKEUP (sc_threads s (sc_this s))) AND TH_CAP_WAKEUP \<noteq> 0"
    unfolding set_flag_def by (simp add: or_and_self_nonzero)
  then show ?thesis by (simp add: sys_thread_sleep_def sched_sleep_def rr_sleep_def upd_th_def)
qed

lemma schedule_inv:
  assumes "sched_core (upd_th t f s)" and "th_state (f (sc_threads s t)) \<noteq> S_USR" and "sc_this s = t"
    and "\<not> has_flag TH_CAP_WAKEUP (f (sc_threads s t))" and "\<And>u. \<not> has_flag TH_CAP_WAKEUP (sc_threads s u)"
  shows "\<exists>s1. schedule (upd_th t f s) = Some s1 \<and> sched_inv (sched_sleep_return s1)"
proof -
  have "\<not> has_flag TH_CAP_WAKEUP (sc_threads (upd_th t f s) u)" for u using assms(4) assms(5) [of u] by auto
  with schedule_core [OF assms(1)] assms(2,3) show ?thesis by auto
qed

lemma sleep_inv:
  assumes i: "sched_inv s" and t: "st s (sc_this s) \<noteq> S_USR" "sc_this s \<noteq> sc_idle s"
  shows "\<exists>s1. sched_sleep s = Some s1 \<and> sched_inv (sched_sleep_return s1)"
proof -
  have "sched_core (upd_th (sc_this s) (\<lambda>th. th\<lparr>th_state := S_WAIT\<rparr>) s)"
    by (rule sleep_core [OF i t]) (use sched_invD(4) [OF i] in auto)
  from schedule_inv [OF this] show ?thesis using sched_sleep_eq sched_invD(3) [OF i] by auto
qed

lemma usleep_inv:
  assumes i: "sched_inv s" and t: "st s (sc_this s) = S_KERNEL" "sc_this s \<noteq> sc_idle s"
  shows "\<exists>s1. sys_thread_sleep s = Some s1 \<and> sched_inv (sched_sleep_return s1)"
proof -
  have "st s (sc_this s) \<noteq> S_USR" using t by simp
  from sleep_core [OF i this t(2), of "\<lambda>th. (clear_flag TH_CAP_WAKEUP (set_flag TH_CAN_WAKEUP (set_flag TH_CAP_WAKEUP th)))\<lparr>th_state := S_WAIT\<rparr>"]
  have "sched_core (upd_th (sc_this s)
     (\<lambda>th. (clear_flag TH_CAP_WAKEUP (set_flag TH_CAN_WAKEUP (set_flag TH_CAP_WAKEUP th)))\<lparr>th_state := S_WAIT\<rparr>) s)"
    using t by simp
  from schedule_inv [OF this] show ?thesis using sys_thread_sleep_eq sched_invD(3) [OF i] by auto
qed

lemma upd_th_counts: "upd_th t f (s\<lparr>sc_total_nr := x, sc_user_nr := y\<rparr>) = (upd_th t f s)\<lparr>sc_total_nr := x, sc_user_nr := y\<rparr>"
  by (cases s) (simp add: upd_th_def)

lemma exit_inv:
  assumes i: "sched_inv s" and t: "st s (sc_this s) = S_KERNEL" "sc_this s \<noteq> sc_idle s"
  shows "\<exists>s1. sched_exit s = Some s1 \<and> sched_inv (sched_sleep_return s1)"
    and "\<exists>s1. sched_remove s = Some s1 \<and> sched_inv (sched_sleep_return s1)"
proof -
  let ?t = "sc_this s"
  note c = sched_invD(1) [OF i]
  have nq: "\<not> sc_queued s ?t" using sched_coreD(1) [OF c, of ?t] t by (auto simp: th_ok_def)
  have core: "sched_core (upd_th ?t f (sched_unregister ?t s))"
    if "\<And>th. th_state (f th) = S_DEAD \<and> th_flags (f th) = th_flags th" for f
    by (rule unregister_core [OF c]) (use t nq that sched_invD(4) [OF i] in auto)
  have same: "same_threads s' (s'\<lparr>sc_total_nr := x, sc_user_nr := y\<rparr>)" for s' x y
    by (simp add: same_threads_def cnt_ok_def sc_queue_def)
  have un: "sc_this (sched_unregister ?t s) = ?t" "sc_threads (sched_unregister ?t s) = sc_threads s"
    by (auto simp: sched_unregister_def Let_def)
  have run: "\<exists>s1. schedule (upd_th ?t f ((sched_unregister ?t s)\<lparr>sc_total_nr := x, sc_user_nr := y\<rparr>)) = Some s1 \<and>
      sched_inv (sched_sleep_return s1)"
    if f: "\<And>th. th_state (f th) = S_DEAD \<and> th_flags (f th) = th_flags th" for f x y
  proof (rule schedule_inv)
    show "sched_core (upd_th ?t f ((sched_unregister ?t s)\<lparr>sc_total_nr := x, sc_user_nr := y\<rparr>))"
      using same_threads_core [OF same [where x = x and y = y] core [OF f]] by (simp only: upd_th_counts)
  qed (use f sched_invD(3) [OF i] un in auto)
  let ?u = "sched_unregister ?t s"
  have "sched_exit s = schedule (upd_th ?t (\<lambda>th. th\<lparr>th_state := S_DEAD\<rparr>) (?u\<lparr>sc_total_nr := sc_total_nr ?u - 1,
      sc_user_nr := (if th_type (sc_threads ?u ?t) = PTHREAD then sc_user_nr ?u - 1 else sc_user_nr ?u)\<rparr>))"
    by (simp add: sched_exit_def rr_exit_def Let_def upd_th_def)
  then show "\<exists>s1. sched_exit s = Some s1 \<and> sched_inv (sched_sleep_return s1)"
    by (simp only:) (rule run, simp)
  show "\<exists>s1. sched_remove s = Some s1 \<and> sched_inv (sched_sleep_return s1)"
    unfolding sched_remove_def rr_remove_def by (rule run) simp
qed

lemma user_mode_inv:
  assumes i: "sched_inv s" and k: "k \<in> {S_KERNEL, S_USR}" and t: "st s (sc_this s) \<in> {S_KERNEL, S_USR}" "sc_this s \<noteq> sc_idle s"
  shows "sched_inv (upd_th (sc_this s) (\<lambda>th. th\<lparr>th_state := k\<rparr>) s)"
proof -
  have "th_ok s (sc_this s)" by (rule sched_coreD(1) [OF sched_invD(1) [OF i]])
  then have "th_ok (upd_th (sc_this s) (\<lambda>th. th\<lparr>th_state := k\<rparr>) s) (sc_this s)"
    using k t by (cases "k = S_KERNEL"; cases "st s (sc_this s) = S_KERNEL") (simp_all add: th_ok_def)
  then have "sched_core (upd_th (sc_this s) (\<lambda>th. th\<lparr>th_state := k\<rparr>) s)"
    by (rule upd_one_core [OF sched_invD(1) [OF i], rotated -1]) (use k t in auto)
  then show ?thesis using k sched_invD(3,4) [OF i] by (auto simp: sched_inv_def)
qed

lemma sched_step_inv:
  assumes "sched_step s s'" and i: "sched_inv s"
  shows "sched_inv s'"
  using assms(1)
proof cases
  case (create t th s1)
  then show ?thesis using create_inv(1) [OF i] by blast
next
  case (migrated t th s1)
  then show ?thesis using create_inv(2) [OF i] by blast
next
  case (wakeup t)
  then show ?thesis using send_inv(1) [OF i] by blast
next
  case (uwakeup t)
  then show ?thesis using send_inv(2) [OF i] by blast
next
  case clock
  then show ?thesis using clock_inv [OF i] by blast
next
  case idle
  then show ?thesis using notified_inv [OF i sched_event_notify_core(1) [OF sched_invD(1) [OF i]]] by (simp add: sched_idle_def)
next
  case enter
  moreover have "sc_this s \<noteq> sc_idle s"
    using enter sched_coreD(1) [OF sched_invD(1) [OF i], of "sc_this s"] by (auto simp: th_ok_def)
  ultimately show ?thesis using user_mode_inv [OF i, of S_KERNEL] by simp
next
  case leave
  then show ?thesis using user_mode_inv [OF i, of S_USR] by simp
next
  case (yield s1)
  then show ?thesis using schedule_core [OF sched_invD(1) [OF i]] sched_invD(3) [OF i]
    by (auto simp: sched_yield_def)
next
  case (sleep s1)
  then show ?thesis using sleep_inv [OF i] by auto
next
  case (usleep s1)
  then show ?thesis using usleep_inv [OF i] by auto
next
  case (exit s1)
  then show ?thesis using exit_inv(1) [OF i] by auto
next
  case (remove s1)
  then show ?thesis using exit_inv(2) [OF i] by auto
qed

lemma sched_reach_inv: "sched_reach s \<Longrightarrow> sched_inv s"
proof (induction rule: sched_reach.induct)
  case (init s0 s)
  then show ?case by (intro sched_init_inv [OF init(1,2)]) simp_all
next
  case (step s s')
  then show ?case using sched_step_inv by blast
qed


section \<open>Wake-ups are not lost\<close>

definition wake_pending :: "uint_t \<Rightarrow> sched_cpu \<Rightarrow> bool" where
  "wake_pending t s \<longleftrightarrow> t \<noteq> sc_idle s \<and> st s t \<noteq> S_DEAD \<and> th_aligned t \<and>
     (fst (sc_ports s ! th_ltid (sc_threads s t)) = sched_event_make t SCHED_OP_WAKEUP \<or>
      snd (sc_ports s ! th_ltid (sc_threads s t)) = sched_event_make t SCHED_OP_UWAKEUP \<and> has_flag TH_CAN_WAKEUP (sc_threads s t))"

lemma event_make_nonzero: "th_aligned t \<Longrightarrow> sched_event_make t SCHED_OP_WAKEUP \<noteq> 0"
  using event_decode(2) [of t SCHED_OP_WAKEUP SCHED_OP_WAKEUP] by auto

lemma wake_other:
  assumes "enq u c s s'" and "u \<noteq> t" and "wake_pending t s"
  shows "wake_pending t s'"
  using assms by (auto simp: enq_def wake_pending_def same_obs_def)

lemma wake_port_other:
  assumes "wake_pending t s" and "th_ltid (sc_threads s t) \<noteq> i" and "u \<noteq> t"
  shows "wake_pending t (s\<lparr>sc_ports := (sc_ports s)[i := p]\<rparr>)" "wake_pending t (upd_th u f s)"
  using assms by (auto simp: wake_pending_def)

lemma notify_port_wake:
  assumes c: "sched_core s" and j: "j < SCHED_THREADS_NR" and w: "sc_queued s t \<or> wake_pending t s \<and> th_ltid (sc_threads s t) = i"
  shows "sc_queued (notify_port j s) t \<or>
     wake_pending t (notify_port j s) \<and> th_ltid (sc_threads (notify_port j s) t) = i \<and> i \<noteq> j"
proof -
  have n: "notified s (notify_port j s)" using notify_port_core [OF c j] by blast
  then have cn: "sched_core (notify_port j s)" and mono: "sc_queued s t \<Longrightarrow> sc_queued (notify_port j s) t"
    by (auto simp: notified_def)
  have ready: "st (notify_port j s) t = S_READY \<Longrightarrow> sc_queued (notify_port j s) t"
    using sched_coreD(1) [OF cn, of t] by (simp add: th_ok_def)
  show ?thesis
  proof (cases "sc_queued s t")
    case True
    then show ?thesis using mono by simp
  next
    case False
    with w have w: "wake_pending t s" and li: "th_ltid (sc_threads s t) = i" by auto
    then have ev: "ev_thread s i t" by (simp add: wake_pending_def ev_thread_def)
    have eq: "u = t \<longleftrightarrow> i = j" if "ev_thread s j u" for u
      using that ev ev_thread_unique [OF c, of j u t] by (auto simp: ev_thread_def)
    from c j show ?thesis
    proof (cases rule: notify_port_cases)
      case none
      have "i \<noteq> j"
      proof
        assume "i = j"
        then have "fst (sc_ports s ! i) \<noteq> sched_event_make t SCHED_OP_WAKEUP" using none(2) event_make_nonzero [of t] w
          by (auto simp: port0_clear_def wake_pending_def)
        then show False using none(3) [of t] w li ev \<open>i = j\<close> by (auto simp: wake_pending_def)
      qed
      then show ?thesis using none w li by simp
    next
      case (uwakeup u)
      show ?thesis
      proof (cases "i = j")
        case True
        then have "u = t" using eq uwakeup by blast
        then show ?thesis using notify_uwakeup [OF c j uwakeup(2,3,1)] uwakeup(4) ready by simp
      next
        case False
        then have u: "u \<noteq> t" using eq uwakeup by blast
        let ?s = "upd_th u (clear_flag TH_CAN_WAKEUP) (s\<lparr>sc_ports := (sc_ports s)[j := (fst (sc_ports s ! j), 0)]\<rparr>)"
        have ws: "wake_pending t ?s" by (intro wake_port_other) (use w li False u in \<open>auto intro: wake_port_other\<close>)
        have "wake_pending t (rr_wakeup u ?s) \<and> th_ltid (sc_threads (rr_wakeup u ?s) t) = i"
        proof (cases "st ?s u = S_READY")
          case True
          then show ?thesis using ws li u by (simp add: rr_wakeup_def)
        next
          case nr: False
          show ?thesis using wake_other [OF rr_wakeup_enq [OF nr] u ws] rr_wakeup_enq [OF nr] li u by (auto simp: enq_def same_obs_def)
        qed
        then show ?thesis using uwakeup(4) False by simp
      qed
    next
      case (wakeup u)
      show ?thesis
      proof (cases "i = j")
        case True
        then have "u = t" using eq wakeup by blast
        then show ?thesis using notify_wakeup [OF c j wakeup(1-3)] wakeup(4) ready by simp
      next
        case False
        then have u: "u \<noteq> t" using eq wakeup by blast
        let ?s = "s\<lparr>sc_ports := (sc_ports s)[j := (0, snd (sc_ports s ! j))]\<rparr>"
        have "st s u \<noteq> S_READY" using sched_coreD(1) [OF c, of u] wakeup by (auto simp: th_ok_def)
        then have e: "enq u S_READY ?s (rr_wakeup u ?s)" by (intro rr_wakeup_enq) simp
        have "wake_pending t ?s" using w li False u by (intro wake_port_other) auto
        then show ?thesis using wake_other [OF e u] e li wakeup(4) False by (auto simp: enq_def same_obs_def)
      qed
    next
      case (created u)
      show ?thesis
      proof (cases "i = j")
        case True
        then have "u = t" using eq created by blast
        then show ?thesis using notify_created [OF c j created(1-3)] created(4) by simp
      next
        case False
        then have u: "u \<noteq> t" using eq created by blast
        let ?s = "upd_th u (\<lambda>th. th\<lparr>th_state := S_CREATE\<rparr>) (s\<lparr>sc_ports := (sc_ports s)[j := (0, snd (sc_ports s ! j))]\<rparr>)"
        note e = rr_add_created_enq [of u ?s]
        have "wake_pending t ?s" by (intro wake_port_other) (use w li False u in \<open>auto intro: wake_port_other\<close>)
        then show ?thesis using wake_other [OF e u] e li created(4) False u by (auto simp: enq_def same_obs_def)
      qed
    qed
  qed
qed


lemma notify_fold_wake:
  assumes "sched_core s" and "\<forall>j\<in>set js. j < SCHED_THREADS_NR"
    and "sc_queued s t \<or> wake_pending t s \<and> th_ltid (sc_threads s t) = i"
  shows "sc_queued (fold notify_port js s) t \<or>
     wake_pending t (fold notify_port js s) \<and> th_ltid (sc_threads (fold notify_port js s) t) = i \<and> i \<notin> set js"
  using assms
proof (induction js arbitrary: s)
  case (Cons j js)
  have "sched_core (notify_port j s)" using notify_port_core [of s j] Cons.prems by (auto simp: notified_def)
  moreover have "sc_queued (notify_port j s) t \<or>
      wake_pending t (notify_port j s) \<and> th_ltid (sc_threads (notify_port j s) t) = i \<and> i \<noteq> j"
    using notify_port_wake [of s j t i] Cons.prems by auto
  ultimately show ?case using Cons.IH [of "notify_port j s"] Cons.prems
    notify_fold [of "notify_port j s" js] by (auto simp: notified_def)
qed auto

lemma sched_event_notify_wake:
  assumes "sched_core s" and "sc_queued s t \<or> wake_pending t s"
  shows "sc_queued (sched_event_notify s) t"
proof -
  have "th_ltid (sc_threads s t) < SCHED_THREADS_NR"
    using assms(2) sched_coreD(1) [OF assms(1), of t] by (auto simp: wake_pending_def th_ok_def)
  then show ?thesis using notify_fold_wake [OF assms(1), of "[0..<SCHED_THREADS_NR]" t "th_ltid (sc_threads s t)"] assms(2)
    by (auto simp: sched_event_notify_def)
qed

lemma schedule_wake:
  assumes c: "sched_core s" and u: "st s (sc_this s) \<noteq> S_USR" and cap: "\<And>u. \<not> has_flag TH_CAP_WAKEUP (sc_threads s u)"
    and w: "sc_queued s t \<or> wake_pending t s"
  shows "\<exists>s1. schedule s = Some s1 \<and> (sc_this s1 = t \<or> sc_queued s1 t)"
proof -
  let ?n = "sched_event_notify s"
  have "sched_core ?n" "\<forall>i<SCHED_THREADS_NR. port0_clear i ?n"
    using sched_event_notify_core [OF c] by (auto simp: notified_def)
  then have "sc_queued (before_take ?n) t" using before_take_core(6) [of ?n t] sched_event_notify_wake [OF c w] by simp
  then have "sc_queue (before_take ?n) \<noteq> []" "t = hd (sc_queue (before_take ?n)) \<or> t \<in> set (tl (sc_queue (before_take ?n)))"
    by (cases "sc_queue (before_take ?n)"; auto simp: sc_queued_def)+
  then show ?thesis using schedule_core [OF c u cap] by (auto simp: Let_def sc_queued_def)
qed


section \<open>Properties\<close>

lemma reach_schedule:
  assumes "sched_reach s" and "st s (sc_this s) \<noteq> S_USR"
  shows "\<exists>s1. schedule s = Some s1 \<and> (sc_this s1 = sc_idle s1 \<longrightarrow> (\<forall>t. st s1 t \<noteq> S_READY))"
proof -
  have i: "sched_inv s" by (rule sched_reach_inv [OF assms(1)])
  obtain s1 where s1: "schedule s = Some s1" "sched_inv (sched_sleep_return s1)" "sc_idle s1 = sc_idle s"
    "sc_this s1 = sc_idle s \<longrightarrow> sc_queue s1 = []"
    using schedule_core [OF sched_invD(1) [OF i] assms(2)] sched_invD(3) [OF i] by (auto simp: Let_def split: if_splits)
  have "st (sched_sleep_return s1) t = st s1 t" "sc_queued (sched_sleep_return s1) t = sc_queued s1 t" for t
    by (simp_all add: sched_sleep_return_def)
  then have "sc_queued s1 t" if "st s1 t = S_READY" for t
    using sched_coreD(1) [OF sched_invD(1) [OF s1(2)], of t] that unfolding th_ok_def by metis
  with s1 show ?thesis by (auto simp: sc_queued_def)
qed

lemma rr_wakeup_twice:
  assumes "st s t = S_WAIT" "t \<in> set (sc_queue s)"
  shows "\<not> distinct (sc_queue (rr_wakeup t s))"
  using assms by (auto simp: rr_wakeup_def sc_queue_def Let_def)

text \<open>C25. In every state that the threads of a processor and the events from other processors lead to, when a
  kernel wake-up is sent only to a thread that is in no queue of the scheduler and not just created, and a
  thread sleeps, exits or is removed from kernel mode (the conditions of \<open>sched_step\<close>, which the code leaves
  to the callers), the counters of the scheduler at their 16 and 32 bits are the lengths of its queues, no
  thread is in two queues or twice in one, every ready thread is in a queue and every created thread is in
  one or has its event in its port, at most 32 threads are queued, and \<^verbatim>\<open>schedule\<close> never takes an element
  of an empty list: it finds a thread to run, the idle thread only when no thread is ready. The condition on
  wake-ups is needed: \<^verbatim>\<open>rr_wakeup\<close> on a thread that is queued and already in \<^verbatim>\<open>S_WAIT\<close> links it twice.\<close>

theorem sched_correct:
  assumes "sched_reach s"
  shows "distinct (sc_queue s) \<and> length (sc_queue s) \<le> SCHED_THREADS_NR \<and>
     unat (sc_count s) = length (sc_queue s) \<and> unat (sc_k_runnable s) = length (sc_kthreads s) \<and>
     unat (sc_u_runnable s) = length (sc_migrate s) + length (sc_runnable s) \<and>
     unat (sc_rq_u_runnable s) = length (sc_runnable s) \<and> unat (sc_rq_m_runnable s) = length (sc_migrate s) \<and>
     (\<forall>t. st s t = S_READY \<longrightarrow> t \<in> set (sc_queue s)) \<and>
     (\<forall>t. st s t = S_CREATE \<longrightarrow> t \<in> set (sc_queue s) \<or>
        fst (sc_ports s ! th_ltid (sc_threads s t)) = sched_event_make t SCHED_OP_ADD_CREATED) \<and>
     (st s (sc_this s) \<noteq> S_USR \<longrightarrow>
        (\<exists>s1. schedule s = Some s1 \<and> (sc_this s1 = sc_idle s1 \<longrightarrow> (\<forall>t. st s1 t \<noteq> S_READY)))) \<and>
     (\<forall>t. st s t = S_WAIT \<and> t \<in> set (sc_queue s) \<longrightarrow> \<not> distinct (sc_queue (rr_wakeup t s)))"
proof -
  have c: "sched_core s" by (rule sched_invD(1) [OF sched_reach_inv [OF assms]])
  note cnt = sched_coreD(5) [OF c, unfolded cnt_ok_def] and b = sched_core_queue_bound [OF c]
  have l: "length (sc_kthreads s) + (length (sc_migrate s) + length (sc_runnable s)) \<le> SCHED_THREADS_NR"
    using b by (simp add: sc_queue_def)
  have w: "n \<le> SCHED_THREADS_NR \<Longrightarrow> unat (of_nat n :: 16 word) = n" "n \<le> SCHED_THREADS_NR \<Longrightarrow> unat (of_nat n :: uint_t) = n" for n
    by (simp_all add: unat_of_nat take_bit_nat_eq_self)
  have "unat (sc_count s) = length (sc_queue s)" "unat (sc_k_runnable s) = length (sc_kthreads s)"
     "unat (sc_u_runnable s) = length (sc_migrate s) + length (sc_runnable s)"
     "unat (sc_rq_u_runnable s) = length (sc_runnable s)" "unat (sc_rq_m_runnable s) = length (sc_migrate s)"
    using cnt b l by (simp_all only: w le_trans [OF _ l] le_add1 le_add2 trans_le_add1 trans_le_add2)
  moreover have "st s t = S_READY \<longrightarrow> t \<in> set (sc_queue s)" "st s t = S_CREATE \<longrightarrow> t \<in> set (sc_queue s) \<or>
      fst (sc_ports s ! th_ltid (sc_threads s t)) = sched_event_make t SCHED_OP_ADD_CREATED" for t
    using sched_coreD(1) [OF c, of t] by (auto simp: th_ok_def sc_queued_def)
  ultimately show ?thesis using cnt b reach_schedule [OF assms] rr_wakeup_twice [of s] by blast
qed

text \<open>C26. A wake-up is not lost when it comes before the thread sleeps: a thread that calls \<^verbatim>\<open>sched_sleep\<close> with
  a kernel wake-up in its port, or that has been put back into a queue already, and a thread that calls
  \<^verbatim>\<open>sys_thread_sleep\<close> with a user wake-up in its port, run on or are queued when the call has switched.\<close>

theorem sched_wakeup_not_lost:
  assumes "sched_reach s" and "sc_this s \<noteq> sc_idle s" and "sc_this s AND 0xFFF = 0"
  shows "(st s (sc_this s) \<noteq> S_USR \<and> (sc_this s \<in> set (sc_queue s) \<or>
         fst (sc_ports s ! th_ltid (sc_threads s (sc_this s))) = sched_event_make (sc_this s) SCHED_OP_WAKEUP) \<longrightarrow>
       (\<exists>s1. sched_sleep s = Some s1 \<and> (sc_this s1 = sc_this s \<or> sc_this s \<in> set (sc_queue s1)))) \<and>
     (st s (sc_this s) = S_KERNEL \<and>
         snd (sc_ports s ! th_ltid (sc_threads s (sc_this s))) = sched_event_make (sc_this s) SCHED_OP_UWAKEUP \<longrightarrow>
       (\<exists>s1. sys_thread_sleep s = Some s1 \<and> (sc_this s1 = sc_this s \<or> sc_this s \<in> set (sc_queue s1))))"
proof -
  let ?t = "sc_this s"
  have i: "sched_inv s" by (rule sched_reach_inv [OF assms(1)])
  note cap = sched_invD(3) [OF i]
  have "\<exists>s1. sched_sleep s = Some s1 \<and> (sc_this s1 = ?t \<or> ?t \<in> set (sc_queue s1))"
    if "st s ?t \<noteq> S_USR" "?t \<in> set (sc_queue s) \<or> fst (sc_ports s ! th_ltid (sc_threads s ?t)) = sched_event_make ?t SCHED_OP_WAKEUP"
  proof -
    let ?s = "upd_th ?t (\<lambda>th. th\<lparr>th_state := S_WAIT\<rparr>) s"
    have "sched_core ?s" by (rule sleep_core [OF i that(1) assms(2)]) (use sched_invD(4) [OF i] in auto)
    moreover have "sc_queued ?s ?t \<or> wake_pending ?t ?s"
      using that(2) assms(2,3) by (auto simp: sc_queued_def wake_pending_def)
    ultimately have "\<exists>s1. schedule ?s = Some s1 \<and> (sc_this s1 = ?t \<or> sc_queued s1 ?t)"
      using cap by (intro schedule_wake) auto
    then show ?thesis using sched_sleep_eq [OF cap] by (simp add: sc_queued_def)
  qed
  moreover have "\<exists>s1. sys_thread_sleep s = Some s1 \<and> (sc_this s1 = ?t \<or> ?t \<in> set (sc_queue s1))"
    if "st s ?t = S_KERNEL" "snd (sc_ports s ! th_ltid (sc_threads s ?t)) = sched_event_make ?t SCHED_OP_UWAKEUP"
  proof -
    let ?f = "\<lambda>th. (clear_flag TH_CAP_WAKEUP (set_flag TH_CAN_WAKEUP (set_flag TH_CAP_WAKEUP th)))\<lparr>th_state := S_WAIT\<rparr>"
    have "st s ?t \<noteq> S_USR" using that by simp
    from sleep_core [OF i this assms(2), of ?f] have "sched_core (upd_th ?t ?f s)" using that by simp
    moreover have "th_flags (set_flag TH_CAN_WAKEUP th) AND TH_CAN_WAKEUP \<noteq> 0" for th
      unfolding set_flag_def by (simp add: or_and_self_nonzero)
    then have "wake_pending ?t (upd_th ?t ?f s)" using that assms(2,3) by (simp add: wake_pending_def)
    ultimately have "\<exists>s1. schedule (upd_th ?t ?f s) = Some s1 \<and> (sc_this s1 = ?t \<or> sc_queued s1 ?t)"
      using cap by (intro schedule_wake) auto
    then show ?thesis by (simp add: sys_thread_sleep_eq sc_queued_def)
  qed
  ultimately show ?thesis by blast
qed


text \<open>The threads of a processor that only yield: \<open>sched_yields n\<close> is \<open>n\<close> calls of \<^verbatim>\<open>sched_yield\<close>, each by
  the thread that runs.\<close>

fun sched_yields :: "nat \<Rightarrow> sched_cpu \<Rightarrow> sched_cpu option" where
  "sched_yields 0 s = Some s"
| "sched_yields (Suc n) s = (case sched_yield s of None \<Rightarrow> None | Some s1 \<Rightarrow> sched_yields n s1)"

definition rr_ring :: "sched_cpu \<Rightarrow> bool" where
  "rr_ring s \<longleftrightarrow> (\<forall>i<SCHED_THREADS_NR. sc_ports s ! i = (0, 0)) \<and> sc_kthreads s = [] \<and> sc_migrate s = [] \<and>
     length (sc_runnable s) < SCHED_THREADS_NR \<and> distinct (sc_this s # sc_runnable s) \<and>
     sc_count s = of_nat (length (sc_runnable s)) \<and>
     st s (sc_this s) = S_KERNEL \<and> th_type (sc_threads s (sc_this s)) = PTHREAD \<and>
     \<not> has_flag TH_FORCED_YIELD (sc_threads s (sc_this s)) \<and>
     (\<forall>t\<in>set (sc_runnable s). st s t = S_READY \<and> th_type (sc_threads s t) = PTHREAD)"

lemma notify_none:
  assumes "\<forall>i\<in>set is. sc_ports s ! i = (0, 0)"
  shows "fold notify_port is s = s"
  using assms by (induction "is") (simp_all add: notify_port_def)

lemma rr_ring_yield:
  assumes r: "rr_ring s"
  shows "\<exists>s1. sched_yield s = Some s1 \<and> rr_ring s1 \<and> sc_this s1 # sc_runnable s1 = rotate1 (sc_this s # sc_runnable s)"
proof -
  let ?t = "sc_this s"
  note d = r [unfolded rr_ring_def]
  have n: "sched_event_notify s = s"
    using d by (simp add: sched_event_notify_def notify_none)
  define b where "b = before_take s"
  have b: "sc_runnable b = sc_runnable s @ [?t]" "sc_kthreads b = []" "sc_migrate b = []" "sc_this b = ?t" "sc_ports b = sc_ports s"
    "sc_count b = sc_count s + 1" "st b u = (if u = ?t then S_READY else st s u)" "th_type (sc_threads b u) = th_type (sc_threads s u)" for u
    using d by (auto simp: b_def before_take_def requeue_this_def Let_def)
  obtain e q where eq: "sc_runnable s @ [?t] = e # q" by (cases "sc_runnable s") auto
  have "unat (sc_count b) = length (sc_runnable s) + 1"
    using d unat_of_nat_32 [of "length (sc_runnable s) + 1"] b(6) by (simp add: add.commute)
  then have cnt: "sc_count b > 0" by (simp add: word_gt_0 unat_gt_0 [symmetric] del: unat_gt_0)
  define s' where "s' = take_elected e (b\<lparr>sc_u_runnable := sc_u_runnable b - 1, sc_rq_u_runnable := sc_rq_u_runnable b - 1\<rparr>)"
  have el: "rr_elect_balancing s = Some (Some e, s')"
    using cnt b(1-3) eq by (simp add: rr_elect_balancing_def before_take_def [symmetric] b_def [symmetric] Let_def s'_def)
  have s': "sc_runnable s' = q" "sc_kthreads s' = []" "sc_migrate s' = []" "sc_this s' = ?t" "sc_ports s' = sc_ports s"
    "sc_count s' = sc_count s" "st s' u = st b u" "th_type (sc_threads s' u) = th_type (sc_threads s u)"
    "th_flags (sc_threads s' e) AND TH_FORCED_YIELD = 0" for u
    using b eq by (auto simp: s'_def take_elected_def)
  define s1 where "s1 = upd_th e (\<lambda>th. th\<lparr>th_state := S_KERNEL\<rparr>) (s'\<lparr>sc_active := True, sc_this := e\<rparr>)"
  have ready: "st s' e = S_READY" using d eq b(7) s'(7) by (cases "sc_runnable s") auto
  then have y: "sched_yield s = Some s1"
    using el s'(4) by (auto simp: sched_yield_def schedule_def n s1_def upd_th_def)
  have len: "length q = length (sc_runnable s)" using arg_cong [OF eq, of length] by simp
  have dist: "distinct (e # q)" by (subst eq [symmetric]) (use d in auto)
  have sub: "set (e # q) = insert ?t (set (sc_runnable s))" by (subst eq [symmetric]) simp
  have rest: "st s1 u = S_READY \<and> th_type (sc_threads s1 u) = PTHREAD" if "u \<in> set q" for u
  proof -
    have "u \<noteq> e" "u \<in> insert ?t (set (sc_runnable s))" using that dist sub by auto
    then show ?thesis using d s'(7,8) [of u] b(7) [of u] by (auto simp: s1_def)
  qed
  have "e \<in> insert ?t (set (sc_runnable s))" using sub by auto
  then have "th_type (sc_threads s e) = PTHREAD" using d by auto
  then have "rr_ring s1"
    unfolding rr_ring_def using d s' len dist rest by (auto simp: s1_def)
  moreover have "sc_this s1 # sc_runnable s1 = rotate1 (?t # sc_runnable s)" using eq s' by (simp add: s1_def)
  ultimately show ?thesis using y by blast
qed


text \<open>C27. Round robin: when only user threads are runnable and no event is pending, each \<^verbatim>\<open>sched_yield\<close> puts the
  running thread behind all others, so after \<open>n\<close> yields the queue is rotated by \<open>n\<close> and every thread has
  run once in as many yields as there are threads.\<close>

theorem sched_round_robin:
  assumes "rr_ring s"
  shows "\<exists>s1. sched_yields n s = Some s1 \<and>
     sc_this s1 = (sc_this s # sc_runnable s) ! (n mod (length (sc_runnable s) + 1)) \<and>
     sc_this s1 # sc_runnable s1 = rotate n (sc_this s # sc_runnable s)"
proof -
  have "\<exists>s1. sched_yields n s = Some s1 \<and> sc_this s1 # sc_runnable s1 = rotate n (sc_this s # sc_runnable s)"
    using assms
  proof (induction n arbitrary: s)
    case (Suc n)
    obtain s1 where s1: "sched_yield s = Some s1" "rr_ring s1" "sc_this s1 # sc_runnable s1 = rotate1 (sc_this s # sc_runnable s)"
      using rr_ring_yield [OF Suc.prems] by blast
    from Suc.IH [OF s1(2)] s1 show ?case by (simp add: rotate1_rotate_swap [symmetric] del: rotate1.simps)
  qed simp
  then obtain s1 where s1: "sched_yields n s = Some s1" "sc_this s1 # sc_runnable s1 = rotate n (sc_this s # sc_runnable s)"
    by blast
  then have "sc_this s1 = hd (rotate n (sc_this s # sc_runnable s))" by (metis list.sel(1))
  then show ?thesis using s1 by (simp add: hd_rotate_conv_nth)
qed

text \<open>A processor with its idle thread at \<open>0\<close>.\<close>

definition wit_boot :: sched_cpu where
  "wit_boot = \<lparr>sc_threads = (\<lambda>t. \<lparr>th_type = TH_IDLE, th_state = (if t = 0 then S_KERNEL else S_DEAD), th_flags = 0,
       th_quantum = 0, th_boosted_prio = 0, th_ticks_nr = 0, th_ltid = 0\<rparr>),
     sc_this = 0, sc_idle = 0, sc_kthreads = [], sc_runnable = [], sc_migrate = [], sc_count = 0, sc_rq_u_runnable = 0,
     sc_rq_m_runnable = 0, sc_clock_cntr = 0, sc_period = 0, sc_total_nr = 0, sc_user_nr = 0, sc_u_runnable = 0,
     sc_k_runnable = 0, sc_bitmap = [], sc_next = 0, sc_ports = [], sc_active = False\<rparr>"

definition wit_thread :: thread_s where
  "wit_thread = \<lparr>th_type = PTHREAD, th_state = S_CREATE, th_flags = 0, th_quantum = 4, th_boosted_prio = 0, th_ticks_nr = 0, th_ltid = 0\<rparr>"

definition wit_created :: sched_cpu where
  "wit_created = sched_add_created 0x1000 (snd (sched_register 0x1000 (upd_th 0x1000 (\<lambda>_. wit_thread) (snd (sched_init True wit_boot)))))"

lemma wit_created_reach: "sched_reach wit_created"
proof -
  have "sched_init True wit_boot = (0, snd (sched_init True wit_boot))" by (simp add: sched_init_def)
  then have i: "sched_reach (snd (sched_init True wit_boot))" by (rule sched_reach.init) (simp_all add: wit_boot_def)
  have "fst (sched_register 0x1000 (upd_th 0x1000 (\<lambda>_. wit_thread) (snd (sched_init True wit_boot)))) = 0" by code_simp
  then have r: "sched_register 0x1000 (upd_th 0x1000 (\<lambda>_. wit_thread) (snd (sched_init True wit_boot))) =
    (0, snd (sched_register 0x1000 (upd_th 0x1000 (\<lambda>_. wit_thread) (snd (sched_init True wit_boot)))))" by (simp add: prod_eq_iff)
  have "sched_step (snd (sched_init True wit_boot)) wit_created"
    unfolding wit_created_def by (rule sched_step.create [OF _ _ _ _ r])
      (simp_all add: sched_init_def rr_sched_init_def wit_boot_def wit_thread_def new_thread_def)
  with i show ?thesis by (rule sched_reach.step)
qed

text \<open>The created thread runs in the kernel, with a user wake-up in its port.\<close>

definition wit_running :: sched_cpu where
  "wit_running = sched_sleep_return (the (sched_yield wit_created))"

definition wit_pending :: sched_cpu where
  "wit_pending = thread_wakeup_target 0x1000 (upd_th (sc_this wit_running) (\<lambda>th. th\<lparr>th_state := S_KERNEL\<rparr>) wit_running)"

lemma wit_pending_reach: "sched_reach wit_pending"
proof -
  have "st wit_created (sc_this wit_created) \<noteq> S_USR" by code_simp
  then have y: "sched_yield wit_created = Some (the (sched_yield wit_created))"
    using reach_schedule [OF wit_created_reach] by (auto simp: sched_yield_def)
  have "sched_reach wit_running"
    unfolding wit_running_def using wit_created_reach \<open>st wit_created _ \<noteq> S_USR\<close> y
    by (blast intro: sched_reach.step sched_step.yield)
  moreover have "st wit_running (sc_this wit_running) = S_USR" by code_simp
  ultimately have r: "sched_reach (upd_th (sc_this wit_running) (\<lambda>th. th\<lparr>th_state := S_KERNEL\<rparr>) wit_running)" (is "sched_reach ?s")
    by (blast intro: sched_reach.step sched_step.enter)
  have "st ?s 0x1000 \<noteq> S_DEAD" "0x1000 \<noteq> sc_idle ?s" by code_simp+
  then have "sched_step ?s wit_pending" unfolding wit_pending_def by (rule sched_step.uwakeup) simp
  with r show ?thesis by (rule sched_reach.step)
qed

text \<open>A second wake-up of a thread in a queue: while a thread runs in the kernel, a second one is created and put into
  the queue, and the first one gets a wake-up, with which it is queued behind the second one before it sleeps. When it
  sleeps the second thread runs. Now another wake-up of the first thread leaves it in the queue twice.\<close>

definition wit_second :: sched_cpu where
  "wit_second = sched_idle (sched_add_created 0x2000 (snd (sched_register 0x2000 (upd_th 0x2000 (\<lambda>_. wit_thread) wit_pending))))"

definition wit_asleep :: sched_cpu where
  "wit_asleep = sched_sleep_return (the (sched_sleep (sched_idle (sched_wakeup 0x1000 wit_second))))"

lemma wit_asleep_reach: "sched_reach wit_asleep"
proof -
  let ?s1 = "sched_add_created 0x2000 (snd (sched_register 0x2000 (upd_th 0x2000 (\<lambda>_. wit_thread) wit_pending)))"
  have "fst (sched_register 0x2000 (upd_th 0x2000 (\<lambda>_. wit_thread) wit_pending)) = 0" by code_simp
  then have r: "sched_register 0x2000 (upd_th 0x2000 (\<lambda>_. wit_thread) wit_pending) =
    (0, snd (sched_register 0x2000 (upd_th 0x2000 (\<lambda>_. wit_thread) wit_pending)))" by (simp add: prod_eq_iff)
  have "st wit_pending 0x2000 = S_DEAD" "0x2000 \<noteq> sc_idle wit_pending" "new_thread wit_thread" by code_simp+
  then have "sched_step wit_pending ?s1" by (intro sched_step.create [OF _ _ _ _ r]) simp_all
  then have 1: "sched_reach wit_second"
    unfolding wit_second_def using wit_pending_reach by (blast intro: sched_reach.step sched_step.idle)
  have "st wit_second 0x1000 \<noteq> S_DEAD" "st wit_second 0x1000 \<noteq> S_CREATE" "0x1000 \<noteq> sc_idle wit_second" "\<not> sc_queued wit_second 0x1000"
    by code_simp+
  then have "sched_step wit_second (sched_wakeup 0x1000 wit_second)" by (intro sched_step.wakeup) simp_all
  then have 2: "sched_reach (sched_idle (sched_wakeup 0x1000 wit_second))" (is "sched_reach ?s2")
    using 1 by (blast intro: sched_reach.step sched_step.idle)
  have "sched_sleep ?s2 \<noteq> None" by code_simp
  then have "sched_sleep ?s2 = Some (the (sched_sleep ?s2))" by simp
  moreover have "st ?s2 (sc_this ?s2) \<noteq> S_USR" "sc_this ?s2 \<noteq> sc_idle ?s2" by code_simp+
  ultimately show ?thesis unfolding wit_asleep_def using 2 by (blast intro: sched_reach.step sched_step.sleep)
qed

theorem sched_double_wakeup:
  "sched_reach wit_asleep \<and> st wit_asleep 0x1000 = S_WAIT \<and> sc_queue wit_asleep = [0x1000] \<and>
   sc_queue (sched_idle (sched_wakeup 0x1000 wit_asleep)) = [0x1000, 0x1000]"
  by (intro conjI wit_asleep_reach) code_simp+

theorem sched_correct_witness:
  "unat (sc_count wit_asleep) = 1 \<and> (\<exists>s1. schedule (upd_th 0x2000 (\<lambda>th. th\<lparr>th_state := S_KERNEL\<rparr>) wit_asleep) = Some s1) \<and>
   \<not> distinct (sc_queue (rr_wakeup 0x1000 wit_asleep))"
proof -
  have "length (sc_queue wit_asleep) = 1" "st wit_asleep 0x1000 = S_WAIT" "0x1000 \<in> set (sc_queue wit_asleep)" by code_simp+
  moreover have t: "sc_this wit_asleep = 0x2000" "st wit_asleep 0x2000 = S_USR" by code_simp+
  then have "sched_reach (upd_th 0x2000 (\<lambda>th. th\<lparr>th_state := S_KERNEL\<rparr>) wit_asleep)" (is "sched_reach ?s")
    using wit_asleep_reach sched_step.enter [of wit_asleep] by (simp add: sched_reach.step)
  moreover have "st ?s (sc_this ?s) \<noteq> S_USR" using t by simp
  ultimately show ?thesis using sched_correct [of wit_asleep] sched_correct [of ?s] wit_asleep_reach by auto
qed

theorem sched_wakeup_not_lost_witness:
  "sc_this wit_pending = 0x1000 \<and> st wit_pending 0x1000 = S_KERNEL \<and>
   (\<exists>s1. sys_thread_sleep wit_pending = Some s1 \<and> (sc_this s1 = 0x1000 \<or> 0x1000 \<in> set (sc_queue s1)))"
proof -
  have "sc_this wit_pending = 0x1000" "st wit_pending 0x1000 = S_KERNEL" "sc_this wit_pending \<noteq> sc_idle wit_pending"
    "snd (sc_ports wit_pending ! th_ltid (sc_threads wit_pending (sc_this wit_pending))) = sched_event_make 0x1000 SCHED_OP_UWAKEUP"
    by code_simp+
  with sched_wakeup_not_lost [OF wit_pending_reach] show ?thesis by simp
qed

definition wit_ring :: sched_cpu where
  "wit_ring = wit_boot\<lparr>sc_threads := (\<lambda>t. wit_thread\<lparr>th_state := (if t = 0x1000 then S_KERNEL else S_READY)\<rparr>),
     sc_this := 0x1000, sc_runnable := [0x2000, 0x3000], sc_count := 2, sc_ports := replicate 32 (0, 0)\<rparr>"

theorem sched_round_robin_witness:
  "\<exists>s1. sched_yields 4 wit_ring = Some s1 \<and> sc_this s1 = 0x2000 \<and> sc_runnable s1 = [0x3000, 0x1000]"
proof -
  have "rr_ring wit_ring" by (simp add: rr_ring_def wit_ring_def wit_boot_def wit_thread_def)
  from sched_round_robin [OF this, of 4]
  obtain s1 where "sched_yields 4 wit_ring = Some s1" "sc_this s1 # sc_runnable s1 = rotate 4 (sc_this wit_ring # sc_runnable wit_ring)"
    by blast
  moreover have "rotate 4 (sc_this wit_ring # sc_runnable wit_ring) = [0x2000, 0x3000, 0x1000]" by code_simp
  ultimately show ?thesis by auto
qed

end
