(* ===== verification/Mcs.thy ===== *)
theory Mcs
  imports Prelude
begin

text \<open>
  Ticket locks and sense-reversing barriers of the processors (\<^verbatim>\<open>kernel/kern/mcs_sync.c\<close>).

  Both are used by processors that spin, so every load, store and atomic addition is a step of its own; the
  processors interleave in any order. Tickets and counters are 32-bit words and wrap around.
\<close>

section \<open>The lock\<close>

record mcs_lock_s =
  ml_cntr :: uint_t
  ml_ticket :: uint_t

definition mcs_lock_init :: "mcs_lock_s \<Rightarrow> mcs_lock_s" where
  "mcs_lock_init l = l\<lparr>ml_cntr := 0, ml_ticket := 0\<rparr>"

text \<open>The three accesses of \<^verbatim>\<open>mcs_lock\<close> and \<^verbatim>\<open>mcs_unlock\<close>: taking a ticket, one round of the loop, and the
  store of the next ticket (whose value has been loaded before).\<close>

definition mcs_lock_take :: "mcs_lock_s \<Rightarrow> uint_t \<times> mcs_lock_s" where
  "mcs_lock_take l = (ml_ticket l, l\<lparr>ml_ticket := ml_ticket l + 1\<rparr>)"

definition mcs_lock_round :: "uint_t \<Rightarrow> mcs_lock_s \<Rightarrow> bool" where
  "mcs_lock_round ticket l \<longleftrightarrow> ticket = ml_cntr l"

definition mcs_unlock_load :: "mcs_lock_s \<Rightarrow> uint_t" where
  "mcs_unlock_load l = ml_cntr l + 1"

definition mcs_unlock_store :: "uint_t \<Rightarrow> mcs_lock_s \<Rightarrow> mcs_lock_s" where
  "mcs_unlock_store nxt l = l\<lparr>ml_cntr := nxt\<rparr>"

datatype ml_pc = MIdle | MSpin uint_t | MHold | MRelease uint_t

text \<open>The lock, the processors, and the orders in which tickets were taken and the lock was obtained.\<close>

record ml_sys =
  ms_lock :: mcs_lock_s
  ms_pc :: "nat \<Rightarrow> ml_pc"
  ms_count :: "nat \<Rightarrow> int"
  ms_taken :: "nat list"
  ms_got :: "nat list"

inductive ml_step :: "nat \<Rightarrow> ml_sys \<Rightarrow> ml_sys \<Rightarrow> bool" for n where
  take: "i < n \<Longrightarrow> ms_pc s i = MIdle \<Longrightarrow> mcs_lock_take (ms_lock s) = (t, l) \<Longrightarrow>
    ml_step n s (s\<lparr>ms_lock := l, ms_pc := (ms_pc s)(i := MSpin t), ms_taken := ms_taken s @ [i]\<rparr>)"
| spin: "ms_pc s i = MSpin t \<Longrightarrow> \<not> mcs_lock_round t (ms_lock s) \<Longrightarrow> ml_step n s s"
| got: "ms_pc s i = MSpin t \<Longrightarrow> mcs_lock_round t (ms_lock s) \<Longrightarrow>
    ml_step n s (s\<lparr>ms_pc := (ms_pc s)(i := MHold), ms_count := (ms_count s)(i := ms_count s i + 1), ms_got := ms_got s @ [i]\<rparr>)"
| load: "ms_pc s i = MHold \<Longrightarrow> ml_step n s (s\<lparr>ms_pc := (ms_pc s)(i := MRelease (mcs_unlock_load (ms_lock s)))\<rparr>)"
| store: "ms_pc s i = MRelease t \<Longrightarrow>
    ml_step n s (s\<lparr>ms_lock := mcs_unlock_store t (ms_lock s), ms_pc := (ms_pc s)(i := MIdle),
      ms_count := (ms_count s)(i := ms_count s i - 1)\<rparr>)"

inductive ml_reach :: "nat \<Rightarrow> ml_sys \<Rightarrow> bool" for n where
  init: "ml_reach n \<lparr>ms_lock = mcs_lock_init l, ms_pc = \<lambda>_. MIdle, ms_count = \<lambda>_. 0, ms_taken = [], ms_got = []\<rparr>"
| step: "ml_reach n s \<Longrightarrow> ml_step n s s' \<Longrightarrow> ml_reach n s'"

text \<open>The processors that have a ticket, in the order of the tickets: ticket \<open>k\<close> of them is \<open>cntr + k\<close>.\<close>

fun ml_at :: "uint_t \<Rightarrow> nat \<Rightarrow> ml_pc \<Rightarrow> bool" where
  "ml_at c k MIdle = False"
| "ml_at c k (MSpin t) \<longleftrightarrow> t = c + of_nat k"
| "ml_at c k MHold \<longleftrightarrow> k = 0"
| "ml_at c k (MRelease t) \<longleftrightarrow> k = 0 \<and> t = c + 1"

definition ml_queue :: "nat \<Rightarrow> ml_sys \<Rightarrow> nat list \<Rightarrow> bool" where
  "ml_queue n s q \<longleftrightarrow> distinct q \<and> set q \<subseteq> {..<n} \<and> (\<forall>i. i \<notin> set q \<longrightarrow> ms_pc s i = MIdle) \<and>
     ml_ticket (ms_lock s) = ml_cntr (ms_lock s) + of_nat (length q) \<and>
     (\<forall>k<length q. ml_at (ml_cntr (ms_lock s)) k (ms_pc s (q ! k)))"

definition ml_inside :: "ml_sys \<Rightarrow> nat \<Rightarrow> bool" where
  "ml_inside s i \<longleftrightarrow> ms_pc s i = MHold \<or> (\<exists>t. ms_pc s i = MRelease t)"

text \<open>The waiting processors have taken their tickets in the order of the queue, and have not got the lock.\<close>

definition ml_inv :: "nat \<Rightarrow> ml_sys \<Rightarrow> bool" where
  "ml_inv n s \<longleftrightarrow> (\<exists>q. ml_queue n s q \<and> (\<forall>i. ms_count s i = (if ml_inside s i then 1 else 0)) \<and>
     ms_taken s = ms_got s @ (if q \<noteq> [] \<and> ml_inside s (hd q) then tl q else q))"

lemma of_nat_word_less_inj: "a < 2 ^ 32 \<Longrightarrow> b < 2 ^ 32 \<Longrightarrow> (of_nat a :: uint_t) = of_nat b \<longleftrightarrow> a = b"
  by (metis unat_of_nat_32)

lemma ml_queue_length:
  assumes "ml_queue n s q" and "n < 2 ^ 32"
  shows "length q < 2 ^ 32"
proof -
  have "length q = card (set q)" using assms(1) by (simp add: ml_queue_def distinct_card)
  also have "\<dots> \<le> card {..<n}" using assms(1) by (intro card_mono) (auto simp: ml_queue_def)
  finally show ?thesis using assms(2) by simp
qed

lemma ml_take_inv:
  assumes inv: "ml_inv n s" and n: "n < 2 ^ 32" and i: "i < n" "ms_pc s i = MIdle" and t: "mcs_lock_take (ms_lock s) = (t, l)"
  shows "ml_inv n (s\<lparr>ms_lock := l, ms_pc := (ms_pc s)(i := MSpin t), ms_taken := ms_taken s @ [i]\<rparr>)" (is "ml_inv n ?s")
proof -
  obtain q where q: "ml_queue n s q" and c: "\<forall>i. ms_count s i = (if ml_inside s i then 1 else 0)"
    and tk: "ms_taken s = ms_got s @ (if q \<noteq> [] \<and> ml_inside s (hd q) then tl q else q)"
    using inv by (auto simp: ml_inv_def)
  have niq: "i \<notin> set q"
  proof
    assume "i \<in> set q"
    then obtain k where "k < length q" "q ! k = i" by (metis in_set_conv_nth)
    with q i(2) show False unfolding ml_queue_def by fastforce
  qed
  have tt: "t = ml_cntr (ms_lock s) + of_nat (length q)" "ml_cntr l = ml_cntr (ms_lock s)" "ml_ticket l = ml_ticket (ms_lock s) + 1"
    using t q by (auto simp: mcs_lock_take_def ml_queue_def)
  have ne: "q ! k \<noteq> i" if "k < length q" for k using niq that nth_mem by fastforce
  have "ml_queue n ?s (q @ [i])"
    unfolding ml_queue_def
  proof (intro conjI allI impI)
    fix k assume k: "k < length (q @ [i])"
    show "ml_at (ml_cntr (ms_lock ?s)) k (ms_pc ?s ((q @ [i]) ! k))"
    proof (cases "k < length q")
      case True
      then show ?thesis using q ne [OF True] tt by (simp add: ml_queue_def nth_append)
    next
      case False
      then have "k = length q" using k by simp
      then show ?thesis using tt by simp
    qed
  qed (use q niq i tt in \<open>auto simp: ml_queue_def\<close>)
  moreover have ins: "ml_inside ?s j \<longleftrightarrow> ml_inside s j" for j using i by (auto simp: ml_inside_def)
  moreover have "ms_taken ?s = ms_got ?s @ (if q @ [i] \<noteq> [] \<and> ml_inside ?s (hd (q @ [i])) then tl (q @ [i]) else q @ [i])"
    using tk ins i by (cases q) (auto simp: ml_inside_def)
  ultimately show ?thesis using c unfolding ml_inv_def by (intro exI [of _ "q @ [i]"]) simp
qed

lemma ml_got_inv:
  assumes inv: "ml_inv n s" and n: "n < 2 ^ 32" and i: "ms_pc s i = MSpin t" and r: "mcs_lock_round t (ms_lock s)"
  shows "ml_inv n (s\<lparr>ms_pc := (ms_pc s)(i := MHold), ms_count := (ms_count s)(i := ms_count s i + 1), ms_got := ms_got s @ [i]\<rparr>)" (is "ml_inv n ?s")
proof -
  obtain q where q: "ml_queue n s q" and c: "\<forall>i. ms_count s i = (if ml_inside s i then 1 else 0)"
    and tk: "ms_taken s = ms_got s @ (if q \<noteq> [] \<and> ml_inside s (hd q) then tl q else q)"
    using inv by (auto simp: ml_inv_def)
  have "i \<in> set q" using q i unfolding ml_queue_def by (metis ml_pc.distinct(1))
  then obtain k where k: "k < length q" "q ! k = i" by (metis in_set_conv_nth)
  then have "ml_cntr (ms_lock s) = ml_cntr (ms_lock s) + of_nat k" using q i r unfolding ml_queue_def mcs_lock_round_def by fastforce
  then have "(of_nat k :: uint_t) = of_nat 0" by simp
  then have "k = 0" using of_nat_word_less_inj [of k 0] k(1) ml_queue_length [OF q n] by simp
  then obtain q' where q': "q = i # q'" using k by (cases q) auto
  have "ml_queue n ?s q"
    unfolding ml_queue_def
  proof (intro conjI allI impI)
    fix m assume m: "m < length q"
    show "ml_at (ml_cntr (ms_lock ?s)) m (ms_pc ?s (q ! m))"
    proof (cases m)
      case 0
      then show ?thesis using q' by simp
    next
      case (Suc m')
      then have "q ! m \<noteq> i" using q q' m by (auto simp: ml_queue_def)
      then show ?thesis using q m by (simp add: ml_queue_def)
    qed
  qed (use q q' in \<open>auto simp: ml_queue_def\<close>)
  moreover have "ml_inside ?s j \<longleftrightarrow> j = i \<or> ml_inside s j" "\<not> ml_inside s i" for j using i by (auto simp: ml_inside_def)
  ultimately show ?thesis using c tk q' unfolding ml_inv_def by (intro exI [of _ q]) simp
qed

lemma ml_store_inv:
  assumes inv: "ml_inv n s" and i: "ms_pc s i = MRelease t"
  shows "ml_inv n (s\<lparr>ms_lock := mcs_unlock_store t (ms_lock s), ms_pc := (ms_pc s)(i := MIdle), ms_count := (ms_count s)(i := ms_count s i - 1)\<rparr>)"
    (is "ml_inv n ?s")
proof -
  obtain q where q: "ml_queue n s q" and c: "\<forall>i. ms_count s i = (if ml_inside s i then 1 else 0)"
    and tk: "ms_taken s = ms_got s @ (if q \<noteq> [] \<and> ml_inside s (hd q) then tl q else q)"
    using inv by (auto simp: ml_inv_def)
  have "i \<in> set q" using q i unfolding ml_queue_def by (metis ml_pc.distinct(5))
  then obtain k where k: "k < length q" "q ! k = i" by (metis in_set_conv_nth)
  then have "k = 0 \<and> t = ml_cntr (ms_lock s) + 1" using q i unfolding ml_queue_def by fastforce
  with k obtain q' where q': "q = i # q'" and t: "t = ml_cntr (ms_lock s) + 1" by (cases q) auto
  have pc: "ms_pc s (q' ! m) = MSpin (ml_cntr (ms_lock s) + of_nat (Suc m))" if "m < length q'" for m
  proof -
    have "ml_at (ml_cntr (ms_lock s)) (Suc m) (ms_pc s (q ! Suc m))"
      using q q' that unfolding ml_queue_def by (metis Suc_less_eq length_Cons)
    then show ?thesis using q' by (cases "ms_pc s (q' ! m)") simp_all
  qed
  have "ml_queue n ?s q'"
    unfolding ml_queue_def
  proof (intro conjI allI impI)
    fix m assume m: "m < length q'"
    then have "q' ! m \<noteq> i" using q q' by (auto simp: ml_queue_def)
    then show "ml_at (ml_cntr (ms_lock ?s)) m (ms_pc ?s (q' ! m))"
      using pc [OF m] t by (simp add: mcs_unlock_store_def)
  qed (use q q' t in \<open>auto simp: ml_queue_def mcs_unlock_store_def\<close>)
  moreover have ins: "ml_inside ?s j \<longleftrightarrow> j \<noteq> i \<and> ml_inside s j" "ml_inside s i" for j using i by (auto simp: ml_inside_def)
  moreover have "\<not> ml_inside s (hd q')" if "q' \<noteq> []"
  proof -
    have "q' ! 0 = hd q'" using that by (cases q') auto
    then show ?thesis using pc [of 0] that by (auto simp: ml_inside_def)
  qed
  ultimately show ?thesis using c tk q' unfolding ml_inv_def by (intro exI [of _ q']) auto
qed

lemma ml_reach_inv: "ml_reach n s \<Longrightarrow> n < 2 ^ 32 \<Longrightarrow> ml_inv n s"
proof (induction rule: ml_reach.induct)
  case (init l)
  then show ?case unfolding ml_inv_def
    by (intro exI [of _ "[]"]) (simp add: ml_queue_def ml_inside_def mcs_lock_init_def)
next
  case (step s s')
  then have inv: "ml_inv n s" and n: "n < 2 ^ 32" by auto
  from step(2) show ?case
  proof cases
    case (take i t l)
    then show ?thesis using ml_take_inv [OF inv n] by blast
  next
    case (spin i t)
    then show ?thesis using inv by simp
  next
    case (got i t)
    then show ?thesis using ml_got_inv [OF inv n] by blast
  next
    case (load i)
    obtain q where q: "ml_queue n s q" and c: "\<forall>i. ms_count s i = (if ml_inside s i then 1 else 0)"
      and tk: "ms_taken s = ms_got s @ (if q \<noteq> [] \<and> ml_inside s (hd q) then tl q else q)"
      using inv by (auto simp: ml_inv_def)
    have "ml_queue n s' q" using q load unfolding ml_queue_def
      by (auto simp: mcs_unlock_load_def split: ml_pc.splits)
    moreover have "ml_inside s' j \<longleftrightarrow> ml_inside s j" for j using load by (auto simp: ml_inside_def)
    ultimately show ?thesis using c tk load(1) unfolding ml_inv_def by (intro exI [of _ q]) simp
  next
    case (store i t)
    then show ?thesis using ml_store_inv [OF inv] by blast
  qed
qed

text \<open>C28. The ticket lock of up to \<open>2^32 - 1\<close> processors, over all interleavings of their loads, stores and atomic
  additions and across the wrap-around of the tickets: at most one processor holds the lock, the
  processors obtain it in the order in which they took their tickets, \<^verbatim>\<open>locks_count\<close> is 1 for the holder and 0 for the
  others, and when processors wait and none holds the lock the first of them finds its ticket.\<close>

theorem mcs_lock_fair:
  assumes "ml_reach n s" and "n < 2 ^ 32"
  shows "(\<forall>i j. ml_inside s i \<and> ml_inside s j \<longrightarrow> i = j) \<and> (\<exists>rest. ms_taken s = ms_got s @ rest) \<and>
     (\<forall>i. ms_count s i = (if ml_inside s i then 1 else 0)) \<and>
     (\<forall>i t. ms_pc s i = MSpin t \<longrightarrow>
        (\<exists>j. ml_inside s j) \<or> (\<exists>j u. ms_pc s j = MSpin u \<and> mcs_lock_round u (ms_lock s) \<and> j = ms_taken s ! length (ms_got s)))"
proof -
  obtain q where q: "ml_queue n s q" and c: "\<forall>i. ms_count s i = (if ml_inside s i then 1 else 0)"
    and tk: "ms_taken s = ms_got s @ (if q \<noteq> [] \<and> ml_inside s (hd q) then tl q else q)"
    using ml_reach_inv [OF assms] by (auto simp: ml_inv_def)
  have first: "i = hd q" if "ml_inside s i" for i
  proof -
    have "i \<in> set q" using q that unfolding ml_queue_def ml_inside_def by auto
    then obtain k where k: "k < length q" "q ! k = i" by (metis in_set_conv_nth)
    then have "ml_at (ml_cntr (ms_lock s)) k (ms_pc s i)" using q unfolding ml_queue_def by blast
    then have "k = 0" using that by (auto simp: ml_inside_def)
    with k show ?thesis by (simp add: hd_conv_nth)
  qed
  moreover have "\<exists>j u. ms_pc s j = MSpin u \<and> mcs_lock_round u (ms_lock s) \<and> j = ms_taken s ! length (ms_got s)"
    if w: "ms_pc s i = MSpin t" "\<not> (\<exists>j. ml_inside s j)" for i t
  proof -
    have "i \<in> set q" using q w unfolding ml_queue_def by (metis ml_pc.distinct(1))
    then have "q \<noteq> []" by auto
    then have "ml_at (ml_cntr (ms_lock s)) 0 (ms_pc s (q ! 0))"
      using q unfolding ml_queue_def by blast
    then have "\<exists>u. ms_pc s (q ! 0) = MSpin u \<and> mcs_lock_round u (ms_lock s)"
      using w(2) by (cases "ms_pc s (q ! 0)") (auto simp: ml_inside_def mcs_lock_round_def)
    moreover have "ms_taken s ! length (ms_got s) = q ! 0" using tk w(2) \<open>q \<noteq> []\<close> by (simp add: nth_append)
    ultimately show ?thesis by metis
  qed
  ultimately show ?thesis using c tk by metis
qed


section \<open>The barrier\<close>

record mcs_barrier_s =
  mb_val :: uint_t
  mb_phase :: uint_t
  mb_cntr :: uint_t
  mb_ticket :: uint_t
  mb_ticket2 :: uint_t

definition mcs_barrier_init :: "uint_t \<Rightarrow> mcs_barrier_s \<Rightarrow> mcs_barrier_s" where
  "mcs_barrier_init count b = b\<lparr>mb_val := count, mb_phase := 0, mb_cntr := count, mb_ticket := 0, mb_ticket2 := 0\<rparr>"

text \<open>The ticket the pointers \<^verbatim>\<open>current\<close> and \<^verbatim>\<open>next\<close> of a phase refer to.\<close>

definition phase_ticket :: "uint_t \<Rightarrow> mcs_barrier_s \<Rightarrow> uint_t" where
  "phase_ticket phase b = (if phase = 0 then mb_ticket b else mb_ticket2 b)"

definition set_phase_ticket :: "uint_t \<Rightarrow> uint_t \<Rightarrow> mcs_barrier_s \<Rightarrow> mcs_barrier_s" where
  "set_phase_ticket phase v b = (if phase = 0 then b\<lparr>mb_ticket := v\<rparr> else b\<lparr>mb_ticket2 := v\<rparr>)"

definition next_phase :: "uint_t \<Rightarrow> uint_t" where
  "next_phase phase = NOT phase AND 1"

datatype mb_pc = BIdle | BLoaded uint_t | BSpin uint_t | BLast nat uint_t

text \<open>One access of \<^verbatim>\<open>mcs_barrier_wait\<close> by a processor: the load of the phase, the atomic addition, the four
  stores of the last processor and the loads of the others. \<open>BIdle\<close> after an access is the return.\<close>

definition mcs_barrier_access :: "mb_pc \<Rightarrow> mcs_barrier_s \<Rightarrow> mb_pc \<times> mcs_barrier_s" where
  "mcs_barrier_access pc b =
     (case pc of
        BIdle \<Rightarrow> (BLoaded (mb_phase b), b)
      | BLoaded phase \<Rightarrow>
          (let order = mb_cntr b; b = b\<lparr>mb_cntr := mb_cntr b + (-1)\<rparr>
           in (if order = 1 then BLast 0 phase else BSpin phase, b))
      | BSpin phase \<Rightarrow> (if phase_ticket phase b = 0 then BSpin phase else BIdle, b)
      | BLast k phase \<Rightarrow>
          (if k = 0 then (BLast 1 phase, b\<lparr>mb_phase := next_phase phase\<rparr>)
           else if k = 1 then (BLast 2 phase, b\<lparr>mb_cntr := mb_val b\<rparr>)
           else if k = 2 then (BLast 3 phase, set_phase_ticket (next_phase phase) 0 b)
           else (BIdle, set_phase_ticket phase 1 b)))"

record mb_sys =
  mbs_bar :: mcs_barrier_s
  mbs_pc :: "nat \<Rightarrow> mb_pc"
  mbs_rounds :: "nat \<Rightarrow> nat"

inductive mb_step :: "nat \<Rightarrow> mb_sys \<Rightarrow> mb_sys \<Rightarrow> bool" for n where
  access: "i < n \<Longrightarrow> mcs_barrier_access (mbs_pc s i) (mbs_bar s) = (pc, b) \<Longrightarrow>
    mb_step n s (s\<lparr>mbs_bar := b, mbs_pc := (mbs_pc s)(i := pc),
      mbs_rounds := (if pc = BIdle then (mbs_rounds s)(i := mbs_rounds s i + 1) else mbs_rounds s)\<rparr>)"

inductive mb_reach :: "nat \<Rightarrow> mb_sys \<Rightarrow> bool" for n where
  init: "mb_reach n \<lparr>mbs_bar = mcs_barrier_init (of_nat n) b, mbs_pc = \<lambda>_. BIdle, mbs_rounds = \<lambda>_. 0\<rparr>"
| step: "mb_reach n s \<Longrightarrow> mb_step n s s' \<Longrightarrow> mb_reach n s'"

definition ph :: "nat \<Rightarrow> uint_t" where
  "ph g = (if even g then 0 else 1)"

lemma ph_simps [simp]: "next_phase (ph g) = ph (Suc g)" "ph (Suc g) \<noteq> ph g" "ph (Suc (Suc g)) = ph g" "ph g \<noteq> ph (Suc g)"
  by (auto simp: ph_def next_phase_def)

lemma phase_ticket_set [simp]:
  "phase_ticket (ph a) (set_phase_ticket (ph b) v x) = (if ph a = ph b then v else phase_ticket (ph a) x)"
  "mb_phase (set_phase_ticket p v x) = mb_phase x" "mb_cntr (set_phase_ticket p v x) = mb_cntr x" "mb_val (set_phase_ticket p v x) = mb_val x"
  by (auto simp: phase_ticket_def set_phase_ticket_def ph_def)

lemma phase_ticket_other [simp]:
  "phase_ticket p (b\<lparr>mb_phase := v\<rparr>) = phase_ticket p b" "phase_ticket p (b\<lparr>mb_cntr := v\<rparr>) = phase_ticket p b"
  by (simp_all add: phase_ticket_def)

text \<open>Generation \<open>g\<close>: before its last processor has arrived, and while that processor stores.\<close>

definition mb_arrived :: "nat \<Rightarrow> nat \<Rightarrow> mb_sys \<Rightarrow> nat set" where
  "mb_arrived n g s = {i. i < n \<and> mbs_pc s i = BSpin (ph g)}"

definition mb_open :: "nat \<Rightarrow> nat \<Rightarrow> mb_sys \<Rightarrow> bool" where
  "mb_open n g s \<longleftrightarrow> mb_phase (mbs_bar s) = ph g \<and> phase_ticket (ph g) (mbs_bar s) = 0 \<and>
     mb_cntr (mbs_bar s) = of_nat (n - card (mb_arrived n g s)) \<and> mb_arrived n g s \<noteq> {..<n} \<and>
     (\<forall>i<n. if mbs_pc s i = BSpin (ph (Suc g)) then Suc (mbs_rounds s i) = g \<and> phase_ticket (ph (Suc g)) (mbs_bar s) = 1
            else mbs_pc s i \<in> {BIdle, BLoaded (ph g), BSpin (ph g)} \<and> mbs_rounds s i = g)"

definition mb_closing :: "nat \<Rightarrow> nat \<Rightarrow> mb_sys \<Rightarrow> bool" where
  "mb_closing n g s \<longleftrightarrow> (\<exists>j k. j < n \<and> k \<le> 3 \<and> mbs_pc s j = BLast k (ph g) \<and>
     (\<forall>i<n. mbs_rounds s i = g \<and> (i \<noteq> j \<longrightarrow> mbs_pc s i = BSpin (ph g))) \<and>
     phase_ticket (ph g) (mbs_bar s) = 0 \<and> (k \<ge> 1 \<longrightarrow> mb_phase (mbs_bar s) = ph (Suc g)) \<and>
     (k \<ge> 2 \<longrightarrow> mb_cntr (mbs_bar s) = of_nat n) \<and> (k \<ge> 3 \<longrightarrow> phase_ticket (ph (Suc g)) (mbs_bar s) = 0))"

definition mb_inv :: "nat \<Rightarrow> mb_sys \<Rightarrow> bool" where
  "mb_inv n s \<longleftrightarrow> mb_val (mbs_bar s) = of_nat n \<and> (\<exists>g. mb_open n g s \<or> mb_closing n g s)"

lemma mb_closing_step:
  assumes c: "mb_closing n g s" and v: "mb_val (mbs_bar s) = of_nat n" and n: "0 < n" and st: "mb_step n s s'"
  shows "mb_open n (Suc g) s' \<or> mb_closing n g s'"
proof -
  from st obtain i pc b where i: "i < n" and a: "mcs_barrier_access (mbs_pc s i) (mbs_bar s) = (pc, b)"
    and s': "s' = s\<lparr>mbs_bar := b, mbs_pc := (mbs_pc s)(i := pc),
      mbs_rounds := (if pc = BIdle then (mbs_rounds s)(i := mbs_rounds s i + 1) else mbs_rounds s)\<rparr>"
    by (cases rule: mb_step.cases) auto
  from c obtain j k where j: "j < n" "k \<le> 3" "mbs_pc s j = BLast k (ph g)"
    and o: "\<And>i. i < n \<Longrightarrow> mbs_rounds s i = g \<and> (i \<noteq> j \<longrightarrow> mbs_pc s i = BSpin (ph g))"
    and t: "phase_ticket (ph g) (mbs_bar s) = 0" "k \<ge> 1 \<longrightarrow> mb_phase (mbs_bar s) = ph (Suc g)"
      "k \<ge> 2 \<longrightarrow> mb_cntr (mbs_bar s) = of_nat n" "k \<ge> 3 \<longrightarrow> phase_ticket (ph (Suc g)) (mbs_bar s) = 0"
    unfolding mb_closing_def by blast
  show ?thesis
  proof (cases "i = j")
    case False
    then have "pc = mbs_pc s i" "b = mbs_bar s" "pc \<noteq> BIdle" using a o [OF i] t(1) by (auto simp: mcs_barrier_access_def)
    then have "s' = s" using s' by simp
    then show ?thesis using c by simp
  next
    case True
    consider "k = 3" | "k < 3" using j(2) by linarith
    then show ?thesis
    proof cases
      case 1
      then have e: "pc = BIdle" "b = set_phase_ticket (ph g) 1 (mbs_bar s)" using a j(3) True by (auto simp: mcs_barrier_access_def)
      have "mb_arrived n (Suc g) s' = {}" using o True e by (auto simp: mb_arrived_def s')
      then have "mb_open n (Suc g) s'" using 1 e t o True n by (auto simp: mb_open_def s')
      then show ?thesis ..
    next
      case 2
      then have e: "pc = BLast (Suc k) (ph g)" and b: "b = (if k = 0 then (mbs_bar s)\<lparr>mb_phase := ph (Suc g)\<rparr>
          else if k = 1 then (mbs_bar s)\<lparr>mb_cntr := mb_val (mbs_bar s)\<rparr> else set_phase_ticket (ph (Suc g)) 0 (mbs_bar s))"
        using a j(3) True by (auto simp: mcs_barrier_access_def numeral_eq_Suc less_Suc_eq)
      have "mb_closing n g s'"
        unfolding mb_closing_def
        by (rule exI [of _ j], rule exI [of _ "Suc k"]) (use 2 e b t o j v True in \<open>auto simp: s' numeral_eq_Suc less_Suc_eq\<close>)
      then show ?thesis ..
    qed
  qed
qed


lemma mb_open_step:
  assumes o: "mb_open n g s" and n: "n < 2 ^ 32" and st: "mb_step n s s'"
  shows "mb_open n g s' \<or> mb_closing n g s'"
proof -
  from st obtain i pc b where i: "i < n" and a: "mcs_barrier_access (mbs_pc s i) (mbs_bar s) = (pc, b)"
    and s': "s' = s\<lparr>mbs_bar := b, mbs_pc := (mbs_pc s)(i := pc),
      mbs_rounds := (if pc = BIdle then (mbs_rounds s)(i := mbs_rounds s i + 1) else mbs_rounds s)\<rparr>"
    by (cases rule: mb_step.cases) auto
  let ?A = "mb_arrived n g s"
  have p: "mb_phase (mbs_bar s) = ph g" "phase_ticket (ph g) (mbs_bar s) = 0" "mb_cntr (mbs_bar s) = of_nat (n - card ?A)" "?A \<noteq> {..<n}"
    and th: "\<And>i. i < n \<Longrightarrow> if mbs_pc s i = BSpin (ph (Suc g)) then Suc (mbs_rounds s i) = g \<and> phase_ticket (ph (Suc g)) (mbs_bar s) = 1
            else mbs_pc s i \<in> {BIdle, BLoaded (ph g), BSpin (ph g)} \<and> mbs_rounds s i = g"
    using o unfolding mb_open_def by blast+
  have fin: "finite ?A" "?A \<subseteq> {..<n}" by (auto simp: mb_arrived_def)
  with p(4) have lt: "card ?A < n" using psubset_card_mono [of "{..<n}" ?A] by auto
  consider (idle) "mbs_pc s i = BIdle" | (loaded) "mbs_pc s i = BLoaded (ph g)" | (spin) "mbs_pc s i = BSpin (ph g)"
    | (old) "mbs_pc s i = BSpin (ph (Suc g))" using th [OF i] by (auto split: if_splits)
  then show ?thesis
  proof cases
    case idle
    then have e: "pc = BLoaded (ph g)" "b = mbs_bar s" using a p by (auto simp: mcs_barrier_access_def)
    have "mb_arrived n g s' = ?A" using idle e by (auto simp: mb_arrived_def s')
    then have "mb_open n g s'" using o e th [OF i] idle by (auto simp: mb_open_def s')
    then show ?thesis ..
  next
    case spin
    then have "pc = mbs_pc s i" "b = mbs_bar s" "pc \<noteq> BIdle" using a p by (auto simp: mcs_barrier_access_def)
    then have "s' = s" using s' by simp
    then show ?thesis using o by simp
  next
    case old
    then have e: "pc = BIdle" "b = mbs_bar s" using a th [OF i] by (auto simp: mcs_barrier_access_def)
    have "mb_arrived n g s' = ?A" using old e by (auto simp: mb_arrived_def s')
    then have "mb_open n g s'" using o e th [OF i] old by (auto simp: mb_open_def s')
    then show ?thesis ..
  next
    case loaded
    have ni: "i \<notin> ?A" using loaded by (simp add: mb_arrived_def)
    have one: "mb_cntr (mbs_bar s) = 1 \<longleftrightarrow> n - card ?A = 1"
      using of_nat_word_less_inj [of "n - card ?A" 1] n p(3) by simp
    show ?thesis
    proof (cases "n - card ?A = 1")
      case True
      then have e: "pc = BLast 0 (ph g)" "b = (mbs_bar s)\<lparr>mb_cntr := mb_cntr (mbs_bar s) + (-1)\<rparr>"
        using a loaded one by (auto simp: mcs_barrier_access_def Let_def)
      have "?A \<union> {i} = {..<n}"
        by (rule card_subset_eq) (use fin ni i True lt in auto)
      then have "j \<in> ?A" if "j < n" "j \<noteq> i" for j using that by auto
      then have all: "mbs_pc s j = BSpin (ph g) \<and> mbs_rounds s j = g" if "j < n" "j \<noteq> i" for j
        using that th [OF that(1)] by (auto simp: mb_arrived_def split: if_splits)
      have "mb_closing n g s'"
        unfolding mb_closing_def
        by (rule exI [of _ i], rule exI [of _ 0]) (use i e all th [OF i] loaded p in \<open>auto simp: s'\<close>)
      then show ?thesis ..
    next
      case False
      then have e: "pc = BSpin (ph g)" "b = (mbs_bar s)\<lparr>mb_cntr := mb_cntr (mbs_bar s) + (-1)\<rparr>"
        using a loaded one by (auto simp: mcs_barrier_access_def Let_def)
      have A: "mb_arrived n g s' = insert i ?A" using i e by (auto simp: mb_arrived_def s')
      then have cA: "card (mb_arrived n g s') = Suc (card ?A)" using fin ni by simp
      have "of_nat (n - card ?A) = (of_nat (n - Suc (card ?A)) :: uint_t) + 1"
        using lt by (metis Suc_diff_Suc of_nat_Suc add.commute)
      then have "mb_cntr b = of_nat (n - card (mb_arrived n g s'))" using e p(3) cA by simp
      moreover have "mb_arrived n g s' \<noteq> {..<n}" using cA False lt by (metis Suc_diff_Suc card_lessThan diff_self_eq_0 One_nat_def)
      moreover have "if mbs_pc s' j = BSpin (ph (Suc g)) then Suc (mbs_rounds s' j) = g \<and> phase_ticket (ph (Suc g)) (mbs_bar s') = 1
          else mbs_pc s' j \<in> {BIdle, BLoaded (ph g), BSpin (ph g)} \<and> mbs_rounds s' j = g" if "j < n" for j
        using th [OF that] th [OF i] loaded e by (cases "j = i") (auto simp: s')
      moreover have "mb_phase (mbs_bar s') = ph g" "phase_ticket (ph g) (mbs_bar s') = 0" "mbs_bar s' = b" using e p by (simp_all add: s')
      ultimately have "mb_open n g s'" unfolding mb_open_def by blast
      then show ?thesis ..
    qed
  qed
qed

lemma mb_reach_inv: "mb_reach n s \<Longrightarrow> 0 < n \<Longrightarrow> n < 2 ^ 32 \<Longrightarrow> mb_inv n s"
proof (induction rule: mb_reach.induct)
  case (init b)
  have "mb_open n 0 \<lparr>mbs_bar = mcs_barrier_init (of_nat n) b, mbs_pc = \<lambda>_. BIdle, mbs_rounds = \<lambda>_. 0\<rparr>"
    using init by (auto simp: mb_open_def mcs_barrier_init_def ph_def phase_ticket_def mb_arrived_def)
  then show ?case by (auto simp: mb_inv_def mcs_barrier_init_def)
next
  case (step s s')
  then have v: "mb_val (mbs_bar s) = of_nat n" by (simp add: mb_inv_def)
  from step(2) have "mb_val (mbs_bar s') = mb_val (mbs_bar s)"
    by (cases rule: mb_step.cases) (auto simp: mcs_barrier_access_def Let_def split: mb_pc.splits if_splits)
  moreover have "\<exists>g. mb_open n g s' \<or> mb_closing n g s'"
    using step mb_open_step [OF _ step(5) step(2)] mb_closing_step [OF _ v step(4) step(2)] unfolding mb_inv_def by blast
  ultimately show ?case using v by (simp add: mb_inv_def)
qed

text \<open>C29. The barrier of \<open>n\<close> processors, over all interleavings of their loads, stores and atomic additions: the
  numbers of waits two processors have completed differ by at most one; a processor that is behind has
  arrived and finds the ticket of its phase set, so nobody completes a wait before all have arrived at it and
  nobody is overtaken by the reset of the tickets; and the processors never all spin on a ticket
  that is 0.\<close>

theorem mcs_barrier_correct:
  assumes "mb_reach n s" and "0 < n" and "n < 2 ^ 32"
  shows "(\<forall>i<n. \<forall>j<n. mbs_rounds s i \<le> Suc (mbs_rounds s j) \<and>
       (mbs_rounds s i = Suc (mbs_rounds s j) \<longrightarrow>
          (\<exists>p. mbs_pc s j = BSpin p \<and> fst (mcs_barrier_access (BSpin p) (mbs_bar s)) = BIdle))) \<and>
     (\<exists>i<n. mcs_barrier_access (mbs_pc s i) (mbs_bar s) \<noteq> (mbs_pc s i, mbs_bar s))"
proof -
  obtain g where "mb_open n g s \<or> mb_closing n g s" using mb_reach_inv [OF assms] by (auto simp: mb_inv_def)
  then show ?thesis
  proof
    assume o: "mb_open n g s"
    then have th: "\<And>i. i < n \<Longrightarrow> if mbs_pc s i = BSpin (ph (Suc g)) then Suc (mbs_rounds s i) = g \<and> phase_ticket (ph (Suc g)) (mbs_bar s) = 1
            else mbs_pc s i \<in> {BIdle, BLoaded (ph g), BSpin (ph g)} \<and> mbs_rounds s i = g"
      and "mb_arrived n g s \<noteq> {..<n}" unfolding mb_open_def by blast+
    then obtain i where i: "i < n" "mbs_pc s i \<noteq> BSpin (ph g)" by (auto simp: mb_arrived_def)
    have "mbs_rounds s i \<le> Suc (mbs_rounds s j) \<and> (mbs_rounds s i = Suc (mbs_rounds s j) \<longrightarrow>
        (\<exists>p. mbs_pc s j = BSpin p \<and> fst (mcs_barrier_access (BSpin p) (mbs_bar s)) = BIdle))" if "i < n" "j < n" for i j
    proof (cases "mbs_pc s j = BSpin (ph (Suc g))")
      case True
      then have "fst (mcs_barrier_access (BSpin (ph (Suc g))) (mbs_bar s)) = BIdle"
        using th [OF that(2)] by (simp add: mcs_barrier_access_def)
      then show ?thesis using True th [OF that(1)] th [OF that(2)] by (auto split: if_splits)
    next
      case False
      then show ?thesis using th [OF that(1)] th [OF that(2)] by (auto split: if_splits)
    qed
    moreover have "mcs_barrier_access (mbs_pc s i) (mbs_bar s) \<noteq> (mbs_pc s i, mbs_bar s)"
      using th [OF i(1)] i(2) by (auto simp: mcs_barrier_access_def Let_def split: if_splits)
    ultimately show ?thesis using i(1) by blast
  next
    assume "mb_closing n g s"
    then obtain j k where j: "j < n" "k \<le> 3" "mbs_pc s j = BLast k (ph g)" and r: "\<And>i. i < n \<Longrightarrow> mbs_rounds s i = g"
      unfolding mb_closing_def by blast
    have "mcs_barrier_access (mbs_pc s j) (mbs_bar s) \<noteq> (mbs_pc s j, mbs_bar s)"
      using j by (auto simp: mcs_barrier_access_def)
    then show ?thesis using r j(1) by auto
  qed
qed


definition wit_ml :: ml_sys where
  "wit_ml = \<lparr>ms_lock = \<lparr>ml_cntr = 0, ml_ticket = 2\<rparr>, ms_pc = (\<lambda>_. MIdle)(0 := MHold, 1 := MSpin 1),
     ms_count = (\<lambda>_. 0)(0 := 1), ms_taken = [0, 1], ms_got = [0]\<rparr>"

lemma wit_ml_reach: "ml_reach 2 wit_ml"
proof -
  define s0 where "s0 = \<lparr>ms_lock = mcs_lock_init \<lparr>ml_cntr = 5, ml_ticket = 7\<rparr>, ms_pc = \<lambda>_. MIdle, ms_count = \<lambda>_. 0, ms_taken = [], ms_got = []\<rparr>"
  define s1 where "s1 = s0\<lparr>ms_lock := \<lparr>ml_cntr = 0, ml_ticket = 1\<rparr>, ms_pc := (ms_pc s0)(0 := MSpin 0), ms_taken := ms_taken s0 @ [0]\<rparr>"
  define s2 where "s2 = s1\<lparr>ms_lock := \<lparr>ml_cntr = 0, ml_ticket = 2\<rparr>, ms_pc := (ms_pc s1)(1 := MSpin 1), ms_taken := ms_taken s1 @ [1]\<rparr>"
  define s3 where "s3 = s2\<lparr>ms_pc := (ms_pc s2)(0 := MHold), ms_count := (ms_count s2)(0 := ms_count s2 0 + 1), ms_got := ms_got s2 @ [0]\<rparr>"
  have "ml_reach 2 s0" unfolding s0_def by (rule ml_reach.init)
  moreover have "ml_step 2 s0 s1" unfolding s1_def
    by (rule ml_step.take) (simp_all add: s0_def mcs_lock_init_def mcs_lock_take_def)
  moreover have "ml_step 2 s1 s2" unfolding s2_def
    by (rule ml_step.take) (simp_all add: s1_def s0_def mcs_lock_take_def)
  moreover have "ml_step 2 s2 s3" unfolding s3_def
    by (rule ml_step.got [where t = 0]) (simp_all add: s2_def s1_def s0_def mcs_lock_round_def)
  moreover have "s3 = wit_ml" by (simp add: s3_def s2_def s1_def s0_def wit_ml_def fun_upd_twist)
  ultimately show ?thesis by (metis ml_reach.step)
qed

theorem mcs_lock_fair_witness:
  "ml_inside wit_ml 0 \<and> \<not> ml_inside wit_ml 1 \<and> ms_count wit_ml 0 = 1 \<and> (\<exists>rest. ms_taken wit_ml = ms_got wit_ml @ rest)"
  using mcs_lock_fair [OF wit_ml_reach] by (simp add: ml_inside_def wit_ml_def)

definition wit_mb :: mb_sys where
  "wit_mb = \<lparr>mbs_bar = mcs_barrier_init 2 \<lparr>mb_val = 0, mb_phase = 9, mb_cntr = 0, mb_ticket = 1, mb_ticket2 = 1\<rparr>,
     mbs_pc = \<lambda>_. BIdle, mbs_rounds = \<lambda>_. 0\<rparr>"

theorem mcs_barrier_correct_witness:
  "mbs_rounds wit_mb 0 \<le> Suc (mbs_rounds wit_mb 1) \<and>
   (\<exists>i<2. mcs_barrier_access (mbs_pc wit_mb i) (mbs_bar wit_mb) \<noteq> (mbs_pc wit_mb i, mbs_bar wit_mb))"
proof -
  have "mb_reach 2 wit_mb"
    using mb_reach.init [of 2 "\<lparr>mb_val = 0, mb_phase = 9, mb_cntr = 0, mb_ticket = 1, mb_ticket2 = 1\<rparr>"] by (simp add: wit_mb_def)
  from mcs_barrier_correct [OF this] show ?thesis by simp
qed

end
