(* ===== verification/Event.thy ===== *)
theory Event
  imports Fifo "HOL-Library.Multiset"
begin

text \<open>
  Events and their listeners (\<^verbatim>\<open>kernel/kern/event.c\<close>, \<^verbatim>\<open>event.h\<close>). Every processor has a local listener, a table
  of lists by priority that only this processor touches, and a remote listener, a table of pointer FIFOs that
  all processors fill.

  Events are known by their addresses. What a handler does to the listener of its processor, and what
  interrupts do while it runs, is a sequence of sends: \<open>run log\<close> are the sends during the handler of the last event
  of \<open>log\<close>, with whether they go to the end of the list. The theorems hold for every \<open>run\<close>.
\<close>

abbreviation E_CHR :: nat where "E_CHR \<equiv> 2"
abbreviation E_FUNC :: nat where "E_FUNC \<equiv> 8"
abbreviation E_PRIO_NR :: nat where "E_PRIO_NR \<equiv> 9"
abbreviation EVENT_PENDING :: uint_t where "EVENT_PENDING \<equiv> 1"
abbreviation CONFIG_REL_KFIFO_SIZE :: nat where "CONFIG_REL_KFIFO_SIZE \<equiv> 32"

datatype event_listner_type_t = EL_LOCAL | EL_REMOTE

type_synonym event = nat

datatype event_handler_t = User_handler nat | Re_send_backoff_handler

record event_info_t =
  ei_prio :: nat
  ei_handler :: event_handler_t
  ei_arg :: nat
  ei_id :: nat
  ei_err :: int

record event_s =
  e_info :: event_info_t
  e_bckp :: event_info_t

record event_list_s =
  evl_count :: uint_t
  evl_root :: "event list"

record event_listner_s =
  el_type :: event_listner_type_t
  el_count :: uint_t
  el_flags :: uint_t
  el_prio :: nat
  el_tbl :: "event_list_s list"
  el_kfifo :: "event kfifo_s list"

abbreviation event_is_pending :: "event_listner_s \<Rightarrow> bool" where
  "event_is_pending el \<equiv> el_flags el AND EVENT_PENDING \<noteq> 0"

text \<open>\<open>mem k\<close> tells whether the memory of the \<open>k\<close>-th FIFO can be allocated. The second component of the result is
  the list of the FIFOs destroyed by the error path.\<close>

fun listner_kfifos :: "(nat \<Rightarrow> bool) \<Rightarrow> nat \<Rightarrow> event kfifo_s list \<Rightarrow> error_t \<times> nat \<times> event kfifo_s list" where
  "listner_kfifos mem i [] = (0, i, [])"
| "listner_kfifos mem i (kf # kfs) =
     (let (err, kf) = kfifo_init (\<lambda>_. mem i) 0 CONFIG_REL_KFIFO_SIZE KFIFO_MW kf
      in if err \<noteq> 0 then (err, i, kf # kfs)
         else let (err, i, kfs) = listner_kfifos mem (Suc i) kfs in (err, i, kf # kfs))"

definition event_listner_init :: "(nat \<Rightarrow> bool) \<Rightarrow> event_listner_type_t \<Rightarrow> event_listner_s \<Rightarrow> error_t \<times> nat list \<times> event_listner_s" where
  "event_listner_init mem type el =
     (let el = el\<lparr>el_type := type, el_flags := 0, el_prio := 0\<rparr>
      in if type = EL_LOCAL then (0, [], el\<lparr>el_tbl := replicate E_PRIO_NR \<lparr>evl_count = 0, evl_root = []\<rparr>\<rparr>)
         else let (err, i, kfs) = listner_kfifos mem 0 (el_kfifo el)
              in (err, if err \<noteq> 0 then [0..<i] else [], el\<lparr>el_kfifo := kfs\<rparr>))"

section \<open>Sending\<close>

definition local_event_send :: "(event \<Rightarrow> nat) \<Rightarrow> event \<Rightarrow> bool \<Rightarrow> event_listner_s \<Rightarrow> event_listner_s" where
  "local_event_send prio_of event isFIFO el =
     (let prio = prio_of event; l = el_tbl el ! prio
      in el\<lparr>el_tbl := (el_tbl el)[prio := \<lparr>evl_count = evl_count l + 1,
              evl_root = (if isFIFO then evl_root l @ [event] else event # evl_root l)\<rparr>],
            el_prio := (if \<not> event_is_pending el \<or> el_prio el > prio then prio else el_prio el),
            el_flags := el_flags el OR EVENT_PENDING\<rparr>)"

text \<open>The descriptors of the events are a store. \<^verbatim>\<open>re_send_backoff\<close> saves the event's own information and makes it a
  local event that sends it again.\<close>

type_synonym event_store = "event \<Rightarrow> event_s"

definition event_backup :: "event_s \<Rightarrow> event_s" where
  "event_backup e = e\<lparr>e_bckp := e_info e\<rparr>"

definition event_restore :: "event_s \<Rightarrow> event_s" where
  "event_restore e = e\<lparr>e_info := e_bckp e\<rparr>"

definition re_send_backoff ::
  "uint_t \<Rightarrow> uint_t \<Rightarrow> uint_t \<Rightarrow> event \<Rightarrow> nat \<Rightarrow> event_store \<times> event_listner_s \<Rightarrow> error_t \<times> event_store \<times> event_listner_s" where
  "re_send_backoff period tm_now tm_stamp event el = (\<lambda>(es, le).
     if tm_now - tm_stamp < period then (EAGAIN, es, le)
     else
       let e = event_backup (es event);
           e = e\<lparr>e_info := (e_info e)\<lparr>ei_prio := E_CHR, ei_handler := Re_send_backoff_handler, ei_arg := el\<rparr>\<rparr>;
           es = es(event := e)
       in (0, es, local_event_send (\<lambda>v. ei_prio (e_info (es v))) event False le))"

text \<open>\<^verbatim>\<open>remote_event_send\<close>. \<open>env k\<close> is what other processors do to the FIFO before try \<open>k\<close> and \<open>now k\<close> the time
  after it. The result is also whether an interrupt is sent to the processor.\<close>

fun remote_put_loop ::
  "(nat \<Rightarrow> event kfifo_s \<Rightarrow> event kfifo_s) \<Rightarrow> (nat \<Rightarrow> uint_t) \<Rightarrow> uint_t \<Rightarrow> uint_t \<Rightarrow> event \<Rightarrow> nat \<Rightarrow> nat \<Rightarrow> nat \<Rightarrow>
   event kfifo_s \<times> event_store \<times> event_listner_s \<Rightarrow> (event kfifo_s \<times> event_store \<times> event_listner_s) option" where
  "remote_put_loop env now period tm_stamp event el 0 k s = None"
| "remote_put_loop env now period tm_stamp event el (Suc fuel) k (kf, es, le) =
     (let (retry, kf) = kfifo_put (\<lambda>_ kf. kf) (\<lambda>kf. kf) event (env k kf)
      in if retry = 0 then Some (kf, es, le)
         else
           let (retry, es, le) = re_send_backoff period (now k) tm_stamp event el (es, le)
           in if retry = 0 then Some (kf, es, le)
              else remote_put_loop env now period tm_stamp event el fuel (Suc k) (kf, es, le))"

definition remote_event_send ::
  "(nat \<Rightarrow> event kfifo_s \<Rightarrow> event kfifo_s) \<Rightarrow> (nat \<Rightarrow> uint_t) \<Rightarrow> uint_t \<Rightarrow> uint_t \<Rightarrow> nat \<Rightarrow> event \<Rightarrow> nat \<Rightarrow>
   event_listner_s \<times> event_store \<times> event_listner_s \<Rightarrow> (bool \<times> event_listner_s \<times> event_store \<times> event_listner_s) option" where
  "remote_event_send env now period tm_stamp fuel event el = (\<lambda>(re, es, le).
     let prio = ei_prio (e_info (es event))
     in case remote_put_loop env now period tm_stamp event el fuel 0 (el_kfifo re ! prio, es, le) of
          None \<Rightarrow> None
        | Some (kf, es, le) \<Rightarrow>
            let re = re\<lparr>el_kfifo := (el_kfifo re)[prio := kf]\<rparr>;
                isPending = event_is_pending re;
                re = re\<lparr>el_flags := el_flags re OR EVENT_PENDING\<rparr>
            in Some (prio < E_FUNC \<and> \<not> isPending, re, es, le))"

section \<open>Notification\<close>

text \<open>The inner loop of \<^verbatim>\<open>local_event_listner_notify\<close>: the events of one priority, with those that arrive
  meanwhile. The state is the listener and the events delivered so far.\<close>

definition run_handler :: "(event \<Rightarrow> nat) \<Rightarrow> (event list \<Rightarrow> (event \<times> bool) list) \<Rightarrow> event list \<Rightarrow> event_listner_s \<Rightarrow> event_listner_s" where
  "run_handler prio_of run log el = fold (\<lambda>(e, f). local_event_send prio_of e f) (run log) el"

partial_function (option) local_drain ::
  "(event \<Rightarrow> nat) \<Rightarrow> (event list \<Rightarrow> (event \<times> bool) list) \<Rightarrow> nat \<Rightarrow> event_listner_s \<times> event list \<Rightarrow> (event_listner_s \<times> event list) option" where
  "local_drain prio_of run current_prio s =
     (let l = el_tbl (fst s) ! current_prio
      in if evl_count l = 0 then Some s
         else case evl_root l of
                [] \<Rightarrow> None
              | event # rest \<Rightarrow>
                  let el = (fst s)\<lparr>el_tbl := (el_tbl (fst s))[current_prio := \<lparr>evl_count = evl_count l - 1, evl_root = rest\<rparr>]\<rparr>;
                      log = snd s @ [event]
                  in local_drain prio_of run current_prio (run_handler prio_of run log el, log))"

partial_function (option) local_notify_loop ::
  "(event \<Rightarrow> nat) \<Rightarrow> (event list \<Rightarrow> (event \<times> bool) list) \<Rightarrow> nat \<Rightarrow> nat \<Rightarrow> event_listner_s \<times> event list \<Rightarrow> (event_listner_s \<times> event list) option" where
  "local_notify_loop prio_of run start_prio current_prio s =
     (if current_prio < E_PRIO_NR
      then
        let restart = (el_prio (fst s) \<le> start_prio);
            start = (if restart then el_prio (fst s) else start_prio);
            current = (if restart then el_prio (fst s) else current_prio);
            el = (if restart then (fst s)\<lparr>el_prio := el_prio (fst s) + 1\<rparr> else fst s)
        in case local_drain prio_of run current (el, snd s) of
             None \<Rightarrow> None
           | Some s \<Rightarrow> local_notify_loop prio_of run start (current + 1) s
      else Some s)"

definition local_event_listner_notify ::
  "(event \<Rightarrow> nat) \<Rightarrow> (event list \<Rightarrow> (event \<times> bool) list) \<Rightarrow> event_listner_s \<Rightarrow> (event_listner_s \<times> event list) option" where
  "local_event_listner_notify prio_of run el =
     (let start_prio = el_prio el;
          el = el\<lparr>el_flags := el_flags el AND NOT EVENT_PENDING, el_prio := el_prio el + 1\<rparr>
      in case local_notify_loop prio_of run start_prio start_prio (el, []) of
           None \<Rightarrow> None
         | Some (el, log) \<Rightarrow> Some (el\<lparr>el_count := el_count el + of_nat (length log)\<rparr>, log))"


text \<open>\<^verbatim>\<open>remote_event_listner_notify\<close>: all FIFOs are emptied into the local listener; \<open>env k\<close> is what the other
  processors do to the remote listener until its flag is tested.\<close>

fun remote_drain :: "(event \<Rightarrow> nat) \<Rightarrow> nat \<Rightarrow> event kfifo_s \<times> event_listner_s \<Rightarrow> (event kfifo_s \<times> event_listner_s) option" where
  "remote_drain prio_of 0 s = None"
| "remote_drain prio_of (Suc fuel) (kf, le) =
     (case kfifo_get (\<lambda>_ kf. kf) kf of
        (err, ev, kf) \<Rightarrow>
          if err = 0 then (case ev of None \<Rightarrow> None | Some event \<Rightarrow> remote_drain prio_of fuel (kf, local_event_send prio_of event False le))
          else Some (kf, le))"

fun remote_round :: "(event \<Rightarrow> nat) \<Rightarrow> nat \<Rightarrow> nat list \<Rightarrow> event_listner_s \<times> event_listner_s \<Rightarrow> (event_listner_s \<times> event_listner_s) option" where
  "remote_round prio_of fuel [] s = Some s"
| "remote_round prio_of fuel (p # ps) (re, le) =
     (case remote_drain prio_of fuel (el_kfifo re ! p, le) of
        None \<Rightarrow> None
      | Some (kf, le) \<Rightarrow> remote_round prio_of fuel ps (re\<lparr>el_kfifo := (el_kfifo re)[p := kf]\<rparr>, le))"

fun remote_notify_loop ::
  "(event \<Rightarrow> nat) \<Rightarrow> (nat \<Rightarrow> event_listner_s \<Rightarrow> event_listner_s) \<Rightarrow> nat \<Rightarrow> nat \<Rightarrow> nat \<Rightarrow> event_listner_s \<times> event_listner_s \<Rightarrow>
   (event_listner_s \<times> event_listner_s) option" where
  "remote_notify_loop prio_of env 0 fuel k s = None"
| "remote_notify_loop prio_of env (Suc rounds) fuel k (re, le) =
     (case remote_round prio_of fuel [0..<E_PRIO_NR] (re\<lparr>el_flags := el_flags re AND NOT EVENT_PENDING\<rparr>, le) of
        None \<Rightarrow> None
      | Some (re, le) \<Rightarrow>
          let re = env k (re\<lparr>el_count := el_count re + of_nat ((k + 1) * E_PRIO_NR)\<rparr>)
          in if event_is_pending re then remote_notify_loop prio_of env rounds fuel (Suc k) (re, le) else Some (re, le))"

definition remote_event_listner_notify ::
  "(event \<Rightarrow> nat) \<Rightarrow> (nat \<Rightarrow> event_listner_s \<Rightarrow> event_listner_s) \<Rightarrow> nat \<Rightarrow> nat \<Rightarrow> event_listner_s \<times> event_listner_s \<Rightarrow>
   (event_listner_s \<times> event_listner_s) option" where
  "remote_event_listner_notify prio_of env rounds fuel = remote_notify_loop prio_of env rounds fuel 0"

text \<open>\<^verbatim>\<open>event_send\<close> dispatches on the type of the listener. \<^verbatim>\<open>event_manager_round\<close> is one round of the event manager
  thread, up to where it goes to sleep.\<close>

definition event_send ::
  "(nat \<Rightarrow> event kfifo_s \<Rightarrow> event kfifo_s) \<Rightarrow> (nat \<Rightarrow> uint_t) \<Rightarrow> uint_t \<Rightarrow> uint_t \<Rightarrow> nat \<Rightarrow> event \<Rightarrow> nat \<Rightarrow>
   event_listner_s \<times> event_store \<times> event_listner_s \<Rightarrow> (bool \<times> event_listner_s \<times> event_store \<times> event_listner_s) option" where
  "event_send env now period tm_stamp fuel event addr = (\<lambda>(el, es, le).
     case el_type el of
       EL_LOCAL \<Rightarrow> Some (False, local_event_send (\<lambda>v. ei_prio (e_info (es v))) event True el, es, le)
     | EL_REMOTE \<Rightarrow> remote_event_send env now period tm_stamp fuel event addr (el, es, le))"

definition event_manager_round ::
  "(event \<Rightarrow> nat) \<Rightarrow> (event list \<Rightarrow> (event \<times> bool) list) \<Rightarrow> (nat \<Rightarrow> event_listner_s \<Rightarrow> event_listner_s) \<Rightarrow> nat \<Rightarrow> nat \<Rightarrow>
   event_listner_s \<times> event_listner_s \<Rightarrow> (event_listner_s \<times> event_listner_s \<times> event list) option" where
  "event_manager_round prio_of run env rounds fuel = (\<lambda>(re, le).
     case (if event_is_pending re then remote_event_listner_notify prio_of env rounds fuel (re, le) else Some (re, le)) of
       None \<Rightarrow> None
     | Some (re, le) \<Rightarrow>
         (if event_is_pending le
          then (case local_event_listner_notify prio_of run le of None \<Rightarrow> None | Some (le, log) \<Rightarrow> Some (re, le, log))
          else Some (re, le, [])))"

section \<open>The local listener\<close>

abbreviation roots :: "event_listner_s \<Rightarrow> nat \<Rightarrow> event list" where
  "roots el p \<equiv> evl_root (el_tbl el ! p)"

definition ev_ok :: "(event \<Rightarrow> nat) \<Rightarrow> event_listner_s \<Rightarrow> bool" where
  "ev_ok prio_of el \<longleftrightarrow> length (el_tbl el) = E_PRIO_NR \<and>
     (\<forall>p<E_PRIO_NR. evl_count (el_tbl el ! p) = of_nat (length (roots el p)) \<and> (\<forall>e\<in>set (roots el p). prio_of e = p))"

definition ev_queued :: "event_listner_s \<Rightarrow> event list" where
  "ev_queued el = concat (map evl_root (el_tbl el))"

text \<open>\<open>covered c el\<close>: the events of a priority below \<open>c\<close> will be found by the next notification.\<close>

definition covered :: "nat \<Rightarrow> event_listner_s \<Rightarrow> bool" where
  "covered c el \<longleftrightarrow> (\<forall>p<E_PRIO_NR. roots el p \<noteq> [] \<longrightarrow> c \<le> p \<or> event_is_pending el \<and> el_prio el \<le> p)"

definition ev_inv :: "(event \<Rightarrow> nat) \<Rightarrow> event_listner_s \<Rightarrow> bool" where
  "ev_inv prio_of el \<longleftrightarrow> ev_ok prio_of el \<and> covered E_PRIO_NR el"

lemma concat_update:
  "i < length xs \<Longrightarrow> mset (concat (map f (xs[i := y]))) + mset (f (xs ! i)) = mset (concat (map f xs)) + mset (f y)"
proof (induction xs arbitrary: i)
  case (Cons x xs)
  then show ?case by (cases i) auto
qed simp

lemma mset_queued_update:
  assumes "p < length (el_tbl el)" and "el_tbl el' = (el_tbl el)[p := l]"
  shows "mset (ev_queued el') + mset (roots el p) = mset (ev_queued el) + mset (evl_root l)"
  using concat_update [OF assms(1), of evl_root l] assms(2) by (simp add: ev_queued_def)

lemma pending_or [simp]: "(f OR EVENT_PENDING) AND EVENT_PENDING \<noteq> 0"
  by (simp add: bit.conj_disj_distrib2)

lemma local_event_send_sel:
  assumes "ev_ok prio_of el" and "prio_of e < E_PRIO_NR"
  shows "roots (local_event_send prio_of e f el) p = (if p = prio_of e then (if f then roots el p @ [e] else e # roots el p) else roots el p)"
    and "event_is_pending (local_event_send prio_of e f el)"
    and "el_prio (local_event_send prio_of e f el) = (if \<not> event_is_pending el \<or> el_prio el > prio_of e then prio_of e else el_prio el)"
    and "el_count (local_event_send prio_of e f el) = el_count el"
  using assms by (simp_all add: local_event_send_def Let_def ev_ok_def nth_list_update)

lemma local_event_send_ok:
  assumes "ev_ok prio_of el" and "prio_of e < E_PRIO_NR"
  shows "ev_ok prio_of (local_event_send prio_of e f el)"
    and "mset (ev_queued (local_event_send prio_of e f el)) = mset (ev_queued el) + {#e#}"
    and "covered c el \<Longrightarrow> covered c (local_event_send prio_of e f el)"
proof -
  show "ev_ok prio_of (local_event_send prio_of e f el)"
    using assms by (auto simp: local_event_send_def Let_def ev_ok_def nth_list_update)
  let ?l = "\<lparr>evl_count = evl_count (el_tbl el ! prio_of e) + 1, evl_root = (if f then roots el (prio_of e) @ [e] else e # roots el (prio_of e))\<rparr>"
  have "el_tbl (local_event_send prio_of e f el) = (el_tbl el)[prio_of e := ?l]" by (simp add: local_event_send_def Let_def)
  from mset_queued_update [OF _ this] show "mset (ev_queued (local_event_send prio_of e f el)) = mset (ev_queued el) + {#e#}"
    using assms by (simp add: ev_ok_def split: if_splits)
  show "covered c (local_event_send prio_of e f el)" if "covered c el"
    using that unfolding covered_def local_event_send_sel [OF assms] by (auto simp: local_event_send_sel(2) [OF assms])
qed

text \<open>The events that the handlers of a log send.\<close>

definition sent_during :: "(event list \<Rightarrow> (event \<times> bool) list) \<Rightarrow> event list \<Rightarrow> event multiset" where
  "sent_during run log = (\<Sum>k\<leftarrow>[0..<length log]. mset (map fst (run (take (Suc k) log))))"

lemma sent_during_snoc: "sent_during run (log @ [e]) = sent_during run log + mset (map fst (run (log @ [e])))"
proof -
  have "(\<Sum>k\<leftarrow>[0..<length log]. mset (map fst (run (take (Suc k) (log @ [e]))))) =
      (\<Sum>k\<leftarrow>[0..<length log]. mset (map fst (run (take (Suc k) log))))"
    by (intro arg_cong [where f = sum_list] map_cong) simp_all
  then show ?thesis unfolding sent_during_def by (simp del: take_append mset_map)
qed

lemma fold_send_ok:
  assumes "ev_ok prio_of el" and "\<forall>(e, f)\<in>set es. prio_of e < E_PRIO_NR"
  shows "ev_ok prio_of (fold (\<lambda>(e, f). local_event_send prio_of e f) es el) \<and>
    mset (ev_queued (fold (\<lambda>(e, f). local_event_send prio_of e f) es el)) = mset (ev_queued el) + mset (map fst es) \<and>
    (covered c el \<longrightarrow> covered c (fold (\<lambda>(e, f). local_event_send prio_of e f) es el)) \<and>
    el_count (fold (\<lambda>(e, f). local_event_send prio_of e f) es el) = el_count el"
  using assms
proof (induction es arbitrary: el)
  case (Cons x es)
  obtain e f where x: "x = (e, f)" by fastforce
  with Cons.prems have p: "prio_of e < E_PRIO_NR" by simp
  note s = local_event_send_ok(1,2) [OF Cons.prems(1) p, where f = f] local_event_send_ok(3) [OF Cons.prems(1) p, where f = f and c = c]
    local_event_send_sel(4) [OF Cons.prems(1) p]
  have "\<forall>(e, f)\<in>set es. prio_of e < E_PRIO_NR" using Cons.prems by simp
  from Cons.IH [OF s(1) this] s show ?case by (auto simp: x)
qed simp


text \<open>Runs of finitely many sends: \<open>N\<close> handlers send at most \<open>M\<close> events each.\<close>

definition few_sends :: "(event \<Rightarrow> nat) \<Rightarrow> nat \<Rightarrow> nat \<Rightarrow> (event list \<Rightarrow> (event \<times> bool) list) \<Rightarrow> bool" where
  "few_sends prio_of N M run \<longleftrightarrow> (\<forall>log. (\<forall>(e, f)\<in>set (run log). prio_of e < E_PRIO_NR) \<and>
     length (run log) \<le> M \<and> (length log > N \<longrightarrow> run log = []))"

definition ev_work :: "nat \<Rightarrow> nat \<Rightarrow> event_listner_s \<times> event list \<Rightarrow> nat" where
  "ev_work N M s = (N - length (snd s)) * M + size (mset (ev_queued (fst s)))"

text \<open>What the loops keep: \<open>Q\<close> is what was queued at the start.\<close>

definition ev_loop :: "(event \<Rightarrow> nat) \<Rightarrow> (event list \<Rightarrow> (event \<times> bool) list) \<Rightarrow> event multiset \<Rightarrow> nat \<Rightarrow> nat \<Rightarrow> event_listner_s \<times> event list \<Rightarrow> bool" where
  "ev_loop prio_of run Q N M s \<longleftrightarrow> ev_ok prio_of (fst s) \<and> ev_work N M s < 2 ^ 32 \<and>
     mset (snd s) + mset (ev_queued (fst s)) = Q + sent_during run (snd s)"

lemma size_roots_le: "p < length (el_tbl el) \<Longrightarrow> length (roots el p) \<le> size (mset (ev_queued el))"
proof -
  assume "p < length (el_tbl el)"
  then have "roots el p \<in> set (map evl_root (el_tbl el))" by simp
  then show ?thesis by (auto simp: ev_queued_def length_concat intro!: member_le_sum_list)
qed

lemma ev_count_zero:
  assumes "ev_loop prio_of run Q N M s" and "p < E_PRIO_NR"
  shows "evl_count (el_tbl (fst s) ! p) = 0 \<longleftrightarrow> roots (fst s) p = []"
proof -
  have "length (roots (fst s) p) < 2 ^ 32"
    using assms size_roots_le [of p "fst s"] by (simp add: ev_loop_def ev_ok_def ev_work_def)
  then have "unat (evl_count (el_tbl (fst s) ! p)) = length (roots (fst s) p)"
    using assms by (simp add: ev_loop_def ev_ok_def unat_of_nat_32)
  then show ?thesis by (metis length_0_conv unat_eq_zero)
qed

lemma deliver_one:
  assumes L: "ev_loop prio_of run Q N M (el, log)" and few: "few_sends prio_of N M run" and p: "p < E_PRIO_NR"
    and r: "roots el p = e # rest" and cov: "covered p el"
  defines "el1 \<equiv> el\<lparr>el_tbl := (el_tbl el)[p := \<lparr>evl_count = evl_count (el_tbl el ! p) - 1, evl_root = rest\<rparr>]\<rparr>"
  defines "el2 \<equiv> run_handler prio_of run (log @ [e]) el1"
  shows "ev_loop prio_of run Q N M (el2, log @ [e]) \<and> covered p el2 \<and> ev_work N M (el2, log @ [e]) < ev_work N M (el, log) \<and>
    el_count el2 = el_count el"
proof -
  have ok: "ev_ok prio_of el" and eq: "mset log + mset (ev_queued el) = Q + sent_during run log" using L by (auto simp: ev_loop_def)
  have len: "length (el_tbl el) = E_PRIO_NR" using ok by (simp add: ev_ok_def)
  have ok1: "ev_ok prio_of el1" using ok p r by (auto simp: ev_ok_def el1_def nth_list_update)
  have "mset (ev_queued el1) + mset (roots el p) = mset (ev_queued el) + mset rest"
    using mset_queued_update [of p el el1] p len by (simp add: el1_def)
  then have q1: "mset (ev_queued el) = mset (ev_queued el1) + {#e#}" using r by simp
  have cov1: "covered p el1" using cov p len by (auto simp: covered_def el1_def nth_list_update split: if_splits)
  let ?es = "run (log @ [e])"
  have pr: "\<forall>(e, f)\<in>set ?es. prio_of e < E_PRIO_NR" and m: "length ?es \<le> M" "length log \<ge> N \<longrightarrow> ?es = []"
    using few by (auto simp: few_sends_def)
  note f = fold_send_ok [OF ok1 pr, of p]
  have q2: "mset (ev_queued el2) = mset (ev_queued el1) + mset (map fst ?es)" and ok2: "ev_ok prio_of el2" and cov2: "covered p el2"
    and ct: "el_count el2 = el_count el"
    using f cov1 by (simp_all add: el2_def run_handler_def el1_def)
  have "size (mset (ev_queued el2)) + 1 = size (mset (ev_queued el)) + length ?es" using q1 q2 by simp
  moreover have "(N - length (log @ [e])) * M + length ?es \<le> (N - length log) * M"
  proof (cases "length log < N")
    case True
    then have "(N - length log) * M = (N - length (log @ [e])) * M + M" by (metis Suc_diff_Suc add.commute length_append_singleton mult_Suc)
    then show ?thesis using m by simp
  qed (use m in simp)
  ultimately have w: "ev_work N M (el2, log @ [e]) < ev_work N M (el, log)" by (simp add: ev_work_def)
  have "mset (log @ [e]) + mset (ev_queued el2) = Q + sent_during run (log @ [e])"
    using eq q1 q2 by (simp add: sent_during_snoc ac_simps)
  then show ?thesis using w ok2 cov2 L ct by (auto simp: ev_loop_def)
qed

lemma local_drain_ok:
  assumes "ev_loop prio_of run Q N M s" and "few_sends prio_of N M run" and "p < E_PRIO_NR" and "covered p (fst s)"
  shows "\<exists>s'. local_drain prio_of run p s = Some s' \<and> ev_loop prio_of run Q N M s' \<and> covered (Suc p) (fst s') \<and>
     ev_work N M s' \<le> ev_work N M s \<and> (ev_work N M s' = ev_work N M s \<longrightarrow> s' = s) \<and> el_count (fst s') = el_count (fst s)"
  using assms
proof (induction "ev_work N M s" arbitrary: s rule: less_induct)
  case less
  obtain el log where s: "s = (el, log)" by fastforce
  show ?case
  proof (cases "roots el p")
    case Nil
    then have "local_drain prio_of run p s = Some s"
      using ev_count_zero [OF less.prems(1,3)] s by (simp add: local_drain.simps)
    moreover have "covered (Suc p) el" using less.prems(4) Nil s unfolding covered_def by (metis fst_conv Suc_leI le_neq_implies_less)
    ultimately show ?thesis using less.prems s by auto
  next
    case (Cons e rest)
    let ?el1 = "el\<lparr>el_tbl := (el_tbl el)[p := \<lparr>evl_count = evl_count (el_tbl el ! p) - 1, evl_root = rest\<rparr>]\<rparr>"
    let ?s2 = "(run_handler prio_of run (log @ [e]) ?el1, log @ [e])"
    have d: "ev_loop prio_of run Q N M ?s2" "covered p (fst ?s2)" "ev_work N M ?s2 < ev_work N M s" "el_count (fst ?s2) = el_count el"
      using deliver_one [OF _ less.prems(2,3) Cons] less.prems s by auto
    have "local_drain prio_of run p s = local_drain prio_of run p ?s2"
      using ev_count_zero [OF less.prems(1,3)] Cons s by (subst local_drain.simps) (simp add: Let_def)
    with less.hyps [OF d(3) d(1) less.prems(2,3) d(2)] d(3,4) show ?thesis using s by auto
  qed
qed


lemma local_notify_loop_ok:
  assumes "ev_loop prio_of run Q N M s" and "few_sends prio_of N M run" and "start \<le> current"
    and "covered current (fst s)"
  shows "\<exists>s'. local_notify_loop prio_of run start current s = Some s' \<and> ev_loop prio_of run Q N M s' \<and>
    covered E_PRIO_NR (fst s') \<and> el_count (fst s') = el_count (fst s)"
  using assms
proof (induction "(ev_work N M s, (if el_prio (fst s) \<le> start then 1::nat else 0), E_PRIO_NR - current)" arbitrary: s start current
    rule: wf_induct_rule [OF wf_lex_prod [OF wf_less wf_lex_prod [OF wf_less wf_less]]])
  case (1 s start current)
  note IH = 1(1) and L = 1(2) and few = 1(3) and sc = 1(4) and cov = 1(5)
  show ?case
  proof (cases "current < E_PRIO_NR")
    case False
    then show ?thesis using L cov by (auto simp: local_notify_loop.simps [of _ _ start] covered_def)
  next
    case True
    define restart where "restart \<longleftrightarrow> el_prio (fst s) \<le> start"
    define start' where "start' = (if restart then el_prio (fst s) else start)"
    define cur where "cur = (if restart then el_prio (fst s) else current)"
    define el where "el = (if restart then (fst s)\<lparr>el_prio := el_prio (fst s) + 1\<rparr> else fst s)"
    have cur: "cur < E_PRIO_NR" "start' \<le> cur" "cur \<le> current" using True sc by (auto simp: cur_def start'_def restart_def)
    have r: "roots el p = roots (fst s) p" "event_is_pending el = event_is_pending (fst s)" "ev_queued el = ev_queued (fst s)" for p
      by (simp_all add: el_def ev_queued_def)
    have L1: "ev_loop prio_of run Q N M (el, snd s)" using L by (simp add: ev_loop_def ev_ok_def r ev_work_def) (simp add: el_def)
    have cov1: "covered cur el"
      using cov sc unfolding covered_def r by (auto simp: cur_def el_def restart_def)
    have w1: "ev_work N M (el, snd s) = ev_work N M s" by (simp add: ev_work_def r)
    obtain s1 where s1: "local_drain prio_of run cur (el, snd s) = Some s1" "ev_loop prio_of run Q N M s1" "covered (Suc cur) (fst s1)"
      "ev_work N M s1 \<le> ev_work N M s" "ev_work N M s1 = ev_work N M s \<longrightarrow> s1 = (el, snd s)" "el_count (fst s1) = el_count el"
      using local_drain_ok [OF L1 few cur(1)] cov1 w1 by auto
    have "local_notify_loop prio_of run start current s = local_notify_loop prio_of run start' (Suc cur) s1"
      using True s1(1) by (subst local_notify_loop.simps) (simp add: Let_def restart_def start'_def cur_def el_def)
    moreover have "\<exists>s'. local_notify_loop prio_of run start' (Suc cur) s1 = Some s' \<and> ev_loop prio_of run Q N M s' \<and>
        covered E_PRIO_NR (fst s') \<and> el_count (fst s') = el_count (fst s1)"
    proof (rule IH [OF _ s1(2) few _ s1(3)])
      show "start' \<le> Suc cur" using cur by simp
      have "el_prio el > start'" by (auto simp: el_def start'_def restart_def)
      then have "ev_work N M s1 = ev_work N M s \<longrightarrow> \<not> el_prio (fst s1) \<le> start'" using s1(5) by auto
      moreover have "\<not> restart \<longrightarrow> E_PRIO_NR - Suc cur < E_PRIO_NR - current" using True by (auto simp: cur_def)
      ultimately show "((ev_work N M s1, (if el_prio (fst s1) \<le> start' then 1::nat else 0), E_PRIO_NR - Suc cur),
          (ev_work N M s, (if el_prio (fst s) \<le> start then 1 else 0), E_PRIO_NR - current)) \<in> {(x, y). x < y} <*lex*> {(x, y). x < y} <*lex*> {(x, y). x < y}"
        using s1(4) by (auto simp: restart_def)
    qed
    ultimately show ?thesis using s1(6) by (auto simp: el_def)
  qed
qed


text \<open>Handlers that send nothing.\<close>

lemma local_drain_quiet:
  assumes "length (el_tbl el) = E_PRIO_NR" and "p < E_PRIO_NR" and "evl_count (el_tbl el ! p) = of_nat (length (roots el p))"
    and "length (roots el p) < 2 ^ 32"
  shows "local_drain prio_of (\<lambda>_. []) p (el, log) =
    Some (el\<lparr>el_tbl := (el_tbl el)[p := \<lparr>evl_count = 0, evl_root = []\<rparr>]\<rparr>, log @ roots el p)"
  using assms
proof (induction "roots el p" arbitrary: el log)
  case Nil
  then have "evl_count (el_tbl el ! p) = 0" "roots el p = []" by simp_all
  then have "el_tbl el ! p = \<lparr>evl_count = 0, evl_root = []\<rparr>" by (cases "el_tbl el ! p") simp
  then have "(el_tbl el)[p := \<lparr>evl_count = 0, evl_root = []\<rparr>] = el_tbl el" by (metis list_update_id)
  then show ?case using \<open>roots el p = []\<close> \<open>evl_count _ = 0\<close> by (simp add: local_drain.simps)
next
  case (Cons e rest)
  let ?el1 = "el\<lparr>el_tbl := (el_tbl el)[p := \<lparr>evl_count = evl_count (el_tbl el ! p) - 1, evl_root = rest\<rparr>]\<rparr>"
  have r: "roots el p = e # rest" using Cons.hyps(2) by simp
  have "unat (evl_count (el_tbl el ! p)) = Suc (length rest)" using Cons.prems(3,4) unat_of_nat_32 [of "length (roots el p)"] r by simp
  then have "evl_count (el_tbl el ! p) \<noteq> 0" by auto
  then have "local_drain prio_of (\<lambda>_. []) p (el, log) = local_drain prio_of (\<lambda>_. []) p (?el1, log @ [e])"
    using r by (subst local_drain.simps) (simp add: Let_def run_handler_def)
  moreover have "roots ?el1 p = rest" using Cons.prems by simp
  moreover have "evl_count (el_tbl ?el1 ! p) = of_nat (length rest)" using Cons.prems r by simp
  ultimately show ?case using Cons.hyps(1) [of ?el1 "log @ [e]"] Cons.prems r by simp
qed

lemma local_notify_loop_quiet:
  assumes "ev_ok prio_of el" and "\<forall>p<E_PRIO_NR. length (roots el p) < 2 ^ 32" and "start < el_prio el" and "current \<le> E_PRIO_NR"
  shows "\<exists>el'. local_notify_loop prio_of (\<lambda>_. []) start current (el, log) = Some (el', log @ concat (map (roots el) [current..<E_PRIO_NR])) \<and>
     (\<forall>p<E_PRIO_NR. roots el' p = (if current \<le> p then [] else roots el p)) \<and> length (el_tbl el') = E_PRIO_NR"
  using assms
proof (induction "E_PRIO_NR - current" arbitrary: current el log)
  case 0
  then show ?case by (simp add: local_notify_loop.simps [of _ _ start] ev_ok_def)
next
  case (Suc k)
  then have cur: "current < E_PRIO_NR" and len: "length (el_tbl el) = E_PRIO_NR" by (simp_all add: ev_ok_def)
  let ?el = "el\<lparr>el_tbl := (el_tbl el)[current := \<lparr>evl_count = 0, evl_root = []\<rparr>]\<rparr>"
  have d: "local_drain prio_of (\<lambda>_. []) current (el, log) = Some (?el, log @ roots el current)"
    by (rule local_drain_quiet) (use Suc.prems cur in \<open>simp_all add: ev_ok_def\<close>)
  then have e: "local_notify_loop prio_of (\<lambda>_. []) start current (el, log) = local_notify_loop prio_of (\<lambda>_. []) start (Suc current) (?el, log @ roots el current)"
    using cur Suc.prems(3) by (subst local_notify_loop.simps) (simp add: Let_def)
  have ok: "ev_ok prio_of ?el" "\<forall>p<E_PRIO_NR. length (roots ?el p) < 2 ^ 32"
    using Suc.prems cur by (auto simp: ev_ok_def nth_list_update)
  have r: "roots ?el p = (if p = current then [] else roots el p)" for p using cur len by simp
  have m: "map (roots ?el) [Suc current..<E_PRIO_NR] = map (roots el) [Suc current..<E_PRIO_NR]" by (rule map_cong) (auto simp: r)
  have "k = E_PRIO_NR - Suc current" using Suc.hyps(2) by arith
  from Suc.hyps(1) [OF this ok _ Suc_leI [OF cur], of "log @ roots el current"]
  obtain el' where el': "local_notify_loop prio_of (\<lambda>_. []) start (Suc current) (?el, log @ roots el current) =
      Some (el', (log @ roots el current) @ concat (map (roots ?el) [Suc current..<E_PRIO_NR]))"
    "\<forall>p<E_PRIO_NR. roots el' p = (if Suc current \<le> p then [] else roots ?el p)" "length (el_tbl el') = E_PRIO_NR"
    using Suc.prems(3) by (metis (no_types, lifting) event_listner_s.select_convs(4) event_listner_s.surjective event_listner_s.update_convs(5))
  have "concat (map (roots el) [current..<E_PRIO_NR]) = roots el current @ concat (map (roots el) [Suc current..<E_PRIO_NR])"
    using upt_conv_Cons [OF cur] by simp
  then have "local_notify_loop prio_of (\<lambda>_. []) start current (el, log) = Some (el', log @ concat (map (roots el) [current..<E_PRIO_NR]))"
    using e el'(1) by (simp only: m append_assoc)
  moreover have "roots el' p = (if current \<le> p then [] else roots el p)" if "p < E_PRIO_NR" for p
  proof -
    have "roots el' p = (if Suc current \<le> p then [] else roots ?el p)" using el'(2) that by blast
    then show ?thesis unfolding r by (cases "p = current") auto
  qed
  ultimately show ?case using el'(3) by blast
qed

lemma ev_queued_flags [simp]:
  "ev_queued (el\<lparr>el_flags := a, el_prio := b\<rparr>) = ev_queued el" "ev_queued (el\<lparr>el_count := c\<rparr>) = ev_queued el"
  by (simp_all add: ev_queued_def)

lemma queued_nil: "length (el_tbl el) = E_PRIO_NR \<Longrightarrow> (\<forall>p<E_PRIO_NR. roots el p = []) \<Longrightarrow> ev_queued el = []"
  by (auto simp: ev_queued_def in_set_conv_nth)

lemma local_delivery:
  assumes inv: "ev_inv prio_of el" and few: "few_sends prio_of N M run" and sz: "length (ev_queued el) + N * M < 2 ^ 32"
  shows "\<exists>el' log. local_event_listner_notify prio_of run el = Some (el', log) \<and> ev_inv prio_of el' \<and>
     mset log + mset (ev_queued el') = mset (ev_queued el) + sent_during run log \<and>
     el_count el' = el_count el + of_nat (length log) \<and>
     (run = (\<lambda>_. []) \<longrightarrow> log = concat (map (\<lambda>p. evl_root (el_tbl el ! p)) [0..<E_PRIO_NR]) \<and> ev_queued el' = [])"
proof -
  let ?el = "el\<lparr>el_flags := el_flags el AND NOT EVENT_PENDING, el_prio := el_prio el + 1\<rparr>"
  have ok: "ev_ok prio_of el" and cov: "covered E_PRIO_NR el" using inv by (auto simp: ev_inv_def)
  have L: "ev_loop prio_of run (mset (ev_queued el)) N M (?el, [])"
    using ok sz by (simp add: ev_loop_def ev_ok_def ev_work_def sent_during_def add.commute)
  have c: "covered (el_prio el) ?el" using cov by (auto simp: covered_def)
  from local_notify_loop_ok [OF L few order_refl, of "el_prio el", unfolded fst_conv, OF c] obtain s' where
    s': "local_notify_loop prio_of run (el_prio el) (el_prio el) (?el, []) = Some s'"
      "ev_loop prio_of run (mset (ev_queued el)) N M s'" "covered E_PRIO_NR (fst s')" "el_count (fst s') = el_count el"
    by auto
  define el' where "el' = (fst s')\<lparr>el_count := el_count (fst s') + of_nat (length (snd s'))\<rparr>"
  have n: "local_event_listner_notify prio_of run el = Some (el', snd s')"
    using s'(1) by (simp add: local_event_listner_notify_def Let_def el'_def split: prod.split)
  have e: "ev_queued el' = ev_queued (fst s')" "\<And>p. roots el' p = roots (fst s') p" by (simp_all add: el'_def ev_queued_def)
  have "ev_inv prio_of el'" using s'(2,3) by (simp add: ev_inv_def ev_loop_def ev_ok_def covered_def e) (simp add: el'_def)
  moreover have "log = concat (map (roots el) [0..<E_PRIO_NR]) \<and> ev_queued (fst s') = []"
    if run: "run = (\<lambda>_. [])" and log: "log = snd s'" for log
  proof -
    have b: "\<forall>p<E_PRIO_NR. length (roots ?el p) < 2 ^ 32"
    proof (intro allI impI)
      fix p assume "p < E_PRIO_NR"
      then have "length (roots el p) \<le> length (ev_queued el)" using size_roots_le [of p el] ok by (simp add: ev_ok_def)
      then show "length (roots ?el p) < 2 ^ 32" using sz by simp
    qed
    have low: "roots el p = []" if "p < min (el_prio el) E_PRIO_NR" for p using cov that by (fastforce simp: covered_def)
    have "\<exists>el'. local_notify_loop prio_of (\<lambda>_. []) (el_prio el) (el_prio el) (?el, []) =
        Some (el', concat (map (roots ?el) [min (el_prio el) E_PRIO_NR..<E_PRIO_NR])) \<and>
       (\<forall>p<E_PRIO_NR. roots el' p = (if el_prio el \<le> p then [] else roots ?el p)) \<and> length (el_tbl el') = E_PRIO_NR"
    proof (cases "el_prio el \<le> E_PRIO_NR")
      case True
      then show ?thesis using local_notify_loop_quiet [of prio_of ?el "el_prio el" "el_prio el" "[]"] ok b
        by (auto simp: ev_ok_def min_def)
    next
      case False
      then show ?thesis using ok by (auto simp: local_notify_loop.simps [of _ _ "el_prio el"] ev_ok_def)
    qed
    then have "snd s' = concat (map (roots el) [min (el_prio el) E_PRIO_NR..<E_PRIO_NR])" "length (el_tbl (fst s')) = E_PRIO_NR"
      "\<forall>p<E_PRIO_NR. roots (fst s') p = (if el_prio el \<le> p then [] else roots el p)"
      using s'(1) run by auto
    moreover have "concat (map (roots el) [0..<E_PRIO_NR]) = concat (map (roots el) [min (el_prio el) E_PRIO_NR..<E_PRIO_NR])"
    proof -
      have "[0..<E_PRIO_NR] = [0..<min (el_prio el) E_PRIO_NR] @ [min (el_prio el) E_PRIO_NR..<E_PRIO_NR]"
        using upt_add_eq_append [of 0 "min (el_prio el) E_PRIO_NR" "E_PRIO_NR - min (el_prio el) E_PRIO_NR"] by simp
      moreover have "concat (map (roots el) [0..<min (el_prio el) E_PRIO_NR]) = []" using low by simp
      ultimately show ?thesis by (metis append_Nil concat_append map_append)
    qed
    ultimately show ?thesis using log low queued_nil [of "fst s'"] by simp
  qed
  ultimately show ?thesis using n s'(2,4) e(1)
    by (intro exI [of _ el'] exI [of _ "snd s'"]) (auto simp: ev_loop_def el'_def)
qed

text \<open>C30. Local events, whatever at most \<open>N\<close> of the handlers send meanwhile (up to \<open>M\<close> events each, and less than
  \<open>2^32\<close> in all): the notification ends; every event that was queued or is sent is delivered once or is
  still queued; and what is still queued is found by the next notification, whose starting priority is not
  above it. When the handlers send nothing, all events are delivered in the order of their priorities, and first
  come first served within one.\<close>

theorem event_local_delivery:
  assumes inv: "ev_inv prio_of el" and few: "few_sends prio_of N M run" and sz: "length (ev_queued el) + N * M < 2 ^ 32"
  shows "\<exists>el' log. local_event_listner_notify prio_of run el = Some (el', log) \<and> ev_inv prio_of el' \<and>
     mset log + mset (ev_queued el') = mset (ev_queued el) + sent_during run log \<and>
     el_count el' = el_count el + of_nat (length log) \<and>
     (run = (\<lambda>_. []) \<longrightarrow> log = concat (map (\<lambda>p. evl_root (el_tbl el ! p)) [0..<E_PRIO_NR]) \<and> ev_queued el' = [])"
  using local_delivery [OF assms] .

definition wit_el :: event_listner_s where
  "wit_el = \<lparr>el_type = EL_LOCAL, el_count = 0, el_flags = 1, el_prio = 2,
     el_tbl = (replicate E_PRIO_NR \<lparr>evl_count = 0, evl_root = []\<rparr>)[2 := \<lparr>evl_count = 1, evl_root = [12]\<rparr>, 4 := \<lparr>evl_count = 2, evl_root = [14, 24]\<rparr>],
     el_kfifo = []\<rparr>"

lemma wit_el_inv: "ev_inv (\<lambda>e. e mod 10) wit_el"
proof -
  have t: "list_all (\<lambda>p. evl_count (el_tbl wit_el ! p) = of_nat (length (roots wit_el p)) \<and>
      list_all (\<lambda>e. e mod 10 = p) (roots wit_el p) \<and> (roots wit_el p = [] \<or> event_is_pending wit_el \<and> el_prio wit_el \<le> p)) [0..<E_PRIO_NR]"
    by code_simp
  have "length (el_tbl wit_el) = E_PRIO_NR" by code_simp
  with t show ?thesis by (auto simp: ev_inv_def ev_ok_def covered_def list_all_iff)
qed

theorem event_local_delivery_witness:
  "\<exists>el'. local_event_listner_notify (\<lambda>e. e mod 10) (\<lambda>_. []) wit_el = Some (el', [12, 14, 24]) \<and> ev_queued el' = []"
proof -
  note wit_el_inv
  moreover have "few_sends (\<lambda>e. e mod 10) 0 0 (\<lambda>_. [])" by (simp add: few_sends_def)
  moreover have "ev_queued wit_el = [12, 14, 24]" "concat (map (\<lambda>p. evl_root (el_tbl wit_el ! p)) [0..<E_PRIO_NR]) = [12, 14, 24]" by code_simp+
  ultimately show ?thesis using event_local_delivery [of "\<lambda>e. e mod 10" wit_el 0 0 "\<lambda>_. []"] by auto
qed

section \<open>The remote listener\<close>

text \<open>Emptying a FIFO puts every event in front of the list of the local listener, so the events of one priority that
  came together are delivered in the reverse of the order in which they were sent.\<close>

lemma remote_drain_reverses:
  assumes "kf_inv kf" and "ev_ok prio_of le" and "\<forall>e\<in>set (kf_contents kf). prio_of e = p" and "p < E_PRIO_NR"
    and "length (kf_contents kf) < fuel"
  shows "\<exists>kf' le'. remote_drain prio_of fuel (kf, le) = Some (kf', le') \<and> kf_inv kf' \<and> kf_contents kf' = [] \<and> ev_ok prio_of le' \<and>
     roots le' p = rev (kf_contents kf) @ roots le p"
  using assms
proof (induction fuel arbitrary: kf le)
  case (Suc fuel)
  show ?case
  proof (cases "kf_contents kf")
    case Nil
    then have "kfifo_get (\<lambda>_ kf. kf) kf = (EAGAIN, None, kf)" using kfq.get_none Suc.prems(1) by blast
    then show ?thesis using Nil Suc.prems by simp
  next
    case (Cons e es)
    then obtain kf' where g: "kfifo_get (\<lambda>_ kf. kf) kf = (0, Some e, kf')" "kf_inv kf'" "kf_contents kf' = es"
      using kfq.get_some [OF Suc.prems(1) Cons] by blast
    have pe: "prio_of e = p" using Suc.prems(3) Cons by simp
    have l: "ev_ok prio_of (local_event_send prio_of e False le)" "roots (local_event_send prio_of e False le) p = e # roots le p"
      using local_event_send_ok(1) [OF Suc.prems(2)] local_event_send_sel(1) [OF Suc.prems(2), of e False p] pe Suc.prems(4) by auto
    from Suc.IH [OF g(2) l(1)] Suc.prems g Cons l show ?thesis by auto
  qed
qed simp


text \<open>One round over all FIFOs.\<close>

lemma remote_drain_le:
  assumes "remote_drain prio_of fuel (kf, le) = Some (kf', le')" and "kf_inv kf" and "ev_ok prio_of le"
    and "\<forall>e\<in>set (kf_contents kf). prio_of e = p" and "p < E_PRIO_NR"
  shows "(covered c le \<longrightarrow> covered c le') \<and> (\<forall>q. q \<noteq> p \<longrightarrow> roots le' q = roots le q) \<and> kf_size kf' = kf_size kf"
  using assms
proof (induction fuel arbitrary: kf le)
  case (Suc fuel)
  show ?case
  proof (cases "kf_contents kf")
    case Nil
    then have "kfifo_get (\<lambda>_ kf. kf) kf = (EAGAIN, None, kf)" using kfq.get_none Suc.prems(2) by blast
    then show ?thesis using Nil Suc.prems(1) by simp
  next
    case (Cons e es)
    then obtain kf1 where g: "kfifo_get (\<lambda>_ kf. kf) kf = (0, Some e, kf1)" "kf_inv kf1" "kf_contents kf1 = es" "kf_size kf1 - 1 = kf_size kf - 1"
      using kfq.get_some [OF Suc.prems(2) Cons] by blast
    have sz: "kf_size kf1 = kf_size kf" using g(2,4) Suc.prems(2) by (auto simp: kf_inv_def)
    have pe: "prio_of e = p" "\<forall>e\<in>set es. prio_of e = p" using Suc.prems(4) Cons by simp_all
    let ?le = "local_event_send prio_of e False le"
    have d: "remote_drain prio_of fuel (kf1, ?le) = Some (kf', le')" using Suc.prems(1) g(1) by simp
    have l: "ev_ok prio_of ?le" "\<forall>q. q \<noteq> p \<longrightarrow> roots ?le q = roots le q" "covered c le \<longrightarrow> covered c ?le"
      using local_event_send_ok(1,3) [OF Suc.prems(3)] local_event_send_sel(1) [OF Suc.prems(3), of e False] pe(1) Suc.prems(5) by auto
    from Suc.IH [OF d g(2) l(1)] pe(2) Suc.prems(5) g(3) l sz show ?thesis by auto
  qed
qed simp

text \<open>A remote listener whose FIFOs hold events of their own priority.\<close>

definition re_ok :: "(event \<Rightarrow> nat) \<Rightarrow> event_listner_s \<Rightarrow> bool" where
  "re_ok prio_of re \<longleftrightarrow> length (el_kfifo re) = E_PRIO_NR \<and>
     (\<forall>p<E_PRIO_NR. kf_inv (el_kfifo re ! p) \<and> (\<forall>e\<in>set (kf_contents (el_kfifo re ! p)). prio_of e = p))"

lemma remote_round_ok:
  assumes "re_ok prio_of re" and "ev_ok prio_of le" and "set ps \<subseteq> {..<E_PRIO_NR}" and "distinct ps"
    and "\<forall>p<E_PRIO_NR. length (kf_contents (el_kfifo re ! p)) < fuel"
  shows "\<exists>re' le'. remote_round prio_of fuel ps (re, le) = Some (re', le') \<and> re_ok prio_of re' \<and> ev_ok prio_of le' \<and>
     (covered c le \<longrightarrow> covered c le') \<and> el_flags re' = el_flags re \<and> el_count re' = el_count re \<and>
     (\<forall>p<E_PRIO_NR. kf_contents (el_kfifo re' ! p) = (if p \<in> set ps then [] else kf_contents (el_kfifo re ! p)) \<and>
        roots le' p = (if p \<in> set ps then rev (kf_contents (el_kfifo re ! p)) @ roots le p else roots le p))"
  using assms
proof (induction ps arbitrary: re le)
  case (Cons p ps)
  have p: "p < E_PRIO_NR" "p \<notin> set ps" using Cons.prems by auto
  have k: "kf_inv (el_kfifo re ! p)" "\<forall>e\<in>set (kf_contents (el_kfifo re ! p)). prio_of e = p" "length (kf_contents (el_kfifo re ! p)) < fuel"
    and len: "length (el_kfifo re) = E_PRIO_NR" using Cons.prems p by (auto simp: re_ok_def)
  obtain kf le1 where d: "remote_drain prio_of fuel (el_kfifo re ! p, le) = Some (kf, le1)" "kf_inv kf" "kf_contents kf = []"
      "ev_ok prio_of le1" "roots le1 p = rev (kf_contents (el_kfifo re ! p)) @ roots le p"
    using remote_drain_reverses [OF k(1) Cons.prems(2) k(2) p(1) k(3)] by blast
  from remote_drain_le [OF d(1) k(1) Cons.prems(2) k(2) p(1), of c]
  have d2: "covered c le \<longrightarrow> covered c le1" "\<forall>q. q \<noteq> p \<longrightarrow> roots le1 q = roots le q" by blast+
  define re1 where "re1 = re\<lparr>el_kfifo := (el_kfifo re)[p := kf]\<rparr>"
  have n: "el_kfifo re1 ! q = (if q = p then kf else el_kfifo re ! q)" for q
    using p(1) len by (simp add: re1_def)
  have ok1: "re_ok prio_of re1" using Cons.prems(1) d(2,3) len unfolding re_ok_def n by (auto simp: re1_def)
  have f1: "\<forall>q<E_PRIO_NR. length (kf_contents (el_kfifo re1 ! q)) < fuel" unfolding n using Cons.prems(5) d(3) k(3) by auto
  have e: "remote_round prio_of fuel (p # ps) (re, le) = remote_round prio_of fuel ps (re1, le1)" using d(1) by (simp add: re1_def)
  have ps: "set ps \<subseteq> {..<E_PRIO_NR}" "distinct ps" using Cons.prems by auto
  from Cons.IH [OF ok1 d(4) ps f1] obtain re' le' where r: "remote_round prio_of fuel ps (re1, le1) = Some (re', le')"
      "re_ok prio_of re'" "ev_ok prio_of le'" "covered c le1 \<longrightarrow> covered c le'" "el_flags re' = el_flags re1" "el_count re' = el_count re1"
      "\<forall>q<E_PRIO_NR. kf_contents (el_kfifo re' ! q) = (if q \<in> set ps then [] else kf_contents (el_kfifo re1 ! q)) \<and>
        roots le' q = (if q \<in> set ps then rev (kf_contents (el_kfifo re1 ! q)) @ roots le1 q else roots le1 q)" by blast
  have "kf_contents (el_kfifo re' ! q) = (if q \<in> set (p # ps) then [] else kf_contents (el_kfifo re ! q)) \<and>
        roots le' q = (if q \<in> set (p # ps) then rev (kf_contents (el_kfifo re ! q)) @ roots le q else roots le q)" if "q < E_PRIO_NR" for q
  proof (cases "q = p")
    case True
    then show ?thesis using r(7) that p(2) d(3,5) n by auto
  next
    case False
    then show ?thesis using r(7) that d2(2) n by auto
  qed
  moreover have "el_flags re1 = el_flags re" "el_count re1 = el_count re" by (simp_all add: re1_def)
  ultimately show ?case using e r(1-6) d2(1) by (intro exI [of _ re'] exI [of _ le']) auto
qed auto

lemma not_pending_clear: "(f AND NOT EVENT_PENDING) AND EVENT_PENDING = 0"
  by (simp add: and.assoc)

text \<open>A notification of remote events that no other processor disturbs ends after one round with all FIFOs empty
  and the flag clear. Every event is queued in the local listener, where the next local notification finds it. The
  events of one priority come before those that were there, in the reverse of the order in which they were
  sent.\<close>

lemma event_remote_notify:
  assumes re: "re_ok prio_of re" and le: "ev_inv prio_of le"
    and fuel: "\<forall>p<E_PRIO_NR. length (kf_contents (el_kfifo re ! p)) < fuel" and "0 < rounds"
  shows "\<exists>re' le'. remote_event_listner_notify prio_of (\<lambda>_ re. re) rounds fuel (re, le) = Some (re', le') \<and>
     re_ok prio_of re' \<and> ev_inv prio_of le' \<and> \<not> event_is_pending re' \<and> el_count re' = el_count re + 9 \<and>
     (\<forall>p<E_PRIO_NR. kf_contents (el_kfifo re' ! p) = [] \<and>
        evl_root (el_tbl le' ! p) = rev (kf_contents (el_kfifo re ! p)) @ evl_root (el_tbl le ! p))"
proof -
  define re1 where "re1 = re\<lparr>el_flags := el_flags re AND NOT EVENT_PENDING\<rparr>"
  have k: "el_kfifo re1 = el_kfifo re" "el_count re1 = el_count re" "el_flags re1 = el_flags re AND NOT EVENT_PENDING"
    by (simp_all add: re1_def)
  have "re_ok prio_of re1" using re by (simp add: re_ok_def k)
  from remote_round_ok [OF this, of le "[0..<E_PRIO_NR]" fuel E_PRIO_NR] le fuel k(1)
  obtain re2 le2 where r: "remote_round prio_of fuel [0..<E_PRIO_NR] (re1, le) = Some (re2, le2)" "re_ok prio_of re2" "ev_inv prio_of le2"
      "el_flags re2 = el_flags re1" "el_count re2 = el_count re1"
      "\<forall>p<E_PRIO_NR. kf_contents (el_kfifo re2 ! p) = [] \<and> roots le2 p = rev (kf_contents (el_kfifo re ! p)) @ roots le p"
    by (auto simp: ev_inv_def lessThan_atLeast0)
  obtain n where n: "rounds = Suc n" using \<open>0 < rounds\<close> gr0_implies_Suc by blast
  let ?re = "re2\<lparr>el_count := el_count re2 + 9\<rparr>"
  have np: "el_flags re2 AND EVENT_PENDING = 0" using r(4) k(3) by (simp only: not_pending_clear)
  have "remote_event_listner_notify prio_of (\<lambda>_ re. re) rounds fuel (re, le) = Some (?re, le2)"
    unfolding remote_event_listner_notify_def n remote_notify_loop.simps re1_def [symmetric] r(1)
    using np by (simp add: Let_def)
  then show ?thesis using r(2,3,5,6) k(2) np by (intro exI [of _ ?re] exI [of _ le2]) (simp add: re_ok_def)
qed


definition wit_re :: event_listner_s where
  "wit_re = \<lparr>el_type = EL_REMOTE, el_count = 0, el_flags = 1, el_prio = 0, el_tbl = [],
     el_kfifo = (replicate E_PRIO_NR \<lparr>kf_wridx = 0, kf_rdidx = 0, kf_put_multi = True, kf_get_multi = False, kf_size = 32, kf_tbl = replicate 32 0\<rparr>)
       [4 := \<lparr>kf_wridx = 1, kf_rdidx = 31, kf_put_multi = True, kf_get_multi = False, kf_size = 32, kf_tbl = (replicate 32 0)[31 := 34, 0 := 44]\<rparr>]\<rparr>"

lemma no_pending_no_roots: "ev_inv prio_of le \<Longrightarrow> \<not> event_is_pending le \<Longrightarrow> p < E_PRIO_NR \<Longrightarrow> roots le p = []"
  by (auto simp: ev_inv_def covered_def)

text \<open>One round of the event manager thread, when no other processor interferes and the handlers send nothing: it
  ends, delivers every event of both listeners exactly once and leaves them empty with their flags clear.
  Priorities are served in their order. Within one priority the remote events come first, in the reverse of the order
  in which they were sent, since they are moved one by one to the front of the local list.\<close>

theorem event_manager_delivers:
  assumes re: "re_ok prio_of re" and pend: "\<forall>p<E_PRIO_NR. kf_contents (el_kfifo re ! p) \<noteq> [] \<longrightarrow> event_is_pending re"
    and le: "ev_inv prio_of le" and fuel: "\<forall>p<E_PRIO_NR. length (kf_contents (el_kfifo re ! p)) < fuel" and "0 < rounds"
    and sz: "(\<Sum>p<E_PRIO_NR. length (kf_contents (el_kfifo re ! p)) + length (evl_root (el_tbl le ! p))) < 2 ^ 32"
  shows "\<exists>re' le'. event_manager_round prio_of (\<lambda>_. []) (\<lambda>_ re. re) rounds fuel (re, le) =
       Some (re', le', concat (map (\<lambda>p. rev (kf_contents (el_kfifo re ! p)) @ evl_root (el_tbl le ! p)) [0..<E_PRIO_NR])) \<and>
     re_ok prio_of re' \<and> ev_inv prio_of le' \<and> \<not> event_is_pending re' \<and> ev_queued le' = [] \<and>
     (\<forall>p<E_PRIO_NR. kf_contents (el_kfifo re' ! p) = [])"
proof -
  obtain re1 le1 where r: "(if event_is_pending re then remote_event_listner_notify prio_of (\<lambda>_ re. re) rounds fuel (re, le) else Some (re, le)) = Some (re1, le1)"
      "re_ok prio_of re1" "ev_inv prio_of le1" "\<not> event_is_pending re1"
      "\<And>p. p < E_PRIO_NR \<Longrightarrow> kf_contents (el_kfifo re1 ! p) = []"
      "\<And>p. p < E_PRIO_NR \<Longrightarrow> roots le1 p = rev (kf_contents (el_kfifo re ! p)) @ roots le p"
  proof (cases "event_is_pending re")
    case True
    then show ?thesis using that event_remote_notify [OF re le fuel \<open>0 < rounds\<close>] by auto
  next
    case False
    then have "\<And>p. p < E_PRIO_NR \<Longrightarrow> kf_contents (el_kfifo re ! p) = []" using pend by blast
    then show ?thesis using that [of re le] re le False by auto
  qed
  have len: "length (el_tbl le1) = E_PRIO_NR" using r(3) by (simp add: ev_inv_def ev_ok_def)
  have q: "ev_queued le1 = concat (map (roots le1) [0..<E_PRIO_NR])"
    unfolding ev_queued_def using map_nth [of "el_tbl le1"] len by (metis (no_types, lifting) map_map comp_apply map_cong)
  have m: "map (roots le1) [0..<E_PRIO_NR] = map (\<lambda>p. rev (kf_contents (el_kfifo re ! p)) @ roots le p) [0..<E_PRIO_NR]"
    by (rule map_cong) (auto simp: r(6))
  have "length (ev_queued le1) < 2 ^ 32"
    using sz unfolding q m by (simp add: length_concat comp_def interv_sum_list_conv_sum_set_nat atLeast0LessThan)
  moreover have "few_sends prio_of 0 0 (\<lambda>_. [])" by (simp add: few_sends_def)
  ultimately obtain le2 where l: "local_event_listner_notify prio_of (\<lambda>_. []) le1 = Some (le2, concat (map (roots le1) [0..<E_PRIO_NR]))"
      "ev_inv prio_of le2" "ev_queued le2 = []"
    using local_delivery [OF r(3), of 0 0 "\<lambda>_. []"] by auto
  show ?thesis
  proof (cases "event_is_pending le1")
    case True
    then show ?thesis using r(1,2,4,5) l unfolding event_manager_round_def m by auto
  next
    case False
    have "concat (map (roots le1) [0..<E_PRIO_NR]) = []" using no_pending_no_roots [OF r(3) False] by (auto simp: concat_eq_Nil_conv)
    then show ?thesis using False r q unfolding event_manager_round_def m by auto
  qed
qed

theorem event_manager_delivers_witness:
  "\<exists>re' le'. event_manager_round (\<lambda>e. e mod 10) (\<lambda>_. []) (\<lambda>_ re. re) 1 32 (wit_re, wit_el) = Some (re', le', [12, 44, 34, 14, 24])"
proof -
  have t: "list_all (\<lambda>p. kf_inv (el_kfifo wit_re ! p) \<and> list_all (\<lambda>e. e mod 10 = p) (kf_contents (el_kfifo wit_re ! p)) \<and>
     length (kf_contents (el_kfifo wit_re ! p)) < 32 \<and> length (kf_contents (el_kfifo wit_re ! p)) + length (evl_root (el_tbl wit_el ! p)) \<le> 9)
     [0..<E_PRIO_NR]" by code_simp
  moreover have "length (el_kfifo wit_re) = E_PRIO_NR" "event_is_pending wit_re" by code_simp+
  ultimately have "re_ok (\<lambda>e. e mod 10) wit_re" "\<forall>p<E_PRIO_NR. length (kf_contents (el_kfifo wit_re ! p)) < 32"
    by (auto simp: re_ok_def list_all_iff)
  moreover have "(\<Sum>p<E_PRIO_NR. length (kf_contents (el_kfifo wit_re ! p)) + length (evl_root (el_tbl wit_el ! p))) \<le> (\<Sum>p<E_PRIO_NR. 9)"
    using t by (intro sum_mono) (simp add: list_all_iff)
  moreover have "concat (map (\<lambda>p. rev (kf_contents (el_kfifo wit_re ! p)) @ evl_root (el_tbl wit_el ! p)) [0..<E_PRIO_NR]) = [12, 44, 34, 14, 24]"
    by code_simp
  ultimately show ?thesis
    using event_manager_delivers [of "\<lambda>e. e mod 10" wit_re wit_el 32 1] wit_el_inv \<open>event_is_pending wit_re\<close> by auto
qed


text \<open>When the FIFO stays full for a period, the event waits in the list of its own processor as a local event of
  priority \<^verbatim>\<open>E_CHR\<close>; its handler finds the listener in the argument and the event as it was.\<close>

definition re_send_backoff_handler :: "event \<Rightarrow> event_store \<Rightarrow> nat \<times> event_store" where
  "re_send_backoff_handler event es = (let rel = ei_arg (e_info (es event)) in (rel, es(event := event_restore (es event))))"

lemma re_send_restores:
  assumes "re_send_backoff period tm_now tm_stamp event el (es, le) = (0, es', le')"
  shows "period \<le> tm_now - tm_stamp" and "ei_prio (e_info (es' event)) = E_CHR"
    and "fst (re_send_backoff_handler event es') = el" and "e_info (snd (re_send_backoff_handler event es') event) = e_info (es event)"
    and "\<And>v. v \<noteq> event \<Longrightarrow> es' v = es v" and "evl_root (el_tbl le' ! E_CHR) = event # roots le E_CHR \<or> length (el_tbl le) \<le> E_CHR"
  using assms by (auto simp: re_send_backoff_def re_send_backoff_handler_def event_backup_def event_restore_def local_event_send_def
      Let_def nth_list_update not_less split: if_splits)

section \<open>Senders on other processors\<close>

text \<open>
  \<^verbatim>\<open>remote_event_send\<close> on any number of processors against \<^verbatim>\<open>remote_event_listner_notify\<close> on the owner. A put and
  a get of a FIFO are one step each, which \<^verbatim>\<open>multi_put\<close> does not guarantee (the theorem \<open>kfifo_multi_put_lost\<close> of \<open>Fifo\<close>);
  the accesses to the flags are single steps: the two loads and the store of \<open>flags\<close> and the interrupt of a sender; the test of the event
  manager, the load and the store that clear the flag, every get and the final test of the owner. A sender whose
  event was turned into a local one (\<^verbatim>\<open>re_send_backoff\<close>) raises the flag as well. Between these accesses the
  owner may queue and deliver local events. \<open>rs_sent\<close> and \<open>rs_got\<close> record what was put and what was taken,
  \<open>rs_local\<close> the events sent locally and \<open>rs_done\<close> those delivered.
\<close>

datatype sender_pc = P_idle | P_put event | P_seen event bool | P_or event bool uint_t | P_ipi event bool

datatype owner_pc = C_idle | C_load | C_store uint_t | C_drain nat

record rel_state =
  rs_re :: event_listner_s
  rs_pc :: "nat \<Rightarrow> sender_pc"
  rs_c :: owner_pc
  rs_le :: event_listner_s
  rs_sent :: "event list"
  rs_got :: "event list"
  rs_local :: "event multiset"
  rs_done :: "event multiset"
  rs_ipis :: nat

definition set_kfifo :: "nat \<Rightarrow> event kfifo_s \<Rightarrow> event_listner_s \<Rightarrow> event_listner_s" where
  "set_kfifo p kf re = re\<lparr>el_kfifo := (el_kfifo re)[p := kf]\<rparr>"

inductive rel_step :: "(event \<Rightarrow> nat) \<Rightarrow> rel_state \<Rightarrow> rel_state \<Rightarrow> bool" for prio_of where
  put: "rs_pc s i = P_idle \<Longrightarrow> prio_of e < E_PRIO_NR \<Longrightarrow>
    kfifo_put (\<lambda>_ kf. kf) (\<lambda>kf. kf) e (el_kfifo (rs_re s) ! prio_of e) = (0, kf) \<Longrightarrow>
    rel_step prio_of s (s\<lparr>rs_re := set_kfifo (prio_of e) kf (rs_re s), rs_pc := (rs_pc s)(i := P_put e), rs_sent := rs_sent s @ [e]\<rparr>)"
| give_up: "rs_pc s i = P_idle \<Longrightarrow> prio_of e < E_PRIO_NR \<Longrightarrow> rel_step prio_of s (s\<lparr>rs_pc := (rs_pc s)(i := P_put e)\<rparr>)"
| seen: "rs_pc s i = P_put e \<Longrightarrow> rel_step prio_of s (s\<lparr>rs_pc := (rs_pc s)(i := P_seen e (event_is_pending (rs_re s)))\<rparr>)"
| or_load: "rs_pc s i = P_seen e b \<Longrightarrow> rel_step prio_of s (s\<lparr>rs_pc := (rs_pc s)(i := P_or e b (el_flags (rs_re s)))\<rparr>)"
| or_store: "rs_pc s i = P_or e b f \<Longrightarrow>
    rel_step prio_of s (s\<lparr>rs_re := (rs_re s)\<lparr>el_flags := f OR EVENT_PENDING\<rparr>, rs_pc := (rs_pc s)(i := P_ipi e b)\<rparr>)"
| ipi: "rs_pc s i = P_ipi e b \<Longrightarrow>
    rel_step prio_of s (s\<lparr>rs_pc := (rs_pc s)(i := P_idle), rs_ipis := rs_ipis s + (if prio_of e < E_FUNC \<and> \<not> b then 1 else 0)\<rparr>)"
| start: "rs_c s = C_idle \<Longrightarrow> event_is_pending (rs_re s) \<Longrightarrow> rel_step prio_of s (s\<lparr>rs_c := C_load\<rparr>)"
| clear_load: "rs_c s = C_load \<Longrightarrow> rel_step prio_of s (s\<lparr>rs_c := C_store (el_flags (rs_re s))\<rparr>)"
| clear_store: "rs_c s = C_store f \<Longrightarrow>
    rel_step prio_of s (s\<lparr>rs_re := (rs_re s)\<lparr>el_flags := f AND NOT EVENT_PENDING\<rparr>, rs_c := C_drain 0\<rparr>)"
| get: "rs_c s = C_drain p \<Longrightarrow> p < E_PRIO_NR \<Longrightarrow> kfifo_get (\<lambda>_ kf. kf) (el_kfifo (rs_re s) ! p) = (0, Some e, kf) \<Longrightarrow>
    rel_step prio_of s (s\<lparr>rs_re := set_kfifo p kf (rs_re s), rs_le := local_event_send prio_of e False (rs_le s), rs_got := rs_got s @ [e]\<rparr>)"
| next_prio: "rs_c s = C_drain p \<Longrightarrow> p < E_PRIO_NR \<Longrightarrow> fst (kfifo_get (\<lambda>_ kf. kf) (el_kfifo (rs_re s) ! p)) \<noteq> 0 \<Longrightarrow>
    rel_step prio_of s (s\<lparr>rs_c := C_drain (p + 1)\<rparr>)"
| again: "rs_c s = C_drain E_PRIO_NR \<Longrightarrow>
    rel_step prio_of s (s\<lparr>rs_c := (if event_is_pending (rs_re s) then C_load else C_idle)\<rparr>)"
| local_send: "prio_of e < E_PRIO_NR \<Longrightarrow>
    rel_step prio_of s (s\<lparr>rs_le := local_event_send prio_of e f (rs_le s), rs_local := rs_local s + {#e#}\<rparr>)"
| notify: "few_sends prio_of N M run \<Longrightarrow> length (ev_queued (rs_le s)) + N * M < 2 ^ 32 \<Longrightarrow>
    local_event_listner_notify prio_of run (rs_le s) = Some (le', log) \<Longrightarrow>
    rel_step prio_of s (s\<lparr>rs_le := le', rs_local := rs_local s + sent_during run log, rs_done := rs_done s + mset log\<rparr>)"

definition rel_start :: "event_listner_s \<Rightarrow> event_listner_s \<Rightarrow> rel_state" where
  "rel_start re le = \<lparr>rs_re = re, rs_pc = (\<lambda>_. P_idle), rs_c = C_idle, rs_le = le, rs_sent = [], rs_got = [], rs_local = {#}, rs_done = {#}, rs_ipis = 0\<rparr>"

abbreviation fifo_of :: "rel_state \<Rightarrow> nat \<Rightarrow> event list" where
  "fifo_of s p \<equiv> kf_contents (el_kfifo (rs_re s) ! p)"

text \<open>The owner has still to look into the FIFO of priority \<open>p\<close>.\<close>

definition to_look :: "nat \<Rightarrow> owner_pc \<Rightarrow> bool" where
  "to_look p c = (case c of C_idle \<Rightarrow> False | C_load \<Rightarrow> True | C_store f \<Rightarrow> True | C_drain q \<Rightarrow> q \<le> p)"

definition raises :: "sender_pc \<Rightarrow> bool" where
  "raises c = (case c of P_idle \<Rightarrow> False | P_put e \<Rightarrow> True | P_seen e b \<Rightarrow> True | P_or e b f \<Rightarrow> True | P_ipi e b \<Rightarrow> False)"

text \<open>An event in a FIFO is announced by the flag, will be announced by a sender, or will be met by the owner.\<close>

definition announced :: "rel_state \<Rightarrow> bool" where
  "announced s \<longleftrightarrow> (\<forall>p<E_PRIO_NR. fifo_of s p \<noteq> [] \<longrightarrow> event_is_pending (rs_re s) \<or> (\<exists>i. raises (rs_pc s i)) \<or> to_look p (rs_c s))"

text \<open>The FIFOs in order, and every event accounted for.\<close>

definition accounted :: "(event \<Rightarrow> nat) \<Rightarrow> rel_state \<Rightarrow> bool" where
  "accounted prio_of s \<longleftrightarrow> (\<forall>p<E_PRIO_NR. filter (\<lambda>e. prio_of e = p) (rs_sent s) = filter (\<lambda>e. prio_of e = p) (rs_got s) @ fifo_of s p) \<and>
     mset (rs_got s) + rs_local s = mset (ev_queued (rs_le s)) + rs_done s"

definition rel_inv :: "(event \<Rightarrow> nat) \<Rightarrow> rel_state \<Rightarrow> bool" where
  "rel_inv prio_of s \<longleftrightarrow> re_ok prio_of (rs_re s) \<and> ev_inv prio_of (rs_le s) \<and> announced s \<and> accounted prio_of s"

lemma set_kfifo_sel [simp]: "el_flags (set_kfifo p kf re) = el_flags re" "length (el_kfifo (set_kfifo p kf re)) = length (el_kfifo re)"
  by (simp_all add: set_kfifo_def)

lemma set_kfifo_nth: "p < length (el_kfifo re) \<Longrightarrow> el_kfifo (set_kfifo p kf re) ! q = (if q = p then kf else el_kfifo re ! q)"
  by (simp add: set_kfifo_def)

lemma re_ok_set: "re_ok prio_of re \<Longrightarrow> p < E_PRIO_NR \<Longrightarrow> kf_inv kf \<Longrightarrow> \<forall>e\<in>set (kf_contents kf). prio_of e = p \<Longrightarrow> re_ok prio_of (set_kfifo p kf re)"
  by (simp add: re_ok_def set_kfifo_nth)

lemma re_ok_flags [simp]: "re_ok prio_of (re\<lparr>el_flags := f\<rparr>) = re_ok prio_of re"
  by (simp add: re_ok_def)

lemma announced_mono:
  "announced s \<Longrightarrow> (\<forall>p<E_PRIO_NR. fifo_of s' p \<noteq> [] \<longrightarrow> fifo_of s p \<noteq> [] \<or> (\<exists>i. raises (rs_pc s' i))) \<Longrightarrow>
   (event_is_pending (rs_re s) \<longrightarrow> event_is_pending (rs_re s')) \<Longrightarrow> (\<forall>i. raises (rs_pc s i) \<longrightarrow> raises (rs_pc s' i) \<or> event_is_pending (rs_re s')) \<Longrightarrow>
   (\<forall>p<E_PRIO_NR. to_look p (rs_c s) \<longrightarrow> fifo_of s' p = [] \<or> to_look p (rs_c s') \<or> event_is_pending (rs_re s')) \<Longrightarrow> announced s'"
  unfolding announced_def by metis

lemma kfifo_get_cases:
  assumes "kf_inv kf"
  shows "fst (kfifo_get (\<lambda>_ kf. kf) kf) \<noteq> 0 \<Longrightarrow> kf_contents kf = []"
    and "kfifo_get (\<lambda>_ kf. kf) kf = (0, Some e, kf') \<Longrightarrow> kf_inv kf' \<and> kf_contents kf = e # kf_contents kf'"
proof -
  show "kf_contents kf = []" if "fst (kfifo_get (\<lambda>_ kf. kf) kf) \<noteq> 0"
    using that kfq.get_some [OF assms] by (cases "kf_contents kf") fastforce+
  show "kf_inv kf' \<and> kf_contents kf = e # kf_contents kf'" if "kfifo_get (\<lambda>_ kf. kf) kf = (0, Some e, kf')"
  proof (cases "kf_contents kf")
    case Nil
    then show ?thesis using that kfq.get_none [OF assms Nil] by simp
  next
    case (Cons v vs)
    then show ?thesis using that kfq.get_some [OF assms Cons] by auto
  qed
qed

lemma kfifo_put_cases:
  assumes "kf_inv kf" and "kfifo_put (\<lambda>_ kf. kf) (\<lambda>kf. kf) e kf = (0, kf')"
  shows "kf_inv kf' \<and> kf_contents kf' = kf_contents kf @ [e]"
proof (cases "length (kf_contents kf) < kf_size kf - 1")
  case True
  then show ?thesis using assms(2) kfq.put_room [OF assms(1) True, of e] by auto
next
  case False
  then show ?thesis using assms(2) kfq.put_full [OF assms(1), of e] by simp
qed


lemma raises_simps [simp]:
  "\<not> raises P_idle" "raises (P_put e)" "raises (P_seen e b)" "raises (P_or e b f)" "\<not> raises (P_ipi e b)"
  by (simp_all add: raises_def)

lemma to_look_simps [simp]: "\<not> to_look p C_idle" "to_look p C_load" "to_look p (C_store f)" "to_look p (C_drain q) = (q \<le> p)"
  by (simp_all add: to_look_def)

lemma rel_put:
  assumes I: "rel_inv prio_of s" and e: "prio_of e < E_PRIO_NR"
    and k: "kfifo_put (\<lambda>_ kf. kf) (\<lambda>kf. kf) e (el_kfifo (rs_re s) ! prio_of e) = (0, kf)"
  shows "rel_inv prio_of (s\<lparr>rs_re := set_kfifo (prio_of e) kf (rs_re s), rs_pc := (rs_pc s)(i := P_put e), rs_sent := rs_sent s @ [e]\<rparr>)"
    (is "rel_inv prio_of ?t")
proof -
  have ok: "re_ok prio_of (rs_re s)" and an: "announced s" and ac: "accounted prio_of s" using I by (simp_all add: rel_inv_def)
  have len: "prio_of e < length (el_kfifo (rs_re s))" using ok e by (simp add: re_ok_def)
  have kf: "kf_inv kf" "kf_contents kf = fifo_of s (prio_of e) @ [e]" using kfifo_put_cases [OF _ k] ok e by (auto simp: re_ok_def)
  have "re_ok prio_of (rs_re ?t)" using re_ok_set [OF ok e kf(1)] ok e unfolding kf(2) re_ok_def [of _ "rs_re s"] by simp
  moreover have "announced ?t" unfolding announced_def by (auto intro: exI [of _ i])
  moreover have "accounted prio_of ?t" using ac kf(2) by (auto simp: accounted_def set_kfifo_nth [OF len])
  ultimately show ?thesis using I by (simp add: rel_inv_def)
qed

lemma rel_get:
  assumes I: "rel_inv prio_of s" and c: "rs_c s = C_drain p" and p: "p < E_PRIO_NR"
    and k: "kfifo_get (\<lambda>_ kf. kf) (el_kfifo (rs_re s) ! p) = (0, Some e, kf)"
  shows "rel_inv prio_of (s\<lparr>rs_re := set_kfifo p kf (rs_re s), rs_le := local_event_send prio_of e False (rs_le s), rs_got := rs_got s @ [e]\<rparr>)"
    (is "rel_inv prio_of ?t")
proof -
  have ok: "re_ok prio_of (rs_re s)" and le: "ev_ok prio_of (rs_le s)" "covered E_PRIO_NR (rs_le s)" and an: "announced s"
    and ac: "accounted prio_of s" using I by (simp_all add: rel_inv_def ev_inv_def)
  have len: "p < length (el_kfifo (rs_re s))" using ok p by (simp add: re_ok_def)
  have kf: "kf_inv kf" "fifo_of s p = e # kf_contents kf" using kfifo_get_cases(2) [OF _ k] ok p by (auto simp: re_ok_def)
  have pe: "prio_of e = p" "\<forall>e\<in>set (kf_contents kf). prio_of e = p" using ok p kf(2) by (auto simp: re_ok_def)
  have ep: "prio_of e < E_PRIO_NR" using pe(1) p by simp
  note l = local_event_send_ok(1,2) [OF le(1) ep, where f = False] local_event_send_ok(3) [OF le(1) ep le(2), where f = False]
  have "re_ok prio_of (rs_re ?t)" using re_ok_set [OF ok p kf(1)] pe(2) by simp
  moreover have "ev_inv prio_of (rs_le ?t)" using l(1,3) by (simp add: ev_inv_def)
  moreover have "announced ?t" by (rule announced_mono [OF an]) (auto simp: set_kfifo_nth [OF len] kf(2))
  moreover have "accounted prio_of ?t" using ac l(2) pe(1) kf(2) by (auto simp: accounted_def set_kfifo_nth [OF len])
  ultimately show ?thesis by (simp add: rel_inv_def)
qed

lemma rel_step_inv: "rel_step prio_of s t \<Longrightarrow> rel_inv prio_of s \<Longrightarrow> rel_inv prio_of t"
proof (induction rule: rel_step.induct)
  case (put s i e kf)
  then show ?case using rel_put by blast
next
  case (get s p e kf)
  then show ?case using rel_get by blast
next
  case (next_prio s p)
  have e: "fifo_of s p = []" using kfifo_get_cases(1) [OF _ next_prio(3)] next_prio(2,4) by (simp add: rel_inv_def re_ok_def)
  have "announced (s\<lparr>rs_c := C_drain (p + 1)\<rparr>)"
    by (rule announced_mono [of s]) (use next_prio e in \<open>auto simp: rel_inv_def not_less_eq_eq le_antisym\<close>)
  then show ?case using next_prio(4) by (simp add: rel_inv_def accounted_def)
next
  case (local_send e s f)
  then have le: "ev_ok prio_of (rs_le s)" "covered E_PRIO_NR (rs_le s)" by (simp_all add: rel_inv_def ev_inv_def)
  note l = local_event_send_ok(1,2) [OF le(1) local_send(1), where f = f] local_event_send_ok(3) [OF le(1) local_send(1) le(2), where f = f]
  show ?case using local_send(2) l by (simp add: rel_inv_def ev_inv_def accounted_def announced_def)
next
  case (notify N M run s le' log)
  then have "ev_inv prio_of (rs_le s)" by (simp add: rel_inv_def)
  from local_delivery [OF this notify(1,2)] notify(3)
  have "ev_inv prio_of le'" "mset log + mset (ev_queued le') = mset (ev_queued (rs_le s)) + sent_during run log" by auto
  then show ?case using notify(4) by (simp add: rel_inv_def accounted_def announced_def ac_simps)
next
  case (clear_store s f)
  then show ?case by (auto simp: rel_inv_def accounted_def announced_def)
next
  case (or_store s i e b f)
  then show ?case by (auto simp: rel_inv_def accounted_def announced_def simp del: word_bw_comms)
next
  case (again s)
  have "announced (s\<lparr>rs_c := (if event_is_pending (rs_re s) then C_load else C_idle)\<rparr>)"
    by (rule announced_mono [of s]) (use again in \<open>auto simp: rel_inv_def\<close>)
  then show ?case using again(2) by (simp add: rel_inv_def accounted_def)
next
  case (ipi s i e b)
  have "announced (s\<lparr>rs_pc := (rs_pc s)(i := P_idle)\<rparr>)"
    by (rule announced_mono [of s]) (use ipi in \<open>auto simp: rel_inv_def\<close>)
  then show ?case using ipi(2) by (simp add: rel_inv_def accounted_def announced_def)
qed (auto simp: rel_inv_def accounted_def announced_def)

lemma listner_kfifos_ok:
  "listner_kfifos mem i kfs = (0, j, kfs') \<Longrightarrow> length kfs' = length kfs \<and> (\<forall>kf\<in>set kfs'. kf_inv kf \<and> kf_contents kf = [])"
proof (induction kfs arbitrary: i j kfs')
  case (Cons kf kfs)
  from Cons.prems obtain kf1 kfs1 where k: "kfifo_init (\<lambda>_. mem i) 0 CONFIG_REL_KFIFO_SIZE KFIFO_MW kf = (0, kf1)"
      "listner_kfifos mem (Suc i) kfs = (0, j, kfs1)" "kfs' = kf1 # kfs1"
    by (auto simp: Let_def split: prod.splits if_splits)
  show ?case using Cons.IH [OF k(2)] kfifo_init_ok [OF k(1)] k(3) by simp
qed simp

lemma rel_start_inv:
  assumes "event_listner_init mem EL_REMOTE re0 = (0, fr, re)" "length (el_kfifo re0) = E_PRIO_NR"
      "event_listner_init mem' EL_LOCAL le0 = (0, fr', le)"
  shows "rel_inv prio_of (rel_start re le)"
proof -
  obtain i where l: "listner_kfifos mem 0 (el_kfifo re0) = (0, i, el_kfifo re)"
    using assms(1) by (auto simp: event_listner_init_def Let_def split: prod.splits)
  have k: "length (el_kfifo re) = E_PRIO_NR" "\<And>p. p < E_PRIO_NR \<Longrightarrow> kf_inv (el_kfifo re ! p) \<and> kf_contents (el_kfifo re ! p) = []"
    using listner_kfifos_ok [OF l] assms(2) by auto
  have t: "el_tbl le = replicate E_PRIO_NR \<lparr>evl_count = 0, evl_root = []\<rparr>"
    using assms(3) by (auto simp: event_listner_init_def Let_def)
  have "ev_inv prio_of le" by (simp add: ev_inv_def ev_ok_def covered_def t)
  moreover have "ev_queued le = []" by (simp add: ev_queued_def t)
  moreover have "re_ok prio_of re" using k by (simp add: re_ok_def)
  ultimately show ?thesis using k(2) by (simp add: rel_inv_def rel_start_def announced_def accounted_def)
qed

text \<open>The flag protocol of the remote listener, for puts and gets that are atomic, and over all interleavings of the
  loads and stores of the flags by any number of senders with the owner: the FIFO of a priority passes its events to the
  owner in the order in which they were put; every event that was put into a FIFO or sent locally is in a FIFO, queued in
  the local listener or delivered, exactly once; when the senders are through and the owner is idle, a FIFO with an
  event in it has its listener's flag set, and so has a local listener with an event in it. The theorem says nothing of
  a sender whose put fails, nor of an access between the swap and the store of \<^verbatim>\<open>multi_put\<close>, where an event can be
  lost.\<close>

theorem event_remote_flags:
  assumes init: "event_listner_init mem EL_REMOTE re0 = (0, fr, re)" "length (el_kfifo re0) = E_PRIO_NR"
      "event_listner_init mem' EL_LOCAL le0 = (0, fr', le)"
    and reach: "(rel_step prio_of)\<^sup>*\<^sup>* (rel_start re le) s"
  shows "(\<forall>p<E_PRIO_NR. filter (\<lambda>e. prio_of e = p) (rs_sent s) = filter (\<lambda>e. prio_of e = p) (rs_got s) @ kf_contents (el_kfifo (rs_re s) ! p)) \<and>
     mset (rs_got s) + rs_local s = mset (ev_queued (rs_le s)) + rs_done s \<and>
     ((\<forall>i. rs_pc s i = P_idle) \<and> rs_c s = C_idle \<and> (\<exists>p<E_PRIO_NR. kf_contents (el_kfifo (rs_re s) ! p) \<noteq> []) \<longrightarrow> event_is_pending (rs_re s)) \<and>
     (ev_queued (rs_le s) \<noteq> [] \<longrightarrow> event_is_pending (rs_le s))"
proof -
  have "rel_inv prio_of (rel_start re le)" using rel_start_inv [OF init] .
  with reach have I: "rel_inv prio_of s" by (induction rule: rtranclp_induct) (auto intro: rel_step_inv)
  then have le: "ev_inv prio_of (rs_le s)" by (simp add: rel_inv_def)
  have "event_is_pending (rs_le s)" if "ev_queued (rs_le s) \<noteq> []"
  proof (rule ccontr)
    assume "\<not> event_is_pending (rs_le s)"
    then have "\<forall>p<E_PRIO_NR. roots (rs_le s) p = []" using no_pending_no_roots [OF le] by blast
    moreover have "length (el_tbl (rs_le s)) = E_PRIO_NR" using le unfolding ev_inv_def ev_ok_def by blast
    ultimately show False using queued_nil that by blast
  qed
  moreover have "event_is_pending (rs_re s)" if "\<forall>i. rs_pc s i = P_idle" "rs_c s = C_idle" "\<exists>p<E_PRIO_NR. fifo_of s p \<noteq> []"
    using I that unfolding rel_inv_def announced_def by auto
  ultimately show ?thesis using I unfolding rel_inv_def accounted_def by blast
qed

definition wit_rel :: "nat \<Rightarrow> event_listner_s" where
  "wit_rel fl = \<lparr>el_type = EL_REMOTE, el_count = 0, el_flags = 0, el_prio = 0, el_tbl = [],
     el_kfifo = replicate E_PRIO_NR \<lparr>kf_wridx = 0, kf_rdidx = 0, kf_put_multi = True, kf_get_multi = False, kf_size = 32, kf_tbl = replicate 32 fl\<rparr>\<rparr>"

text \<open>Processor 7 puts event 14, loads the flag and stores it.\<close>

theorem event_remote_flags_witness:
  "\<exists>s fr re fr' le. event_listner_init (\<lambda>_. True) EL_REMOTE (wit_rel 3) = (0, fr, re) \<and>
     event_listner_init (\<lambda>_. True) EL_LOCAL wit_el = (0, fr', le) \<and>
     (rel_step (\<lambda>e. e mod 10))\<^sup>*\<^sup>* (rel_start re le) s \<and> rs_sent s = [14] \<and>
     kf_contents (el_kfifo (rs_re s) ! 4) = [14] \<and> event_is_pending (rs_re s)"
proof -
  let ?pr = "\<lambda>e. e mod 10 :: nat"
  define le where "le = snd (snd (event_listner_init (\<lambda>_. True) EL_LOCAL wit_el))"
  have il: "event_listner_init (\<lambda>_. True) EL_LOCAL wit_el = (0, [], le)" by (simp add: le_def event_listner_init_def Let_def)
  have ir: "event_listner_init (\<lambda>_. True) EL_REMOTE (wit_rel 3) = (0, [], wit_rel 0)" and len: "length (el_kfifo (wit_rel 3)) = E_PRIO_NR"
    by code_simp+
  define kf where "kf = snd (kfifo_put (\<lambda>_ kf. kf) (\<lambda>kf. kf) 14 (el_kfifo (wit_rel 0) ! 4))"
  have k: "kfifo_put (\<lambda>_ kf. kf) (\<lambda>kf. kf) 14 (el_kfifo (wit_rel 0) ! 4) = (0, kf)"
    and c: "kf_contents kf = [14]" unfolding kf_def by code_simp+
  define a where "a = (rel_start (wit_rel 0) le)\<lparr>rs_re := set_kfifo 4 kf (wit_rel 0), rs_pc := (\<lambda>_. P_idle)(7 := P_put 14), rs_sent := [14]\<rparr>"
  have 1: "rel_step ?pr (rel_start (wit_rel 0) le) a"
    using rel_step.put [of "rel_start (wit_rel 0) le" 7 ?pr 14 kf] k by (simp add: rel_start_def a_def)
  define b where "b = a\<lparr>rs_pc := (\<lambda>_. P_idle)(7 := P_seen 14 False)\<rparr>"
  have 2: "rel_step ?pr a b"
    using rel_step.seen [of a 7 14 ?pr] by (simp add: a_def b_def rel_start_def set_kfifo_def wit_rel_def)
  define d where "d = b\<lparr>rs_pc := (\<lambda>_. P_idle)(7 := P_or 14 False 0)\<rparr>"
  have 3: "rel_step ?pr b d"
    using rel_step.or_load [of b 7 14 False ?pr] by (simp add: a_def b_def d_def rel_start_def set_kfifo_def wit_rel_def)
  define e where "e = d\<lparr>rs_re := (rs_re d)\<lparr>el_flags := 1\<rparr>, rs_pc := (\<lambda>_. P_idle)(7 := P_ipi 14 False)\<rparr>"
  have 4: "rel_step ?pr d e"
    using rel_step.or_store [of d 7 14 False 0 ?pr] by (simp add: a_def b_def d_def e_def rel_start_def)
  define f where "f = e\<lparr>rs_pc := (\<lambda>_. P_idle)(7 := P_idle), rs_ipis := 1\<rparr>"
  have 5: "rel_step ?pr e f"
    using rel_step.ipi [of e 7 14 False ?pr] by (simp add: a_def b_def d_def e_def f_def rel_start_def)
  have reach: "(rel_step ?pr)\<^sup>*\<^sup>* (rel_start (wit_rel 0) le) f" using 1 2 3 4 5 by (meson converse_rtranclp_into_rtranclp rtranclp.rtrancl_refl)
  have s: "rs_sent f = [14]" "kf_contents (el_kfifo (rs_re f) ! 4) = [14]" "\<forall>i. rs_pc f i = P_idle" "rs_c f = C_idle"
    by (simp_all add: a_def b_def d_def e_def f_def rel_start_def set_kfifo_def wit_rel_def c)
  have "\<exists>p<E_PRIO_NR. kf_contents (el_kfifo (rs_re f) ! p) \<noteq> []" using s(2) by (intro exI [of _ 4]) simp
  then have "event_is_pending (rs_re f)" using event_remote_flags [OF ir len il reach] s(3,4) by blast
  then show ?thesis using il ir reach s(1,2) by blast
qed

end
