(* ===== verification/RBTree.thy ===== *)
theory RBTree
  imports Prelude
begin

text \<open>
  Red-black trees (\<^verbatim>\<open>kernel/libk/rbtree.c\<close>, \<^verbatim>\<open>rbtree.h\<close>). A tree of linked nodes is a value of \<open>rb\<close>; a pointer to a
  node of it is the subtree at the node with its path to the root, the innermost step first. Following
  \<^verbatim>\<open>rb_parent\<close> is one step up this path. \<open>None\<close> stands for a null pointer that is followed.
\<close>

datatype rb_color = RB_RED | RB_BLACK

datatype 'a rb = Null | Node rb_color "'a rb" 'a "'a rb"

text \<open>\<open>InLeft c x r\<close>: the node is the left child of a parent of colour \<open>c\<close> whose right child is \<open>r\<close>.\<close>

datatype 'a rb_step = InLeft rb_color 'a "'a rb" | InRight rb_color "'a rb" 'a

type_synonym 'a rb_path = "'a rb_step list"

fun plug1 :: "'a rb \<Rightarrow> 'a rb_step \<Rightarrow> 'a rb" where
  "plug1 t (InLeft c x r) = Node c t x r"
| "plug1 t (InRight c l x) = Node c l x t"

fun plug :: "'a rb \<Rightarrow> 'a rb_path \<Rightarrow> 'a rb" where
  "plug t [] = t"
| "plug t (p # ps) = plug (plug1 t p) ps"

fun rb_set_color :: "rb_color \<Rightarrow> 'a rb \<Rightarrow> 'a rb" where
  "rb_set_color c Null = Null"
| "rb_set_color c (Node _ l x r) = Node c l x r"

fun rb_is_red :: "'a rb \<Rightarrow> bool" where
  "rb_is_red Null = False"
| "rb_is_red (Node c l x r) = (c = RB_RED)"

fun step_color :: "'a rb_step \<Rightarrow> rb_color" where
  "step_color (InLeft c x r) = c"
| "step_color (InRight c l x) = c"

section \<open>Rotations and insertion\<close>

fun rb_rotate_left :: "'a rb \<Rightarrow> 'a rb option" where
  "rb_rotate_left (Node c l x (Node c' l' y r')) = Some (Node c' (Node c l x l') y r')"
| "rb_rotate_left t = None"

fun rb_rotate_right :: "'a rb \<Rightarrow> 'a rb option" where
  "rb_rotate_right (Node c (Node c' l' y r') x r) = Some (Node c' l' y (Node c r' x r))"
| "rb_rotate_right t = None"

text \<open>\<^verbatim>\<open>rb_insert_color\<close>: the new node \<open>t\<close> is red. While its parent is red there is a grandparent; a red
  uncle moves the problem up, otherwise at most two rotations end the loop.\<close>

fun rb_insert_color :: "'a rb \<Rightarrow> 'a rb_path \<Rightarrow> 'a rb option" where
  "rb_insert_color node [] = Some (rb_set_color RB_BLACK node)"
| "rb_insert_color node [p] =
     (if step_color p = RB_RED then None else Some (rb_set_color RB_BLACK (plug1 node p)))"
| "rb_insert_color node (p # g # ps) =
     (if step_color p = RB_BLACK then Some (rb_set_color RB_BLACK (plug node (p # g # ps)))
      else let parent = plug1 node p in
        case g of
          InLeft gc gx uncle \<Rightarrow>
            if rb_is_red uncle
            then rb_insert_color (Node RB_RED (rb_set_color RB_BLACK parent) gx (rb_set_color RB_BLACK uncle)) ps
            else
              (case (case p of InRight _ _ _ \<Rightarrow> rb_rotate_left parent | InLeft _ _ _ \<Rightarrow> Some parent) of
                 None \<Rightarrow> None
               | Some parent \<Rightarrow>
                   (case rb_rotate_right (Node RB_RED (rb_set_color RB_BLACK parent) gx uncle) of
                      None \<Rightarrow> None
                    | Some t \<Rightarrow> Some (rb_set_color RB_BLACK (plug t ps))))
        | InRight gc uncle gx \<Rightarrow>
            if rb_is_red uncle
            then rb_insert_color (Node RB_RED (rb_set_color RB_BLACK uncle) gx (rb_set_color RB_BLACK parent)) ps
            else
              (case (case p of InLeft _ _ _ \<Rightarrow> rb_rotate_right parent | InRight _ _ _ \<Rightarrow> Some parent) of
                 None \<Rightarrow> None
               | Some parent \<Rightarrow>
                   (case rb_rotate_left (Node RB_RED uncle gx (rb_set_color RB_BLACK parent)) of
                      None \<Rightarrow> None
                    | Some t \<Rightarrow> Some (rb_set_color RB_BLACK (plug t ps)))))"

text \<open>\<^verbatim>\<open>rb_link_node\<close> and \<^verbatim>\<open>rb_insert_color\<close> at an empty link.\<close>

definition rb_insert_at :: "'a \<Rightarrow> 'a rb_path \<Rightarrow> 'a rb option" where
  "rb_insert_at x path = rb_insert_color (Node RB_RED Null x Null) path"

section \<open>Deletion\<close>

fun rb_is_black_or_null :: "'a rb \<Rightarrow> bool" where
  "rb_is_black_or_null t = (\<not> rb_is_red t)"

text \<open>The body of the loop of \<^verbatim>\<open>__rb_erase_color\<close> from the test of the children of \<open>other\<close>, for a node that
  is the left child. \<open>Inl\<close>: the loop goes on with the parent; \<open>Inr\<close>: the rotated subtree, and the loop ends.\<close>

definition erase_left :: "'a rb \<Rightarrow> rb_color \<Rightarrow> 'a \<Rightarrow> 'a rb \<Rightarrow> ('a rb + 'a rb) option" where
  "erase_left node pc px other =
     (case other of
        Null \<Rightarrow> None
      | Node oc sl sx sr \<Rightarrow>
          if rb_is_black_or_null sl \<and> rb_is_black_or_null sr
          then Some (Inl (Node pc node px (Node RB_RED sl sx sr)))
          else
            (case (if rb_is_black_or_null sr then rb_rotate_right (Node RB_RED (rb_set_color RB_BLACK sl) sx sr) else Some other) of
               None \<Rightarrow> None
             | Some Null \<Rightarrow> None
             | Some (Node _ sl sx sr) \<Rightarrow>
                 (case rb_rotate_left (Node RB_BLACK node px (Node pc sl sx (rb_set_color RB_BLACK sr))) of
                    None \<Rightarrow> None | Some t \<Rightarrow> Some (Inr t))))"

definition erase_right :: "'a rb \<Rightarrow> rb_color \<Rightarrow> 'a \<Rightarrow> 'a rb \<Rightarrow> ('a rb + 'a rb) option" where
  "erase_right node pc px other =
     (case other of
        Null \<Rightarrow> None
      | Node oc sl sx sr \<Rightarrow>
          if rb_is_black_or_null sl \<and> rb_is_black_or_null sr
          then Some (Inl (Node pc (Node RB_RED sl sx sr) px node))
          else
            (case (if rb_is_black_or_null sl then rb_rotate_left (Node RB_RED sl sx (rb_set_color RB_BLACK sr)) else Some other) of
               None \<Rightarrow> None
             | Some Null \<Rightarrow> None
             | Some (Node _ sl sx sr) \<Rightarrow>
                 (case rb_rotate_right (Node RB_BLACK (Node pc (rb_set_color RB_BLACK sl) sx sr) px node) of
                    None \<Rightarrow> None | Some t \<Rightarrow> Some (Inr t))))"

text \<open>A red \<open>other\<close> is first rotated above the parent, which becomes red; when the loop then goes on with
  the parent, it ends at once because this node is red.\<close>

fun rb_erase_color :: "'a rb \<Rightarrow> 'a rb_path \<Rightarrow> 'a rb option" where
  "rb_erase_color node [] = Some (rb_set_color RB_BLACK node)"
| "rb_erase_color node (InLeft pc px other # ps) =
     (if rb_is_red node then Some (plug (rb_set_color RB_BLACK node) (InLeft pc px other # ps))
      else if rb_is_red other
      then (case other of
              Null \<Rightarrow> None
            | Node _ sl sx sr \<Rightarrow>
                (case erase_left node RB_RED px sl of
                   None \<Rightarrow> None
                 | Some (Inl t) \<Rightarrow> Some (plug (rb_set_color RB_BLACK t) (InLeft RB_BLACK sx sr # ps))
                 | Some (Inr t) \<Rightarrow> Some (rb_set_color RB_BLACK (plug t (InLeft RB_BLACK sx sr # ps)))))
      else (case erase_left node pc px other of
              None \<Rightarrow> None
            | Some (Inl t) \<Rightarrow> rb_erase_color t ps
            | Some (Inr t) \<Rightarrow> Some (rb_set_color RB_BLACK (plug t ps))))"
| "rb_erase_color node (InRight pc other px # ps) =
     (if rb_is_red node then Some (plug (rb_set_color RB_BLACK node) (InRight pc other px # ps))
      else if rb_is_red other
      then (case other of
              Null \<Rightarrow> None
            | Node _ sl sx sr \<Rightarrow>
                (case erase_right node RB_RED px sr of
                   None \<Rightarrow> None
                 | Some (Inl t) \<Rightarrow> Some (plug (rb_set_color RB_BLACK t) (InRight RB_BLACK sl sx # ps))
                 | Some (Inr t) \<Rightarrow> Some (rb_set_color RB_BLACK (plug t (InRight RB_BLACK sl sx # ps)))))
      else (case erase_right node pc px other of
              None \<Rightarrow> None
            | Some (Inl t) \<Rightarrow> rb_erase_color t ps
            | Some (Inr t) \<Rightarrow> Some (rb_set_color RB_BLACK (plug t ps))))"

text \<open>\<^verbatim>\<open>rb_erase\<close> of the node at a path. \<open>leftmost\<close> follows \<^verbatim>\<open>rb_left\<close> from the right child; the node found takes the
  place and the colour of the erased one.\<close>

fun leftmost :: "'a rb \<Rightarrow> 'a rb_path \<Rightarrow> (rb_color \<times> 'a \<times> 'a rb \<times> 'a rb_path) option" where
  "leftmost Null ps = None"
| "leftmost (Node c Null x r) ps = Some (c, x, r, ps)"
| "leftmost (Node c l x r) ps = leftmost l (InLeft c x r # ps)"

definition rb_erase :: "'a rb \<Rightarrow> 'a rb_path \<Rightarrow> 'a rb option" where
  "rb_erase node path =
     (case node of
        Null \<Rightarrow> None
      | Node c l x r \<Rightarrow>
          if l = Null \<or> r = Null
          then let child = (if l = Null then r else l)
               in if c = RB_BLACK then rb_erase_color child path else Some (plug child path)
          else
            (case leftmost r [] of
               None \<Rightarrow> None
             | Some (color, y, child, ps) \<Rightarrow>
                 let path' = ps @ InRight c l y # path
                 in if color = RB_BLACK then rb_erase_color child path' else Some (plug child path')))"

section \<open>Traversal\<close>

text \<open>\<^verbatim>\<open>rb_first\<close>, \<^verbatim>\<open>rb_last\<close>; \<^verbatim>\<open>rb_next\<close> and \<^verbatim>\<open>rb_prev\<close> of a linked node; \<^verbatim>\<open>rb_replace_node\<close>.\<close>

fun rb_first :: "'a rb \<Rightarrow> 'a option" where
  "rb_first Null = None"
| "rb_first (Node c Null x r) = Some x"
| "rb_first (Node c l x r) = rb_first l"

fun rb_last :: "'a rb \<Rightarrow> 'a option" where
  "rb_last Null = None"
| "rb_last (Node c l x Null) = Some x"
| "rb_last (Node c l x r) = rb_last r"

fun up_right :: "'a rb_path \<Rightarrow> 'a option" where
  "up_right [] = None"
| "up_right (InRight c l x # ps) = up_right ps"
| "up_right (InLeft c x r # ps) = Some x"

fun up_left :: "'a rb_path \<Rightarrow> 'a option" where
  "up_left [] = None"
| "up_left (InLeft c x r # ps) = up_left ps"
| "up_left (InRight c l x # ps) = Some x"

fun rb_next :: "'a rb \<Rightarrow> 'a rb_path \<Rightarrow> 'a option" where
  "rb_next Null ps = None"
| "rb_next (Node c l x r) ps = (if r \<noteq> Null then rb_first r else up_right ps)"

fun rb_prev :: "'a rb \<Rightarrow> 'a rb_path \<Rightarrow> 'a option" where
  "rb_prev Null ps = None"
| "rb_prev (Node c l x r) ps = (if l \<noteq> Null then rb_last l else up_left ps)"

fun rb_replace_node :: "'a \<Rightarrow> 'a rb \<Rightarrow> 'a rb_path \<Rightarrow> 'a rb" where
  "rb_replace_node new Null ps = plug Null ps"
| "rb_replace_node new (Node c l x r) ps = plug (Node c l new r) ps"

section \<open>Order\<close>

fun rb_inorder :: "'a rb \<Rightarrow> 'a list" where
  "rb_inorder Null = []"
| "rb_inorder (Node c l x r) = rb_inorder l @ x # rb_inorder r"

text \<open>What stands before and behind the node of a path.\<close>

fun before :: "'a rb_path \<Rightarrow> 'a list" where
  "before [] = []"
| "before (InLeft c x r # ps) = before ps"
| "before (InRight c l x # ps) = before ps @ rb_inorder l @ [x]"

fun behind :: "'a rb_path \<Rightarrow> 'a list" where
  "behind [] = []"
| "behind (InLeft c x r # ps) = x # rb_inorder r @ behind ps"
| "behind (InRight c l x # ps) = behind ps"

lemma inorder_plug: "rb_inorder (plug t ps) = before ps @ rb_inorder t @ behind ps"
proof (induction ps arbitrary: t)
  case (Cons p ps)
  then show ?case by (cases p) auto
qed simp

lemma inorder_set_color [simp]: "rb_inorder (rb_set_color c t) = rb_inorder t"
  by (cases t) simp_all

section \<open>Balance\<close>

fun bheight :: "'a rb \<Rightarrow> nat" where
  "bheight Null = 0"
| "bheight (Node c l x r) = bheight l + (if c = RB_BLACK then 1 else 0)"

fun rb_invh :: "'a rb \<Rightarrow> bool" where
  "rb_invh Null = True"
| "rb_invh (Node c l x r) = (rb_invh l \<and> rb_invh r \<and> bheight l = bheight r)"

fun rb_invc :: "'a rb \<Rightarrow> bool" where
  "rb_invc Null = True"
| "rb_invc (Node c l x r) = (rb_invc l \<and> rb_invc r \<and> (c = RB_RED \<longrightarrow> \<not> rb_is_red l \<and> \<not> rb_is_red r))"

definition rb_ok :: "'a rb \<Rightarrow> bool" where
  "rb_ok t \<longleftrightarrow> rb_invh t \<and> rb_invc t \<and> \<not> rb_is_red t"

text \<open>A path into which a tree of black height \<open>h\<close> fits.\<close>

definition red_step :: "'a rb_path \<Rightarrow> bool" where
  "red_step ps = (case ps of [] \<Rightarrow> False | p # _ \<Rightarrow> step_color p = RB_RED)"

fun path_ok :: "nat \<Rightarrow> 'a rb_path \<Rightarrow> bool" where
  "path_ok h [] = True"
| "path_ok h (InLeft c x r # ps) =
     (rb_invh r \<and> rb_invc r \<and> bheight r = h \<and> (c = RB_RED \<longrightarrow> \<not> rb_is_red r \<and> \<not> red_step ps \<and> ps \<noteq> []) \<and>
      path_ok (h + (if c = RB_BLACK then 1 else 0)) ps)"
| "path_ok h (InRight c l x # ps) =
     (rb_invh l \<and> rb_invc l \<and> bheight l = h \<and> (c = RB_RED \<longrightarrow> \<not> rb_is_red l \<and> \<not> red_step ps \<and> ps \<noteq> []) \<and>
      path_ok (h + (if c = RB_BLACK then 1 else 0)) ps)"

lemma red_step_simps [simp]: "\<not> red_step []" "red_step (p # ps) \<longleftrightarrow> step_color p = RB_RED"
  by (simp_all add: red_step_def)

lemma color_neq [simp]: "c \<noteq> RB_RED \<longleftrightarrow> c = RB_BLACK" "c \<noteq> RB_BLACK \<longleftrightarrow> c = RB_RED"
  by (cases c; simp)+

lemma set_color_simps [simp]:
  "rb_invh (rb_set_color c t) = rb_invh t" "\<not> rb_is_red (rb_set_color RB_BLACK t)"
  by (cases t; simp)+

lemma invc_black [intro]: "rb_invc t \<Longrightarrow> rb_invc (rb_set_color RB_BLACK t)"
  by (cases t) simp_all

lemma set_black_id: "\<not> rb_is_red t \<Longrightarrow> rb_set_color RB_BLACK t = t"
  by (cases t) simp_all

text \<open>Plugging a tree that fits: the root is black because the last step is.\<close>

lemma plug_ok:
  assumes "path_ok (bheight t) ps" and "rb_invh t" and "rb_invc t" and "rb_is_red t \<longrightarrow> \<not> red_step ps \<and> ps \<noteq> []"
  shows "rb_ok (plug t ps)"
  using assms
proof (induction ps arbitrary: t)
  case Nil
  then show ?case by (simp add: rb_ok_def)
next
  case (Cons p ps)
  then show ?case by (cases p) (auto simp: Cons.IH)
qed

lemma plug_set_black:
  assumes "path_ok (bheight t) ps" and "rb_invh t" and "rb_invc t" and "rb_is_red t \<longrightarrow> \<not> red_step ps"
  shows "rb_ok (rb_set_color RB_BLACK (plug t ps))"
proof (cases "ps = []")
  case True
  then show ?thesis using assms invc_black by (auto simp: rb_ok_def)
next
  case False
  then have "rb_ok (plug t ps)" using plug_ok assms by blast
  then show ?thesis by (simp add: rb_ok_def set_black_id)
qed

section \<open>Insertion\<close>

lemma red_nodeE: "rb_is_red t \<Longrightarrow> (\<And>l x r. t = Node RB_RED l x r \<Longrightarrow> P) \<Longrightarrow> P"
  by (cases t) auto

lemma rb_insert_color_ok:
  assumes "path_ok (bheight node) ps" and "rb_invh node" and "rb_invc node" and "rb_is_red node"
  shows "\<exists>t. rb_insert_color node ps = Some t \<and> rb_ok t \<and> rb_inorder t = before ps @ rb_inorder node @ behind ps"
  using assms
proof (induction node ps rule: rb_insert_color.induct)
  case (1 node)
  then show ?case by (auto simp: rb_ok_def)
next
  case (2 node p)
  then show ?case using plug_set_black [of node "[p]"] by (cases p) auto
next
  case (3 node p g ps)
  show ?case
  proof (cases "step_color p = RB_BLACK")
    case True
    then show ?thesis using 3(3-6) plug_set_black [of node "p # g # ps"]
      inorder_plug [of node "p # g # ps"] by (auto simp del: path_ok.simps before.simps behind.simps)
  next
    case False
    then have red: "step_color p = RB_RED" by simp
    have gb: "step_color g = RB_BLACK" using 3(3) red by (cases p) auto
    show ?thesis
    proof (cases g)
      case (InLeft gc gx uncle)
      show ?thesis
      proof (cases "rb_is_red uncle")
        case True
        from True obtain ul ux ur where u: "uncle = Node RB_RED ul ux ur" by (rule red_nodeE)
        let ?n = "Node RB_RED (rb_set_color RB_BLACK (plug1 node p)) gx (rb_set_color RB_BLACK uncle)"
        have e: "rb_insert_color node (p # g # ps) = rb_insert_color ?n ps" using red InLeft True by (simp add: Let_def)
        have "path_ok (bheight ?n) ps" "rb_invh ?n" "rb_invc ?n" using 3(3-6) red gb InLeft u by (cases p; auto)+
        then obtain t where "rb_insert_color ?n ps = Some t" "rb_ok t" "rb_inorder t = before ps @ rb_inorder ?n @ behind ps"
          using 3(1) [OF _ refl InLeft True] red by auto
        moreover have "before ps @ rb_inorder ?n @ behind ps = before (p # g # ps) @ rb_inorder node @ behind (p # g # ps)"
          using InLeft u by (cases p) auto
        ultimately show ?thesis using e by auto
      next
        case False
        show ?thesis
        proof (cases p)
          case (InRight c l x)
          from 3(6) obtain nl nx nr where n: "node = Node RB_RED nl nx nr" by (rule red_nodeE)
          let ?t = "Node RB_BLACK (Node RB_RED l x nl) nx (Node RB_RED nr gx uncle)"
          have "rb_ok (rb_set_color RB_BLACK (plug ?t ps))"
            using 3(3-6) red gb InLeft InRight False n by (intro plug_set_black) auto
          then show ?thesis using InLeft InRight False n red by (auto simp: inorder_plug)
        next
          case p: (InLeft c x r)
          let ?t = "Node RB_BLACK node x (Node RB_RED r gx uncle)"
          have "rb_ok (rb_set_color RB_BLACK (plug ?t ps))"
            using 3(3-6) red gb InLeft p False by (intro plug_set_black) auto
          then show ?thesis using InLeft p False red by (auto simp: inorder_plug)
        qed
      qed
    next
      case (InRight gc uncle gx)
      show ?thesis
      proof (cases "rb_is_red uncle")
        case True
        from True obtain ul ux ur where u: "uncle = Node RB_RED ul ux ur" by (rule red_nodeE)
        let ?n = "Node RB_RED (rb_set_color RB_BLACK uncle) gx (rb_set_color RB_BLACK (plug1 node p))"
        have e: "rb_insert_color node (p # g # ps) = rb_insert_color ?n ps" using red InRight True by (simp add: Let_def)
        have "path_ok (bheight ?n) ps" "rb_invh ?n" "rb_invc ?n" using 3(3-6) red gb InRight u by (cases p; auto)+
        then obtain t where "rb_insert_color ?n ps = Some t" "rb_ok t" "rb_inorder t = before ps @ rb_inorder ?n @ behind ps"
          using 3(2) [OF _ refl InRight True] red by auto
        moreover have "before ps @ rb_inorder ?n @ behind ps = before (p # g # ps) @ rb_inorder node @ behind (p # g # ps)"
          using InRight u by (cases p) auto
        ultimately show ?thesis using e by auto
      next
        case False
        show ?thesis
        proof (cases p)
          case (InLeft c x r)
          from 3(6) obtain nl nx nr where n: "node = Node RB_RED nl nx nr" by (rule red_nodeE)
          let ?t = "Node RB_BLACK (Node RB_RED uncle gx nl) nx (Node RB_RED nr x r)"
          have "rb_ok (rb_set_color RB_BLACK (plug ?t ps))"
            using 3(3-6) red gb InLeft InRight False n by (intro plug_set_black) auto
          then show ?thesis using InLeft InRight False n red by (auto simp: inorder_plug)
        next
          case p: (InRight c l x)
          let ?t = "Node RB_BLACK (Node RB_RED uncle gx l) x node"
          have "rb_ok (rb_set_color RB_BLACK (plug ?t ps))"
            using 3(3-6) red gb InRight p False by (intro plug_set_black) auto
          then show ?thesis using InRight p False red by (auto simp: inorder_plug)
        qed
      qed
    qed
  qed
qed

section \<open>Deletion\<close>

text \<open>The subtree of a parent whose left child \<open>node\<close> misses one black level: either the whole subtree misses it now,
  with the parent's colour at its root, or the level is back.\<close>

lemma erase_left_ok:
  assumes "rb_invh node" "rb_invc node" "\<not> rb_is_red node" "bheight other = bheight node + 1"
    and "rb_invh other" "rb_invc other" "\<not> rb_is_red other"
  shows "(\<exists>s. erase_left node pc px other = Some (Inl (Node pc node px s)) \<and> rb_invh (Node pc node px s) \<and>
       rb_invc (Node RB_BLACK node px s) \<and> rb_inorder s = rb_inorder other) \<or>
     (\<exists>t. erase_left node pc px other = Some (Inr t) \<and> rb_invh t \<and> rb_invc t \<and> rb_is_red t = (pc = RB_RED) \<and>
       bheight t = bheight (Node pc other px node) \<and> rb_inorder t = rb_inorder node @ px # rb_inorder other)"
proof -
  from assms obtain sl sx sr where o: "other = Node RB_BLACK sl sx sr" by (cases other) auto
  show ?thesis
  proof (cases "rb_is_red sr")
    case True
    then show ?thesis using assms o by (auto simp: erase_left_def elim!: red_nodeE)
  next
    case r: False
    show ?thesis
    proof (cases "rb_is_red sl")
      case True
      then show ?thesis using assms o r by (auto simp: erase_left_def set_black_id elim!: red_nodeE)
    next
      case False
      then show ?thesis using assms o r by (auto simp: erase_left_def)
    qed
  qed
qed

lemma erase_right_ok:
  assumes "rb_invh node" "rb_invc node" "\<not> rb_is_red node" "bheight other = bheight node + 1"
    and "rb_invh other" "rb_invc other" "\<not> rb_is_red other"
  shows "(\<exists>s. erase_right node pc px other = Some (Inl (Node pc s px node)) \<and> rb_invh (Node pc s px node) \<and> bheight s = bheight node \<and>
       rb_invc (Node RB_BLACK s px node) \<and> rb_inorder s = rb_inorder other) \<or>
     (\<exists>t. erase_right node pc px other = Some (Inr t) \<and> rb_invh t \<and> rb_invc t \<and> rb_is_red t = (pc = RB_RED) \<and>
       bheight t = bheight (Node pc other px node) \<and> rb_inorder t = rb_inorder other @ px # rb_inorder node)"
proof -
  from assms obtain sl sx sr where o: "other = Node RB_BLACK sl sx sr" by (cases other) auto
  show ?thesis
  proof (cases "rb_is_red sl")
    case True
    then show ?thesis using assms o by (auto simp: erase_right_def elim!: red_nodeE)
  next
    case l: False
    show ?thesis
    proof (cases "rb_is_red sr")
      case True
      then show ?thesis using assms o l by (auto simp: erase_right_def set_black_id elim!: red_nodeE)
    next
      case False
      then show ?thesis using assms o l by (auto simp: erase_right_def)
    qed
  qed
qed

lemma rb_erase_color_ok:
  assumes "path_ok (bheight node + 1) ps" and "rb_invh node" and "rb_invc (rb_set_color RB_BLACK node)"
  shows "\<exists>t. rb_erase_color node ps = Some t \<and> rb_ok t \<and> rb_inorder t = before ps @ rb_inorder node @ behind ps"
  using assms
proof (induction node ps rule: rb_erase_color.induct)
  case (1 node)
  then show ?case by (auto simp: rb_ok_def)
next
  case (2 node pc px other ps)
  show ?case
  proof (cases "rb_is_red node")
    case True
    have "rb_ok (plug (rb_set_color RB_BLACK node) (InLeft pc px other # ps))"
      using 2(2-4) True by (intro plug_ok) (auto elim!: red_nodeE simp del: plug.simps)
    then show ?thesis using True by (auto simp: inorder_plug)
  next
    case black: False
    then have ic: "rb_invc node" using 2(4) by (simp add: set_black_id)
    show ?thesis
    proof (cases "rb_is_red other")
      case True
      then obtain sl sx sr where o: "other = Node RB_RED sl sx sr" by (rule red_nodeE)
      from erase_left_ok [of node sl RB_RED px] 2(2,3) ic o black
      consider (up) s where "erase_left node RB_RED px sl = Some (Inl (Node RB_RED node px s))" "rb_invh (Node RB_RED node px s)"
          "rb_invc (Node RB_BLACK node px s)" "rb_inorder s = rb_inorder sl"
        | (fin) t where "erase_left node RB_RED px sl = Some (Inr t)" "rb_invh t" "rb_invc t" "rb_is_red t"
          "bheight t = bheight sl" "rb_inorder t = rb_inorder node @ px # rb_inorder sl" by auto
      then show ?thesis
      proof cases
        case up
        have "rb_ok (plug (Node RB_BLACK node px s) (InLeft RB_BLACK sx sr # ps))"
          by (rule plug_ok) (use up 2(2-4) o True in \<open>auto simp del: plug.simps\<close>)
        then show ?thesis using up o black by (auto simp: inorder_plug)
      next
        case fin
        have "rb_ok (rb_set_color RB_BLACK (plug t (InLeft RB_BLACK sx sr # ps)))"
          by (rule plug_set_black) (use fin 2(2-4) o True in \<open>auto simp del: plug.simps\<close>)
        then show ?thesis using fin o black by (auto simp: inorder_plug)
      qed
    next
      case False
      from erase_left_ok [of node other pc px] 2(2,3) ic False black
      consider (up) s where "erase_left node pc px other = Some (Inl (Node pc node px s))" "rb_invh (Node pc node px s)"
          "rb_invc (Node RB_BLACK node px s)" "rb_inorder s = rb_inorder other"
        | (fin) t where "erase_left node pc px other = Some (Inr t)" "rb_invh t" "rb_invc t" "rb_is_red t = (pc = RB_RED)"
          "bheight t = bheight (Node pc other px node)" "rb_inorder t = rb_inorder node @ px # rb_inorder other" by auto
      then show ?thesis
      proof cases
        case up
        let ?n = "Node pc node px s"
        have "path_ok (bheight ?n + 1) ps" using 2(2) up(2) by simp
        moreover have "rb_invc (rb_set_color RB_BLACK ?n)" using up(3) by simp
        ultimately obtain t where "rb_erase_color ?n ps = Some t" "rb_ok t" "rb_inorder t = before ps @ rb_inorder ?n @ behind ps"
          using 2(1) [OF black False up(1) refl] up(2) by blast
        then show ?thesis using up(1,4) black False by auto
      next
        case fin
        have "rb_ok (rb_set_color RB_BLACK (plug t ps))"
          by (rule plug_set_black) (use fin 2(2-4) False in \<open>auto simp del: plug.simps\<close>)
        then show ?thesis using fin False black by (auto simp: inorder_plug)
      qed
    qed
  qed
next
  case (3 node pc other px ps)
  show ?case
  proof (cases "rb_is_red node")
    case True
    have "rb_ok (plug (rb_set_color RB_BLACK node) (InRight pc other px # ps))"
      using 3(2-4) True by (intro plug_ok) (auto elim!: red_nodeE simp del: plug.simps)
    then show ?thesis using True by (auto simp: inorder_plug)
  next
    case black: False
    then have ic: "rb_invc node" using 3(4) by (simp add: set_black_id)
    show ?thesis
    proof (cases "rb_is_red other")
      case True
      then obtain sl sx sr where o: "other = Node RB_RED sl sx sr" by (rule red_nodeE)
      from erase_right_ok [of node sr RB_RED px] 3(2,3) ic o black
      consider (up) s where "erase_right node RB_RED px sr = Some (Inl (Node RB_RED s px node))" "rb_invh (Node RB_RED s px node)"
          "rb_invc (Node RB_BLACK s px node)" "rb_inorder s = rb_inorder sr" "bheight s = bheight node"
        | (fin) t where "erase_right node RB_RED px sr = Some (Inr t)" "rb_invh t" "rb_invc t" "rb_is_red t"
          "bheight t = bheight sr" "rb_inorder t = rb_inorder sr @ px # rb_inorder node" by auto
      then show ?thesis
      proof cases
        case up
        have "rb_ok (plug (Node RB_BLACK s px node) (InRight RB_BLACK sl sx # ps))"
          by (rule plug_ok) (use up 3(2-4) o True in \<open>auto simp del: plug.simps\<close>)
        then show ?thesis using up o black by (auto simp: inorder_plug)
      next
        case fin
        have "rb_ok (rb_set_color RB_BLACK (plug t (InRight RB_BLACK sl sx # ps)))"
          by (rule plug_set_black) (use fin 3(2-4) o True in \<open>auto simp del: plug.simps\<close>)
        then show ?thesis using fin o black by (auto simp: inorder_plug)
      qed
    next
      case False
      from erase_right_ok [of node other pc px] 3(2,3) ic False black
      consider (up) s where "erase_right node pc px other = Some (Inl (Node pc s px node))" "rb_invh (Node pc s px node)"
          "rb_invc (Node RB_BLACK s px node)" "rb_inorder s = rb_inorder other" "bheight s = bheight node"
        | (fin) t where "erase_right node pc px other = Some (Inr t)" "rb_invh t" "rb_invc t" "rb_is_red t = (pc = RB_RED)"
          "bheight t = bheight (Node pc other px node)" "rb_inorder t = rb_inorder other @ px # rb_inorder node" by auto
      then show ?thesis
      proof cases
        case up
        let ?n = "Node pc s px node"
        have "path_ok (bheight ?n + 1) ps" using 3(2) up(2,5) by simp
        moreover have "rb_invc (rb_set_color RB_BLACK ?n)" using up(3) by simp
        ultimately obtain t where "rb_erase_color ?n ps = Some t" "rb_ok t" "rb_inorder t = before ps @ rb_inorder ?n @ behind ps"
          using 3(1) [OF black False up(1) refl] up(2) by blast
        then show ?thesis using up(1,4) black False by auto
      next
        case fin
        have "rb_ok (rb_set_color RB_BLACK (plug t ps))"
          by (rule plug_set_black) (use fin 3(2-4) False in \<open>auto simp del: plug.simps\<close>)
        then show ?thesis using fin False black by (auto simp: inorder_plug)
      qed
    qed
  qed
qed

lemma plug_append: "plug t (ps @ qs) = plug (plug t ps) qs"
  by (induction ps arbitrary: t) simp_all

lemma before_append: "before (ps @ qs) = before qs @ before ps"
proof (induction ps)
  case (Cons p ps)
  then show ?case by (cases p) simp_all
qed simp

lemma behind_append: "behind (ps @ qs) = behind ps @ behind qs"
proof (induction ps)
  case (Cons p ps)
  then show ?case by (cases p) simp_all
qed simp

text \<open>Every node of a red-black tree is a red-black tree in a path that it fits.\<close>

lemma plug_ok_inv:
  assumes "rb_ok (plug t ps)"
  shows "path_ok (bheight t) ps" and "rb_invh t" and "rb_invc t" and "rb_is_red t \<longrightarrow> \<not> red_step ps \<and> ps \<noteq> []"
proof -
  have "path_ok (bheight t) ps \<and> rb_invh t \<and> rb_invc t \<and> (rb_is_red t \<longrightarrow> \<not> red_step ps \<and> ps \<noteq> [])"
    using assms
  proof (induction ps arbitrary: t)
    case Nil
    then show ?case by (simp add: rb_ok_def)
  next
    case (Cons p ps)
    from Cons.IH [of "plug1 t p"] Cons.prems show ?case by (cases p) auto
  qed
  then show "path_ok (bheight t) ps" "rb_invh t" "rb_invc t" "rb_is_red t \<longrightarrow> \<not> red_step ps \<and> ps \<noteq> []" by blast+
qed

lemma path_ok_value: "path_ok h (ps @ InRight c l x # qs) = path_ok h (ps @ InRight c l y # qs)"
proof (induction ps arbitrary: h)
  case (Cons p ps)
  have e: "red_step (ps @ InRight c l x # qs) = red_step (ps @ InRight c l y # qs)" by (cases ps) simp_all
  show ?case using Cons by (cases p) (simp_all add: e)
qed simp

lemma leftmost_ok:
  "t \<noteq> Null \<Longrightarrow> \<exists>c y child ps. leftmost t qs = Some (c, y, child, ps @ qs) \<and> plug (Node c Null y child) ps = t \<and> before ps = []"
proof (induction t qs rule: leftmost.induct)
  case (3 c c' l' x' r' x r qs)
  then obtain c1 y child ps where "leftmost (Node c' l' x' r') (InLeft c x r # qs) = Some (c1, y, child, ps @ InLeft c x r # qs)"
      "plug (Node c1 Null y child) ps = Node c' l' x' r'" "before ps = []" by blast
  then show ?case by (intro exI [of _ c1] exI [of _ y] exI [of _ child] exI [of _ "ps @ [InLeft c x r]"])
      (simp add: plug_append before_append)
next
  case (2 c x r qs)
  then show ?case by (intro exI [of _ c] exI [of _ x] exI [of _ r] exI [of _ "[]"]) simp
qed simp_all

lemma rb_erase_ok:
  assumes "rb_ok (plug (Node c l x r) path)"
  shows "\<exists>t. rb_erase (Node c l x r) path = Some t \<and> rb_ok t \<and> rb_inorder t = before path @ rb_inorder l @ rb_inorder r @ behind path"
proof (cases "l = Null \<or> r = Null")
  case True
  define child where "child = (if l = Null then r else l)"
  note p = plug_ok_inv [OF assms]
  have io: "rb_inorder child = rb_inorder l @ rb_inorder r" using True by (auto simp: child_def)
  have ch: "bheight child = bheight l" "rb_invh child" "rb_invc child" using p True by (auto simp: child_def)
  show ?thesis
  proof (cases c)
    case RB_BLACK
    then have "path_ok (bheight child + 1) path" using p(1) ch(1) by simp
    from rb_erase_color_ok [OF this ch(2) invc_black [OF ch(3)]] show ?thesis
      using True RB_BLACK io by (auto simp: rb_erase_def child_def [symmetric] Let_def)
  next
    case RB_RED
    then have "\<not> rb_is_red child" "path_ok (bheight child) path" using p True ch(1) by (auto simp: child_def)
    then have "rb_ok (plug child path)" using plug_ok ch by blast
    then show ?thesis using True RB_RED io by (auto simp: rb_erase_def child_def [symmetric] Let_def inorder_plug)
  qed
next
  case False
  then obtain c' y child ps where lm: "leftmost r [] = Some (c', y, child, ps)" "plug (Node c' Null y child) ps = r" "before ps = []"
    using leftmost_ok [of r "[]"] by auto
  define path' where "path' = ps @ InRight c l y # path"
  have "rb_ok (plug (Node c' Null y child) (ps @ InRight c l x # path))" using assms lm(2) by (simp add: plug_append)
  note p = plug_ok_inv [OF this]
  have po: "path_ok (bheight (Node c' Null y child)) path'" using p(1) path_ok_value [of _ ps c l x path y] unfolding path'_def by blast
  have ne: "path' \<noteq> []" by (simp add: path'_def)
  have ch: "bheight child = 0" "rb_invh child" "rb_invc child" "c' = RB_RED \<longrightarrow> \<not> rb_is_red child" using p(2,3) by auto
  have io: "before path' @ rb_inorder child @ behind path' = before path @ rb_inorder l @ rb_inorder r @ behind path"
    using lm(2,3) inorder_plug [of "Node c' Null y child" ps] by (auto simp: path'_def before_append behind_append)
  have e: "rb_erase (Node c l x r) path = (if c' = RB_BLACK then rb_erase_color child path' else Some (plug child path'))"
    using False lm(1) by (simp add: rb_erase_def path'_def)
  show ?thesis
  proof (cases c')
    case RB_BLACK
    then have "path_ok (bheight child + 1) path'" using po ch(1) by simp
    from rb_erase_color_ok [OF this ch(2) invc_black [OF ch(3)]] show ?thesis using e RB_BLACK io by auto
  next
    case RB_RED
    then have "rb_ok (plug child path')" using plug_ok [of child path'] po ch by simp
    then show ?thesis using e RB_RED io by (simp add: inorder_plug)
  qed
qed

text \<open>Successors and predecessors.\<close>

lemma rb_first_inorder: "rb_first t = (case rb_inorder t of [] \<Rightarrow> None | y # ys \<Rightarrow> Some y)"
  by (induction t rule: rb_first.induct) (auto simp: append_eq_Cons_conv Cons_eq_append_conv split: list.splits)

lemma rb_last_inorder: "rb_last t = (if rb_inorder t = [] then None else Some (last (rb_inorder t)))"
  by (induction t rule: rb_last.induct) auto

lemma up_right_behind: "up_right ps = (case behind ps of [] \<Rightarrow> None | y # ys \<Rightarrow> Some y)"
  by (induction ps rule: up_right.induct) auto

lemma up_left_before: "up_left ps = (if before ps = [] then None else Some (last (before ps)))"
  by (induction ps rule: up_left.induct) auto

section \<open>Depth\<close>

fun rb_height :: "'a rb \<Rightarrow> nat" where
  "rb_height Null = 0"
| "rb_height (Node c l x r) = Suc (max (rb_height l) (rb_height r))"

lemma rb_height_bheight: "rb_invh t \<Longrightarrow> rb_invc t \<Longrightarrow> rb_height t \<le> 2 * bheight t + (if rb_is_red t then 1 else 0)"
  by (induction t) (auto split: if_splits)

lemma bheight_size: "rb_invh t \<Longrightarrow> 2 ^ bheight t \<le> length (rb_inorder t) + 1"
proof (induction t)
  case (Node c l x r)
  then show ?case by (cases c) auto
qed simp

lemma rb_height_log: "rb_ok t \<Longrightarrow> 2 ^ (rb_height t div 2) \<le> length (rb_inorder t) + 1"
proof -
  assume "rb_ok t"
  then have "rb_height t div 2 \<le> bheight t" using rb_height_bheight [of t] by (auto simp: rb_ok_def)
  then have "(2::nat) ^ (rb_height t div 2) \<le> 2 ^ bheight t" by (rule power_increasing) simp
  also have "\<dots> \<le> length (rb_inorder t) + 1" using bheight_size [of t] \<open>rb_ok t\<close> by (simp add: rb_ok_def)
  finally show ?thesis .
qed

section \<open>Correctness\<close>

text \<open>C31. Red-black trees. Linking a new node at any empty link and rebalancing, and erasing any node, follow no null
  pointer, keep the red-black invariant (equal black heights, no red node with a red child, black root) and change
  the sequence of elements by exactly this element, at its place. \<^verbatim>\<open>rb_next\<close> and \<^verbatim>\<open>rb_prev\<close> are the neighbours in this
  sequence, and the depth is at most twice the logarithm of the size, rounded up.\<close>

theorem rbtree_correct:
  fixes t :: "'a rb"
  shows "(rb_ok (plug (Null :: 'a rb) link) \<longrightarrow>
       (\<exists>t. rb_insert_at x link = Some t \<and> rb_ok t \<and> rb_inorder t = before link @ x # behind link)) \<and>
     (rb_ok (plug (Node c l y r) path) \<longrightarrow>
       (\<exists>t. rb_erase (Node c l y r) path = Some t \<and> rb_ok t \<and> rb_inorder t = before path @ rb_inorder l @ rb_inorder r @ behind path)) \<and>
     rb_inorder (plug t path) = before path @ rb_inorder t @ behind path \<and>
     rb_next (Node c l y r) path = (case rb_inorder r @ behind path of [] \<Rightarrow> None | z # _ \<Rightarrow> Some z) \<and>
     rb_prev (Node c l y r) path = (if before path @ rb_inorder l = [] then None else Some (last (before path @ rb_inorder l))) \<and>
     (rb_ok t \<longrightarrow> 2 ^ (rb_height t div 2) \<le> length (rb_inorder t) + 1)"
proof (intro conjI impI)
  assume "rb_ok (plug (Null :: 'a rb) link)"
  then have "path_ok (bheight (Node RB_RED Null x Null)) link" using plug_ok_inv(1) [of Null link] by simp
  from rb_insert_color_ok [OF this] show "\<exists>t. rb_insert_at x link = Some t \<and> rb_ok t \<and> rb_inorder t = before link @ x # behind link"
    by (simp add: rb_insert_at_def)
next
  have "r = Null" if "rb_inorder r = []" using that by (cases r) auto
  then show "rb_next (Node c l y r) path = (case rb_inorder r @ behind path of [] \<Rightarrow> None | z # _ \<Rightarrow> Some z)"
    by (cases "rb_inorder r") (auto simp: rb_first_inorder up_right_behind)
  have "l = Null" if "rb_inorder l = []" using that by (cases l) auto
  then show "rb_prev (Node c l y r) path = (if before path @ rb_inorder l = [] then None else Some (last (before path @ rb_inorder l)))"
    by (cases "rb_inorder l") (auto simp: rb_last_inorder up_left_before)
next
  show "2 ^ (rb_height t div 2) \<le> length (rb_inorder t) + 1" if "rb_ok t" using rb_height_log [OF that] .
  show "rb_inorder (plug t path) = before path @ rb_inorder t @ behind path" by (rule inorder_plug)
  show "\<exists>t. rb_erase (Node c l y r) path = Some t \<and> rb_ok t \<and> rb_inorder t = before path @ rb_inorder l @ rb_inorder r @ behind path"
    if "rb_ok (plug (Node c l y r) path)" using rb_erase_ok [OF that] .
qed

text \<open>Five keys in ascending order, then the root is erased.\<close>

fun rb_path_max :: "'a rb \<Rightarrow> 'a rb_path \<Rightarrow> 'a rb_path" where
  "rb_path_max Null ps = ps"
| "rb_path_max (Node c l x r) ps = rb_path_max r (InRight c l x # ps)"

definition wit_rb :: "nat rb" where
  "wit_rb = Node RB_BLACK (Node RB_BLACK Null 1 Null) 2 (Node RB_BLACK (Node RB_RED Null 3 Null) 4 (Node RB_RED Null 5 Null))"

theorem rbtree_correct_witness:
  "(\<exists>t. rb_insert_at 6 (rb_path_max wit_rb []) = Some t \<and> rb_ok t \<and> rb_inorder t = [1, 2, 3, 4, 5, 6]) \<and>
   (\<exists>t. rb_erase wit_rb [] = Some t \<and> rb_ok t \<and> rb_inorder t = [1, 3, 4, 5])"
proof -
  have ok: "rb_ok wit_rb" by (simp add: rb_ok_def wit_rb_def)
  have p: "plug Null (rb_path_max wit_rb []) = wit_rb" by code_simp
  have w: "wit_rb = Node RB_BLACK (Node RB_BLACK Null 1 Null) 2 (Node RB_BLACK (Node RB_RED Null 3 Null) 4 (Node RB_RED Null 5 Null))"
    by (fact wit_rb_def)
  have o: "before (rb_path_max wit_rb []) @ 6 # behind (rb_path_max wit_rb []) = [1, 2, 3, 4, 5, 6]" by code_simp
  note C = rbtree_correct [of "rb_path_max wit_rb []" 6 RB_BLACK "Node RB_BLACK Null 1 Null" 2
      "Node RB_BLACK (Node RB_RED Null 3 Null) 4 (Node RB_RED Null 5 Null)" "[]" Null]
  have "\<exists>t. rb_insert_at 6 (rb_path_max wit_rb []) = Some t \<and> rb_ok t \<and> rb_inorder t = [1, 2, 3, 4, 5, 6]"
    using C ok p unfolding o by metis
  moreover have "\<exists>t. rb_erase wit_rb [] = Some t \<and> rb_ok t \<and> rb_inorder t = [1, 3, 4, 5]"
    using C ok unfolding w [symmetric] by simp
  ultimately show ?thesis ..
qed

text \<open>The node that holds an element, for trees in which every element occurs once.\<close>

fun rb_locate :: "'a \<Rightarrow> 'a rb \<Rightarrow> 'a rb_path \<Rightarrow> ('a rb \<times> 'a rb_path) option" where
  "rb_locate x Null ps = None"
| "rb_locate x (Node c l y r) ps =
     (if x = y then Some (Node c l y r, ps)
      else case rb_locate x l (InLeft c y r # ps) of
             Some z \<Rightarrow> Some z
           | None \<Rightarrow> rb_locate x r (InRight c l y # ps))"

lemma rb_locate_ok:
  "rb_locate x t ps = Some (u, qs) \<Longrightarrow> plug u qs = plug t ps \<and> (\<exists>c l r. u = Node c l x r)"
  by (induction x t ps rule: rb_locate.induct) (auto split: if_splits option.splits)

lemma rb_locate_None: "rb_locate x t ps = None \<longleftrightarrow> x \<notin> set (rb_inorder t)"
  by (induction x t ps rule: rb_locate.induct) (auto split: option.splits)

lemma rb_erase_located:
  assumes "rb_ok t" and "distinct (rb_inorder t)" and "x \<in> set (rb_inorder t)"
  shows "\<exists>u path t'. rb_locate x t [] = Some (u, path) \<and> rb_erase u path = Some t' \<and> rb_ok t' \<and> rb_inorder t' = remove1 x (rb_inorder t)"
proof -
  obtain u path where l: "rb_locate x t [] = Some (u, path)" using rb_locate_None [of x t "[]"] assms(3) by fastforce
  from rb_locate_ok [OF l] obtain c a b where u: "u = Node c a x b" "plug u path = t" by auto
  have i: "rb_inorder t = before path @ rb_inorder a @ x # rb_inorder b @ behind path" using inorder_plug [of u path] u by simp
  then have "remove1 x (rb_inorder t) = before path @ rb_inorder a @ rb_inorder b @ behind path"
    using assms(2) by (simp add: remove1_append)
  then show ?thesis using rb_erase_ok [of c a x b path] u l assms(1) by auto
qed

end
