(* ===== verification/Pmm.thy ===== *)
theory Pmm
  imports Bits
begin

text \<open>
  The page tables of an address space (\<^verbatim>\<open>kernel/arch/tsar/pmm.c\<close>, \<^verbatim>\<open>arch-pmm.h\<close>): a directory of 2048 entries, each empty, a
  huge page, or a reference to a table of 512 pairs of attributes and page number. Tables are pages from
  \<^verbatim>\<open>kmem_alloc\<close>, an argument: \<open>alloc\<close> is the page number it would return. \<open>env\<close> is what other processors do to the
  tables between the load of an empty directory entry and the compare-and-swap that fills it. \<open>None\<close> as a
  result stands for an access outside the tables.
\<close>

type_synonym ppn_t = uint_t

abbreviation PMM_READ :: uint_t where "PMM_READ \<equiv> 0x80000000"
abbreviation PMM_PRESENT :: uint_t where "PMM_PRESENT \<equiv> 0x80000000"
abbreviation PMM_HUGE :: uint_t where "PMM_HUGE \<equiv> 0x40000000"
abbreviation MMU_PTD1 :: uint_t where "MMU_PTD1 \<equiv> 0x40000000"
abbreviation PMM_ACCESSED :: uint_t where "PMM_ACCESSED \<equiv> 0x30000000"
abbreviation PMM_CACHED :: uint_t where "PMM_CACHED \<equiv> 0x08000000"
abbreviation PMM_WRITE :: uint_t where "PMM_WRITE \<equiv> 0x04000000"
abbreviation PMM_EXECUTE :: uint_t where "PMM_EXECUTE \<equiv> 0x02000000"
abbreviation PMM_USER :: uint_t where "PMM_USER \<equiv> 0x01000000"
abbreviation PMM_DIRTY :: uint_t where "PMM_DIRTY \<equiv> 0x00400000"
abbreviation PMM_COW :: uint_t where "PMM_COW \<equiv> 0x01"
abbreviation PMM_MIGRATE :: uint_t where "PMM_MIGRATE \<equiv> 0x02"
abbreviation PMM_LOCKED :: uint_t where "PMM_LOCKED \<equiv> 0x08"
abbreviation PMM_CLEAR :: uint_t where "PMM_CLEAR \<equiv> 0x10"
abbreviation MMU_PPN_MASK :: uint_t where "MMU_PPN_MASK \<equiv> 0x0FFFFFFF"
abbreviation MMU_PDE_PPN_MASK :: uint_t where "MMU_PDE_PPN_MASK \<equiv> 0x0007FFFF"
abbreviation MMU_PDE_ATTR_MASK :: uint_t where "MMU_PDE_ATTR_MASK \<equiv> 0xFFC00000"
abbreviation PMM_HUGE_PAGE_MASK :: uint_t where "PMM_HUGE_PAGE_MASK \<equiv> 0x001FFFFF"

definition MMU_PDE :: "uint_t \<Rightarrow> nat" where
  "MMU_PDE vma = unat (drop_bit 21 vma)"

text \<open>The index of the pair in a table; the source has the offset in bytes.\<close>

definition MMU_PTE :: "uint_t \<Rightarrow> nat" where
  "MMU_PTE vma = unat (drop_bit 12 (vma AND 0x001FF000))"

record pmm_s =
  pgdir :: "uint_t list"
  pmm_flags :: uint_t
  pgdir_ppn :: ppn_t
  pte_pages :: "ppn_t \<Rightarrow> (uint_t \<times> uint_t) list"

record pmm_page_info_s =
  pi_attr :: uint_t
  pi_ppn :: ppn_t
  pi_isAtomic :: bool

abbreviation PMM_INIT :: uint_t where "PMM_INIT \<equiv> 0x001"

definition pmm_bootstrap_init :: "uint_t list \<Rightarrow> pmm_s \<Rightarrow> error_t \<times> pmm_s" where
  "pmm_bootstrap_init arg init = (0, init\<lparr>pgdir := arg, pmm_flags := PMM_INIT\<rparr>)"

text \<open>The directory takes four pages from \<^verbatim>\<open>pmm_alloc_pages\<close>, which are zeroed; the upper half of a directory, from the byte
  \<^verbatim>\<open>0x1000\<close> on, is the part of the kernel, shared by all address spaces.\<close>

definition pmm_init :: "ppn_t option \<Rightarrow> pmm_s \<Rightarrow> error_t \<times> pmm_s" where
  "pmm_init alloc pmm =
     (case alloc of
        None \<Rightarrow> (ENOMEM, pmm)
      | Some ppn \<Rightarrow>
          (0, pmm\<lparr>pgdir := replicate 1024 0 @ (if pmm_flags pmm AND PMM_INIT \<noteq> 0 then drop 1024 (pgdir pmm) else replicate 1024 0),
                  pmm_flags := 0, pgdir_ppn := ppn\<rparr>))"

definition pmm_dup :: "pmm_s \<Rightarrow> pmm_s \<Rightarrow> error_t \<times> pmm_s" where
  "pmm_dup dst src = (0, dst\<lparr>pgdir := take 1024 (pgdir dst) @ drop 1024 (pgdir src)\<rparr>)"

text \<open>The directory entries below \<^verbatim>\<open>CONFIG_KERNEL_OFFSET\<close>; the second component is the pages given to \<^verbatim>\<open>kmem_free\<close>, in order.\<close>

abbreviation user_entries_nr :: nat where "user_entries_nr \<equiv> 1024"

fun pmm_release_loop :: "nat \<Rightarrow> nat \<Rightarrow> uint_t list \<Rightarrow> uint_t list \<times> ppn_t list" where
  "pmm_release_loop 0 i dir = (dir, [])"
| "pmm_release_loop (Suc n) i dir =
     (let val = dir ! i
      in if val \<noteq> 0 \<and> val AND PMM_PRESENT \<noteq> 0
         then let ppn = (if val AND PMM_HUGE \<noteq> 0 then val AND MMU_PPN_MASK else push_bit 9 (val AND MMU_PDE_PPN_MASK));
                  (dir, freed) = pmm_release_loop n (i + 1) (dir[i := 0])
              in (dir, ppn # freed)
         else pmm_release_loop n (i + 1) dir)"

definition pmm_release :: "pmm_s \<Rightarrow> error_t \<times> pmm_s \<times> ppn_t list" where
  "pmm_release pmm = (let (dir, freed) = pmm_release_loop user_entries_nr 0 (pgdir pmm) in (0, pmm\<lparr>pgdir := dir\<rparr>, freed))"

text \<open>The part \<^verbatim>\<open>pmm_set_page\<close> and \<^verbatim>\<open>pmm_lock_page\<close> share: find the table of an address or make one. The second
  component tells whether the page of \<open>alloc\<close> was kept.\<close>

definition pmm_pte_table ::
  "(pmm_s \<Rightarrow> pmm_s) \<Rightarrow> ppn_t option \<Rightarrow> uint_t \<Rightarrow> pmm_s \<Rightarrow> error_t \<times> bool \<times> ppn_t \<times> pmm_s" where
  "pmm_pte_table env alloc vaddr pmm =
     (let pde_val = pgdir pmm ! MMU_PDE vaddr
      in if pde_val = 0
         then (case alloc of
                 None \<Rightarrow> (ENOMEM, False, 0, pmm)
               | Some p \<Rightarrow>
                   let pmm = env (pmm\<lparr>pte_pages := (pte_pages pmm)(p := replicate 512 (0, 0))\<rparr>)
                   in if pgdir pmm ! MMU_PDE vaddr = 0
                      then (0, True, p, pmm\<lparr>pgdir := (pgdir pmm)[MMU_PDE vaddr := PMM_PRESENT OR MMU_PTD1 OR p]\<rparr>)
                      else (0, False, pgdir pmm ! MMU_PDE vaddr AND MMU_PPN_MASK, pmm))
         else (0, False, pde_val AND MMU_PPN_MASK, pmm))"

definition write_pte :: "ppn_t \<Rightarrow> uint_t \<Rightarrow> uint_t \<times> uint_t \<Rightarrow> pmm_s \<Rightarrow> pmm_s option" where
  "write_pte p vaddr v pmm =
     (if MMU_PTE vaddr < length (pte_pages pmm p)
      then Some (pmm\<lparr>pte_pages := (pte_pages pmm)(p := (pte_pages pmm p)[MMU_PTE vaddr := v])\<rparr>) else None)"

definition pmm_set_page ::
  "(pmm_s \<Rightarrow> pmm_s) \<Rightarrow> ppn_t option \<Rightarrow> uint_t \<Rightarrow> pmm_page_info_s \<Rightarrow> pmm_s \<Rightarrow> (error_t \<times> bool \<times> pmm_s) option" where
  "pmm_set_page env alloc vaddr info pmm =
     (if MMU_PDE vaddr \<ge> length (pgdir pmm) then None
      else
        let isHuge = (pi_attr info AND PMM_HUGE \<noteq> 0);
            (attr, ppn) = (if pi_attr info AND PMM_CLEAR \<noteq> 0 then (if isHuge then PMM_HUGE else 0, 0) else (pi_attr info, pi_ppn info));
            pde_val = pgdir pmm ! MMU_PDE vaddr
        in if isHuge
           then if ppn \<noteq> 0 \<and> (pde_val \<noteq> 0 \<or> attr AND PMM_COW \<noteq> 0) then Some (EINVAL, False, pmm)
                else Some (0, False, pmm\<lparr>pgdir := (pgdir pmm)[MMU_PDE vaddr := (attr XOR PMM_HUGE) OR drop_bit 9 ppn]\<rparr>)
           else (case pmm_pte_table env alloc vaddr pmm of
                   (err, used, p, pmm) \<Rightarrow>
                     if err \<noteq> 0 then Some (err, used, pmm)
                     else map_option (\<lambda>pmm. (0, used, pmm)) (write_pte p vaddr (attr, ppn) pmm)))"

definition pmm_get_page :: "pmm_s \<Rightarrow> uint_t \<Rightarrow> (error_t \<times> pmm_page_info_s) option" where
  "pmm_get_page pmm vaddr =
     (if MMU_PDE vaddr \<ge> length (pgdir pmm) then None
      else
        let val = pgdir pmm ! MMU_PDE vaddr
        in if val AND PMM_PRESENT = 0 then Some (0, \<lparr>pi_attr = 0, pi_ppn = 0, pi_isAtomic = False\<rparr>)
           else if val AND PMM_HUGE = 0
           then Some (0, \<lparr>pi_attr = (val AND MMU_PDE_ATTR_MASK) OR PMM_HUGE,
                  pi_ppn = drop_bit 12 (push_bit 21 (val AND MMU_PDE_PPN_MASK) OR (vaddr AND PMM_HUGE_PAGE_MASK)), pi_isAtomic = False\<rparr>)
           else let t = pte_pages pmm (val AND MMU_PPN_MASK)
                in if MMU_PTE vaddr < length t
                   then Some (0, \<lparr>pi_attr = fst (t ! MMU_PTE vaddr), pi_ppn = snd (t ! MMU_PTE vaddr) AND MMU_PPN_MASK, pi_isAtomic = False\<rparr>)
                   else None)"

text \<open>\<^verbatim>\<open>pmm_lock_page\<close> claims an empty pair with the flag \<^verbatim>\<open>PMM_LOCKED\<close>, so that one of the threads that fault on a page
  fills it; \<open>isAtomic\<close> tells whether the caller is this one.\<close>

definition pmm_lock_page ::
  "(pmm_s \<Rightarrow> pmm_s) \<Rightarrow> ppn_t option \<Rightarrow> uint_t \<Rightarrow> pmm_s \<Rightarrow> (error_t \<times> bool \<times> pmm_page_info_s \<times> pmm_s) option" where
  "pmm_lock_page env alloc vaddr pmm =
     (if MMU_PDE vaddr \<ge> length (pgdir pmm) then None
      else
        let pde_val = pgdir pmm ! MMU_PDE vaddr; none = \<lparr>pi_attr = 0, pi_ppn = 0, pi_isAtomic = False\<rparr>
        in if pde_val \<noteq> 0 \<and> pde_val AND PMM_HUGE = 0 then Some (EINVAL, False, none, pmm)
           else (case pmm_pte_table env alloc vaddr pmm of
                   (err, used, p, pmm) \<Rightarrow>
                     if err \<noteq> 0 then Some (err, used, none, pmm)
                     else if MMU_PTE vaddr \<ge> length (pte_pages pmm p) then None
                     else
                       let (attr, ppn) = pte_pages pmm p ! MMU_PTE vaddr
                       in if attr = 0
                          then map_option (\<lambda>pmm. (0, used, \<lparr>pi_attr = PMM_LOCKED, pi_ppn = ppn AND MMU_PPN_MASK, pi_isAtomic = True\<rparr>, pmm))
                                 (write_pte p vaddr (PMM_LOCKED, ppn) pmm)
                          else Some (0, used, \<lparr>pi_attr = attr, pi_ppn = ppn AND MMU_PPN_MASK, pi_isAtomic = False\<rparr>, pmm)))"

definition pmm_unlock_page :: "uint_t \<Rightarrow> pmm_s \<Rightarrow> (pmm_page_info_s \<times> pmm_s) option" where
  "pmm_unlock_page vaddr pmm =
     (let p = pgdir pmm ! MMU_PDE vaddr AND MMU_PPN_MASK; t = pte_pages pmm p
      in if MMU_PDE vaddr \<ge> length (pgdir pmm) \<or> MMU_PTE vaddr \<ge> length t then None
         else let (attr, ppn) = t ! MMU_PTE vaddr
              in if attr AND PMM_LOCKED \<noteq> 0
                 then map_option (\<lambda>pmm. (\<lparr>pi_attr = attr AND NOT PMM_LOCKED, pi_ppn = ppn, pi_isAtomic = True\<rparr>, pmm))
                        (write_pte p vaddr (attr AND NOT PMM_LOCKED, ppn) pmm)
                 else Some (\<lparr>pi_attr = attr, pi_ppn = ppn, pi_isAtomic = False\<rparr>, pmm))"

text \<open>The operations on a region. \<^verbatim>\<open>pmm_region_dup\<close> copies the directory from the entry of the address to its end, so that
  both address spaces share the tables.\<close>

definition pmm_region_dup :: "pmm_s \<Rightarrow> pmm_s \<Rightarrow> uint_t \<Rightarrow> error_t \<times> pmm_s" where
  "pmm_region_dup dst src vaddr = (0, dst\<lparr>pgdir := take (MMU_PDE vaddr) (pgdir dst) @ drop (MMU_PDE vaddr) (pgdir src)\<rparr>)"

definition pmm_region_unmap :: "pmm_s \<Rightarrow> uint_t \<Rightarrow> nat \<Rightarrow> error_t \<times> pmm_s" where
  "pmm_region_unmap pmm vaddr pages_nr = (0, pmm)"

definition pmm_page_size :: "uint_t \<Rightarrow> uint_t" where
  "pmm_page_size attr = (if attr AND PMM_HUGE \<noteq> 0 then 0x200000 else 0x1000)"

text \<open>\<open>mem k\<close> is what \<^verbatim>\<open>kmem_alloc\<close> returns in round \<open>k\<close>, for the page and for a table.\<close>

fun region_map_loop ::
  "(nat \<Rightarrow> ppn_t option \<times> ppn_t option) \<Rightarrow> nat \<Rightarrow> nat \<Rightarrow> uint_t \<Rightarrow> uint_t \<Rightarrow> pmm_s \<Rightarrow> (error_t \<times> pmm_s) option" where
  "region_map_loop mem k 0 attr vaddr pmm = Some (0, pmm)"
| "region_map_loop mem k (Suc count) attr vaddr pmm =
     (case fst (mem k) of
        None \<Rightarrow> Some (ENOMEM, snd (pmm_region_unmap pmm vaddr (k + Suc count)))
      | Some ppn \<Rightarrow>
          (case pmm_set_page (\<lambda>pmm. pmm) (snd (mem k)) vaddr \<lparr>pi_attr = attr, pi_ppn = ppn, pi_isAtomic = False\<rparr> pmm of
             None \<Rightarrow> None
           | Some (err, used, pmm) \<Rightarrow>
               if err \<noteq> 0 then Some (err, pmm)
               else region_map_loop mem (k + 1) count attr (vaddr + pmm_page_size attr) pmm))"

definition pmm_region_map ::
  "(nat \<Rightarrow> ppn_t option \<times> ppn_t option) \<Rightarrow> uint_t \<Rightarrow> nat \<Rightarrow> pmm_page_info_s \<Rightarrow> pmm_s \<Rightarrow> (error_t \<times> pmm_s) option" where
  "pmm_region_map mem vaddr pages_nr info pmm =
     (if pi_ppn info = 0 then Some (0, pmm) else region_map_loop mem 0 pages_nr (pi_attr info) vaddr pmm)"

fun pmm_region_attr_set :: "ppn_t option \<Rightarrow> uint_t \<Rightarrow> nat \<Rightarrow> uint_t \<Rightarrow> pmm_s \<Rightarrow> (error_t \<times> pmm_s) option" where
  "pmm_region_attr_set alloc vaddr 0 attr pmm = Some (0, pmm)"
| "pmm_region_attr_set alloc vaddr (Suc count) attr pmm =
     (case pmm_get_page pmm vaddr of
        None \<Rightarrow> None
      | Some (err, info) \<Rightarrow>
          if err \<noteq> 0 then Some (err, pmm)
          else if pi_ppn info \<noteq> 0 \<and> pi_attr info AND PMM_PRESENT \<noteq> 0
          then (case pmm_set_page (\<lambda>pmm. pmm) alloc vaddr (info\<lparr>pi_attr := attr\<rparr>) pmm of
                  None \<Rightarrow> None
                | Some (_, _, pmm) \<Rightarrow> pmm_region_attr_set alloc (vaddr + pmm_page_size attr) count attr pmm)
          else pmm_region_attr_set alloc (vaddr + pmm_page_size attr) count attr pmm)"

section \<open>The map that the tables stand for\<close>

definition is_table :: "uint_t \<Rightarrow> bool" where
  "is_table val \<longleftrightarrow> val AND PMM_PRESENT \<noteq> 0 \<and> val AND PMM_HUGE \<noteq> 0"

definition pmm_ok :: "pmm_s \<Rightarrow> bool" where
  "pmm_ok pmm \<longleftrightarrow> length (pgdir pmm) = 2048 \<and>
     (\<forall>i<2048. is_table (pgdir pmm ! i) \<longrightarrow> length (pte_pages pmm (pgdir pmm ! i AND MMU_PPN_MASK)) = 512) \<and>
     (\<forall>i<2048. \<forall>j<2048. i \<noteq> j \<and> is_table (pgdir pmm ! i) \<and> is_table (pgdir pmm ! j) \<longrightarrow>
        pgdir pmm ! i AND MMU_PPN_MASK \<noteq> pgdir pmm ! j AND MMU_PPN_MASK)"

text \<open>User space, below \<^verbatim>\<open>CONFIG_KERNEL_OFFSET\<close>, has small pages only: each of its directory entries is empty or a table.\<close>

definition pmm_small :: "pmm_s \<Rightarrow> bool" where
  "pmm_small pmm \<longleftrightarrow> pmm_ok pmm \<and> (\<forall>i<1024. pgdir pmm ! i = 0 \<or> is_table (pgdir pmm ! i))"

definition user_addr :: "uint_t \<Rightarrow> bool" where
  "user_addr vaddr \<longleftrightarrow> unat vaddr < 0x80000000"

definition pmm_tables :: "pmm_s \<Rightarrow> ppn_t set" where
  "pmm_tables pmm = {pgdir pmm ! i AND MMU_PPN_MASK | i. i < 2048 \<and> is_table (pgdir pmm ! i)}"

text \<open>The entry of a virtual page.\<close>

definition pte_at :: "pmm_s \<Rightarrow> uint_t \<Rightarrow> uint_t \<times> ppn_t" where
  "pte_at pmm vaddr = (let val = pgdir pmm ! MMU_PDE vaddr
     in if is_table val then pte_pages pmm (val AND MMU_PPN_MASK) ! MMU_PTE vaddr
        else if val AND PMM_PRESENT \<noteq> 0
        then ((val AND MMU_PDE_ATTR_MASK) OR PMM_HUGE, drop_bit 12 (push_bit 21 (val AND MMU_PDE_PPN_MASK) OR (vaddr AND PMM_HUGE_PAGE_MASK)))
        else (0, 0))"

abbreviation vpn :: "uint_t \<Rightarrow> uint_t" where
  "vpn vaddr \<equiv> drop_bit 12 vaddr"

lemma unat_drop: "unat (drop_bit k (w::uint_t)) = unat w div 2 ^ k"
  unfolding unat_drop_bit_eq by (simp add: drop_bit_eq_div)

lemma MMU_PDE_lt [simp]: "MMU_PDE v < 2048"
  using unat_lt_32 [of v] by (simp add: MMU_PDE_def unat_drop less_mult_imp_div_less)

lemma MMU_PDE_not_le [simp]: "\<not> 2048 \<le> MMU_PDE v"
  using MMU_PDE_lt [of v] by linarith

lemma MMU_PTE_eq: "MMU_PTE v = unat v div 2 ^ 12 mod 512"
proof -
  have c: "drop_bit 12 (0x001FF000 :: uint_t) = 511" by simp
  have e: "(mask 9 :: uint_t) = 511" by (simp add: mask_eq_exp_minus_1)
  have m: "drop_bit 12 (v AND 0x001FF000) = drop_bit 12 v AND mask 9" unfolding drop_bit_and c e ..
  show ?thesis unfolding MMU_PTE_def m unat_and_mask unat_drop by simp
qed

lemma MMU_PTE_lt [simp]: "MMU_PTE v < 512"
  by (simp add: MMU_PTE_eq)

lemma MMU_PTE_not_le [simp]: "\<not> 512 \<le> MMU_PTE v"
  using MMU_PTE_lt [of v] by linarith

lemma same_page: "vpn v = vpn w \<longleftrightarrow> MMU_PDE v = MMU_PDE w \<and> MMU_PTE v = MMU_PTE w"
proof -
  have d: "unat x div 2 ^ 12 = MMU_PDE x * 512 + MMU_PTE x" for x
    unfolding MMU_PTE_eq MMU_PDE_def unat_drop by (simp add: div_mult2_eq [of "unat x" 4096 512, simplified])
  have "vpn v = vpn w \<longleftrightarrow> unat v div 2 ^ 12 = unat w div 2 ^ 12" by (simp add: word_unat_eq_iff unat_drop)
  moreover have "a * 512 + b = c * 512 + d \<longleftrightarrow> a = c \<and> b = d" if "b < 512" "d < 512" for a b c d :: nat
  proof -
    have "(a * 512 + b) div 512 = a" "(c * 512 + d) div 512 = c" using that by simp_all
    then have "a * 512 + b = c * 512 + d \<Longrightarrow> a = c" by metis
    then show ?thesis by auto
  qed
  ultimately show ?thesis unfolding d by simp
qed

lemma user_addr_pde: "user_addr v \<longleftrightarrow> MMU_PDE v < 1024"
  unfolding user_addr_def MMU_PDE_def unat_drop by (auto simp: div_less_iff_less_mult)

lemma pte_at_same_page:
  assumes "vpn w = vpn v"
  shows "pte_at pmm w = pte_at pmm v"
proof -
  have "MMU_PDE w = MMU_PDE v" "MMU_PTE w = MMU_PTE v" using assms by (simp_all add: same_page)
  then show ?thesis unfolding pte_at_def drop_bit_or drop_bit_and assms by (simp only:)
qed

lemma mask_28: "MMU_PPN_MASK = mask 28"
  by (simp add: mask_eq_exp_minus_1)

lemma and_ppn_mask: "unat (p::uint_t) < 2 ^ 28 \<Longrightarrow> p AND MMU_PPN_MASK = p"
  unfolding mask_28 by (simp add: word_unat_eq_iff unat_and_mask)

lemma ppn_mask_lt: "unat (p AND MMU_PPN_MASK) < 2 ^ 28"
  unfolding mask_28 by (simp add: unat_and_mask)

lemma table_entry:
  assumes "unat p < 2 ^ 28"
  shows "is_table (PMM_PRESENT OR MMU_PTD1 OR p)" and "(PMM_PRESENT OR MMU_PTD1 OR p) AND MMU_PPN_MASK = p"
    and "PMM_PRESENT OR MMU_PTD1 OR p \<noteq> 0"
proof -
  have b: "\<not> bit p n" if "28 \<le> n" for n
  proof -
    have "p = take_bit 28 p" using and_ppn_mask [OF assms] unfolding mask_28 by (simp add: take_bit_eq_mask)
    then show ?thesis using that by (metis bit_take_bit_iff not_le)
  qed
  have e: "(PMM_PRESENT :: uint_t) = 2 ^ 31" "(MMU_PTD1 :: uint_t) = 2 ^ 30" by simp_all
  show "is_table (PMM_PRESENT OR MMU_PTD1 OR p)"
    unfolding is_table_def e test_bit_and_exp by (simp add: bit_or_iff bit_exp_iff)
  show "(PMM_PRESENT OR MMU_PTD1 OR p) AND MMU_PPN_MASK = p"
  proof (rule bit_eqI)
    fix n assume "possible_bit TYPE(32 word) n"
    have x: "bit (2 ^ 31 :: uint_t) n \<longleftrightarrow> n = 31" "bit (2 ^ 30 :: uint_t) n \<longleftrightarrow> n = 30" unfolding bit_exp_iff by auto
    have "bit (mask 28 :: uint_t) n \<longleftrightarrow> n < 28" unfolding bit_mask_iff by auto
    then show "bit ((PMM_PRESENT OR MMU_PTD1 OR p) AND MMU_PPN_MASK) n = bit p n"
      unfolding mask_28 e bit_and_iff bit_or_iff x using b [of n] by auto
  qed
  show "PMM_PRESENT OR MMU_PTD1 OR p \<noteq> 0"
  proof
    assume "PMM_PRESENT OR MMU_PTD1 OR p = 0"
    then have "bit (PMM_PRESENT OR MMU_PTD1 OR p) 31 = bit (0::uint_t) 31" by simp
    then show False unfolding e by (simp add: bit_or_iff bit_exp_iff)
  qed
qed

section \<open>Reading and writing entries\<close>

lemma pmm_ok_table:
  assumes "pmm_ok pmm" and "is_table (pgdir pmm ! MMU_PDE v)"
  shows "length (pte_pages pmm (pgdir pmm ! MMU_PDE v AND MMU_PPN_MASK)) = 512"
  using assms MMU_PDE_lt by (simp add: pmm_ok_def)

lemma pmm_get_page_eq:
  assumes "pmm_small pmm"
  shows "pmm_get_page pmm v = Some (0, \<lparr>pi_attr = fst (pte_at pmm v), pi_ppn = snd (pte_at pmm v) AND MMU_PPN_MASK, pi_isAtomic = False\<rparr>)"
proof -
  have s: "length (pgdir pmm) = 2048" "pmm_ok pmm" using assms by (auto simp: pmm_small_def pmm_ok_def)
  have h: "drop_bit 12 x AND MMU_PPN_MASK = drop_bit 12 x" for x :: uint_t
  proof (rule and_ppn_mask)
    have "unat x div 4096 < 2 ^ 20" using unat_lt_32 [of x] by (simp add: div_less_iff_less_mult)
    then show "unat (drop_bit 12 x) < 2 ^ 28" unfolding unat_drop by simp
  qed
  show ?thesis
  proof (cases "is_table (pgdir pmm ! MMU_PDE v)")
    case True
    then show ?thesis using pmm_ok_table [OF s(2) True] s(1) MMU_PDE_lt [of v] MMU_PTE_lt [of v]
      by (simp add: pmm_get_page_def pte_at_def Let_def is_table_def)
  next
    case False
    have nl: "\<not> MMU_PDE v \<ge> length (pgdir pmm)" using s(1) by simp
    show ?thesis
    proof (cases "pgdir pmm ! MMU_PDE v AND PMM_PRESENT = 0")
      case True
      then show ?thesis unfolding pmm_get_page_def pte_at_def Let_def if_not_P [OF nl] if_not_P [OF False] by simp
    next
      case pr: False
      then have hu: "pgdir pmm ! MMU_PDE v AND PMM_HUGE = 0" using False by (simp add: is_table_def)
      show ?thesis unfolding pmm_get_page_def pte_at_def Let_def if_not_P [OF nl] if_not_P [OF False] if_not_P [OF pr] if_P [OF pr] if_P [OF hu]
        by (simp only: fst_conv snd_conv h)
    qed
  qed
qed

text \<open>The table for an address exists afterwards, and no entry has changed.\<close>

lemma pmm_pte_table_ok:
  assumes ok: "pmm_small pmm" and us: "user_addr v" and fresh: "\<And>p. alloc = Some p \<Longrightarrow> unat p < 2 ^ 28 \<and> p \<notin> pmm_tables pmm"
    and r: "pmm_pte_table (\<lambda>pmm. pmm) alloc v pmm = (err, used, p, pmm')"
  shows "if err \<noteq> 0 then err = ENOMEM \<and> alloc = None \<and> pgdir pmm ! MMU_PDE v = 0 \<and> pmm' = pmm \<and> \<not> used
     else pmm_small pmm' \<and> is_table (pgdir pmm' ! MMU_PDE v) \<and> p = pgdir pmm' ! MMU_PDE v AND MMU_PPN_MASK \<and>
       (\<forall>w. pte_at pmm' w = pte_at pmm w) \<and> (used \<longrightarrow> alloc = Some p) \<and> pmm_tables pmm' = pmm_tables pmm \<union> (if used then {p} else {})"
proof (cases "pgdir pmm ! MMU_PDE v = 0")
  case False
  then have "err = 0" "\<not> used" "p = pgdir pmm ! MMU_PDE v AND MMU_PPN_MASK" "pmm' = pmm" using r by (auto simp: pmm_pte_table_def)
  moreover have "is_table (pgdir pmm ! MMU_PDE v)" using ok False us unfolding pmm_small_def user_addr_pde by blast
  ultimately show ?thesis using ok by simp
next
  case True
  show ?thesis
  proof (cases alloc)
    case None
    then show ?thesis using True r by (auto simp: pmm_pte_table_def)
  next
    case (Some q)
    then have q: "unat q < 2 ^ 28" "q \<notin> pmm_tables pmm" using fresh by blast+
    let ?e = "PMM_PRESENT OR MMU_PTD1 OR q"
    have res: "err = 0" "used" "p = q" "pmm' = pmm\<lparr>pte_pages := (pte_pages pmm)(q := replicate 512 (0, 0)), pgdir := (pgdir pmm)[MMU_PDE v := ?e]\<rparr>"
      using r True Some by (auto simp: pmm_pte_table_def Let_def)
    note e = table_entry [OF q(1)]
    have len: "length (pgdir pmm) = 2048" using ok by (simp add: pmm_small_def pmm_ok_def)
    have d: "pgdir pmm' ! i = (if i = MMU_PDE v then ?e else pgdir pmm ! i)" for i using len MMU_PDE_lt [of v] by (simp add: res(4))
    have t: "pte_pages pmm' x = (if x = q then replicate 512 (0, 0) else pte_pages pmm x)" for x by (simp add: res(4))
    have nq: "pgdir pmm ! i AND MMU_PPN_MASK \<noteq> q" if "i < 2048" "is_table (pgdir pmm ! i)" for i using q(2) that by (auto simp: pmm_tables_def)
    have "pmm_ok pmm'" unfolding pmm_ok_def
    proof (intro conjI allI impI)
      show "length (pgdir pmm') = 2048" using len by (simp add: res(4))
      fix i :: nat assume i: "i < 2048"
      show "length (pte_pages pmm' (pgdir pmm' ! i AND MMU_PPN_MASK)) = 512" if "is_table (pgdir pmm' ! i)"
        using that i e ok nq [OF i] by (auto simp: d t pmm_small_def pmm_ok_def)
      fix j :: nat assume j: "j < 2048"
      show "pgdir pmm' ! i AND MMU_PPN_MASK \<noteq> pgdir pmm' ! j AND MMU_PPN_MASK"
        if "i \<noteq> j \<and> is_table (pgdir pmm' ! i) \<and> is_table (pgdir pmm' ! j)"
        using that i j e(2) ok nq [OF i] nq [OF j] by (auto simp: d pmm_small_def pmm_ok_def split: if_splits)
    qed
    then have "pmm_small pmm'" using ok e(1) by (auto simp: pmm_small_def d)
    moreover have "pte_at pmm' w = pte_at pmm w" for w
    proof (cases "MMU_PDE w = MMU_PDE v")
      case same: True
      have "pte_at pmm' w = (0, 0)" unfolding pte_at_def Let_def d same using e(1,2) MMU_PTE_lt [of w] by (simp add: t)
      moreover have "pte_at pmm w = (0, 0)" unfolding pte_at_def Let_def same True by (simp add: is_table_def)
      ultimately show ?thesis by simp
    next
      case False
      then show ?thesis using nq [OF MMU_PDE_lt [of w]] by (auto simp: pte_at_def Let_def d t)
    qed
    moreover have "pmm_tables pmm' = pmm_tables pmm \<union> {q}"
    proof -
      have n: "\<not> is_table (pgdir pmm ! MMU_PDE v)" using True by (simp add: is_table_def)
      have "x \<in> pmm_tables pmm' \<longleftrightarrow> x \<in> pmm_tables pmm \<union> {q}" for x
        using e MMU_PDE_lt [of v] n unfolding pmm_tables_def d by (auto split: if_splits) metis
      then show ?thesis by blast
    qed
    ultimately show ?thesis using res e d Some by simp
  qed
qed

lemma write_pte_ok:
  assumes ok: "pmm_small pmm" and tb: "is_table (pgdir pmm ! MMU_PDE v)"
  shows "\<exists>pmm'. write_pte (pgdir pmm ! MMU_PDE v AND MMU_PPN_MASK) v x pmm = Some pmm' \<and> pmm_small pmm' \<and> pgdir pmm' = pgdir pmm \<and>
     (\<forall>w. pte_at pmm' w = (if vpn w = vpn v then x else pte_at pmm w))"
proof -
  let ?p = "pgdir pmm ! MMU_PDE v AND MMU_PPN_MASK"
  let ?q = "pmm\<lparr>pte_pages := (pte_pages pmm)(?p := (pte_pages pmm ?p)[MMU_PTE v := x])\<rparr>"
  have o: "pmm_ok pmm" using ok by (simp add: pmm_small_def)
  note len = pmm_ok_table [OF o tb]
  have w: "write_pte ?p v x pmm = Some ?q" using len MMU_PTE_lt [of v] by (simp add: write_pte_def)
  have "pmm_small ?q" using ok by (auto simp: pmm_small_def pmm_ok_def)
  moreover have "pte_at ?q w = (if vpn w = vpn v then x else pte_at pmm w)" for w
  proof (cases "MMU_PDE w = MMU_PDE v")
    case True
    then show ?thesis using tb len MMU_PTE_lt [of v] by (auto simp: pte_at_def Let_def same_page nth_list_update)
  next
    case False
    then have "is_table (pgdir pmm ! MMU_PDE w) \<Longrightarrow> pgdir pmm ! MMU_PDE w AND MMU_PPN_MASK \<noteq> ?p"
      using o tb MMU_PDE_lt [of v] MMU_PDE_lt [of w] by (auto simp: pmm_ok_def)
    then show ?thesis using False by (auto simp: pte_at_def Let_def same_page)
  qed
  ultimately show ?thesis using w by (intro exI [of _ ?q]) simp
qed

text \<open>A request for a small page, and a page number of 28 bits that is no table yet.\<close>

definition small_info :: "pmm_page_info_s \<Rightarrow> bool" where
  "small_info info \<longleftrightarrow> pi_attr info AND PMM_HUGE = 0 \<and> pi_attr info AND PMM_CLEAR = 0 \<and> unat (pi_ppn info) < 2 ^ 28"

definition fresh_table :: "pmm_s \<Rightarrow> ppn_t option \<Rightarrow> bool" where
  "fresh_table pmm alloc \<longleftrightarrow> (\<forall>p. alloc = Some p \<longrightarrow> unat p < 2 ^ 28 \<and> p \<notin> pmm_tables pmm)"

lemma pmm_set_page_ok:
  assumes ok: "pmm_small pmm" and us: "user_addr v" and s: "small_info info" and fr: "fresh_table pmm alloc"
  shows "\<exists>err used pmm'. pmm_set_page (\<lambda>pmm. pmm) alloc v info pmm = Some (err, used, pmm') \<and>
    (if err \<noteq> 0 then err = ENOMEM \<and> alloc = None \<and> pgdir pmm ! MMU_PDE v = 0 \<and> pmm' = pmm \<and> \<not> used
     else pmm_small pmm' \<and> (\<forall>w. pte_at pmm' w = (if vpn w = vpn v then (pi_attr info, pi_ppn info) else pte_at pmm w)) \<and>
       (used \<longrightarrow> alloc \<noteq> None) \<and> pmm_tables pmm' = pmm_tables pmm \<union> (if used then {the alloc} else {}))"
proof -
  obtain err used p pmm1 where t: "pmm_pte_table (\<lambda>pmm. pmm) alloc v pmm = (err, used, p, pmm1)" by (metis prod_cases4)
  have len: "length (pgdir pmm) = 2048" using ok by (simp add: pmm_small_def pmm_ok_def)
  have f: "\<And>p. alloc = Some p \<Longrightarrow> unat p < 2 ^ 28 \<and> p \<notin> pmm_tables pmm" using fr by (simp add: fresh_table_def)
  note P = pmm_pte_table_ok [OF ok us f t]
  have e: "pmm_set_page (\<lambda>pmm. pmm) alloc v info pmm = (if err \<noteq> 0 then Some (err, used, pmm1)
      else map_option (\<lambda>pmm. (0, used, pmm)) (write_pte p v (pi_attr info, pi_ppn info) pmm1))"
    unfolding pmm_set_page_def Let_def t using s len by (simp add: small_info_def)
  show ?thesis
  proof (cases "err = 0")
    case False
    then show ?thesis using P e by auto
  next
    case True
    then have Q: "pmm_small pmm1" "is_table (pgdir pmm1 ! MMU_PDE v)" "p = pgdir pmm1 ! MMU_PDE v AND MMU_PPN_MASK"
        "\<forall>w. pte_at pmm1 w = pte_at pmm w" "used \<longrightarrow> alloc = Some p" "pmm_tables pmm1 = pmm_tables pmm \<union> (if used then {p} else {})"
      using P by simp_all
    from write_pte_ok [OF Q(1,2), of "(pi_attr info, pi_ppn info)"] obtain pmm' where w: "write_pte p v (pi_attr info, pi_ppn info) pmm1 = Some pmm'"
        "pmm_small pmm'" "pgdir pmm' = pgdir pmm1" "\<forall>w. pte_at pmm' w = (if vpn w = vpn v then (pi_attr info, pi_ppn info) else pte_at pmm1 w)"
      using Q(3) by auto
    have "pmm_tables pmm' = pmm_tables pmm1" using w(3) by (simp add: pmm_tables_def)
    then show ?thesis using e True w Q by (intro exI [of _ 0] exI [of _ used] exI [of _ pmm']) auto
  qed
qed

lemma pmm_set_page_cases:
  assumes "pmm_small pmm" and "user_addr v" and "small_info info" and "fresh_table pmm alloc"
  obtains (ok) used pmm' where "pmm_set_page (\<lambda>pmm. pmm) alloc v info pmm = Some (0, used, pmm')" "pmm_small pmm'"
      "\<And>w. pte_at pmm' w = (if vpn w = vpn v then (pi_attr info, pi_ppn info) else pte_at pmm w)"
      "used \<longrightarrow> alloc \<noteq> None" "pmm_tables pmm' = pmm_tables pmm \<union> (if used then {the alloc} else {})"
    | (nomem) "pmm_set_page (\<lambda>pmm. pmm) alloc v info pmm = Some (ENOMEM, False, pmm)" "alloc = None" "pgdir pmm ! MMU_PDE v = 0"
proof -
  from pmm_set_page_ok [OF assms] obtain err used pmm' where
    p: "pmm_set_page (\<lambda>pmm. pmm) alloc v info pmm = Some (err, used, pmm')"
    and c: "if err \<noteq> 0 then err = ENOMEM \<and> alloc = None \<and> pgdir pmm ! MMU_PDE v = 0 \<and> pmm' = pmm \<and> \<not> used
     else pmm_small pmm' \<and> (\<forall>w. pte_at pmm' w = (if vpn w = vpn v then (pi_attr info, pi_ppn info) else pte_at pmm w)) \<and>
       (used \<longrightarrow> alloc \<noteq> None) \<and> pmm_tables pmm' = pmm_tables pmm \<union> (if used then {the alloc} else {})" by blast
  show thesis
  proof (cases "err = 0")
    case True
    note c' = c [unfolded True, unfolded simp_thms if_False]
    show ?thesis using ok [of used pmm'] p c' True by blast
  next
    case False
    then show ?thesis using nomem p c by simp
  qed
qed

text \<open>What the virtual memory manager relies on.\<close>

locale page_table =
  fixes inv :: "'s \<Rightarrow> bool" and entry :: "'s \<Rightarrow> uint_t \<Rightarrow> uint_t \<times> ppn_t" and fresh :: "'s \<Rightarrow> ppn_t option \<Rightarrow> bool"
    and get :: "'s \<Rightarrow> uint_t \<Rightarrow> (error_t \<times> pmm_page_info_s) option"
    and put :: "ppn_t option \<Rightarrow> uint_t \<Rightarrow> pmm_page_info_s \<Rightarrow> 's \<Rightarrow> (error_t \<times> bool \<times> 's) option"
  assumes get_entry: "inv s \<Longrightarrow> get s v = Some (0, \<lparr>pi_attr = fst (entry s v), pi_ppn = snd (entry s v) AND MMU_PPN_MASK, pi_isAtomic = False\<rparr>)"
    and put_entry: "inv s \<Longrightarrow> user_addr v \<Longrightarrow> small_info info \<Longrightarrow> fresh s alloc \<Longrightarrow> \<exists>err used s'. put alloc v info s = Some (err, used, s') \<and>
      (if err \<noteq> 0 then err = ENOMEM \<and> alloc = None \<and> s' = s \<and> \<not> used
       else inv s' \<and> (\<forall>w. entry s' w = (if vpn w = vpn v then (pi_attr info, pi_ppn info) else entry s w)))"
begin

lemma put_cases:
  assumes "inv s" "user_addr v" "small_info info" "fresh s alloc"
  obtains (ok) used s' where "put alloc v info s = Some (0, used, s')" "inv s'"
      "\<And>w. entry s' w = (if vpn w = vpn v then (pi_attr info, pi_ppn info) else entry s w)"
    | (nomem) "put alloc v info s = Some (ENOMEM, False, s)" "alloc = None"
proof -
  from put_entry [OF assms] obtain err used s' where p: "put alloc v info s = Some (err, used, s')"
    and c: "if err \<noteq> 0 then err = ENOMEM \<and> alloc = None \<and> s' = s \<and> \<not> used
       else inv s' \<and> (\<forall>w. entry s' w = (if vpn w = vpn v then (pi_attr info, pi_ppn info) else entry s w))" by blast
  show thesis
  proof (cases "err = 0")
    case True
    then have "\<forall>w. entry s' w = (if vpn w = vpn v then (pi_attr info, pi_ppn info) else entry s w)" using c by simp
    then show ?thesis using ok [of used s'] p c True by simp
  next
    case False
    then show ?thesis using nomem p c by simp
  qed
qed

lemma get_after_put:
  assumes "inv s" "user_addr v" "small_info info" "fresh s alloc" "put alloc v info s = Some (0, used, s')"
  shows "get s' w = (if vpn w = vpn v then Some (0, \<lparr>pi_attr = pi_attr info, pi_ppn = pi_ppn info, pi_isAtomic = False\<rparr>) else get s w)"
proof -
  have i: "inv s'" and e: "entry s' w = (if vpn w = vpn v then (pi_attr info, pi_ppn info) else entry s w)"
    using put_entry [OF assms(1-4)] assms(5) by auto
  have "pi_ppn info AND MMU_PPN_MASK = pi_ppn info" using assms(3) and_ppn_mask by (auto simp: small_info_def)
  then show ?thesis unfolding get_entry [OF i] get_entry [OF assms(1)] e by simp
qed

end

interpretation pgt: page_table pmm_small pte_at fresh_table pmm_get_page "pmm_set_page (\<lambda>pmm. pmm)"
proof
  show "pmm_get_page s v = Some (0, \<lparr>pi_attr = fst (pte_at s v), pi_ppn = snd (pte_at s v) AND MMU_PPN_MASK, pi_isAtomic = False\<rparr>)"
    if "pmm_small s" for s v using pmm_get_page_eq [OF that] .
  show "\<exists>err used s'. pmm_set_page (\<lambda>pmm. pmm) alloc v info s = Some (err, used, s') \<and>
      (if err \<noteq> 0 then err = ENOMEM \<and> alloc = None \<and> s' = s \<and> \<not> used
       else pmm_small s' \<and> (\<forall>w. pte_at s' w = (if vpn w = vpn v then (pi_attr info, pi_ppn info) else pte_at s w)))"
    if "pmm_small s" "user_addr v" "small_info info" "fresh_table s alloc" for s v info alloc
    using pmm_set_page_ok [OF that] by (elim exE conjE, intro exI conjI) (auto split: if_splits)
qed

lemma pmm_lock_page_ok:
  assumes ok: "pmm_small pmm" and us: "user_addr v" and fr: "fresh_table pmm alloc"
  shows "\<exists>err used info pmm'. pmm_lock_page (\<lambda>pmm. pmm) alloc v pmm = Some (err, used, info, pmm') \<and>
    (if err \<noteq> 0 then err = ENOMEM \<and> alloc = None \<and> pmm' = pmm \<and> \<not> used
     else pmm_small pmm' \<and> is_table (pgdir pmm' ! MMU_PDE v) \<and> pi_isAtomic info = (fst (pte_at pmm v) = 0) \<and>
       (\<forall>w. pte_at pmm' w = (if vpn w = vpn v \<and> pi_isAtomic info then (PMM_LOCKED, snd (pte_at pmm v)) else pte_at pmm w)) \<and>
       (used \<longrightarrow> alloc \<noteq> None) \<and> pmm_tables pmm' = pmm_tables pmm \<union> (if used then {the alloc} else {}))"
proof -
  obtain err used p pmm1 where t: "pmm_pte_table (\<lambda>pmm. pmm) alloc v pmm = (err, used, p, pmm1)" by (metis prod_cases4)
  have len: "length (pgdir pmm) = 2048" and nh: "pgdir pmm ! MMU_PDE v = 0 \<or> is_table (pgdir pmm ! MMU_PDE v)"
    using ok us unfolding pmm_small_def pmm_ok_def user_addr_pde by blast+
  then have nh: "\<not> (pgdir pmm ! MMU_PDE v \<noteq> 0 \<and> pgdir pmm ! MMU_PDE v AND PMM_HUGE = 0)" by (auto simp: is_table_def)
  have f: "\<And>p. alloc = Some p \<Longrightarrow> unat p < 2 ^ 28 \<and> p \<notin> pmm_tables pmm" using fr by (simp add: fresh_table_def)
  note P = pmm_pte_table_ok [OF ok us f t]
  show ?thesis
  proof (cases "err = 0")
    case False
    then show ?thesis using P t nh len unfolding pmm_lock_page_def Let_def t by (auto simp: if_not_P [OF nh])
  next
    case True
    then have Q: "pmm_small pmm1" "is_table (pgdir pmm1 ! MMU_PDE v)" "p = pgdir pmm1 ! MMU_PDE v AND MMU_PPN_MASK"
        "\<forall>w. pte_at pmm1 w = pte_at pmm w" "used \<longrightarrow> alloc = Some p" "pmm_tables pmm1 = pmm_tables pmm \<union> (if used then {p} else {})"
      using P by simp_all
    have o1: "pmm_ok pmm1" using Q(1) by (simp add: pmm_small_def)
    have l: "length (pte_pages pmm1 p) = 512" using pmm_ok_table [OF o1 Q(2)] Q(3) by simp
    obtain attr ppn where a: "pte_at pmm v = (attr, ppn)" by (cases "pte_at pmm v")
    have pe: "pte_pages pmm1 p ! MMU_PTE v = (attr, ppn)" using Q(2,3,4) a by (simp add: pte_at_def Let_def) metis
    have e: "pmm_lock_page (\<lambda>pmm. pmm) alloc v pmm = (if attr = 0
        then map_option (\<lambda>pmm. (0, used, \<lparr>pi_attr = PMM_LOCKED, pi_ppn = ppn AND MMU_PPN_MASK, pi_isAtomic = True\<rparr>, pmm)) (write_pte p v (PMM_LOCKED, ppn) pmm1)
        else Some (0, used, \<lparr>pi_attr = attr, pi_ppn = ppn AND MMU_PPN_MASK, pi_isAtomic = False\<rparr>, pmm1))"
      unfolding pmm_lock_page_def Let_def t if_not_P [OF nh] using len True l pe by (simp add: not_le)
    show ?thesis
    proof (cases "attr = 0")
      case z: True
      from write_pte_ok [OF Q(1,2), of "(PMM_LOCKED, ppn)"] obtain pmm' where w: "write_pte p v (PMM_LOCKED, ppn) pmm1 = Some pmm'"
          "pmm_small pmm'" "pgdir pmm' = pgdir pmm1" "\<forall>w. pte_at pmm' w = (if vpn w = vpn v then (PMM_LOCKED, ppn) else pte_at pmm1 w)"
        using Q(3) by auto
      have "pmm_tables pmm' = pmm_tables pmm1" using w(3) by (simp add: pmm_tables_def)
      then show ?thesis using e z w Q a
        by (intro exI [of _ 0] exI [of _ used] exI [of _ "\<lparr>pi_attr = PMM_LOCKED, pi_ppn = ppn AND MMU_PPN_MASK, pi_isAtomic = True\<rparr>"] exI [of _ pmm']) auto
    next
      case False
      then show ?thesis using e Q a by (intro exI [of _ 0] exI [of _ used] exI [of _ "\<lparr>pi_attr = attr, pi_ppn = ppn AND MMU_PPN_MASK, pi_isAtomic = False\<rparr>"] exI [of _ pmm1]) auto
    qed
  qed
qed

lemma pmm_unlock_page_ok:
  assumes ok: "pmm_small pmm" and tb: "is_table (pgdir pmm ! MMU_PDE v)" and at: "pte_at pmm v = (PMM_LOCKED, ppn)"
  shows "\<exists>info pmm'. pmm_unlock_page v pmm = Some (info, pmm') \<and> pi_isAtomic info \<and> pmm_small pmm' \<and> pgdir pmm' = pgdir pmm \<and>
     (\<forall>w. pte_at pmm' w = (if vpn w = vpn v then (0, ppn) else pte_at pmm w))"
proof -
  have o: "pmm_ok pmm" "length (pgdir pmm) = 2048" using ok by (simp_all add: pmm_small_def pmm_ok_def)
  have pe: "pte_pages pmm (pgdir pmm ! MMU_PDE v AND MMU_PPN_MASK) ! MMU_PTE v = (PMM_LOCKED, ppn)" using at tb by (simp add: pte_at_def)
  have "pmm_unlock_page v pmm = map_option (\<lambda>pmm. (\<lparr>pi_attr = 0, pi_ppn = ppn, pi_isAtomic = True\<rparr>, pmm))
      (write_pte (pgdir pmm ! MMU_PDE v AND MMU_PPN_MASK) v (0, ppn) pmm)"
    unfolding pmm_unlock_page_def Let_def pe using o(2) pmm_ok_table [OF o(1) tb] MMU_PTE_lt [of v] by (simp add: not_le)
  then show ?thesis using write_pte_ok [OF ok tb, of "(0, ppn)"] by auto
qed

section \<open>Regions\<close>

definition mapped :: "uint_t \<times> ppn_t \<Rightarrow> bool" where
  "mapped e \<longleftrightarrow> snd e AND MMU_PPN_MASK \<noteq> 0 \<and> fst e AND PMM_PRESENT \<noteq> 0"

definition set_attr :: "uint_t \<Rightarrow> uint_t \<times> ppn_t \<Rightarrow> uint_t \<times> ppn_t" where
  "set_attr attr e = (if mapped e then (attr, snd e AND MMU_PPN_MASK) else e)"

text \<open>The address of page \<open>k\<close> of a region at \<open>v\<close>.\<close>

abbreviation page_addr :: "uint_t \<Rightarrow> nat \<Rightarrow> uint_t" where
  "page_addr v k \<equiv> v + of_nat k * 0x1000"

lemma set_attr_idem [simp]: "set_attr attr (set_attr attr e) = set_attr attr e"
  by (simp add: set_attr_def mapped_def and.assoc)

lemma page_addr_unat: "unat (vpn (page_addr v k)) = (unat v div 4096 + k) mod 2 ^ 20"
proof -
  have "page_addr v k = of_nat (unat v + k * 4096)" by simp
  then have u: "unat (page_addr v k) = (unat v + k * 4096) mod (4096 * 2 ^ 20)" by (simp only: unat_of_nat) simp
  have "(unat v + k * 4096) mod (4096 * 2 ^ 20) div 4096 = (unat v + k * 4096) div 4096 mod 2 ^ 20"
    unfolding mod_mult2_eq [of _ 4096 "2 ^ 20"] by simp
  then show ?thesis unfolding unat_drop u by (simp add: add.commute)
qed

lemma set_attr_twice:
  "(if P then set_attr attr (if Q then set_attr attr e else e) else if Q then set_attr attr e else e) = (if Q \<or> P then set_attr attr e else e)"
  by simp

lemma mod_add_left_cancel_nat: "(a + b) mod n = (a + c) mod n \<Longrightarrow> b mod n = c mod (n::nat)"
proof (cases "n = 0")
  case False
  assume e: "(a + b) mod n = (a + c) mod n"
  have "(a * (n - 1) + (a + x)) mod n = x mod n" for x
  proof -
    have "a * (n - 1) + (a + x) = x + a * n" using False by (cases n) simp_all
    then show ?thesis by (simp only: mod_mult_self1)
  qed
  then show ?thesis using e by (metis mod_add_right_eq)
qed simp

lemma page_addr_inj:
  assumes "vpn (page_addr v j) = vpn (page_addr v k)" "j < 2 ^ 20" "k < 2 ^ 20"
  shows "j = k"
proof -
  have "(unat v div 4096 + j) mod 2 ^ 20 = (unat v div 4096 + k) mod 2 ^ 20" using assms(1) by (metis page_addr_unat)
  then have "j mod 2 ^ 20 = k mod 2 ^ 20" by (rule mod_add_left_cancel_nat)
  then show ?thesis using assms(2,3) by simp
qed

lemma page_addr_Suc: "page_addr v (Suc k) = page_addr (v + 0x1000) k"
  by (simp add: algebra_simps)

definition user_range :: "uint_t \<Rightarrow> nat \<Rightarrow> bool" where
  "user_range v n \<longleftrightarrow> (\<forall>k<n. user_addr (v + of_nat k * 0x1000))"

lemma user_range_Suc: "user_range v (Suc n) \<longleftrightarrow> user_addr v \<and> user_range (v + 0x1000) n"
proof -
  have "(\<forall>k<Suc n. user_addr (page_addr v k)) \<longleftrightarrow> user_addr (page_addr v 0) \<and> (\<forall>k<n. user_addr (page_addr v (Suc k)))"
    by (metis less_Suc_eq_0_disj)
  then show ?thesis unfolding user_range_def page_addr_Suc by simp
qed

lemma ex_less_Suc_shift: "(\<exists>k<Suc n. P k) \<longleftrightarrow> P 0 \<or> (\<exists>k<n. P (Suc k))"
  using less_Suc_eq_0_disj by auto

lemma pmm_set_page_table_exists:
  "pgdir pmm ! MMU_PDE v \<noteq> 0 \<Longrightarrow> pmm_set_page env alloc v info pmm = pmm_set_page env None v info pmm"
  by (simp add: pmm_set_page_def pmm_pte_table_def Let_def)

lemma pmm_region_attr_set_ok:
  assumes "pmm_small pmm" and a: "attr AND PMM_HUGE = 0" "attr AND PMM_CLEAR = 0" and "user_range v n"
  shows "\<exists>pmm'. pmm_region_attr_set alloc v n attr pmm = Some (0, pmm') \<and> pmm_small pmm' \<and>
    (\<forall>w. pte_at pmm' w = (if \<exists>k<n. vpn w = vpn (page_addr v k) then set_attr attr (pte_at pmm w) else pte_at pmm w))"
  using assms(1,4)
proof (induction n arbitrary: v pmm)
  case 0
  then show ?case by simp
next
  case (Suc n)
  have sz: "pmm_page_size attr = 0x1000" using a by (simp add: pmm_page_size_def)
  define info where "info = \<lparr>pi_attr = fst (pte_at pmm v), pi_ppn = snd (pte_at pmm v) AND MMU_PPN_MASK, pi_isAtomic = False\<rparr>"
  have g: "pmm_get_page pmm v = Some (0, info)" using pmm_get_page_eq [OF Suc.prems(1)] by (simp add: info_def)
  have "\<exists>pmm1. pmm_region_attr_set alloc v (Suc n) attr pmm = pmm_region_attr_set alloc (v + 0x1000) n attr pmm1 \<and> pmm_small pmm1 \<and>
      (\<forall>w. pte_at pmm1 w = (if vpn w = vpn v then set_attr attr (pte_at pmm w) else pte_at pmm w))"
  proof (cases "mapped (pte_at pmm v)")
    case False
    then have "pmm_region_attr_set alloc v (Suc n) attr pmm = pmm_region_attr_set alloc (v + 0x1000) n attr pmm"
      by (auto simp: g sz info_def mapped_def)
    moreover have "set_attr attr (pte_at pmm w) = pte_at pmm w" if "vpn w = vpn v" for w
    proof -
      have "pte_at pmm w = pte_at pmm v" using that by (rule pte_at_same_page)
      then show ?thesis using False by (simp add: set_attr_def)
    qed
    ultimately show ?thesis using Suc.prems by auto
  next
    case True
    have nz: "pgdir pmm ! MMU_PDE v \<noteq> 0"
    proof
      assume "pgdir pmm ! MMU_PDE v = 0"
      then have "pte_at pmm v = (0, 0)" by (simp add: pte_at_def is_table_def)
      then show False using True by (simp add: mapped_def)
    qed
    have us: "user_addr v" using Suc.prems(2) by (simp add: user_range_Suc)
    have si: "small_info (info\<lparr>pi_attr := attr\<rparr>)" using a ppn_mask_lt by (simp add: small_info_def info_def)
    have "fresh_table pmm None" by (simp add: fresh_table_def)
    then obtain used pmm1 where
      p: "pmm_set_page (\<lambda>pmm. pmm) None v (info\<lparr>pi_attr := attr\<rparr>) pmm = Some (0, used, pmm1)" "pmm_small pmm1"
      "\<forall>w. pte_at pmm1 w = (if vpn w = vpn v then (attr, pi_ppn info) else pte_at pmm w)"
    proof (rule pmm_set_page_cases [OF Suc.prems(1) us si, of None])
      fix used pmm1 assume "pmm_set_page (\<lambda>pmm. pmm) None v (info\<lparr>pi_attr := attr\<rparr>) pmm = Some (0, used, pmm1)" "pmm_small pmm1"
        and w: "\<And>w. pte_at pmm1 w = (if vpn w = vpn v then (pi_attr (info\<lparr>pi_attr := attr\<rparr>), pi_ppn (info\<lparr>pi_attr := attr\<rparr>)) else pte_at pmm w)"
      moreover have "\<forall>w. pte_at pmm1 w = (if vpn w = vpn v then (attr, pi_ppn info) else pte_at pmm w)" unfolding w by simp
      ultimately show thesis using that by blast
    qed (use nz in simp)
    have c: "pi_ppn info \<noteq> 0 \<and> pi_attr info AND PMM_PRESENT \<noteq> 0" using True by (simp add: mapped_def info_def)
    have "pmm_region_attr_set alloc v (Suc n) attr pmm = pmm_region_attr_set alloc (v + 0x1000) n attr pmm1"
      using c by (simp add: g sz pmm_set_page_table_exists [OF nz, of _ alloc] p(1))
    moreover have "set_attr attr (pte_at pmm w) = (attr, pi_ppn info)" if "vpn w = vpn v" for w
    proof -
      have "pte_at pmm w = pte_at pmm v" using that by (rule pte_at_same_page)
      then show ?thesis using True by (simp add: set_attr_def info_def)
    qed
    ultimately show ?thesis using p(2,3) by auto
  qed
  then obtain pmm1 where s: "pmm_region_attr_set alloc v (Suc n) attr pmm = pmm_region_attr_set alloc (v + 0x1000) n attr pmm1" "pmm_small pmm1"
    "\<And>w. pte_at pmm1 w = (if vpn w = vpn v then set_attr attr (pte_at pmm w) else pte_at pmm w)" by blast
  from Suc.IH [OF s(2), of "v + 0x1000"] Suc.prems(2) obtain pmm' where r: "pmm_region_attr_set alloc (v + 0x1000) n attr pmm1 = Some (0, pmm')" "pmm_small pmm'"
    "\<And>w. pte_at pmm' w = (if \<exists>k<n. vpn w = vpn (page_addr (v + 0x1000) k) then set_attr attr (pte_at pmm1 w) else pte_at pmm1 w)" unfolding user_range_Suc by blast
  have "pte_at pmm' w = (if \<exists>k<Suc n. vpn w = vpn (page_addr v k) then set_attr attr (pte_at pmm w) else pte_at pmm w)" for w
    unfolding r(3) s(3) ex_less_Suc_shift page_addr_Suc set_attr_twice by simp
  then show ?case using s(1) r(1,2) by auto
qed

text \<open>The pages and tables \<^verbatim>\<open>kmem_alloc\<close> returns: page numbers of 28 bits, and every table is new.\<close>

definition fresh_supply :: "pmm_s \<Rightarrow> (nat \<Rightarrow> ppn_t option \<times> ppn_t option) \<Rightarrow> nat \<Rightarrow> nat \<Rightarrow> bool" where
  "fresh_supply pmm mem i n \<longleftrightarrow> (\<forall>k. i \<le> k \<and> k < n \<longrightarrow>
     (\<forall>p. fst (mem k) = Some p \<longrightarrow> unat p < 2 ^ 28) \<and>
     (\<forall>t. snd (mem k) = Some t \<longrightarrow> unat t < 2 ^ 28 \<and> t \<notin> pmm_tables pmm \<and> (\<forall>j. i \<le> j \<and> j < k \<longrightarrow> snd (mem j) \<noteq> Some t)))"

lemma fresh_supply_step:
  assumes "fresh_supply pmm mem i n" and "pmm_tables pmm' \<subseteq> pmm_tables pmm \<union> set_option (snd (mem i))"
  shows "fresh_supply pmm' mem (i + 1) n"
  unfolding fresh_supply_def
proof (intro allI impI conjI)
  fix k assume k: "i + 1 \<le> k \<and> k < n"
  then have k': "i \<le> k \<and> k < n" by simp
  show "unat p < 2 ^ 28" if "fst (mem k) = Some p" for p using assms(1) k' that by (simp add: fresh_supply_def)
  fix t assume t: "snd (mem k) = Some t"
  then have f: "unat t < 2 ^ 28 \<and> t \<notin> pmm_tables pmm \<and> (\<forall>j. i \<le> j \<and> j < k \<longrightarrow> snd (mem j) \<noteq> Some t)"
    using assms(1) k' unfolding fresh_supply_def by blast
  then have "snd (mem i) \<noteq> Some t" using k by simp
  then show "unat t < 2 ^ 28" "t \<notin> pmm_tables pmm'" using f assms(2) by auto
  show "snd (mem j) \<noteq> Some t" if "i + 1 \<le> j \<and> j < k" for j using f that by simp
qed

lemma region_map_loop_ok:
  assumes "pmm_small pmm" and "fresh_supply pmm mem i (i + n)" and a: "attr AND PMM_HUGE = 0" "attr AND PMM_CLEAR = 0" and "n \<le> 2 ^ 20" and "user_range v n"
  shows "\<exists>err pmm' j. region_map_loop mem i n attr v pmm = Some (err, pmm') \<and> pmm_small pmm' \<and> j \<le> n \<and>
     (if j = n then err = 0 else err = ENOMEM \<and> (fst (mem (i + j)) = None \<or> snd (mem (i + j)) = None)) \<and>
     (\<forall>k<j. \<exists>p. fst (mem (i + k)) = Some p \<and> pte_at pmm' (page_addr v k) = (attr, p)) \<and>
     (\<forall>w. (\<forall>k<j. vpn w \<noteq> vpn (page_addr v k)) \<longrightarrow> pte_at pmm' w = pte_at pmm w)"
  using assms(1,2,5,6)
proof (induction n arbitrary: v pmm i)
  case 0
  then show ?case by simp
next
  case (Suc n)
  have sz: "pmm_page_size attr = 0x1000" using a by (simp add: pmm_page_size_def)
  have f: "fresh_table pmm (snd (mem i))" using Suc.prems(2) by (auto simp: fresh_supply_def fresh_table_def)
  show ?case
  proof (cases "fst (mem i)")
    case None
    then show ?thesis using Suc.prems by (auto intro!: exI [of _ 0] simp: pmm_region_unmap_def)
  next
    case (Some p)
    let ?info = "\<lparr>pi_attr = attr, pi_ppn = p, pi_isAtomic = False\<rparr>"
    have "unat p < 2 ^ 28" using Suc.prems(2) Some by (auto simp: fresh_supply_def)
    then have si: "small_info ?info" using a by (simp add: small_info_def)
    have us: "user_addr v" and ur: "user_range (v + 0x1000) n" using Suc.prems(4) by (simp_all add: user_range_Suc)
    show ?thesis
    proof (cases rule: pmm_set_page_cases [OF Suc.prems(1) us si f, case_names ok nomem])
      case nomem
      then show ?thesis using Some Suc.prems by (intro exI [of _ ENOMEM] exI [of _ pmm] exI [of _ 0]) simp
    next
      case (ok used pmm1)
      have "pmm_tables pmm1 \<subseteq> pmm_tables pmm \<union> set_option (snd (mem i))" using ok(4,5) by auto
      from fresh_supply_step [OF Suc.prems(2) this] have fs: "fresh_supply pmm1 mem (i + 1) (i + 1 + n)" by simp
      from Suc.IH [OF ok(2) fs _ ur] Suc.prems(3) obtain err pmm' j where
        r: "region_map_loop mem (i + 1) n attr (v + 0x1000) pmm1 = Some (err, pmm')" "pmm_small pmm'" "j \<le> n"
          "if j = n then err = 0 else err = ENOMEM \<and> (fst (mem (i + 1 + j)) = None \<or> snd (mem (i + 1 + j)) = None)"
        and e: "\<forall>k<j. \<exists>p. fst (mem (i + 1 + k)) = Some p \<and> pte_at pmm' (page_addr (v + 0x1000) k) = (attr, p)"
        and o: "\<forall>w. (\<forall>k<j. vpn w \<noteq> vpn (page_addr (v + 0x1000) k)) \<longrightarrow> pte_at pmm' w = pte_at pmm1 w"
        by (metis Suc_leD)
      have "vpn v \<noteq> vpn (page_addr (v + 0x1000) k)" if "k < j" for k
      proof
        assume "vpn v = vpn (page_addr (v + 0x1000) k)"
        then have "vpn (page_addr v 0) = vpn (page_addr v (Suc k))" unfolding page_addr_Suc by simp
        then have "0 = Suc k" using page_addr_inj [of v 0 "Suc k"] that r(3) Suc.prems(3) by simp
        then show False by simp
      qed
      then have v: "pte_at pmm' v = (attr, p)" using o ok(3) by simp
      have m: "region_map_loop mem i (Suc n) attr v pmm = Some (err, pmm')" using Some ok(1) r(1) by (simp add: sz)
      have A: "\<exists>p. fst (mem (i + k)) = Some p \<and> pte_at pmm' (page_addr v k) = (attr, p)" if "k < Suc j" for k
      proof (cases k)
        case 0
        then show ?thesis using v Some by simp
      next
        case (Suc k')
        then have "k' < j" using that by simp
        then show ?thesis using e unfolding Suc page_addr_Suc by simp
      qed
      have B: "pte_at pmm' w = pte_at pmm w" if "\<forall>k<Suc j. vpn w \<noteq> vpn (page_addr v k)" for w
      proof -
        have "vpn w \<noteq> vpn (page_addr v 0)" "\<forall>k<j. vpn w \<noteq> vpn (page_addr v (Suc k))" using that by blast+
        then show ?thesis using o ok(3) unfolding page_addr_Suc by simp
      qed
      have C: "if Suc j = Suc n then err = 0 else err = ENOMEM \<and> (fst (mem (i + Suc j)) = None \<or> snd (mem (i + Suc j)) = None)"
        using r(4) by (cases "j = n") simp_all
      show ?thesis using m r(2,3) C A B by (intro exI [of _ err] exI [of _ pmm'] exI [of _ "Suc j"] conjI) (assumption | simp)+
    qed
  qed
qed

text \<open>C34. The two-level page table is a map from virtual pages to attributes and page number: what \<^verbatim>\<open>pmm_set_page\<close> writes for
  a small page is what \<^verbatim>\<open>pmm_get_page\<close> reads for every address of this page, and the entries of all other pages stay as
  they were, also when a new table had to be made; without memory for a table nothing changes and
  \<^verbatim>\<open>ENOMEM\<close> is returned. \<^verbatim>\<open>pmm_lock_page\<close> succeeds exactly on an empty entry, so at most one of several threads gets it, and
  \<^verbatim>\<open>pmm_unlock_page\<close> makes the entry empty again.\<close>

theorem pmm_page_map:
  assumes ok: "pmm_small pmm" and us: "user_addr v" and s: "small_info info" and fr: "fresh_table pmm alloc"
  shows "(case pmm_set_page (\<lambda>pmm. pmm) alloc v info pmm of
       None \<Rightarrow> False
     | Some (err, used, pmm') \<Rightarrow>
         if err = 0
         then pmm_small pmm' \<and> (\<forall>w. pmm_get_page pmm' w = (if drop_bit 12 w = drop_bit 12 v
           then Some (0, \<lparr>pi_attr = pi_attr info, pi_ppn = pi_ppn info, pi_isAtomic = False\<rparr>) else pmm_get_page pmm w))
         else err = ENOMEM \<and> alloc = None \<and> pmm' = pmm) \<and>
    (case pmm_lock_page (\<lambda>pmm. pmm) alloc v pmm of
       None \<Rightarrow> False
     | Some (err, used, old, pmm') \<Rightarrow>
         if err = 0
         then pi_isAtomic old = (pte_at pmm v = (0, snd (pte_at pmm v))) \<and> pmm_small pmm' \<and>
           (\<exists>used2 old2. pmm_lock_page (\<lambda>pmm. pmm) None v pmm' = Some (0, used2, old2, pmm') \<and> \<not> pi_isAtomic old2) \<and>
           (pi_isAtomic old \<longrightarrow> (\<exists>info pmm''. pmm_unlock_page v pmm' = Some (info, pmm'') \<and> (\<forall>w. pte_at pmm'' w = pte_at pmm w)))
         else err = ENOMEM \<and> alloc = None \<and> pmm' = pmm)"
proof (rule conjI)
  obtain err used pmm' where p: "pmm_set_page (\<lambda>pmm. pmm) alloc v info pmm = Some (err, used, pmm')"
    and c: "if err \<noteq> 0 then err = ENOMEM \<and> alloc = None \<and> pmm' = pmm \<and> \<not> used
       else pmm_small pmm' \<and> (\<forall>w. pte_at pmm' w = (if vpn w = vpn v then (pi_attr info, pi_ppn info) else pte_at pmm w))"
    using pgt.put_entry [OF ok us s fr] by blast
  show "case pmm_set_page (\<lambda>pmm. pmm) alloc v info pmm of None \<Rightarrow> False | Some (err, used, pmm') \<Rightarrow>
         if err = 0 then pmm_small pmm' \<and> (\<forall>w. pmm_get_page pmm' w = (if vpn w = vpn v
           then Some (0, \<lparr>pi_attr = pi_attr info, pi_ppn = pi_ppn info, pi_isAtomic = False\<rparr>) else pmm_get_page pmm w))
         else err = ENOMEM \<and> alloc = None \<and> pmm' = pmm"
    using p c pgt.get_after_put [OF ok us s fr, of used pmm'] by (cases "err = 0") simp_all
next
  obtain err used old pmm' where l: "pmm_lock_page (\<lambda>pmm. pmm) alloc v pmm = Some (err, used, old, pmm')"
    and c: "if err \<noteq> 0 then err = ENOMEM \<and> alloc = None \<and> pmm' = pmm \<and> \<not> used
     else pmm_small pmm' \<and> is_table (pgdir pmm' ! MMU_PDE v) \<and> pi_isAtomic old = (fst (pte_at pmm v) = 0) \<and>
       (\<forall>w. pte_at pmm' w = (if vpn w = vpn v \<and> pi_isAtomic old then (PMM_LOCKED, snd (pte_at pmm v)) else pte_at pmm w)) \<and>
       (used \<longrightarrow> alloc \<noteq> None) \<and> pmm_tables pmm' = pmm_tables pmm \<union> (if used then {the alloc} else {})"
    using pmm_lock_page_ok [OF ok us fr] by blast
  have "(\<exists>used2 old2. pmm_lock_page (\<lambda>pmm. pmm) None v pmm' = Some (0, used2, old2, pmm') \<and> \<not> pi_isAtomic old2) \<and>
      (pi_isAtomic old \<longrightarrow> (\<exists>info pmm''. pmm_unlock_page v pmm' = Some (info, pmm'') \<and> (\<forall>w. pte_at pmm'' w = pte_at pmm w)))" if "err = 0"
  proof -
    have ok': "pmm_small pmm'" and tb: "is_table (pgdir pmm' ! MMU_PDE v)" and at: "pi_isAtomic old = (fst (pte_at pmm v) = 0)"
      and en: "\<And>w. pte_at pmm' w = (if vpn w = vpn v \<and> pi_isAtomic old then (PMM_LOCKED, snd (pte_at pmm v)) else pte_at pmm w)"
      using c that by simp_all
    have pd: "pgdir pmm' ! MMU_PDE v \<noteq> 0" "\<not> (pgdir pmm' ! MMU_PDE v \<noteq> 0 \<and> pgdir pmm' ! MMU_PDE v AND PMM_HUGE = 0)" using tb by (auto simp: is_table_def)
    have nz: "fst (pte_at pmm' v) \<noteq> 0" using en [of v] at by (auto split: if_splits)
    have o': "pmm_ok pmm'" "length (pgdir pmm') = 2048" using ok' by (simp_all add: pmm_small_def pmm_ok_def)
    have pe: "pte_pages pmm' (pgdir pmm' ! MMU_PDE v AND MMU_PPN_MASK) ! MMU_PTE v = pte_at pmm' v" using tb by (simp add: pte_at_def)
    have "pmm_lock_page (\<lambda>pmm. pmm) None v pmm' = Some (0, False, \<lparr>pi_attr = fst (pte_at pmm' v), pi_ppn = snd (pte_at pmm' v) AND MMU_PPN_MASK, pi_isAtomic = False\<rparr>, pmm')"
      unfolding pmm_lock_page_def Let_def if_not_P [OF pd(2)] pmm_pte_table_def if_not_P [OF pd(1)]
      using pe nz o'(2) pmm_ok_table [OF o'(1) tb] by (cases "pte_at pmm' v") simp
    moreover have "\<exists>info pmm''. pmm_unlock_page v pmm' = Some (info, pmm'') \<and> (\<forall>w. pte_at pmm'' w = pte_at pmm w)" if "pi_isAtomic old"
    proof -
      have "pte_at pmm' v = (PMM_LOCKED, snd (pte_at pmm v))" using en [of v] that by simp
      from pmm_unlock_page_ok [OF ok' tb this] obtain info pmm'' where u: "pmm_unlock_page v pmm' = Some (info, pmm'')"
        "\<forall>w. pte_at pmm'' w = (if vpn w = vpn v then (0, snd (pte_at pmm v)) else pte_at pmm' w)" by blast
      have "pte_at pmm'' w = pte_at pmm w" for w
      proof (cases "vpn w = vpn v")
        case True
        then have "pte_at pmm w = pte_at pmm v" by (rule pte_at_same_page)
        moreover have "fst (pte_at pmm v) = 0" using at that by simp
        ultimately show ?thesis using u(2) True by (metis prod.collapse)
      next
        case False
        then show ?thesis using u(2) en by simp
      qed
      then show ?thesis using u(1) by blast
    qed
    ultimately show ?thesis by auto
  qed
  then show "case pmm_lock_page (\<lambda>pmm. pmm) alloc v pmm of None \<Rightarrow> False | Some (err, used, old, pmm') \<Rightarrow>
         if err = 0
         then pi_isAtomic old = (pte_at pmm v = (0, snd (pte_at pmm v))) \<and> pmm_small pmm' \<and>
           (\<exists>used2 old2. pmm_lock_page (\<lambda>pmm. pmm) None v pmm' = Some (0, used2, old2, pmm') \<and> \<not> pi_isAtomic old2) \<and>
           (pi_isAtomic old \<longrightarrow> (\<exists>info pmm''. pmm_unlock_page v pmm' = Some (info, pmm'') \<and> (\<forall>w. pte_at pmm'' w = pte_at pmm w)))
         else err = ENOMEM \<and> alloc = None \<and> pmm' = pmm"
    using l c by (cases "pte_at pmm v"; cases "err = 0") auto
qed

definition wit_pmm :: pmm_s where
  "wit_pmm = \<lparr>pgdir = replicate 2048 0, pmm_flags = 0, pgdir_ppn = 4, pte_pages = (\<lambda>_. [])\<rparr>"

theorem pmm_page_map_witness:
  "\<exists>used pmm'. pmm_set_page (\<lambda>pmm. pmm) (Some 7) 0x00403123 \<lparr>pi_attr = PMM_PRESENT, pi_ppn = 0x1234, pi_isAtomic = False\<rparr> wit_pmm = Some (0, used, pmm') \<and>
     pmm_get_page pmm' 0x00403FFF = Some (0, \<lparr>pi_attr = PMM_PRESENT, pi_ppn = 0x1234, pi_isAtomic = False\<rparr>) \<and>
     pmm_get_page pmm' 0x00404000 = pmm_get_page wit_pmm 0x00404000"
proof -
  let ?i = "\<lparr>pi_attr = PMM_PRESENT, pi_ppn = 0x1234, pi_isAtomic = False\<rparr>"
  have z: "\<not> is_table 0" by (simp add: is_table_def)
  have a: "pmm_small wit_pmm" by (simp add: pmm_small_def pmm_ok_def wit_pmm_def z)
  have b: "small_info ?i" by (simp add: small_info_def)
  have c: "fresh_table wit_pmm (Some 7)" by (auto simp: fresh_table_def pmm_tables_def wit_pmm_def z)
  have v: "drop_bit 12 (0x00403FFF :: uint_t) = drop_bit 12 0x00403123" "drop_bit 12 (0x00404000 :: uint_t) \<noteq> drop_bit 12 0x00403123" by simp_all
  have u: "user_addr 0x00403123" by (simp add: user_addr_def)
  note m = conjunct1 [OF pmm_page_map [OF a u b c]]
  obtain err used pmm' where p: "pmm_set_page (\<lambda>pmm. pmm) (Some 7) 0x00403123 ?i wit_pmm = Some (err, used, pmm')"
    using m by (cases "pmm_set_page (\<lambda>pmm. pmm) (Some 7) 0x00403123 ?i wit_pmm") auto
  have e: "err = 0" using m unfolding p option.case prod.case by (cases "err = 0") simp_all
  have g: "\<forall>w. pmm_get_page pmm' w = (if drop_bit 12 w = drop_bit 12 (0x00403123 :: uint_t)
           then Some (0, ?i) else pmm_get_page wit_pmm w)"
    using m unfolding p option.case prod.case if_P [OF e] pmm_page_info_s.simps by (rule conjunct2)
  show ?thesis using p e g [rule_format, of "0x00403FFF"] g [rule_format, of "0x00404000"] v by auto
qed

section \<open>The release of an address space\<close>

definition pde_page :: "uint_t \<Rightarrow> ppn_t" where
  "pde_page val = (if val AND PMM_HUGE \<noteq> 0 then val AND MMU_PPN_MASK else push_bit 9 (val AND MMU_PDE_PPN_MASK))"

lemma release_loop_eq:
  "i + n \<le> length dir \<Longrightarrow> pmm_release_loop n i dir =
     (take i dir @ map (\<lambda>v. if v AND PMM_PRESENT \<noteq> 0 then 0 else v) (take n (drop i dir)) @ drop (i + n) dir,
      map pde_page (filter (\<lambda>v. v AND PMM_PRESENT \<noteq> 0) (take n (drop i dir))))"
proof (induction n arbitrary: i dir)
  case 0
  then show ?case by simp
next
  case (Suc n)
  then have d: "drop i dir = dir ! i # drop (i + 1) dir" using Cons_nth_drop_Suc [of i dir] by simp
  have t: "take (i + 1) dir = take i dir @ [dir ! i]" using Suc.prems take_Suc_conv_app_nth [of i dir] by simp
  have u: "take (i + 1) (dir[i := 0]) = take i dir @ [0]" using Suc.prems take_Suc_conv_app_nth [of i "dir[i := 0]"] by simp
  show ?case
  proof (cases "dir ! i AND PMM_PRESENT = 0")
    case True
    then show ?thesis using Suc.IH [of "i + 1" dir] Suc.prems t by (simp add: d)
  next
    case False
    then have nz: "dir ! i \<noteq> 0" by auto
    show ?thesis using Suc.IH [of "i + 1" "dir[i := 0]"] Suc.prems u False nz by (simp add: d pde_page_def Let_def)
  qed
qed

text \<open>Everything below the kernel is unmapped, the kernel part stays, and each table of the lower half is freed once.\<close>

theorem pmm_release_correct:
  assumes "pmm_small pmm"
  shows "case pmm_release pmm of (err, pmm', freed) \<Rightarrow> err = 0 \<and> pmm_small pmm' \<and>
     (\<forall>v. pte_at pmm' v = (if unat v < 0x80000000 then (0, 0) else pte_at pmm v)) \<and>
     distinct freed \<and> set freed = pmm_tables pmm - pmm_tables pmm'"
proof -
  let ?P = "\<lambda>v::uint_t. v AND PMM_PRESENT \<noteq> 0"
  let ?U = "take 1024 (pgdir pmm)"
  have len: "length (pgdir pmm) = 2048" and ok: "pmm_ok pmm" and sm: "\<And>i. i < 1024 \<Longrightarrow> pgdir pmm ! i = 0 \<or> is_table (pgdir pmm ! i)"
    using assms by (simp_all add: pmm_small_def pmm_ok_def)
  define dir where "dir = map (\<lambda>v. if ?P v then 0 else v) ?U @ drop 1024 (pgdir pmm)"
  have r: "pmm_release_loop 1024 0 (pgdir pmm) = (dir, map pde_page (filter ?P ?U))"
    using release_loop_eq [of 0 1024 "pgdir pmm"] len by (simp add: dir_def)
  have d: "dir ! i = (if i < 1024 then 0 else pgdir pmm ! i)" if "i < 2048" for i
    using that sm [of i] len by (auto simp: dir_def nth_append is_table_def)
  have dl: "length dir = 2048" by (simp add: dir_def len)
  let ?q = "pmm\<lparr>pgdir := dir\<rparr>"
  have z: "\<not> is_table 0" by (simp add: is_table_def)
  have "pmm_small ?q" using assms z by (auto simp: pmm_small_def pmm_ok_def d dl)
  moreover have "pte_at ?q v = (if unat v < 0x80000000 then (0, 0) else pte_at pmm v)" for v
  proof -
    have "MMU_PDE v < 1024 \<longleftrightarrow> unat v < 0x80000000" using user_addr_pde [of v] by (simp add: user_addr_def)
    then show ?thesis using z unfolding pte_at_def Let_def by (cases "MMU_PDE v < 1024") (simp_all add: d)
  qed
  moreover have F: "map pde_page (filter ?P ?U) = map (\<lambda>i. pgdir pmm ! i AND MMU_PPN_MASK) (filter (\<lambda>i. is_table (pgdir pmm ! i)) [0..<1024])"
  proof -
    have u: "?U = map ((!) (pgdir pmm)) [0..<1024]" using len by (intro nth_equalityI) simp_all
    have "?P (pgdir pmm ! i) \<longleftrightarrow> is_table (pgdir pmm ! i)" if "i < 1024" for i using sm [of i] that by (auto simp: is_table_def)
    then have f: "filter (\<lambda>i. ?P (pgdir pmm ! i)) [0..<1024] = filter (\<lambda>i. is_table (pgdir pmm ! i)) [0..<1024]" by (intro filter_cong) auto
    have p: "pde_page v = v AND MMU_PPN_MASK" if "is_table v" for v using that by (simp add: pde_page_def is_table_def)
    show ?thesis unfolding u filter_map comp_def map_map f using p by (intro map_cong) simp_all
  qed
  moreover have "distinct (map (\<lambda>i. pgdir pmm ! i AND MMU_PPN_MASK) (filter (\<lambda>i. is_table (pgdir pmm ! i)) [0..<1024]))"
  proof -
    have "inj_on (\<lambda>i. pgdir pmm ! i AND MMU_PPN_MASK) {i. i < 2048 \<and> is_table (pgdir pmm ! i)}"
      using ok unfolding inj_on_def pmm_ok_def by blast
    then show ?thesis unfolding distinct_map by (auto elim: inj_on_subset)
  qed
  moreover have "set (map (\<lambda>i. pgdir pmm ! i AND MMU_PPN_MASK) (filter (\<lambda>i. is_table (pgdir pmm ! i)) [0..<1024])) = pmm_tables pmm - pmm_tables ?q" (is "?L = _")
  proof -
    let ?f = "\<lambda>i. pgdir pmm ! i AND MMU_PPN_MASK"
    let ?T = "\<lambda>i. is_table (pgdir pmm ! i)"
    have inj: "inj_on ?f {i. i < 2048 \<and> ?T i}" using ok unfolding inj_on_def pmm_ok_def by blast
    have q: "{i. i < 2048 \<and> is_table (dir ! i)} = {i. i < 2048 \<and> ?T i} - {..<1024}" using d z by (auto split: if_splits)
    have "pmm_tables ?q = (\<lambda>i. dir ! i AND MMU_PPN_MASK) ` {i. i < 2048 \<and> is_table (dir ! i)}" by (auto simp: pmm_tables_def)
    also have "\<dots> = ?f ` ({i. i < 2048 \<and> ?T i} - {..<1024})" unfolding q using d by (intro image_cong) auto
    finally have tq: "pmm_tables ?q = ?f ` ({i. i < 2048 \<and> ?T i} - {..<1024})" .
    have t: "pmm_tables pmm = ?f ` {i. i < 2048 \<and> ?T i}" by (auto simp: pmm_tables_def)
    have "pmm_tables pmm - pmm_tables ?q = ?f ` ({i. i < 2048 \<and> ?T i} - ({i. i < 2048 \<and> ?T i} - {..<1024}))"
      unfolding t tq by (rule inj_on_image_set_diff [OF inj, symmetric]) auto
    also have "{i. i < 2048 \<and> ?T i} - ({i. i < 2048 \<and> ?T i} - {..<1024}) = {i. i < 1024 \<and> ?T i}" by auto
    finally have fin: "pmm_tables pmm - pmm_tables ?q = ?f ` {i. i < 1024 \<and> ?T i}" .
    have "{x \<in> set [0..<1024]. ?T x} = {i. i < 1024 \<and> ?T i}" by auto
    then show ?thesis unfolding fin set_map set_filter by simp
  qed
  ultimately show ?thesis unfolding pmm_release_def r by simp
qed

text \<open>\<^verbatim>\<open>pmm_region_map\<close> maps the pages of a region in order, one new page each, and touches no other entry. When memory
  runs out it returns \<^verbatim>\<open>ENOMEM\<close> after some number \<open>j\<close> of pages, and these stay mapped: the call of
  \<^verbatim>\<open>pmm_region_unmap\<close> on this path does nothing.\<close>

theorem pmm_region_map_correct:
  assumes "pmm_small pmm" and "fresh_supply pmm mem 0 n" and "n \<le> 2 ^ 20" and "user_range v n"
    and "pi_attr info AND PMM_HUGE = 0" and "pi_attr info AND PMM_CLEAR = 0" and "pi_ppn info \<noteq> 0"
  shows "\<exists>err pmm' j. pmm_region_map mem v n info pmm = Some (err, pmm') \<and> pmm_small pmm' \<and> j \<le> n \<and>
     (if j = n then err = 0 else err = ENOMEM \<and> (fst (mem j) = None \<or> snd (mem j) = None)) \<and>
     (\<forall>k<j. \<exists>p. fst (mem k) = Some p \<and> pte_at pmm' (v + of_nat k * 0x1000) = (pi_attr info, p)) \<and>
     (\<forall>w. (\<forall>k<j. drop_bit 12 w \<noteq> drop_bit 12 (v + of_nat k * 0x1000)) \<longrightarrow> pte_at pmm' w = pte_at pmm w)"
proof -
  have f: "fresh_supply pmm mem 0 (0 + n)" using assms(2) by simp
  show ?thesis unfolding pmm_region_map_def if_not_P [OF assms(7)]
    using region_map_loop_ok [OF assms(1) f assms(5,6,3,4)] unfolding add_0_left .
qed

theorem pmm_region_map_correct_witness:
  "\<exists>pmm'. pmm_region_map (\<lambda>k. if k < 2 then (Some (of_nat k + 20), Some (of_nat k + 7)) else (None, None)) 0x00403000 3
     \<lparr>pi_attr = PMM_PRESENT, pi_ppn = 1, pi_isAtomic = False\<rparr> wit_pmm = Some (ENOMEM, pmm') \<and> pte_at pmm' 0x00404000 = (PMM_PRESENT, 21)"
proof -
  let ?mem = "\<lambda>k. if k < (2::nat) then (Some (of_nat k + 20), Some (of_nat k + 7)) else (None, None) :: ppn_t option \<times> ppn_t option"
  let ?i = "\<lparr>pi_attr = PMM_PRESENT, pi_ppn = 1, pi_isAtomic = False\<rparr>"
  have z: "\<not> is_table 0" by (simp add: is_table_def)
  have a: "pmm_small wit_pmm" by (simp add: pmm_small_def pmm_ok_def wit_pmm_def z)
  have t: "pmm_tables wit_pmm = {}" by (simp add: pmm_tables_def wit_pmm_def z)
  have k: "k < (2::nat) \<longleftrightarrow> k = 0 \<or> k = 1" for k by auto
  have ur: "(\<forall>k<(3::nat). P k) \<longleftrightarrow> P 0 \<and> P 1 \<and> P 2" for P by (auto simp: numeral_3_eq_3 All_less_Suc numeral_2_eq_2)
  have b: "fresh_supply wit_pmm ?mem 0 3" by (auto simp: fresh_supply_def t k)
  have c: "(3::nat) \<le> 2 ^ 20" "user_range 0x00403000 3" "pi_attr ?i AND PMM_HUGE = 0" "pi_attr ?i AND PMM_CLEAR = 0" "pi_ppn ?i \<noteq> 0"
    by (simp_all add: user_range_def ur user_addr_def)
  from pmm_region_map_correct [OF a b c] obtain err pmm' j where
    r: "pmm_region_map ?mem 0x00403000 3 ?i wit_pmm = Some (err, pmm')" "j \<le> 3"
      "if j = 3 then err = 0 else err = ENOMEM \<and> (fst (?mem j) = None \<or> snd (?mem j) = None)"
      "\<forall>k<j. \<exists>p. fst (?mem k) = Some p \<and> pte_at pmm' (0x00403000 + of_nat k * 0x1000) = (pi_attr ?i, p)"
    by (elim exE conjE) (rule that)
  have j: "j = 2"
  proof -
    have "\<not> 2 < j" using r(4) [rule_format, of 2] by auto
    moreover have "\<not> j < 2" using r(3) by (auto split: if_splits)
    ultimately show ?thesis by simp
  qed
  have "err = ENOMEM" using r(3) j by simp
  moreover have "pte_at pmm' 0x00404000 = (PMM_PRESENT, 21)" using r(4) [rule_format, of 1] j by simp
  ultimately show ?thesis using r(1) by blast
qed

end
