(* ===== verification/VmRegion.thy ===== *)
theory VmRegion
  imports RBTree KeysDB Pmm
begin

text \<open>
  Virtual memory regions (\<^verbatim>\<open>kernel/mm/vm_region.c\<close>, \<^verbatim>\<open>vm_region.h\<close>) and the operations of the virtual memory manager
  that add, remove and find them (\<^verbatim>\<open>kernel/mm/vmm.c\<close>). The regions of a task are in a list and in a
  red-black tree, and in a table of keys by the upper 16 bits of the address. Region descriptors are known by
  their addresses; \<open>regs\<close> is the memory that holds them. \<open>None\<close> as a result stands for an access outside the structures.

  Attribute bits are those of the \<^verbatim>\<open>tsar\<close> port (\<^verbatim>\<open>arch/tsar/arch-pmm.h\<close>, \<^verbatim>\<open>arch-config.h\<close>).
\<close>

abbreviation ENOSYS :: error_t where "ENOSYS \<equiv> 38"

abbreviation VM_REG_SHARED :: uint_t where "VM_REG_SHARED \<equiv> 0x0001"
abbreviation VM_REG_ANON :: uint_t where "VM_REG_ANON \<equiv> 0x0004"
abbreviation VM_REG_HUGETLB :: uint_t where "VM_REG_HUGETLB \<equiv> 0x0020"
abbreviation VM_REG_FIXED :: uint_t where "VM_REG_FIXED \<equiv> 0x0040"
abbreviation VM_REG_LAZY :: uint_t where "VM_REG_LAZY \<equiv> 0x0200"
abbreviation VM_REG_INIT :: uint_t where "VM_REG_INIT \<equiv> 0x0400"
abbreviation VM_REG_HEAP :: uint_t where "VM_REG_HEAP \<equiv> 0x0800"

abbreviation VM_REG_NON :: uint_t where "VM_REG_NON \<equiv> 0"
abbreviation VM_REG_RD :: uint_t where "VM_REG_RD \<equiv> 0x01"
abbreviation VM_REG_WR :: uint_t where "VM_REG_WR \<equiv> 0x02"
abbreviation VM_REG_EX :: uint_t where "VM_REG_EX \<equiv> 0x04"

abbreviation CONFIG_VM_REGION_KEYWIDTH :: nat where "CONFIG_VM_REGION_KEYWIDTH \<equiv> 16"
abbreviation CONFIG_TASK_HEAP_MAX_SIZE :: uint_t where "CONFIG_TASK_HEAP_MAX_SIZE \<equiv> 0x30000000"
abbreviation CONFIG_USR_LIMIT :: uint_t where "CONFIG_USR_LIMIT \<equiv> 0x70000000"

record vm_region_s =
  vm_begin :: uint_t
  vm_end :: uint_t
  vm_start :: uint_t
  vm_limit :: uint_t
  vm_prot :: uint_t
  vm_pgprot :: uint_t
  vm_flags :: uint_t
  vm_offset :: uint_t
  vm_mapper :: "nat option"
  vm_file :: "nat option"

record vmm_s =
  regions_root :: "nat list"
  regions_tree :: "nat rb"
  regs :: "nat \<Rightarrow> vm_region_s"
  regions_db :: "nat keysdb_s"
  last_region :: "nat option"
  last_mmap :: uint_t
  heap_region :: "nat option"
  heap_current :: uint_t

definition vm_region_init :: "uint_t \<Rightarrow> uint_t \<Rightarrow> uint_t \<Rightarrow> uint_t \<Rightarrow> uint_t \<Rightarrow> vm_region_s" where
  "vm_region_init vma_start vma_end prot offset flags =
     (let regsize = 2 ^ CONFIG_VM_REGION_KEYWIDTH;
          pgprot = PMM_USER OR PMM_CACHED OR PMM_ACCESSED OR PMM_DIRTY;
          (prot, pgprot) = (if prot AND VM_REG_WR \<noteq> 0 then (prot OR VM_REG_RD, pgprot OR PMM_WRITE) else (prot, pgprot));
          pgprot = (if prot AND VM_REG_RD \<noteq> 0 then pgprot OR PMM_READ else pgprot);
          pgprot = (if prot AND VM_REG_EX \<noteq> 0 then pgprot OR PMM_EXECUTE else pgprot);
          pgprot = (if prot \<noteq> VM_REG_NON then pgprot OR PMM_PRESENT else pgprot);
          pgprot = (if flags AND VM_REG_HUGETLB \<noteq> 0 then pgprot OR PMM_HUGE else pgprot)
      in \<lparr>vm_begin = ARROUND_DOWN vma_start regsize,
          vm_end = (if flags AND VM_REG_HEAP \<noteq> 0 then ARROUND_UP CONFIG_TASK_HEAP_MAX_SIZE regsize else ARROUND_UP vma_end regsize),
          vm_start = vma_start, vm_limit = vma_end, vm_prot = prot, vm_pgprot = pgprot, vm_flags = flags, vm_offset = offset,
          vm_mapper = None, vm_file = None\<rparr>)"

section \<open>Finding a region\<close>

definition vm_region_find_list :: "vmm_s \<Rightarrow> uint_t \<Rightarrow> nat option \<times> vmm_s" where
  "vm_region_find_list vmm vaddr =
     (case List.find (\<lambda>r. vaddr < vm_end (regs vmm r)) (regions_root vmm) of
        Some r \<Rightarrow> (Some r, vmm\<lparr>last_region := Some r\<rparr>)
      | None \<Rightarrow> (None, vmm))"

fun find_loop :: "(nat \<Rightarrow> vm_region_s) \<Rightarrow> uint_t \<Rightarrow> nat rb \<Rightarrow> nat option \<Rightarrow> nat option" where
  "find_loop R vaddr Null reg = reg"
| "find_loop R vaddr (Node c l p r) reg =
     (if vaddr < vm_end (R p)
      then if vm_begin (R p) \<le> vaddr then Some p else find_loop R vaddr l (Some p)
      else find_loop R vaddr r reg)"

definition vm_region_find :: "vmm_s \<Rightarrow> uint_t \<Rightarrow> nat option" where
  "vm_region_find vmm vaddr = find_loop (regs vmm) vaddr (regions_tree vmm) None"

text \<open>\<^verbatim>\<open>vm_region_find_prepare\<close>: the region, its predecessor, and the link, as the subtree that hangs there
  (\<open>Null\<close> for an empty link) with its path.\<close>

fun find_prepare_loop ::
  "(nat \<Rightarrow> vm_region_s) \<Rightarrow> uint_t \<Rightarrow> nat rb \<Rightarrow> nat rb_path \<Rightarrow> nat option \<Rightarrow> nat option \<Rightarrow>
   nat option \<times> nat option \<times> nat rb \<times> nat rb_path" where
  "find_prepare_loop R addr Null path vma prev = (vma, prev, Null, path)"
| "find_prepare_loop R addr (Node c l p r) path vma prev =
     (if vm_end (R p) > addr
      then if vm_begin (R p) \<le> addr then (Some p, prev, Node c l p r, path)
           else find_prepare_loop R addr l (InLeft c p r # path) (Some p) prev
      else find_prepare_loop R addr r (InRight c l p # path) vma (Some p))"

definition vm_region_find_prepare :: "vmm_s \<Rightarrow> uint_t \<Rightarrow> nat option \<times> nat option \<times> nat rb \<times> nat rb_path" where
  "vm_region_find_prepare vmm addr = find_prepare_loop (regs vmm) addr (regions_tree vmm) [] None None"

text \<open>\<^verbatim>\<open>__vma_link_rb\<close>. Linking at a link that is not empty would cut off what hangs there.\<close>

definition vma_link_rb :: "nat \<Rightarrow> nat rb \<times> nat rb_path \<Rightarrow> vmm_s \<Rightarrow> vmm_s option" where
  "vma_link_rb vma link vmm =
     (if fst link \<noteq> Null then None
      else case rb_insert_at vma (snd link) of None \<Rightarrow> None | Some t \<Rightarrow> Some (vmm\<lparr>regions_tree := t\<rparr>))"

section \<open>Adding and removing regions\<close>

text \<open>\<^verbatim>\<open>list_add_pred\<close> and \<^verbatim>\<open>list_add_next\<close> on the list of regions.\<close>

fun add_pred :: "'a \<Rightarrow> 'a \<Rightarrow> 'a list \<Rightarrow> 'a list" where
  "add_pred x y [] = []"
| "add_pred x y (z # zs) = (if z = x then y # z # zs else z # add_pred x y zs)"

fun add_next :: "'a \<Rightarrow> 'a \<Rightarrow> 'a list \<Rightarrow> 'a list" where
  "add_next x y [] = []"
| "add_next x y (z # zs) = (if z = x then z # y # zs else z # add_next x y zs)"

partial_function (option) solve_loop ::
  "vmm_s \<Rightarrow> uint_t \<Rightarrow> uint_t \<Rightarrow> uint_t \<Rightarrow> (uint_t \<times> (nat option \<times> nat rb \<times> nat rb_path) option) option" where
  "solve_loop vmm sz limit start =
     (if start \<le> limit
      then let (reg, prev, link) = vm_region_find_prepare vmm start
           in (case reg of
                 None \<Rightarrow> Some (start, Some (reg, link))
               | Some r \<Rightarrow>
                   if start + sz < vm_begin (regs vmm r) then Some (start, Some (reg, link))
                   else solve_loop vmm sz limit (vm_end (regs vmm r)))
      else Some (start, None))"

definition vm_region_solve :: "nat \<Rightarrow> vmm_s \<Rightarrow> (error_t \<times> vmm_s) option" where
  "vm_region_solve region vmm =
     (let sz = vm_end (regs vmm region);
          limit = CONFIG_USR_LIMIT - sz
      in case solve_loop vmm sz limit (last_mmap vmm) of
           None \<Rightarrow> None
         | Some (start, None) \<Rightarrow> Some (ENOMEM, vmm)
         | Some (start, Some (reg, link)) \<Rightarrow>
             let r = regs vmm region;
                 r = r\<lparr>vm_begin := start, vm_start := start, vm_limit := vm_limit r + start, vm_end := start + sz\<rparr>;
                 vmm = vmm\<lparr>regs := (regs vmm)(region := r)\<rparr>
             in (case vma_link_rb region link vmm of
                   None \<Rightarrow> None
                 | Some vmm \<Rightarrow>
                     let root = (case reg of
                           None \<Rightarrow> regions_root vmm @ [region]
                         | Some q \<Rightarrow> if start < vm_begin (regs vmm q) then add_pred q region (regions_root vmm)
                                    else add_next q region (regions_root vmm))
                     in Some (0, vmm\<lparr>regions_root := root\<rparr>)))"

definition vm_region_attach_rbtree :: "nat \<Rightarrow> vmm_s \<Rightarrow> (error_t \<times> vmm_s) option" where
  "vm_region_attach_rbtree region vmm =
     (if vm_flags (regs vmm region) AND VM_REG_FIXED \<noteq> 0
      then let (reg, prev, link) = vm_region_find_prepare vmm (vm_begin (regs vmm region))
           in if reg \<noteq> None \<and> vm_begin (regs vmm (the reg)) \<le> vm_begin (regs vmm region) then Some (EEXIST, vmm)
              else let root = (case reg of None \<Rightarrow> regions_root vmm @ [region] | Some q \<Rightarrow> add_pred q region (regions_root vmm))
                   in (case vma_link_rb region link vmm of
                         None \<Rightarrow> None
                       | Some vmm \<Rightarrow> Some (0, vmm\<lparr>regions_root := root\<rparr>))
      else vm_region_solve region vmm)"

definition vm_region_attach :: "nat \<Rightarrow> vmm_s \<Rightarrow> (error_t \<times> vmm_s) option" where
  "vm_region_attach region vmm =
     (case vm_region_attach_rbtree region vmm of
        None \<Rightarrow> None
      | Some (err, vmm) \<Rightarrow> if err \<noteq> 0 then Some (err, vmm) else Some (0, vmm\<lparr>last_mmap := vm_begin (regs vmm region)\<rparr>))"

text \<open>\<^verbatim>\<open>vm_region_detach\<close> up to the release of the lock: the region leaves the list, the tree and the table of keys.\<close>

definition detach_unlink :: "nat \<Rightarrow> nat rb \<Rightarrow> vmm_s \<Rightarrow> vmm_s" where
  "detach_unlink region t vmm =
     (let r = regs vmm region;
          vmm = vmm\<lparr>regions_root := remove1 region (regions_root vmm), regions_tree := t\<rparr>;
          vmm = (if last_region vmm = Some region then vmm\<lparr>last_region := None\<rparr> else vmm)
      in if vm_end r < last_mmap vmm then vmm\<lparr>last_mmap := vm_begin r\<rparr> else vmm)"

definition vm_region_detach :: "nat \<Rightarrow> vmm_s \<Rightarrow> vmm_s option" where
  "vm_region_detach region vmm =
     (case rb_locate region (regions_tree vmm) [] of
        None \<Rightarrow> None
      | Some (node, path) \<Rightarrow>
          (case rb_erase node path of
             None \<Rightarrow> None
           | Some t \<Rightarrow>
               let r = regs vmm region; vmm = detach_unlink region t vmm
               in if vm_flags r AND VM_REG_LAZY \<noteq> 0 then Some vmm
                  else
                    let regsize = vm_end r - vm_begin r; key_start = drop_bit CONFIG_VM_REGION_KEYWIDTH (vm_begin r)
                    in (case keysdb_unbind key_start (unat (drop_bit CONFIG_VM_REGION_KEYWIDTH regsize)) (regions_db vmm) of
                          None \<Rightarrow> None
                        | Some (_, db) \<Rightarrow> Some (vmm\<lparr>regions_db := db\<rparr>))))"

section \<open>Sorted regions\<close>

definition regs_sorted :: "(nat \<Rightarrow> vm_region_s) \<Rightarrow> nat list \<Rightarrow> bool" where
  "regs_sorted R xs \<longleftrightarrow> sorted_wrt (\<lambda>x y. vm_end (R x) \<le> vm_begin (R y)) xs \<and> (\<forall>x\<in>set xs. vm_begin (R x) < vm_end (R x))"

text \<open>The list and the tree hold the same regions in ascending order, disjoint and not empty.\<close>

definition vmm_inv :: "vmm_s \<Rightarrow> bool" where
  "vmm_inv vmm \<longleftrightarrow> rb_ok (regions_tree vmm) \<and> rb_inorder (regions_tree vmm) = regions_root vmm \<and> regs_sorted (regs vmm) (regions_root vmm)"

abbreviation above :: "(nat \<Rightarrow> vm_region_s) \<Rightarrow> uint_t \<Rightarrow> nat \<Rightarrow> bool" where
  "above R addr r \<equiv> addr < vm_end (R r)"

lemma regs_sorted_append:
  "regs_sorted R (xs @ ys) \<longleftrightarrow> regs_sorted R xs \<and> regs_sorted R ys \<and> (\<forall>x\<in>set xs. \<forall>y\<in>set ys. vm_end (R x) \<le> vm_begin (R y))"
  by (auto simp: regs_sorted_def sorted_wrt_append)

lemma regs_sorted_Cons:
  "regs_sorted R (x # ys) \<longleftrightarrow> regs_sorted R ys \<and> vm_begin (R x) < vm_end (R x) \<and> (\<forall>y\<in>set ys. vm_end (R x) \<le> vm_begin (R y))"
  by (auto simp: regs_sorted_def)

lemma regs_sorted_Nil [simp]: "regs_sorted R []"
  by (simp add: regs_sorted_def)

lemma regs_sorted_distinct: "regs_sorted R xs \<Longrightarrow> distinct xs"
  by (induction xs) (fastforce simp: regs_sorted_Cons)+

lemma regs_sorted_cong: "(\<And>x. x \<in> set xs \<Longrightarrow> vm_begin (R x) = vm_begin (R' x) \<and> vm_end (R x) = vm_end (R' x)) \<Longrightarrow> regs_sorted R xs = regs_sorted R' xs"
  by (induction xs) (simp_all add: regs_sorted_Cons)

lemma find_append: "List.find P (xs @ ys) = (case List.find P xs of None \<Rightarrow> List.find P ys | Some x \<Rightarrow> Some x)"
  by (induction xs) auto

lemma find_none_if: "(\<And>x. x \<in> set xs \<Longrightarrow> \<not> P x) \<Longrightarrow> List.find P xs = None"
  by (auto simp: find_None_iff)

text \<open>All regions before one that is above an address, when this one begins at or below it, are not above.\<close>

lemma sorted_split_below:
  assumes "regs_sorted R (xs @ p # ys)"
  shows "vm_begin (R p) \<le> addr \<Longrightarrow> x \<in> set xs \<Longrightarrow> \<not> above R addr x"
    and "\<not> above R addr p \<Longrightarrow> x \<in> set xs \<Longrightarrow> \<not> above R addr x"
    and "above R addr p \<Longrightarrow> x \<in> set ys \<Longrightarrow> above R addr x"
proof -
  have l: "x \<in> set xs \<Longrightarrow> vm_end (R x) \<le> vm_begin (R p)" "vm_begin (R p) < vm_end (R p)"
    and r: "x \<in> set ys \<Longrightarrow> vm_end (R p) \<le> vm_begin (R x) \<and> vm_begin (R x) < vm_end (R x)"
    using assms by (simp_all add: regs_sorted_append regs_sorted_Cons) (simp add: regs_sorted_def)
  show "\<not> above R addr x" if "vm_begin (R p) \<le> addr" "x \<in> set xs" using l(1) [OF that(2)] that(1) by simp
  show "\<not> above R addr x" if "\<not> above R addr p" "x \<in> set xs" using l(1) [OF that(2)] l(2) that(1) by simp
  show "above R addr x" if "above R addr p" "x \<in> set ys" using r [OF that(2)] that(1) by (meson less_le_trans order_less_trans)
qed

lemma find_loop_eq:
  "regs_sorted R (rb_inorder t) \<Longrightarrow>
   find_loop R v t reg = (case List.find (above R v) (rb_inorder t) of Some r \<Rightarrow> Some r | None \<Rightarrow> reg)"
proof (induction t arbitrary: reg)
  case (Node c l p r)
  have s: "regs_sorted R (rb_inorder l)" "regs_sorted R (rb_inorder r)" using Node.prems by (auto simp: regs_sorted_append regs_sorted_Cons)
  have b: "vm_begin (R p) \<le> v \<Longrightarrow> List.find (above R v) (rb_inorder l) = None" "\<not> above R v p \<Longrightarrow> List.find (above R v) (rb_inorder l) = None"
    using sorted_split_below(1,2) Node.prems by (auto intro!: find_none_if)
  show ?case using Node.IH(1) [OF s(1)] Node.IH(2) [OF s(2)] b by (auto simp: find_append split: option.splits)
qed simp

lemma find_prepare_eq:
  assumes "regs_sorted R (before path @ rb_inorder t @ behind path)"
    and "find_prepare_loop R addr t path vma prev = (vma', prev', sub, path')"
  shows "vma' = (case List.find (above R addr) (rb_inorder t) of Some r \<Rightarrow> Some r | None \<Rightarrow> vma) \<and> plug sub path' = plug t path \<and>
     (if sub = Null
      then before path' = before path @ filter (\<lambda>r. \<not> above R addr r) (rb_inorder t) \<and> behind path' = filter (above R addr) (rb_inorder t) @ behind path
      else \<exists>r. vma' = Some r \<and> vm_begin (R r) \<le> addr \<and> above R addr r)"
  using assms
proof (induction R addr t path vma prev rule: find_prepare_loop.induct)
  case (2 R addr c l p r path vma prev)
  have s: "regs_sorted R (rb_inorder l @ p # rb_inorder r)" using 2(3) by (auto simp: regs_sorted_append regs_sorted_Cons)
  have sl: "regs_sorted R (before (InLeft c p r # path) @ rb_inorder l @ behind (InLeft c p r # path))"
    and sr: "regs_sorted R (before (InRight c l p # path) @ rb_inorder r @ behind (InRight c l p # path))"
    using 2(3) by simp_all
  note below = sorted_split_below [OF s]
  consider (hit) "above R addr p" "vm_begin (R p) \<le> addr" | (left) "above R addr p" "\<not> vm_begin (R p) \<le> addr" | (right) "\<not> above R addr p" by blast
  then show ?case
  proof cases
    case hit
    then have "List.find (above R addr) (rb_inorder l) = None" using below(1) by (auto intro!: find_none_if)
    then show ?thesis using hit 2(4) by (auto simp: find_append)
  next
    case left
    have "filter (above R addr) (rb_inorder r) = rb_inorder r" "filter (\<lambda>r. \<not> above R addr r) (rb_inorder r) = []"
      using below(3) left(1) by (auto simp: filter_empty_conv intro!: filter_True)
    then show ?thesis using 2(1) [OF left sl] 2(4) left by (auto simp: find_append split: option.splits if_splits)
  next
    case right
    have "filter (above R addr) (rb_inorder l) = []" "filter (\<lambda>r. \<not> above R addr r) (rb_inorder l) = rb_inorder l"
      using below(2) right by (auto simp: filter_empty_conv intro!: filter_True)
    moreover have "List.find (above R addr) (rb_inorder l) = None" using below(2) right by (auto intro!: find_none_if)
    ultimately show ?thesis using 2(2) [OF right sr] 2(4) right by (auto simp: find_append split: option.splits if_splits)
  qed
qed (auto split: option.splits)

lemma sorted_filter: "regs_sorted R xs \<Longrightarrow> filter (\<lambda>r. \<not> above R addr r) xs @ filter (above R addr) xs = xs"
proof (induction xs)
  case (Cons x xs)
  show ?case
  proof (cases "above R addr x")
    case True
    then have "above R addr y" if "y \<in> set xs" for y using sorted_split_below(3) [of R "[]" x xs addr y] Cons.prems that by simp
    then have "filter (\<lambda>r. \<not> above R addr r) xs = []" "filter (above R addr) xs = xs"
      by (auto simp: filter_empty_conv intro!: filter_True)
    then show ?thesis using True by simp
  next
    case False
    then show ?thesis using Cons by (simp add: regs_sorted_Cons)
  qed
qed simp

lemma find_filter: "List.find P xs = (case filter P xs of [] \<Rightarrow> None | y # ys \<Rightarrow> Some y)"
  by (induction xs) auto

lemma add_pred_split: "q \<notin> set as \<Longrightarrow> add_pred q x (as @ q # bs) = as @ x # q # bs"
  by (induction as) auto

text \<open>Adding a region behind those that are not above an address.\<close>

definition ins_at :: "(nat \<Rightarrow> vm_region_s) \<Rightarrow> uint_t \<Rightarrow> nat \<Rightarrow> nat list \<Rightarrow> nat list" where
  "ins_at R addr x xs = filter (\<lambda>r. \<not> above R addr r) xs @ x # filter (above R addr) xs"

lemma set_ins_at [simp]: "set (ins_at R addr x xs) = insert x (set xs)"
  by (auto simp: ins_at_def)

lemma remove1_ins_at: "regs_sorted R xs \<Longrightarrow> x \<notin> set xs \<Longrightarrow> remove1 x (ins_at R addr x xs) = xs"
  using sorted_filter [of R xs addr] by (simp add: ins_at_def remove1_append)

lemma list_ins_at:
  assumes "regs_sorted R xs"
  shows "(case List.find (above R addr) xs of None \<Rightarrow> xs @ [x] | Some q \<Rightarrow> add_pred q x xs) = ins_at R addr x xs"
proof (cases "filter (above R addr) xs")
  case Nil
  then show ?thesis using sorted_filter [OF assms, of addr] by (simp add: find_filter ins_at_def)
next
  case (Cons q qs)
  have q: "q \<notin> set (filter (\<lambda>r. \<not> above R addr r) xs)" using Cons by (auto dest: filter_eq_ConsD)
  have "xs = filter (\<lambda>r. \<not> above R addr r) xs @ q # qs" using sorted_filter [OF assms, of addr] Cons by simp
  then have "add_pred q x xs = filter (\<lambda>r. \<not> above R addr r) xs @ x # q # qs" using add_pred_split [OF q] by metis
  then show ?thesis using Cons by (simp add: find_filter ins_at_def)
qed

lemma vmm_inv_find:
  assumes "vmm_inv vmm" and "vm_region_find_prepare vmm addr = (reg, prev, sub, path)"
  shows "reg = List.find (above (regs vmm) addr) (regions_root vmm)" and "plug sub path = regions_tree vmm"
    and "sub = Null \<Longrightarrow> before path = filter (\<lambda>r. \<not> above (regs vmm) addr r) (regions_root vmm) \<and> behind path = filter (above (regs vmm) addr) (regions_root vmm)"
    and "sub \<noteq> Null \<Longrightarrow> \<exists>r. reg = Some r \<and> vm_begin (regs vmm r) \<le> addr"
  using find_prepare_eq [of "regs vmm" "[]" "regions_tree vmm" addr None None reg prev sub path] assms
  by (auto simp: vmm_inv_def vm_region_find_prepare_def split: option.splits if_splits)

lemma vma_link_ok:
  assumes "vmm_inv vmm" and "vm_region_find_prepare vmm addr = (reg, prev, sub, path)" and "sub = Null"
    and "regions_tree vmm' = regions_tree vmm"
  shows "\<exists>t. vma_link_rb x (sub, path) vmm' = Some (vmm'\<lparr>regions_tree := t\<rparr>) \<and> rb_ok t \<and> rb_inorder t = ins_at (regs vmm) addr x (regions_root vmm)"
proof -
  have "rb_ok (plug Null path)" using vmm_inv_find(2) [OF assms(1,2)] assms(1,3) by (simp add: vmm_inv_def)
  then have "path_ok (bheight (Node RB_RED Null x Null)) path" using plug_ok_inv(1) [of Null path] by simp
  from rb_insert_color_ok [OF this] obtain t where "rb_insert_at x path = Some t" "rb_ok t" "rb_inorder t = before path @ x # behind path"
    by (auto simp: rb_insert_at_def)
  then show ?thesis using vmm_inv_find(3) [OF assms(1-3)] assms(3) by (intro exI [of _ t]) (simp add: vma_link_rb_def ins_at_def)
qed

text \<open>The new list is sorted exactly when the new region ends before the first that is above its beginning.\<close>

lemma ins_at_sorted:
  assumes "regs_sorted R xs" and "vm_begin (R x) = addr" and "addr < vm_end (R x)"
    and "\<forall>r\<in>set xs. vm_end (R r) \<le> addr \<or> vm_end (R x) \<le> vm_begin (R r)"
  shows "regs_sorted R (ins_at R addr x xs)"
proof -
  have "regs_sorted R (filter (\<lambda>r. \<not> above R addr r) xs @ filter (above R addr) xs)" using assms(1) sorted_filter by metis
  then show ?thesis using assms(2-4) by (auto simp: ins_at_def regs_sorted_append regs_sorted_Cons not_less)
qed

lemma ins_at_overlap:
  assumes "regs_sorted R (ins_at R addr x xs)" and "vm_begin (R x) = addr" and "r \<in> set xs"
  shows "vm_end (R r) \<le> addr \<or> vm_end (R x) \<le> vm_begin (R r)"
  using assms by (auto simp: ins_at_def regs_sorted_append regs_sorted_Cons not_less)

lemma ins_at_cong:
  "(\<And>r. r \<in> set xs \<Longrightarrow> vm_end (R r) = vm_end (R' r)) \<Longrightarrow> ins_at R addr x xs = ins_at R' addr x xs"
  by (auto simp: ins_at_def cong: filter_cong)

section \<open>Placing a region\<close>

text \<open>An address where a region of \<open>sz\<close> bytes is not placed: it lies in another region or too close below one.\<close>

definition blocked :: "vmm_s \<Rightarrow> uint_t \<Rightarrow> uint_t \<Rightarrow> bool" where
  "blocked vmm sz a \<longleftrightarrow> (\<exists>r\<in>set (regions_root vmm). a < vm_end (regs vmm r) \<and> \<not> a + sz < vm_begin (regs vmm r))"

lemma unat_add_no_wrap: "unat (a::uint_t) + unat b < 2 ^ 32 \<Longrightarrow> unat (a + b) = unat a + unat b"
  by (simp add: unat_word_ariths)

lemma word_add_mono_no_wrap:
  assumes "(a::uint_t) \<le> b" and "unat b + unat c < 2 ^ 32"
  shows "a + c \<le> b + c"
proof -
  have "unat a \<le> unat b" using assms(1) by (simp add: word_le_nat_alt)
  then show ?thesis using unat_add_no_wrap [of a c] unat_add_no_wrap [of b c] assms(2) by (simp add: word_le_nat_alt)
qed

lemma solve_loop_ok:
  assumes inv: "vmm_inv vmm" and lim: "unat limit + unat sz < 2 ^ 32"
  shows "\<exists>start' res. solve_loop vmm sz limit start = Some (start', res) \<and> start \<le> start' \<and>
     (\<forall>a. start \<le> a \<and> a \<le> limit \<and> (a < start' \<or> res = None) \<longrightarrow> blocked vmm sz a) \<and>
     (case res of None \<Rightarrow> True
      | Some (reg, link) \<Rightarrow> start' \<le> limit \<and> (\<exists>prev. vm_region_find_prepare vmm start' = (reg, prev, link)) \<and>
          (\<forall>q. reg = Some q \<longrightarrow> start' + sz < vm_begin (regs vmm q)))"
proof (induction "2 ^ 32 - unat start" arbitrary: start rule: less_induct)
  case less
  obtain reg prev sub path where fp: "vm_region_find_prepare vmm start = (reg, prev, sub, path)" by (metis prod_cases4)
  note reg = vmm_inv_find(1) [OF inv fp]
  show ?case
  proof (cases "start \<le> limit")
    case False
    then have "solve_loop vmm sz limit start = Some (start, None)" by (simp add: solve_loop.simps)
    then show ?thesis using False by auto
  next
    case True
    show ?thesis
    proof (cases "\<exists>q. reg = Some q \<and> \<not> start + sz < vm_begin (regs vmm q)")
      case False
      then have "solve_loop vmm sz limit start = Some (start, Some (reg, sub, path))"
        using True fp by (subst solve_loop.simps) (auto split: option.splits)
      then show ?thesis using True fp False by (intro exI [of _ start] exI [of _ "Some (reg, sub, path)"]) auto
    next
      case go: True
      then obtain q where q: "reg = Some q" "\<not> start + sz < vm_begin (regs vmm q)" by blast
      then have m: "q \<in> set (regions_root vmm)" "start < vm_end (regs vmm q)" using reg by (auto simp: find_Some_iff)
      define start1 where "start1 = vm_end (regs vmm q)"
      have "unat start < unat start1" using m(2) by (simp add: start1_def word_less_nat_alt)
      then have dec: "2 ^ 32 - unat start1 < 2 ^ 32 - unat start" using unat_lt_32 [of start] by linarith
      obtain start' res where IH: "solve_loop vmm sz limit start1 = Some (start', res)" "start1 \<le> start'"
        "\<forall>a. start1 \<le> a \<and> a \<le> limit \<and> (a < start' \<or> res = None) \<longrightarrow> blocked vmm sz a"
        "case res of None \<Rightarrow> True | Some (reg, link) \<Rightarrow> start' \<le> limit \<and> (\<exists>prev. vm_region_find_prepare vmm start' = (reg, prev, link)) \<and>
          (\<forall>q. reg = Some q \<longrightarrow> start' + sz < vm_begin (regs vmm q))" using less(1) [OF dec] by (elim exE conjE)
      have e: "solve_loop vmm sz limit start = Some (start', res)"
        using True fp q IH(1) by (subst solve_loop.simps) (simp add: start1_def)
      have b: "blocked vmm sz a" if "start \<le> a" "a \<le> limit" "a < start1" for a
      proof -
        have "unat a + unat sz < 2 ^ 32" using that(2) lim by (simp add: word_le_nat_alt)
        then have "start + sz \<le> a + sz" using word_add_mono_no_wrap that(1) by blast
        then have "\<not> a + sz < vm_begin (regs vmm q)" using q(2) by (meson leD le_less_linear less_le_trans not_le order_trans)
        then show ?thesis using m(1) that(3) by (auto simp: blocked_def start1_def)
      qed
      have "start \<le> start'" using m(2) IH(2) by (simp add: start1_def)
      moreover have "\<forall>a. start \<le> a \<and> a \<le> limit \<and> (a < start' \<or> res = None) \<longrightarrow> blocked vmm sz a"
      proof (intro allI impI)
        fix a assume "start \<le> a \<and> a \<le> limit \<and> (a < start' \<or> res = None)"
        then show "blocked vmm sz a" using b [of a] IH(3) by (cases "a < start1") (auto simp: not_less)
      qed
      ultimately show ?thesis using e IH(4) by blast
    qed
  qed
qed

lemma find_above_bound:
  assumes "regs_sorted R xs" and "r \<in> set xs" and "above R addr r" and "List.find (above R addr) xs = Some q"
  shows "vm_begin (R q) \<le> vm_begin (R r)"
proof -
  from assms(4) obtain qs where q: "filter (above R addr) xs = q # qs" by (auto simp: find_filter split: list.splits)
  have "regs_sorted R (filter (\<lambda>r. \<not> above R addr r) xs @ q # qs)" using sorted_filter [OF assms(1), of addr] assms(1) q by simp
  moreover have "r \<in> set (q # qs)" using assms(2,3) q [symmetric] by simp
  ultimately show ?thesis by (auto simp: regs_sorted_append regs_sorted_Cons)
qed

lemma vm_region_solve_ok:
  fixes vmm region
  defines "sz \<equiv> vm_end (regs vmm region)"
  assumes inv: "vmm_inv vmm" and new: "region \<notin> set (regions_root vmm)" and sz: "0 < sz" "sz \<le> CONFIG_USR_LIMIT"
  shows "\<exists>e vmm'. vm_region_solve region vmm = Some (e, vmm') \<and>
    (if e = 0
     then \<exists>start t. vmm' = vmm\<lparr>regs := (regs vmm)(region := (regs vmm region)\<lparr>vm_begin := start, vm_start := start,
            vm_limit := vm_limit (regs vmm region) + start, vm_end := start + sz\<rparr>),
            regions_tree := t, regions_root := ins_at (regs vmm) start region (regions_root vmm)\<rparr> \<and> vmm_inv vmm' \<and>
          last_mmap vmm \<le> start \<and> unat (start + sz) = unat start + unat sz \<and> start + sz \<le> CONFIG_USR_LIMIT \<and>
          (\<forall>a. last_mmap vmm \<le> a \<and> a < start \<longrightarrow> blocked vmm sz a)
     else e = ENOMEM \<and> vmm' = vmm \<and> (\<forall>a. last_mmap vmm \<le> a \<and> a \<le> CONFIG_USR_LIMIT - sz \<longrightarrow> blocked vmm sz a))"
proof -
  define limit where "limit = CONFIG_USR_LIMIT - sz"
  have ul: "unat limit = 0x70000000 - unat sz" using sz(2) by (simp add: limit_def unat_sub word_le_nat_alt)
  have lim: "unat limit + unat sz < 2 ^ 32" using ul sz(2) by (simp add: word_le_nat_alt)
  from solve_loop_ok [OF inv lim, of "last_mmap vmm"] obtain start res where
    L: "solve_loop vmm sz limit (last_mmap vmm) = Some (start, res)" "last_mmap vmm \<le> start"
      "\<forall>a. last_mmap vmm \<le> a \<and> a \<le> limit \<and> (a < start \<or> res = None) \<longrightarrow> blocked vmm sz a"
      "case res of None \<Rightarrow> True | Some (reg, link) \<Rightarrow> start \<le> limit \<and> (\<exists>prev. vm_region_find_prepare vmm start = (reg, prev, link)) \<and>
          (\<forall>q. reg = Some q \<longrightarrow> start + sz < vm_begin (regs vmm q))" by (elim exE conjE)
  show ?thesis
  proof (cases res)
    case None
    then have "vm_region_solve region vmm = Some (ENOMEM, vmm)"
      using L(1) by (simp add: vm_region_solve_def limit_def sz_def)
    then show ?thesis using L(3) None by (simp add: limit_def)
  next
    case (Some rl)
    obtain reg sub path where rl: "rl = (reg, sub, path)" by (cases rl) auto
    then obtain prev where P: "start \<le> limit" "vm_region_find_prepare vmm start = (reg, prev, sub, path)"
      "\<And>q. reg = Some q \<Longrightarrow> start + sz < vm_begin (regs vmm q)" using L(4) Some by auto
    have ss: "unat start + unat sz \<le> 0x70000000" using P(1) ul sz(2) by (simp add: word_le_nat_alt)
    then have us: "unat (start + sz) = unat start + unat sz" by (simp add: unat_add_no_wrap)
    have lt: "start < start + sz" using us sz(1) by (simp add: word_less_nat_alt)
    have le: "start \<le> start + sz" using lt by simp
    have gap: "start < vm_begin (regs vmm q)" if "reg = Some q" for q using P(3) [OF that] lt by simp
    have sub: "sub = Null" using vmm_inv_find(4) [OF inv P(2)] gap by force
    define r where "r = (regs vmm region)\<lparr>vm_begin := start, vm_start := start, vm_limit := vm_limit (regs vmm region) + start, vm_end := start + sz\<rparr>"
    define vmm1 where "vmm1 = vmm\<lparr>regs := (regs vmm)(region := r)\<rparr>"
    have t1: "regions_tree vmm1 = regions_tree vmm" by (simp add: vmm1_def)
    from vma_link_ok [OF inv P(2) sub t1, of region] obtain t where t: "vma_link_rb region (sub, path) vmm1 = Some (vmm1\<lparr>regions_tree := t\<rparr>)"
        "rb_ok t" "rb_inorder t = ins_at (regs vmm) start region (regions_root vmm)" by blast
    have srt: "regs_sorted (regs vmm) (regions_root vmm)" using inv by (simp add: vmm_inv_def)
    note reg = vmm_inv_find(1) [OF inv P(2)]
    have qin: "q \<in> set (regions_root vmm)" if "reg = Some q" for q using that reg by (auto simp: find_Some_iff)
    have same: "regs vmm1 x = regs vmm x" if "x \<in> set (regions_root vmm)" for x using that new by (auto simp: vmm1_def)
    have same1: "regions_root (vmm1\<lparr>regions_tree := t\<rparr>) = regions_root vmm" "regs (vmm1\<lparr>regions_tree := t\<rparr>) = regs vmm1"
      by (simp_all add: vmm1_def)
    have root: "(case reg of None \<Rightarrow> regions_root (vmm1\<lparr>regions_tree := t\<rparr>) @ [region]
        | Some q \<Rightarrow> if start < vm_begin (regs (vmm1\<lparr>regions_tree := t\<rparr>) q) then add_pred q region (regions_root (vmm1\<lparr>regions_tree := t\<rparr>))
                   else add_next q region (regions_root (vmm1\<lparr>regions_tree := t\<rparr>))) =
        ins_at (regs vmm) start region (regions_root vmm)"
      using list_ins_at [OF srt, where addr = start and x = region] reg [symmetric] gap same qin
      unfolding same1 by (auto split: option.splits)
    define vmm' where "vmm' = vmm1\<lparr>regions_tree := t, regions_root := ins_at (regs vmm) start region (regions_root vmm)\<rparr>"
    have "vm_region_solve region vmm = Some (0, vmm')"
      unfolding vm_region_solve_def Let_def sz_def [symmetric] limit_def [symmetric] L(1) Some rl
      by (simp add: r_def [symmetric] vmm1_def [symmetric] t(1) root vmm'_def)
    moreover have "regs_sorted (regs vmm1) (ins_at (regs vmm1) start region (regions_root vmm))"
    proof (rule ins_at_sorted)
      show "regs_sorted (regs vmm1) (regions_root vmm)" using srt regs_sorted_cong [of "regions_root vmm" "regs vmm1" "regs vmm"] same by simp
      show "vm_begin (regs vmm1 region) = start" "start < vm_end (regs vmm1 region)" using lt by (simp_all add: vmm1_def r_def)
      show "\<forall>q\<in>set (regions_root vmm). vm_end (regs vmm1 q) \<le> start \<or> vm_end (regs vmm1 region) \<le> vm_begin (regs vmm1 q)"
      proof
        fix q assume q: "q \<in> set (regions_root vmm)"
        show "vm_end (regs vmm1 q) \<le> start \<or> vm_end (regs vmm1 region) \<le> vm_begin (regs vmm1 q)"
        proof (cases "above (regs vmm) start q")
          case True
          then obtain p where p: "reg = Some p" using reg q by (cases reg) (auto simp: find_None_iff dest: sym)
          then have "vm_begin (regs vmm p) \<le> vm_begin (regs vmm q)" using find_above_bound [OF srt q True] reg by simp
          moreover have "start + sz < vm_begin (regs vmm p)" using P(3) p by simp
          ultimately have "start + sz \<le> vm_begin (regs vmm q)" by (meson less_imp_le order_trans)
          then show ?thesis unfolding same [OF q] by (simp add: vmm1_def r_def)
        next
          case False
          then show ?thesis using same [OF q] by (simp add: not_less)
        qed
      qed
    qed
    moreover have "ins_at (regs vmm1) start region (regions_root vmm) = ins_at (regs vmm) start region (regions_root vmm)"
      by (rule ins_at_cong) (simp add: same)
    ultimately have res: "vm_region_solve region vmm = Some (0, vmm')" "vmm_inv vmm'"
      using t(2,3) by (simp_all add: vmm_inv_def vmm'_def)
    have "start + sz \<le> CONFIG_USR_LIMIT" using ss us by (simp add: word_le_nat_alt)
    moreover have "\<forall>a. last_mmap vmm \<le> a \<and> a < start \<longrightarrow> blocked vmm sz a" using L(3) P(1) by auto
    ultimately show ?thesis using res L(2) us
      by (intro exI [of _ 0] exI [of _ vmm']) (auto simp: vmm'_def vmm1_def r_def)
  qed
qed

lemma vm_region_attach_fixed:
  fixes vmm region
  defines "b \<equiv> vm_begin (regs vmm region)"
  assumes inv: "vmm_inv vmm" and fx: "vm_flags (regs vmm region) AND VM_REG_FIXED \<noteq> 0"
  shows "\<exists>r\<in>set (regions_root vmm). vm_begin (regs vmm r) \<le> b \<and> b < vm_end (regs vmm r) \<Longrightarrow> vm_region_attach region vmm = Some (EEXIST, vmm)"
    and "\<not> (\<exists>r\<in>set (regions_root vmm). vm_begin (regs vmm r) \<le> b \<and> b < vm_end (regs vmm r)) \<Longrightarrow>
       \<exists>t. vm_region_attach region vmm = Some (0, vmm\<lparr>regions_tree := t, regions_root := ins_at (regs vmm) b region (regions_root vmm), last_mmap := b\<rparr>) \<and>
       rb_ok t \<and> rb_inorder t = ins_at (regs vmm) b region (regions_root vmm)"
proof -
  obtain reg prev sub path where fp: "vm_region_find_prepare vmm b = (reg, prev, sub, path)" by (metis prod_cases4)
  note reg = vmm_inv_find(1) [OF inv fp]
  have srt: "regs_sorted (regs vmm) (regions_root vmm)" using inv by (simp add: vmm_inv_def)
  have ex: "(\<exists>r\<in>set (regions_root vmm). vm_begin (regs vmm r) \<le> b \<and> b < vm_end (regs vmm r)) \<longleftrightarrow> (\<exists>q. reg = Some q \<and> vm_begin (regs vmm q) \<le> b)"
  proof
    assume "\<exists>r\<in>set (regions_root vmm). vm_begin (regs vmm r) \<le> b \<and> b < vm_end (regs vmm r)"
    then obtain r where r: "r \<in> set (regions_root vmm)" "vm_begin (regs vmm r) \<le> b" "b < vm_end (regs vmm r)" by blast
    then have "List.find (above (regs vmm) b) (regions_root vmm) \<noteq> None" by (auto simp: find_None_iff)
    then obtain q where q: "reg = Some q" unfolding reg by blast
    have "vm_begin (regs vmm q) \<le> vm_begin (regs vmm r)" by (rule find_above_bound [OF srt r(1,3)]) (use reg q in simp)
    then show "\<exists>q. reg = Some q \<and> vm_begin (regs vmm q) \<le> b" using q r(2) by auto
  next
    assume "\<exists>q. reg = Some q \<and> vm_begin (regs vmm q) \<le> b"
    then show "\<exists>r\<in>set (regions_root vmm). vm_begin (regs vmm r) \<le> b \<and> b < vm_end (regs vmm r)" 
      unfolding reg by (auto simp: find_Some_iff)
  qed
  show "vm_region_attach region vmm = Some (EEXIST, vmm)"
    if "\<exists>r\<in>set (regions_root vmm). vm_begin (regs vmm r) \<le> b \<and> b < vm_end (regs vmm r)"
  proof -
    from that have "\<exists>q. reg = Some q \<and> vm_begin (regs vmm q) \<le> b" unfolding ex .
    then show ?thesis using fx fp by (auto simp: vm_region_attach_def vm_region_attach_rbtree_def b_def)
  qed
  show "\<exists>t. vm_region_attach region vmm = Some (0, vmm\<lparr>regions_tree := t, regions_root := ins_at (regs vmm) b region (regions_root vmm), last_mmap := b\<rparr>) \<and>
       rb_ok t \<and> rb_inorder t = ins_at (regs vmm) b region (regions_root vmm)"
    if "\<not> (\<exists>r\<in>set (regions_root vmm). vm_begin (regs vmm r) \<le> b \<and> b < vm_end (regs vmm r))"
  proof -
    from that have False': "\<not> (\<exists>q. reg = Some q \<and> vm_begin (regs vmm q) \<le> b)" unfolding ex .
    then have sub: "sub = Null" using vmm_inv_find(4) [OF inv fp] by blast
    obtain t where t: "vma_link_rb region (sub, path) vmm = Some (vmm\<lparr>regions_tree := t\<rparr>)" "rb_ok t"
        "rb_inorder t = ins_at (regs vmm) b region (regions_root vmm)" using vma_link_ok [OF inv fp sub refl, of region] by blast
    have root: "(case reg of None \<Rightarrow> regions_root vmm @ [region] | Some q \<Rightarrow> add_pred q region (regions_root vmm)) = ins_at (regs vmm) b region (regions_root vmm)"
      using list_ins_at [OF srt, where addr = b and x = region] reg by simp
    have "\<not> (reg \<noteq> None \<and> vm_begin (regs vmm (the reg)) \<le> b)" using False' by auto
    then have "vm_region_attach_rbtree region vmm = Some (0, vmm\<lparr>regions_tree := t, regions_root := ins_at (regs vmm) b region (regions_root vmm)\<rparr>)"
      unfolding vm_region_attach_rbtree_def Let_def b_def [symmetric] fp using fx t(1) root by simp
    then have "vm_region_attach region vmm = Some (0, vmm\<lparr>regions_tree := t, regions_root := ins_at (regs vmm) b region (regions_root vmm), last_mmap := b\<rparr>)"
      by (simp add: vm_region_attach_def b_def)
    then show ?thesis using t(2,3) by auto
  qed
qed

text \<open>C33. Attaching a region. At a fixed address it fails with \<^verbatim>\<open>EEXIST\<close>, changing nothing, exactly when its beginning lies in
  another region; otherwise it is added at its place, and the regions are still disjoint exactly when it does not
  overlap the following region, which is not tested. Without a fixed address, for a size up to
  \<^verbatim>\<open>CONFIG_USR_LIMIT\<close>, the region is placed at the first free address from \<^verbatim>\<open>last_mmap\<close> on, below the limit and
  disjoint from all others, or \<^verbatim>\<open>ENOMEM\<close> is returned, changing nothing, when all these addresses are blocked. The search
  always ends, and tree and list stay in step.\<close>

theorem vm_region_attach_correct:
  fixes vmm :: vmm_s and region :: nat
  defines "b \<equiv> vm_begin (regs vmm region)" and "e \<equiv> vm_end (regs vmm region)"
  assumes inv: "vmm_inv vmm" and new: "region \<notin> set (regions_root vmm)" and ne: "0 < e" "b < e"
  shows "if vm_flags (regs vmm region) AND VM_REG_FIXED \<noteq> 0
     then (if \<exists>r\<in>set (regions_root vmm). vm_begin (regs vmm r) \<le> b \<and> b < vm_end (regs vmm r)
       then vm_region_attach region vmm = Some (EEXIST, vmm)
       else \<exists>vmm'. vm_region_attach region vmm = Some (0, vmm') \<and> regs vmm' = regs vmm \<and> rb_ok (regions_tree vmm') \<and>
         rb_inorder (regions_tree vmm') = regions_root vmm' \<and> remove1 region (regions_root vmm') = regions_root vmm \<and>
         (vmm_inv vmm' \<longleftrightarrow> (\<forall>r\<in>set (regions_root vmm). vm_end (regs vmm r) \<le> b \<or> e \<le> vm_begin (regs vmm r))))
     else e \<le> CONFIG_USR_LIMIT \<longrightarrow> (\<exists>err vmm'. vm_region_attach region vmm = Some (err, vmm') \<and>
       (if err = 0
        then vmm_inv vmm' \<and> set (regions_root vmm') = insert region (set (regions_root vmm)) \<and>
          (\<forall>r. r \<noteq> region \<longrightarrow> regs vmm' r = regs vmm r) \<and>
          (let r = regs vmm' region in last_mmap vmm \<le> vm_begin r \<and> unat (vm_end r) = unat (vm_begin r) + unat e \<and>
             vm_end r \<le> CONFIG_USR_LIMIT \<and> vm_start r = vm_begin r \<and> vm_limit r = vm_limit (regs vmm region) + vm_begin r \<and> last_mmap vmm' = vm_begin r \<and>
             (\<forall>a. last_mmap vmm \<le> a \<and> a < vm_begin r \<longrightarrow> blocked vmm e a))
        else err = ENOMEM \<and> vmm' = vmm \<and> (\<forall>a. last_mmap vmm \<le> a \<and> a \<le> CONFIG_USR_LIMIT - e \<longrightarrow> blocked vmm e a)))"
proof (cases "vm_flags (regs vmm region) AND VM_REG_FIXED \<noteq> 0")
  case True
  have srt: "regs_sorted (regs vmm) (regions_root vmm)" using inv by (simp add: vmm_inv_def)
  have "regs_sorted (regs vmm) (ins_at (regs vmm) b region (regions_root vmm)) \<longleftrightarrow>
      (\<forall>r\<in>set (regions_root vmm). vm_end (regs vmm r) \<le> b \<or> e \<le> vm_begin (regs vmm r))"
    using ins_at_sorted [OF srt, of region b] ins_at_overlap [of "regs vmm" b region] ne(2) unfolding b_def e_def by blast
  note ov = this
  show ?thesis
  proof (cases "\<exists>r\<in>set (regions_root vmm). vm_begin (regs vmm r) \<le> b \<and> b < vm_end (regs vmm r)")
    case hit: True
    then show ?thesis using vm_region_attach_fixed(1) [OF inv True] True unfolding b_def by simp
  next
    case False
    then obtain t where t: "vm_region_attach region vmm = Some (0, vmm\<lparr>regions_tree := t, regions_root := ins_at (regs vmm) b region (regions_root vmm), last_mmap := b\<rparr>)"
        "rb_ok t" "rb_inorder t = ins_at (regs vmm) b region (regions_root vmm)"
      using vm_region_attach_fixed(2) [OF inv True] unfolding b_def by blast
    let ?v = "vmm\<lparr>regions_tree := t, regions_root := ins_at (regs vmm) b region (regions_root vmm), last_mmap := b\<rparr>"
    have i: "vmm_inv ?v \<longleftrightarrow> (\<forall>r\<in>set (regions_root vmm). vm_end (regs vmm r) \<le> b \<or> e \<le> vm_begin (regs vmm r))"
      using ov t(2,3) by (simp add: vmm_inv_def)
    have "\<exists>vmm'. vm_region_attach region vmm = Some (0, vmm') \<and> regs vmm' = regs vmm \<and> rb_ok (regions_tree vmm') \<and>
         rb_inorder (regions_tree vmm') = regions_root vmm' \<and> remove1 region (regions_root vmm') = regions_root vmm \<and>
         (vmm_inv vmm' \<longleftrightarrow> (\<forall>r\<in>set (regions_root vmm). vm_end (regs vmm r) \<le> b \<or> e \<le> vm_begin (regs vmm r)))"
      using t i remove1_ins_at [OF srt new] by (intro exI [of _ ?v]) simp
    then show ?thesis using True by (simp only: if_not_P [OF False] if_P [OF True] not_False_eq_True if_True)
  qed
next
  case False
  show ?thesis
  proof (cases "e \<le> CONFIG_USR_LIMIT")
    case True
    from vm_region_solve_ok [OF inv new] ne(1) True obtain err vmm1 where s: "vm_region_solve region vmm = Some (err, vmm1)"
      "if err = 0
       then \<exists>start t. vmm1 = vmm\<lparr>regs := (regs vmm)(region := (regs vmm region)\<lparr>vm_begin := start, vm_start := start,
            vm_limit := vm_limit (regs vmm region) + start, vm_end := start + e\<rparr>),
            regions_tree := t, regions_root := ins_at (regs vmm) start region (regions_root vmm)\<rparr> \<and> vmm_inv vmm1 \<and>
          last_mmap vmm \<le> start \<and> unat (start + e) = unat start + unat e \<and> start + e \<le> CONFIG_USR_LIMIT \<and>
          (\<forall>a. last_mmap vmm \<le> a \<and> a < start \<longrightarrow> blocked vmm e a)
       else err = ENOMEM \<and> vmm1 = vmm \<and> (\<forall>a. last_mmap vmm \<le> a \<and> a \<le> CONFIG_USR_LIMIT - e \<longrightarrow> blocked vmm e a)"
      unfolding e_def by blast
    have a: "vm_region_attach region vmm = Some (err, if err \<noteq> 0 then vmm1 else vmm1\<lparr>last_mmap := vm_begin (regs vmm1 region)\<rparr>)"
      using s(1) False by (simp add: vm_region_attach_def vm_region_attach_rbtree_def)
    show ?thesis
    proof (cases "err = 0")
      case True
      with s(2) obtain start t where v: "vmm1 = vmm\<lparr>regs := (regs vmm)(region := (regs vmm region)\<lparr>vm_begin := start, vm_start := start,
            vm_limit := vm_limit (regs vmm region) + start, vm_end := start + e\<rparr>),
            regions_tree := t, regions_root := ins_at (regs vmm) start region (regions_root vmm)\<rparr>" "vmm_inv vmm1"
          "last_mmap vmm \<le> start" "unat (start + e) = unat start + unat e" "start + e \<le> CONFIG_USR_LIMIT"
          "\<forall>a. last_mmap vmm \<le> a \<and> a < start \<longrightarrow> blocked vmm e a" by auto
      have r: "regs vmm1 region = (regs vmm region)\<lparr>vm_begin := start, vm_start := start, vm_limit := vm_limit (regs vmm region) + start, vm_end := start + e\<rparr>"
          "\<forall>r. r \<noteq> region \<longrightarrow> regs vmm1 r = regs vmm r" "set (regions_root vmm1) = insert region (set (regions_root vmm))"
        by (simp_all add: v(1))
      have i: "vmm_inv (vmm1\<lparr>last_mmap := start\<rparr>)" using v(2) by (simp add: vmm_inv_def)
      have a0: "vm_region_attach region vmm = Some (0, vmm1\<lparr>last_mmap := start\<rparr>)" using a True r(1) by simp
      show ?thesis unfolding a0 using False True i r v(3-6) by (simp add: Let_def)
    next
      case err: False
      then show ?thesis using s(2) a False by auto
    qed
  next
    case big: False
    then show ?thesis using False by simp
  qed
qed

section \<open>Finding and detaching\<close>

lemma vm_region_find_eq: "vmm_inv vmm \<Longrightarrow> vm_region_find vmm vaddr = List.find (above (regs vmm) vaddr) (regions_root vmm)"
  using find_loop_eq [of "regs vmm" "regions_tree vmm" vaddr None]
  by (simp add: vm_region_find_def vmm_inv_def split: option.splits)

lemma vm_region_find_inside:
  assumes "vmm_inv vmm" "r \<in> set (regions_root vmm)" "vm_begin (regs vmm r) \<le> vaddr" "above (regs vmm) vaddr r"
  shows "vm_region_find vmm vaddr = Some r"
proof -
  have srt: "regs_sorted (regs vmm) (regions_root vmm)" using assms(1) by (simp add: vmm_inv_def)
  from assms(2) obtain xs ys where s: "regions_root vmm = xs @ r # ys" by (meson split_list)
  then have "List.find (above (regs vmm) vaddr) xs = None"
    using sorted_split_below(1) [of "regs vmm" xs r ys vaddr] srt assms(3) by (auto intro!: find_none_if)
  then show ?thesis using s assms(4) by (simp add: vm_region_find_eq [OF assms(1)] find_append)
qed

text \<open>C32. The search in the tree finds the same region as the search in the list, the first that ends above the
  address; this is the region that contains the address when there is one, and no other region contains it.\<close>

theorem vm_region_find_correct:
  assumes "vmm_inv vmm"
  shows "vm_region_find vmm vaddr = fst (vm_region_find_list vmm vaddr) \<and>
     (\<forall>r\<in>set (regions_root vmm). vm_begin (regs vmm r) \<le> vaddr \<and> vaddr < vm_end (regs vmm r) \<longrightarrow> vm_region_find vmm vaddr = Some r) \<and>
     (\<forall>r. vm_region_find vmm vaddr = Some r \<longrightarrow> r \<in> set (regions_root vmm) \<and> vaddr < vm_end (regs vmm r))"
proof -
  note f = vm_region_find_eq [OF assms]
  have "vm_region_find vmm vaddr = Some r" if r: "r \<in> set (regions_root vmm)" "vm_begin (regs vmm r) \<le> vaddr" "above (regs vmm) vaddr r" for r
    by (rule vm_region_find_inside [OF assms r])
  moreover have "vm_region_find vmm vaddr = fst (vm_region_find_list vmm vaddr)"
    by (simp add: f vm_region_find_list_def split: option.splits)
  moreover have "r \<in> set (regions_root vmm) \<and> above (regs vmm) vaddr r" if "vm_region_find vmm vaddr = Some r" for r
    using that by (auto simp: f find_Some_iff)
  ultimately show ?thesis by blast
qed

lemma regs_sorted_remove1: "regs_sorted R xs \<Longrightarrow> regs_sorted R (remove1 x xs)"
  by (induction xs) (auto simp: regs_sorted_Cons dest: notin_set_remove1)

abbreviation region_key :: "vm_region_s \<Rightarrow> nat" where
  "region_key r \<equiv> unat (vm_begin r) div 2 ^ 16"

abbreviation region_keys_nr :: "vm_region_s \<Rightarrow> nat" where
  "region_keys_nr r \<equiv> unat (vm_end r - vm_begin r) div 2 ^ 16"

lemma region_keys_bound: "vm_begin r \<le> vm_end r \<Longrightarrow> region_key r + region_keys_nr r \<le> 2 ^ 16"
proof -
  assume "vm_begin r \<le> vm_end r"
  then have "unat (vm_end r - vm_begin r) = unat (vm_end r) - unat (vm_begin r)" "unat (vm_begin r) \<le> unat (vm_end r)"
    by (simp_all add: unat_sub word_le_nat_alt)
  moreover have "a div c + (b - a) div c \<le> b div c" if "a \<le> b" for a b c :: nat
    using that div_add1_eq [of a "b - a" c] by simp
  ultimately have "region_key r + region_keys_nr r \<le> unat (vm_end r) div 2 ^ 16" by metis
  also have "\<dots> \<le> 2 ^ 16" using unat_lt_32 [of "vm_end r"] by (simp add: div_le_mono)
  finally show ?thesis .
qed

lemma vm_region_detach_ok:
  assumes inv: "vmm_inv vmm" and db: "kd_inv (regions_db vmm)" and r: "region \<in> set (regions_root vmm)"
  shows "\<exists>vmm'. vm_region_detach region vmm = Some vmm' \<and> vmm_inv vmm' \<and> regions_root vmm' = remove1 region (regions_root vmm) \<and>
     regs vmm' = regs vmm \<and> kd_inv (regions_db vmm') \<and> last_region vmm' \<noteq> Some region \<and>
     last_mmap vmm' = (if vm_end (regs vmm region) < last_mmap vmm then vm_begin (regs vmm region) else last_mmap vmm) \<and>
     kd_map (regions_db vmm') = (if vm_flags (regs vmm region) AND VM_REG_LAZY \<noteq> 0 then kd_map (regions_db vmm)
       else paint (region_key (regs vmm region)) (region_key (regs vmm region) + region_keys_nr (regs vmm region)) None (kd_map (regions_db vmm)))"
proof -
  let ?r = "regs vmm region"
  have srt: "regs_sorted (regs vmm) (regions_root vmm)" and t: "rb_ok (regions_tree vmm)" "rb_inorder (regions_tree vmm) = regions_root vmm"
    using inv by (simp_all add: vmm_inv_def)
  obtain u path t' where e: "rb_locate region (regions_tree vmm) [] = Some (u, path)" "rb_erase u path = Some t'" "rb_ok t'"
      "rb_inorder t' = remove1 region (regions_root vmm)"
    using rb_erase_located [OF t(1), of region] regs_sorted_distinct [OF srt] r t(2) by auto
  have "vm_begin ?r < vm_end ?r" using srt r by (simp add: regs_sorted_def)
  then have k: "region_key ?r + (0 + region_keys_nr ?r) \<le> 2 ^ 16" using region_keys_bound [of ?r] by simp
  obtain db' where u: "keysdb_unbind_loop (region_keys_nr ?r) 0 (drop_bit 16 (vm_begin ?r)) (regions_db vmm) = Some db'" "kd_inv db'"
      "kd_map db' = paint (region_key ?r) (region_key ?r + region_keys_nr ?r) None (kd_map (regions_db vmm))"
    using unbind_loop_ok [OF db, of "drop_bit 16 (vm_begin ?r)" 0 "region_keys_nr ?r"] k by (auto simp: unat_drop)
  define v3 where "v3 = detach_unlink region t' vmm"
  have s: "regions_root v3 = remove1 region (regions_root vmm)" "regions_tree v3 = t'" "regs v3 = regs vmm" "regions_db v3 = regions_db vmm"
    "last_region v3 \<noteq> Some region" "last_mmap v3 = (if vm_end ?r < last_mmap vmm then vm_begin ?r else last_mmap vmm)"
    by (simp_all add: v3_def detach_unlink_def Let_def)
  have d: "vm_region_detach region vmm = (if vm_flags ?r AND VM_REG_LAZY \<noteq> 0 then Some v3 else Some (v3\<lparr>regions_db := db'\<rparr>))"
    unfolding vm_region_detach_def e(1) using u(1) by (simp add: e(2) Let_def v3_def [symmetric] s keysdb_unbind_def unat_drop)
  have i: "vmm_inv v3" using e(3,4) regs_sorted_remove1 [OF srt] by (simp add: vmm_inv_def s)
  show ?thesis
  proof (cases "vm_flags ?r AND VM_REG_LAZY \<noteq> 0")
    case True
    then show ?thesis using d i s db by (intro exI [of _ v3]) simp
  next
    case False
    then show ?thesis using d i s u(2,3) by (intro exI [of _ "v3\<lparr>regions_db := db'\<rparr>"]) (simp add: vmm_inv_def)
  qed
qed

text \<open>Two regions, and a third of 64 KiB to attach.\<close>

definition wit_region :: "uint_t \<Rightarrow> uint_t \<Rightarrow> vm_region_s" where
  "wit_region s e = vm_region_init s e VM_REG_WR 0 VM_REG_ANON"

definition wit_vmm :: vmm_s where
  "wit_vmm = \<lparr>regions_root = [1, 2], regions_tree = Node RB_BLACK Null 1 (Node RB_RED Null 2 Null),
     regs = (\<lambda>r. if r = 1 then wit_region 0x10000 0x18000 else if r = 2 then wit_region 0x40000 0x50000 else wit_region 0 0x800),
     regions_db = demo_db, last_region = None, last_mmap = 0x10000, heap_region = None, heap_current = 0\<rparr>"

lemma wit_vmm_regs:
  "vm_begin (wit_region 0x10000 0x18000) = 0x10000" "vm_end (wit_region 0x10000 0x18000) = 0x20000"
  "vm_begin (wit_region 0x40000 0x50000) = 0x40000" "vm_end (wit_region 0x40000 0x50000) = 0x50000"
  "vm_begin (wit_region 0 0x800) = 0" "vm_end (wit_region 0 0x800) = 0x10000" "vm_flags (wit_region 0 0x800) AND VM_REG_FIXED = 0"
  by code_simp+

lemma wit_vmm_inv: "vmm_inv wit_vmm"
  by (simp add: vmm_inv_def wit_vmm_def rb_ok_def regs_sorted_def wit_vmm_regs)

theorem vm_region_find_correct_witness: "vm_region_find wit_vmm 0x12345 = Some 1 \<and> vm_region_find wit_vmm 0x4ffff = Some 2"
proof -
  note C = vm_region_find_correct [OF wit_vmm_inv]
  have "1 \<in> set (regions_root wit_vmm)" "2 \<in> set (regions_root wit_vmm)"
    "vm_begin (regs wit_vmm 1) \<le> 0x12345 \<and> 0x12345 < vm_end (regs wit_vmm 1)"
    "vm_begin (regs wit_vmm 2) \<le> 0x4ffff \<and> 0x4ffff < vm_end (regs wit_vmm 2)"
    by (simp_all add: wit_vmm_def wit_vmm_regs)
  then show ?thesis using C [of "0x12345"] C [of "0x4ffff"] by blast
qed

theorem vm_region_attach_correct_witness:
  "\<exists>vmm'. vm_region_attach 3 wit_vmm = Some (0, vmm') \<and> vmm_inv vmm' \<and> set (regions_root vmm') = {1, 2, 3} \<and>
     0x10000 \<le> vm_begin (regs vmm' 3) \<and> vm_end (regs vmm' 3) \<le> CONFIG_USR_LIMIT"
proof -
  have r: "regs wit_vmm 3 = wit_region 0 0x800" "regions_root wit_vmm = [1, 2]" "last_mmap wit_vmm = 0x10000"
    by (simp_all add: wit_vmm_def)
  have b: "\<not> blocked wit_vmm 0x10000 0x20000" by (simp add: blocked_def wit_vmm_def wit_vmm_regs)
  have new: "3 \<notin> set (regions_root wit_vmm)" by (simp add: r)
  have pos: "0 < vm_end (regs wit_vmm 3)" "vm_begin (regs wit_vmm 3) < vm_end (regs wit_vmm 3)" by (simp_all add: r wit_vmm_regs)
  note C = vm_region_attach_correct [OF wit_vmm_inv new pos]
  have nf: "\<not> vm_flags (regs wit_vmm 3) AND VM_REG_FIXED \<noteq> 0" and sz: "vm_end (regs wit_vmm 3) \<le> CONFIG_USR_LIMIT" "vm_end (regs wit_vmm 3) = 0x10000"
    by (simp_all add: r wit_vmm_regs)
  from C [unfolded if_not_P [OF nf], rule_format, OF sz(1)] obtain err vmm' where a: "vm_region_attach 3 wit_vmm = Some (err, vmm')"
    and v: "if err = 0
        then vmm_inv vmm' \<and> set (regions_root vmm') = insert 3 (set (regions_root wit_vmm)) \<and>
          (\<forall>r. r \<noteq> 3 \<longrightarrow> regs vmm' r = regs wit_vmm r) \<and>
          (let r = regs vmm' 3 in last_mmap wit_vmm \<le> vm_begin r \<and> unat (vm_end r) = unat (vm_begin r) + unat (vm_end (regs wit_vmm 3)) \<and>
             vm_end r \<le> CONFIG_USR_LIMIT \<and> vm_start r = vm_begin r \<and> vm_limit r = vm_limit (regs wit_vmm 3) + vm_begin r \<and> last_mmap vmm' = vm_begin r \<and>
             (\<forall>a. last_mmap wit_vmm \<le> a \<and> a < vm_begin r \<longrightarrow> blocked wit_vmm (vm_end (regs wit_vmm 3)) a))
        else err = ENOMEM \<and> vmm' = wit_vmm \<and>
          (\<forall>a. last_mmap wit_vmm \<le> a \<and> a \<le> CONFIG_USR_LIMIT - vm_end (regs wit_vmm 3) \<longrightarrow> blocked wit_vmm (vm_end (regs wit_vmm 3)) a)" by blast
  have "err = 0"
  proof (rule ccontr)
    assume "err \<noteq> 0"
    then have "\<forall>a. last_mmap wit_vmm \<le> a \<and> a \<le> CONFIG_USR_LIMIT - 0x10000 \<longrightarrow> blocked wit_vmm 0x10000 a" using v sz(2) by simp
    then show False using b r(3) by (auto dest: spec [of _ "0x20000"])
  qed
  then show ?thesis using a v r by (intro exI [of _ vmm']) (auto simp: Let_def)
qed

end
