(* ===== verification/VmPage.thy ===== *)
theory VmPage
  imports VmRegion Page
begin

text \<open>
  What the virtual memory manager does to single pages (\<^verbatim>\<open>kernel/mm/vmm.c\<close>, \<^verbatim>\<open>vm_region.c\<close>): allocation on demand, copy on
  write, migration, the sharing of pages by \<^verbatim>\<open>fork\<close>, and their release. The state holds the page tables of all address
  spaces, the descriptors and the contents of the page frames, and the set of free frames; a page is known by its page number,
  for \<^verbatim>\<open>ppm_page2ppn\<close> and \<^verbatim>\<open>ppm_ppn2page\<close> are inverse. What \<^verbatim>\<open>kmem_alloc\<close> returns is an argument: \<open>alloc\<close> for a page,
  \<open>tbl\<close> for a page table, and so is the page that \<^verbatim>\<open>mapper_get_page\<close> finds. Each function is the section it runs under the lock of the
  page, so that one call is one step; statistics are left out.
\<close>

record 'c vm_sys =
  spaces :: "pmm_s list"
  pages :: "ppn_t \<Rightarrow> page_s"
  content :: "ppn_t \<Rightarrow> 'c"
  free_pages :: "ppn_t set"

abbreviation EIO :: error_t where "EIO \<equiv> 5"
abbreviation VM_REG_INST :: uint_t where "VM_REG_INST \<equiv> 0x1000"

definition upd_page :: "ppn_t \<Rightarrow> (page_s \<Rightarrow> page_s) \<Rightarrow> 'c vm_sys \<Rightarrow> 'c vm_sys" where
  "upd_page p f s = s\<lparr>pages := (pages s)(p := f (pages s p))\<rparr>"

text \<open>The page requests of \<^verbatim>\<open>kmem_alloc\<close> and \<^verbatim>\<open>kmem_free\<close>: \<^verbatim>\<open>ppm_do_alloc_pages\<close> raises the count of the block, and
  \<^verbatim>\<open>ppm_free_pages\<close> gives it back with the last reference.\<close>

definition kmem_alloc_page :: "ppn_t option \<Rightarrow> 'c vm_sys \<Rightarrow> 'c vm_sys" where
  "kmem_alloc_page alloc s =
     (case alloc of
        None \<Rightarrow> s
      | Some p \<Rightarrow> (upd_page p (\<lambda>page. snd (page_refcount_up page)) s)\<lparr>free_pages := free_pages s - {p}\<rparr>)"

definition ppm_free_page :: "ppn_t \<Rightarrow> 'c vm_sys \<Rightarrow> 'c vm_sys" where
  "ppm_free_page p s =
     (let (order, page) = page_refcount_down (pages s p); s = upd_page p (\<lambda>_. page) s
      in if order > 1 then s else s\<lparr>free_pages := insert p (free_pages s)\<rparr>)"

definition page_copy :: "ppn_t \<Rightarrow> ppn_t \<Rightarrow> 'c vm_sys \<Rightarrow> 'c vm_sys" where
  "page_copy dst src s = s\<lparr>content := (content s)(dst := content s src)\<rparr>"

definition page_zero :: "ppn_t \<Rightarrow> 'c::zero vm_sys \<Rightarrow> 'c vm_sys" where
  "page_zero p s = s\<lparr>content := (content s)(p := 0)\<rparr>"

text \<open>The operations of the page table of one address space, with the accounting of the page of a new table.\<close>

definition set_page ::
  "ppn_t option \<Rightarrow> nat \<Rightarrow> uint_t \<Rightarrow> uint_t \<Rightarrow> ppn_t \<Rightarrow> 'c vm_sys \<Rightarrow> (error_t \<times> 'c vm_sys) option" where
  "set_page tbl i vaddr attr ppn s =
     (case pmm_set_page (\<lambda>pmm. pmm) tbl vaddr \<lparr>pi_attr = attr, pi_ppn = ppn, pi_isAtomic = False\<rparr> (spaces s ! i) of
        None \<Rightarrow> None
      | Some (err, used, pmm) \<Rightarrow>
          Some (err, (if used then kmem_alloc_page tbl s else s)\<lparr>spaces := (spaces s)[i := pmm]\<rparr>))"

definition get_page :: "nat \<Rightarrow> uint_t \<Rightarrow> 'c vm_sys \<Rightarrow> (error_t \<times> pmm_page_info_s) option" where
  "get_page i vaddr s = pmm_get_page (spaces s ! i) vaddr"

section \<open>Copy on write\<close>

text \<open>\<open>page\<close> is the page that the fault handler read from the page table before it had the lock of the page; \<open>cid\<close> is the
  cluster of the processor.\<close>

definition vmm_do_cow ::
  "nat \<Rightarrow> ppn_t option \<Rightarrow> ppn_t option \<Rightarrow> nat \<Rightarrow> vm_region_s \<Rightarrow> ppn_t \<Rightarrow> uint_t \<Rightarrow> 'c vm_sys \<Rightarrow> (error_t \<times> 'c vm_sys) option" where
  "vmm_do_cow cid alloc tbl i region page vaddr s =
     (case get_page i vaddr s of
        None \<Rightarrow> None
      | Some (err, info) \<Rightarrow>
          if err \<noteq> 0 \<or> pi_attr info AND PMM_COW = 0 then Some (err, s)
          else
            let anon = (pg_mapper (pages s page) = NULL);
                count = pg_count (pages s page);
                isFreeable = (anon \<and> count = 1 \<and> pg_cid (pages s page) \<noteq> cid);
                reuse = (anon \<and> count = 1 \<and> pg_cid (pages s page) = cid);
                s = (if anon \<and> count \<noteq> 1 then upd_page page (\<lambda>page. snd (page_refcount_down page)) s else s);
                attr = (vm_pgprot region OR PMM_WRITE) AND NOT (PMM_COW OR PMM_MIGRATE)
            in if \<not> reuse \<and> alloc = None then Some (ENOMEM, if isFreeable then ppm_free_page page s else s)
               else
                 let newpage = (if reuse then page else the alloc);
                     s = (if reuse then s else page_copy newpage page (upd_page newpage (\<lambda>page. page\<lparr>pg_mapper := NULL\<rparr>) (kmem_alloc_page alloc s)))
                 in (case set_page tbl i vaddr attr newpage s of
                       None \<Rightarrow> None
                     | Some (err, s) \<Rightarrow> Some (err, if isFreeable then ppm_free_page page s else s)))"

section \<open>Allocation on demand\<close>

definition lock_page ::
  "ppn_t option \<Rightarrow> nat \<Rightarrow> uint_t \<Rightarrow> 'c vm_sys \<Rightarrow> (error_t \<times> pmm_page_info_s \<times> 'c vm_sys) option" where
  "lock_page tbl i vaddr s =
     (case pmm_lock_page (\<lambda>pmm. pmm) tbl vaddr (spaces s ! i) of
        None \<Rightarrow> None
      | Some (err, used, info, pmm) \<Rightarrow>
          Some (err, info, (if used then kmem_alloc_page tbl s else s)\<lparr>spaces := (spaces s)[i := pmm]\<rparr>))"

definition unlock_page :: "nat \<Rightarrow> uint_t \<Rightarrow> 'c vm_sys \<Rightarrow> 'c vm_sys option" where
  "unlock_page i vaddr s = map_option (\<lambda>(info, pmm). s\<lparr>spaces := (spaces s)[i := pmm]\<rparr>) (pmm_unlock_page vaddr (spaces s ! i))"

definition vmm_do_aod ::
  "ppn_t option \<Rightarrow> ppn_t option \<Rightarrow> nat \<Rightarrow> vm_region_s \<Rightarrow> uint_t \<Rightarrow> 'c::zero vm_sys \<Rightarrow> (error_t \<times> 'c vm_sys) option" where
  "vmm_do_aod alloc tbl i region vaddr s =
     (case lock_page tbl i vaddr s of
        None \<Rightarrow> None
      | Some (err, old, s) \<Rightarrow>
          if err \<noteq> 0 then Some (err, s)
          else if \<not> pi_isAtomic old then Some (0, s)
          else (case alloc of
                  None \<Rightarrow> map_option (\<lambda>s. (ENOMEM, s)) (unlock_page i vaddr s)
                | Some page \<Rightarrow>
                    let s = upd_page page (\<lambda>page. page\<lparr>pg_mapper := NULL\<rparr>) (page_zero page (kmem_alloc_page alloc s))
                    in (case set_page None i vaddr (vm_pgprot region) page s of
                          None \<Rightarrow> None
                        | Some (err, s) \<Rightarrow>
                            if err = 0 then Some (0, s)
                            else map_option (\<lambda>s. (err, ppm_free_page page s)) (unlock_page i vaddr s))))"

section \<open>Pages of a mapper\<close>

definition vmm_do_mapped ::
  "ppn_t option \<Rightarrow> ppn_t option \<Rightarrow> nat \<Rightarrow> vm_region_s \<Rightarrow> uint_t \<Rightarrow> 'c vm_sys \<Rightarrow> (error_t \<times> 'c vm_sys) option" where
  "vmm_do_mapped mpage tbl i region vaddr s =
     (case mpage of
        None \<Rightarrow> Some (if vm_file region = None then EIO else ENOMEM, s)
      | Some page \<Rightarrow>
          (case get_page i vaddr s of
             None \<Rightarrow> None
           | Some (err, current) \<Rightarrow>
               if err \<noteq> 0 then Some (err, s)
               else if pi_attr current = 0 then set_page tbl i vaddr (vm_pgprot region) page s
               else Some (0, s)))"

section \<open>Migration\<close>

definition vmm_do_migrate ::
  "nat \<Rightarrow> ppn_t option \<Rightarrow> ppn_t option \<Rightarrow> nat \<Rightarrow> vm_region_s \<Rightarrow> pmm_page_info_s \<Rightarrow> uint_t \<Rightarrow> 'c vm_sys \<Rightarrow> (error_t \<times> 'c vm_sys) option" where
  "vmm_do_migrate cid alloc tbl i region pinfo vaddr s =
     (let page = pi_ppn pinfo
      in case get_page i vaddr s of
           None \<Rightarrow> None
         | Some (err, current) \<Rightarrow>
             if err \<noteq> 0 then Some (err, s)
             else if pi_ppn current = pi_ppn pinfo \<and> pi_attr current AND PMM_MIGRATE \<noteq> 0
             then
               let newpage = (if cid \<noteq> pg_cid (pages s page) then alloc else None);
                   cow = (newpage \<noteq> None \<and> pi_attr current AND PMM_COW \<noteq> 0);
                   s = (case newpage of
                          None \<Rightarrow> s
                        | Some p \<Rightarrow> page_copy p page (upd_page p (\<lambda>page. page\<lparr>pg_mapper := NULL\<rparr>) (kmem_alloc_page alloc s)));
                   s = (if cow \<and> pg_mapper (pages s page) = NULL \<and> pg_count (pages s page) \<noteq> 1
                        then upd_page page (\<lambda>page. snd (page_refcount_down page)) s else s);
                   attr = (if cow then (pi_attr current OR PMM_WRITE) AND NOT PMM_COW else pi_attr current);
                   attr = (attr OR PMM_PRESENT) AND NOT PMM_MIGRATE;
                   ppn = (case newpage of None \<Rightarrow> pi_ppn current | Some p \<Rightarrow> p)
               in (case set_page tbl i vaddr attr ppn s of
                     None \<Rightarrow> None
                   | Some (err, s) \<Rightarrow>
                       Some (err, if newpage = None then s
                                  else if err \<noteq> 0 then ppm_free_page (the newpage) s
                                  else if vm_flags region AND VM_REG_INST = 0 then ppm_free_page page s else s))
             else Some (0, s))"

section \<open>The page fault of a region\<close>

abbreviation pmm_except_isWrite :: "uint_t \<Rightarrow> bool" where "pmm_except_isWrite flags \<equiv> flags AND 0x1000 = 0"
abbreviation pmm_except_isExecute :: "uint_t \<Rightarrow> bool" where "pmm_except_isExecute flags \<equiv> flags AND 0x0010 \<noteq> 0"
abbreviation pmm_except_isPresent :: "uint_t \<Rightarrow> bool" where "pmm_except_isPresent flags \<equiv> flags AND 0x0003 \<noteq> 0"
abbreviation pmm_except_isRights :: "uint_t \<Rightarrow> bool" where "pmm_except_isRights flags \<equiv> flags AND 0x0004 \<noteq> 0"

text \<open>\<open>env\<close> is what other threads do between the look at the page table and the lock of the page.\<close>

definition vmm_default_pagefault ::
  "('c vm_sys \<Rightarrow> 'c vm_sys) \<Rightarrow> nat \<Rightarrow> ppn_t option \<Rightarrow> ppn_t option \<Rightarrow> ppn_t option \<Rightarrow> nat \<Rightarrow> vm_region_s \<Rightarrow>
     uint_t \<Rightarrow> uint_t \<Rightarrow> 'c::zero vm_sys \<Rightarrow> (error_t \<times> 'c vm_sys) option" where
  "vmm_default_pagefault env cid alloc tbl mpage i region vaddr flags s =
     (case get_page i vaddr s of
        None \<Rightarrow> None
      | Some (err, info) \<Rightarrow>
          if err \<noteq> 0 then Some (err, s)
          else if pi_attr info \<noteq> 0 \<and> pi_ppn info \<noteq> 0
          then if pi_attr info AND PMM_COW \<noteq> 0 \<and> pmm_except_isWrite flags
               then vmm_do_cow cid alloc tbl i region (pi_ppn info) vaddr (env s)
               else if pi_attr info AND PMM_MIGRATE \<noteq> 0 then vmm_do_migrate cid alloc tbl i region info vaddr (env s)
               else if pi_attr info AND PMM_PRESENT \<noteq> 0 then Some (0, s)
               else Some (EPERM, s)
          else if vm_mapper region \<noteq> None then vmm_do_mapped mpage tbl i region vaddr (env s)
          else vmm_do_aod alloc tbl i region vaddr (env s))"

section \<open>The pages of a region\<close>

text \<open>\<^verbatim>\<open>vm_region_unmap\<close>: the loop over the pages.\<close>

fun region_unmap_loop :: "bool \<Rightarrow> nat \<Rightarrow> uint_t \<Rightarrow> nat \<Rightarrow> 'c vm_sys \<Rightarrow> 'c vm_sys option" where
  "region_unmap_loop isLazy i vaddr 0 s = Some s"
| "region_unmap_loop isLazy i vaddr (Suc count) s =
     (case get_page i vaddr s of
        None \<Rightarrow> None
      | Some (err, info) \<Rightarrow>
          if err \<noteq> 0 \<or> pi_attr info AND PMM_PRESENT = 0 then region_unmap_loop isLazy i (vaddr + 0x1000) count s
          else
            let page = pi_ppn info
            in (case (if isLazy then Some (0, s) else set_page None i vaddr 0 0 s) of
                  None \<Rightarrow> None
                | Some (_, s) \<Rightarrow>
                    let refcount = (if pg_mapper (pages s page) = NULL then pg_count (pages s page) else 0);
                        s = (if pg_mapper (pages s page) = NULL then upd_page page (\<lambda>page. snd (page_refcount_down page)) s else s);
                        s = (if refcount = 1 then ppm_free_page page (upd_page page (\<lambda>page. snd (page_refcount_up page)) s) else s)
                    in region_unmap_loop isLazy i (vaddr + 0x1000) count s))"

definition vm_region_unmap :: "nat \<Rightarrow> vm_region_s \<Rightarrow> 'c vm_sys \<Rightarrow> 'c vm_sys option" where
  "vm_region_unmap i region s =
     region_unmap_loop (vm_flags region AND VM_REG_LAZY \<noteq> 0) i (vm_start region) (unat (drop_bit 12 (vm_limit region - vm_start region))) s"

text \<open>The loop of \<^verbatim>\<open>vm_region_dup\<close> for private regions; \<open>tbl k\<close> is the page for a table in round \<open>k\<close>.\<close>

fun region_dup_loop ::
  "(nat \<Rightarrow> ppn_t option) \<Rightarrow> nat \<Rightarrow> nat \<Rightarrow> nat \<Rightarrow> uint_t \<Rightarrow> nat \<Rightarrow> 'c vm_sys \<Rightarrow> (error_t \<times> 'c vm_sys) option" where
  "region_dup_loop tbl k dst src vaddr 0 s = Some (0, s)"
| "region_dup_loop tbl k dst src vaddr (Suc count) s =
     (case get_page src vaddr s of
        None \<Rightarrow> None
      | Some (err, info) \<Rightarrow>
          if err \<noteq> 0 then Some (err, s)
          else if pi_attr info AND PMM_PRESENT = 0 then region_dup_loop tbl (k + 1) dst src (vaddr + 0x1000) count s
          else
            let page = pi_ppn info; attr = (pi_attr info OR PMM_COW) AND NOT PMM_WRITE
            in (case set_page (tbl k) dst vaddr attr page s of
                  None \<Rightarrow> None
                | Some (err, s) \<Rightarrow>
                    if err \<noteq> 0 then Some (err, s)
                    else if pg_mapper (pages s page) = NULL
                    then (case set_page None src vaddr attr page s of
                            None \<Rightarrow> None
                          | Some (err, s) \<Rightarrow>
                              if err \<noteq> 0 then Some (err, s)
                              else region_dup_loop tbl (k + 1) dst src (vaddr + 0x1000) count (upd_page page (\<lambda>page. snd (page_refcount_up page)) s))
                    else region_dup_loop tbl (k + 1) dst src (vaddr + 0x1000) count s))"

definition vm_region_dup_pages ::
  "(nat \<Rightarrow> ppn_t option) \<Rightarrow> nat \<Rightarrow> nat \<Rightarrow> vm_region_s \<Rightarrow> 'c vm_sys \<Rightarrow> (error_t \<times> 'c vm_sys) option" where
  "vm_region_dup_pages tbl dst src region s =
     (if vm_flags region AND VM_REG_SHARED \<noteq> 0 then Some (0, s)
      else region_dup_loop tbl 0 dst src (vm_start region) (unat (drop_bit 12 (vm_limit region - vm_start region))) s)"

text \<open>\<^verbatim>\<open>vmm_madvise_migrate\<close>: the loop over the pages; errors are ignored.\<close>

fun madvise_migrate_loop :: "nat \<Rightarrow> uint_t \<Rightarrow> nat \<Rightarrow> 'c vm_sys \<Rightarrow> 'c vm_sys option" where
  "madvise_migrate_loop i vaddr 0 s = Some s"
| "madvise_migrate_loop i vaddr (Suc count) s =
     (case get_page i vaddr s of
        None \<Rightarrow> None
      | Some (err, info) \<Rightarrow>
          if err = 0 \<and> pi_attr info AND PMM_PRESENT \<noteq> 0
          then (case set_page None i vaddr (pi_attr info AND NOT PMM_PRESENT OR PMM_MIGRATE) (pi_ppn info) s of
                  None \<Rightarrow> None
                | Some (_, s) \<Rightarrow> madvise_migrate_loop i (vaddr + 0x1000) count s)
          else madvise_migrate_loop i (vaddr + 0x1000) count s)"

definition vmm_madvise_migrate :: "nat \<Rightarrow> uint_t \<Rightarrow> uint_t \<Rightarrow> 'c vm_sys \<Rightarrow> (error_t \<times> 'c vm_sys) option" where
  "vmm_madvise_migrate i start len s =
     map_option (\<lambda>s. (0, s)) (madvise_migrate_loop i start (unat (drop_bit 12 (ARROUND_UP len 0x1000))) s)"

section \<open>Pages of shared anonymous regions\<close>

definition vmm_inval_shared_page :: "nat \<Rightarrow> uint_t \<Rightarrow> ppn_t \<Rightarrow> 'c vm_sys \<Rightarrow> (error_t \<times> 'c vm_sys) option" where
  "vmm_inval_shared_page i vaddr ppn s =
     (case get_page i vaddr s of
        None \<Rightarrow> None
      | Some (err, current) \<Rightarrow> if err \<noteq> 0 \<or> pi_ppn current \<noteq> ppn then Some (err, s) else set_page None i vaddr 0 0 s)"

definition vmm_update_shared_page :: "nat \<Rightarrow> vm_region_s \<Rightarrow> uint_t \<Rightarrow> ppn_t \<Rightarrow> 'c vm_sys \<Rightarrow> (error_t \<times> 'c vm_sys) option" where
  "vmm_update_shared_page i region vaddr ppn s =
     (case get_page i vaddr s of
        None \<Rightarrow> None
      | Some (err, current) \<Rightarrow> if err \<noteq> 0 \<or> pi_attr current \<noteq> 0 then Some (err, s) else set_page None i vaddr (vm_pgprot region) ppn s)"

section \<open>Accounting of the page frames\<close>

text \<open>The entry of a virtual page of an address space, and the virtual pages of user space that hold a frame.\<close>

definition ent :: "'c vm_sys \<Rightarrow> nat \<times> uint_t \<Rightarrow> uint_t \<times> ppn_t" where
  "ent s x = pte_at (spaces s ! fst x) (push_bit 12 (snd x))"

definition upages :: "'c vm_sys \<Rightarrow> (nat \<times> uint_t) set" where
  "upages s = {x. fst x < length (spaces s) \<and> unat (snd x) < 2 ^ 19}"

definition holds :: "uint_t \<times> ppn_t \<Rightarrow> ppn_t \<Rightarrow> bool" where
  "holds e p \<longleftrightarrow> fst e \<noteq> 0 \<and> p \<noteq> 0 \<and> snd e AND MMU_PPN_MASK = p"

definition users :: "'c vm_sys \<Rightarrow> ppn_t \<Rightarrow> (nat \<times> uint_t) set" where
  "users s p = {x \<in> upages s. holds (ent s x) p}"

abbreviation writable :: "uint_t \<times> ppn_t \<Rightarrow> bool" where
  "writable e \<equiv> fst e AND PMM_WRITE \<noteq> 0"

abbreviation anon :: "'c vm_sys \<Rightarrow> ppn_t \<Rightarrow> bool" where
  "anon s p \<equiv> pg_mapper (pages s p) = NULL"

text \<open>The frames that are page tables.\<close>

definition tables :: "'c vm_sys \<Rightarrow> ppn_t set" where
  "tables s = (\<Union>i<length (spaces s). pmm_tables (spaces s ! i))"

text \<open>Free frames, page tables and mapped frames are disjoint; the count of a mapped anonymous frame is the number of its users,
  and only a sole user may write to it.\<close>

definition frame_ok :: "'c vm_sys \<Rightarrow> ppn_t \<Rightarrow> bool" where
  "frame_ok s p \<longleftrightarrow>
     (p \<in> free_pages s \<longrightarrow> users s p = {} \<and> pg_count (pages s p) = 0) \<and>
     (p \<in> tables s \<longrightarrow> users s p = {} \<and> p \<notin> free_pages s) \<and>
     (users s p \<noteq> {} \<and> anon s p \<longrightarrow> unat (pg_count (pages s p)) = card (users s p) \<and>
        (\<forall>x\<in>users s p. writable (ent s x) \<longrightarrow> users s p = {x}))"

text \<open>An entry for a small page; if it is present, it has a page.\<close>

definition ent_ok :: "uint_t \<times> ppn_t \<Rightarrow> bool" where
  "ent_ok e \<longleftrightarrow> fst e AND PMM_HUGE = 0 \<and> fst e AND PMM_CLEAR = 0 \<and> (fst e AND PMM_PRESENT \<noteq> 0 \<longrightarrow> snd e AND MMU_PPN_MASK \<noteq> 0)"

definition vm_ok :: "'c vm_sys \<Rightarrow> bool" where
  "vm_ok s \<longleftrightarrow> length (spaces s) \<le> 4096 \<and> (\<forall>i<length (spaces s). pmm_small (spaces s ! i)) \<and> (\<forall>p. frame_ok s p) \<and>
     (\<forall>x\<in>upages s. ent_ok (ent s x))"

lemma vm_okI:
  assumes "length (spaces s) \<le> 4096" "\<forall>i<length (spaces s). pmm_small (spaces s ! i)" "\<And>p. frame_ok s p"
    "\<And>x. x \<in> upages s \<Longrightarrow> ent_ok (ent s x)"
  shows "vm_ok s"
  unfolding vm_ok_def using assms by blast

lemma vpn_push [simp]:
  assumes "unat q < 2 ^ 20"
  shows "vpn (push_bit 12 q) = (q :: uint_t)"
proof -
  have "unat (push_bit 12 q) = unat q * 4096 mod 2 ^ 32" by (simp add: push_bit_eq_mult unat_word_ariths mult.commute)
  then have "unat (push_bit 12 q) = unat q * 4096" using assms by simp
  then have "unat (vpn (push_bit 12 q)) = unat q" unfolding unat_drop by simp
  then show ?thesis by (simp add: word_unat_eq_iff)
qed

lemma upages_sub: "upages s \<subseteq> {..<length (spaces s)} \<times> of_nat ` {..<2 ^ 19}"
proof
  fix x assume x: "x \<in> upages s"
  have "snd x = of_nat (unat (snd x))" by simp
  moreover have "unat (snd x) \<in> {..<2 ^ 19}" using x by (simp add: upages_def)
  ultimately have "snd x \<in> of_nat ` {..<2 ^ 19}" by (rule image_eqI)
  then show "x \<in> {..<length (spaces s)} \<times> of_nat ` {..<2 ^ 19}" using x unfolding mem_Times_iff by (simp add: upages_def)
qed

lemma users_sub: "users s p \<subseteq> {..<length (spaces s)} \<times> of_nat ` {..<2 ^ 19}"
  using upages_sub [of s] by (auto simp: users_def)

lemma finite_users [simp]: "finite (users s p)"
  by (rule finite_subset [OF users_sub]) simp

lemma card_users:
  assumes "length (spaces s) \<le> 4096"
  shows "card (users s p) \<le> 2 ^ 31"
proof -
  have "card (users s p) \<le> card ({..<length (spaces s)} \<times> (of_nat ` {..<2 ^ 19} :: uint_t set))"
    by (rule card_mono [OF _ users_sub]) simp
  also have "\<dots> \<le> length (spaces s) * 2 ^ 19" using card_image_le [of "{..<2 ^ 19}" "of_nat :: nat \<Rightarrow> uint_t"] by (simp add: card_cartesian_product)
  also have "\<dots> \<le> 4096 * 2 ^ 19" using assms by (rule mult_le_mono1)
  finally show ?thesis by simp
qed

lemma user_addr_vpn: "user_addr v \<longleftrightarrow> unat (vpn v) < 2 ^ 19"
  unfolding user_addr_def unat_drop by (simp add: div_less_iff_less_mult)

lemma ent_vpn: "user_addr v \<Longrightarrow> ent s (i, vpn v) = pte_at (spaces s ! i) v"
  unfolding ent_def fst_conv snd_conv user_addr_vpn by (rule pte_at_same_page) simp

lemma mem_upages: "(i, q) \<in> upages s \<longleftrightarrow> i < length (spaces s) \<and> unat q < 2 ^ 19"
  by (simp add: upages_def)

definition vm_small :: "'c vm_sys \<Rightarrow> bool" where
  "vm_small s \<longleftrightarrow> (\<forall>i<length (spaces s). pmm_small (spaces s ! i))"

text \<open>\<open>s'\<close> has the entry \<open>e\<close> at \<open>x\<close> and otherwise the entries of \<open>s\<close>.\<close>

definition ent_upd :: "'c vm_sys \<Rightarrow> 'c vm_sys \<Rightarrow> nat \<times> uint_t \<Rightarrow> uint_t \<times> ppn_t \<Rightarrow> bool" where
  "ent_upd s s' x e \<longleftrightarrow> length (spaces s') = length (spaces s) \<and> vm_small s' \<and> (\<forall>y\<in>upages s. ent s' y = (if y = x then e else ent s y))"

lemma upages_len: "length (spaces s') = length (spaces s) \<Longrightarrow> upages s' = upages s"
  by (simp add: upages_def)

lemma users_upd:
  assumes "ent_upd s s' x e" and "x \<in> upages s"
  shows "users s' p = (if holds e p then insert x (users s p) else users s p - {x})"
proof -
  have u: "upages s' = upages s" by (rule upages_len) (use assms(1) in \<open>simp add: ent_upd_def\<close>)
  have "y \<in> users s' p \<longleftrightarrow> y \<in> (if holds e p then insert x (users s p) else users s p - {x})" for y
  proof (cases "y \<in> upages s")
    case True
    then have "ent s' y = (if y = x then e else ent s y)" using assms(1) unfolding ent_upd_def by blast
    then show ?thesis using True assms(2) by (simp add: users_def u)
  next
    case False
    then show ?thesis using assms(2) by (auto simp: users_def u)
  qed
  then show ?thesis by blast
qed

lemma ent_updI:
  assumes "vm_small s" "i < length (spaces s)" "user_addr v" "pmm_small pmm"
    and "\<And>w. pte_at pmm w = (if vpn w = vpn v then e else pte_at (spaces s ! i) w)" and "spaces s' = (spaces s)[i := pmm]"
  shows "ent_upd s s' (i, vpn v) e"
  unfolding ent_upd_def
proof (intro conjI ballI)
  show "length (spaces s') = length (spaces s)" using assms(6) by simp
  have "pmm_small (spaces s' ! j)" if "j < length (spaces s')" for j
    using that assms(1,2,4,6) by (cases "j = i") (simp_all add: vm_small_def)
  then show "vm_small s'" by (simp add: vm_small_def)
  fix y assume y: "y \<in> upages s"
  obtain j q where yq: "y = (j, q)" by (cases y)
  have "vpn (push_bit 12 q) = q" using y yq by (simp add: upages_def)
  then show "ent s' y = (if y = (i, vpn v) then e else ent s y)"
    using assms(2,5,6) by (auto simp: yq ent_def nth_list_update)
qed

lemma tables_upd:
  assumes "i < length (spaces s)" "spaces s' = (spaces s)[i := pmm]" "pmm_tables pmm = pmm_tables (spaces s ! i) \<union> T"
  shows "tables s' = tables s \<union> T"
proof -
  have t: "pmm_tables (spaces s' ! j) = (if j = i then pmm_tables (spaces s ! j) \<union> T else pmm_tables (spaces s ! j))" for j
    using assms by (auto simp: nth_list_update)
  show ?thesis unfolding tables_def t using assms(1,2) by (auto split: if_splits)
qed

lemma set_page_cases:
  assumes "vm_small s" "i < length (spaces s)" "user_addr v" "attr AND PMM_HUGE = 0" "attr AND PMM_CLEAR = 0" "unat ppn < 2 ^ 28"
    and "fresh_table (spaces s ! i) tbl"
  obtains (ok) used s' where "set_page tbl i v attr ppn s = Some (0, s')" "ent_upd s s' (i, vpn v) (attr, ppn)"
      "s' = (if used then kmem_alloc_page tbl s else s)\<lparr>spaces := spaces s'\<rparr>" "used \<longrightarrow> tbl \<noteq> None"
      "tables s' = tables s \<union> (if used then {the tbl} else {})"
    | (nomem) "set_page tbl i v attr ppn s = Some (ENOMEM, s)" "tbl = None" "pgdir (spaces s ! i) ! MMU_PDE v = 0"
proof -
  let ?i = "\<lparr>pi_attr = attr, pi_ppn = ppn, pi_isAtomic = False\<rparr>"
  have sm: "pmm_small (spaces s ! i)" using assms(1,2) by (simp add: vm_small_def)
  have si: "small_info ?i" using assms(4-6) by (simp add: small_info_def)
  show thesis
  proof (cases rule: pmm_set_page_cases [OF sm assms(3) si assms(7), case_names ok nomem])
    case (ok used pmm)
    let ?s' = "(if used then kmem_alloc_page tbl s else s)\<lparr>spaces := (spaces s)[i := pmm]\<rparr>"
    have "set_page tbl i v attr ppn s = Some (0, ?s')" by (simp add: set_page_def ok(1))
    moreover have "ent_upd s ?s' (i, vpn v) (attr, ppn)"
      by (rule ent_updI [OF assms(1-3) ok(2)]) (simp_all add: ok(3))
    moreover have "tables ?s' = tables s \<union> (if used then {the tbl} else {})"
      by (rule tables_upd [OF assms(2) _ ok(5)]) simp
    ultimately show ?thesis using that(1) [of ?s' used] ok(4) by simp
  next
    case nomem
    have "set_page tbl i v attr ppn s = Some (ENOMEM, s)" by (simp add: set_page_def nomem(1))
    then show ?thesis using that(2) nomem by simp
  qed
qed

lemma pmm_set_page_used:
  "pgdir pmm ! MMU_PDE v \<noteq> 0 \<Longrightarrow> pmm_set_page env alloc v info pmm = Some (err, used, pmm') \<Longrightarrow> \<not> used"
  by (auto simp: pmm_set_page_def pmm_pte_table_def Let_def split: if_splits)

lemma ent_nonzero_table:
  assumes "user_addr v" "fst (ent s (i, vpn v)) \<noteq> 0"
  shows "pgdir (spaces s ! i) ! MMU_PDE v \<noteq> 0"
proof
  assume z: "pgdir (spaces s ! i) ! MMU_PDE v = 0"
  have "ent s (i, vpn v) = (0, 0)" unfolding ent_vpn [OF assms(1)] pte_at_def Let_def z by (simp add: is_table_def)
  then show False using assms(2) by simp
qed

lemma set_page_exists:
  assumes "vm_small s" "i < length (spaces s)" "user_addr v" "attr AND PMM_HUGE = 0" "attr AND PMM_CLEAR = 0" "unat ppn < 2 ^ 28"
    and "fst (ent s (i, vpn v)) \<noteq> 0"
  obtains s' where "set_page tbl i v attr ppn s = Some (0, s')" "ent_upd s s' (i, vpn v) (attr, ppn)" "s' = s\<lparr>spaces := spaces s'\<rparr>"
    "tables s' = tables s"
proof -
  note nz = ent_nonzero_table [OF assms(3,7)]
  have e: "set_page tbl i v attr ppn s = set_page None i v attr ppn s"
    unfolding set_page_def pmm_set_page_table_exists [OF nz, of _ tbl] by (auto split: option.split dest: pmm_set_page_used [OF nz])
  have f: "fresh_table (spaces s ! i) None" by (simp add: fresh_table_def)
  show thesis
  proof (cases rule: set_page_cases [OF assms(1-6) f, case_names ok nomem])
    case (ok used s')
    then show ?thesis using that [of s'] e by simp
  next
    case nomem
    then show ?thesis using nz by simp
  qed
qed

lemma attr_bits:
  "(w AND PMM_HUGE = 0) = (\<not> bit w 30)" "(w AND PMM_CLEAR = 0) = (\<not> bit w 4)" "(w AND PMM_WRITE = 0) = (\<not> bit w 26)"
  "(w AND PMM_COW = 0) = (\<not> bit w 0)" "(w AND PMM_MIGRATE = 0) = (\<not> bit w 1)" "(w AND PMM_PRESENT = 0) = (\<not> bit w 31)" for w :: uint_t
  using test_bit_and_exp [of w 30] test_bit_and_exp [of w 4] test_bit_and_exp [of w 26] test_bit_and_exp [of w 0]
    test_bit_and_exp [of w 1] test_bit_and_exp [of w 31] by simp_all

lemma attr_consts:
  "bit PMM_WRITE n \<longleftrightarrow> n = 26" "bit PMM_COW n \<longleftrightarrow> n = 0" "bit PMM_MIGRATE n \<longleftrightarrow> n = 1" "bit PMM_PRESENT n \<longleftrightarrow> n = 31"
  using bit_exp_iff [of 26 n, where 'a = "32 word"] bit_exp_iff [of 0 n, where 'a = "32 word"] bit_exp_iff [of 1 n, where 'a = "32 word"]
    bit_exp_iff [of 31 n, where 'a = "32 word"] by auto

lemma cow_attr:
  assumes "prot AND PMM_HUGE = 0" "prot AND PMM_CLEAR = 0"
  defines "attr \<equiv> (prot OR PMM_WRITE) AND NOT (PMM_COW OR PMM_MIGRATE)"
  shows "attr AND PMM_HUGE = 0" "attr AND PMM_CLEAR = 0" "attr AND PMM_WRITE \<noteq> 0" "attr AND PMM_COW = 0" "attr \<noteq> 0"
proof -
  have b: "bit attr n \<longleftrightarrow> n < 32 \<and> (bit prot n \<or> n = 26) \<and> n \<noteq> 0 \<and> n \<noteq> 1" for n
    unfolding attr_def bit_and_iff bit_or_iff bit_not_iff attr_consts by (auto simp: bit_imp_le_length)
  show "attr AND PMM_HUGE = 0" "attr AND PMM_CLEAR = 0" "attr AND PMM_WRITE \<noteq> 0" "attr AND PMM_COW = 0"
    using assms(1,2) unfolding attr_bits b by simp_all
  show "attr \<noteq> 0" using b [of 26] by auto
qed

lemma frame_ok_same:
  assumes "frame_ok s q" "users s' q = users s q" "\<And>y. y \<in> users s q \<Longrightarrow> ent s' y = ent s y"
    "pages s' q = pages s q" "q \<in> free_pages s' \<longleftrightarrow> q \<in> free_pages s" "q \<in> tables s' \<longleftrightarrow> q \<in> tables s"
  shows "frame_ok s' q"
  using assms unfolding frame_ok_def by simp

lemma free_no_users: "vm_ok s \<Longrightarrow> p \<in> free_pages s \<Longrightarrow> users s p = {} \<and> pg_count (pages s p) = 0 \<and> p \<notin> tables s"
  by (auto simp add: vm_ok_def frame_ok_def)

lemma vm_ok_small: "vm_ok s \<Longrightarrow> vm_small s"
  by (simp add: vm_ok_def vm_small_def)

lemma vm_ok_upd:
  assumes ok: "vm_ok s" and up: "ent_upd s s' x e" and f: "\<And>q. frame_ok s' q" and e: "ent_ok e"
  shows "vm_ok s'"
proof (rule vm_okI [OF _ _ f])
  have l: "length (spaces s') = length (spaces s)" using up by (simp add: ent_upd_def)
  show "length (spaces s') \<le> 4096" "\<forall>i<length (spaces s'). pmm_small (spaces s' ! i)" using ok up by (simp_all add: vm_ok_def ent_upd_def vm_small_def)
  fix y assume "y \<in> upages s'"
  then have y: "y \<in> upages s" using upages_len [OF l] by simp
  then show "ent_ok (ent s' y)"
  proof (cases "y = x")
    case True
    then show ?thesis using up y e by (simp add: ent_upd_def)
  next
    case False
    then have "ent s' y = ent s y" using up y by (simp add: ent_upd_def)
    then show ?thesis using ok y by (simp add: vm_ok_def)
  qed
qed

text \<open>A user leaves the frame \<open>a\<close>.\<close>

lemma frame_ok_leave:
  assumes fo: "frame_ok s a" and x: "x \<in> users s a" and a: "users s' a = users s a - {x}" and en: "\<And>y. y \<in> users s a \<Longrightarrow> y \<noteq> x \<Longrightarrow> ent s' y = ent s y"
    and old: "pg_mapper (pages s' a) = pg_mapper (pages s a)"
    and cnt: "anon s a \<Longrightarrow> unat (pg_count (pages s' a)) = unat (pg_count (pages s a)) - 1"
    and fr: "a \<in> free_pages s' \<Longrightarrow> anon s a \<and> pg_count (pages s' a) = 0" and tb: "a \<in> tables s' \<longleftrightarrow> a \<in> tables s"
  shows "frame_ok s' a"
proof -
  have f: "users s' a = {} \<and> pg_count (pages s' a) = 0" if "a \<in> free_pages s'"
  proof -
    have c: "unat (pg_count (pages s a)) - 1 = 0" "unat (pg_count (pages s a)) = card (users s a)"
      using fr [OF that] cnt fo x by (auto simp: frame_ok_def)
    then have "card (users s a) \<le> Suc 0" by simp
    then have "\<forall>y\<in>users s a. y = x" using card_le_Suc0_iff_eq [OF finite_users [of s a]] x by blast
    then have "users s a = {x}" using x by blast
    then show ?thesis using a fr [OF that] by simp
  qed
  have "unat (pg_count (pages s' a)) = card (users s' a) \<and> (\<forall>y\<in>users s' a. writable (ent s' y) \<longrightarrow> users s' a = {y})"
    if "anon s' a"
  proof -
    have an: "anon s a" using that old by simp
    have w: "\<forall>y\<in>users s a. writable (ent s y) \<longrightarrow> users s a = {y}" and c: "unat (pg_count (pages s a)) = card (users s a)"
      using fo x an by (auto simp: frame_ok_def)
    have "unat (pg_count (pages s' a)) = card (users s' a)" using cnt [OF an] c x by (simp add: a)
    moreover have "users s' a = {y}" if y: "y \<in> users s' a" "writable (ent s' y)" for y
    proof -
      have ys: "y \<in> users s a" "y \<noteq> x" using y(1) a by auto
      then have "users s a = {y}" using w y(2) en [OF ys] by simp
      then show ?thesis using x ys by simp
    qed
    ultimately show ?thesis by blast
  qed
  moreover have "a \<notin> tables s" using fo x by (auto simp: frame_ok_def)
  ultimately show ?thesis using f tb by (simp add: frame_ok_def)
qed

text \<open>A user leaves the frame \<open>a\<close> for the frame \<open>p\<close>, which had no users: what this does to the counts.\<close>

lemma vm_ok_move:
  assumes ok: "vm_ok s" and x: "x \<in> users s a" and up: "ent_upd s s' x e" and e: "holds e p" "ent_ok e" and pa: "p \<noteq> a" and pu: "users s p = {}"
    and np: "anon s' p" "pg_count (pages s' p) = 1" "p \<notin> free_pages s'"
    and other: "\<And>q. q \<noteq> a \<Longrightarrow> q \<noteq> p \<Longrightarrow> pages s' q = pages s q \<and> (q \<in> free_pages s' \<longleftrightarrow> q \<in> free_pages s)"
    and old: "pg_mapper (pages s' a) = pg_mapper (pages s a)" and tb: "tables s' = tables s" "p \<notin> tables s"
    and cnt: "anon s a \<Longrightarrow> unat (pg_count (pages s' a)) = unat (pg_count (pages s a)) - 1"
    and fr: "a \<in> free_pages s' \<Longrightarrow> anon s a \<and> pg_count (pages s' a) = 0"
  shows "vm_ok s'"
proof -
  have xu: "x \<in> upages s" and xh: "holds (ent s x) a" using x by (auto simp: users_def)
  note U = users_upd [OF up xu]
  have fo: "frame_ok s q" for q using ok by (simp add: vm_ok_def)
  have a: "users s' a = users s a - {x}" using e(1) pa by (simp add: U holds_def)
  have p: "users s' p = {x}" using e(1) pu by (simp add: U)
  have q: "users s' q = users s q" if "q \<noteq> a" "q \<noteq> p" for q
  proof -
    have "\<not> holds e q" "x \<notin> users s q" using e(1) xh that by (auto simp: holds_def users_def)
    then show ?thesis by (simp add: U)
  qed
  have en: "ent s' y = ent s y" if "y \<in> users s q" "y \<noteq> x" for y q using up that by (simp add: ent_upd_def users_def)
  have "frame_ok s' q" for q
  proof -
    consider "q = p" | "q = a" | "q \<noteq> a" "q \<noteq> p" by blast
    then show ?thesis
    proof cases
      case 1
      then show ?thesis using p np tb by (simp add: frame_ok_def)
    next
      case 3
      have "x \<notin> users s q" using xh 3 by (auto simp: holds_def users_def)
      then show ?thesis using frame_ok_same [OF fo [of q] q [OF 3]] other [OF 3] en tb(1) by metis
    next
      case 2
      have "frame_ok s' a" by (rule frame_ok_leave [OF fo x a _ old cnt fr]) (use en tb in auto)
      then show ?thesis using 2 by simp
    qed
  qed
  then show ?thesis using vm_ok_upd [OF ok up] e(2) by simp
qed

lemma vm_sys_simps [simp]:
  "spaces (upd_page p f s) = spaces s" "content (upd_page p f s) = content s" "free_pages (upd_page p f s) = free_pages s"
  "pages (upd_page p f s) = (pages s)(p := f (pages s p))"
  "spaces (kmem_alloc_page alloc s) = spaces s" "content (kmem_alloc_page alloc s) = content s"
  "pages (kmem_alloc_page (Some p) s) = (pages s)(p := (pages s p)\<lparr>pg_count := pg_count (pages s p) + 1\<rparr>)"
  "free_pages (kmem_alloc_page (Some p) s) = free_pages s - {p}"
  "spaces (page_copy d p s) = spaces s" "pages (page_copy d p s) = pages s" "free_pages (page_copy d p s) = free_pages s"
  "content (page_copy d p s) = (content s)(d := content s p)"
  "spaces (ppm_free_page p s) = spaces s" "content (ppm_free_page p s) = content s"
  "pages (ppm_free_page p s) = (pages s)(p := (pages s p)\<lparr>pg_count := pg_count (pages s p) - 1\<rparr>)"
  "free_pages (ppm_free_page p s) = (if pg_count (pages s p) > 1 then free_pages s else insert p (free_pages s))"
  by (simp_all add: upd_page_def kmem_alloc_page_def page_copy_def ppm_free_page_def Let_def page_refcount_up_def page_refcount_down_def split: option.split)

lemma ent_spaces: "spaces s' = spaces s \<Longrightarrow> ent s' x = ent s x"
  by (simp add: ent_def)

lemma upages_spaces: "spaces s' = spaces s \<Longrightarrow> upages s' = upages s"
  by (simp add: upages_def)

lemma ent_upd_spaces:
  assumes "spaces t = spaces s" "spaces t' = spaces s'"
  shows "ent_upd t t' x e = ent_upd s s' x e"
  by (simp add: ent_upd_def ent_spaces [OF assms(1)] ent_spaces [OF assms(2)] upages_spaces [OF assms(1)] vm_small_def assms)

lemma get_page_eq:
  assumes "vm_small s" "i < length (spaces s)" "user_addr v"
  shows "get_page i v s = Some (0, \<lparr>pi_attr = fst (ent s (i, vpn v)), pi_ppn = snd (ent s (i, vpn v)) AND MMU_PPN_MASK, pi_isAtomic = False\<rparr>)"
  unfolding get_page_def ent_vpn [OF assms(3)] by (rule pmm_get_page_eq) (use assms in \<open>simp add: vm_small_def\<close>)

lemma holds_page: "holds e p \<Longrightarrow> snd e AND MMU_PPN_MASK = p \<and> unat p < 2 ^ 28 \<and> p \<noteq> 0 \<and> fst e \<noteq> 0"
  using ppn_mask_lt by (auto simp: holds_def)

lemma count_one_user:
  assumes "vm_ok s" "x \<in> users s p" "anon s p"
  shows "pg_count (pages s p) = 1 \<longleftrightarrow> users s p = {x}" and "pg_count (pages s p) \<noteq> 0"
proof -
  have c: "unat (pg_count (pages s p)) = card (users s p)" using assms by (auto simp: vm_ok_def frame_ok_def)
  have nz: "card (users s p) \<noteq> 0" using assms(2) by auto
  have "users s p = {x} \<longleftrightarrow> card (users s p) = 1" using assms(2) by (auto simp: card_1_singleton_iff)
  also have "\<dots> \<longleftrightarrow> pg_count (pages s p) = 1" unfolding c [symmetric] by (simp add: word_unat_eq_iff)
  finally show "pg_count (pages s p) = 1 \<longleftrightarrow> users s p = {x}" by blast
  show "pg_count (pages s p) \<noteq> 0" using c nz by auto
qed

lemma unat_minus_one': "w \<noteq> 0 \<Longrightarrow> unat (w - 1 :: uint_t) = unat w - 1"
  by (simp add: unat_minus_one)

text \<open>A free page that \<^verbatim>\<open>kmem_alloc\<close> may return.\<close>

definition alloc_ok :: "ppn_t option \<Rightarrow> 'c vm_sys \<Rightarrow> bool" where
  "alloc_ok alloc s \<longleftrightarrow> (\<forall>p. alloc = Some p \<longrightarrow> p \<in> free_pages s \<and> p \<noteq> 0 \<and> unat p < 2 ^ 28)"

abbreviation cow_prot :: "vm_region_s \<Rightarrow> uint_t" where
  "cow_prot region \<equiv> (vm_pgprot region OR PMM_WRITE) AND NOT (PMM_COW OR PMM_MIGRATE)"

lemma vmm_do_cow_reuse:
  assumes ok: "vm_ok s" and i: "i < length (spaces s)" and us: "user_addr v" and h: "holds (ent s (i, vpn v)) page"
    and cow: "fst (ent s (i, vpn v)) AND PMM_COW \<noteq> 0" and pr: "vm_pgprot region AND PMM_HUGE = 0" "vm_pgprot region AND PMM_CLEAR = 0"
    and re: "anon s page" "pg_count (pages s page) = 1" "pg_cid (pages s page) = cid"
  obtains s' where "vmm_do_cow cid alloc tbl i region page v s = Some (0, s')" "vm_ok s'" "ent_upd s s' (i, vpn v) (cow_prot region, page)"
    "s' = s\<lparr>spaces := spaces s'\<rparr>" "users s' page = {(i, vpn v)}"
proof -
  let ?x = "(i, vpn v)"
  have xu: "?x \<in> upages s" using i us by (simp add: mem_upages user_addr_vpn)
  then have x: "?x \<in> users s page" using h by (simp add: users_def)
  note g = get_page_eq [OF vm_ok_small [OF ok] i us]
  note a = cow_attr [OF pr]
  have u1: "users s page = {?x}" using count_one_user(1) [OF ok x re(1)] re(2) by simp
  have nz: "fst (ent s ?x) \<noteq> 0" "unat page < 2 ^ 28" using holds_page [OF h] by simp_all
  obtain s' where s': "set_page tbl i v (cow_prot region) page s = Some (0, s')" "ent_upd s s' ?x (cow_prot region, page)" "s' = s\<lparr>spaces := spaces s'\<rparr>" "tables s' = tables s"
    by (rule set_page_exists [OF vm_ok_small [OF ok] i us a(1,2) nz(2,1)])
  have pf: "pages s' = pages s" "free_pages s' = free_pages s" using arg_cong [OF s'(3), of pages] arg_cong [OF s'(3), of free_pages] by simp_all
  have hp: "holds (cow_prot region, page) page" using a(5) holds_page [OF h] by (simp add: holds_def and_ppn_mask)
  note U = users_upd [OF s'(2) xu]
  have up: "users s' page = {?x}" using U hp u1 by simp
  have uq: "users s' q = users s q" if "q \<noteq> page" for q
  proof -
    have "\<not> holds (cow_prot region, page) q" "?x \<notin> users s q" using that hp h by (auto simp: holds_def users_def)
    then show ?thesis by (simp add: U)
  qed
  have "frame_ok s' q" for q
  proof (cases "q = page")
    case True
    have "page \<notin> free_pages s" using free_no_users [OF ok] x by auto
    moreover have "page \<notin> tables s" using ok x by (auto simp: vm_ok_def frame_ok_def)
    ultimately show ?thesis using True up re s'(4) by (simp add: frame_ok_def pf)
  next
    case False
    have "ent s' y = ent s y" if "y \<in> users s q" for y
    proof -
      have "y \<noteq> ?x" using that False h by (auto simp: users_def holds_def)
      then show ?thesis using s'(2) that by (simp add: ent_upd_def users_def)
    qed
    then show ?thesis using frame_ok_same [of s q s'] ok uq [OF False] s'(4) by (simp add: vm_ok_def pf)
  qed
  moreover have "ent_ok (cow_prot region, page)" using a(1,2) hp by (simp add: ent_ok_def holds_def)
  ultimately have "vm_ok s'" using vm_ok_upd [OF ok s'(2)] by simp
  moreover have "vmm_do_cow cid alloc tbl i region page v s = Some (0, s')"
    using cow re s'(1) by (simp add: vmm_do_cow_def g Let_def)
  ultimately show thesis using that s' up by blast
qed

lemma vmm_do_cow_copy:
  assumes ok: "vm_ok s" and i: "i < length (spaces s)" and us: "user_addr v" and h: "holds (ent s (i, vpn v)) page"
    and cow: "fst (ent s (i, vpn v)) AND PMM_COW \<noteq> 0" and pr: "vm_pgprot region AND PMM_HUGE = 0" "vm_pgprot region AND PMM_CLEAR = 0"
    and nre: "\<not> (anon s page \<and> pg_count (pages s page) = 1 \<and> pg_cid (pages s page) = cid)" and al: "alloc_ok (Some p) s"
  obtains s' where "vmm_do_cow cid (Some p) tbl i region page v s = Some (0, s')" "vm_ok s'" "ent_upd s s' (i, vpn v) (cow_prot region, p)"
    "content s' = (content s)(p := content s page)" "users s' p = {(i, vpn v)}" "anon s' p"
proof -
  let ?x = "(i, vpn v)"
  have xu: "?x \<in> upages s" using i us by (simp add: mem_upages user_addr_vpn)
  then have x: "?x \<in> users s page" using h by (simp add: users_def)
  note g = get_page_eq [OF vm_ok_small [OF ok] i us]
  note a = cow_attr [OF pr]
  have p: "p \<in> free_pages s" "p \<noteq> 0" "unat p < 2 ^ 28" using al by (simp_all add: alloc_ok_def)
  have pu: "users s p = {}" "pg_count (pages s p) = 0" "p \<notin> tables s" using free_no_users [OF ok p(1)] by simp_all
  then have pp: "p \<noteq> page" using x by auto
  define s1 where "s1 = (if anon s page \<and> pg_count (pages s page) \<noteq> 1 then upd_page page (\<lambda>page. snd (page_refcount_down page)) s else s)"
  define s2 where "s2 = page_copy p page (upd_page p (\<lambda>page. page\<lparr>pg_mapper := NULL\<rparr>) (kmem_alloc_page (Some p) s1))"
  have sp: "spaces s1 = spaces s" "spaces s2 = spaces s" by (simp_all add: s1_def s2_def)
  have v2: "vm_small s2" "i < length (spaces s2)" "fst (ent s2 ?x) \<noteq> 0"
    using vm_ok_small [OF ok] i holds_page [OF h] by (simp_all add: vm_small_def sp ent_spaces [OF sp(2)])
  obtain s3 where s3: "set_page tbl i v (cow_prot region) p s2 = Some (0, s3)" "ent_upd s2 s3 ?x (cow_prot region, p)" "s3 = s2\<lparr>spaces := spaces s3\<rparr>" "tables s3 = tables s2"
    by (rule set_page_exists [OF v2(1,2) us a(1,2) p(3) v2(3)])
  have f3: "pages s3 = pages s2" "free_pages s3 = free_pages s2" "content s3 = content s2"
    using arg_cong [OF s3(3), of pages] arg_cong [OF s3(3), of free_pages] arg_cong [OF s3(3), of content] by simp_all
  define fre where "fre = (anon s page \<and> pg_count (pages s page) = 1 \<and> pg_cid (pages s page) \<noteq> cid)"
  define s4 where "s4 = (if fre then ppm_free_page page s3 else s3)"
  have res: "vmm_do_cow cid (Some p) tbl i region page v s = Some (0, s4)"
    using cow nre s3(1) by (auto simp: vmm_do_cow_def g Let_def s4_def fre_def s2_def s1_def)
  have up: "ent_upd s s4 ?x (cow_prot region, p)"
  proof -
    have "spaces s4 = spaces s3" by (simp add: s4_def)
    from ent_upd_spaces [OF sp(2) [symmetric] this] show ?thesis using s3(2) by simp
  qed
  have hp: "holds (cow_prot region, p) p" using a(5) p by (simp add: holds_def and_ppn_mask)
  have pg4: "pages s4 q = pages s q" if "q \<noteq> page" "q \<noteq> p" for q
    using that by (simp add: s4_def f3 s2_def s1_def)
  have fr4: "free_pages s4 = free_pages s - {p} \<union> (if fre then {page} else {})"
    using pp by (simp add: s4_def f3 s2_def s1_def fre_def)
  have cnt: "unat (pg_count (pages s4 page)) = unat (pg_count (pages s page)) - 1" if "anon s page"
    using that pp unat_minus_one' [OF count_one_user(2) [OF ok x that]] nre
    by (auto simp: s4_def f3 s2_def s1_def fre_def page_refcount_down_def)
  have "vm_ok s4"
  proof (rule vm_ok_move [OF ok x up hp _ pp pu(1)])
    show "ent_ok (cow_prot region, p)" using a(1,2) hp by (simp add: ent_ok_def holds_def)
    show "anon s4 p" "pg_count (pages s4 p) = 1" "p \<notin> free_pages s4"
      using pp pu(2) fr4 by (simp_all add: s4_def f3 s2_def s1_def)
    show "pages s4 q = pages s q \<and> (q \<in> free_pages s4 \<longleftrightarrow> q \<in> free_pages s)" if "q \<noteq> page" "q \<noteq> p" for q
      using pg4 [OF that] fr4 that by auto
    have "tables s4 = tables s3" "tables s2 = tables s" by (simp_all add: tables_def s4_def sp)
    then show "tables s4 = tables s" "p \<notin> tables s" using s3(4) pu(3) by simp_all
    show "pg_mapper (pages s4 page) = pg_mapper (pages s page)" using pp by (simp add: s4_def f3 s2_def s1_def page_refcount_down_def)
    show "unat (pg_count (pages s4 page)) = unat (pg_count (pages s page)) - 1" if "anon s page" using cnt [OF that] .
    show "anon s page \<and> pg_count (pages s4 page) = 0" if "page \<in> free_pages s4"
    proof -
      have "page \<notin> free_pages s" using free_no_users [OF ok] x by auto
      then have "fre" using that fr4 by (simp split: if_splits)
      then show ?thesis using cnt by (simp add: fre_def unat_eq_zero)
    qed
  qed
  moreover have "content s4 = (content s)(p := content s page)" by (simp add: s4_def f3 s2_def s1_def)
  moreover have "users s4 p = {?x}" using users_upd [OF up xu] hp pu by simp
  moreover have "anon s4 p" using pp by (simp add: s4_def f3 s2_def s1_def)
  ultimately show thesis using that res up by blast
qed

lemma vmm_do_cow_nomem:
  assumes "vm_small s" "i < length (spaces s)" "user_addr v" "fst (ent s (i, vpn v)) AND PMM_COW \<noteq> 0"
    "\<not> (anon s page \<and> pg_count (pages s page) = 1 \<and> pg_cid (pages s page) = cid)"
  shows "vmm_do_cow cid None tbl i region page v s =
     Some (ENOMEM, if anon s page then if pg_count (pages s page) = 1 then ppm_free_page page s
        else upd_page page (\<lambda>page. snd (page_refcount_down page)) s else s)"
  using assms(4,5) by (auto simp: vmm_do_cow_def get_page_eq [OF assms(1-3)] Let_def)

text \<open>C35. Copy on write. In a state in which the count of each mapped anonymous page is the number of virtual pages that hold
  it, and only a sole holder may write to it, a write fault on a page marked copy-on-write gives the virtual page
  a page of its own that it may write to, with the contents it saw before. All other virtual pages of all address spaces keep their
  entries and what they see, the state keeps its invariant (so the old page is released with its last holder),
  and the only error is \<^verbatim>\<open>ENOMEM\<close>.\<close>

theorem vmm_cow_isolates:
  assumes ok: "vm_ok s" and i: "i < length (spaces s)" and us: "user_addr v" and h: "holds (ent s (i, drop_bit 12 v)) page"
    and cow: "fst (ent s (i, drop_bit 12 v)) AND PMM_COW \<noteq> 0" and pr: "vm_pgprot region AND PMM_HUGE = 0" "vm_pgprot region AND PMM_CLEAR = 0"
    and al: "alloc_ok alloc s"
  shows "\<exists>err s'. vmm_do_cow cid alloc tbl i region page v s = Some (err, s') \<and>
    (if err = 0
     then vm_ok s' \<and> (\<exists>new. users s' new = {(i, drop_bit 12 v)} \<and> pg_mapper (pages s' new) = NULL \<and> content s' new = content s page) \<and>
       fst (ent s' (i, drop_bit 12 v)) AND PMM_WRITE \<noteq> 0 \<and> fst (ent s' (i, drop_bit 12 v)) AND PMM_COW = 0 \<and>
       (\<forall>y\<in>upages s. y \<noteq> (i, drop_bit 12 v) \<longrightarrow> ent s' y = ent s y \<and> (\<forall>q. holds (ent s y) q \<longrightarrow> content s' q = content s q))
     else err = ENOMEM \<and> alloc = None)"
proof -
  let ?x = "(i, vpn v)"
  let ?re = "anon s page \<and> pg_count (pages s page) = 1 \<and> pg_cid (pages s page) = cid"
  have xu: "?x \<in> upages s" using i us by (simp add: mem_upages user_addr_vpn)
  note a = cow_attr [OF pr]
  have en: "\<And>s' e. ent_upd s s' ?x e \<Longrightarrow> ent s' ?x = e" "\<And>s' e y. ent_upd s s' ?x e \<Longrightarrow> y \<in> upages s \<Longrightarrow> y \<noteq> ?x \<Longrightarrow> ent s' y = ent s y"
    using xu by (simp_all add: ent_upd_def)
  have fin: ?thesis if s': "vmm_do_cow cid alloc tbl i region page v s = Some (0, s')" "vm_ok s'" "ent_upd s s' ?x (cow_prot region, new)"
    and n: "\<exists>new. users s' new = {?x} \<and> pg_mapper (pages s' new) = NULL \<and> content s' new = content s page"
    and c: "\<And>y q. y \<in> upages s \<Longrightarrow> holds (ent s y) q \<Longrightarrow> content s' q = content s q" for s' new
  proof -
    have w: "fst (ent s' ?x) AND PMM_WRITE \<noteq> 0" "fst (ent s' ?x) AND PMM_COW = 0" unfolding en(1) [OF s'(3)] fst_conv by (rule a(3), rule a(4))
    have "\<forall>y\<in>upages s. y \<noteq> ?x \<longrightarrow> ent s' y = ent s y \<and> (\<forall>q. holds (ent s y) q \<longrightarrow> content s' q = content s q)"
      using en(2) [OF s'(3)] c by blast
    then show ?thesis using s'(1,2) n w by (intro exI [of _ 0] exI [of _ s'] conjI) (assumption | simp only: if_True simp_thms)+
  qed
  show ?thesis
  proof (cases ?re)
    case True
    then have re: "anon s page" "pg_count (pages s page) = 1" "pg_cid (pages s page) = cid" by simp_all
    obtain s' where s': "vmm_do_cow cid alloc tbl i region page v s = Some (0, s')" "vm_ok s'" "ent_upd s s' ?x (cow_prot region, page)"
        "s' = s\<lparr>spaces := spaces s'\<rparr>" "users s' page = {?x}"
      by (rule vmm_do_cow_reuse [OF ok i us h cow pr re])
    have c: "content s' = content s" "pages s' = pages s" using arg_cong [OF s'(4), of content] arg_cong [OF s'(4), of pages] by simp_all
    have "\<exists>new. users s' new = {?x} \<and> pg_mapper (pages s' new) = NULL \<and> content s' new = content s page" using s'(5) c re by auto
    from fin [OF s'(1-3) this] show ?thesis using c(1) by simp
  next
    case nre: False
    show ?thesis
    proof (cases alloc)
      case None
      show ?thesis unfolding None vmm_do_cow_nomem [OF vm_ok_small [OF ok] i us cow nre] by simp
    next
      case (Some p)
      have al': "alloc_ok (Some p) s" using al Some by simp
      obtain s' where s': "vmm_do_cow cid (Some p) tbl i region page v s = Some (0, s')" "vm_ok s'" "ent_upd s s' ?x (cow_prot region, p)"
          "content s' = (content s)(p := content s page)" "users s' p = {?x}" "anon s' p"
        by (rule vmm_do_cow_copy [OF ok i us h cow pr nre al'])
      have "content s' q = content s q" if "y \<in> upages s" "holds (ent s y) q" for y q
      proof -
        have "y \<in> users s q" using that by (simp add: users_def)
        then have "q \<noteq> p" using free_no_users [OF ok, of p] al' by (auto simp: alloc_ok_def)
        then show ?thesis by (simp add: s'(4))
      qed
      moreover have "\<exists>new. users s' new = {?x} \<and> pg_mapper (pages s' new) = NULL \<and> content s' new = content s page" using s'(4-6) by auto
      ultimately show ?thesis using fin [OF _ s'(2,3)] s'(1) unfolding Some by blast
    qed
  qed
qed

section \<open>Sharing by fork\<close>

lemma tables_spaces: "spaces s' = spaces s \<Longrightarrow> tables s' = tables s"
  by (simp add: tables_def)

lemma users_spaces: "spaces s' = spaces s \<Longrightarrow> users s' p = users s p"
  unfolding users_def upages_def ent_def by simp

lemma vm_ok_alloc:
  assumes ok: "vm_ok s" and t: "t \<in> free_pages s"
  shows "vm_ok (kmem_alloc_page (Some t) s)" (is "vm_ok ?s")
proof (rule vm_okI)
  have sp: "spaces ?s = spaces s" by simp
  show "length (spaces ?s) \<le> 4096" "\<forall>i<length (spaces ?s). pmm_small (spaces ?s ! i)" using ok unfolding sp by (simp_all add: vm_ok_def)
  show "ent_ok (ent ?s x)" if "x \<in> upages ?s" for x using that ok unfolding upages_spaces [OF sp] ent_spaces [OF sp] by (simp add: vm_ok_def)
  fix q
  show "frame_ok ?s q"
  proof (cases "q = t")
    case True
    then show ?thesis using free_no_users [OF ok t] unfolding frame_ok_def users_spaces [OF sp] tables_spaces [OF sp] by simp
  next
    case False
    have "frame_ok s q" using ok by (simp add: vm_ok_def)
    then show ?thesis
      by (rule frame_ok_same) (use False in \<open>simp_all add: users_spaces [OF sp] ent_spaces [OF sp] tables_spaces [OF sp]\<close>)
  qed
qed

text \<open>One page more for the child: a new user \<open>y\<close> of the frame \<open>a\<close> of \<open>x\<close>.\<close>

lemma vm_ok_share:
  assumes ok: "vm_ok s" and x: "x \<in> users s a" and y: "y \<in> upages s" "\<And>p. \<not> holds (ent s y) p" and e: "holds e a" "\<not> writable e" "ent_ok e"
    and up: "length (spaces s') = length (spaces s)" "vm_small s'" "\<forall>z\<in>upages s. ent s' z = (if z = y \<or> z = x \<and> anon s a then e else ent s z)"
    and pg: "pages s' = (if anon s a then (pages s)(a := (pages s a)\<lparr>pg_count := pg_count (pages s a) + 1\<rparr>) else pages s)"
    and fr: "free_pages s' = free_pages s" and tb: "tables s' = tables s \<union> T" "\<And>t. t \<in> T \<Longrightarrow> users s t = {} \<and> t \<notin> free_pages s"
  shows "vm_ok s'"
proof (rule vm_okI)
  have u: "upages s' = upages s" by (rule upages_len [OF up(1)])
  have xh: "x \<in> upages s" "holds (ent s x) a" using x by (auto simp: users_def)
  then have xy: "x \<noteq> y" using y(2) by auto
  have fo: "frame_ok s q" for q using ok by (simp add: vm_ok_def)
  have ua: "users s' a = insert y (users s a)"
  proof -
    have "z \<in> users s' a \<longleftrightarrow> z \<in> insert y (users s a)" for z
    proof (cases "z \<in> upages s")
      case True
      then have "ent s' z = (if z = y \<or> z = x \<and> anon s a then e else ent s z)" using up(3) by blast
      then show ?thesis using True e(1) xh by (auto simp: users_def u)
    qed (use y(1) in \<open>auto simp: users_def u\<close>)
    then show ?thesis by blast
  qed
  have uq: "users s' q = users s q" if "q \<noteq> a" for q
  proof -
    have "z \<in> users s' q \<longleftrightarrow> z \<in> users s q" for z
    proof (cases "z \<in> upages s")
      case True
      then have "ent s' z = (if z = y \<or> z = x \<and> anon s a then e else ent s z)" using up(3) by blast
      moreover have "\<not> holds e q" "\<not> holds (ent s x) q" "\<not> holds (ent s y) q" using that e(1) xh y(2) by (auto simp: holds_def)
      ultimately show ?thesis using True by (auto simp: users_def u)
    qed (auto simp: users_def u)
    then show ?thesis by blast
  qed
  show "length (spaces s') \<le> 4096" "\<forall>i<length (spaces s'). pmm_small (spaces s' ! i)" using ok up by (simp_all add: vm_ok_def vm_small_def)
  show "ent_ok (ent s' z)" if "z \<in> upages s'" for z
  proof -
    have "ent s' z = (if z = y \<or> z = x \<and> anon s a then e else ent s z)" using up(3) that u by simp
    then show ?thesis using that ok e(3) by (auto simp: u vm_ok_def)
  qed
  fix q
  show "frame_ok s' q"
  proof (cases "q = a")
    case False
    have en: "ent s' z = ent s z" if "z \<in> users s q" for z
    proof -
      have "z \<noteq> x" "z \<noteq> y" using that False xh y(2) by (auto simp: users_def holds_def)
      then show ?thesis using up(3) that by (simp add: users_def)
    qed
    show ?thesis
    proof (cases "q \<in> T")
      case True
      then show ?thesis using tb(2) [OF True] uq [OF False] by (simp add: frame_ok_def fr)
    next
      case nT: False
      show ?thesis by (rule frame_ok_same [OF fo [of q]]) (use False nT uq en pg fr tb(1) in simp_all)
    qed
  next
    case True
    have nf: "a \<notin> free_pages s" "a \<notin> tables s" using fo [of a] x by (auto simp: frame_ok_def)
    have "unat (pg_count (pages s' a)) = card (users s' a) \<and> (\<forall>z\<in>users s' a. writable (ent s' z) \<longrightarrow> users s' a = {z})" if "anon s' a"
    proof -
      have an: "anon s a" using that pg by (auto split: if_splits)
      have c: "unat (pg_count (pages s a)) = card (users s a)" and w: "\<forall>z\<in>users s a. writable (ent s z) \<longrightarrow> users s a = {z}"
        using fo [of a] x an by (auto simp: frame_ok_def)
      have "card (users s a) \<le> 2 ^ 31" using card_users [of s a] ok by (simp add: vm_ok_def)
      then have "unat (pg_count (pages s a) + 1) = unat (pg_count (pages s a)) + 1" using c by (simp add: unat_word_ariths)
      moreover have "y \<notin> users s a" using y(2) by (simp add: users_def)
      ultimately have "unat (pg_count (pages s' a)) = card (users s' a)" using an c by (simp add: pg ua)
      moreover have "\<not> writable (ent s' z)" if "z \<in> users s' a" for z
      proof -
        have zu: "z \<in> upages s" using that by (simp add: users_def u)
        have z: "ent s' z = (if z = y \<or> z = x then e else ent s z)" using up(3) zu an by simp
        show ?thesis
        proof (cases "z = y \<or> z = x")
          case True
          then show ?thesis using z e(2) by simp
        next
          case False
          then have "z \<in> users s a" "users s a \<noteq> {z}" using that ua x by auto
          then show ?thesis using w z False by auto
        qed
      qed
      ultimately show ?thesis by blast
    qed
    moreover have "a \<notin> T" using tb(2) x by auto
    ultimately show ?thesis using True nf by (simp add: frame_ok_def fr tb(1))
  qed
qed

text \<open>What a virtual page shows: the contents of its page.\<close>

definition sees :: "'c vm_sys \<Rightarrow> nat \<times> uint_t \<Rightarrow> 'c option" where
  "sees s x = (if fst (ent s x) AND PMM_PRESENT \<noteq> 0 then Some (content s (snd (ent s x) AND MMU_PPN_MASK)) else None)"

lemma share_attr:
  assumes "ent_ok e" "fst e AND PMM_PRESENT \<noteq> 0"
  defines "attr \<equiv> (fst e OR PMM_COW) AND NOT PMM_WRITE"
  shows "attr AND PMM_HUGE = 0" "attr AND PMM_CLEAR = 0" "attr AND PMM_WRITE = 0" "attr AND PMM_PRESENT \<noteq> 0" "attr AND PMM_COW \<noteq> 0"
proof -
  have b: "bit attr n \<longleftrightarrow> n < 32 \<and> (bit (fst e) n \<or> n = 0) \<and> n \<noteq> 26" for n
    unfolding attr_def bit_and_iff bit_or_iff bit_not_iff attr_consts by (auto simp: bit_imp_le_length)
  show "attr AND PMM_HUGE = 0" "attr AND PMM_CLEAR = 0" "attr AND PMM_WRITE = 0" "attr AND PMM_PRESENT \<noteq> 0" "attr AND PMM_COW \<noteq> 0"
    using assms(1,2) unfolding ent_ok_def attr_bits b by simp_all
qed

text \<open>The pages for tables are free and differ from each other.\<close>

definition tbl_supply :: "(nat \<Rightarrow> ppn_t option) \<Rightarrow> nat \<Rightarrow> nat \<Rightarrow> 'c vm_sys \<Rightarrow> bool" where
  "tbl_supply tbl i n s \<longleftrightarrow> (\<forall>k t. i \<le> k \<and> k < n \<and> tbl k = Some t \<longrightarrow>
     t \<in> free_pages s \<and> unat t < 2 ^ 28 \<and> (\<forall>j. i \<le> j \<and> j < k \<longrightarrow> tbl j \<noteq> Some t))"

lemma tbl_supply_step:
  assumes "tbl_supply tbl i n s" "free_pages s - set_option (tbl i) \<subseteq> free_pages s'"
  shows "tbl_supply tbl (i + 1) n s'"
  unfolding tbl_supply_def
proof (intro allI impI)
  fix k t assume k: "i + 1 \<le> k \<and> k < n \<and> tbl k = Some t"
  then have "i \<le> k \<and> k < n \<and> tbl k = Some t" by simp
  then have t: "t \<in> free_pages s \<and> unat t < 2 ^ 28 \<and> (\<forall>j. i \<le> j \<and> j < k \<longrightarrow> tbl j \<noteq> Some t)" using assms(1) unfolding tbl_supply_def by blast
  then have "tbl i \<noteq> Some t" using k by simp
  then have "t \<in> free_pages s'" using t assms(2) by auto
  then show "t \<in> free_pages s' \<and> unat t < 2 ^ 28 \<and> (\<forall>j. i + 1 \<le> j \<and> j < k \<longrightarrow> tbl j \<noteq> Some t)" using t by simp
qed

lemma fresh_table_free:
  assumes "vm_ok s" "i < length (spaces s)" "\<And>t. tbl = Some t \<Longrightarrow> t \<in> free_pages s \<and> unat t < 2 ^ 28"
  shows "fresh_table (spaces s ! i) tbl"
  unfolding fresh_table_def
proof (intro allI impI)
  fix t assume "tbl = Some t"
  then have t: "t \<in> free_pages s" "unat t < 2 ^ 28" using assms(3) by auto
  then have "t \<notin> tables s" using free_no_users [OF assms(1)] by blast
  then show "unat t < 2 ^ 28 \<and> t \<notin> pmm_tables (spaces s ! i)" using t(2) assms(2) by (auto simp: tables_def)
qed

text \<open>One present page is given to the child.\<close>

lemma dup_step:
  assumes inv: "vm_ok s" and d: "dst < length (spaces s)" "src < length (spaces s)" "dst \<noteq> src" and us: "user_addr v"
    and pre: "fst (ent s (src, vpn v)) AND PMM_PRESENT \<noteq> 0" and emp: "\<And>p. \<not> holds (ent s (dst, vpn v)) p"
    and t0: "\<forall>t. tbl = Some t \<longrightarrow> t \<in> free_pages s \<and> unat t < 2 ^ 28"
  defines "e \<equiv> ((fst (ent s (src, vpn v)) OR PMM_COW) AND NOT PMM_WRITE, snd (ent s (src, vpn v)) AND MMU_PPN_MASK)"
  obtains (shared) s1 s2 where "set_page tbl dst v (fst e) (snd e) s = Some (0, s1)" "anon s1 (snd e) = anon s (snd e)"
      "if anon s (snd e) then \<exists>s'. set_page None src v (fst e) (snd e) s1 = Some (0, s') \<and> s2 = upd_page (snd e) (\<lambda>page. snd (page_refcount_up page)) s'
       else s2 = s1"
      "vm_ok s2" "length (spaces s2) = length (spaces s)" "content s2 = content s" "free_pages s - set_option tbl \<subseteq> free_pages s2"
      "\<forall>z\<in>upages s. ent s2 z = (if z = (dst, vpn v) \<or> z = (src, vpn v) \<and> anon s (snd e) then e else ent s z)"
      "\<forall>q. users s q \<noteq> {} \<longrightarrow> anon s2 q = anon s q \<and> (\<not> anon s q \<longrightarrow> pages s2 q = pages s q)"
    | (nomem) "set_page tbl dst v (fst e) (snd e) s = Some (ENOMEM, s)" "tbl = None"
proof -
  let ?x = "(src, vpn v)" and ?y = "(dst, vpn v)"
  have t: "\<And>t. tbl = Some t \<Longrightarrow> t \<in> free_pages s \<and> unat t < 2 ^ 28" using t0 by blast
  have xu: "?x \<in> upages s" "?y \<in> upages s" using d us by (simp_all add: mem_upages user_addr_vpn)
  have eo: "ent_ok (ent s ?x)" using inv xu by (simp add: vm_ok_def)
  note a = share_attr [OF eo pre]
  have pz: "snd e \<noteq> 0" "unat (snd e) < 2 ^ 28" using eo pre ppn_mask_lt by (simp_all add: ent_ok_def e_def)
  have ea: "fst e AND PMM_HUGE = 0" "fst e AND PMM_CLEAR = 0" "fst e \<noteq> 0" "\<not> writable e" using a by (auto simp: e_def)
  have he: "holds e (snd e)" "ent_ok e" using pz ea by (auto simp: holds_def ent_ok_def and_ppn_mask)
  have fx: "fst (ent s ?x) \<noteq> 0" using pre by auto
  have x: "?x \<in> users s (snd e)" using xu fx pz(1) by (simp add: users_def holds_def e_def)
  have ft: "fresh_table (spaces s ! dst) tbl" by (rule fresh_table_free [OF inv d(1) t])
  show thesis
  proof (cases rule: set_page_cases [OF vm_ok_small [OF inv] d(1) us ea(1,2) pz(2) ft, case_names ok nomem])
    case nomem
    then show ?thesis using that(2) by simp
  next
    case (ok used s1)
    define s0 where "s0 = (if used then kmem_alloc_page tbl s else s)"
    have f1: "pages s1 = pages s0" "free_pages s1 = free_pages s0" "content s1 = content s"
      using arg_cong [OF ok(3), of pages] arg_cong [OF ok(3), of free_pages] arg_cong [OF ok(3), of content] by (simp_all add: s0_def)
    have ne: "tbl \<noteq> Some (snd e)" using t free_no_users [OF inv] x by fastforce
    have an: "pg_mapper (pages s1 q) = pg_mapper (pages s q)" for q using ok(4) by (auto simp: f1 s0_def split: if_splits)
    have sp0: "spaces s0 = spaces s" by (simp add: s0_def)
    have inv0: "vm_ok s0" using vm_ok_alloc [OF inv] t inv ok(4) by (auto simp: s0_def)
    have x0: "?x \<in> users s0 (snd e)" "?y \<in> upages s0" "\<And>p. \<not> holds (ent s0 ?y) p" "\<And>q. anon s0 q = anon s q"
      using x xu emp an by (simp_all add: users_spaces [OF sp0] upages_spaces [OF sp0] ent_spaces [OF sp0] f1)
    define T where "T = (if used then {the tbl} else {})"
    have f0: "free_pages s0 = free_pages s - T" using ok(4) by (auto simp: s0_def T_def)
    have T: "tables s1 = tables s0 \<union> T" "\<And>t. t \<in> T \<Longrightarrow> users s0 t = {} \<and> t \<notin> free_pages s0"
      using ok(4,5) t free_no_users [OF inv] unfolding tables_spaces [OF sp0] users_spaces [OF sp0] f0 by (auto simp: T_def split: if_splits)
    have fr: "free_pages s - set_option tbl \<subseteq> free_pages s0" using ok(4) by (auto simp: s0_def)
    have u1: "upages s1 = upages s" "length (spaces s1) = length (spaces s)" "vm_small s1" using ok(2) by (simp_all add: ent_upd_def upages_def)
    have pg1: "pages s1 q = pages s q" if "users s q \<noteq> {}" for q
    proof -
      have "tbl \<noteq> Some q" using t [of q] free_no_users [OF inv, of q] that by blast
      then show ?thesis using ok(4) by (auto simp: f1 s0_def split: if_splits)
    qed
    have e1: "ent s1 z = (if z = ?y then e else ent s z)" if "z \<in> upages s" for z using ok(2) that by (simp add: ent_upd_def)
    show ?thesis
    proof (cases "anon s (snd e)")
      case False
      have "vm_ok s1"
        by (rule vm_ok_share [OF inv0 x0(1-3) he(1) ea(4) he(2), of s1 T])
           (use False u1 e1 x0(4) f1 T in \<open>simp_all add: sp0 upages_spaces [OF sp0] ent_spaces [OF sp0]\<close>)
      then show ?thesis using shared [of s1 s1] ok(1) an u1 f1 fr e1 False pg1 by simp
    next
      case True
      have fx1: "fst (ent s1 ?x) \<noteq> 0" "src < length (spaces s1)" using e1 [OF xu(1)] fx ea(3) u1 d by (simp_all split: if_splits)
      obtain s' where s': "set_page None src v (fst e) (snd e) s1 = Some (0, s')" "ent_upd s1 s' ?x (fst e, snd e)" "s' = s1\<lparr>spaces := spaces s'\<rparr>" "tables s' = tables s1"
        by (rule set_page_exists [OF u1(3) fx1(2) us ea(1,2) pz(2) fx1(1)])
      have f': "pages s' = pages s1" "free_pages s' = free_pages s1" "content s' = content s1"
        using arg_cong [OF s'(3), of pages] arg_cong [OF s'(3), of free_pages] arg_cong [OF s'(3), of content] by simp_all
      define s2 where "s2 = upd_page (snd e) (\<lambda>page. snd (page_refcount_up page)) s'"
      have sp2: "spaces s2 = spaces s'" by (simp add: s2_def)
      have e2: "ent s2 z = (if z = ?y \<or> z = ?x then e else ent s z)" if "z \<in> upages s" for z
        using s'(2) e1 [OF that] that u1(1) unfolding ent_spaces [OF sp2] by (auto simp: ent_upd_def)
      have l2: "length (spaces s2) = length (spaces s)" "vm_small s2" using s'(2) u1 by (simp_all add: sp2 ent_upd_def vm_small_def)
      have "vm_ok s2"
        by (rule vm_ok_share [OF inv0 x0(1-3) he(1) ea(4) he(2), of s2 T])
           (use True l2 e2 x0(4) f1 f' T s'(4) tables_spaces [OF sp2] in \<open>simp_all add: sp0 upages_spaces [OF sp0] ent_spaces [OF sp0] s2_def page_refcount_up_def\<close>)
      moreover have "anon s2 q = anon s q \<and> (\<not> anon s q \<longrightarrow> pages s2 q = pages s q)" if "users s q \<noteq> {}" for q
        using pg1 [OF that] True by (auto simp: s2_def f' page_refcount_up_def)
      ultimately show ?thesis using shared [of s1 s2] ok(1) an l2 f1 f' fr e2 True s'(1) by (simp add: s2_def)
    qed
  qed
qed

text \<open>The entries after the virtual pages \<open>Q\<close> have been duplicated: the child gets the entry of each present page of the parent
  for copy on write, and if the frame is anonymous the parent's entry becomes the same; the parent keeps its entry for a frame of
  a mapper.\<close>

definition shared_ent :: "uint_t \<times> ppn_t \<Rightarrow> uint_t \<times> ppn_t" where
  "shared_ent e = ((fst e OR PMM_COW) AND NOT PMM_WRITE, snd e AND MMU_PPN_MASK)"

definition dup_ent :: "nat \<Rightarrow> nat \<Rightarrow> uint_t set \<Rightarrow> 'c vm_sys \<Rightarrow> nat \<times> uint_t \<Rightarrow> uint_t \<times> ppn_t" where
  "dup_ent dst src Q s z =
     (let e = ent s (src, snd z)
      in if snd z \<in> Q \<and> fst e AND PMM_PRESENT \<noteq> 0 \<and> (fst z = dst \<or> fst z = src \<and> anon s (snd e AND MMU_PPN_MASK))
         then shared_ent e else ent s z)"

abbreviation first_pages :: "uint_t \<Rightarrow> nat \<Rightarrow> uint_t set" where
  "first_pages v m \<equiv> (\<lambda>k. drop_bit 12 (page_addr v k)) ` {..<m}"

lemma first_pages_Suc: "first_pages v (Suc m) = insert (vpn v) (first_pages (v + 0x1000) m)"
proof -
  have "{..<Suc m} = insert 0 (Suc ` {..<m})" by (auto simp: lessThan_Suc_eq_insert_0)
  then show ?thesis by (simp only: image_insert image_image page_addr_Suc) simp
qed

lemma present_user:
  assumes "vm_ok s" "x \<in> upages s" "fst (ent s x) AND PMM_PRESENT \<noteq> 0"
  shows "x \<in> users s (snd (ent s x) AND MMU_PPN_MASK)"
proof -
  have "ent_ok (ent s x)" using assms(1,2) by (simp add: vm_ok_def)
  then show ?thesis using assms(2,3) by (auto simp: users_def holds_def ent_ok_def)
qed

text \<open>Duplicating a page and then the others.\<close>

lemma dup_ent_Suc:
  assumes inv: "vm_ok s" and z: "z \<in> upages s" and d: "src < length (spaces s)" "dst \<noteq> src" and new: "vpn v \<notin> Q"
    and e: "\<forall>z\<in>upages s. ent s2 z = dup_ent dst src {vpn v} s z" and an: "\<forall>q. users s q \<noteq> {} \<longrightarrow> anon s2 q = anon s q"
  shows "dup_ent dst src Q s2 z = dup_ent dst src (insert (vpn v) Q) s z"
proof (cases "snd z = vpn v")
  case True
  then have "dup_ent dst src Q s2 z = ent s2 z" using new by (simp add: dup_ent_def)
  then show ?thesis using e z True by (simp add: dup_ent_def)
next
  case False
  let ?x = "(src, snd z)"
  have x: "?x \<in> upages s" using z d by (cases z) (simp add: mem_upages)
  have s2: "ent s2 z = ent s z" "ent s2 ?x = ent s ?x" using e z x False by (simp_all add: dup_ent_def)
  have "anon s2 (snd (ent s ?x) AND MMU_PPN_MASK) = anon s (snd (ent s ?x) AND MMU_PPN_MASK)" if "fst (ent s ?x) AND PMM_PRESENT \<noteq> 0"
    using present_user [OF inv x that] an by blast
  then show ?thesis using False by (auto simp: dup_ent_def s2 Let_def)
qed

lemma dup_keeps_users:
  assumes inv: "vm_ok s" and l: "length (spaces s2) = length (spaces s)" and d: "src < length (spaces s)"
    and e: "\<forall>z\<in>upages s. ent s2 z = dup_ent dst src Q s z"
    and emp: "\<And>q p. q \<in> Q \<Longrightarrow> \<not> holds (ent s (dst, q)) p" and u: "users s p \<noteq> {}"
  shows "users s2 p \<noteq> {}"
proof -
  obtain z where z: "z \<in> upages s" "holds (ent s z) p" using u by (auto simp: users_def)
  have z2: "z \<in> upages s2" using z(1) upages_len [OF l] by simp
  have "holds (ent s2 z) p"
  proof (cases "fst z = src \<and> snd z \<in> Q \<and> fst (ent s z) AND PMM_PRESENT \<noteq> 0 \<and> anon s (snd (ent s z) AND MMU_PPN_MASK)")
    case True
    then have zs: "(src, snd z) = z" by auto
    have "ent_ok (ent s z)" using inv z(1) by (simp add: vm_ok_def)
    from share_attr(4) [OF this] have "fst (shared_ent (ent s z)) \<noteq> 0" using True by (auto simp: shared_ent_def)
    moreover have "ent s2 z = shared_ent (ent s z)" using e z(1) True zs by (simp add: dup_ent_def)
    moreover have "p AND MMU_PPN_MASK = p" using z(2) by (auto simp: holds_def and.assoc)
    ultimately show ?thesis using z(2) by (auto simp: holds_def shared_ent_def)
  next
    case False
    have "\<not> (fst z = dst \<and> snd z \<in> Q)" using emp [of "snd z" p] z(2) by (cases z) auto
    then have "ent s2 z = ent s z" using e z(1) False by (cases z) (auto simp: dup_ent_def Let_def)
    then show ?thesis using z(2) by simp
  qed
  then have "z \<in> users s2 p" using z2 by (simp add: users_def)
  then show ?thesis by blast
qed

lemma dup_loop_ok:
  assumes "vm_ok s" and "dst < length (spaces s)" "src < length (spaces s)" and ds: "dst \<noteq> src" and "user_range v n" and "n \<le> 2 ^ 20"
    and "\<forall>k<n. \<forall>p. \<not> holds (ent s (dst, vpn (page_addr v k))) p" and "tbl_supply tbl i (i + n) s"
  shows "\<exists>err m s'. region_dup_loop tbl i dst src v n s = Some (err, s') \<and> vm_ok s' \<and>
     length (spaces s') = length (spaces s) \<and> content s' = content s \<and>
     (err = 0 \<and> m = n \<or> err = ENOMEM \<and> m < n \<and> tbl (i + m) = None \<and> fst (ent s (src, vpn (page_addr v m))) AND PMM_PRESENT \<noteq> 0) \<and>
     (\<forall>z\<in>upages s. ent s' z = dup_ent dst src (first_pages v m) s z) \<and>
     (\<forall>q. users s q \<noteq> {} \<longrightarrow> anon s' q = anon s q \<and> (\<not> anon s q \<longrightarrow> pages s' q = pages s q))"
  using assms(1-3,5-8)
proof (induction n arbitrary: v i s)
  case 0
  then show ?case by (intro exI [of _ 0] exI [of _ s]) (simp add: dup_ent_def)
next
  case (Suc n)
  let ?x = "(src, vpn v)" and ?y = "(dst, vpn v)"
  have us: "user_addr v" and ur: "user_range (v + 0x1000) n" using Suc.prems(4) by (simp_all add: user_range_Suc)
  have inj: "vpn (page_addr (v + 0x1000) k) \<noteq> vpn v" if "k < n" for k
  proof
    assume "vpn (page_addr (v + 0x1000) k) = vpn v"
    then have "vpn (page_addr v (Suc k)) = vpn (page_addr v 0)" unfolding page_addr_Suc by simp
    then show False using page_addr_inj [of v "Suc k" 0] that Suc.prems(5) by simp
  qed
  have xu: "?x \<in> upages s" "?y \<in> upages s" using Suc.prems(2,3) us by (simp_all add: mem_upages user_addr_vpn)
  have emp: "\<not> holds (ent s ?y) p" for p using Suc.prems(6) by (metis add.right_neutral mult_zero_left of_nat_0 zero_less_Suc)
  note g = get_page_eq [OF vm_ok_small [OF Suc.prems(1)] Suc.prems(3) us]
  have main: ?case
    if st: "region_dup_loop tbl i dst src v (Suc n) s = region_dup_loop tbl (i + 1) dst src (v + 0x1000) n s2" and inv: "vm_ok s2"
      and l: "length (spaces s2) = length (spaces s)" and c: "content s2 = content s" and f: "free_pages s - set_option (tbl i) \<subseteq> free_pages s2"
      and e: "\<forall>z\<in>upages s. ent s2 z = dup_ent dst src {vpn v} s z"
      and pg: "\<forall>q. users s q \<noteq> {} \<longrightarrow> anon s2 q = anon s q \<and> (\<not> anon s q \<longrightarrow> pages s2 q = pages s q)" for s2
  proof -
    have u2: "upages s2 = upages s" by (rule upages_len [OF l])
    have "i + Suc n = i + 1 + n" by simp
    then have ts: "tbl_supply tbl (i + 1) (i + 1 + n) s2" using tbl_supply_step [OF Suc.prems(7) f] by simp
    have later: "ent s2 (j, vpn (page_addr (v + 0x1000) k)) = ent s (j, vpn (page_addr (v + 0x1000) k))" if "k < n" "j < length (spaces s)" for j k
      using e inj [OF that(1)] that ur by (auto simp: mem_upages user_range_def user_addr_vpn dup_ent_def)
    have em2: "\<forall>k<n. \<forall>p. \<not> holds (ent s2 (dst, vpn (page_addr (v + 0x1000) k))) p"
      using later Suc.prems(2,6) page_addr_Suc [of v] by (metis Suc_less_eq)
    have ih: "vm_ok s2" "dst < length (spaces s2)" "src < length (spaces s2)" "n \<le> 2 ^ 20" using inv l Suc.prems(2,3,5) by simp_all
    obtain err m s' where r: "region_dup_loop tbl (i + 1) dst src (v + 0x1000) n s2 = Some (err, s')" "vm_ok s'"
        "length (spaces s') = length (spaces s2)" "content s' = content s2"
      and m: "err = 0 \<and> m = n \<or> err = ENOMEM \<and> m < n \<and> tbl (i + 1 + m) = None \<and> fst (ent s2 (src, vpn (page_addr (v + 0x1000) m))) AND PMM_PRESENT \<noteq> 0"
      and en: "\<forall>z\<in>upages s2. ent s' z = dup_ent dst src (first_pages (v + 0x1000) m) s2 z"
      and pg': "\<forall>q. users s2 q \<noteq> {} \<longrightarrow> anon s' q = anon s2 q \<and> (\<not> anon s2 q \<longrightarrow> pages s' q = pages s2 q)"
      using Suc.IH [OF ih(1-3) ur ih(4) em2 ts] by (elim exE conjE) (rule that)
    have "m \<le> n" using m by auto
    then have new: "vpn v \<notin> first_pages (v + 0x1000) m" using inj by (metis (no_types, lifting) imageE lessThan_iff order_less_le_trans)
    have an: "\<forall>q. users s q \<noteq> {} \<longrightarrow> anon s2 q = anon s q" using pg by blast
    have "ent s' z = dup_ent dst src (first_pages v (Suc m)) s z" if "z \<in> upages s" for z
      unfolding first_pages_Suc using en that u2 dup_ent_Suc [OF Suc.prems(1) that Suc.prems(3) ds new e an] by simp
    moreover have "anon s' q = anon s q \<and> (\<not> anon s q \<longrightarrow> pages s' q = pages s q)" if "users s q \<noteq> {}" for q
    proof -
      have "users s2 q \<noteq> {}" by (rule dup_keeps_users [OF Suc.prems(1) l Suc.prems(3) e _ that]) (use emp in simp)
      then show ?thesis using pg pg' that by auto
    qed
    moreover have "err = 0 \<and> Suc m = Suc n \<or> err = ENOMEM \<and> Suc m < Suc n \<and> tbl (i + Suc m) = None \<and>
        fst (ent s (src, vpn (page_addr v (Suc m)))) AND PMM_PRESENT \<noteq> 0"
      using m later [of m src] Suc.prems(3) unfolding page_addr_Suc by auto
    ultimately show ?thesis using st r l c by (intro exI [of _ err] exI [of _ "Suc m"] exI [of _ s']) simp
  qed
  show ?case
  proof (cases "fst (ent s ?x) AND PMM_PRESENT = 0")
    case True
    then have "\<forall>z\<in>upages s. ent s z = dup_ent dst src {vpn v} s z" by (auto simp: dup_ent_def Let_def)
    then show ?thesis using True Suc.prems(1) by (intro main [of s]) (simp_all add: g)
  next
    case pre: False
    have t: "\<forall>t. tbl i = Some t \<longrightarrow> t \<in> free_pages s \<and> unat t < 2 ^ 28" using Suc.prems(7) [unfolded tbl_supply_def, rule_format, of i] by simp
    show ?thesis
    proof (cases rule: dup_step [where tbl = "tbl i", OF Suc.prems(1-3) ds us pre emp t, case_names shared nomem])
      case nomem
      then have "region_dup_loop tbl i dst src v (Suc n) s = Some (ENOMEM, s)" using pre by (simp add: g Let_def)
      then show ?thesis using pre Suc.prems(1) nomem(2) by (intro exI [of _ ENOMEM] exI [of _ 0] exI [of _ s]) (simp add: dup_ent_def)
    next
      case (shared s1 s2)
      let ?p = "snd (ent s ?x) AND MMU_PPN_MASK"
      define e where "e = ((fst (ent s ?x) OR PMM_COW) AND NOT PMM_WRITE, ?p)"
      note sh = shared [folded e_def]
      have e': "snd e = ?p" "e = shared_ent (ent s ?x)" by (simp_all add: e_def shared_ent_def)
      show ?thesis
      proof (rule main [of s2])
        have s1: "set_page (tbl i) dst v ((fst (ent s ?x) OR PMM_COW) AND NOT PMM_WRITE) ?p s = Some (0, s1)" using sh(1) by (simp only: e_def fst_conv snd_conv)
        show "region_dup_loop tbl i dst src v (Suc n) s = region_dup_loop tbl (i + 1) dst src (v + 0x1000) n s2"
        proof (cases "anon s ?p")
          case True
          then obtain s' where s': "set_page None src v (fst e) (snd e) s1 = Some (0, s')" "s2 = upd_page (snd e) (\<lambda>page. snd (page_refcount_up page)) s'"
            using sh(3) e'(1) by auto
          have "set_page None src v ((fst (ent s ?x) OR PMM_COW) AND NOT PMM_WRITE) ?p s1 = Some (0, s')" using s'(1) by (simp only: e_def fst_conv snd_conv)
          then show ?thesis using pre s1 sh(2) True s'(2) e'(1) by (simp add: g Let_def)
        next
          case False
          then have "s2 = s1" using sh(3) e'(1) by simp
          then show ?thesis using pre s1 sh(2) False e'(1) by (simp add: g Let_def)
        qed
        show "\<forall>z\<in>upages s. ent s2 z = dup_ent dst src {vpn v} s z"
        proof
          fix z assume z: "z \<in> upages s"
          have "ent s2 z = (if z = ?y \<or> z = ?x \<and> anon s ?p then shared_ent (ent s ?x) else ent s z)" using sh(8) z unfolding e'(1) by (simp add: e'(2))
          then show "ent s2 z = dup_ent dst src {vpn v} s z" using pre ds by (cases z) (auto simp: dup_ent_def Let_def)
        qed
      qed (use sh(4-7,9) in simp_all)
    qed
  qed
qed

lemma sees_shared:
  assumes "vm_ok s" "x \<in> upages s" "fst (ent s x) AND PMM_PRESENT \<noteq> 0" "ent s' z = shared_ent (ent s x)" "content s' = content s"
  shows "sees s' z = sees s x"
proof -
  have "ent_ok (ent s x)" using assms(1,2) by (simp add: vm_ok_def)
  from share_attr(4) [OF this assms(3)] show ?thesis using assms(3-5) by (simp add: sees_def shared_ent_def and.assoc)
qed

lemma sees_dup_other:
  assumes "vm_ok s" "z \<in> upages s" "ent s' z = dup_ent dst src Q s z" "content s' = content s" "\<not> (fst z = dst \<and> snd z \<in> Q)"
  shows "sees s' z = sees s z"
proof (cases "ent s' z = ent s z")
  case True
  then show ?thesis using assms(4) by (simp add: sees_def)
next
  case False
  then have "(src, snd z) = z" "fst (ent s z) AND PMM_PRESENT \<noteq> 0" "ent s' z = shared_ent (ent s z)"
    using assms(3,5) by (auto simp: dup_ent_def Let_def split: if_splits)
  then show ?thesis using sees_shared [OF assms(1,2)] assms(4) by blast
qed

lemma sees_dup_child:
  assumes "vm_ok s" "(dst, q) \<in> upages s" "(src, q) \<in> upages s" and emp: "\<And>p. q \<in> Q \<Longrightarrow> \<not> holds (ent s (dst, q)) p"
    and "ent s' (dst, q) = dup_ent dst src Q s (dst, q)" "content s' = content s" "q \<in> Q"
  shows "sees s' (dst, q) = sees s (src, q)"
proof (cases "fst (ent s (src, q)) AND PMM_PRESENT = 0")
  case True
  have "ent_ok (ent s (dst, q))" using assms(1,2) by (simp add: vm_ok_def)
  then have "sees s (dst, q) = None" using emp [OF assms(7), of "snd (ent s (dst, q)) AND MMU_PPN_MASK"] by (auto simp: sees_def holds_def ent_ok_def)
  moreover have "ent s' (dst, q) = ent s (dst, q)" using True assms(5) by (simp add: dup_ent_def)
  ultimately show ?thesis using True assms(6) by (simp add: sees_def split: if_splits)
next
  case False
  then have "ent s' (dst, q) = shared_ent (ent s (src, q))" using assms(5,7) by (simp add: dup_ent_def)
  then show ?thesis using sees_shared [OF assms(1,3) False] assms(6) by blast
qed

section \<open>The release of the pages of a region\<close>

text \<open>A page is unmapped: its entry is emptied, and the frame is freed with its last user.\<close>

lemma unmap_step:
  assumes inv: "vm_ok s" and i: "i < length (spaces s)" and us: "user_addr v" and pre: "fst (ent s (i, vpn v)) AND PMM_PRESENT \<noteq> 0"
  defines "p \<equiv> snd (ent s (i, vpn v)) AND MMU_PPN_MASK"
  obtains s1 s2 where "set_page None i v 0 0 s = Some (0, s1)" "pages s1 = pages s"
    "s2 = (if anon s p then if pg_count (pages s p) = 1 then ppm_free_page p s1 else upd_page p (\<lambda>page. snd (page_refcount_down page)) s1 else s1)"
    "vm_ok s2" "ent_upd s s2 (i, vpn v) (0, 0)" "content s2 = content s" "free_pages s \<subseteq> free_pages s2"
    "\<forall>q. pg_mapper (pages s2 q) = pg_mapper (pages s q)" "\<forall>q. anon s q \<and> users s q \<noteq> {} \<and> users s2 q = {} \<longrightarrow> q \<in> free_pages s2"
proof -
  let ?x = "(i, vpn v)"
  have xu: "?x \<in> upages s" using i us by (simp add: mem_upages user_addr_vpn)
  have eo: "ent_ok (ent s ?x)" using inv xu by (simp add: vm_ok_def)
  have fx: "fst (ent s ?x) \<noteq> 0" using pre by auto
  have x: "?x \<in> users s p" using xu fx eo pre by (simp add: users_def holds_def ent_ok_def p_def)
  have z: "0 AND PMM_HUGE = (0::uint_t)" "0 AND PMM_CLEAR = (0::uint_t)" "unat (0::ppn_t) < 2 ^ 28" by simp_all
  obtain s1 where s1: "set_page None i v 0 0 s = Some (0, s1)" "ent_upd s s1 ?x (0, 0)" "s1 = s\<lparr>spaces := spaces s1\<rparr>" "tables s1 = tables s"
    by (rule set_page_exists [OF vm_ok_small [OF inv] i us z fx])
  have f1: "pages s1 = pages s" "free_pages s1 = free_pages s" "content s1 = content s"
    using arg_cong [OF s1(3), of pages] arg_cong [OF s1(3), of free_pages] arg_cong [OF s1(3), of content] by simp_all
  define s2 where "s2 = (if anon s p then if pg_count (pages s p) = 1 then ppm_free_page p s1 else upd_page p (\<lambda>page. snd (page_refcount_down page)) s1 else s1)"
  have sp: "spaces s2 = spaces s1" by (simp add: s2_def)
  have up: "ent_upd s s2 ?x (0, 0)" using s1(2) ent_upd_spaces [OF refl sp] by simp
  have tb: "tables s2 = tables s" using s1(4) tables_spaces [OF sp] by simp
  note U = users_upd [OF up xu]
  have nh: "\<not> holds (0, 0) q" for q by (simp add: holds_def)
  have fr: "free_pages s2 = free_pages s \<union> (if anon s p \<and> pg_count (pages s p) = 1 then {p} else {})" by (simp add: s2_def f1)
  have mp: "pg_mapper (pages s2 q) = pg_mapper (pages s q)" "q \<noteq> p \<Longrightarrow> pages s2 q = pages s q" for q by (simp_all add: s2_def f1 page_refcount_down_def)
  have cnt: "unat (pg_count (pages s2 p)) = unat (pg_count (pages s p)) - 1" if "anon s p"
    using that unat_minus_one' [OF count_one_user(2) [OF inv x that]] by (auto simp: s2_def f1 page_refcount_down_def)
  have nf: "p \<notin> free_pages s" using free_no_users [OF inv] x by auto
  have fo: "frame_ok s q" for q using inv by (simp add: vm_ok_def)
  have en: "ent s2 y = ent s y" if "y \<in> upages s" "y \<noteq> ?x" for y using up that by (simp add: ent_upd_def)
  have "frame_ok s2 q" for q
  proof (cases "q = p")
    case True
    have "frame_ok s2 p"
    proof (rule frame_ok_leave [OF fo x])
      show "users s2 p = users s p - {?x}" using U nh by simp
      show "ent s2 y = ent s y" if "y \<in> users s p" "y \<noteq> ?x" for y using en that by (simp add: users_def)
      show "anon s p \<and> pg_count (pages s2 p) = 0" if "p \<in> free_pages s2"
        using that nf fr cnt by (auto simp: unat_eq_zero split: if_splits)
    qed (use mp cnt tb in auto)
    then show ?thesis using True by simp
  next
    case False
    have nx: "?x \<notin> users s q" using x False by (auto simp: users_def holds_def)
    have "ent s2 y = ent s y" if "y \<in> users s q" for y
    proof -
      have "y \<noteq> ?x" "y \<in> upages s" using that nx by (auto simp: users_def)
      then show ?thesis using en by blast
    qed
    then show ?thesis by (intro frame_ok_same [OF fo [of q]]) (use False nx U nh mp tb fr in auto)
  qed
  then have "vm_ok s2" using vm_ok_upd [OF inv up] by (simp add: ent_ok_def)
  moreover have "q \<in> free_pages s2" if "anon s q \<and> users s q \<noteq> {} \<and> users s2 q = {}" for q
  proof -
    have "users s q = {?x}" using that U nh by auto
    moreover from this have "q = p" using x by (auto simp: users_def holds_def)
    ultimately show ?thesis using count_one_user(1) [OF inv x] that fr by simp
  qed
  ultimately show thesis using that [of s1 s2] s1(1) f1 s2_def up fr mp(1) by (simp add: s2_def)
qed

lemma refcount_down_up: "upd_page p (\<lambda>page. snd (page_refcount_up page)) (upd_page p (\<lambda>page. snd (page_refcount_down page)) s) = s"
  by (simp add: upd_page_def page_refcount_up_def page_refcount_down_def)

lemma unmap_loop_ok:
  assumes "vm_ok s" "i < length (spaces s)" "user_range v n"
  shows "\<exists>s'. region_unmap_loop False i v n s = Some s' \<and> vm_ok s' \<and> length (spaces s') = length (spaces s) \<and> content s' = content s \<and>
     free_pages s \<subseteq> free_pages s' \<and> (\<forall>q. pg_mapper (pages s' q) = pg_mapper (pages s q)) \<and>
     (\<forall>q. anon s q \<and> users s q \<noteq> {} \<and> users s' q = {} \<longrightarrow> q \<in> free_pages s') \<and>
     (\<forall>y\<in>upages s. ent s' y = (if (\<exists>k<n. y = (i, vpn (page_addr v k))) \<and> fst (ent s y) AND PMM_PRESENT \<noteq> 0 then (0, 0) else ent s y))"
  using assms
proof (induction n arbitrary: v s)
  case 0
  then show ?case by simp
next
  case (Suc n)
  let ?x = "(i, vpn v)"
  have us: "user_addr v" and ur: "user_range (v + 0x1000) n" using Suc.prems(3) by (simp_all add: user_range_Suc)
  have xu: "?x \<in> upages s" using Suc.prems(2) us by (simp add: mem_upages user_addr_vpn)
  note g = get_page_eq [OF vm_ok_small [OF Suc.prems(1)] Suc.prems(2) us]
  have main: ?case
    if st: "region_unmap_loop False i v (Suc n) s = region_unmap_loop False i (v + 0x1000) n s2" and inv: "vm_ok s2"
      and l: "length (spaces s2) = length (spaces s)" "content s2 = content s" "free_pages s \<subseteq> free_pages s2"
      and m: "\<forall>q. pg_mapper (pages s2 q) = pg_mapper (pages s q)" and f: "\<forall>q. anon s q \<and> users s q \<noteq> {} \<and> users s2 q = {} \<longrightarrow> q \<in> free_pages s2"
      and e: "\<forall>y\<in>upages s. ent s2 y = (if y = ?x \<and> fst (ent s y) AND PMM_PRESENT \<noteq> 0 then (0, 0) else ent s y)" for s2
  proof -
    have u2: "upages s2 = upages s" by (rule upages_len [OF l(1)])
    have i2: "i < length (spaces s2)" using Suc.prems(2) l by simp
    obtain s' where r: "region_unmap_loop False i (v + 0x1000) n s2 = Some s'" "vm_ok s'" "length (spaces s') = length (spaces s2)" "content s' = content s2"
        "free_pages s2 \<subseteq> free_pages s'" "\<forall>q. pg_mapper (pages s' q) = pg_mapper (pages s2 q)"
      and f': "\<forall>q. anon s2 q \<and> users s2 q \<noteq> {} \<and> users s' q = {} \<longrightarrow> q \<in> free_pages s'"
      and e': "\<forall>y\<in>upages s2. ent s' y = (if (\<exists>k<n. y = (i, vpn (page_addr (v + 0x1000) k))) \<and> fst (ent s2 y) AND PMM_PRESENT \<noteq> 0 then (0, 0) else ent s2 y)"
      using Suc.IH [OF inv i2 ur] by blast
    have F: "q \<in> free_pages s'" if "anon s q \<and> users s q \<noteq> {} \<and> users s' q = {}" for q
    proof (cases "users s2 q = {}")
      case True
      then show ?thesis using f that r(5) by blast
    next
      case False
      then show ?thesis using f' that m by simp
    qed
    have E: "ent s' y = (if (\<exists>k<Suc n. y = (i, vpn (page_addr v k))) \<and> fst (ent s y) AND PMM_PRESENT \<noteq> 0 then (0, 0) else ent s y)" if y: "y \<in> upages s" for y
    proof -
      have s: "(\<exists>k<Suc n. y = (i, vpn (page_addr v k))) \<longleftrightarrow> y = ?x \<or> (\<exists>k<n. y = (i, vpn (page_addr (v + 0x1000) k)))"
        unfolding ex_less_Suc_shift page_addr_Suc by simp
      have e2: "ent s2 y = (if y = ?x \<and> fst (ent s y) AND PMM_PRESENT \<noteq> 0 then (0, 0) else ent s y)" using e y by blast
      have e3: "ent s' y = (if (\<exists>k<n. y = (i, vpn (page_addr (v + 0x1000) k))) \<and> fst (ent s2 y) AND PMM_PRESENT \<noteq> 0 then (0, 0) else ent s2 y)" using e' y u2 by blast
      show ?thesis unfolding s
      proof (cases "y = ?x \<and> fst (ent s y) AND PMM_PRESENT \<noteq> 0")
        case True
        have "ent s2 y = (0, 0)" unfolding e2 if_P [OF True] ..
        then show "ent s' y = (if (y = ?x \<or> (\<exists>k<n. y = (i, vpn (page_addr (v + 0x1000) k)))) \<and> fst (ent s y) AND PMM_PRESENT \<noteq> 0 then (0, 0) else ent s y)"
          unfolding e3 using conjunct1 [OF True] conjunct2 [OF True] by auto
      next
        case False
        have "ent s2 y = ent s y" unfolding e2 if_not_P [OF False] ..
        then show "ent s' y = (if (y = ?x \<or> (\<exists>k<n. y = (i, vpn (page_addr (v + 0x1000) k)))) \<and> fst (ent s y) AND PMM_PRESENT \<noteq> 0 then (0, 0) else ent s y)"
          unfolding e3 using False by auto
      qed
    qed
    show ?thesis using st r F E l m by (intro exI [of _ s']) auto
  qed
  show ?case
  proof (cases "fst (ent s ?x) AND PMM_PRESENT = 0")
    case True
    then show ?thesis using Suc.prems(1) by (intro main [of s]) (auto simp: g)
  next
    case pre: False
    let ?p = "snd (ent s ?x) AND MMU_PPN_MASK"
    obtain s1 s2 where st: "set_page None i v 0 0 s = Some (0, s1)" "pages s1 = pages s"
        "s2 = (if anon s ?p then if pg_count (pages s ?p) = 1 then ppm_free_page ?p s1 else upd_page ?p (\<lambda>page. snd (page_refcount_down page)) s1 else s1)"
        "vm_ok s2" "ent_upd s s2 ?x (0, 0)" "content s2 = content s" "free_pages s \<subseteq> free_pages s2"
        "\<forall>q. pg_mapper (pages s2 q) = pg_mapper (pages s q)" "\<forall>q. anon s q \<and> users s q \<noteq> {} \<and> users s2 q = {} \<longrightarrow> q \<in> free_pages s2"
      by (rule unmap_step [OF Suc.prems(1,2) us pre])
    show ?thesis
    proof (rule main [of s2])
      show "region_unmap_loop False i v (Suc n) s = region_unmap_loop False i (v + 0x1000) n s2"
        using pre st(1,2,3) by (simp add: g Let_def refcount_down_up)
      show "length (spaces s2) = length (spaces s)" using st(5) by (simp add: ent_upd_def)
      show "\<forall>y\<in>upages s. ent s2 y = (if y = ?x \<and> fst (ent s y) AND PMM_PRESENT \<noteq> 0 then (0, 0) else ent s y)" using st(5) pre by (auto simp: ent_upd_def)
    qed (use st in blast)+
  qed
qed

section \<open>A new page\<close>

text \<open>A frame without users gets its first one; \<open>T\<close> are the pages of new tables.\<close>

lemma vm_ok_new:
  assumes ok: "vm_ok s" and x: "x \<in> upages s" "\<And>q. \<not> holds (ent s x) q" and up: "ent_upd s s' x e" and e: "holds e p" "ent_ok e"
    and p: "users s p = {}" "p \<notin> tables s" "p \<notin> T" and pg: "anon s' p" "pg_count (pages s' p) = 1" "\<And>q. q \<noteq> p \<Longrightarrow> pages s' q = pages s q"
    and fr: "free_pages s' = free_pages s - {p}" and tb: "tables s' = tables s \<union> T" "\<And>t. t \<in> T \<Longrightarrow> users s t = {} \<and> t \<notin> free_pages s"
  shows "vm_ok s'"
proof (rule vm_ok_upd [OF ok up _ e(2)])
  fix q
  note U = users_upd [OF up x(1)]
  have fo: "frame_ok s q" using ok by (simp add: vm_ok_def)
  have nx: "x \<notin> users s q" using x(2) by (simp add: users_def)
  show "frame_ok s' q"
  proof (cases "q = p")
    case True
    then show ?thesis using U [of p] e(1) p pg(1,2) fr tb(1) by (simp add: frame_ok_def)
  next
    case False
    have u: "users s' q = users s q" using U [of q] e(1) False nx by (auto simp: holds_def)
    have "ent s' y = ent s y" if "y \<in> users s q" for y
    proof -
      have "y \<noteq> x" "y \<in> upages s" using that nx by (auto simp: users_def)
      then show ?thesis using up by (simp add: ent_upd_def)
    qed
    then show ?thesis
    proof (cases "q \<in> T")
      case True
      then show ?thesis using tb(2) [OF True] u fr by (simp add: frame_ok_def)
    qed (intro frame_ok_same [OF fo], use u pg(3) False fr tb(1) in auto)
  qed
qed

text \<open>Only the table of the address is new.\<close>

lemma vm_ok_tables:
  assumes ok: "vm_ok s" and up: "length (spaces s') = length (spaces s)" "vm_small s'" "\<forall>y\<in>upages s. ent s' y = ent s y"
    and pg: "pages s' = pages s" "free_pages s' = free_pages s" and tb: "tables s' = tables s \<union> T" "\<And>t. t \<in> T \<Longrightarrow> users s t = {} \<and> t \<notin> free_pages s"
  shows "vm_ok s'"
proof (rule vm_okI)
  have u: "upages s' = upages s" by (rule upages_len [OF up(1)])
  have us: "users s' q = users s q" for q using up(3) by (auto simp: users_def u)
  show "length (spaces s') \<le> 4096" "\<forall>i<length (spaces s'). pmm_small (spaces s' ! i)" using ok up by (simp_all add: vm_ok_def vm_small_def)
  show "ent_ok (ent s' x)" if "x \<in> upages s'" for x using that up(3) ok by (simp add: u vm_ok_def)
  fix q
  have fo: "frame_ok s q" using ok by (simp add: vm_ok_def)
  have en: "ent s' y = ent s y" if "y \<in> users s q" for y using up(3) that by (simp add: users_def)
  show "frame_ok s' q"
  proof (cases "q \<in> T")
    case True
    then show ?thesis using tb(2) [OF True] us pg by (simp add: frame_ok_def)
  qed (intro frame_ok_same [OF fo], use us en pg tb(1) in auto)
qed

lemma lock_page_cases:
  assumes "vm_small s" "i < length (spaces s)" "user_addr v" "fst (ent s (i, vpn v)) = 0" and "fresh_table (spaces s ! i) tbl"
  obtains (locked) used info s1 pmm where "lock_page tbl i v s = Some (0, info, s1)" "pi_isAtomic info"
      "ent_upd s s1 (i, vpn v) (PMM_LOCKED, snd (ent s (i, vpn v)))" "s1 = (if used then kmem_alloc_page tbl s else s)\<lparr>spaces := spaces s1\<rparr>" "used \<longrightarrow> tbl \<noteq> None"
      "tables s1 = tables s \<union> (if used then {the tbl} else {})"
      "unlock_page i v s1 = Some (s1\<lparr>spaces := (spaces s1)[i := pmm]\<rparr>)" "ent_upd s (s1\<lparr>spaces := (spaces s1)[i := pmm]\<rparr>) (i, vpn v) (ent s (i, vpn v))"
      "tables (s1\<lparr>spaces := (spaces s1)[i := pmm]\<rparr>) = tables s1"
    | (nomem) info where "lock_page tbl i v s = Some (ENOMEM, info, s)" "tbl = None"
proof -
  let ?P = "spaces s ! i" and ?x = "(i, vpn v)"
  have sm: "pmm_small ?P" using assms(1,2) by (simp add: vm_small_def)
  have en: "ent s ?x = pte_at ?P v" by (rule ent_vpn [OF assms(3)])
  obtain err used info pmm1 where l: "pmm_lock_page (\<lambda>pmm. pmm) tbl v ?P = Some (err, used, info, pmm1)"
    and c: "if err \<noteq> 0 then err = ENOMEM \<and> tbl = None \<and> pmm1 = ?P \<and> \<not> used
     else pmm_small pmm1 \<and> is_table (pgdir pmm1 ! MMU_PDE v) \<and> pi_isAtomic info = (fst (pte_at ?P v) = 0) \<and>
       (\<forall>w. pte_at pmm1 w = (if vpn w = vpn v \<and> pi_isAtomic info then (PMM_LOCKED, snd (pte_at ?P v)) else pte_at ?P w)) \<and>
       (used \<longrightarrow> tbl \<noteq> None) \<and> pmm_tables pmm1 = pmm_tables ?P \<union> (if used then {the tbl} else {})"
    using pmm_lock_page_ok [OF sm assms(3,5)] by blast
  show thesis
  proof (cases "err = 0")
    case False
    then show ?thesis using nomem [of info] l c by (simp add: lock_page_def)
  next
    case True
    note c' = c [unfolded True, unfolded simp_thms if_False]
    have at: "pi_isAtomic info" using c' assms(4) en by simp
    have p1: "pmm_small pmm1" "is_table (pgdir pmm1 ! MMU_PDE v)" and t1: "pmm_tables pmm1 = pmm_tables ?P \<union> (if used then {the tbl} else {})" "used \<longrightarrow> tbl \<noteq> None"
      and w0: "\<forall>w. pte_at pmm1 w = (if vpn w = vpn v \<and> pi_isAtomic info then (PMM_LOCKED, snd (pte_at ?P v)) else pte_at ?P w)"
      using c' by blast+
    have w1: "pte_at pmm1 w = (if vpn w = vpn v then (PMM_LOCKED, snd (ent s ?x)) else pte_at ?P w)" for w using w0 at unfolding en by simp
    define s1 where "s1 = (if used then kmem_alloc_page tbl s else s)\<lparr>spaces := (spaces s)[i := pmm1]\<rparr>"
    have sp1: "spaces s1 = (spaces s)[i := pmm1]" by (simp add: s1_def)
    have "pte_at pmm1 v = (PMM_LOCKED, snd (ent s ?x))" using w1 by simp
    from pmm_unlock_page_ok [OF p1 this] obtain inf pmm2 where u: "pmm_unlock_page v pmm1 = Some (inf, pmm2)" "pmm_small pmm2" "pgdir pmm2 = pgdir pmm1"
      "\<And>w. pte_at pmm2 w = (if vpn w = vpn v then (0, snd (ent s ?x)) else pte_at pmm1 w)" by blast
    show ?thesis
    proof (rule locked [of info s1 used pmm2])
      show "lock_page tbl i v s = Some (0, info, s1)" using l True by (simp add: lock_page_def s1_def)
      show "ent_upd s s1 ?x (PMM_LOCKED, snd (ent s ?x))" by (rule ent_updI [OF assms(1-3) p1(1) w1 sp1])
      show "tables s1 = tables s \<union> (if used then {the tbl} else {})" by (rule tables_upd [OF assms(2) sp1 t1(1)])
      show "unlock_page i v s1 = Some (s1\<lparr>spaces := (spaces s1)[i := pmm2]\<rparr>)" using assms(2) u(1) by (simp add: unlock_page_def sp1)
      have "(0, snd (ent s ?x)) = ent s ?x" using assms(4) by (metis prod.collapse)
      then have w2: "pte_at pmm2 w = (if vpn w = vpn v then ent s ?x else pte_at ?P w)" for w using u(4) w1 by simp
      show "ent_upd s (s1\<lparr>spaces := (spaces s1)[i := pmm2]\<rparr>) ?x (ent s ?x)" by (rule ent_updI [OF assms(1-3) u(2) w2]) (simp add: sp1)
      have "pmm_tables pmm2 = pmm_tables pmm1 \<union> {}" using u(3) by (simp add: pmm_tables_def)
      then have "tables (s1\<lparr>spaces := (spaces s1)[i := pmm2]\<rparr>) = tables s1 \<union> {}" using assms(2) by (intro tables_upd [where pmm = pmm2 and i = i]) (simp_all add: sp1)
      then show "tables (s1\<lparr>spaces := (spaces s1)[i := pmm2]\<rparr>) = tables s1" by simp
    qed (use at t1(2) in \<open>simp_all add: s1_def\<close>)
  qed
qed

text \<open>Allocation on demand. A fault on an empty page of an anonymous region maps a free page of zeros that nobody else
  holds, with the protection of the region; no other virtual page changes. Without memory for the page or a page table the
  entry is empty again and \<^verbatim>\<open>ENOMEM\<close> is returned. In both cases the invariant of the page frames is kept.\<close>

theorem vmm_aod_zeroed:
  assumes inv: "vm_ok s" and i: "i < length (spaces s)" and us: "user_addr v" and emp: "fst (ent s (i, drop_bit 12 v)) = 0"
    and pr: "vm_pgprot region AND PMM_HUGE = 0" "vm_pgprot region AND PMM_CLEAR = 0" "vm_pgprot region \<noteq> 0"
    and al: "alloc_ok alloc s" and tb: "alloc_ok tbl s" "tbl \<noteq> None \<longrightarrow> tbl \<noteq> alloc"
  shows "\<exists>err s'. vmm_do_aod alloc tbl i region v s = Some (err, s') \<and> vm_ok s' \<and>
    (\<forall>y\<in>upages s. y \<noteq> (i, drop_bit 12 v) \<longrightarrow> ent s' y = ent s y \<and> (\<forall>q. holds (ent s y) q \<longrightarrow> content s' q = content s q)) \<and>
    (if err = 0
     then \<exists>p. alloc = Some p \<and> ent s' (i, drop_bit 12 v) = (vm_pgprot region, p) \<and> users s' p = {(i, drop_bit 12 v)} \<and> content s' p = 0
     else err = ENOMEM \<and> (alloc = None \<or> tbl = None) \<and> ent s' (i, drop_bit 12 v) = ent s (i, drop_bit 12 v))"
proof -
  let ?x = "(i, vpn v)"
  have xu: "?x \<in> upages s" using i us by (simp add: mem_upages user_addr_vpn)
  have ft: "fresh_table (spaces s ! i) tbl" by (rule fresh_table_free [OF inv i]) (use tb in \<open>simp add: alloc_ok_def\<close>)
  show ?thesis
  proof (cases rule: lock_page_cases [OF vm_ok_small [OF inv] i us emp ft, case_names locked nomem])
    case (nomem info)
    then show ?thesis using inv by (intro exI [of _ ENOMEM] exI [of _ s]) (simp add: vmm_do_aod_def)
  next
    case (locked used info s1 pmm)
    define s0 where "s0 = (if used then kmem_alloc_page tbl s else s)"
    define T where "T = (if used then {the tbl} else {})"
    have sp0: "spaces s0 = spaces s" by (simp add: s0_def)
    have f1: "pages s1 = pages s0" "free_pages s1 = free_pages s0" "content s1 = content s"
      using arg_cong [OF locked(4), of pages] arg_cong [OF locked(4), of free_pages] arg_cong [OF locked(4), of content] by (simp_all add: s0_def)
    have inv0: "vm_ok s0" using vm_ok_alloc [OF inv] tb(1) inv locked(5) by (auto simp: s0_def alloc_ok_def)
    have f0: "free_pages s0 = free_pages s - T" "q \<notin> T \<Longrightarrow> pages s0 q = pages s q" for q using locked(5) by (auto simp: s0_def T_def)
    have T: "users s0 t = {} \<and> t \<notin> free_pages s0" if "t \<in> T" for t
      using that locked(5) tb(1) free_no_users [OF inv] unfolding users_spaces [OF sp0] f0 by (auto simp: T_def alloc_ok_def split: if_splits)
    note E0 = ent_spaces [OF sp0] upages_spaces [OF sp0] users_spaces [OF sp0] tables_spaces [OF sp0]
    show ?thesis
    proof (cases alloc)
      case None
      define s2 where "s2 = s1\<lparr>spaces := (spaces s1)[i := pmm]\<rparr>"
      note u2 = locked(7-9) [folded s2_def]
      have f2: "pages s2 = pages s0" "free_pages s2 = free_pages s0" "content s2 = content s" by (simp_all add: s2_def f1)
      have e2: "ent s2 y = ent s y" if "y \<in> upages s" for y using u2(2) that by (simp add: ent_upd_def)
      have "vm_ok s2"
        by (rule vm_ok_tables [OF inv0 _ _ _ f2(1,2), of T]) (use u2 e2 T locked(6) in \<open>simp_all add: ent_upd_def E0 T_def sp0\<close>)
      moreover have "vmm_do_aod alloc tbl i region v s = Some (ENOMEM, s2)" using locked(1,2) None u2(1) by (simp add: vmm_do_aod_def)
      ultimately show ?thesis using e2 xu None f2(3) by (intro exI [of _ ENOMEM] exI [of _ s2]) simp
    next
      case (Some p)
      have p: "p \<in> free_pages s" "p \<noteq> 0" "unat p < 2 ^ 28" "p \<notin> T" using al Some locked(5) tb(2) by (auto simp: alloc_ok_def T_def)
      have pu: "users s p = {}" "pg_count (pages s p) = 0" "p \<notin> tables s" using free_no_users [OF inv p(1)] by simp_all
      define s2 where "s2 = upd_page p (\<lambda>page. page\<lparr>pg_mapper := NULL\<rparr>) (page_zero p (kmem_alloc_page alloc s1))"
      have sp2: "spaces s2 = spaces s1" by (simp add: s2_def page_zero_def)
      have f2: "pages s2 p = (pages s p)\<lparr>pg_count := 1, pg_mapper := NULL\<rparr>" "q \<noteq> p \<Longrightarrow> pages s2 q = pages s0 q" "free_pages s2 = free_pages s0 - {p}" "content s2 = (content s)(p := 0)" for q
        using f0(2) [OF p(4)] pu(2) by (simp_all add: s2_def Some page_zero_def f1)
      have u2: "upages s2 = upages s" by (rule upages_len) (use locked(3) sp2 in \<open>simp add: ent_upd_def\<close>)
      have v2: "vm_small s2" "i < length (spaces s2)" "fst (ent s2 ?x) \<noteq> 0"
        using locked(3) i xu by (simp_all add: ent_upd_def vm_small_def sp2 ent_spaces [OF sp2])
      obtain s3 where s3: "set_page None i v (vm_pgprot region) p s2 = Some (0, s3)" "ent_upd s2 s3 ?x (vm_pgprot region, p)" "s3 = s2\<lparr>spaces := spaces s3\<rparr>" "tables s3 = tables s2"
        by (rule set_page_exists [OF v2(1,2) us pr(1,2) p(3) v2(3)])
      have f3: "pages s3 = pages s2" "free_pages s3 = free_pages s2" "content s3 = content s2"
        using arg_cong [OF s3(3), of pages] arg_cong [OF s3(3), of free_pages] arg_cong [OF s3(3), of content] by simp_all
      have up: "ent_upd s s3 ?x (vm_pgprot region, p)"
        using s3(2) locked(3) by (auto simp: ent_upd_def ent_spaces [OF sp2] u2 sp2)
      have res: "vmm_do_aod alloc tbl i region v s = Some (0, s3)" using locked(1,2) Some s3(1) by (simp add: vmm_do_aod_def s2_def)
      have hp: "holds (vm_pgprot region, p) p" using pr(3) p by (simp add: holds_def and_ppn_mask)
      have up0: "ent_upd s0 s3 ?x (vm_pgprot region, p)" using up ent_upd_spaces [OF sp0 refl] by simp
      have nh: "\<not> holds (ent s0 ?x) q" for q using emp by (simp add: holds_def E0)
      have "tables s3 = tables s0 \<union> T" using s3(4) locked(6) tables_spaces [OF sp2] by (simp add: E0 T_def)
      then have "vm_ok s3"
        by (intro vm_ok_new [OF inv0 _ nh up0 hp, where T = T]) (use pr hp pu p T xu f2 f3 in \<open>simp_all add: ent_ok_def holds_def E0\<close>)
      moreover have "content s3 q = content s q" if "y \<in> upages s" "holds (ent s y) q" for y q
      proof -
        have "q \<noteq> p" using that pu(1) unfolding users_def by blast
        then show ?thesis by (simp add: f3 f2)
      qed
      moreover have "users s3 p = {?x}" using users_upd [OF up xu] hp pu(1) by simp
      moreover have "ent s3 ?x = (vm_pgprot region, p)" "content s3 p = 0" "\<And>y. y \<in> upages s \<Longrightarrow> y \<noteq> ?x \<Longrightarrow> ent s3 y = ent s y"
        using up xu by (simp_all add: ent_upd_def f3 f2)
      ultimately show ?thesis using res Some by (intro exI [of _ 0] exI [of _ s3]) auto
    qed
  qed
qed

text \<open>C36. Fork. When the pages of a private region are given to a child, nobody sees a change of contents, and the child sees at each
  page what the parent saw. The entries are exactly these: the child gets each present entry of the parent without the write right
  and marked for copy on write; the parent's own entry becomes the same if the frame is anonymous, and stays as it is, its write right
  included, if the frame belongs to a mapper. The count of an anonymous frame is the number of its holders, and a frame with several
  holders cannot be written to through any of them; the descriptor of a mapper's frame does not change. The only error is \<^verbatim>\<open>ENOMEM\<close>,
  at a present page for which the memory for a page table was refused, and then all of this holds for the pages before it.\<close>

theorem vm_region_dup_shares:
  assumes "vm_ok s" and "dst < length (spaces s)" "src < length (spaces s)" "dst \<noteq> src" and pv: "vm_flags region AND VM_REG_SHARED = 0"
    and n: "n = unat (drop_bit 12 (vm_limit region - vm_start region))" and "user_range (vm_start region) n"
    and "\<forall>k<n. \<forall>p. \<not> holds (ent s (dst, drop_bit 12 (vm_start region + of_nat k * 0x1000))) p" and "tbl_supply tbl 0 n s"
  shows "\<exists>err m s'. vm_region_dup_pages tbl dst src region s = Some (err, s') \<and> vm_ok s' \<and>
     (err = 0 \<and> m = n \<or> err = ENOMEM \<and> m < n \<and> tbl m = None \<and>
        fst (ent s (src, drop_bit 12 (vm_start region + of_nat m * 0x1000))) AND PMM_PRESENT \<noteq> 0) \<and>
     (\<forall>z\<in>upages s. ent s' z = dup_ent dst src (first_pages (vm_start region) m) s z) \<and>
     (\<forall>z\<in>upages s. (\<forall>k<m. z \<noteq> (dst, drop_bit 12 (vm_start region + of_nat k * 0x1000))) \<longrightarrow> sees s' z = sees s z) \<and>
     (\<forall>k<m. sees s' (dst, drop_bit 12 (vm_start region + of_nat k * 0x1000)) = sees s (src, drop_bit 12 (vm_start region + of_nat k * 0x1000))) \<and>
     (\<forall>p. users s p \<noteq> {} \<longrightarrow>
        (if pg_mapper (pages s p) = NULL
         then unat (pg_count (pages s' p)) = card (users s' p) \<and>
           (\<forall>x\<in>users s' p. fst (ent s' x) AND PMM_WRITE \<noteq> 0 \<longrightarrow> users s' p = {x})
         else pages s' p = pages s p))"
proof -
  have "unat (drop_bit 12 w) \<le> 2 ^ 20" for w :: uint_t
    using unat_lt_32 [of w] unfolding unat_drop by (simp add: less_mult_imp_div_less less_imp_le)
  then have n20: "n \<le> 2 ^ 20" using n by simp
  have t: "tbl_supply tbl 0 (0 + n) s" using assms(9) by simp
  have e: "vm_region_dup_pages tbl dst src region s = region_dup_loop tbl 0 dst src (vm_start region) n s"
    using pv by (simp add: vm_region_dup_pages_def n)
  let ?Q = "first_pages (vm_start region)" and ?a = "\<lambda>k. vpn (page_addr (vm_start region) k)"
  obtain err m s' where r: "region_dup_loop tbl 0 dst src (vm_start region) n s = Some (err, s')" "vm_ok s'"
      "length (spaces s') = length (spaces s)" "content s' = content s"
    and m: "err = 0 \<and> m = n \<or> err = ENOMEM \<and> m < n \<and> tbl (0 + m) = None \<and> fst (ent s (src, ?a m)) AND PMM_PRESENT \<noteq> 0"
    and en: "\<forall>z\<in>upages s. ent s' z = dup_ent dst src (?Q m) s z"
    and pg: "\<forall>q. users s q \<noteq> {} \<longrightarrow> anon s' q = anon s q \<and> (\<not> anon s q \<longrightarrow> pages s' q = pages s q)"
    using dup_loop_ok [OF assms(1-4) assms(7) n20 assms(8) t] by (elim exE conjE) (rule that)
  have mn: "m \<le> n" using m by auto
  have emp: "\<not> holds (ent s (dst, q)) p" if "q \<in> ?Q m" for q p using that assms(8) mn by (auto dest: order_less_le_trans)
  have up: "(j, ?a k) \<in> upages s" if "k < m" "j < length (spaces s)" for j k
    using that mn assms(7) by (auto simp: mem_upages user_range_def user_addr_vpn)
  have A: "sees s' z = sees s z" if "z \<in> upages s" "\<forall>k<m. z \<noteq> (dst, ?a k)" for z
  proof (rule sees_dup_other [OF assms(1) that(1) _ r(4)])
    show "ent s' z = dup_ent dst src (?Q m) s z" using en that(1) by blast
    show "\<not> (fst z = dst \<and> snd z \<in> ?Q m)" using that(2) by (cases z) auto
  qed
  have B: "sees s' (dst, ?a k) = sees s (src, ?a k)" if k: "k < m" for k
  proof (rule sees_dup_child [OF assms(1) up [OF k assms(2)] up [OF k assms(3)] emp _ r(4)])
    show "?a k \<in> ?Q m" "?a k \<in> ?Q m" using k by auto
    show "ent s' (dst, ?a k) = dup_ent dst src (?Q m) s (dst, ?a k)" using en up [OF k assms(2)] by blast
  qed
  have C: "if anon s p then unat (pg_count (pages s' p)) = card (users s' p) \<and> (\<forall>x\<in>users s' p. writable (ent s' x) \<longrightarrow> users s' p = {x})
      else pages s' p = pages s p" if "users s p \<noteq> {}" for p
  proof -
    have "users s' p \<noteq> {}" by (rule dup_keeps_users [OF assms(1) r(3) assms(3) en emp that])
    then show ?thesis using r(2) pg that by (auto simp: vm_ok_def frame_ok_def)
  qed
  show ?thesis unfolding e using r(1,2) m en A B C by (intro exI [of _ err] exI [of _ m] exI [of _ s']) (simp only: add_0 simp_thms ball_simps, blast)
qed

text \<open>C37. The release of a region. \<^verbatim>\<open>vm_region_unmap\<close> of a region that is not lazy empties the entries of its present pages and
  no others, keeps the counts equal to the numbers of holders, and frees each anonymous page that lost its last holder, and
  no page that is still held.\<close>

theorem vm_region_unmap_releases:
  assumes "vm_ok s" and "i < length (spaces s)" and lazy: "vm_flags region AND VM_REG_LAZY = 0"
    and n: "n = unat (drop_bit 12 (vm_limit region - vm_start region))" and "user_range (vm_start region) n"
  shows "\<exists>s'. vm_region_unmap i region s = Some s' \<and> vm_ok s' \<and> length (spaces s') = length (spaces s) \<and> content s' = content s \<and>
     (\<forall>y\<in>upages s. ent s' y = (if (\<exists>k<n. y = (i, drop_bit 12 (vm_start region + of_nat k * 0x1000))) \<and> fst (ent s y) AND PMM_PRESENT \<noteq> 0 then (0, 0) else ent s y)) \<and>
     (\<forall>p. pg_mapper (pages s p) = NULL \<and> users s p \<noteq> {} \<longrightarrow> (p \<in> free_pages s' \<longleftrightarrow> users s' p = {}))"
proof -
  have e: "vm_region_unmap i region s = region_unmap_loop False i (vm_start region) n s" using lazy by (simp add: vm_region_unmap_def n)
  from unmap_loop_ok [OF assms(1,2,5)] obtain s' where s': "region_unmap_loop False i (vm_start region) n s = Some s'" "vm_ok s'" "length (spaces s') = length (spaces s)" "content s' = content s"
    "\<forall>q. anon s q \<and> users s q \<noteq> {} \<and> users s' q = {} \<longrightarrow> q \<in> free_pages s'"
    "\<forall>y\<in>upages s. ent s' y = (if (\<exists>k<n. y = (i, vpn (page_addr (vm_start region) k))) \<and> fst (ent s y) AND PMM_PRESENT \<noteq> 0 then (0, 0) else ent s y)" by blast
  have "p \<in> free_pages s' \<longleftrightarrow> users s' p = {}" if "anon s p \<and> users s p \<noteq> {}" for p
    using s'(5) that free_no_users [OF s'(2), of p] by blast
  then show ?thesis unfolding e using s'(1-4,6) by blast
qed

text \<open>C38. When a write fault on a shared page fails with \<^verbatim>\<open>ENOMEM\<close>, the count of the page is already lowered although the page is
  still mapped. The next write fault of the other holder then takes itself for the last one and makes the shared page writable:
  what it writes is seen by the first one.\<close>

theorem vmm_cow_nomem_unshares:
  assumes inv: "vm_ok s" and ij: "i < length (spaces s)" "j < length (spaces s)" and us: "user_addr v" "user_addr w"
    and ne: "(i, drop_bit 12 v) \<noteq> (j, drop_bit 12 w)" and u: "users s page = {(i, drop_bit 12 v), (j, drop_bit 12 w)}"
    and an: "pg_mapper (pages s page) = NULL" "pg_cid (pages s page) = cid"
    and cow: "fst (ent s (i, drop_bit 12 v)) AND PMM_COW \<noteq> 0" "fst (ent s (j, drop_bit 12 w)) AND PMM_COW \<noteq> 0"
    and pr: "vm_pgprot region AND PMM_HUGE = 0" "vm_pgprot region AND PMM_CLEAR = 0"
  shows "\<exists>s1 s2. vmm_do_cow cid None tbl i region page v s = Some (ENOMEM, s1) \<and>
     vmm_do_cow cid alloc tbl j region page w s1 = Some (0, s2) \<and>
     users s2 page = {(i, drop_bit 12 v), (j, drop_bit 12 w)} \<and> fst (ent s2 (j, drop_bit 12 w)) AND PMM_WRITE \<noteq> 0"
proof -
  let ?x = "(i, vpn v)" and ?y = "(j, vpn w)"
  have yu: "?y \<in> upages s" and hy: "holds (ent s ?y) page" and xs: "?x \<in> users s page" using u by (auto simp: users_def)
  have "card (users s page) = 2" using u ne by simp
  then have c2: "unat (pg_count (pages s page)) = 2" using inv xs an by (auto simp: vm_ok_def frame_ok_def)
  then have c: "pg_count (pages s page) \<noteq> 1" "pg_count (pages s page) - 1 = 1" by (auto simp: word_unat_eq_iff unat_word_ariths unat_minus_one')
  define s1 where "s1 = upd_page page (\<lambda>page. snd (page_refcount_down page)) s"
  have r1: "vmm_do_cow cid None tbl i region page v s = Some (ENOMEM, s1)"
    using vmm_do_cow_nomem [OF vm_ok_small [OF inv] ij(1) us(1) cow(1), of page cid] c an by (simp add: s1_def)
  have sp: "spaces s1 = spaces s" by (simp add: s1_def)
  have v1: "vm_small s1" "j < length (spaces s1)" "fst (ent s1 ?y) \<noteq> 0" "unat page < 2 ^ 28"
    using vm_ok_small [OF inv] ij holds_page [OF hy] by (simp_all add: vm_small_def sp ent_spaces [OF sp])
  note a = cow_attr [OF pr]
  obtain s2 where s2: "set_page tbl j w (cow_prot region) page s1 = Some (0, s2)" "ent_upd s1 s2 ?y (cow_prot region, page)"
    by (rule set_page_exists [OF v1(1,2) us(2) a(1,2) v1(4,3)])
  have y1: "?y \<in> upages s1" using yu upages_spaces [OF sp] by simp
  have hp: "holds (cow_prot region, page) page" using a(5) holds_page [OF hy] by (simp add: holds_def and_ppn_mask)
  have "users s2 page = insert ?y (users s1 page)" using users_upd [OF s2(2) y1] hp by simp
  then have "users s2 page = {?x, ?y}" using users_spaces [OF sp, of page] u by auto
  moreover have "ent s2 ?y = (cow_prot region, page)" using s2(2) y1 by (simp add: ent_upd_def)
  moreover have "vmm_do_cow cid alloc tbl j region page w s1 = Some (0, s2)"
    unfolding vmm_do_cow_def get_page_eq [OF v1(1,2) us(2)] ent_spaces [OF sp] using cow(2) an c s2(1) by (simp add: s1_def page_refcount_down_def Let_def)
  ultimately show ?thesis using r1 a(3) by (metis fst_conv)
qed

text \<open>\<^verbatim>\<open>vmm_do_cow\<close> takes the page that its caller read before it had the lock of the page, and afterwards looks only at the flag
  \<^verbatim>\<open>PMM_COW\<close> of the entry (\<^verbatim>\<open>vmm_do_migrate\<close> compares the page numbers as well). If other threads have replaced the page in
  between and shared the new one by a fork, the copy is made of the old page \<open>a\<close>, whatever page the entry holds now.\<close>

theorem vmm_cow_copies_stale_page:
  assumes "vm_small s" "i < length (spaces s)" "user_addr v" and cow: "fst (ent s (i, drop_bit 12 v)) AND PMM_COW \<noteq> 0"
    and pr: "vm_pgprot region AND PMM_HUGE = 0" "vm_pgprot region AND PMM_CLEAR = 0" and p: "unat p < 2 ^ 28"
    and a: "\<not> (pg_mapper (pages s a) = NULL \<and> pg_count (pages s a) = 1)"
  shows "\<exists>s'. vmm_do_cow cid (Some p) tbl i region a v s = Some (0, s') \<and> snd (ent s' (i, drop_bit 12 v)) = p \<and> content s' p = content s a"
proof -
  let ?x = "(i, vpn v)"
  define s1 where "s1 = (if anon s a \<and> pg_count (pages s a) \<noteq> 1 then upd_page a (\<lambda>page. snd (page_refcount_down page)) s else s)"
  define s2 where "s2 = page_copy p a (upd_page p (\<lambda>page. page\<lparr>pg_mapper := NULL\<rparr>) (kmem_alloc_page (Some p) s1))"
  have sp: "spaces s2 = spaces s" by (simp add: s1_def s2_def)
  have "fst (ent s ?x) \<noteq> 0" using cow by auto
  then have v2: "vm_small s2" "i < length (spaces s2)" "fst (ent s2 ?x) \<noteq> 0"
    using assms(1,2) by (simp_all add: vm_small_def sp ent_spaces [OF sp])
  obtain s3 where s3: "set_page tbl i v (cow_prot region) p s2 = Some (0, s3)" "ent_upd s2 s3 ?x (cow_prot region, p)" "s3 = s2\<lparr>spaces := spaces s3\<rparr>"
    by (rule set_page_exists [OF v2(1,2) assms(3) cow_attr(1,2) [OF pr] p v2(3)])
  have "vmm_do_cow cid (Some p) tbl i region a v s = Some (0, s3)"
    using cow a s3(1) by (auto simp: vmm_do_cow_def get_page_eq [OF assms(1-3)] Let_def s2_def s1_def)
  moreover have "?x \<in> upages s2" using v2(2) assms(3) by (simp add: mem_upages user_addr_vpn)
  then have "ent s3 ?x = (cow_prot region, p)" using s3(2) by (simp add: ent_upd_def)
  moreover have "content s3 p = content s a" using arg_cong [OF s3(3), of content] by (simp add: s2_def s1_def)
  ultimately show ?thesis by (metis snd_conv)
qed

section \<open>Two address spaces with one page\<close>

definition wit_space :: "ppn_t \<Rightarrow> uint_t \<Rightarrow> pmm_s" where
  "wit_space t a = (case pmm_set_page (\<lambda>pmm. pmm) (Some t) 0x3000 \<lparr>pi_attr = a, pi_ppn = 100, pi_isAtomic = False\<rparr> wit_pmm of
     Some (_, _, pmm) \<Rightarrow> pmm | None \<Rightarrow> wit_pmm)"

definition wit_vm :: "uint_t \<Rightarrow> bool \<Rightarrow> nat vm_sys" where
  "wit_vm a both = \<lparr>spaces = [wit_space 7 a, if both then wit_space 8 a else wit_pmm],
     pages = (\<lambda>p. fresh_page\<lparr>pg_count := if p = 100 then (if both then 2 else 1) else 0\<rparr>),
     content = (\<lambda>p. if p = 100 then 42 else 0), free_pages = {200, 201}\<rparr>"

definition wit_reg :: vm_region_s where
  "wit_reg = \<lparr>vm_begin = 0, vm_end = 0x10000, vm_start = 0x3000, vm_limit = 0x4000, vm_prot = 3, vm_pgprot = PMM_PRESENT OR PMM_WRITE,
     vm_flags = 0, vm_offset = 0, vm_mapper = None, vm_file = None\<rparr>"

lemma wit_vm_simps:
  "free_pages (wit_vm a both) = {200, 201}" "pg_count (pages (wit_vm a both) p) = (if p = 100 then (if both then 2 else 1) else 0)"
  "pg_mapper (pages (wit_vm a both) p) = NULL" "pg_cid (pages (wit_vm a both) p) = 0" "content (wit_vm a both) p = (if p = 100 then 42 else 0)"
  "length (spaces (wit_vm a both)) = 2"
  by (simp_all add: wit_vm_def fresh_page_def page_init_def)

lemma not_table_0: "\<not> is_table 0"
  by (simp add: is_table_def)

lemma wit_pmm_empty: "pmm_small wit_pmm" "pte_at wit_pmm w = (0, 0)" "pmm_tables wit_pmm = {}"
  by (simp_all add: pmm_small_def pmm_ok_def wit_pmm_def not_table_0 pte_at_def pmm_tables_def)

lemma wit_space_entries:
  assumes "a AND PMM_HUGE = 0" "a AND PMM_CLEAR = 0" "unat t < 2 ^ 28"
  shows "pmm_small (wit_space t a)" "pte_at (wit_space t a) w = (if vpn w = 3 then (a, 100) else (0, 0))" "pmm_tables (wit_space t a) \<subseteq> {t}"
proof -
  let ?i = "\<lparr>pi_attr = a, pi_ppn = 100, pi_isAtomic = False\<rparr>"
  have u: "user_addr 0x3000" by (simp add: user_addr_def)
  have si: "small_info ?i" using assms by (simp add: small_info_def)
  have ft: "fresh_table wit_pmm (Some t)" using assms(3) by (simp add: fresh_table_def wit_pmm_empty)
  have "pmm_small (wit_space t a) \<and> pte_at (wit_space t a) w = (if vpn w = 3 then (a, 100) else (0, 0)) \<and> pmm_tables (wit_space t a) \<subseteq> {t}"
    by (cases rule: pmm_set_page_cases [OF wit_pmm_empty(1) u si ft, case_names ok nomem]) (simp_all add: wit_space_def wit_pmm_empty)
  then show "pmm_small (wit_space t a)" "pte_at (wit_space t a) w = (if vpn w = 3 then (a, 100) else (0, 0))" "pmm_tables (wit_space t a) \<subseteq> {t}" by blast+
qed

lemma wit_vm_entries:
  assumes "a AND PMM_HUGE = 0" "a AND PMM_CLEAR = 0" "x \<in> upages (wit_vm a both)"
  shows "ent (wit_vm a both) x = (if snd x = 3 \<and> (fst x = 0 \<or> both) then (a, 100) else (0, 0))"
proof -
  have b: "fst x = 0 \<or> fst x = 1" "vpn (push_bit 12 (snd x)) = snd x" using assms(3) by (auto simp: upages_def wit_vm_def)
  have "unat (7::ppn_t) < 2 ^ 28" "unat (8::ppn_t) < 2 ^ 28" by simp_all
  note e = wit_space_entries(2) [OF assms(1,2) this(1)] wit_space_entries(2) [OF assms(1,2) this(2)]
  show ?thesis using b by (auto simp: ent_def wit_vm_def e wit_pmm_empty)
qed

lemma wit_vm_users:
  assumes "a AND PMM_HUGE = 0" "a AND PMM_CLEAR = 0" "a \<noteq> 0"
  shows "users (wit_vm a both) p = (if p = 100 then if both then {(0, 3), (1, 3)} else {(0, 3)} else {})"
proof -
  have u: "x \<in> upages (wit_vm a both) \<longleftrightarrow> (fst x = 0 \<or> fst x = 1) \<and> unat (snd x) < 2 ^ 19" for x by (auto simp: upages_def wit_vm_def)
  have "x \<in> users (wit_vm a both) p \<longleftrightarrow> x \<in> (if p = 100 then if both then {(0, 3), (1, 3)} else {(0, 3)} else {})" for x
  proof (cases "x \<in> upages (wit_vm a both)")
    case True
    then show ?thesis using wit_vm_entries [OF assms(1,2) True] assms(3) u [of x] by (cases x) (auto simp: users_def holds_def)
  next
    case False
    then show ?thesis using u [of x] by (auto simp: users_def)
  qed
  then show ?thesis by blast
qed

lemma wit_vm_ok:
  assumes "a AND PMM_HUGE = 0" "a AND PMM_CLEAR = 0" "a \<noteq> 0" "both \<longrightarrow> a AND PMM_WRITE = 0"
  shows "vm_ok (wit_vm a both)"
proof (rule vm_okI)
  have t: "unat (7::ppn_t) < 2 ^ 28" "unat (8::ppn_t) < 2 ^ 28" by simp_all
  note e = wit_space_entries(1,3) [OF assms(1,2) t(1)] wit_space_entries(1,3) [OF assms(1,2) t(2)]
  show "length (spaces (wit_vm a both)) \<le> 4096" by (simp add: wit_vm_def)
  show "\<forall>i<length (spaces (wit_vm a both)). pmm_small (spaces (wit_vm a both) ! i)"
    by (auto simp: wit_vm_def less_Suc_eq e wit_pmm_empty)
  show "ent_ok (ent (wit_vm a both) x)" if "x \<in> upages (wit_vm a both)" for x
    using assms(1,2) wit_vm_entries [OF assms(1,2) that] by (simp add: ent_ok_def)
  fix p
  have "tables (wit_vm a both) = pmm_tables (wit_space 7 a) \<union> (if both then pmm_tables (wit_space 8 a) else {})"
    by (simp add: tables_def wit_vm_def lessThan_Suc wit_pmm_empty Un_commute)
  moreover have "\<And>x. x \<in> pmm_tables (wit_space 7 a) \<Longrightarrow> x = 7" "\<And>x. x \<in> pmm_tables (wit_space 8 a) \<Longrightarrow> x = 8" using e(2,4) by blast+
  ultimately have tb: "tables (wit_vm a both) \<subseteq> {7, 8}" by (auto split: if_splits)
  have x: "(0, 3) \<in> upages (wit_vm a both)" "(1, 3) \<in> upages (wit_vm a both)" by (simp_all add: upages_def wit_vm_def)
  have en: "ent (wit_vm a both) (0, 3) = (a, 100)" "both \<Longrightarrow> ent (wit_vm a both) (1, 3) = (a, 100)"
    using wit_vm_entries [OF assms(1,2) x(1)] wit_vm_entries [OF assms(1,2) x(2)] by simp_all
  have nt: "p \<in> tables (wit_vm a both) \<Longrightarrow> p = 7 \<or> p = 8" using tb by blast
  show "frame_ok (wit_vm a both) p"
    using nt assms(4) en by (cases both) (auto simp: frame_ok_def wit_vm_users [OF assms(1-3)] wit_vm_simps)
qed

lemma wit_cow_attr: "PMM_PRESENT OR PMM_COW = (0x80000001 :: uint_t)" "0x80000001 AND PMM_HUGE = (0::uint_t)" "0x80000001 AND PMM_CLEAR = (0::uint_t)"
  "0x80000001 AND PMM_WRITE = (0::uint_t)" "0x80000001 AND PMM_COW \<noteq> (0::uint_t)" "(0x80000001 :: uint_t) \<noteq> 0" "0x80000001 AND PMM_PRESENT \<noteq> (0::uint_t)"
  by simp_all

abbreviation wit_shared :: "nat vm_sys" where "wit_shared \<equiv> wit_vm 0x80000001 True"

lemma wit_shared_facts:
  "vm_ok wit_shared" "0 < length (spaces wit_shared)" "1 < length (spaces wit_shared)" "user_addr 0x3000"
  "ent wit_shared (0, drop_bit 12 0x3000) = (0x80000001, 100)" "ent wit_shared (1, drop_bit 12 0x3000) = (0x80000001, 100)"
  "(0, drop_bit 12 0x3000) \<in> upages wit_shared" "(1, drop_bit 12 0x3000) \<in> upages wit_shared"
  "users wit_shared 100 = {(0, drop_bit 12 0x3000), (1, drop_bit 12 0x3000)}"
  "vm_pgprot wit_reg AND PMM_HUGE = 0" "vm_pgprot wit_reg AND PMM_CLEAR = 0" "vm_pgprot wit_reg \<noteq> 0"
  "alloc_ok (Some 200) wit_shared" "alloc_ok (Some 201) wit_shared" "alloc_ok None wit_shared"
proof -
  note a = wit_cow_attr
  show "vm_ok wit_shared" using a(2-6) by (intro wit_vm_ok) simp_all
  show l: "0 < length (spaces wit_shared)" "1 < length (spaces wit_shared)" by (simp_all add: wit_vm_def)
  show "user_addr 0x3000" by (simp add: user_addr_def)
  show u: "(0, drop_bit 12 0x3000) \<in> upages wit_shared" "(1, drop_bit 12 0x3000) \<in> upages wit_shared" using l by (simp_all add: mem_upages)
  show "ent wit_shared (0, drop_bit 12 0x3000) = (0x80000001, 100)" "ent wit_shared (1, drop_bit 12 0x3000) = (0x80000001, 100)"
    using wit_vm_entries [OF a(2,3) u(1)] wit_vm_entries [OF a(2,3) u(2)] by simp_all
  show "users wit_shared 100 = {(0, drop_bit 12 0x3000), (1, drop_bit 12 0x3000)}" using wit_vm_users [OF a(2,3,6), of True 100] by simp
  show "vm_pgprot wit_reg AND PMM_HUGE = 0" "vm_pgprot wit_reg AND PMM_CLEAR = 0" "vm_pgprot wit_reg \<noteq> 0" by (simp_all add: wit_reg_def)
  show "alloc_ok (Some 200) wit_shared" "alloc_ok (Some 201) wit_shared" "alloc_ok None wit_shared" by (simp_all add: alloc_ok_def wit_vm_def)
qed

theorem vmm_cow_isolates_witness:
  "\<exists>s'. vmm_do_cow 0 (Some 200) None 0 wit_reg 100 0x3000 wit_shared = Some (0, s') \<and> vm_ok s' \<and>
     ent s' (1, 3) = (PMM_PRESENT OR PMM_COW, 100) \<and> content s' 100 = 42"
proof -
  note f = wit_shared_facts
  have h: "holds (ent wit_shared (0, drop_bit 12 0x3000)) 100" "fst (ent wit_shared (0, drop_bit 12 0x3000)) AND PMM_COW \<noteq> 0" "holds (ent wit_shared (1, drop_bit 12 0x3000)) 100"
    unfolding f(5,6) by (simp_all add: holds_def)
  obtain err s' where r: "vmm_do_cow 0 (Some 200) None 0 wit_reg 100 0x3000 wit_shared = Some (err, s')"
    and c: "if err = 0 then vm_ok s' \<and> (\<exists>new. users s' new = {(0, drop_bit 12 0x3000)} \<and> pg_mapper (pages s' new) = NULL \<and> content s' new = content wit_shared 100) \<and>
       fst (ent s' (0, drop_bit 12 0x3000)) AND PMM_WRITE \<noteq> 0 \<and> fst (ent s' (0, drop_bit 12 0x3000)) AND PMM_COW = 0 \<and>
       (\<forall>y\<in>upages wit_shared. y \<noteq> (0, drop_bit 12 0x3000) \<longrightarrow> ent s' y = ent wit_shared y \<and> (\<forall>q. holds (ent wit_shared y) q \<longrightarrow> content s' q = content wit_shared q))
     else err = ENOMEM \<and> Some (200 :: ppn_t) = None"
    using vmm_cow_isolates [OF f(1,2,4) h(1,2) f(10,11,13), of 0 None] by (elim exE conjE) (rule that)
  have e: "err = 0" using c by (cases "err = 0") simp_all
  note c' = c [unfolded if_P [OF e]]
  have o: "ent s' (1, drop_bit 12 0x3000) = ent wit_shared (1, drop_bit 12 0x3000) \<and> (\<forall>q. holds (ent wit_shared (1, drop_bit 12 0x3000)) q \<longrightarrow> content s' q = content wit_shared q)"
  proof -
    have "(1, drop_bit 12 0x3000) \<noteq> (0 :: nat, drop_bit 12 (0x3000 :: uint_t))" by simp
    with c' f(8) show ?thesis by (elim conjE) (drule bspec, assumption, erule mp)
  qed
  have "content s' 100 = content wit_shared 100" using conjunct2 [OF o] h(3) by (elim allE) (erule mp)
  then have "content s' 100 = 42" by (simp add: wit_vm_simps)
  moreover have "ent s' (1, 3) = (PMM_PRESENT OR PMM_COW, 100)" using conjunct1 [OF o] unfolding f(6) by simp
  moreover have "vm_ok s'" using c' by (rule conjunct1)
  ultimately show ?thesis using r e by blast
qed

theorem vmm_aod_zeroed_witness:
  "\<exists>s'. vmm_do_aod (Some 200) (Some 201) 0 wit_reg 0x5000 wit_shared = Some (0, s') \<and> vm_ok s' \<and> content s' 200 = 0 \<and> users s' 200 = {(0, 5)}"
proof -
  note f = wit_shared_facts
  have u: "user_addr 0x5000" by (simp add: user_addr_def)
  have xu: "(0, drop_bit 12 0x5000) \<in> upages wit_shared" using f(2) by (simp add: mem_upages)
  have z: "fst (ent wit_shared (0, drop_bit 12 0x5000)) = 0" using wit_vm_entries [OF wit_cow_attr(2,3) xu] by simp
  have d: "Some (201 :: ppn_t) \<noteq> None \<longrightarrow> Some (201 :: ppn_t) \<noteq> Some 200" by simp
  obtain err s' where r: "vmm_do_aod (Some 200) (Some 201) 0 wit_reg 0x5000 wit_shared = Some (err, s')" "vm_ok s'"
    and c: "if err = 0 then \<exists>p. Some 200 = Some p \<and> ent s' (0, drop_bit 12 0x5000) = (vm_pgprot wit_reg, p) \<and> users s' p = {(0, drop_bit 12 0x5000)} \<and> content s' p = 0
      else err = ENOMEM \<and> (Some (200 :: ppn_t) = None \<or> Some (201 :: ppn_t) = None) \<and> ent s' (0, drop_bit 12 0x5000) = ent wit_shared (0, drop_bit 12 0x5000)"
    using vmm_aod_zeroed [OF f(1,2) u z f(10-14) d] by (elim exE conjE) (rule that)
  have e: "err = 0" using c by (cases "err = 0") simp_all
  have "users s' 200 = {(0, 5)}" "content s' 200 = 0" using c [unfolded if_P [OF e]] by auto
  then show ?thesis using r e by blast
qed

theorem vm_region_dup_shares_witness:
  "\<exists>s'. vm_region_dup_pages (\<lambda>k. Some 201) 1 0 wit_reg (wit_vm (PMM_PRESENT OR PMM_WRITE) False) = Some (0, s') \<and> vm_ok s' \<and>
     sees s' (1, 3) = Some 42 \<and> ent s' (0, 3) = (PMM_PRESENT OR PMM_COW, 100) \<and> ent s' (1, 3) = (PMM_PRESENT OR PMM_COW, 100)"
proof -
  let ?s = "wit_vm (PMM_PRESENT OR PMM_WRITE) False"
  have a: "(PMM_PRESENT OR PMM_WRITE) AND PMM_HUGE = (0::uint_t)" "(PMM_PRESENT OR PMM_WRITE) AND PMM_CLEAR = (0::uint_t)" "PMM_PRESENT OR PMM_WRITE \<noteq> (0::uint_t)"
    "(PMM_PRESENT OR PMM_WRITE) AND PMM_PRESENT \<noteq> (0::uint_t)" by simp_all
  have ok: "vm_ok ?s" by (rule wit_vm_ok [OF a(1-3)]) simp
  have l: "1 < length (spaces ?s)" "0 < length (spaces ?s)" "(1::nat) \<noteq> 0" by (simp_all add: wit_vm_simps)
  have rg: "vm_flags wit_reg AND VM_REG_SHARED = 0" "1 = unat (drop_bit 12 (vm_limit wit_reg - vm_start wit_reg))" "user_range (vm_start wit_reg) 1"
    by (simp_all add: wit_reg_def user_range_def user_addr_def)
  have v: "vm_start wit_reg = 0x3000" by (simp add: wit_reg_def)
  have u: "(1, 3) \<in> upages ?s" "(0, 3) \<in> upages ?s" using l by (simp_all add: mem_upages)
  have e: "\<forall>k<1. \<forall>p. \<not> holds (ent ?s (1, drop_bit 12 (vm_start wit_reg + of_nat k * 0x1000))) p"
    using wit_vm_entries [OF a(1,2) u(1)] by (simp add: wit_reg_def holds_def)
  have t: "tbl_supply (\<lambda>k. Some 201) 0 1 ?s" by (simp add: tbl_supply_def wit_vm_simps)
  obtain err m s' where r: "vm_region_dup_pages (\<lambda>k. Some 201) 1 0 wit_reg ?s = Some (err, s')" "vm_ok s'"
    and m: "err = 0 \<and> m = 1 \<or> err = ENOMEM \<and> m < 1 \<and> Some (201 :: ppn_t) = None \<and>
        fst (ent ?s (0, drop_bit 12 (vm_start wit_reg + of_nat m * 0x1000))) AND PMM_PRESENT \<noteq> 0"
    and en: "\<forall>z\<in>upages ?s. ent s' z = dup_ent 1 0 (first_pages (vm_start wit_reg) m) ?s z"
    and c: "\<forall>k<m. sees s' (1, drop_bit 12 (vm_start wit_reg + of_nat k * 0x1000)) = sees ?s (0, drop_bit 12 (vm_start wit_reg + of_nat k * 0x1000))"
    using vm_region_dup_shares [OF ok l rg e t] by (elim exE conjE) (rule that)
  have em: "err = 0" "m = 1" using m by auto
  have e0: "ent ?s (0, 3) = (PMM_PRESENT OR PMM_WRITE, 100)" using wit_vm_entries [OF a(1,2) u(2)] by simp
  then have "sees ?s (0, 3) = Some 42" using a(4) by (simp add: sees_def wit_vm_simps)
  then have "sees s' (1, 3) = Some 42" using c em(2) by (simp add: v)
  moreover have "first_pages (vm_start wit_reg) m = {3}" by (simp add: em(2) v lessThan_Suc)
  then have "ent s' (0, 3) = shared_ent (ent ?s (0, 3))" "ent s' (1, 3) = shared_ent (ent ?s (0, 3))"
    using en u a(4) by (simp_all add: dup_ent_def e0 [simplified] wit_vm_simps Let_def)
  ultimately show ?thesis using r em by (intro exI [of _ s']) (simp add: e0 [simplified] shared_ent_def)
qed

theorem vm_region_unmap_releases_witness:
  "\<exists>s'. vm_region_unmap 0 wit_reg wit_shared = Some s' \<and> vm_ok s' \<and> ent s' (0, 3) = (0, 0) \<and> ent s' (1, 3) = (PMM_PRESENT OR PMM_COW, 100) \<and> 100 \<notin> free_pages s'"
proof -
  note f = wit_shared_facts
  have rg: "vm_flags wit_reg AND VM_REG_LAZY = 0" "1 = unat (drop_bit 12 (vm_limit wit_reg - vm_start wit_reg))" "user_range (vm_start wit_reg) 1"
    by (simp_all add: wit_reg_def user_range_def user_addr_def)
  obtain s' where r: "vm_region_unmap 0 wit_reg wit_shared = Some s'" "vm_ok s'" "length (spaces s') = length (spaces wit_shared)"
    and e: "\<forall>y\<in>upages wit_shared. ent s' y = (if (\<exists>k<1. y = (0, drop_bit 12 (vm_start wit_reg + of_nat k * 0x1000))) \<and> fst (ent wit_shared y) AND PMM_PRESENT \<noteq> 0 then (0, 0) else ent wit_shared y)"
    using vm_region_unmap_releases [OF f(1,2) rg] by (elim exE conjE) (rule that)
  have k: "(\<exists>k<(1::nat). P k) \<longleftrightarrow> P 0" for P by simp
  have "vm_start wit_reg = 0x3000" by (simp add: wit_reg_def)
  then have e': "\<forall>y\<in>upages wit_shared. ent s' y = (if y = (0, drop_bit 12 0x3000) \<and> fst (ent wit_shared y) AND PMM_PRESENT \<noteq> 0 then (0, 0) else ent wit_shared y)"
    using e unfolding k by simp
  have "ent s' (0, drop_bit 12 0x3000) = (0, 0)" using bspec [OF e' f(7)] unfolding f(5) by simp
  then have e0: "ent s' (0, 3) = (0, 0)" by simp
  have "ent s' (1, drop_bit 12 0x3000) = (0x80000001, 100)" using bspec [OF e' f(8)] unfolding f(6) by simp
  then have e1: "ent s' (1, 3) = (0x80000001, 100)" by simp
  have "(1, 3) \<in> upages s'" using r(3) f(3) by (simp add: mem_upages)
  then have "(1, 3) \<in> users s' 100" using e1 by (simp add: users_def holds_def)
  then have "100 \<notin> free_pages s'" using free_no_users [OF r(2), of 100] by auto
  then show ?thesis using r e0 e1 by (intro exI [of _ s']) simp
qed

theorem vmm_cow_nomem_unshares_witness:
  "\<exists>s1 s2. vmm_do_cow 0 None None 0 wit_reg 100 0x3000 wit_shared = Some (ENOMEM, s1) \<and>
     vmm_do_cow 0 None None 1 wit_reg 100 0x3000 s1 = Some (0, s2) \<and> users s2 100 = {(0, 3), (1, 3)} \<and> fst (ent s2 (1, 3)) AND PMM_WRITE \<noteq> 0"
proof -
  note f = wit_shared_facts
  have ne: "(0, drop_bit 12 0x3000) \<noteq> (1 :: nat, drop_bit 12 (0x3000 :: uint_t))" by simp
  have m: "pg_mapper (pages wit_shared 100) = NULL" "pg_cid (pages wit_shared 100) = 0" by (simp_all add: wit_vm_simps)
  have c: "fst (ent wit_shared (0, drop_bit 12 0x3000)) AND PMM_COW \<noteq> 0" "fst (ent wit_shared (1, drop_bit 12 0x3000)) AND PMM_COW \<noteq> 0"
    unfolding f(5,6) by simp_all
  show ?thesis using vmm_cow_nomem_unshares [OF f(1,2,3,4,4) ne f(9) m c f(10,11), of None None] by simp
qed

end
