(* ===== verification/Vmm.thy ===== *)
theory Vmm
  imports VmPage
begin

text \<open>
  The virtual memory manager of a task (\<^verbatim>\<open>kernel/mm/vmm.c\<close>): the page fault handler, which finds the region of the address in the
  table of keys or else in the tree, \<^verbatim>\<open>mmap\<close>, \<^verbatim>\<open>munmap\<close> and \<^verbatim>\<open>sbrk\<close>. The page fault operation of a region is an
  argument \<open>pf\<close> over a state \<open>'s\<close> (for default regions it is \<open>vmm_default_pagefault\<close> of \<open>VmPage\<close>), and so are the results of
  \<^verbatim>\<open>kmem_alloc\<close> for the table of keys (\<open>mem\<close>) and the \<^verbatim>\<open>mmap\<close> operation of a file, of which the default one is modelled. The configuration is that of
  \<^verbatim>\<open>kernel-config.h\<close>, with \<^verbatim>\<open>CONFIG_USE_KEYSDB\<close>.
\<close>

datatype vmm_error_t = VMM_ERESOLVED | VMM_ECHECKUSPACE | VMM_ESIGSEGV | VMM_ESIGBUS

type_synonym 's page_fault = "vm_region_s \<Rightarrow> uint_t \<Rightarrow> uint_t \<Rightarrow> 's \<Rightarrow> (error_t \<times> 's) option"

abbreviation CONFIG_KERNEL_OFFSET :: uint_t where "CONFIG_KERNEL_OFFSET \<equiv> 0x80000000"
abbreviation pmm_except_isInKernelMode :: "uint_t \<Rightarrow> bool" where "pmm_except_isInKernelMode flags \<equiv> flags AND 0x0100 \<noteq> 0"

section \<open>Page faults\<close>

definition vm_region_update :: "'s page_fault \<Rightarrow> vm_region_s \<Rightarrow> uint_t \<Rightarrow> uint_t \<Rightarrow> 's \<Rightarrow> (error_t \<times> 's) option" where
  "vm_region_update pf region vaddr flags s =
     (if pmm_except_isRights flags then Some (- 1001, s)
      else if pmm_except_isPresent flags \<and> vm_prot region AND VM_REG_RD = 0 then Some (- 1002, s)
      else if pmm_except_isWrite flags \<and> vm_prot region AND VM_REG_WR = 0 then Some (- 1003, s)
      else if pmm_except_isExecute flags \<and> vm_prot region AND VM_REG_EX = 0 then Some (- 1004, s)
      else if vm_flags region AND VM_REG_INIT \<noteq> 0 then Some (- 1005, s)
      else pf region vaddr flags s)"

definition vmm_keysdb_update :: "(nat \<Rightarrow> bool) \<Rightarrow> nat \<Rightarrow> vmm_s \<Rightarrow> vmm_s option" where
  "vmm_keysdb_update mem region vmm =
     (let r = regs vmm region;
          key = drop_bit CONFIG_VM_REGION_KEYWIDTH (vm_begin r);
          count = unat (drop_bit CONFIG_VM_REGION_KEYWIDTH (vm_end r - vm_begin r))
      in map_option (\<lambda>(_, db). vmm\<lparr>regions_db := db\<rparr>) (keysdb_bind mem key count (Some region) (regions_db vmm)))"

text \<open>The jump to \<^verbatim>\<open>FAULT_SEND_SIGSEGV\<close> falls through to \<^verbatim>\<open>FAULT_SEND_SIGBUS\<close>. The accounting of processor time and the
  yield at the end are left out.\<close>

definition vmm_fault_handler ::
  "'s page_fault \<Rightarrow> (nat \<Rightarrow> bool) \<Rightarrow> bool \<Rightarrow> uint_t \<Rightarrow> uint_t \<Rightarrow> vmm_s \<Rightarrow> 's \<Rightarrow> (vmm_error_t \<times> vmm_s \<times> 's) option" where
  "vmm_fault_handler pf mem kthread bad_vaddr flags vmm s =
     (if bad_vaddr \<ge> CONFIG_KERNEL_OFFSET then Some (if pmm_except_isInKernelMode flags then VMM_ECHECKUSPACE else VMM_ESIGBUS, vmm, s)
      else if kthread then Some (VMM_ECHECKUSPACE, vmm, s)
      else (case keysdb_lookup (regions_db vmm) (drop_bit CONFIG_VM_REGION_KEYWIDTH bad_vaddr) of
              None \<Rightarrow> None
            | Some cached \<Rightarrow>
                let isMiss = (cached = None);
                    region = (if isMiss then vm_region_find vmm bad_vaddr else cached)
                in if region = None \<or> bad_vaddr > vm_limit (regs vmm (the region)) \<or> bad_vaddr < vm_start (regs vmm (the region))
                   then Some (if pmm_except_isInKernelMode flags then VMM_ECHECKUSPACE else VMM_ESIGBUS, vmm, s)
                   else (case (if isMiss then vmm_keysdb_update mem (the region) vmm else Some vmm) of
                           None \<Rightarrow> None
                         | Some vmm \<Rightarrow>
                             (case vm_region_update pf (regs vmm (the region)) bad_vaddr flags s of
                                None \<Rightarrow> None
                              | Some (err, s) \<Rightarrow> Some (if err \<noteq> 0 then VMM_ESIGBUS else VMM_ERESOLVED, vmm, s)))))"

section \<open>Mapping and unmapping\<close>










section \<open>The heap\<close>

definition vmm_sbrk :: "uint_t \<Rightarrow> uint_t \<Rightarrow> vmm_s \<Rightarrow> (error_t \<times> vmm_s) option" where
  "vmm_sbrk current sz vmm =
     (if current < heap_current vmm then Some (EAGAIN, vmm)
      else if heap_current vmm + sz > CONFIG_TASK_HEAP_MAX_SIZE then Some (ENOMEM, vmm)
      else (case heap_region vmm of
              None \<Rightarrow> None
            | Some h \<Rightarrow> Some (0, vmm\<lparr>regs := (regs vmm)(h := (regs vmm h)\<lparr>vm_limit := vm_limit (regs vmm h) + sz\<rparr>)\<rparr>)))"

section \<open>The table of keys and the regions\<close>

text \<open>Regions cover whole keys, and each key of the table leads to a region of the task that covers it.\<close>

definition region_wf :: "vm_region_s \<Rightarrow> bool" where
  "region_wf r \<longleftrightarrow> unat (vm_begin r) mod 2 ^ 16 = 0 \<and> unat (vm_end r) mod 2 ^ 16 = 0 \<and> vm_begin r \<le> vm_start r \<and> vm_limit r \<le> vm_end r"

definition keys_ok :: "vmm_s \<Rightarrow> (nat \<rightharpoonup> nat) \<Rightarrow> bool" where
  "keys_ok vmm m \<longleftrightarrow> (\<forall>k r. m k = Some r \<longrightarrow> r \<in> set (regions_root vmm) \<and> region_key (regs vmm r) \<le> k \<and> k < region_key (regs vmm r) + region_keys_nr (regs vmm r))"

definition vmm_ok :: "vmm_s \<Rightarrow> bool" where
  "vmm_ok vmm \<longleftrightarrow> vmm_inv vmm \<and> (\<forall>r\<in>set (regions_root vmm). region_wf (regs vmm r)) \<and> kd_inv (regions_db vmm) \<and> keys_ok vmm (kd_map (regions_db vmm))"

lemma aligned_key_iff:
  fixes b e v :: nat
  assumes "b mod c = 0" "e mod c = 0" "0 < c" "b \<le> e"
  shows "b div c \<le> v div c \<and> v div c < b div c + (e - b) div c \<longleftrightarrow> b \<le> v \<and> v < e"
proof -
  obtain x y where xy: "b = c * x" "e = c * y" using assms(1,2) by (metis mod_0_imp_dvd dvd_def)
  have "(e - b) div c = y - x" unfolding xy diff_mult_distrib2 [symmetric] using assms(3) by simp
  moreover have "x \<le> y" using assms(3,4) xy by simp
  moreover have "x \<le> v div c \<longleftrightarrow> c * x \<le> v" using assms(3) by (simp add: less_eq_div_iff_mult_less_eq mult.commute)
  moreover have "v div c < y \<longleftrightarrow> v < c * y" using assms(3) by (simp add: div_less_iff_less_mult mult.commute)
  ultimately show ?thesis using assms(3) xy by simp
qed

lemma region_key_iff:
  assumes "region_wf r" "vm_begin r < vm_end r"
  shows "region_key r \<le> unat v div 2 ^ 16 \<and> unat v div 2 ^ 16 < region_key r + region_keys_nr r \<longleftrightarrow> vm_begin r \<le> v \<and> v < vm_end r"
proof -
  have "unat (vm_end r - vm_begin r) = unat (vm_end r) - unat (vm_begin r)" using assms(2) by (simp add: unat_sub)
  moreover have "unat (vm_begin r) \<le> unat (vm_end r)" using assms(2) by (simp add: word_less_nat_alt)
  ultimately show ?thesis
    using aligned_key_iff [of "unat (vm_begin r)" "2 ^ 16" "unat (vm_end r)" "unat v"] assms(1)
    by (simp add: region_wf_def word_le_nat_alt word_less_nat_alt)
qed

lemma region_nonempty: "vmm_inv vmm \<Longrightarrow> r \<in> set (regions_root vmm) \<Longrightarrow> vm_begin (regs vmm r) < vm_end (regs vmm r)"
  by (simp add: vmm_inv_def regs_sorted_def)

lemma key_lt: "unat (drop_bit 16 (v::uint_t)) < 2 ^ 16"
  using unat_lt_32 [of v] unfolding unat_drop by (simp add: less_mult_imp_div_less)

text \<open>The table of keys is a cache of the search in the tree.\<close>

lemma keys_cache:
  assumes "vmm_ok vmm"
  shows "\<exists>c. keysdb_lookup (regions_db vmm) (drop_bit 16 v) = Some c \<and> (c = None \<or> c = vm_region_find vmm v)"
proof -
  have inv: "vmm_inv vmm" "kd_inv (regions_db vmm)" using assms by (simp_all add: vmm_ok_def)
  note l = keysdb_lookup_ok [OF inv(2) key_lt [of v]]
  show ?thesis
  proof (cases "kd_map (regions_db vmm) (unat (drop_bit 16 v))")
    case None
    then show ?thesis using l by simp
  next
    case (Some r)
    then have r: "r \<in> set (regions_root vmm)" "region_key (regs vmm r) \<le> unat v div 2 ^ 16 \<and> unat v div 2 ^ 16 < region_key (regs vmm r) + region_keys_nr (regs vmm r)"
      using assms unfolding vmm_ok_def keys_ok_def unat_drop by blast+
    have "region_wf (regs vmm r)" using assms r(1) by (simp add: vmm_ok_def)
    then have "vm_begin (regs vmm r) \<le> v" "v < vm_end (regs vmm r)" using region_key_iff [OF _ region_nonempty [OF inv(1) r(1)], of v] r(2) by blast+
    then show ?thesis using vm_region_find_inside [OF inv(1) r(1)] l Some by simp
  qed
qed

lemma vmm_keysdb_update_ok:
  assumes "vmm_ok vmm" "r \<in> set (regions_root vmm)"
  shows "\<exists>db. vmm_keysdb_update mem r vmm = Some (vmm\<lparr>regions_db := db\<rparr>) \<and> vmm_ok (vmm\<lparr>regions_db := db\<rparr>)"
proof -
  let ?r = "regs vmm r"
  have inv: "vmm_inv vmm" "kd_inv (regions_db vmm)" using assms by (simp_all add: vmm_ok_def)
  have b: "unat (drop_bit 16 (vm_begin ?r)) + region_keys_nr ?r \<le> 2 ^ 16"
    using region_keys_bound [of ?r] region_nonempty [OF inv(1) assms(2)] by (simp add: unat_drop)
  obtain e db where u: "keysdb_bind mem (drop_bit 16 (vm_begin ?r)) (region_keys_nr ?r) (Some r) (regions_db vmm) = Some (e, db)" "kd_inv db"
    and m: "kd_map db = kd_map (regions_db vmm) \<or> kd_map db = paint (region_key ?r) (region_key ?r + region_keys_nr ?r) (Some r) (kd_map (regions_db vmm))"
    using keysdb_bind_atomic [OF inv(2) b, of mem r] unfolding unat_drop by (metis (full_types))
  have "keys_ok vmm (kd_map db)" using m assms by (auto simp: vmm_ok_def keys_ok_def paint_def split: if_splits)
  then have "vmm_ok (vmm\<lparr>regions_db := db\<rparr>)" using assms(1) u(2) by (simp add: vmm_ok_def vmm_inv_def keys_ok_def)
  moreover have "vmm_keysdb_update mem r vmm = Some (vmm\<lparr>regions_db := db\<rparr>)" using u(1) by (simp add: vmm_keysdb_update_def Let_def unat_drop)
  ultimately show ?thesis by blast
qed

section \<open>The page fault handler\<close>

text \<open>What the handler promises: a fault below the kernel by a user thread is given to the region that contains the address, if there
  is one, and its success decides; the table of keys does not appear. As in the code the address \<^verbatim>\<open>vm_limit\<close> itself still counts as inside a
  region that ends behind it, although the region is \<^verbatim>\<open>[vm_start, vm_limit)\<close>.\<close>

definition fault_spec :: "'s page_fault \<Rightarrow> bool \<Rightarrow> uint_t \<Rightarrow> uint_t \<Rightarrow> vm_region_s list \<Rightarrow> 's \<Rightarrow> (vmm_error_t \<times> 's) option" where
  "fault_spec pf kthread v flags rs s =
     (let fail = (if pmm_except_isInKernelMode flags then VMM_ECHECKUSPACE else VMM_ESIGBUS)
      in if v \<ge> CONFIG_KERNEL_OFFSET then Some (fail, s)
         else if kthread then Some (VMM_ECHECKUSPACE, s)
         else (case List.find (\<lambda>r. vm_start r \<le> v \<and> v \<le> vm_limit r \<and> v < vm_end r) rs of
                 None \<Rightarrow> Some (fail, s)
               | Some r \<Rightarrow> map_option (\<lambda>(err, s). (if err = 0 then VMM_ERESOLVED else VMM_ESIGBUS, s)) (vm_region_update pf r v flags s)))"

lemma find_map: "List.find P (map f xs) = map_option f (List.find (\<lambda>x. P (f x)) xs)"
  by (induction xs) auto

lemma find_region:
  assumes ok: "vmm_ok vmm"
  shows "List.find (\<lambda>r. vm_start (regs vmm r) \<le> v \<and> v \<le> vm_limit (regs vmm r) \<and> v < vm_end (regs vmm r)) (regions_root vmm) =
     (case vm_region_find vmm v of
        None \<Rightarrow> None
      | Some r \<Rightarrow> if v > vm_limit (regs vmm r) \<or> v < vm_start (regs vmm r) then None else Some r)" (is "List.find ?P ?xs = _")
proof -
  have inv: "vmm_inv vmm" using ok by (simp add: vmm_ok_def)
  have in1: "vm_region_find vmm v = Some r" if "r \<in> set ?xs" "?P r" for r
  proof -
    have "vm_begin (regs vmm r) \<le> v" using that ok by (auto simp: vmm_ok_def region_wf_def)
    then show ?thesis using vm_region_find_inside [OF inv that(1)] that(2) by simp
  qed
  have in2: "r \<in> set ?xs \<and> v < vm_end (regs vmm r)" if "vm_region_find vmm v = Some r" for r
    using that unfolding vm_region_find_eq [OF inv] by (auto simp: find_Some_iff)
  show ?thesis
  proof (cases "List.find ?P ?xs")
    case None
    then have "\<not> ?P r" if "r \<in> set ?xs" for r using that by (auto simp: find_None_iff)
    then show ?thesis using None in2 by (auto split: option.splits)
  next
    case (Some r)
    then have r: "r \<in> set ?xs" "?P r" by (auto simp: find_Some_iff)
    then show ?thesis using Some in1 [OF r] by auto
  qed
qed

text \<open>C39. The page fault handler. With the table of keys as a cache in front of the tree of regions, the handler does what its
  specification over the list of regions says: the region that contains the address is found whether or not its keys are bound, its
  protection is tested, and its operation is called, once; every other fault is refused without a change. The table of
  keys stays consistent with the regions.\<close>

theorem vmm_fault_handler_refines:
  assumes ok: "vmm_ok vmm"
  shows "map_option (\<lambda>(e, vmm', s'). (e, s')) (vmm_fault_handler pf mem kthread v flags vmm s) =
       fault_spec pf kthread v flags (map (regs vmm) (regions_root vmm)) s \<and>
     (case vmm_fault_handler pf mem kthread v flags vmm s of
        None \<Rightarrow> True
      | Some (e, vmm', s') \<Rightarrow> vmm_ok vmm' \<and> regions_root vmm' = regions_root vmm \<and> regs vmm' = regs vmm)"
proof -
  obtain c where l: "keysdb_lookup (regions_db vmm) (drop_bit 16 v) = Some c" and c: "c = None \<or> c = vm_region_find vmm v" using keys_cache [OF ok] by blast
  have reg: "(if c = None then vm_region_find vmm v else c) = vm_region_find vmm v" using c by auto
  note f = find_region [OF ok, of v]
  have inv: "vmm_inv vmm" using ok by (simp add: vmm_ok_def)
  consider (kern) "CONFIG_KERNEL_OFFSET \<le> v" | (kthr) "\<not> CONFIG_KERNEL_OFFSET \<le> v" "kthread" | (usr) "\<not> CONFIG_KERNEL_OFFSET \<le> v" "\<not> kthread" by blast
  then show ?thesis
  proof cases
    case kern
    then show ?thesis using ok by (simp add: vmm_fault_handler_def fault_spec_def)
  next
    case kthr
    then show ?thesis using ok by (simp add: vmm_fault_handler_def fault_spec_def)
  next
    case usr
    let ?bad = "vm_region_find vmm v = None \<or> v > vm_limit (regs vmm (the (vm_region_find vmm v))) \<or> v < vm_start (regs vmm (the (vm_region_find vmm v)))"
    show ?thesis
    proof (cases ?bad)
      case True
      have "List.find (\<lambda>r. vm_start r \<le> v \<and> v \<le> vm_limit r \<and> v < vm_end r) (map (regs vmm) (regions_root vmm)) = None"
        unfolding find_map f using True by (auto split: option.splits)
      moreover have "vmm_fault_handler pf mem kthread v flags vmm s = Some (if pmm_except_isInKernelMode flags then VMM_ECHECKUSPACE else VMM_ESIGBUS, vmm, s)"
        unfolding vmm_fault_handler_def Let_def l option.case reg if_P [OF True] using usr by simp
      ultimately show ?thesis using usr ok by (simp add: fault_spec_def)
    next
      case False
      then obtain r where r: "vm_region_find vmm v = Some r" "\<not> (v > vm_limit (regs vmm r) \<or> v < vm_start (regs vmm r))" by auto
      have rs: "r \<in> set (regions_root vmm)" using r(1) unfolding vm_region_find_eq [OF inv] by (auto simp: find_Some_iff)
      have fi: "List.find (\<lambda>r. vm_start r \<le> v \<and> v \<le> vm_limit r \<and> v < vm_end r) (map (regs vmm) (regions_root vmm)) = Some (regs vmm r)"
        unfolding find_map f using r by simp
      obtain db where u: "(if c = None then vmm_keysdb_update mem r vmm else Some vmm) = Some (vmm\<lparr>regions_db := db\<rparr>)" "vmm_ok (vmm\<lparr>regions_db := db\<rparr>)"
      proof (cases "c = None")
        case True
        then show ?thesis using vmm_keysdb_update_ok [OF ok rs, of mem] that by auto
      next
        case False
        have "vmm\<lparr>regions_db := regions_db vmm\<rparr> = vmm" by simp
        then show ?thesis using that [of "regions_db vmm"] ok unfolding if_not_P [OF False] by simp
      qed
      have h: "vmm_fault_handler pf mem kthread v flags vmm s = (case vm_region_update pf (regs vmm r) v flags s of None \<Rightarrow> None
          | Some (err, s) \<Rightarrow> Some (if err \<noteq> 0 then VMM_ESIGBUS else VMM_ERESOLVED, vmm\<lparr>regions_db := db\<rparr>, s))"
        unfolding vmm_fault_handler_def Let_def l option.case reg if_not_P [OF False] unfolding r(1) option.sel u(1) option.case using usr by simp
      show ?thesis unfolding h using usr u(2) fi by (auto simp: fault_spec_def split: option.splits)
    qed
  qed
qed

section \<open>Mapping and unmapping\<close>

text \<open>Several calls of \<^verbatim>\<open>sbrk\<close>, up to the first error.\<close>

fun sbrk_calls :: "nat \<Rightarrow> uint_t \<Rightarrow> uint_t \<Rightarrow> vmm_s \<Rightarrow> (error_t \<times> vmm_s) option" where
  "sbrk_calls 0 cur sz vmm = Some (0, vmm)"
| "sbrk_calls (Suc n) cur sz vmm =
     (case vmm_sbrk cur sz vmm of None \<Rightarrow> None | Some (err, vmm) \<Rightarrow> if err \<noteq> 0 then Some (err, vmm) else sbrk_calls n cur sz vmm)"

text \<open>\<^verbatim>\<open>sbrk\<close> adds to the limit of the heap region but never moves \<^verbatim>\<open>heap_current\<close>, against which it tests: a size that is
  granted once is granted every time, and the limit grows past every bound, also past the end of the region.\<close>

theorem vmm_sbrk_unbounded:
  assumes "heap_region vmm = Some h" and "heap_current vmm \<le> cur" and "heap_current vmm + sz \<le> CONFIG_TASK_HEAP_MAX_SIZE"
  shows "sbrk_calls n cur sz vmm = Some (0, vmm\<lparr>regs := (regs vmm)(h := (regs vmm h)\<lparr>vm_limit := vm_limit (regs vmm h) + of_nat n * sz\<rparr>)\<rparr>)"
  using assms
proof (induction n arbitrary: vmm)
  case 0
  then show ?case by simp
next
  case (Suc n)
  let ?v = "vmm\<lparr>regs := (regs vmm)(h := (regs vmm h)\<lparr>vm_limit := vm_limit (regs vmm h) + sz\<rparr>)\<rparr>"
  have "\<not> cur < heap_current vmm" "\<not> CONFIG_TASK_HEAP_MAX_SIZE < heap_current vmm + sz" using Suc.prems(2,3) by simp_all
  then have "vmm_sbrk cur sz vmm = Some (0, ?v)" using Suc.prems(1) by (simp add: vmm_sbrk_def)
  then have "sbrk_calls (Suc n) cur sz vmm = sbrk_calls n cur sz ?v" by simp
  also have "\<dots> = Some (0, ?v\<lparr>regs := (regs ?v)(h := (regs ?v h)\<lparr>vm_limit := vm_limit (regs ?v h) + of_nat n * sz\<rparr>)\<rparr>)"
    by (rule Suc.IH) (use Suc.prems in simp_all)
  also have "(regs ?v)(h := (regs ?v h)\<lparr>vm_limit := vm_limit (regs ?v h) + of_nat n * sz\<rparr>) =
      (regs vmm)(h := (regs vmm h)\<lparr>vm_limit := vm_limit (regs vmm h) + of_nat (Suc n) * sz\<rparr>)" by (auto simp: fun_eq_iff algebra_simps)
  finally show ?case by simp
qed
























section \<open>Witnesses\<close>

lemma wit_vmm_regs_more:
  "vm_start (wit_region 0x10000 0x18000) = 0x10000" "vm_limit (wit_region 0x10000 0x18000) = 0x18000"
  "vm_start (wit_region 0x40000 0x50000) = 0x40000" "vm_limit (wit_region 0x40000 0x50000) = 0x50000"
  "vm_prot (wit_region 0x10000 0x18000) = VM_REG_RD OR VM_REG_WR" "vm_flags (wit_region 0x10000 0x18000) = VM_REG_ANON"
  by (simp_all add: wit_region_def vm_region_init_def Let_def)

lemma wit_vmm_ok: "vmm_ok wit_vmm"
proof -
  have "regions_db wit_vmm = demo_db" by (simp add: wit_vmm_def)
  moreover have "\<forall>r\<in>set (regions_root wit_vmm). region_wf (regs wit_vmm r)"
    by (simp add: wit_vmm_def region_wf_def wit_vmm_regs wit_vmm_regs_more)
  ultimately show ?thesis using wit_vmm_inv demo_db_ok by (simp add: vmm_ok_def keys_ok_def)
qed

text \<open>A write at 0x12345 is given to the first region, one at 0x30000 to none.\<close>

theorem vmm_fault_handler_refines_witness:
  "map_option (\<lambda>(e, vmm', s'). (e, s')) (vmm_fault_handler (\<lambda>r v fl n. Some (0, Suc n)) (\<lambda>_. True) False 0x12345 0x2 wit_vmm 0) = Some (VMM_ERESOLVED, 1) \<and>
   map_option (\<lambda>(e, vmm', s'). (e, s')) (vmm_fault_handler (\<lambda>r v fl n. Some (0, Suc n)) (\<lambda>_. True) False 0x30000 0x2 wit_vmm 0) = Some (VMM_ESIGBUS, 0)"
  unfolding vmm_fault_handler_refines [OF wit_vmm_ok, THEN conjunct1]
  by (simp add: fault_spec_def wit_vmm_def wit_vmm_regs wit_vmm_regs_more vm_region_update_def)

theorem vmm_sbrk_unbounded_witness:
  "sbrk_calls 3 0 0x1000 (wit_vmm\<lparr>heap_region := Some 1\<rparr>) =
     Some (0, wit_vmm\<lparr>heap_region := Some 1, regs := (regs wit_vmm)(1 := (wit_region 0x10000 0x18000)\<lparr>vm_limit := 0x1B000\<rparr>)\<rparr>)"
  using vmm_sbrk_unbounded [of "wit_vmm\<lparr>heap_region := Some 1\<rparr>" 1 0 "0x1000" 3] by (simp add: wit_vmm_def wit_vmm_regs_more)


end
