(* ===== verification/Spec2Isabelle.thy ===== *)
theory Spec2Isabelle
  imports KCM HeapManager RwLock Fifo KeysDB LibK Alarm Barrier Sched Mcs Event RBTree Pmm VmRegion VmPage Vmm
begin

text \<open>
  ALMOS is a Unix-like kernel for many-core machines with distributed memory (\<^verbatim>\<open>src/kernel\<close>). This
  development models the parts of the kernel that carry its own logic, on the 32-bit target and in the
  configuration of \<^verbatim>\<open>kernel-config.h\<close> for TSAR, and proves them correct, or proves where they are not.

  \<^bold>\<open>The parts and how they interact.\<close> Each cluster of processors has a physical page manager. The
  object caches take their pages from the page managers of all clusters, with a policy that may go to
  other clusters. Page descriptors carry a lock with a wait queue and a dirty state that the mapper writes
  back. All blocking primitives (page locks, semaphores, condition variables, reader-writer locks,
  barriers) are built from spinlocks, wait queues and the wake-up of the scheduler. Each processor has
  a scheduler with a round-robin policy; other processors reach it through its event ports. Alarms
  and FIFOs pass events between interrupt handlers, processors and threads. Key tables, bitmaps, circular
  lists and the memory and string routines serve all of them.

  \<^bold>\<open>Theories and sources.\<close>
  \<^item> \<open>Prelude\<close>: machine types and error codes of \<^verbatim>\<open>libk/types.h\<close> and \<^verbatim>\<open>libk/errno.h\<close>, fact collections, generic lemmas.
  \<^item> \<open>Bits\<close> (\<^verbatim>\<open>libk/bits.c\<close>, \<^verbatim>\<open>bits.h\<close>): bitmaps as lists of words; searches and range operations as statements on
    single bits. The locale \<open>bitset\<close> is what the allocators use.
  \<^item> \<open>DList\<close> (\<^verbatim>\<open>libk/list.h\<close>): intrusive circular lists over a store of link fields, refined to lists (locale \<open>entry_list\<close>).
  \<^item> \<open>WaitQueue\<close> (\<^verbatim>\<open>kern/wait_queue.c\<close>): queues of sleeping threads; the locale \<open>handoff_lock\<close> states and proves once
    what a lock handed over through a wait queue guarantees.
  \<^item> \<open>Page\<close> (\<^verbatim>\<open>mm/page.c\<close>, the flush of \<^verbatim>\<open>mm/mapper.c\<close>): page locks, state automaton, dirty list.
  \<^item> \<open>Buddy\<close>, \<open>PPM\<close> (\<^verbatim>\<open>mm/ppm.c\<close>): the theory of aligned blocks; the buddy allocator with its descriptors and free
    lists, its initialisation and the allocation policy over the clusters (locale \<open>page_allocator\<close>).
  \<^item> \<open>KCM\<close> (\<^verbatim>\<open>mm/kcm.c\<close>): object caches over the pages of all clusters (locale \<open>kcm_provider\<close>).
  \<^item> \<open>HeapManager\<close> (\<^verbatim>\<open>mm/heap_manager.c\<close>): first-fit heaps of headed blocks.
  \<^item> \<open>Spinlock\<close> (\<^verbatim>\<open>kern/spinlock.c\<close>, \<^verbatim>\<open>atomic.c\<close>), \<open>Semaphore\<close> (\<^verbatim>\<open>kern/semaphore.c\<close>, \<^verbatim>\<open>cond_var.c\<close>), \<open>RwLock\<close>
    (\<^verbatim>\<open>kern/rwlock.c\<close>), \<open>Barrier\<close> (\<^verbatim>\<open>kern/barrier.c\<close>): synchronisation, as step relations over the atomic parts
    of the operations.
  \<^item> \<open>Fifo\<close> (\<^verbatim>\<open>kern/kfifo.c\<close>, \<^verbatim>\<open>mwmr.c\<close>): FIFOs as queues (locale \<open>bounded_queue\<close>), and the pointer FIFO
    with one writer and one reader under interleaved loads and stores; the modes with several writers or readers are only shown one call at a time.
  \<^item> \<open>KeysDB\<close> (\<^verbatim>\<open>kern/keysdb.c\<close>): the two-level key table as a map (locale \<open>key_table\<close>).
  \<^item> \<open>Alarm\<close> (\<^verbatim>\<open>kern/time.c\<close>): the sorted alarm queue over the intrusive list; time accounting.
  \<^item> \<open>Sched\<close> (\<^verbatim>\<open>kern/scheduler.c\<close>, \<^verbatim>\<open>rr-sched.c\<close>): queues, counters, event ports, election, load balancing and the life
    of the threads of a processor as a step relation.
  \<^item> \<open>LibK\<close> (\<^verbatim>\<open>libk/memcpy.c\<close>, \<^verbatim>\<open>memset.c\<close>, \<^verbatim>\<open>str*.c\<close>, \<^verbatim>\<open>atoi.c\<close>, \<^verbatim>\<open>ctype.c\<close>, \<^verbatim>\<open>rand.c\<close>): memory and string routines over a
    byte memory.
  \<^item> \<open>Mcs\<close> (\<^verbatim>\<open>kern/mcs_sync.c\<close>): ticket locks and sense-reversing barriers of spinning processors.
  \<^item> \<open>Event\<close> (\<^verbatim>\<open>kern/event.c\<close>): the event listeners of a processor. A local listener is a table of lists
    by priority, a remote one a table of the FIFOs of \<open>Fifo\<close>; what handlers and interrupts send is a parameter.
    Local notification terminates and delivers in order of priority. The flag protocol of the remote listener is shown for atomic
    puts and gets of its FIFOs, which \<^verbatim>\<open>multi_put\<close> does not give: it publishes the index before the value, so that a remote event can be
    lost (\<open>kfifo_multi_put_lost\<close> in \<open>Fifo\<close>).
  \<^item> \<open>RBTree\<close> (\<^verbatim>\<open>libk/rbtree.c\<close>): red-black trees, a node being a subtree with its path to the root; insertion and
    deletion keep the colour and height invariants and the order.
  \<^item> \<open>Pmm\<close> (\<^verbatim>\<open>arch/tsar/pmm.c\<close>): two-level page tables; they stand for a map from pages to attributes and page
    numbers that each operation on pages and regions changes only where it should.
  \<^item> \<open>VmRegion\<close> (\<^verbatim>\<open>mm/vm_region.c\<close>): the regions of an address space in a list and in a red-black tree; both searches
    agree, and attaching places a region in the first gap.
  \<^item> \<open>VmPage\<close> (\<^verbatim>\<open>mm/vmm.c\<close>, \<^verbatim>\<open>mm/vm_region.c\<close>): single pages of all address spaces over \<open>Pmm\<close> with the page
    descriptors of \<open>Page\<close>: demand allocation, copy on write, mapped and migrating pages, the duplication and release of the pages of a
    region. Counts of frames are the numbers of their mappings, and a copy on write isolates.
  \<^item> \<open>Vmm\<close> (\<^verbatim>\<open>mm/vmm.c\<close>): the fault handler over \<open>VmRegion\<close> and \<open>KeysDB\<close>, \<^verbatim>\<open>mmap\<close>, \<^verbatim>\<open>munmap\<close> and \<^verbatim>\<open>sbrk\<close>. The table of keys
    is a cache of the tree of regions, the handler refines its specification over the list of regions, and \<^verbatim>\<open>munmap\<close> undoes
    \<^verbatim>\<open>mmap\<close>.

  \<^bold>\<open>Conventions.\<close> Structures are records with the fields of the C structure; a list field is the list of its
  elements where only \<^verbatim>\<open>list.h\<close> touches it (\<open>DList\<close> justifies this), and the store of links itself in \<open>DList\<close> and
  \<open>Alarm\<close>. An access outside a table, or the use of an element of an empty list, is the value \<open>None\<close>, and the safety theorems
  show that it is not reached. Counters keep their width wherever it matters. \<^verbatim>\<open>assert\<close> is compiled to a
  message and is not a guard. The interleaving of threads and processors is a step relation over the parts of the code
  that are atomic, either because a lock is held or because the access is one instruction; its
  invariants are proved by rule induction.

  \<^bold>\<open>Loops and fuel.\<close> Loops with a bound in the code are structural or have a measure. The walks over
  links and heap blocks take fuel; the theorems show that the number of entries or of granules of the heap is
  enough. \<^verbatim>\<open>sync_all_pages\<close>, \<^verbatim>\<open>atoi\<close> and the search of the heap may not end: there not returning
  is the value \<open>None\<close> of a \<open>partial_function\<close> or of every amount of fuel, and both sides are proved.

  \<^bold>\<open>What the theorems show.\<close> Memory safety and functional correctness of the allocators with their
  round trip and their initialisation; mutual exclusion, order of service and absence of lost wake-ups of
  the locks and of the scheduler over all interleavings of the callers that keep the conditions stated with each theorem; refinement of FIFOs and tables to queues and maps;
  equivalence of the word-wise memory routines with byte-wise ones; and the cases in which the code does not do what
  it means to: these theorems carry the errors listed as findings.

  \<^bold>\<open>Not modelled.\<close> Drivers, processor and platform code (hardware access, assembly), the boot sequence, the
  in-kernel shell, printing, and the file systems (\<^verbatim>\<open>vfs\<close>, \<^verbatim>\<open>fs\<close>), whose logic rests on device I/O.
  Tasks, the life cycle of an address space as a whole (\<^verbatim>\<open>vmm_init\<close>, \<^verbatim>\<open>vmm_dup\<close>, \<^verbatim>\<open>vmm_destroy\<close>), the invalidation of shared pages across
  address spaces, the migration of threads, the load tree (\<^verbatim>\<open>dqdt\<close>) and \<^verbatim>\<open>elf\<close> loading are not modelled yet. User libraries under
  \<^verbatim>\<open>src/sys\<close> are third-party code or user programs.
\<close>

end
